(* ===== verification/Prelude.thy ===== *)
theory Prelude
  imports Main "HOL-Library.Word" "HOL-Library.Monad_Syntax" "HOL-Library.Multiset"
begin

text \<open>
  Shared material of the development: the names of the machine types, the
  collections of rewrite rules, the C idioms that occur in several components
  (rounding macros, the remainder that truncates towards zero, overwriting a part of
  a buffer with \<open>memcpy\<close>, POSIX positioned reads and writes) and their lemmas.

  Results of fallible code are \<open>option\<close> values combined with the \<open>do\<close> notation of
  the library: \<open>None\<close> means that the C code has no defined result at this point (an
  access outside an array, a null or dangling pointer). Error returns of the C code are
  ordinary values.
\<close>

unbundle bit_operations_syntax

type_synonym u8 = "8 word"
type_synonym u32 = "32 word"
type_synonym u64 = "64 word"

named_theorems buf_simps \<open>lengths and elements of overwritten buffers\<close>
named_theorems frame_simps \<open>parts of the state that an operation leaves alone\<close>

section \<open>Options\<close>

lemma bind_SomeE:
  assumes "Option.bind m f = Some y"
  obtains x where "m = Some x" and "f x = Some y"
  using assms by (auto simp: Option.bind_eq_Some_conv)

text \<open>A guard: the C code goes on only when the access is allowed.\<close>

definition guard_opt :: "bool \<Rightarrow> unit option" where
  "guard_opt b = (if b then Some () else None)"

lemma guard_opt_simps [simp]:
  "guard_opt True = Some ()" "guard_opt False = None"
  "(guard_opt b = Some u) = b" "(guard_opt b = None) = (\<not> b)"
  by (auto simp: guard_opt_def)

lemma bind_guard [simp]: "Option.bind (guard_opt b) f = (if b then f () else None)"
  by (simp add: guard_opt_def)

section \<open>Rounding (fs/round.h) and the C remainder\<close>

text \<open>The macros are used with \<open>STEP \<ge> 1\<close> and non-negative \<open>X\<close> only.\<close>

definition ROUND_UP :: "nat \<Rightarrow> nat \<Rightarrow> nat" where
  "ROUND_UP x step = ((x + step - 1) div step) * step"

definition DIV_ROUND_UP :: "nat \<Rightarrow> nat \<Rightarrow> nat" where
  "DIV_ROUND_UP x step = (x + step - 1) div step"

definition ROUND_DOWN :: "nat \<Rightarrow> nat \<Rightarrow> nat" where
  "ROUND_DOWN x step = (x div step) * step"

lemma DIV_ROUND_UP_1 [simp]: "DIV_ROUND_UP n 1 = n" "DIV_ROUND_UP n (Suc 0) = n"
  by (simp_all add: DIV_ROUND_UP_def)

lemma DIV_ROUND_UP_0 [simp]: "0 < k \<Longrightarrow> DIV_ROUND_UP 0 k = 0"
  by (simp add: DIV_ROUND_UP_def)

lemma DIV_ROUND_UP_le: "0 < k \<Longrightarrow> n \<le> DIV_ROUND_UP n k * k"
proof -
  assume k: "0 < k"
  have "n + k - 1 = (n + k - 1) div k * k + (n + k - 1) mod k" by simp
  moreover have "(n + k - 1) mod k < k" using k by simp
  ultimately show ?thesis unfolding DIV_ROUND_UP_def using k by linarith
qed

lemma DIV_ROUND_UP_less: "0 < k \<Longrightarrow> DIV_ROUND_UP n k * k < n + k"
proof -
  assume k: "0 < k"
  have "(n + k - 1) div k * k \<le> n + k - 1" by simp
  then show ?thesis unfolding DIV_ROUND_UP_def using k by linarith
qed

lemma less_DIV_ROUND_UP_iff: "0 < k \<Longrightarrow> i < DIV_ROUND_UP n k \<longleftrightarrow> i * k < n"
proof
  assume k: "0 < k" and i: "i < DIV_ROUND_UP n k"
  from i have "Suc i * k \<le> DIV_ROUND_UP n k * k" by (intro mult_le_mono1) simp
  with DIV_ROUND_UP_less [OF k, of n] show "i * k < n" by simp
next
  assume k: "0 < k" and n: "i * k < n"
  with DIV_ROUND_UP_le [OF k, of n] have "i * k < DIV_ROUND_UP n k * k" by linarith
  then show "i < DIV_ROUND_UP n k" by simp
qed

lemma div_less_DIV_ROUND_UP: "0 < k \<Longrightarrow> p < n \<Longrightarrow> p div k < DIV_ROUND_UP n k"
proof -
  assume k: "0 < k" and p: "p < n"
  have "p div k * k \<le> p" by simp
  with p have "p div k * k < n" by linarith
  with k show ?thesis by (simp add: less_DIV_ROUND_UP_iff)
qed

text \<open>
  \<open>%\<close> of C truncates towards zero, unlike \<open>mod\<close> on \<open>int\<close>; the two agree on
  non-negative arguments.
\<close>

definition c_rem :: "int \<Rightarrow> int \<Rightarrow> int" where
  "c_rem a b = sgn a * (\<bar>a\<bar> mod \<bar>b\<bar>)"

lemma c_rem_nonneg [simp]: "0 \<le> a \<Longrightarrow> 0 \<le> b \<Longrightarrow> c_rem a b = a mod b"
  by (cases "a = 0") (simp_all add: c_rem_def sgn_if)

section \<open>Buffers\<close>

text \<open>\<open>memcpy(dst + off, src, n)\<close> on a buffer that is long enough.\<close>

definition overwrite :: "'a list \<Rightarrow> nat \<Rightarrow> 'a list \<Rightarrow> 'a list" where
  "overwrite dst off src = take off dst @ src @ drop (off + length src) dst"

lemma length_overwrite [simp, buf_simps]:
  "off + length src \<le> length dst \<Longrightarrow> length (overwrite dst off src) = length dst"
  by (simp add: overwrite_def)

lemma nth_overwrite [buf_simps]:
  assumes "off + length src \<le> length dst" and "i < length dst"
  shows "overwrite dst off src ! i =
    (if off \<le> i \<and> i < off + length src then src ! (i - off) else dst ! i)"
  using assms by (auto simp: overwrite_def nth_append min_def)

lemma overwrite_Nil [simp]: "overwrite dst off [] = dst"
  by (simp add: overwrite_def)

lemma overwrite_all [simp]: "length src = length dst \<Longrightarrow> overwrite dst 0 src = src"
  by (simp add: overwrite_def)

lemma take_drop_overwrite_same:
  "off + length src \<le> length dst \<Longrightarrow> take (length src) (drop off (overwrite dst off src)) = src"
  by (simp add: overwrite_def)

lemma take_drop_overwrite_below:
  assumes "i + n \<le> off" and "off + length src \<le> length dst"
  shows "take n (drop i (overwrite dst off src)) = take n (drop i dst)"
  using assms by (intro nth_equalityI) (auto simp: nth_overwrite)

lemma take_drop_overwrite_above:
  assumes "off + length src \<le> i" and "off + length src \<le> length dst"
  shows "take n (drop i (overwrite dst off src)) = take n (drop i dst)"
  using assms by (intro nth_equalityI) (auto simp: nth_overwrite)

text \<open>
  \<open>lseek\<close> followed by \<open>read\<close>, and \<open>lseek\<close> followed by \<open>write\<close>, on a
  regular file given by its bytes: a read past the end is short, a write past the end
  extends the file and fills the gap with zeros.
\<close>

definition pread :: "'a list \<Rightarrow> nat \<Rightarrow> nat \<Rightarrow> 'a list" where
  "pread img off n = take n (drop off img)"

definition pwrite :: "'a::zero list \<Rightarrow> nat \<Rightarrow> 'a list \<Rightarrow> 'a list" where
  "pwrite img off src = overwrite (img @ replicate (off + length src - length img) 0) off src"

lemma pwrite_inside: "off + length src \<le> length img \<Longrightarrow> pwrite img off src = overwrite img off src"
  by (simp add: pwrite_def)

lemma length_pread: "off + n \<le> length img \<Longrightarrow> length (pread img off n) = n"
  by (simp add: pread_def)

lemma length_pwrite: "length (pwrite img off src) = max (length img) (off + length src)"
  by (simp add: pwrite_def)

lemma pread_pwrite_same:
  "pread (pwrite img off src) off (length src) = src"
  unfolding pread_def pwrite_def by (rule take_drop_overwrite_same) simp

lemma pread_pwrite_other:
  assumes "off + length src \<le> length img" and "i + n \<le> off \<or> off + length src \<le> i"
  shows "pread (pwrite img off src) i n = pread img i n"
  using assms
  by (auto simp: pread_def pwrite_inside take_drop_overwrite_below take_drop_overwrite_above)

section \<open>Little-endian words\<close>

text \<open>
  The code copies C structures to and from disk sectors with \<open>memcpy\<close>. The
  layout is that of the little-endian 64-bit platform the program is built for.
\<close>

fun le_bytes :: "nat \<Rightarrow> 'a::len word \<Rightarrow> u8 list" where
  "le_bytes 0 w = []"
| "le_bytes (Suc n) w = ucast w # le_bytes n (drop_bit 8 w)"

fun le_word :: "u8 list \<Rightarrow> 'a::len word" where
  "le_word [] = 0"
| "le_word (b # bs) = ucast b OR push_bit 8 (le_word bs)"

lemma length_le_bytes [simp]: "length (le_bytes n w) = n"
  by (induction n arbitrary: w) auto

lemma bit_le_word:
  "bit (le_word bs :: 'a::len word) i \<longleftrightarrow>
    i < LENGTH('a) \<and> i < 8 * length bs \<and> bit (bs ! (i div 8)) (i mod 8)"
proof (induction bs arbitrary: i)
  case Nil
  then show ?case by simp
next
  case (Cons b bs)
  show ?case
  proof (cases "i < 8")
    case True
    then show ?thesis by (auto simp: bit_simps)
  next
    case False
    then have "i div 8 = Suc ((i - 8) div 8)" "(i - 8) mod 8 = i mod 8"
      by (simp_all add: le_div_geq le_mod_geq)
    moreover have "\<not> bit b i"
      using False by (auto dest: bit_imp_le_length)
    ultimately show ?thesis
      using False Cons.IH [of "i - 8"] by (auto simp: bit_simps)
  qed
qed

lemma nth_le_bytes:
  "i < n \<Longrightarrow> le_bytes n w ! i = ucast (drop_bit (8 * i) w)"
proof (induction n arbitrary: w i)
  case 0
  then show ?case by simp
next
  case (Suc n)
  then show ?case by (cases i) (simp_all add: algebra_simps)
qed

lemma le_word_bytes:
  assumes "LENGTH('a::len) \<le> 8 * n"
  shows "le_word (le_bytes n (w :: 'a word)) = w"
proof (rule bit_word_eqI)
  fix i assume "i < LENGTH('a)"
  moreover from this assms have "i div 8 < n" by (simp add: less_mult_imp_div_less)
  ultimately show "bit (le_word (le_bytes n w) :: 'a word) i = bit w i"
    using assms by (simp add: bit_le_word nth_le_bytes bit_simps)
qed

lemma le_word_u32 [simp]: "le_word (le_bytes 4 (w :: u32)) = w"
  by (rule le_word_bytes) simp

lemma le_word_u64 [simp]: "le_word (le_bytes 8 (w :: u64)) = w"
  by (rule le_word_bytes) simp

lemma le_bytes_word:
  assumes "length bs = n" and "LENGTH('a::len) = 8 * n"
  shows "le_bytes n (le_word bs :: 'a word) = bs"
proof (rule nth_equalityI)
  fix i assume i: "i < length (le_bytes n (le_word bs :: 'a word))"
  show "le_bytes n (le_word bs :: 'a word) ! i = bs ! i"
  proof (rule bit_word_eqI)
    fix j assume j: "j < LENGTH(8)"
    then have "(8 * i + j) div 8 = i" "(8 * i + j) mod 8 = j" by simp_all
    with i j assms show "bit (le_bytes n (le_word bs :: 'a word) ! i) j = bit (bs ! i) j"
      by (auto simp: nth_le_bytes bit_le_word bit_simps)
  qed
qed (simp add: assms)

lemma le_bytes_u32 [simp]: "length bs = 4 \<Longrightarrow> le_bytes 4 (le_word bs :: u32) = bs"
  by (rule le_bytes_word) simp_all

text \<open>Consecutive words of \<open>k\<close> bytes each, as an array in a structure.\<close>

fun le_chunks :: "nat \<Rightarrow> nat \<Rightarrow> u8 list \<Rightarrow> 'a::len word list" where
  "le_chunks k 0 bs = []"
| "le_chunks k (Suc n) bs = le_word (take k bs) # le_chunks k n (drop k bs)"

lemma length_le_chunks [simp]: "length (le_chunks k n bs) = n"
  by (induction n arbitrary: bs) auto

lemma nth_le_chunks:
  "i < n \<Longrightarrow> le_chunks k n bs ! i = le_word (take k (drop (k * i) bs))"
proof (induction n arbitrary: bs i)
  case 0
  then show ?case by simp
next
  case (Suc n)
  then show ?case by (cases i) (simp_all add: algebra_simps)
qed

lemma length_concat_le [simp]:
  "length (concat (map (le_bytes k) ws)) = k * length ws"
  by (induction ws) auto

lemma le_chunks_concat:
  assumes "LENGTH('a::len) \<le> 8 * k"
  shows "le_chunks k (length ws) (concat (map (le_bytes k) (ws :: 'a word list)) @ rest) = ws"
  using assms by (induction ws) (simp_all add: le_word_bytes)

lemma concat_le_chunks:
  assumes "LENGTH('a::len) = 8 * k" and "k * n \<le> length bs"
  shows "concat (map (le_bytes k) (le_chunks k n bs :: 'a word list)) = take (k * n) bs"
  using assms(2)
proof (induction n arbitrary: bs)
  case 0
  then show ?case by simp
next
  case (Suc n)
  then have "concat (map (le_bytes k) (le_chunks k n (drop k bs) :: 'a word list)) = take (k * n) (drop k bs)"
    by simp
  with Suc.prems assms(1) show ?case by (simp add: le_bytes_word take_add)
qed

section \<open>Lists of blocks of equal length\<close>

lemma length_concat_blocks: "\<forall>x \<in> set xs. length x = k \<Longrightarrow> length (concat xs) = k * length xs"
  by (induction xs) auto

lemma take_drop_map_upt:
  "i + n \<le> m \<Longrightarrow> take n (drop i (map f [0..<m])) = map f [i..<i + n]"
  by (simp add: take_map drop_map)

section \<open>Numbers in output\<close>

text \<open>The conversions \<open>%u\<close> and \<open>%d\<close> of \<open>printf\<close>.\<close>

fun show_nat :: "nat \<Rightarrow> string" where
  "show_nat n = (if n < 10 then [char_of (48 + n)] else show_nat (n div 10) @ [char_of (48 + n mod 10)])"

declare show_nat.simps [simp del]

definition show_int :: "int \<Rightarrow> string" where
  "show_int i = (if i < 0 then CHR ''-'' # show_nat (nat (- i)) else show_nat (nat i))"

section \<open>The host\<close>

text \<open>
  The effects of a program on the host, in the order they happen (\<open>Out\<close> is a line of output,
  \<open>Raw\<close> output without a newline of its own, \<open>Put_file\<close> the new content of a file), and the answers of the host, which may depend
  on what has happened so far: the content of a file opened for reading, whether a file can
  be created, the result of \<open>system\<close>, \<open>chdir\<close> and \<open>stat\<close>. \<open>exit\<close> is the outcome \<open>Exited\<close>.
\<close>

datatype event = Out string | Raw string | System string | Touch string | Chdir string | Rmdir string | Put_file string string

datatype outcome = Returned int | Exited int

record host =
  open_read :: "event list \<Rightarrow> string \<Rightarrow> string option"
  create_ok :: "event list \<Rightarrow> string \<Rightarrow> bool"
  system_code :: "event list \<Rightarrow> string \<Rightarrow> int"
  chdir_ok :: "event list \<Rightarrow> string \<Rightarrow> bool"
  path_exists :: "event list \<Rightarrow> string \<Rightarrow> bool"
  is_directory :: "event list \<Rightarrow> string \<Rightarrow> bool"

end
