(* ===== verification/Fs_Block.thy ===== *)
theory Fs_Block
  imports Prelude
begin

text \<open>
  The block layer of the file system: \<open>fs/block.c\<close> (devices and their bounds check),
  \<open>fs/ide.c\<close> (the driver that keeps the sectors in a file of the host) and
  \<open>fs/partition.c\<close> (partitions as devices on top of another device, and the scan of
  the partition table).

  A device is a value of the datatype \<open>block\<close>; the pair of function pointers and the
  \<open>aux\<close> pointer of the C structure are the datatype \<open>block_ops\<close>. The file of the host is
  the byte list \<open>image\<close>. \<open>PANIC\<close> and a failing \<open>ASSERT\<close> call \<open>debug_panic\<close>
  (\<open>fs/debug.c\<close>), which prints a line and returns: the model counts the reports of
  \<open>check_sector\<close> in \<open>panics\<close> and goes on, as the code does.
\<close>

abbreviation BLOCK_SECTOR_SIZE :: nat where "BLOCK_SECTOR_SIZE \<equiv> 512"

section \<open>Devices\<close>

datatype block =
  Block (block_name: string) (block_fname: string) (block_size: u32) (blk_ops: block_ops)
    (read_cnt: u64) (write_cnt: u64)
and block_ops = Ide_ops | Partition_ops block u32

text \<open>
  \<open>fd\<close> is the result of \<open>open\<close> (negative when it failed), \<open>image\<close> the
  content of the host's file.
\<close>

record disk =
  fd :: int
  image :: "u8 list"
  panics :: nat
  hard_drive :: "block option"

definition block_get_hd :: "'a disk_scheme \<Rightarrow> block option" where
  "block_get_hd d = hard_drive d"

definition block_set_hd :: "block \<Rightarrow> 'a disk_scheme \<Rightarrow> 'a disk_scheme" where
  "block_set_hd b d = d\<lparr>hard_drive := Some b\<rparr>"

definition check_sector :: "block \<Rightarrow> u32 \<Rightarrow> 'a disk_scheme \<Rightarrow> 'a disk_scheme" where
  "check_sector b sector d =
    (if block_size b \<le> sector then d\<lparr>panics := Suc (panics d)\<rparr> else d)"

section \<open>The IDE driver\<close>

text \<open>
  \<open>sec_no * BLOCK_SECTOR_SIZE\<close> is computed in 32 bits, because \<open>block_sector_t\<close> is
  \<open>uint32_t\<close> and the literal an \<open>int\<close>; only then is it widened to \<open>off_t\<close>.
\<close>

definition ide_offset :: "u32 \<Rightarrow> nat" where
  "ide_offset sec_no = unat (sec_no * 512)"

definition ide_read :: "'a disk_scheme \<Rightarrow> u32 \<Rightarrow> u8 list \<Rightarrow> u8 list" where
  "ide_read d sec_no buf =
    (if fd d < 0 then buf
     else overwrite buf 0 (pread (image d) (ide_offset sec_no) BLOCK_SECTOR_SIZE))"

definition ide_write :: "'a disk_scheme \<Rightarrow> u32 \<Rightarrow> u8 list \<Rightarrow> 'a disk_scheme" where
  "ide_write d sec_no buf =
    (if fd d < 0 then d
     else d\<lparr>image := pwrite (image d) (ide_offset sec_no) (take BLOCK_SECTOR_SIZE buf)\<rparr>)"

section \<open>Reading and writing sectors\<close>

text \<open>
  \<open>block_read\<close> checks the sector against the size of the device and calls the driver in
  any case; the driver of a partition calls \<open>block_read\<close> of the device below, one sector
  further than the start of the partition. The buffer passed in is the memory the data is
  copied to; a short read leaves the rest of it.
\<close>

primrec block_read :: "block \<Rightarrow> u32 \<Rightarrow> u8 list \<Rightarrow> 'a disk_scheme \<Rightarrow> u8 list \<times> block \<times> 'a disk_scheme"
and driver_read :: "block_ops \<Rightarrow> u32 \<Rightarrow> u8 list \<Rightarrow> 'a disk_scheme \<Rightarrow> u8 list \<times> block_ops \<times> 'a disk_scheme"
where
  "block_read (Block nm fn sz ops rc wc) sector buf d =
    (let d = check_sector (Block nm fn sz ops rc wc) sector d;
         (buf, ops, d) = driver_read ops sector buf d
     in (buf, Block nm fn sz ops (rc + 1) wc, d))"
| "driver_read Ide_ops sector buf d = (ide_read d sector buf, Ide_ops, d)"
| "driver_read (Partition_ops b start) sector buf d =
    (let (buf, b, d) = block_read b (start + sector + 1) buf d
     in (buf, Partition_ops b start, d))"

primrec block_write :: "block \<Rightarrow> u32 \<Rightarrow> u8 list \<Rightarrow> 'a disk_scheme \<Rightarrow> block \<times> 'a disk_scheme"
and driver_write :: "block_ops \<Rightarrow> u32 \<Rightarrow> u8 list \<Rightarrow> 'a disk_scheme \<Rightarrow> block_ops \<times> 'a disk_scheme"
where
  "block_write (Block nm fn sz ops rc wc) sector buf d =
    (let d = check_sector (Block nm fn sz ops rc wc) sector d;
         (ops, d) = driver_write ops sector buf d
     in (Block nm fn sz ops rc (wc + 1), d))"
| "driver_write Ide_ops sector buf d = (Ide_ops, ide_write d sector buf)"
| "driver_write (Partition_ops b start) sector buf d =
    (let (b, d) = block_write b (start + sector + 1) buf d
     in (Partition_ops b start, d))"

text \<open>\<open>strncpy\<close> into the fixed-size fields of the descriptor.\<close>

definition block_register ::
  "string \<Rightarrow> string \<Rightarrow> u32 \<Rightarrow> block_ops \<Rightarrow> 'a disk_scheme \<Rightarrow> block \<times> 'a disk_scheme" where
  "block_register nm fn sz ops d =
    (let b = Block (take 16 nm) (take 100 fn) sz ops 0 0 in (b, block_set_hd b d))"

section \<open>Partitions\<close>

record partition_table_entry =
  pt_type :: u8
  pt_offset :: u32
  pt_size :: u32

definition pt_entry :: "u8 list \<Rightarrow> nat \<Rightarrow> partition_table_entry" where
  "pt_entry sec i = (let e = drop (446 + 16 * i) sec in
    \<lparr>pt_type = e ! 4, pt_offset = le_word (take 4 (drop 8 e)),
     pt_size = le_word (take 4 (drop 12 e))\<rparr>)"

definition pt_signature :: "u8 list \<Rightarrow> 16 word" where
  "pt_signature sec = le_word (take 2 (drop 510 sec))"

definition is_extended :: "u8 \<Rightarrow> bool" where
  "is_extended t \<longleftrightarrow> t = 0x05 \<or> t = 0x0f \<or> t = 0x85 \<or> t = 0xc5"

definition found_partition ::
  "block \<Rightarrow> u32 \<Rightarrow> u32 \<Rightarrow> nat \<Rightarrow> string \<Rightarrow> 'a disk_scheme \<Rightarrow> 'a disk_scheme" where
  "found_partition b start sz part_nr fname d =
    (if block_size b \<le> start then d
     else if start + sz < start \<or> block_size b < start + sz then d
     else snd (block_register (take 15 (block_name b @ show_nat part_nr)) fname sz
                 (Partition_ops b start) d))"

text \<open>
  The recursion of the scan: \<open>fuel\<close> bounds its depth, and \<open>None\<close> means that the
  bound was hit. The sector that is read is always sector 0 (\<open>block_read(block, 0, pt)\<close>).
  \<open>pt0\<close> is the content of the freshly allocated table.
\<close>

fun read_partition_table ::
  "nat \<Rightarrow> u8 list \<Rightarrow> block \<Rightarrow> u32 \<Rightarrow> u32 \<Rightarrow> nat \<Rightarrow> string \<Rightarrow> 'a disk_scheme \<Rightarrow>
    (nat \<times> block \<times> 'a disk_scheme) option"
and parse_partitions ::
  "nat \<Rightarrow> u8 list \<Rightarrow> u8 list \<Rightarrow> nat list \<Rightarrow> block \<Rightarrow> u32 \<Rightarrow> u32 \<Rightarrow> nat \<Rightarrow> string \<Rightarrow> 'a disk_scheme \<Rightarrow>
    (nat \<times> block \<times> 'a disk_scheme) option"
where
  "read_partition_table 0 pt0 b sector prim part_nr fname d = None"
| "read_partition_table (Suc fuel) pt0 b sector prim part_nr fname d =
    (if block_size b \<le> sector then Some (part_nr, b, d)
     else let (pt, b, d) = block_read b 0 pt0 d in
       if pt_signature pt \<noteq> 0xaa55 then Some (part_nr, b, d)
       else parse_partitions fuel pt0 pt [0, 1, 2, 3] b sector prim part_nr fname d)"
| "parse_partitions fuel pt0 pt [] b sector prim part_nr fname d = Some (part_nr, b, d)"
| "parse_partitions fuel pt0 pt (i # is) b sector prim part_nr fname d =
    (let e = pt_entry pt i in
     if pt_size e = 0 \<or> pt_type e = 0 then
       parse_partitions fuel pt0 pt is b sector prim part_nr fname d
     else if is_extended (pt_type e) then do {
       (part_nr, b, d) \<leftarrow>
         (if sector = 0
          then read_partition_table fuel pt0 b (pt_offset e) (pt_offset e) part_nr fname d
          else read_partition_table fuel pt0 b (pt_offset e + prim) prim part_nr fname d);
       parse_partitions fuel pt0 pt is b sector prim part_nr fname d
     }
     else
       parse_partitions fuel pt0 pt is b sector prim (Suc part_nr) fname
         (found_partition b (pt_offset e + sector) (pt_size e) (Suc part_nr) fname d))"

definition partition_scan ::
  "nat \<Rightarrow> u8 list \<Rightarrow> block \<Rightarrow> string \<Rightarrow> 'a disk_scheme \<Rightarrow> 'a disk_scheme option" where
  "partition_scan fuel pt0 b fname d =
    map_option (snd \<circ> snd) (read_partition_table fuel pt0 b 0 0 0 fname d)"

text \<open>
  \<open>ide_init\<close> opens the file, takes its size in sectors (the division truncates, the
  result is stored in 32 bits), registers the device \<open>hda\<close> and scans it. The test after
  \<open>open\<close> compares with 1, so a failed \<open>open\<close> is not noticed.
\<close>

definition identify_ata_device ::
  "nat \<Rightarrow> u8 list \<Rightarrow> string \<Rightarrow> string \<Rightarrow> 'a disk_scheme \<Rightarrow> 'a disk_scheme option" where
  "identify_ata_device fuel pt0 nm fname d =
    (let capacity = word_of_nat (length (image d) div BLOCK_SECTOR_SIZE);
         (b, d) = block_register nm fname capacity Ide_ops d
     in partition_scan fuel pt0 b fname d)"

definition ide_init ::
  "nat \<Rightarrow> u8 list \<Rightarrow> string \<Rightarrow> int \<Rightarrow> 'a disk_scheme \<Rightarrow> 'a disk_scheme option" where
  "ide_init fuel pt0 hd_name fdno d =
    (let d = d\<lparr>fd := fdno\<rparr>;
         d = (if fdno = 1 then d\<lparr>panics := Suc (panics d)\<rparr> else d)
     in identify_ata_device fuel pt0 ''hda'' hd_name d)"

section \<open>Where a sector of a device ends up\<close>

text \<open>
  The sector of the bottom device that a sector of a (partition) device is mapped to,
  the number of bounds checks it fails on the way down, and the devices with their
  counters advanced.
\<close>

primrec dev_sector :: "block \<Rightarrow> u32 \<Rightarrow> u32" and ops_sector :: "block_ops \<Rightarrow> u32 \<Rightarrow> u32" where
  "dev_sector (Block nm fn sz ops rc wc) s = ops_sector ops s"
| "ops_sector Ide_ops s = s"
| "ops_sector (Partition_ops b start) s = dev_sector b (start + s + 1)"

primrec dev_panics :: "block \<Rightarrow> u32 \<Rightarrow> nat" and ops_panics :: "block_ops \<Rightarrow> u32 \<Rightarrow> nat" where
  "dev_panics (Block nm fn sz ops rc wc) s = (if sz \<le> s then 1 else 0) + ops_panics ops s"
| "ops_panics Ide_ops s = 0"
| "ops_panics (Partition_ops b start) s = dev_panics b (start + s + 1)"

primrec bump_read :: "block \<Rightarrow> block" and bump_ops_read :: "block_ops \<Rightarrow> block_ops" where
  "bump_read (Block nm fn sz ops rc wc) = Block nm fn sz (bump_ops_read ops) (rc + 1) wc"
| "bump_ops_read Ide_ops = Ide_ops"
| "bump_ops_read (Partition_ops b start) = Partition_ops (bump_read b) start"

primrec bump_write :: "block \<Rightarrow> block" and bump_ops_write :: "block_ops \<Rightarrow> block_ops" where
  "bump_write (Block nm fn sz ops rc wc) = Block nm fn sz (bump_ops_write ops) rc (wc + 1)"
| "bump_ops_write Ide_ops = Ide_ops"
| "bump_ops_write (Partition_ops b start) = Partition_ops (bump_write b) start"

lemma dev_sector_bump [simp]:
  "dev_sector (bump_read b) s = dev_sector b s" "ops_sector (bump_ops_read ops) s = ops_sector ops s"
  by (induction b and ops arbitrary: s and s) auto

lemma dev_sector_bump_write [simp]:
  "dev_sector (bump_write b) s = dev_sector b s" "ops_sector (bump_ops_write ops) s = ops_sector ops s"
  by (induction b and ops arbitrary: s and s) auto

lemma dev_panics_bump [simp]:
  "dev_panics (bump_read b) s = dev_panics b s" "ops_panics (bump_ops_read ops) s = ops_panics ops s"
  by (induction b and ops arbitrary: s and s) auto

lemma dev_panics_bump_write [simp]:
  "dev_panics (bump_write b) s = dev_panics b s" "ops_panics (bump_ops_write ops) s = ops_panics ops s"
  by (induction b and ops arbitrary: s and s) auto

lemma block_size_bump [simp]:
  "block_size (bump_read b) = block_size b" "block_size (bump_write b) = block_size b"
  by (cases b; simp)+

lemma dev_sector_inj:
  "dev_sector b s = dev_sector b t \<longleftrightarrow> s = t" "ops_sector ops s = ops_sector ops t \<longleftrightarrow> s = t"
  by (induction b and ops arbitrary: s t and s t) auto

lemma dev_sector_add:
  "dev_sector b (s + k) = dev_sector b s + k" "ops_sector ops (s + k) = ops_sector ops s + k"
proof (induction b and ops arbitrary: s and s)
  case (Partition_ops b start)
  have "start + (s + k) + 1 = (start + s + 1) + k" by simp
  then show ?case by (simp only: ops_sector.simps Partition_ops)
qed simp_all

text \<open>Reading and writing through any stack of devices, in closed form.\<close>

lemma block_read_eq:
  "block_read b s buf d =
    (ide_read d (dev_sector b s) buf, bump_read b, d\<lparr>panics := panics d + dev_panics b s\<rparr>)"
  "driver_read ops s buf d =
    (ide_read d (ops_sector ops s) buf, bump_ops_read ops, d\<lparr>panics := panics d + ops_panics ops s\<rparr>)"
  by (induction b and ops arbitrary: s d and s d)
     (auto simp: check_sector_def Let_def ide_read_def)

lemma block_write_eq:
  "block_write b s buf d =
    (bump_write b, (ide_write d (dev_sector b s) buf)\<lparr>panics := panics d + dev_panics b s\<rparr>)"
  "driver_write ops s buf d =
    (bump_ops_write ops, (ide_write d (ops_sector ops s) buf)\<lparr>panics := panics d + ops_panics ops s\<rparr>)"
  by (induction b and ops arbitrary: s d and s d)
     (auto simp: check_sector_def Let_def ide_write_def)

text \<open>A sector that is inside every device of the stack, inside the file and below 4 GiB.\<close>

definition dev_valid :: "block \<Rightarrow> 'a disk_scheme \<Rightarrow> u32 \<Rightarrow> bool" where
  "dev_valid b d s \<longleftrightarrow> 0 \<le> fd d \<and> dev_panics b s = 0 \<and> unat (dev_sector b s) < 2 ^ 23 \<and>
     512 * unat (dev_sector b s) + 512 \<le> length (image d)"

definition sector_at :: "block \<Rightarrow> 'a disk_scheme \<Rightarrow> u32 \<Rightarrow> u8 list" where
  "sector_at b d s = pread (image d) (ide_offset (dev_sector b s)) BLOCK_SECTOR_SIZE"

lemma ide_offset_small: "unat s < 2 ^ 23 \<Longrightarrow> ide_offset s = 512 * unat s"
proof -
  assume "unat s < 2 ^ 23"
  then have "unat s * 512 < 2 ^ 32" by simp
  then show ?thesis by (simp add: ide_offset_def unat_word_ariths)
qed

lemma dev_valid_cong [simp]:
  "dev_valid (bump_read b) d s = dev_valid b d s" "dev_valid (bump_write b) d s = dev_valid b d s"
  by (simp_all add: dev_valid_def)

lemma sector_at_bump [simp]:
  "sector_at (bump_read b) d s = sector_at b d s" "sector_at (bump_write b) d s = sector_at b d s"
  by (simp_all add: sector_at_def)

lemma length_sector_at [simp]: "dev_valid b d s \<Longrightarrow> length (sector_at b d s) = 512"
  by (simp add: sector_at_def dev_valid_def ide_offset_small length_pread)

lemma block_read_valid:
  assumes "dev_valid b d s" and "length buf = 512"
  shows "block_read b s buf d = (sector_at b d s, bump_read b, d)"
proof -
  have "ide_read d (dev_sector b s) buf = sector_at b d s"
    using assms length_sector_at [OF assms(1)]
    by (simp add: ide_read_def sector_at_def dev_valid_def)
  with assms show ?thesis by (simp add: block_read_eq dev_valid_def)
qed

definition put_sector :: "block \<Rightarrow> u32 \<Rightarrow> u8 list \<Rightarrow> 'a disk_scheme \<Rightarrow> 'a disk_scheme" where
  "put_sector b s buf d = d\<lparr>image := overwrite (image d) (512 * unat (dev_sector b s)) buf\<rparr>"

lemma block_write_valid:
  assumes "dev_valid b d s" and "length buf = 512"
  shows "block_write b s buf d = (bump_write b, put_sector b s buf d)"
  using assms
  by (simp add: block_write_eq dev_valid_def ide_write_def put_sector_def ide_offset_small
      pwrite_inside)

lemma put_sector_valid [simp]:
  assumes "dev_valid b d s" and "length buf = 512"
  shows "dev_valid b (put_sector b s buf d) t = dev_valid b d t"
  using assms by (simp add: put_sector_def dev_valid_def)

lemma sector_at_eq:
  "dev_valid b d s \<Longrightarrow> sector_at b d s = pread (image d) (512 * unat (dev_sector b s)) 512"
  by (simp add: sector_at_def dev_valid_def ide_offset_small)

lemma sector_at_put:
  assumes s: "dev_valid b d s" and t: "dev_valid b d t" and len: "length buf = 512"
  shows "sector_at b (put_sector b s buf d) t = (if t = s then buf else sector_at b d t)"
proof -
  define i where "i = unat (dev_sector b s)"
  define j where "j = unat (dev_sector b t)"
  have img: "image (put_sector b s buf d) = pwrite (image d) (512 * i) buf"
    using s len by (simp add: put_sector_def i_def pwrite_inside dev_valid_def)
  have fits: "512 * i + length buf \<le> length (image d)"
    using s len by (simp add: dev_valid_def i_def)
  have at: "sector_at b (put_sector b s buf d) t = pread (pwrite (image d) (512 * i) buf) (512 * j) 512"
    using sector_at_eq [of b "put_sector b s buf d" t] s t len by (simp add: img j_def)
  show ?thesis
  proof (cases "t = s")
    case True
    then have "j = i" by (simp add: i_def j_def)
    with at True len pread_pwrite_same [of "image d" "512 * i" buf] show ?thesis by simp
  next
    case False
    then have "i \<noteq> j" using dev_sector_inj(1) [of b s t] by (simp add: i_def j_def flip: word_unat_eq_iff)
    then have "512 * j + 512 \<le> 512 * i \<or> 512 * i + length buf \<le> 512 * j" using len by linarith
    then have "pread (pwrite (image d) (512 * i) buf) (512 * j) 512 = pread (image d) (512 * j) 512"
      by (rule pread_pwrite_other [OF fits])
    with False at sector_at_eq [OF t] show ?thesis by (simp add: j_def)
  qed
qed

section \<open>The interface of a sector store\<close>

text \<open>
  A session of a client: reads and writes of sectors. \<open>run_store\<close> performs it on a store
  and collects what the reads return, \<open>run_map\<close> says what they should return.
\<close>

datatype store_op = Rd u32 | Wr u32 "u8 list"

fun run_store ::
  "(u32 \<Rightarrow> 's \<Rightarrow> (u8 list \<times> 's) option) \<Rightarrow> (u32 \<Rightarrow> u8 list \<Rightarrow> 's \<Rightarrow> 's option) \<Rightarrow>
    store_op list \<Rightarrow> 's \<Rightarrow> (u8 list list \<times> 's) option" where
  "run_store rd wr [] s = Some ([], s)"
| "run_store rd wr (Rd x # ops) s =
    do { (b, s) \<leftarrow> rd x s; (bs, s) \<leftarrow> run_store rd wr ops s; Some (b # bs, s) }"
| "run_store rd wr (Wr x b # ops) s = do { s \<leftarrow> wr x b s; run_store rd wr ops s }"

fun run_map :: "store_op list \<Rightarrow> (u32 \<Rightarrow> u8 list) \<Rightarrow> u8 list list \<times> (u32 \<Rightarrow> u8 list)" where
  "run_map [] m = ([], m)"
| "run_map (Rd x # ops) m = (case run_map ops m of (bs, m') \<Rightarrow> (m x # bs, m'))"
| "run_map (Wr x b # ops) m = run_map ops (m(x := b))"

definition op_ok :: "(u32 \<Rightarrow> bool) \<Rightarrow> store_op \<Rightarrow> bool" where
  "op_ok ok p = (case p of Rd x \<Rightarrow> ok x | Wr x b \<Rightarrow> ok x \<and> length b = 512)"

lemma run_map_cong:
  assumes "\<forall>p \<in> set ops. op_ok ok p" and "\<forall>y. ok y \<longrightarrow> m y = m' y"
  shows "fst (run_map ops m) = fst (run_map ops m') \<and>
    (\<forall>y. ok y \<longrightarrow> snd (run_map ops m) y = snd (run_map ops m') y)"
  using assms
proof (induction ops arbitrary: m m')
  case Nil
  then show ?case by simp
next
  case (Cons p ops)
  show ?case
  proof (cases p)
    case (Rd x)
    have "fst (run_map ops m) = fst (run_map ops m') \<and>
      (\<forall>y. ok y \<longrightarrow> snd (run_map ops m) y = snd (run_map ops m') y)"
      using Cons.prems by (intro Cons.IH) simp_all
    with Rd Cons.prems show ?thesis by (auto simp: op_ok_def split: prod.split)
  next
    case (Wr x b)
    have "fst (run_map ops (m(x := b))) = fst (run_map ops (m'(x := b))) \<and>
      (\<forall>y. ok y \<longrightarrow> snd (run_map ops (m(x := b))) y = snd (run_map ops (m'(x := b))) y)"
      using Cons.prems by (intro Cons.IH) simp_all
    with Wr show ?thesis by simp
  qed
qed

text \<open>
  What the layers above rely on: sectors are read and written as a whole, a read returns
  the last data written to that sector and leaves all sectors alone. The raw device
  satisfies it here, the buffer cache in the next theory.
\<close>

locale sector_store =
  fixes rd :: "u32 \<Rightarrow> 's \<Rightarrow> (u8 list \<times> 's) option"
    and wr :: "u32 \<Rightarrow> u8 list \<Rightarrow> 's \<Rightarrow> 's option"
    and content :: "'s \<Rightarrow> u32 \<Rightarrow> u8 list"
    and valid :: "'s \<Rightarrow> u32 \<Rightarrow> bool"
    and inv :: "'s \<Rightarrow> bool"
  assumes rd_ok: "inv s \<Longrightarrow> valid s x \<Longrightarrow>
      \<exists>s'. rd x s = Some (content s x, s') \<and> inv s' \<and> valid s' = valid s \<and>
        (\<forall>y. valid s y \<longrightarrow> content s' y = content s y)"
    and wr_ok: "inv s \<Longrightarrow> valid s x \<Longrightarrow> length b = 512 \<Longrightarrow>
      \<exists>s'. wr x b s = Some s' \<and> inv s' \<and> valid s' = valid s \<and>
        (\<forall>y. valid s y \<longrightarrow> content s' y = (if y = x then b else content s y))"
    and content_length: "inv s \<Longrightarrow> valid s x \<Longrightarrow> length (content s x) = 512"
begin

lemma rdE:
  assumes "inv s" and "valid s x"
  obtains s' where "rd x s = Some (content s x, s')" and "inv s'" and "valid s' = valid s"
    and "\<And>y. valid s y \<Longrightarrow> content s' y = content s y"
  using rd_ok [OF assms] by blast

lemma wrE:
  assumes "inv s" and "valid s x" and "length b = 512"
  obtains s' where "wr x b s = Some s'" and "inv s'" and "valid s' = valid s"
    and "\<And>y. valid s y \<Longrightarrow> content s' y = (if y = x then b else content s y)"
  using wr_ok [OF assms] by blast

lemma rd_after_wr:
  assumes "inv s" and "valid s x" and "length b = 512" and "wr x b s = Some s'"
  shows "\<exists>s''. rd x s' = Some (b, s'')"
proof -
  from assms obtain "inv s'" "valid s' x" "content s' x = b" by (metis option.inject wrE)
  then show ?thesis by (metis rdE)
qed

lemma run_store_ok:
  assumes "inv s" and "\<forall>p \<in> set ops. op_ok (valid s) p"
  shows "\<exists>s'. run_store rd wr ops s = Some (fst (run_map ops (content s)), s') \<and> inv s' \<and>
    valid s' = valid s \<and> (\<forall>y. valid s y \<longrightarrow> content s' y = snd (run_map ops (content s)) y)"
  using assms
proof (induction ops arbitrary: s)
  case Nil
  then show ?case by simp
next
  case (Cons p ops)
  show ?case
  proof (cases p)
    case (Rd x)
    with Cons.prems have x: "valid s x" by (simp add: op_ok_def)
    obtain t where t: "rd x s = Some (content s x, t)" "inv t" "valid t = valid s"
      "\<And>y. valid s y \<Longrightarrow> content t y = content s y"
      using rdE [OF Cons.prems(1) x] by blast
    have ops: "\<forall>p \<in> set ops. op_ok (valid t) p" using Cons.prems(2) t(3) by simp
    have eq: "fst (run_map ops (content t)) = fst (run_map ops (content s))"
      "\<And>y. valid s y \<Longrightarrow> snd (run_map ops (content t)) y = snd (run_map ops (content s)) y"
      using run_map_cong [of ops "valid t" "content t" "content s"] ops t(3,4) by auto
    from Cons.IH [OF t(2) ops] t(1,3) eq Rd show ?thesis by (auto split: prod.splits)
  next
    case (Wr x b)
    with Cons.prems have x: "valid s x" "length b = 512" by (simp_all add: op_ok_def)
    obtain t where t: "wr x b s = Some t" "inv t" "valid t = valid s"
      "\<And>y. valid s y \<Longrightarrow> content t y = (if y = x then b else content s y)"
      using wrE [OF Cons.prems(1) x] by blast
    have ops: "\<forall>p \<in> set ops. op_ok (valid t) p" using Cons.prems(2) t(3) by simp
    have eq: "fst (run_map ops (content t)) = fst (run_map ops ((content s)(x := b)))"
      "\<And>y. valid s y \<Longrightarrow> snd (run_map ops (content t)) y = snd (run_map ops ((content s)(x := b))) y"
      using run_map_cong [of ops "valid t" "content t" "(content s)(x := b)"] ops t(3,4) by auto
    from Cons.IH [OF t(2) ops] t(1,3) eq Wr show ?thesis by auto
  qed
qed

end

text \<open>The raw device as a sector store; its state is the device and the disk.\<close>

definition raw_read :: "u32 \<Rightarrow> block \<times> 'a disk_scheme \<Rightarrow> (u8 list \<times> block \<times> 'a disk_scheme) option" where
  "raw_read s bd = Some (block_read (fst bd) s (replicate 512 0) (snd bd))"

definition raw_write :: "u32 \<Rightarrow> u8 list \<Rightarrow> block \<times> 'a disk_scheme \<Rightarrow> (block \<times> 'a disk_scheme) option" where
  "raw_write s buf bd = Some (block_write (fst bd) s buf (snd bd))"

interpretation raw: sector_store raw_read raw_write
  "\<lambda>bd. sector_at (fst bd) (snd bd)" "\<lambda>bd. dev_valid (fst bd) (snd bd)" "\<lambda>_. True"
  by unfold_locales
    (auto simp: raw_read_def raw_write_def block_read_valid block_write_valid sector_at_put fun_eq_iff)

section \<open>The partition table scan\<close>

definition ext_entry :: "u8 list \<Rightarrow> nat \<Rightarrow> bool" where
  "ext_entry pt i \<longleftrightarrow> pt_size (pt_entry pt i) \<noteq> 0 \<and> is_extended (pt_type (pt_entry pt i))"

text \<open>The sector every level of the scan reads.\<close>

definition mbr :: "block \<Rightarrow> 'a disk_scheme \<Rightarrow> u8 list \<Rightarrow> u8 list" where
  "mbr b d pt0 = ide_read d (dev_sector b 0) pt0"

lemma found_partition_frame [frame_simps]:
  "fd (found_partition b st sz n f d) = fd d" "image (found_partition b st sz n f d) = image d"
  by (simp_all add: found_partition_def block_register_def block_set_hd_def Let_def)

lemma mbr_found_partition [frame_simps]:
  "mbr b (found_partition b' st sz n f d) pt0 = mbr b d pt0"
  by (simp add: mbr_def ide_read_def frame_simps)

lemma is_extended_nonzero: "is_extended t \<Longrightarrow> t \<noteq> 0"
  by (auto simp: is_extended_def)

text \<open>
  A scan that meets an extended entry before any other extended entry fails when the
  nested scan does.
\<close>

lemma parse_partitions_ext_None:
  fixes d :: "'a disk_scheme"
  assumes "i \<in> set is" and "ext_entry pt i" and "\<forall>j \<in> set is. j \<noteq> i \<longrightarrow> \<not> ext_entry pt j"
    and "\<And>part_nr (d' :: 'a disk_scheme). mbr b d' pt0 = mbr b d pt0 \<Longrightarrow>
      (if sector = 0
       then read_partition_table fuel pt0 b (pt_offset (pt_entry pt i)) (pt_offset (pt_entry pt i)) part_nr f d'
       else read_partition_table fuel pt0 b (pt_offset (pt_entry pt i) + prim) prim part_nr f d') = None"
  shows "parse_partitions fuel pt0 pt is b sector prim part_nr f d = None"
  using assms
proof (induction "is" arbitrary: part_nr d)
  case Nil
  then show ?case by simp
next
  case (Cons j js)
  show ?case
  proof (cases "j = i")
    case True
    with Cons.prems(2) have "pt_size (pt_entry pt j) \<noteq> 0" "pt_type (pt_entry pt j) \<noteq> 0"
      "is_extended (pt_type (pt_entry pt j))"
      by (auto simp: ext_entry_def dest: is_extended_nonzero)
    with True Cons.prems(4) [of d part_nr] show ?thesis by (simp add: Let_def split: if_splits)
  next
    case False
    with Cons.prems have i: "i \<in> set js" and j: "\<not> ext_entry pt j" by auto
    have rec: "parse_partitions fuel pt0 pt js b sector prim n f d' = None"
      if "mbr b d' pt0 = mbr b d pt0" for n and d' :: "'a disk_scheme"
      using Cons.prems(2,3,4) i that by (intro Cons.IH) auto
    from j rec show ?thesis
      by (auto simp: ext_entry_def Let_def frame_simps)
  qed
qed

text \<open>One level of the scan fails when the scan it starts for the extended entry fails.\<close>

definition one_ext :: "u8 list \<Rightarrow> nat \<Rightarrow> bool" where
  "one_ext pt i \<longleftrightarrow> pt_signature pt = 0xaa55 \<and> i < 4 \<and> ext_entry pt i \<and>
     (\<forall>j<4. j \<noteq> i \<longrightarrow> \<not> ext_entry pt j)"

lemma read_partition_table_level:
  fixes d :: "'a disk_scheme"
  assumes ext: "one_ext (mbr b d pt0) i" and "sector < block_size b"
    and nested: "\<And>n (d' :: 'a disk_scheme). mbr (bump_read b) d' pt0 = mbr b d pt0 \<Longrightarrow>
      (if sector = 0
       then read_partition_table fuel pt0 (bump_read b) (pt_offset (pt_entry (mbr b d pt0) i))
              (pt_offset (pt_entry (mbr b d pt0) i)) n f d'
       else read_partition_table fuel pt0 (bump_read b) (pt_offset (pt_entry (mbr b d pt0) i) + prim)
              prim n f d') = None"
  shows "read_partition_table (Suc fuel) pt0 b sector prim part_nr f d = None"
proof -
  let ?d = "d\<lparr>panics := panics d + dev_panics b 0\<rparr>"
  have mbr: "mbr (bump_read b) ?d pt0 = mbr b d pt0" by (simp add: mbr_def ide_read_def)
  have "parse_partitions fuel pt0 (mbr b d pt0) [0, 1, 2, 3] (bump_read b) sector prim part_nr f ?d = None"
  proof (rule parse_partitions_ext_None [of i])
    show "i \<in> set [0, 1, 2, 3]" "ext_entry (mbr b d pt0) i"
      "\<forall>j \<in> set [0, 1, 2, 3]. j \<noteq> i \<longrightarrow> \<not> ext_entry (mbr b d pt0) j"
      using ext by (auto simp: one_ext_def numeral_eq_Suc less_Suc_eq)
  qed (use nested mbr in simp)
  with ext assms(2) show ?thesis by (simp add: block_read_eq mbr_def one_ext_def)
qed

lemma read_partition_table_stuck:
  fixes d :: "'a disk_scheme"
  assumes "one_ext (mbr b d pt0) i"
    and "sector = pt_offset (pt_entry (mbr b d pt0) i) + prim"
    and "sector \<noteq> 0" and "sector < block_size b"
  shows "read_partition_table fuel pt0 b sector prim part_nr f d = None"
  using assms
proof (induction fuel arbitrary: b d part_nr)
  case 0
  then show ?case by simp
next
  case (Suc fuel)
  have "read_partition_table fuel pt0 (bump_read b) sector prim n f d' = None"
    if "mbr (bump_read b) d' pt0 = mbr b d pt0" for n and d' :: "'a disk_scheme"
    using Suc.prems that by (intro Suc.IH) simp_all
  with Suc.prems show ?case by (intro read_partition_table_level [of _ _ _ i]) simp_all
qed

section \<open>Properties\<close>

text \<open>
  C24: On any stack of devices, writing a sector that is inside every device of the stack
  and then reading any such sector gives the data just written if it is the same sector
  and the old data otherwise; neither call reports a failed bounds check.
\<close>

theorem block_read_after_write:
  assumes "dev_valid b d s" and "dev_valid b d t" and "length buf = 512" and "length old = 512"
  shows "case block_write b s buf d of (b', d') \<Rightarrow>
     fst (block_read b' t old d') = (if t = s then buf else fst (block_read b t old d)) \<and>
     panics (snd (snd (block_read b' t old d'))) = panics d"
proof -
  have "dev_valid (bump_write b) (put_sector b s buf d) t" using assms by simp
  from block_read_valid [OF this assms(4)] show ?thesis
    using assms by (simp add: block_write_valid block_read_valid sector_at_put)
       (simp add: put_sector_def)
qed

definition demo_disk :: disk where
  "demo_disk = \<lparr>fd = 3, image = replicate 2048 7, panics = 0, hard_drive = None\<rparr>"

definition demo_part :: block where
  "demo_part = Block ''hda1'' ''disk'' 2 (Partition_ops (Block ''hda'' ''disk'' 4 Ide_ops 0 0) 1) 0 0"

theorem block_read_after_write_witness:
  "case block_write demo_part 0 (replicate 512 9) demo_disk of (b', d') \<Rightarrow>
     fst (block_read b' 0 (replicate 512 0) d') = replicate 512 9"
  using block_read_after_write [of demo_part demo_disk 0 0 "replicate 512 9" "replicate 512 0"]
  by (simp add: demo_part_def demo_disk_def dev_valid_def split: prod.splits)

text \<open>
  The byte offset of a sector is computed in 32 bits, so on a device of more than
  4 GiB the sector \<open>s + 2^23\<close> is the same place of the file as sector \<open>s\<close>: writing
  one changes what is read from the other, whatever the driver stack.
\<close>

theorem ide_sectors_alias:
  "image (snd (block_write b (s + 2 ^ 23) buf d)) = image (snd (block_write b s buf d)) \<and>
   fst (block_read b (s + 2 ^ 23) old d) = fst (block_read b s old d)"
proof -
  have off: "ide_offset (u + 2 ^ 23) = ide_offset u" for u
  proof -
    have "(u + 2 ^ 23) * 512 = u * 512 + 2 ^ 32" by (simp add: algebra_simps)
    also have "(2 :: u32) ^ 32 = 0" by simp
    finally show ?thesis by (simp only: ide_offset_def add_0_right)
  qed
  show ?thesis
    unfolding block_write_eq block_read_eq dev_sector_add ide_write_def ide_read_def off by simp
qed

definition demo_ide :: block where
  "demo_ide = Block ''hda'' ''disk'' 4 Ide_ops 0 0"

text \<open>
  C39: The scan of the partition table never returns when the table in sector 0 has exactly one
  extended entry, whose offset \<open>off\<close> is not 0, and \<open>off\<close> and \<open>2 * off\<close> are sectors of the disk: every
  nested level reads sector 0 again instead of its own sector, and meets the same entry.
  No bound on the depth of the recursion is enough.
\<close>

theorem partition_scan_extended_diverges:
  assumes "one_ext (mbr b d pt0) i" and "off = pt_offset (pt_entry (mbr b d pt0) i)"
    and "off \<noteq> 0" and "off < block_size b" and "off + off \<noteq> 0" and "off + off < block_size b"
  shows "partition_scan fuel pt0 b fname d = None"
proof -
  have deep: "read_partition_table k pt0 b' (off + off) off n f d' = None"
    if "mbr b' d' pt0 = mbr b d pt0" "block_size b' = block_size b"
    for k b' n f and d' :: "'a disk_scheme"
    using assms that by (intro read_partition_table_stuck [of _ _ _ i]) simp_all
  have mid: "read_partition_table k pt0 b' off off n f d' = None"
    if "mbr b' d' pt0 = mbr b d pt0" "block_size b' = block_size b"
    for k b' n f and d' :: "'a disk_scheme"
  proof (cases k)
    case 0
    then show ?thesis by simp
  next
    case (Suc m)
    show ?thesis
      unfolding Suc using assms that deep [of "bump_read b'" _ m]
      by (intro read_partition_table_level [of _ _ _ i]) simp_all
  qed
  have "0 < block_size b" using assms(3,4) by (metis word_gt_0 word_not_simps(1))
  then have "read_partition_table (Suc m) pt0 b 0 0 0 fname d = None" for m
    using assms mid [of "bump_read b" _ m]
    by (intro read_partition_table_level [of _ _ _ i]) simp_all
  then have "read_partition_table fuel pt0 b 0 0 0 fname d = None"
    by (cases fuel) (simp_all del: read_partition_table.simps(2))
  then show ?thesis by (simp add: partition_scan_def)
qed

text \<open>A disk of 64 sectors whose table has one extended entry, at sector 10.\<close>

definition demo_ext_disk :: disk where
  "demo_ext_disk = \<lparr>fd = 3,
     image = replicate 446 0 @ [0, 0, 0, 0, 5, 0, 0, 0, 10, 0, 0, 0, 20, 0, 0, 0] @
       replicate 48 0 @ [0x55, 0xaa],
     panics = 0, hard_drive = None\<rparr>"

lemma demo_ext_table:
  "one_ext (mbr (Block nm fn 64 Ide_ops 0 0) demo_ext_disk (replicate 512 0)) 0 \<and>
   pt_offset (pt_entry (mbr (Block nm fn 64 Ide_ops 0 0) demo_ext_disk (replicate 512 0)) 0) = 10"
proof -
  let ?e = "[0, 0, 0, 0, 5, 0, 0, 0, 10, 0, 0, 0, 20, 0, 0, 0] :: u8 list"
  define t where "t = replicate 446 0 @ ?e @ replicate 48 0 @ [0x55, 0xaa :: u8]"
  have "mbr (Block nm fn 64 Ide_ops 0 0) demo_ext_disk (replicate 512 0) = t"
    by (simp add: mbr_def demo_ext_disk_def ide_read_def ide_offset_def pread_def t_def)
  moreover have "drop 446 t = ?e @ replicate 48 0 @ [0x55, 0xaa]" by (simp add: t_def)
  then have "pt_entry t 0 = \<lparr>pt_type = 5, pt_offset = 10, pt_size = 20\<rparr>"
    by (simp add: pt_entry_def)
  moreover have "drop 462 t = replicate 48 0 @ [0x55, 0xaa]" "drop 478 t = replicate 32 0 @ [0x55, 0xaa]"
    "drop 494 t = replicate 16 0 @ [0x55, 0xaa]"
    by (simp_all add: t_def)
  then have "\<not> ext_entry t 1 \<and> \<not> ext_entry t 2 \<and> \<not> ext_entry t 3"
    by (simp add: ext_entry_def pt_entry_def is_extended_def nth_append)
  then have "\<not> ext_entry t j" if "j \<noteq> 0" "j < 4" for j
  proof -
    from that have "j = 1 \<or> j = 2 \<or> j = 3" by linarith
    with \<open>\<not> ext_entry t 1 \<and> \<not> ext_entry t 2 \<and> \<not> ext_entry t 3\<close> show ?thesis by blast
  qed
  moreover have "pt_signature t = 0xaa55"
    by (simp add: pt_signature_def t_def)
  ultimately show ?thesis by (simp add: one_ext_def ext_entry_def is_extended_def)
qed

theorem partition_scan_extended_diverges_witness:
  "partition_scan 1000 (replicate 512 0) (Block ''hda'' ''disk'' 64 Ide_ops 0 0) ''disk'' demo_ext_disk = None"
  by (rule partition_scan_extended_diverges [of _ _ _ 0 10]) (use demo_ext_table in simp_all)

end
