(* ===== verification/Fs_Cache.thy ===== *)
theory Fs_Cache
  imports Fs_Block
begin

text \<open>
  The buffer cache of the file system, \<open>fs/cache.c\<close>: 64 entries, a clock hand for the
  second-chance replacement, and the device below. \<open>cache_content\<close> is what the cache
  promises: the data of a sector is the cached copy where there is one and the sector of
  the device otherwise. The invariant \<open>cache_inv\<close> says when the promise is kept, and the
  cache is shown to be a \<open>sector_store\<close> like the raw device.
\<close>

abbreviation BUFFER_CACHE_SIZE :: nat where "BUFFER_CACHE_SIZE \<equiv> 64"

record buffer_cache_entry_t =
  occupied :: bool
  disk_sector :: u32
  buffer :: "u8 list"
  dirty :: bool
  access :: bool

record cache_state = disk +
  cache :: "buffer_cache_entry_t list"
  clock :: nat
  fs_device :: block

section \<open>Operations\<close>

definition buffer_cache_init :: "'a cache_state_scheme \<Rightarrow> 'a cache_state_scheme" where
  "buffer_cache_init s = s\<lparr>cache := map (\<lambda>e. e\<lparr>occupied := False, dirty := False\<rparr>) (cache s)\<rparr>"

definition buffer_cache_flush :: "nat \<Rightarrow> 'a cache_state_scheme \<Rightarrow> 'a cache_state_scheme" where
  "buffer_cache_flush i s =
    (let e = cache s ! i in
     if dirty e then
       let (b, s) = block_write (fs_device s) (disk_sector e) (buffer e) s
       in s\<lparr>fs_device := b, cache := (cache s)[i := e\<lparr>dirty := False\<rparr>]\<rparr>
     else s)"

fun buffer_cache_close_from :: "nat \<Rightarrow> nat \<Rightarrow> 'a cache_state_scheme \<Rightarrow> 'a cache_state_scheme" where
  "buffer_cache_close_from i 0 s = s"
| "buffer_cache_close_from i (Suc n) s =
    (if \<not> occupied (cache s ! i) then buffer_cache_close_from (Suc i) n s
     else buffer_cache_close_from (Suc i) n (buffer_cache_flush i s))"

definition buffer_cache_close :: "'a cache_state_scheme \<Rightarrow> 'a cache_state_scheme" where
  "buffer_cache_close s = buffer_cache_close_from 0 BUFFER_CACHE_SIZE s"

fun buffer_cache_lookup :: "buffer_cache_entry_t list \<Rightarrow> u32 \<Rightarrow> nat option" where
  "buffer_cache_lookup [] sector = None"
| "buffer_cache_lookup (e # es) sector =
    (if occupied e \<and> disk_sector e = sector then Some 0
     else map_option Suc (buffer_cache_lookup es sector))"

text \<open>
  The clock algorithm: the hand moves on while it is on an occupied entry with its
  reference bit set, and clears that bit, so the loop ends.
\<close>

definition set_bits :: "buffer_cache_entry_t list \<Rightarrow> nat" where
  "set_bits c = length (filter access c)"

lemma set_bits_clear:
  "k < length c \<Longrightarrow> access (c ! k) \<Longrightarrow> set_bits (c[k := (c ! k)\<lparr>access := False\<rparr>]) < set_bits c"
proof (induction c arbitrary: k)
  case Nil
  then show ?case by simp
next
  case (Cons e es)
  then show ?case by (cases k) (auto simp: set_bits_def)
qed

function clock_scan :: "buffer_cache_entry_t list \<Rightarrow> nat \<Rightarrow> (nat \<times> buffer_cache_entry_t list) option" where
  "clock_scan c k =
    (if length c \<le> k then None
     else if \<not> occupied (c ! k) then Some (k, c)
     else if access (c ! k) then
       clock_scan (c[k := (c ! k)\<lparr>access := False\<rparr>]) (Suc k mod BUFFER_CACHE_SIZE)
     else Some (k, c))"
  by pat_completeness auto
termination
  by (relation "measure (\<lambda>(c, k). set_bits c)") (auto simp: set_bits_clear)

declare clock_scan.simps [simp del]

definition buffer_cache_evict :: "'a cache_state_scheme \<Rightarrow> (nat \<times> 'a cache_state_scheme) option" where
  "buffer_cache_evict s =
    (case clock_scan (cache s) (clock s) of
       None \<Rightarrow> None
     | Some (k, c) \<Rightarrow>
         let s = s\<lparr>cache := c, clock := k\<rparr> in
         if \<not> occupied (c ! k) then Some (k, s)
         else
           let s = (if dirty (c ! k) then buffer_cache_flush k s else s)
           in Some (k, s\<lparr>cache := (cache s)[k := (cache s ! k)\<lparr>occupied := False\<rparr>]\<rparr>))"

text \<open>The part \<open>buffer_cache_read\<close> and \<open>buffer_cache_write\<close> share: the entry of the
  sector, filled from the device on a miss.\<close>

definition cache_slot :: "u32 \<Rightarrow> 'a cache_state_scheme \<Rightarrow> (nat \<times> 'a cache_state_scheme) option" where
  "cache_slot sector s =
    (case buffer_cache_lookup (cache s) sector of
       Some i \<Rightarrow> Some (i, s)
     | None \<Rightarrow> (case buffer_cache_evict s of
         None \<Rightarrow> None
       | Some (k, s) \<Rightarrow>
           let e = (cache s ! k)\<lparr>occupied := True, disk_sector := sector, dirty := False\<rparr>;
               (buf, b, s) = block_read (fs_device s) sector (buffer e) s
           in Some (k, s\<lparr>fs_device := b, cache := (cache s)[k := e\<lparr>buffer := buf\<rparr>]\<rparr>)))"

definition buffer_cache_read :: "u32 \<Rightarrow> 'a cache_state_scheme \<Rightarrow> (u8 list \<times> 'a cache_state_scheme) option" where
  "buffer_cache_read sector s =
    (case cache_slot sector s of
       None \<Rightarrow> None
     | Some (i, s) \<Rightarrow>
         let e = (cache s ! i)\<lparr>access := True\<rparr>
         in Some (buffer e, s\<lparr>cache := (cache s)[i := e]\<rparr>))"

definition buffer_cache_write :: "u32 \<Rightarrow> u8 list \<Rightarrow> 'a cache_state_scheme \<Rightarrow> 'a cache_state_scheme option" where
  "buffer_cache_write sector source s =
    (case cache_slot sector s of
       None \<Rightarrow> None
     | Some (i, s) \<Rightarrow>
         let e = (cache s ! i)\<lparr>access := True, dirty := True, buffer := take BLOCK_SECTOR_SIZE source\<rparr>
         in Some (s\<lparr>cache := (cache s)[i := e]\<rparr>))"

section \<open>The promise and the invariant\<close>

definition cache_content :: "'a cache_state_scheme \<Rightarrow> u32 \<Rightarrow> u8 list" where
  "cache_content s x =
    (case buffer_cache_lookup (cache s) x of
       Some i \<Rightarrow> buffer (cache s ! i)
     | None \<Rightarrow> sector_at (fs_device s) s x)"

definition cache_valid :: "'a cache_state_scheme \<Rightarrow> u32 \<Rightarrow> bool" where
  "cache_valid s = dev_valid (fs_device s) s"

definition entry_ok :: "'a cache_state_scheme \<Rightarrow> buffer_cache_entry_t \<Rightarrow> bool" where
  "entry_ok s e \<longleftrightarrow> occupied e \<longrightarrow>
     cache_valid s (disk_sector e) \<and> length (buffer e) = 512 \<and>
     (\<not> dirty e \<longrightarrow> buffer e = sector_at (fs_device s) s (disk_sector e))"

definition no_dups :: "buffer_cache_entry_t list \<Rightarrow> bool" where
  "no_dups c \<longleftrightarrow> (\<forall>i<length c. \<forall>j<length c. occupied (c ! i) \<and> occupied (c ! j) \<and>
     disk_sector (c ! i) = disk_sector (c ! j) \<longrightarrow> i = j)"

definition cache_inv :: "'a cache_state_scheme \<Rightarrow> bool" where
  "cache_inv s \<longleftrightarrow> length (cache s) = BUFFER_CACHE_SIZE \<and> clock s < BUFFER_CACHE_SIZE \<and>
     no_dups (cache s) \<and> (\<forall>e \<in> set (cache s). length (buffer e) = 512 \<and> entry_ok s e)"

text \<open>What the device sees does not depend on the fields the cache adds to the state.\<close>

lemma dev_valid_cache_frame [simp]:
  "dev_valid b (s\<lparr>cache := c\<rparr>) = dev_valid b s" "dev_valid b (s\<lparr>clock := k\<rparr>) = dev_valid b s"
  "dev_valid b (s\<lparr>fs_device := b'\<rparr>) = dev_valid b s"
  by (simp_all add: dev_valid_def fun_eq_iff)

lemma sector_at_cache_frame [simp]:
  "sector_at b (s\<lparr>cache := c\<rparr>) = sector_at b s" "sector_at b (s\<lparr>clock := k\<rparr>) = sector_at b s"
  "sector_at b (s\<lparr>fs_device := b'\<rparr>) = sector_at b s"
  by (simp_all add: sector_at_def fun_eq_iff)

lemma dev_valid_bump_fun [simp]:
  "dev_valid (bump_write b) s = dev_valid b s" "dev_valid (bump_read b) s = dev_valid b s"
  "sector_at (bump_write b) s = sector_at b s" "sector_at (bump_read b) s = sector_at b s"
  by (simp_all add: fun_eq_iff)

section \<open>Lookup\<close>

lemma lookup_Some:
  "buffer_cache_lookup c x = Some i \<Longrightarrow> i < length c \<and> occupied (c ! i) \<and> disk_sector (c ! i) = x"
  by (induction c arbitrary: i) (auto split: if_splits)

lemma lookup_None:
  "buffer_cache_lookup c x = None \<longleftrightarrow> (\<forall>i<length c. occupied (c ! i) \<longrightarrow> disk_sector (c ! i) \<noteq> x)"
  by (induction c) (auto simp: less_Suc_eq_0_disj split: if_splits)

lemma lookup_unique:
  assumes "no_dups c" and "i < length c" and "occupied (c ! i)" and "disk_sector (c ! i) = x"
  shows "buffer_cache_lookup c x = Some i"
proof (cases "buffer_cache_lookup c x")
  case None
  with assms show ?thesis by (simp add: lookup_None)
next
  case (Some j)
  from lookup_Some [OF this] assms have "j = i" by (auto simp: no_dups_def)
  with Some show ?thesis by simp
qed

lemma content_cached:
  assumes "no_dups (cache s)" and "i < length (cache s)" and "occupied (cache s ! i)"
    and "disk_sector (cache s ! i) = x"
  shows "cache_content s x = buffer (cache s ! i)"
  by (simp add: cache_content_def lookup_unique [OF assms])

lemma content_uncached:
  assumes "\<forall>i<length (cache s). occupied (cache s ! i) \<longrightarrow> disk_sector (cache s ! i) \<noteq> x"
  shows "cache_content s x = sector_at (fs_device s) s x"
  using assms by (simp add: cache_content_def lookup_None [THEN iffD2])

text \<open>Both rules at once: a case distinction on whether the sector is cached.\<close>

lemma content_cases:
  assumes "cache_inv s"
  obtains (cached) i where "i < BUFFER_CACHE_SIZE" "occupied (cache s ! i)" "disk_sector (cache s ! i) = x"
      "cache_content s x = buffer (cache s ! i)"
  | (uncached) "\<forall>i<BUFFER_CACHE_SIZE. occupied (cache s ! i) \<longrightarrow> disk_sector (cache s ! i) \<noteq> x"
      "cache_content s x = sector_at (fs_device s) s x"
  using assms content_cached content_uncached unfolding cache_inv_def by metis

lemma cache_invD:
  assumes "cache_inv s" and "i < BUFFER_CACHE_SIZE"
  shows "length (buffer (cache s ! i)) = 512" "entry_ok s (cache s ! i)"
  using assms nth_mem [of i "cache s"] by (auto simp: cache_inv_def)

lemma length_content: "cache_inv s \<Longrightarrow> cache_valid s x \<Longrightarrow> length (cache_content s x) = 512"
  by (rule content_cases [of s x]) (auto simp: cache_invD cache_valid_def)

section \<open>Changing one entry\<close>

lemma no_dups_update:
  assumes "no_dups c" and "i < length c"
    and "\<And>j. j < length c \<Longrightarrow> j \<noteq> i \<Longrightarrow> occupied e \<Longrightarrow> occupied (c ! j) \<Longrightarrow> disk_sector (c ! j) \<noteq> disk_sector e"
  shows "no_dups (c[i := e])"
  unfolding no_dups_def
proof (intro allI impI, elim conjE)
  fix a b
  assume ab: "a < length (c[i := e])" "b < length (c[i := e])" "occupied (c[i := e] ! a)"
    "occupied (c[i := e] ! b)" "disk_sector (c[i := e] ! a) = disk_sector (c[i := e] ! b)"
  show "a = b"
  proof (cases "a = i \<or> b = i")
    case True
    with ab assms(3) [of a] assms(3) [of b] show ?thesis
      by (auto simp: nth_list_update split: if_splits)
  next
    case False
    with ab assms(1) show ?thesis by (auto simp: no_dups_def)
  qed
qed

lemma cache_inv_update:
  assumes inv: "cache_inv s" and i: "i < BUFFER_CACHE_SIZE"
    and sep: "\<And>j. j < BUFFER_CACHE_SIZE \<Longrightarrow> j \<noteq> i \<Longrightarrow> occupied e \<Longrightarrow> occupied (cache s ! j) \<Longrightarrow>
      disk_sector (cache s ! j) \<noteq> disk_sector e"
    and e: "length (buffer e) = 512" "entry_ok s e"
  shows "cache_inv (s\<lparr>cache := (cache s)[i := e]\<rparr>)"
proof -
  have "no_dups ((cache s)[i := e])"
    using inv i sep by (intro no_dups_update) (auto simp: cache_inv_def)
  moreover have "length (buffer x) = 512 \<and> entry_ok s x" if "x \<in> set ((cache s)[i := e])" for x
    using set_update_subset_insert [of "cache s" i e] that e inv by (auto simp: cache_inv_def)
  ultimately show ?thesis
    using inv by (auto simp: cache_inv_def entry_ok_def cache_valid_def sector_at_def dev_valid_def)
qed

lemma content_update:
  assumes inv: "cache_inv (s\<lparr>cache := (cache s)[i := e]\<rparr>)" and i: "i < BUFFER_CACHE_SIZE"
    and old: "cache_inv s" "occupied e \<Longrightarrow> occupied (cache s ! i) \<Longrightarrow> disk_sector e = disk_sector (cache s ! i)"
      "\<not> occupied e \<Longrightarrow> occupied (cache s ! i) \<Longrightarrow>
        buffer (cache s ! i) = sector_at (fs_device s) s (disk_sector (cache s ! i))"
  shows "cache_content (s\<lparr>cache := (cache s)[i := e]\<rparr>) y =
    (if occupied e \<and> disk_sector e = y then buffer e else cache_content s y)"
proof -
  let ?s = "s\<lparr>cache := (cache s)[i := e]\<rparr>"
  have len: "length (cache s) = BUFFER_CACHE_SIZE" using old(1) by (simp add: cache_inv_def)
  show ?thesis
  proof (cases "occupied e \<and> disk_sector e = y")
    case True
    then have "cache_content ?s y = buffer (cache ?s ! i)"
      using inv i len by (intro content_cached) (auto simp: cache_inv_def)
    with True i len show ?thesis by simp
  next
    case False
    show ?thesis
    proof (rule content_cases [OF old(1), of y])
      fix j assume j: "j < BUFFER_CACHE_SIZE" "occupied (cache s ! j)" "disk_sector (cache s ! j) = y"
        "cache_content s y = buffer (cache s ! j)"
      show ?thesis
      proof (cases "j = i")
        case True
        with False j old(2) have "\<not> occupied e" by auto
        moreover have "\<forall>k<BUFFER_CACHE_SIZE. k \<noteq> i \<and> occupied (cache s ! k) \<longrightarrow> disk_sector (cache s ! k) \<noteq> y"
          using old(1) j True i len by (auto simp: cache_inv_def no_dups_def)
        ultimately have "cache_content ?s y = sector_at (fs_device s) s y"
          using i len by (subst content_uncached) (auto simp: nth_list_update sector_at_def)
        with False j True old(3) \<open>\<not> occupied e\<close> show ?thesis by simp
      next
        case ne: False
        then have "cache_content ?s y = buffer (cache ?s ! j)"
          using inv j len by (intro content_cached) (auto simp: cache_inv_def)
        with ne False j show ?thesis by auto
      qed
    next
      assume un: "\<forall>j<BUFFER_CACHE_SIZE. occupied (cache s ! j) \<longrightarrow> disk_sector (cache s ! j) \<noteq> y"
        "cache_content s y = sector_at (fs_device s) s y"
      then have "cache_content ?s y = sector_at (fs_device s) s y"
        using False i len by (subst content_uncached) (auto simp: nth_list_update sector_at_def)
      with False un show ?thesis by auto
    qed
  qed
qed

section \<open>Flushing an entry\<close>

lemma put_sector_cache [frame_simps, simp]:
  "cache (put_sector b x buf s) = cache s" "clock (put_sector b x buf s) = clock s"
  "fs_device (put_sector b x buf s) = fs_device s"
  by (simp_all add: put_sector_def)

lemma buffer_cache_flush_eq:
  assumes "cache_inv s" and "i < BUFFER_CACHE_SIZE" and "occupied (cache s ! i)" and "dirty (cache s ! i)"
  shows "buffer_cache_flush i s =
    (put_sector (fs_device s) (disk_sector (cache s ! i)) (buffer (cache s ! i)) s)
      \<lparr>fs_device := bump_write (fs_device s), cache := (cache s)[i := (cache s ! i)\<lparr>dirty := False\<rparr>]\<rparr>"
  using assms cache_invD [OF assms(1,2)]
  by (simp add: buffer_cache_flush_def entry_ok_def cache_valid_def block_write_valid Let_def)

lemma buffer_cache_flush_ok:
  assumes inv: "cache_inv s" and i: "i < BUFFER_CACHE_SIZE" and occ: "occupied (cache s ! i)"
  defines "s' \<equiv> buffer_cache_flush i s"
  shows "cache_inv s'" and "cache_valid s' = cache_valid s"
    and "\<And>y. cache_valid s y \<Longrightarrow> cache_content s' y = cache_content s y"
    and "cache s' = (cache s)[i := (cache s ! i)\<lparr>dirty := False\<rparr>]"
proof -
  let ?e = "cache s ! i" and ?b = "fs_device s"
  have len: "length (cache s) = BUFFER_CACHE_SIZE" using inv by (simp add: cache_inv_def)
  have e: "dev_valid ?b s (disk_sector ?e)" "length (buffer ?e) = 512"
    using cache_invD [OF inv i] occ by (auto simp: entry_ok_def cache_valid_def)
  consider (clean) "\<not> dirty ?e" | (dirty) "dirty ?e" by blast
  then have "cache_inv s' \<and> cache_valid s' = cache_valid s \<and>
    (\<forall>y. cache_valid s y \<longrightarrow> cache_content s' y = cache_content s y) \<and>
    cache s' = (cache s)[i := ?e\<lparr>dirty := False\<rparr>]"
  proof cases
    case clean
    from clean have eq: "?e\<lparr>dirty := False\<rparr> = ?e" by simp
    from clean have "s' = s" by (simp add: s'_def buffer_cache_flush_def)
    then show ?thesis unfolding eq using inv by simp
  next
    case dirty
    note eq = buffer_cache_flush_eq [OF inv i occ dirty, folded s'_def]
    then have cache': "cache s' = (cache s)[i := ?e\<lparr>dirty := False\<rparr>]" and dev': "fs_device s' = bump_write ?b"
      and clock': "clock s' = clock s" by simp_all
    have valid': "cache_valid s' = cache_valid s"
      unfolding cache_valid_def eq using put_sector_valid [OF e] by (simp add: fun_eq_iff)
    have sec': "sector_at (fs_device s') s' y = (if y = disk_sector ?e then buffer ?e else sector_at ?b s y)"
      if "cache_valid s y" for y
      using sector_at_put [OF e(1) _ e(2), of y] that eq by (simp add: cache_valid_def)
    have nth': "occupied (cache s' ! j) = occupied (cache s ! j)" "buffer (cache s' ! j) = buffer (cache s ! j)"
      "disk_sector (cache s' ! j) = disk_sector (cache s ! j)" if "j < BUFFER_CACHE_SIZE" for j
      using that len i by (auto simp: cache' nth_list_update)
    have nd: "no_dups (cache s')"
      using inv len nth' by (auto simp: no_dups_def cache_inv_def cache')
    have ok: "entry_ok s' (cache s' ! j)" if j: "j < BUFFER_CACHE_SIZE" for j
    proof (cases "j = i")
      case True
      have "cache_valid s (disk_sector ?e)" using e(1) by (simp add: cache_valid_def)
      with True i len e occ sec' [of "disk_sector ?e"] show ?thesis
        by (simp add: entry_ok_def valid' cache')
    next
      case False
      then have "occupied (cache s ! j) \<Longrightarrow> disk_sector (cache s ! j) \<noteq> disk_sector ?e"
        using inv i j occ len by (auto simp: cache_inv_def no_dups_def)
      with False j cache_invD(2) [OF inv j] sec' [of "disk_sector (cache s ! j)"] show ?thesis
        by (auto simp: entry_ok_def valid' cache')
    qed
    have "cache_inv s'"
      unfolding cache_inv_def
      using nd ok nth' inv cache_invD(1) [OF inv] by (auto simp: clock' cache_inv_def cache' in_set_conv_nth)
    moreover have "cache_content s' y = cache_content s y" if y: "cache_valid s y" for y
    proof (rule content_cases [OF inv, of y])
      fix j assume j: "j < BUFFER_CACHE_SIZE" "occupied (cache s ! j)" "disk_sector (cache s ! j) = y"
        "cache_content s y = buffer (cache s ! j)"
      then show ?thesis using nd nth' len by (subst content_cached [of _ j]) (auto simp: cache')
    next
      assume un: "\<forall>j<BUFFER_CACHE_SIZE. occupied (cache s ! j) \<longrightarrow> disk_sector (cache s ! j) \<noteq> y"
        "cache_content s y = sector_at (fs_device s) s y"
      then have "cache_content s' y = sector_at (fs_device s') s' y"
        using nth' len by (intro content_uncached) (auto simp: cache')
      with un sec' [OF y] i occ show ?thesis by auto
    qed
    ultimately show ?thesis using valid' cache' by blast
  qed
  then show "cache_inv s'" and "cache_valid s' = cache_valid s"
    and "\<And>y. cache_valid s y \<Longrightarrow> cache_content s' y = cache_content s y"
    and "cache s' = (cache s)[i := ?e\<lparr>dirty := False\<rparr>]" by blast+
qed

section \<open>The clock algorithm\<close>

text \<open>
  The scan stops, at an entry that is free or has its reference bit clear, and changes
  nothing but reference bits.
\<close>

lemma clock_scan_ok:
  assumes "length c = BUFFER_CACHE_SIZE" and "k < BUFFER_CACHE_SIZE"
  shows "\<exists>k' c'. clock_scan c k = Some (k', c') \<and> k' < BUFFER_CACHE_SIZE \<and> length c' = BUFFER_CACHE_SIZE \<and>
    (\<not> occupied (c' ! k') \<or> \<not> access (c' ! k')) \<and>
    map (\<lambda>e. e\<lparr>access := False\<rparr>) c' = map (\<lambda>e. e\<lparr>access := False\<rparr>) c"
  using assms
proof (induction c k rule: clock_scan.induct)
  case (1 c k)
  show ?case
  proof (cases "occupied (c ! k) \<and> access (c ! k)")
    case True
    let ?c = "c[k := (c ! k)\<lparr>access := False\<rparr>]"
    have "\<exists>k' c'. clock_scan ?c (Suc k mod BUFFER_CACHE_SIZE) = Some (k', c') \<and> k' < BUFFER_CACHE_SIZE \<and>
      length c' = BUFFER_CACHE_SIZE \<and> (\<not> occupied (c' ! k') \<or> \<not> access (c' ! k')) \<and>
      map (\<lambda>e. e\<lparr>access := False\<rparr>) c' = map (\<lambda>e. e\<lparr>access := False\<rparr>) ?c"
      using True "1.prems" by (intro "1.IH") auto
    moreover have "map (\<lambda>e. e\<lparr>access := False\<rparr>) ?c = map (\<lambda>e. e\<lparr>access := False\<rparr>) c"
      using "1.prems" by (intro nth_equalityI) (auto simp: nth_list_update)
    ultimately show ?thesis using True "1.prems" by (simp add: clock_scan.simps [of c k])
  next
    case False
    with "1.prems" show ?thesis by (simp add: clock_scan.simps [of c k])
  qed
qed

lemma same_entries:
  assumes "map (\<lambda>e. e\<lparr>access := False\<rparr>) c' = map (\<lambda>e. e\<lparr>access := False\<rparr>) c" and "i < length c"
  shows "occupied (c' ! i) = occupied (c ! i)" "disk_sector (c' ! i) = disk_sector (c ! i)"
    "buffer (c' ! i) = buffer (c ! i)" "dirty (c' ! i) = dirty (c ! i)"
proof -
  from assms have "length c' = length c" by (metis length_map)
  with assms have "(c' ! i)\<lparr>access := False\<rparr> = (c ! i)\<lparr>access := False\<rparr>"
    by (metis (no_types, lifting) nth_map)
  then show "occupied (c' ! i) = occupied (c ! i)" "disk_sector (c' ! i) = disk_sector (c ! i)"
    "buffer (c' ! i) = buffer (c ! i)" "dirty (c' ! i) = dirty (c ! i)"
    by (metis buffer_cache_entry_t.select_convs buffer_cache_entry_t.surjective
        buffer_cache_entry_t.update_convs(5))+
qed

section \<open>Eviction and the slot of a sector\<close>

lemma lookup_access [simp]:
  "buffer_cache_lookup (map (\<lambda>e. e\<lparr>access := b\<rparr>) c) x = buffer_cache_lookup c x"
  by (induction c) auto

lemma cache_inv_same:
  assumes inv: "cache_inv s" and k: "k < BUFFER_CACHE_SIZE"
    and same: "map (\<lambda>e. e\<lparr>access := False\<rparr>) c = map (\<lambda>e. e\<lparr>access := False\<rparr>) (cache s)"
  defines "s' \<equiv> s\<lparr>cache := c, clock := k\<rparr>"
  shows "cache_inv s'" and "cache_valid s' = cache_valid s" and "cache_content s' y = cache_content s y"
proof -
  have len: "length (cache s) = BUFFER_CACHE_SIZE" "length c = BUFFER_CACHE_SIZE"
    using inv same by (auto simp: cache_inv_def dest: map_eq_imp_length_eq)
  note eqs = same_entries [OF same, unfolded len]
  show valid: "cache_valid s' = cache_valid s" by (simp add: s'_def cache_valid_def)
  have "entry_ok s' (c ! j)" if "j < BUFFER_CACHE_SIZE" for j
    using cache_invD(2) [OF inv that] eqs [OF that] valid by (simp add: entry_ok_def s'_def)
  moreover have "no_dups c"
    using inv len eqs by (auto simp: cache_inv_def no_dups_def)
  ultimately show "cache_inv s'"
    using k len eqs cache_invD(1) [OF inv] by (auto simp: cache_inv_def s'_def in_set_conv_nth)
  have "buffer_cache_lookup c y = buffer_cache_lookup (cache s) y"
    by (metis lookup_access same)
  then show "cache_content s' y = cache_content s y"
    using eqs(3) lookup_Some [of "cache s" y] len
    by (auto simp: cache_content_def s'_def split: option.split)
qed

lemma buffer_cache_evict_ok:
  assumes inv: "cache_inv s"
  obtains k s' where "buffer_cache_evict s = Some (k, s')" and "cache_inv s'" and "k < BUFFER_CACHE_SIZE"
    and "\<not> occupied (cache s' ! k)" and "cache_valid s' = cache_valid s"
    and "\<And>y. cache_valid s y \<Longrightarrow> cache_content s' y = cache_content s y"
    and "\<And>y. buffer_cache_lookup (cache s) y = None \<Longrightarrow> buffer_cache_lookup (cache s') y = None"
proof -
  have len: "length (cache s) = BUFFER_CACHE_SIZE" using inv by (simp add: cache_inv_def)
  obtain k c where kc: "clock_scan (cache s) (clock s) = Some (k, c)" "k < BUFFER_CACHE_SIZE"
    "length c = BUFFER_CACHE_SIZE"
    and same: "map (\<lambda>e. e\<lparr>access := False\<rparr>) c = map (\<lambda>e. e\<lparr>access := False\<rparr>) (cache s)"
    using clock_scan_ok [of "cache s" "clock s"] inv by (auto simp: cache_inv_def)
  define t where "t = s\<lparr>cache := c, clock := k\<rparr>"
  note t = cache_inv_same [OF inv kc(2) same, folded t_def]
  have look_t: "buffer_cache_lookup c y = buffer_cache_lookup (cache s) y" for y
    by (metis lookup_access same)
  show thesis
  proof (cases "occupied (c ! k)")
    case False
    show thesis
      by (rule that [of k t]) (use False kc t look_t in \<open>auto simp: buffer_cache_evict_def t_def\<close>)
  next
    case True
    then have occ: "occupied (cache t ! k)" by (simp add: t_def)
    define u where "u = buffer_cache_flush k t"
    note u = buffer_cache_flush_ok [OF t(1) kc(2) occ, folded u_def]
    have lens: "length (cache t) = BUFFER_CACHE_SIZE" using t(1) by (simp add: cache_inv_def)
    let ?e = "(cache u ! k)\<lparr>occupied := False\<rparr>"
    have clean: "occupied (cache u ! k)" "\<not> dirty (cache u ! k)"
      using u(4) occ kc(2) lens by simp_all
    define v where "v = u\<lparr>cache := (cache u)[k := ?e]\<rparr>"
    have inv_v: "cache_inv v"
      unfolding v_def using u(1) kc(2) cache_invD [OF u(1) kc(2)]
      by (intro cache_inv_update) (auto simp: entry_ok_def)
    have con_v: "cache_content v y = cache_content u y" for y
      unfolding v_def using u(1) kc(2) inv_v clean cache_invD(2) [OF u(1) kc(2)]
      by (subst content_update) (auto simp: v_def entry_ok_def)
    have nth_v: "occupied (cache v ! j) \<Longrightarrow> occupied (cache t ! j) \<and> disk_sector (cache v ! j) = disk_sector (cache t ! j)"
      if "j < BUFFER_CACHE_SIZE" for j
      using that kc(2) lens by (auto simp: v_def u(4) nth_list_update split: if_splits)
    show thesis
    proof (rule that [of k v])
      show "buffer_cache_evict s = Some (k, v)"
        using True kc(1) by (simp add: buffer_cache_evict_def v_def u_def t_def Let_def buffer_cache_flush_def)
      show "cache_inv v" "k < BUFFER_CACHE_SIZE" by fact+
      show "\<not> occupied (cache v ! k)" using kc(2) lens by (simp add: v_def u(4))
      show "cache_valid v = cache_valid s" using t(2) u(2) by (simp add: v_def cache_valid_def)
      show "cache_content v y = cache_content s y" if "cache_valid s y" for y
        using that u(3) [of y] t(2) t(3) [of y] con_v by simp
      show "buffer_cache_lookup (cache v) y = None" if "buffer_cache_lookup (cache s) y = None" for y
        using that nth_v lens inv_v unfolding look_t [of y, symmetric] lookup_None
        by (auto simp: cache_inv_def t_def kc(3))
    qed
  qed
qed

lemma cache_slot_ok:
  assumes inv: "cache_inv s" and x: "cache_valid s x"
  obtains i s' where "cache_slot x s = Some (i, s')" and "cache_inv s'" and "i < BUFFER_CACHE_SIZE"
    and "occupied (cache s' ! i)" and "disk_sector (cache s' ! i) = x" and "cache_valid s' = cache_valid s"
    and "\<And>y. cache_valid s y \<Longrightarrow> cache_content s' y = cache_content s y"
proof (cases "buffer_cache_lookup (cache s) x")
  case (Some i)
  show thesis
    by (rule that [of i s]) (use lookup_Some [OF Some] Some inv in \<open>auto simp: cache_slot_def cache_inv_def\<close>)
next
  case None
  obtain k t where t: "buffer_cache_evict s = Some (k, t)" "cache_inv t" "k < BUFFER_CACHE_SIZE"
    "\<not> occupied (cache t ! k)" "cache_valid t = cache_valid s"
    "\<And>y. cache_valid s y \<Longrightarrow> cache_content t y = cache_content s y"
    "buffer_cache_lookup (cache t) x = None"
    using buffer_cache_evict_ok [OF inv] None by metis
  let ?old = "(cache t ! k)\<lparr>occupied := True, disk_sector := x, dirty := False\<rparr>"
  let ?e = "?old\<lparr>buffer := sector_at (fs_device t) t x\<rparr>"
  define u where "u = t\<lparr>fs_device := bump_read (fs_device t)\<rparr>"
  define v where "v = u\<lparr>cache := (cache u)[k := ?e]\<rparr>"
  have x': "dev_valid (fs_device t) t x" using x t(5) by (simp add: cache_valid_def)
  have rd: "block_read (fs_device t) x (buffer ?old) t = (sector_at (fs_device t) t x, bump_read (fs_device t), t)"
    using block_read_valid [OF x'] cache_invD(1) [OF t(2,3)] by simp
  have u: "cache_inv u" "cache_valid u = cache_valid t" "cache_content u y = cache_content t y" for y
    using t(2) by (auto simp: u_def cache_inv_def entry_ok_def cache_valid_def cache_content_def split: option.split)
  have lens: "length (cache t) = BUFFER_CACHE_SIZE" using t(2) by (simp add: cache_inv_def)
  have inv_v: "cache_inv v"
    unfolding v_def using u t(3,7) lens x' t(5)
    by (intro cache_inv_update) (auto simp: entry_ok_def u_def cache_valid_def lookup_None)
  have con_v: "cache_content v y = cache_content u y" for y
  proof -
    have "cache_content u x = sector_at (fs_device t) t x"
      using t(7) by (simp add: u(3)) (simp add: cache_content_def)
    then show ?thesis
      unfolding v_def using u(1) t(3,4) inv_v by (subst content_update) (auto simp: v_def u_def)
  qed
  show thesis
  proof (rule that [of k v])
    show "cache_slot x s = Some (k, v)"
      using None t(1) rd by (simp add: cache_slot_def v_def u_def Let_def)
    show "cache_inv v" "k < BUFFER_CACHE_SIZE" by fact+
    show "occupied (cache v ! k)" "disk_sector (cache v ! k) = x"
      using t(3) lens by (simp_all add: v_def u_def)
    show "cache_valid v = cache_valid s" using u(2) t(5) by (simp add: v_def cache_valid_def)
    show "cache_content v y = cache_content s y" if "cache_valid s y" for y
      using that con_v u(3) t(6) by simp
  qed
qed

section \<open>The cache as a sector store\<close>

lemma buffer_cache_read_ok:
  assumes inv: "cache_inv s" and x: "cache_valid s x"
  shows "\<exists>s'. buffer_cache_read x s = Some (cache_content s x, s') \<and> cache_inv s' \<and>
    cache_valid s' = cache_valid s \<and> (\<forall>y. cache_valid s y \<longrightarrow> cache_content s' y = cache_content s y)"
proof -
  obtain i t where t: "cache_slot x s = Some (i, t)" "cache_inv t" "i < BUFFER_CACHE_SIZE"
    "occupied (cache t ! i)" "disk_sector (cache t ! i) = x" "cache_valid t = cache_valid s"
    "\<And>y. cache_valid s y \<Longrightarrow> cache_content t y = cache_content s y"
    using cache_slot_ok [OF inv x] by metis
  let ?e = "(cache t ! i)\<lparr>access := True\<rparr>"
  let ?v = "t\<lparr>cache := (cache t)[i := ?e]\<rparr>"
  have lens: "length (cache t) = BUFFER_CACHE_SIZE" using t(2) by (simp add: cache_inv_def)
  have inv_v: "cache_inv ?v"
    using t(2-5) lens cache_invD [OF t(2,3)]
    by (intro cache_inv_update) (auto simp: entry_ok_def cache_inv_def no_dups_def)
  have buf: "buffer (cache t ! i) = cache_content t x"
    using t(2-5) lens by (subst content_cached [of _ i]) (auto simp: cache_inv_def)
  have "cache_content ?v y = cache_content t y" for y
    using t(2-5) inv_v buf by (subst content_update) auto
  with t inv_v buf x show ?thesis by (auto simp: buffer_cache_read_def Let_def cache_valid_def)
qed

lemma buffer_cache_write_ok:
  assumes inv: "cache_inv s" and x: "cache_valid s x" and b: "length b = 512"
  shows "\<exists>s'. buffer_cache_write x b s = Some s' \<and> cache_inv s' \<and> cache_valid s' = cache_valid s \<and>
    (\<forall>y. cache_valid s y \<longrightarrow> cache_content s' y = (if y = x then b else cache_content s y))"
proof -
  obtain i t where t: "cache_slot x s = Some (i, t)" "cache_inv t" "i < BUFFER_CACHE_SIZE"
    "occupied (cache t ! i)" "disk_sector (cache t ! i) = x" "cache_valid t = cache_valid s"
    "\<And>y. cache_valid s y \<Longrightarrow> cache_content t y = cache_content s y"
    using cache_slot_ok [OF inv x] by metis
  let ?e = "(cache t ! i)\<lparr>access := True, dirty := True, buffer := b\<rparr>"
  let ?v = "t\<lparr>cache := (cache t)[i := ?e]\<rparr>"
  have lens: "length (cache t) = BUFFER_CACHE_SIZE" using t(2) by (simp add: cache_inv_def)
  have inv_v: "cache_inv ?v"
    using t(2-5) lens b x t(6)
    by (intro cache_inv_update) (auto simp: entry_ok_def cache_inv_def no_dups_def)
  have "cache_content ?v y = (if y = x then b else cache_content t y)" for y
    using t(2-5) inv_v by (subst content_update) auto
  with t inv_v b show ?thesis by (auto simp: buffer_cache_write_def Let_def cache_valid_def)
qed

interpretation bc: sector_store buffer_cache_read buffer_cache_write cache_content cache_valid cache_inv
  by unfold_locales (use buffer_cache_read_ok buffer_cache_write_ok length_content in blast)+

section \<open>Closing the cache\<close>

lemma buffer_cache_close_from_ok:
  assumes "cache_inv s" and "i + n = BUFFER_CACHE_SIZE"
    and "\<forall>j<i. occupied (cache s ! j) \<longrightarrow> \<not> dirty (cache s ! j)"
  shows "cache_inv (buffer_cache_close_from i n s) \<and>
    cache_valid (buffer_cache_close_from i n s) = cache_valid s \<and>
    (\<forall>y. cache_valid s y \<longrightarrow> cache_content (buffer_cache_close_from i n s) y = cache_content s y) \<and>
    (\<forall>e \<in> set (cache (buffer_cache_close_from i n s)). occupied e \<longrightarrow> \<not> dirty e)"
  using assms
proof (induction i n s rule: buffer_cache_close_from.induct)
  case (1 i s)
  then show ?case by (auto simp: cache_inv_def in_set_conv_nth)
next
  case (2 i n s)
  show ?case
  proof (cases "occupied (cache s ! i)")
    case False
    with 2 show ?thesis by (simp add: less_Suc_eq)
  next
    case True
    with "2.prems"(2) have i: "i < BUFFER_CACHE_SIZE" by simp
    note f = buffer_cache_flush_ok [OF "2.prems"(1) i True]
    have "length (cache s) = BUFFER_CACHE_SIZE" using "2.prems"(1) by (simp add: cache_inv_def)
    then have "\<forall>j<Suc i. occupied (cache (buffer_cache_flush i s) ! j) \<longrightarrow>
        \<not> dirty (cache (buffer_cache_flush i s) ! j)"
      using "2.prems"(3) i by (auto simp: f(4) less_Suc_eq)
    with "2.IH"(2) [OF _ f(1)] True "2.prems"(2) f(2,3) show ?thesis by simp
  qed
qed

lemma buffer_cache_close_ok:
  assumes "cache_inv s"
  shows "cache_inv (buffer_cache_close s)" and "cache_valid (buffer_cache_close s) = cache_valid s"
    and "cache_valid s y \<Longrightarrow> sector_at (fs_device (buffer_cache_close s)) (buffer_cache_close s) y = cache_content s y"
proof -
  let ?t = "buffer_cache_close s"
  have t: "cache_inv ?t" "cache_valid ?t = cache_valid s"
    "\<And>y. cache_valid s y \<Longrightarrow> cache_content ?t y = cache_content s y"
    "\<forall>e \<in> set (cache ?t). occupied e \<longrightarrow> \<not> dirty e"
    using buffer_cache_close_from_ok [OF assms, of 0 BUFFER_CACHE_SIZE]
    by (auto simp: buffer_cache_close_def)
  show "cache_inv ?t" "cache_valid ?t = cache_valid s" by fact+
  assume y: "cache_valid s y"
  show "sector_at (fs_device ?t) ?t y = cache_content s y"
  proof (rule content_cases [OF t(1), of y])
    fix i assume i: "i < BUFFER_CACHE_SIZE" "occupied (cache ?t ! i)" "disk_sector (cache ?t ! i) = y"
      "cache_content ?t y = buffer (cache ?t ! i)"
    then have "\<not> dirty (cache ?t ! i)" using t(1,4) by (simp add: cache_inv_def)
    with cache_invD(2) [OF t(1) i(1)] i t(3) [OF y] show ?thesis by (simp add: entry_ok_def)
  qed (use t(3) [OF y] in simp)
qed

section \<open>Second chance\<close>

text \<open>An entry may be taken when it is free or its reference bit is clear.\<close>

definition eligible :: "buffer_cache_entry_t \<Rightarrow> bool" where
  "eligible e \<longleftrightarrow> \<not> occupied e \<or> \<not> access e"

fun clear_from :: "buffer_cache_entry_t list \<Rightarrow> nat \<Rightarrow> nat \<Rightarrow> buffer_cache_entry_t list" where
  "clear_from c k 0 = c"
| "clear_from c k (Suc d) =
    clear_from (c[k := (c ! k)\<lparr>access := False\<rparr>]) (Suc k mod BUFFER_CACHE_SIZE) d"

lemma length_clear_from [simp]: "length (clear_from c k d) = length c"
  by (induction c k d rule: clear_from.induct) auto

lemma mod_step_ne:
  assumes "k < BUFFER_CACHE_SIZE" and "0 < e" and "e < BUFFER_CACHE_SIZE"
  shows "(k + e) mod BUFFER_CACHE_SIZE \<noteq> k"
proof (cases "k + e < BUFFER_CACHE_SIZE")
  case False
  then have "(k + e) mod BUFFER_CACHE_SIZE = k + e - BUFFER_CACHE_SIZE"
    using assms by (simp add: mod_if)
  with False assms show ?thesis by linarith
qed (use assms in simp)

text \<open>The hand passes over \<open>d\<close> entries that are not eligible and clears their bits.\<close>

lemma clock_scan_skip:
  assumes "length c = BUFFER_CACHE_SIZE" and "k < BUFFER_CACHE_SIZE" and "d \<le> BUFFER_CACHE_SIZE"
    and "\<forall>e<d. \<not> eligible (c ! ((k + e) mod BUFFER_CACHE_SIZE))"
  shows "clock_scan c k = clock_scan (clear_from c k d) ((k + d) mod BUFFER_CACHE_SIZE)"
  using assms
proof (induction c k d rule: clear_from.induct)
  case (1 c k)
  then show ?case by simp
next
  case (2 c k d)
  let ?c = "c[k := (c ! k)\<lparr>access := False\<rparr>]" and ?k = "Suc k mod BUFFER_CACHE_SIZE"
  have "\<not> eligible (c ! k)" using "2.prems"(2,4) by (metis add_0_right mod_less zero_less_Suc)
  then have step: "clock_scan c k = clock_scan ?c ?k"
    using "2.prems" by (simp add: clock_scan.simps [of c k] eligible_def)
  have same: "?c ! ((?k + e) mod BUFFER_CACHE_SIZE) = c ! ((k + Suc e) mod BUFFER_CACHE_SIZE)" if "e < d" for e
  proof -
    have "(?k + e) mod BUFFER_CACHE_SIZE = (k + Suc e) mod BUFFER_CACHE_SIZE" by (simp add: mod_add_left_eq)
    moreover have "(k + Suc e) mod BUFFER_CACHE_SIZE \<noteq> k"
      using that "2.prems"(2,3) by (intro mod_step_ne) auto
    ultimately show ?thesis by simp
  qed
  have "\<forall>e<d. \<not> eligible (?c ! ((?k + e) mod BUFFER_CACHE_SIZE))"
    using "2.prems"(4) same by auto
  with "2.prems" have "clock_scan ?c ?k = clock_scan (clear_from ?c ?k d) ((?k + d) mod BUFFER_CACHE_SIZE)"
    by (intro "2.IH") simp_all
  moreover have "(?k + d) mod BUFFER_CACHE_SIZE = (k + Suc d) mod BUFFER_CACHE_SIZE"
    by (simp add: mod_add_left_eq)
  ultimately show ?case using step by simp
qed

lemma nth_clear_from_other:
  assumes "length c = BUFFER_CACHE_SIZE" and "k < BUFFER_CACHE_SIZE" and "d < BUFFER_CACHE_SIZE"
    and "d \<le> e" and "e < BUFFER_CACHE_SIZE"
  shows "clear_from c k d ! ((k + e) mod BUFFER_CACHE_SIZE) = c ! ((k + e) mod BUFFER_CACHE_SIZE)"
  using assms
proof (induction c k d arbitrary: e rule: clear_from.induct)
  case (1 c k)
  then show ?case by simp
next
  case (2 c k d)
  let ?c = "c[k := (c ! k)\<lparr>access := False\<rparr>]" and ?k = "Suc k mod BUFFER_CACHE_SIZE"
  obtain f where f: "e = Suc f" using "2.prems"(4) by (cases e) auto
  have eq: "(?k + f) mod BUFFER_CACHE_SIZE = (k + e) mod BUFFER_CACHE_SIZE"
    unfolding f by (simp add: mod_add_left_eq)
  have "clear_from ?c ?k d ! ((?k + f) mod BUFFER_CACHE_SIZE) = ?c ! ((?k + f) mod BUFFER_CACHE_SIZE)"
    using "2.prems" f by (intro "2.IH") auto
  moreover have "(k + e) mod BUFFER_CACHE_SIZE \<noteq> k"
    using "2.prems" by (intro mod_step_ne) auto
  ultimately show ?case by (simp add: eq)
qed

lemma access_clear_from:
  assumes "length c = BUFFER_CACHE_SIZE" and "k < BUFFER_CACHE_SIZE" and "\<not> access (c ! j)"
  shows "\<not> access (clear_from c k d ! j)"
  using assms
proof (induction c k d rule: clear_from.induct)
  case (2 c k d)
  then show ?case by (cases "j = k") auto
qed simp

section \<open>Properties\<close>

text \<open>The entry the second-chance rule designates, seen from the hand \<open>k\<close>.\<close>

definition victim :: "buffer_cache_entry_t list \<Rightarrow> nat \<Rightarrow> nat" where
  "victim c k =
    (case List.find (\<lambda>d. eligible (c ! ((k + d) mod BUFFER_CACHE_SIZE))) [0..<BUFFER_CACHE_SIZE] of
       Some d \<Rightarrow> (k + d) mod BUFFER_CACHE_SIZE
     | None \<Rightarrow> k)"

text \<open>
  C27: The search for an entry to replace always ends, and ends at the entry the
  second-chance rule designates: the first entry from the hand on, going round, that is
  free or has not been used since the hand last passed; the entry under the hand if all
  64 have been used.
\<close>

theorem clock_scan_second_chance:
  assumes "length c = BUFFER_CACHE_SIZE" and "k < BUFFER_CACHE_SIZE"
  shows "map_option fst (clock_scan c k) = Some (victim c k)"
proof (cases "List.find (\<lambda>d. eligible (c ! ((k + d) mod BUFFER_CACHE_SIZE))) [0..<BUFFER_CACHE_SIZE]")
  case None
  then have "\<forall>d<BUFFER_CACHE_SIZE. \<not> eligible (c ! ((k + d) mod BUFFER_CACHE_SIZE))"
    by (auto simp: find_None_iff)
  from clock_scan_skip [OF assms le_refl this]
  have eq: "clock_scan c k = clock_scan (clear_from c k BUFFER_CACHE_SIZE) k" using assms(2) by simp
  have "clear_from c k (Suc 63) = clear_from (c[k := (c ! k)\<lparr>access := False\<rparr>]) (Suc k mod BUFFER_CACHE_SIZE) 63"
    by (rule clear_from.simps)
  then have "\<not> access (clear_from c k BUFFER_CACHE_SIZE ! k)"
    using assms by (simp add: access_clear_from)
  with assms None show ?thesis
    by (simp add: eq clock_scan.simps [of "clear_from c k BUFFER_CACHE_SIZE"] victim_def)
next
  case (Some d)
  then have d: "d < BUFFER_CACHE_SIZE" "eligible (c ! ((k + d) mod BUFFER_CACHE_SIZE))"
    "\<forall>e<d. \<not> eligible (c ! ((k + e) mod BUFFER_CACHE_SIZE))"
    by (auto simp: find_Some_iff)
  have "clock_scan c k = clock_scan (clear_from c k d) ((k + d) mod BUFFER_CACHE_SIZE)"
    using clock_scan_skip [OF assms _ d(3)] d(1) by simp
  moreover have "clear_from c k d ! ((k + d) mod BUFFER_CACHE_SIZE) = c ! ((k + d) mod BUFFER_CACHE_SIZE)"
    using nth_clear_from_other [OF assms d(1) le_refl d(1)] .
  moreover have "\<not> BUFFER_CACHE_SIZE \<le> (k + d) mod BUFFER_CACHE_SIZE" by (simp add: not_le)
  ultimately show ?thesis
    using assms d(2) Some
    by (simp add: clock_scan.simps [of "clear_from c k d"] victim_def eligible_def)
qed

definition demo_entry :: "bool \<Rightarrow> buffer_cache_entry_t" where
  "demo_entry a = \<lparr>occupied = True, disk_sector = 0, buffer = [], dirty = False, access = a\<rparr>"

theorem clock_scan_second_chance_witness:
  "map_option fst (clock_scan (replicate 63 (demo_entry True) @ [demo_entry False]) 60) = Some 63"
proof -
  let ?c = "replicate 63 (demo_entry True) @ [demo_entry False]"
  have "List.find (\<lambda>d. eligible (?c ! ((60 + d) mod 64))) [0..<64] = Some 3"
    unfolding find_Some_iff
    by (rule exI [of _ 3]) (auto simp: eligible_def demo_entry_def nth_append mod_if)
  then have "victim ?c 60 = 63" by (simp add: victim_def)
  with clock_scan_second_chance [of ?c 60] show ?thesis by simp
qed

text \<open>
  \<open>buffer_cache_init\<close> on a cache whose entries have buffers of sector size
  establishes the invariant, and the cache then shows exactly the sectors of the device.
\<close>

theorem buffer_cache_init_inv:
  assumes "length (cache s) = BUFFER_CACHE_SIZE" and "clock s < BUFFER_CACHE_SIZE"
    and "\<forall>e \<in> set (cache s). length (buffer e) = 512"
  shows "cache_inv (buffer_cache_init s) \<and>
    cache_content (buffer_cache_init s) x = sector_at (fs_device s) s x"
proof -
  have free: "\<not> occupied (cache (buffer_cache_init s) ! i)" if "i < BUFFER_CACHE_SIZE" for i
    using that assms(1) by (simp add: buffer_cache_init_def)
  have "cache_content (buffer_cache_init s) x = sector_at (fs_device s) s x"
    using free assms(1) by (subst content_uncached) (auto simp: buffer_cache_init_def)
  moreover have "cache_inv (buffer_cache_init s)"
    using assms by (auto simp: cache_inv_def buffer_cache_init_def no_dups_def entry_ok_def)
  ultimately show ?thesis by blast
qed

definition demo_cache :: cache_state where
  "demo_cache = \<lparr>fd = 3, image = replicate 2048 7, panics = 0, hard_drive = None,
     cache = replicate 64 \<lparr>occupied = False, disk_sector = 0, buffer = replicate 512 0,
       dirty = False, access = False\<rparr>,
     clock = 0, fs_device = demo_ide\<rparr>"

theorem buffer_cache_init_inv_witness:
  "cache_content (buffer_cache_init demo_cache) 2 = sector_at demo_ide demo_cache 2"
  using buffer_cache_init_inv [of demo_cache 2] by (simp add: demo_cache_def)

text \<open>
  C2: The cache is transparent. Take any sequence of reads and writes of valid sectors,
  whatever it evicts and writes back. Every read returns what the same sequence returns on
  the device without a cache, and after \<open>buffer_cache_close\<close> every sector of the device
  holds what it holds after the sequence without a cache. The cache starts as
  \<open>buffer_cache_init\<close> leaves it (no entry occupied).
\<close>

theorem buffer_cache_transparent:
  assumes inv: "cache_inv s" and empty: "\<forall>e \<in> set (cache s). \<not> occupied e"
    and ops: "\<forall>p \<in> set ops. op_ok (cache_valid s) p"
  shows "\<exists>out s' dev'. run_store buffer_cache_read buffer_cache_write ops s = Some (out, s') \<and>
    run_store raw_read raw_write ops (fs_device s, s) = Some (out, dev') \<and>
    (\<forall>y. cache_valid s y \<longrightarrow>
      sector_at (fs_device (buffer_cache_close s')) (buffer_cache_close s') y = sector_at (fst dev') (snd dev') y)"
proof -
  have start: "cache_content s y = sector_at (fs_device s) s y" for y
    using empty by (intro content_uncached) auto
  obtain s' where s': "run_store buffer_cache_read buffer_cache_write ops s = Some (fst (run_map ops (cache_content s)), s')"
    "cache_inv s'" "cache_valid s' = cache_valid s"
    "\<And>y. cache_valid s y \<Longrightarrow> cache_content s' y = snd (run_map ops (cache_content s)) y"
    using bc.run_store_ok [OF inv ops] by blast
  have "\<forall>p \<in> set ops. op_ok (dev_valid (fst (fs_device s, s)) (snd (fs_device s, s))) p"
    using ops by (simp add: cache_valid_def)
  then obtain d where d: "run_store raw_read raw_write ops (fs_device s, s) =
      Some (fst (run_map ops (sector_at (fs_device s) s)), d)"
    "\<And>y. cache_valid s y \<Longrightarrow> sector_at (fst d) (snd d) y = snd (run_map ops (sector_at (fs_device s) s)) y"
    using raw.run_store_ok [where s = "(fs_device s, s)" and ops = ops] by (auto simp: cache_valid_def)
  have "cache_content s = sector_at (fs_device s) s" using start by blast
  with s' d buffer_cache_close_ok(3) [OF s'(2)] show ?thesis by auto
qed

theorem buffer_cache_transparent_witness:
  "\<exists>s'. run_store buffer_cache_read buffer_cache_write
     [Wr 2 (replicate 512 9), Rd 2, Rd 3] (buffer_cache_init demo_cache) =
     Some ([replicate 512 9, replicate 512 7], s')"
proof -
  let ?s = "buffer_cache_init demo_cache" and ?ops = "[Wr 2 (replicate 512 9), Rd 2, Rd 3]"
  have inv: "cache_inv ?s" using buffer_cache_init_inv [of demo_cache 0] by (simp add: demo_cache_def)
  have dev: "fs_device ?s = demo_ide" "image ?s = replicate 2048 7" "fd ?s = 3"
    by (simp_all add: buffer_cache_init_def demo_cache_def)
  have valid: "cache_valid ?s 2" "cache_valid ?s 3"
    by (simp_all add: cache_valid_def dev_valid_def dev demo_ide_def word_le_nat_alt)
  have empty: "\<forall>e \<in> set (cache ?s). \<not> occupied e"
    by (simp add: buffer_cache_init_def)
  have ops: "\<forall>p \<in> set ?ops. op_ok (cache_valid ?s) p"
    using valid by (simp add: op_ok_def)
  obtain out s' dev' where r: "run_store buffer_cache_read buffer_cache_write ?ops ?s = Some (out, s')"
    "run_store raw_read raw_write ?ops (fs_device ?s, ?s) = Some (out, dev')"
    using buffer_cache_transparent [OF inv empty ops] by blast
  have "sector_at demo_ide ?s 3 = replicate 512 7"
    by (simp add: sector_at_def dev demo_ide_def ide_offset_def pread_def)
  moreover have "fst (run_map ?ops (sector_at (fs_device ?s) ?s)) = [replicate 512 9, sector_at demo_ide ?s 3]"
    by (simp add: dev)
  moreover have "out = fst (run_map ?ops (sector_at (fs_device ?s) ?s))"
    using raw.run_store_ok [where s = "(fs_device ?s, ?s)" and ops = ?ops] r(2) ops by (auto simp: cache_valid_def)
  ultimately show ?thesis using r(1) by auto
qed

end
