(* ===== verification/Fs_Bitmap.thy ===== *)
theory Fs_Bitmap
  imports Prelude
begin

text \<open>
  Bitmaps, \<open>fs/bitmap.c\<close>: an array of bits kept in 64-bit words. Counts and indices
  (\<open>size_t\<close>) are natural numbers. A failing \<open>ASSERT\<close> prints a line and returns, so the
  assertions do not restrict the operations; what does is the length of the word array, and
  an access outside it is \<open>None\<close>.

  \<open>bools\<close> is the abstract value, the list of the bits. Every operation is shown to do on
  it what its comment says.
\<close>

abbreviation ELEM_BITS :: nat where "ELEM_BITS \<equiv> 64"

abbreviation BITMAP_ERROR :: nat where "BITMAP_ERROR \<equiv> 4294967295"

record bitmap =
  bit_cnt :: nat
  bits :: "u64 list"

section \<open>Operations\<close>

definition elem_idx :: "nat \<Rightarrow> nat" where
  "elem_idx bit_idx = bit_idx div ELEM_BITS"

definition bit_mask :: "nat \<Rightarrow> u64" where
  "bit_mask bit_idx = push_bit (bit_idx mod ELEM_BITS) 1"

definition elem_cnt :: "nat \<Rightarrow> nat" where
  "elem_cnt cnt = DIV_ROUND_UP cnt ELEM_BITS"

definition byte_cnt :: "nat \<Rightarrow> nat" where
  "byte_cnt cnt = 8 * elem_cnt cnt"

definition last_mask :: "bitmap \<Rightarrow> u64" where
  "last_mask b =
    (let last_bits = bit_cnt b mod ELEM_BITS
     in if last_bits \<noteq> 0 then push_bit last_bits 1 - 1 else - 1)"

definition bitmap_size :: "bitmap \<Rightarrow> nat" where
  "bitmap_size b = bit_cnt b"

definition bitmap_mark :: "bitmap \<Rightarrow> nat \<Rightarrow> bitmap option" where
  "bitmap_mark b bit_idx =
    (let idx = elem_idx bit_idx; m = bit_mask bit_idx in
     if idx < length (bits b) then Some (b\<lparr>bits := (bits b)[idx := bits b ! idx OR m]\<rparr>) else None)"

definition bitmap_reset :: "bitmap \<Rightarrow> nat \<Rightarrow> bitmap option" where
  "bitmap_reset b bit_idx =
    (let idx = elem_idx bit_idx; m = bit_mask bit_idx in
     if idx < length (bits b) then Some (b\<lparr>bits := (bits b)[idx := bits b ! idx AND NOT m]\<rparr>) else None)"

definition bitmap_flip :: "bitmap \<Rightarrow> nat \<Rightarrow> bitmap option" where
  "bitmap_flip b bit_idx =
    (let idx = elem_idx bit_idx; m = bit_mask bit_idx in
     if idx < length (bits b) then Some (b\<lparr>bits := (bits b)[idx := bits b ! idx XOR m]\<rparr>) else None)"

definition bitmap_set :: "bitmap \<Rightarrow> nat \<Rightarrow> bool \<Rightarrow> bitmap option" where
  "bitmap_set b idx v = (if v then bitmap_mark b idx else bitmap_reset b idx)"

definition bitmap_test :: "bitmap \<Rightarrow> nat \<Rightarrow> bool option" where
  "bitmap_test b idx =
    (if elem_idx idx < length (bits b) then Some (bits b ! elem_idx idx AND bit_mask idx \<noteq> 0) else None)"

text \<open>The loop \<open>for (i = 0; i < cnt; i++) bitmap_set(b, start + i, value)\<close>.\<close>

fun bitmap_set_multiple :: "bitmap \<Rightarrow> nat \<Rightarrow> nat \<Rightarrow> bool \<Rightarrow> bitmap option" where
  "bitmap_set_multiple b start 0 v = Some b"
| "bitmap_set_multiple b start (Suc cnt) v =
    do { b \<leftarrow> bitmap_set b start v; bitmap_set_multiple b (Suc start) cnt v }"

definition bitmap_set_all :: "bitmap \<Rightarrow> bool \<Rightarrow> bitmap option" where
  "bitmap_set_all b v = bitmap_set_multiple b 0 (bitmap_size b) v"

definition bitmap_create :: "nat \<Rightarrow> bitmap option" where
  "bitmap_create cnt =
    bitmap_set_all \<lparr>bit_cnt = cnt, bits = replicate (elem_cnt cnt) 0\<rparr> False"

fun bitmap_count :: "bitmap \<Rightarrow> nat \<Rightarrow> nat \<Rightarrow> bool \<Rightarrow> nat option" where
  "bitmap_count b start 0 v = Some 0"
| "bitmap_count b start (Suc cnt) v =
    do { t \<leftarrow> bitmap_test b start; n \<leftarrow> bitmap_count b (Suc start) cnt v;
         Some (if t = v then Suc n else n) }"

fun bitmap_contains :: "bitmap \<Rightarrow> nat \<Rightarrow> nat \<Rightarrow> bool \<Rightarrow> bool option" where
  "bitmap_contains b start 0 v = Some False"
| "bitmap_contains b start (Suc cnt) v =
    do { t \<leftarrow> bitmap_test b start;
         if t = v then Some True else bitmap_contains b (Suc start) cnt v }"

definition bitmap_any :: "bitmap \<Rightarrow> nat \<Rightarrow> nat \<Rightarrow> bool option" where
  "bitmap_any b start cnt = bitmap_contains b start cnt True"

definition bitmap_none :: "bitmap \<Rightarrow> nat \<Rightarrow> nat \<Rightarrow> bool option" where
  "bitmap_none b start cnt = map_option Not (bitmap_contains b start cnt True)"

definition bitmap_all :: "bitmap \<Rightarrow> nat \<Rightarrow> nat \<Rightarrow> bool option" where
  "bitmap_all b start cnt = map_option Not (bitmap_contains b start cnt False)"

text \<open>The loop of \<open>bitmap_scan\<close>, from \<open>i\<close> to \<open>last\<close>; its second argument counts the
  iterations left.\<close>

fun bitmap_scan_from :: "bitmap \<Rightarrow> nat \<Rightarrow> nat \<Rightarrow> nat \<Rightarrow> bool \<Rightarrow> nat option" where
  "bitmap_scan_from b 0 i cnt v = Some BITMAP_ERROR"
| "bitmap_scan_from b (Suc n) i cnt v =
    do { c \<leftarrow> bitmap_contains b i cnt (\<not> v);
         if \<not> c then Some i else bitmap_scan_from b n (Suc i) cnt v }"

definition bitmap_scan :: "bitmap \<Rightarrow> nat \<Rightarrow> nat \<Rightarrow> bool \<Rightarrow> nat option" where
  "bitmap_scan b start cnt v =
    (if cnt \<le> bit_cnt b
     then let last = bit_cnt b - cnt in bitmap_scan_from b (Suc last - start) start cnt v
     else Some BITMAP_ERROR)"

definition bitmap_scan_and_flip :: "bitmap \<Rightarrow> nat \<Rightarrow> nat \<Rightarrow> bool \<Rightarrow> (nat \<times> bitmap) option" where
  "bitmap_scan_and_flip b start cnt v =
    do { idx \<leftarrow> bitmap_scan b start cnt v;
         if idx \<noteq> BITMAP_ERROR
         then do { b \<leftarrow> bitmap_set_multiple b idx cnt (\<not> v); Some (idx, b) }
         else Some (idx, b) }"

text \<open>
  What \<open>bitmap_write\<close> hands to the file layer, and what \<open>bitmap_read\<close> makes of the bytes
  it got: the words in memory order, the unused bits of the last word cleared.
\<close>

definition bitmap_file_size :: "bitmap \<Rightarrow> nat" where
  "bitmap_file_size b = byte_cnt (bit_cnt b)"

definition bitmap_bytes :: "bitmap \<Rightarrow> u8 list" where
  "bitmap_bytes b = concat (map (le_bytes 8) (bits b))"

definition bitmap_load :: "bitmap \<Rightarrow> u8 list \<Rightarrow> bitmap option" where
  "bitmap_load b bs =
    (if bit_cnt b > 0 then
       let buf = overwrite (bitmap_bytes b) 0 bs;
           ws = le_chunks 8 (length (bits b)) buf;
           i = elem_cnt (bit_cnt b) - 1
       in if i < length ws then Some (b\<lparr>bits := ws[i := ws ! i AND last_mask b]\<rparr>) else None
     else Some b)"

definition bitmap_create_from_buf :: "nat \<Rightarrow> u8 list \<Rightarrow> bitmap option" where
  "bitmap_create_from_buf cnt buf =
    do { b \<leftarrow> bitmap_create cnt;
         if length buf < byte_cnt cnt then None
         else Some (b\<lparr>bits := le_chunks 8 (elem_cnt cnt) buf\<rparr>) }"

section \<open>Bits\<close>

definition bm_ok :: "bitmap \<Rightarrow> bool" where
  "bm_ok b \<longleftrightarrow> length (bits b) = elem_cnt (bit_cnt b)"

definition bm_bit :: "bitmap \<Rightarrow> nat \<Rightarrow> bool" where
  "bm_bit b i = bit (bits b ! (i div ELEM_BITS)) (i mod ELEM_BITS)"

definition bools :: "bitmap \<Rightarrow> bool list" where
  "bools b = map (bm_bit b) [0..<bit_cnt b]"

lemma length_bools [simp]: "length (bools b) = bit_cnt b"
  by (simp add: bools_def)

lemma nth_bools [simp]: "i < bit_cnt b \<Longrightarrow> bools b ! i = bm_bit b i"
  by (simp add: bools_def)

lemma elem_idx_less: "bm_ok b \<Longrightarrow> i < bit_cnt b \<Longrightarrow> elem_idx i < length (bits b)"
  by (simp add: bm_ok_def elem_idx_def elem_cnt_def div_less_DIV_ROUND_UP)

lemma bit_bit_mask: "bit (bit_mask i) n \<longleftrightarrow> n = i mod ELEM_BITS"
  by (auto simp: bit_mask_def bit_simps)

lemma bitmap_test_bit: "elem_idx i < length (bits b) \<Longrightarrow> bitmap_test b i = Some (bm_bit b i)"
  by (simp add: bitmap_test_def bm_bit_def elem_idx_def bit_mask_def bit_iff_and_push_bit_not_eq_0)

text \<open>Two indices denote the same bit only when they are equal.\<close>

lemma same_bit: "i div ELEM_BITS = j div ELEM_BITS \<Longrightarrow> i mod ELEM_BITS = j mod ELEM_BITS \<Longrightarrow> i = (j::nat)"
  by (metis div_mult_mod_eq)

lemma bm_bit_update:
  assumes "elem_idx i < length (bits b)"
    and "\<And>n. n < ELEM_BITS \<Longrightarrow> bit w n = (if n = i mod ELEM_BITS then v else bit (bits b ! elem_idx i) n)"
  shows "bm_bit (b\<lparr>bits := (bits b)[elem_idx i := w]\<rparr>) j = (if j = i then v else bm_bit b j)"
proof (cases "j div ELEM_BITS = i div ELEM_BITS")
  case True
  then have "(j = i) = (j mod ELEM_BITS = i mod ELEM_BITS)" using same_bit by blast
  with True assms show ?thesis by (simp add: bm_bit_def elem_idx_def)
next
  case False
  then show ?thesis by (auto simp: bm_bit_def elem_idx_def)
qed

lemma bm_ok_update [simp]: "bm_ok (b\<lparr>bits := (bits b)[i := w]\<rparr>) = bm_ok b"
  by (simp add: bm_ok_def)

lemma bitmap_set_ok:
  assumes "bm_ok b" and "i < bit_cnt b"
  obtains b' where "bitmap_set b i v = Some b'" and "bm_ok b'" and "bit_cnt b' = bit_cnt b"
    and "\<And>j. bm_bit b' j = (if j = i then v else bm_bit b j)"
proof -
  note i = elem_idx_less [OF assms]
  define w where "w = (if v then bits b ! elem_idx i OR bit_mask i
                       else bits b ! elem_idx i AND NOT (bit_mask i))"
  have w: "bit w n = (if n = i mod ELEM_BITS then v else bit (bits b ! elem_idx i) n)"
    if "n < ELEM_BITS" for n
    using that by (auto simp: w_def bit_simps bit_bit_mask)
  show thesis
  proof (rule that [of "b\<lparr>bits := (bits b)[elem_idx i := w]\<rparr>"])
    show "bitmap_set b i v = Some (b\<lparr>bits := (bits b)[elem_idx i := w]\<rparr>)"
      using i by (simp add: bitmap_set_def bitmap_mark_def bitmap_reset_def w_def Let_def)
  qed (use assms bm_bit_update [OF i w] in auto)
qed

lemma bitmap_flip_ok:
  assumes "bm_ok b" and "i < bit_cnt b"
  obtains b' where "bitmap_flip b i = Some b'" and "bm_ok b'" and "bit_cnt b' = bit_cnt b"
    and "\<And>j. bm_bit b' j = (if j = i then \<not> bm_bit b i else bm_bit b j)"
proof -
  note i = elem_idx_less [OF assms]
  define w where "w = bits b ! elem_idx i XOR bit_mask i"
  have w: "bit w n = (if n = i mod ELEM_BITS then \<not> bm_bit b i else bit (bits b ! elem_idx i) n)"
    if "n < ELEM_BITS" for n
    using that by (auto simp: w_def bit_simps bit_bit_mask bm_bit_def elem_idx_def)
  show thesis
  proof (rule that [of "b\<lparr>bits := (bits b)[elem_idx i := w]\<rparr>"])
    show "bitmap_flip b i = Some (b\<lparr>bits := (bits b)[elem_idx i := w]\<rparr>)"
      using i by (simp add: bitmap_flip_def w_def Let_def)
  qed (use assms bm_bit_update [OF i w] in auto)
qed

lemma boolsI:
  "bit_cnt b' = bit_cnt b \<Longrightarrow> (\<And>i. i < bit_cnt b \<Longrightarrow> bm_bit b' i = f i) \<Longrightarrow>
   bools b' = map f [0..<bit_cnt b]"
  by (simp add: bools_def)

lemma bools_set_ok:
  assumes "bm_ok b" and "i < bit_cnt b"
  obtains b' where "bitmap_set b i v = Some b'" and "bm_ok b'" and "bit_cnt b' = bit_cnt b"
    and "bools b' = (bools b)[i := v]"
proof -
  obtain b' where b': "bitmap_set b i v = Some b'" "bm_ok b'" "bit_cnt b' = bit_cnt b"
      "\<And>j. bm_bit b' j = (if j = i then v else bm_bit b j)"
    using bitmap_set_ok [OF assms] by blast
  have "bools b' = (bools b)[i := v]"
    using b' by (intro nth_equalityI) (auto simp: nth_list_update)
  with b' show thesis by (intro that) auto
qed

lemma bools_flip_ok:
  assumes "bm_ok b" and "i < bit_cnt b"
  obtains b' where "bitmap_flip b i = Some b'" and "bm_ok b'" and "bit_cnt b' = bit_cnt b"
    and "bools b' = (bools b)[i := \<not> bools b ! i]"
proof -
  obtain b' where b': "bitmap_flip b i = Some b'" "bm_ok b'" "bit_cnt b' = bit_cnt b"
      "\<And>j. bm_bit b' j = (if j = i then \<not> bm_bit b i else bm_bit b j)"
    using bitmap_flip_ok [OF assms] by blast
  have "bools b' = (bools b)[i := \<not> bools b ! i]"
    using b' assms by (intro nth_equalityI) (auto simp: nth_list_update)
  with b' show thesis by (intro that) auto
qed

section \<open>Runs of bits\<close>

lemma overwrite_replicate_Suc:
  "Suc (start + cnt) \<le> length xs \<Longrightarrow>
   overwrite (xs[start := v]) (Suc start) (replicate cnt v) = overwrite xs start (replicate (Suc cnt) v)"
  by (intro nth_equalityI) (auto simp: nth_overwrite nth_list_update nth_Cons' )

lemma bitmap_set_multiple_ok:
  assumes "bm_ok b" and "start + cnt \<le> bit_cnt b"
  shows "\<exists>b'. bitmap_set_multiple b start cnt v = Some b' \<and> bm_ok b' \<and> bit_cnt b' = bit_cnt b \<and>
    bools b' = overwrite (bools b) start (replicate cnt v)"
  using assms
proof (induction cnt arbitrary: b start)
  case 0
  then show ?case by simp
next
  case (Suc cnt)
  from Suc.prems have "start < bit_cnt b" by simp
  then obtain b1 where b1: "bitmap_set b start v = Some b1" "bm_ok b1" "bit_cnt b1 = bit_cnt b"
      "bools b1 = (bools b)[start := v]"
    using bools_set_ok [OF Suc.prems(1)] by blast
  from Suc.prems b1(3) have "Suc start + cnt \<le> bit_cnt b1" by simp
  from Suc.IH [OF b1(2) this] obtain b2 where b2: "bitmap_set_multiple b1 (Suc start) cnt v = Some b2"
      "bm_ok b2" "bit_cnt b2 = bit_cnt b1" "bools b2 = overwrite (bools b1) (Suc start) (replicate cnt v)"
    by blast
  from Suc.prems have "bools b2 = overwrite (bools b) start (replicate (Suc cnt) v)"
    unfolding b2(4) b1(4) by (intro overwrite_replicate_Suc) simp
  with b1 b2 show ?case by auto
qed

lemma bitmap_create_ok:
  "\<exists>b. bitmap_create cnt = Some b \<and> bm_ok b \<and> bit_cnt b = cnt \<and> bools b = replicate cnt False"
proof -
  let ?b = "\<lparr>bit_cnt = cnt, bits = replicate (elem_cnt cnt) 0\<rparr>"
  have "bm_ok ?b" by (simp add: bm_ok_def)
  then have "\<exists>b'. bitmap_set_multiple ?b 0 cnt False = Some b' \<and> bm_ok b' \<and> bit_cnt b' = bit_cnt ?b \<and>
      bools b' = overwrite (bools ?b) 0 (replicate cnt False)"
    by (intro bitmap_set_multiple_ok) simp_all
  then show ?thesis by (simp add: bitmap_create_def bitmap_set_all_def bitmap_size_def)
qed

lemma segment_Cons:
  "start < length xs \<Longrightarrow> take (Suc cnt) (drop start xs) = xs ! start # take cnt (drop (Suc start) xs)"
  by (simp add: take_Suc_conv_app_nth Cons_nth_drop_Suc [symmetric])

lemma bitmap_contains_ok:
  assumes "bm_ok b" and "start + cnt \<le> bit_cnt b"
  shows "bitmap_contains b start cnt v = Some (v \<in> set (take cnt (drop start (bools b))))"
  using assms
proof (induction cnt arbitrary: start)
  case 0
  then show ?case by simp
next
  case (Suc cnt)
  then have s: "start < bit_cnt b" by simp
  from Suc show ?case
    by (auto simp: bitmap_test_bit elem_idx_less s segment_Cons)
qed

lemma bitmap_count_ok:
  assumes "bm_ok b" and "start + cnt \<le> bit_cnt b"
  shows "bitmap_count b start cnt v = Some (count_list (take cnt (drop start (bools b))) v)"
  using assms
proof (induction cnt arbitrary: start)
  case 0
  then show ?case by simp
next
  case (Suc cnt)
  then have s: "start < bit_cnt b" by simp
  from Suc show ?case
    by (auto simp: bitmap_test_bit elem_idx_less s segment_Cons)
qed

section \<open>Searching\<close>

definition run_at :: "bool list \<Rightarrow> nat \<Rightarrow> bool \<Rightarrow> nat \<Rightarrow> bool" where
  "run_at xs cnt v i \<longleftrightarrow> i + cnt \<le> length xs \<and> (\<forall>x \<in> set (take cnt (drop i xs)). x = v)"

text \<open>The first position, from \<open>start\<close> on, of a group of \<open>cnt\<close> equal bits.\<close>

definition first_run :: "bool list \<Rightarrow> nat \<Rightarrow> nat \<Rightarrow> bool \<Rightarrow> nat option" where
  "first_run xs start cnt v = List.find (run_at xs cnt v) [start..<Suc (length xs) - cnt]"

lemma run_at_replicate:
  "run_at xs cnt v i \<longleftrightarrow> i + cnt \<le> length xs \<and> take cnt (drop i xs) = replicate cnt v"
proof (cases "i + cnt \<le> length xs")
  case True
  then have "length (take cnt (drop i xs)) = cnt" by simp
  then have "(\<forall>x \<in> set (take cnt (drop i xs)). x = v) \<longleftrightarrow> take cnt (drop i xs) = replicate cnt v"
    by (intro iffI ballI replicate_eqI) (auto simp only: set_replicate_conv_if split: if_splits)
  with True show ?thesis by (simp add: run_at_def)
qed (simp add: run_at_def)

lemma first_run_Some_iff:
  "first_run xs start cnt v = Some r \<longleftrightarrow>
     start \<le> r \<and> run_at xs cnt v r \<and> (\<forall>j. start \<le> j \<and> j < r \<longrightarrow> \<not> run_at xs cnt v j)"
proof -
  let ?ns = "[start..<Suc (length xs) - cnt]"
  have nth: "i < length ?ns \<Longrightarrow> ?ns ! i = start + i" for i by simp
  show ?thesis
  proof
    assume "first_run xs start cnt v = Some r"
    then obtain i where i: "i < length ?ns" "run_at xs cnt v (?ns ! i)" "r = ?ns ! i"
        "\<forall>j < i. \<not> run_at xs cnt v (?ns ! j)"
      by (auto simp: first_run_def find_Some_iff)
    moreover have "\<not> run_at xs cnt v j" if "start \<le> j" "j < r" for j
      using i(4) [rule_format, of "j - start"] i(1,3) that by simp
    ultimately show "start \<le> r \<and> run_at xs cnt v r \<and> (\<forall>j. start \<le> j \<and> j < r \<longrightarrow> \<not> run_at xs cnt v j)"
      by simp
  next
    assume r: "start \<le> r \<and> run_at xs cnt v r \<and> (\<forall>j. start \<le> j \<and> j < r \<longrightarrow> \<not> run_at xs cnt v j)"
    then have len: "r - start < length ?ns" by (auto simp: run_at_def)
    show "first_run xs start cnt v = Some r"
      unfolding first_run_def find_Some_iff
      by (rule exI [of _ "r - start"]) (use r len in simp)
  qed
qed

lemma first_run_None_iff:
  "first_run xs start cnt v = None \<longleftrightarrow> (\<forall>j \<ge> start. \<not> run_at xs cnt v j)"
  by (auto simp: first_run_def find_None_iff run_at_def)

lemma bitmap_contains_run:
  assumes "bm_ok b" and "i + cnt \<le> bit_cnt b"
  shows "bitmap_contains b i cnt (\<not> v) = Some (\<not> run_at (bools b) cnt v i)"
  using assms by (auto simp: bitmap_contains_ok run_at_def)

lemma bitmap_scan_from_ok:
  assumes "bm_ok b" and "n + i + cnt \<le> Suc (bit_cnt b)"
  shows "bitmap_scan_from b n i cnt v =
    Some (case List.find (run_at (bools b) cnt v) [i..<i + n] of None \<Rightarrow> BITMAP_ERROR | Some r \<Rightarrow> r)"
  using assms
proof (induction n arbitrary: i)
  case 0
  then show ?case by simp
next
  case (Suc n)
  then have "bitmap_contains b i cnt (\<not> v) = Some (\<not> run_at (bools b) cnt v i)"
    by (intro bitmap_contains_run) simp_all
  moreover have "[i..<i + Suc n] = i # [Suc i..<Suc i + n]"
    by (simp add: upt_conv_Cons)
  ultimately show ?case using Suc by simp
qed

lemma bitmap_scan_ok:
  assumes "bm_ok b"
  shows "bitmap_scan b start cnt v =
    Some (case first_run (bools b) start cnt v of None \<Rightarrow> BITMAP_ERROR | Some r \<Rightarrow> r)"
proof (cases "cnt \<le> bit_cnt b \<and> start \<le> Suc (bit_cnt b) - cnt")
  case True
  then have eq: "Suc (bit_cnt b) - cnt = start + (Suc (bit_cnt b - cnt) - start)" by linarith
  have "bitmap_scan_from b (Suc (bit_cnt b - cnt) - start) start cnt v =
      Some (case List.find (run_at (bools b) cnt v) [start..<start + (Suc (bit_cnt b - cnt) - start)]
        of None \<Rightarrow> BITMAP_ERROR | Some r \<Rightarrow> r)"
    by (rule bitmap_scan_from_ok) (use assms True in linarith)+
  then show ?thesis
    unfolding bitmap_scan_def first_run_def length_bools eq Let_def using True by simp
next
  case False
  then have "first_run (bools b) start cnt v = None"
    by (auto simp: first_run_None_iff run_at_def)
  moreover from False have "Suc (bit_cnt b - cnt) - start = 0" if "cnt \<le> bit_cnt b" using that by simp
  ultimately show ?thesis by (simp add: bitmap_scan_def)
qed

text \<open>
  The index found is smaller than the number of bits, so \<open>BITMAP_ERROR\<close> is not ambiguous
  as long as the bitmap has fewer bits than that.
\<close>

lemma bitmap_scan_and_flip_ok:
  assumes "bm_ok b" and "bit_cnt b < BITMAP_ERROR"
  shows "case first_run (bools b) start cnt v of
      None \<Rightarrow> bitmap_scan_and_flip b start cnt v = Some (BITMAP_ERROR, b)
    | Some r \<Rightarrow> \<exists>b'. bitmap_scan_and_flip b start cnt v = Some (r, b') \<and> bm_ok b' \<and>
        bit_cnt b' = bit_cnt b \<and> bools b' = overwrite (bools b) r (replicate cnt (\<not> v))"
proof (cases "first_run (bools b) start cnt v")
  case None
  then show ?thesis using assms by (simp add: bitmap_scan_and_flip_def bitmap_scan_ok)
next
  case (Some r)
  then have r: "r + cnt \<le> bit_cnt b" by (simp add: first_run_Some_iff run_at_def)
  with assms(2) have "r \<noteq> BITMAP_ERROR" by simp
  with Some assms bitmap_set_multiple_ok [OF assms(1) r, of "\<not> v"] show ?thesis
    by (auto simp: bitmap_scan_and_flip_def bitmap_scan_ok)
qed

section \<open>Bitmaps in files\<close>

lemma length_bitmap_bytes: "bm_ok b \<Longrightarrow> length (bitmap_bytes b) = bitmap_file_size b"
  by (simp add: bitmap_bytes_def bm_ok_def bitmap_file_size_def byte_cnt_def)

lemma bit_last_mask:
  assumes "n < ELEM_BITS"
  shows "bit (last_mask b) n \<longleftrightarrow> bit_cnt b mod ELEM_BITS = 0 \<or> n < bit_cnt b mod ELEM_BITS"
proof (cases "bit_cnt b mod ELEM_BITS = 0")
  case True
  then show ?thesis using assms by (simp add: last_mask_def)
next
  case False
  have "push_bit k 1 - 1 = (mask k :: u64)" for k by (simp add: mask_eq_decr_exp push_bit_eq_mult)
  with False assms show ?thesis by (simp add: last_mask_def bit_mask_iff)
qed

text \<open>What is read back has the bits that were written, for every bitmap of the same length.\<close>

lemma bitmap_load_bytes:
  assumes "bm_ok b" and "bm_ok b0" and "bit_cnt b0 = bit_cnt b"
  obtains b' where "bitmap_load b0 (bitmap_bytes b) = Some b'" and "bm_ok b'"
    and "bit_cnt b' = bit_cnt b" and "bools b' = bools b"
proof (cases "bit_cnt b")
  case 0
  with assms that [of b0] show thesis by (simp add: bitmap_load_def bools_def)
next
  case (Suc k)
  let ?n = "elem_cnt (bit_cnt b)" and ?i = "elem_cnt (bit_cnt b) - 1"
  let ?w = "bits b ! ?i AND last_mask b"
  have len: "length (bits b) = ?n" "length (bits b0) = ?n"
    using assms by (simp_all add: bm_ok_def)
  have n: "k div 64 < ?n" "?n \<le> Suc (k div 64)"
  proof -
    show "k div 64 < ?n" using Suc by (simp add: elem_cnt_def div_less_DIV_ROUND_UP)
    show "?n \<le> Suc (k div 64)" using Suc by (simp add: elem_cnt_def DIV_ROUND_UP_def)
  qed
  then have i: "?i = k div 64" "?i < ?n" by simp_all
  have "overwrite (bitmap_bytes b0) 0 (bitmap_bytes b) = bitmap_bytes b"
    using len by (simp add: bitmap_bytes_def)
  moreover have "le_chunks 8 ?n (bitmap_bytes b) = bits b"
    using le_chunks_concat [of 8 "bits b" "[]"] len by (simp add: bitmap_bytes_def)
  moreover have "last_mask b0 = last_mask b" using assms by (simp add: last_mask_def)
  ultimately have load: "bitmap_load b0 (bitmap_bytes b) = Some (b0\<lparr>bits := (bits b)[?i := ?w]\<rparr>)"
    using assms Suc len i by (simp add: bitmap_load_def Let_def)
  have "bm_bit (b0\<lparr>bits := (bits b)[?i := ?w]\<rparr>) j = bm_bit b j" if j: "j < bit_cnt b" for j
  proof (cases "j div 64 = ?i")
    case True
    have "j mod 64 < bit_cnt b mod 64" if "bit_cnt b mod 64 \<noteq> 0"
    proof -
      have "bit_cnt b div 64 = k div 64" using Suc that by (simp add: div_Suc mod_Suc split: if_splits)
      moreover have "j div 64 * 64 + j mod 64 = j" "bit_cnt b div 64 * 64 + bit_cnt b mod 64 = bit_cnt b"
        by simp_all
      ultimately show ?thesis using True i j by linarith
    qed
    then show ?thesis using True i len by (auto simp: bm_bit_def bit_simps bit_last_mask)
  next
    case False
    then show ?thesis using len by (simp add: bm_bit_def)
  qed
  then have "bools (b0\<lparr>bits := (bits b)[?i := ?w]\<rparr>) = bools b"
    using assms by (simp add: bools_def)
  then show thesis using that [OF load] len assms by (simp add: bm_ok_def)
qed

section \<open>Properties\<close>

definition demo_bm :: bitmap where
  "demo_bm = \<lparr>bit_cnt = 70, bits = [0xF00000000000000F, 0x15]\<rparr>"

lemma demo_bm_ok: "bm_ok demo_bm" "bit_cnt demo_bm = 70"
  by (simp_all add: demo_bm_def bm_ok_def elem_cnt_def DIV_ROUND_UP_def)

text \<open>
  Setting a range of bits (\<open>bitmap_set_multiple\<close>) sets exactly the bits of the range
  and leaves every other bit as it was, also where the range crosses the words of the
  representation; testing a bit afterwards (\<open>bitmap_test\<close>) tells which.
\<close>

theorem bitmap_set_multiple_exact:
  assumes "bm_ok b" and "start + cnt \<le> bit_cnt b"
  shows "\<exists>b'. bitmap_set_multiple b start cnt v = Some b' \<and> bm_ok b' \<and> bit_cnt b' = bit_cnt b \<and>
    (\<forall>i < bit_cnt b. bitmap_test b' i =
      (if start \<le> i \<and> i < start + cnt then Some v else bitmap_test b i))"
proof -
  obtain b' where b': "bitmap_set_multiple b start cnt v = Some b'" "bm_ok b'" "bit_cnt b' = bit_cnt b"
      "bools b' = overwrite (bools b) start (replicate cnt v)"
    using bitmap_set_multiple_ok [OF assms] by blast
  have "bm_bit b' i = (if start \<le> i \<and> i < start + cnt then v else bm_bit b i)" if "i < bit_cnt b" for i
    using that b'(3) assms(2) arg_cong [OF b'(4), of "\<lambda>xs. xs ! i"] by (auto simp: nth_overwrite)
  with b' assms(1) show ?thesis by (auto simp: bitmap_test_bit elem_idx_less)
qed

theorem bitmap_set_multiple_exact_witness:
  "\<exists>b'. bitmap_set_multiple demo_bm 62 4 False = Some b' \<and> bitmap_test b' 61 = Some True \<and>
     bitmap_test b' 63 = Some False \<and> bitmap_test b' 64 = Some False \<and> bitmap_test b' 68 = Some True"
proof -
  have t: "bitmap_test demo_bm 61 = Some True" "bitmap_test demo_bm 68 = Some True"
    by code_simp+
  show ?thesis
    using bitmap_set_multiple_exact [of demo_bm 62 4 False] demo_bm_ok t by auto
qed

text \<open>
  C26: \<open>bitmap_scan_and_flip\<close> returns the first position, from \<open>start\<close> on, of \<open>cnt\<close>
  consecutive bits with the value \<open>v\<close>, and flips exactly these bits; if there is no such
  group anywhere after \<open>start\<close> it returns \<open>BITMAP_ERROR\<close> and changes nothing. An empty group is
  found at \<open>start\<close>: for \<open>cnt = 0\<close> the result is \<open>start\<close>, and not 0 as the comment before the function says.
\<close>

theorem bitmap_scan_and_flip_first:
  assumes "bm_ok b" and "bit_cnt b < BITMAP_ERROR" and "start \<le> bit_cnt b"
  shows "\<exists>r b'. bitmap_scan_and_flip b start cnt v = Some (r, b') \<and> bm_ok b' \<and> bit_cnt b' = bit_cnt b \<and>
    (if r = BITMAP_ERROR
     then b' = b \<and> (\<forall>j \<ge> start. j + cnt \<le> bit_cnt b \<longrightarrow> take cnt (drop j (bools b)) \<noteq> replicate cnt v)
     else start \<le> r \<and> r + cnt \<le> bit_cnt b \<and> take cnt (drop r (bools b)) = replicate cnt v \<and>
       (\<forall>j. start \<le> j \<and> j < r \<longrightarrow> take cnt (drop j (bools b)) \<noteq> replicate cnt v) \<and>
       bools b' = overwrite (bools b) r (replicate cnt (\<not> v))) \<and>
    (cnt = 0 \<longrightarrow> r = start)"
proof (cases "first_run (bools b) start cnt v")
  case None
  have "cnt \<noteq> 0"
  proof
    assume "cnt = 0"
    then show False using None assms(3) by (auto simp: first_run_None_iff run_at_replicate)
  qed
  with bitmap_scan_and_flip_ok [OF assms(1,2), of start cnt v] None assms(1) show ?thesis
    by (auto simp: first_run_None_iff run_at_replicate)
next
  case (Some r)
  then have r: "start \<le> r" "run_at (bools b) cnt v r"
      "\<And>j. start \<le> j \<Longrightarrow> j < r \<Longrightarrow> \<not> run_at (bools b) cnt v j"
    by (auto simp: first_run_Some_iff)
  obtain b' where b': "bitmap_scan_and_flip b start cnt v = Some (r, b')" "bm_ok b'"
      "bit_cnt b' = bit_cnt b" "bools b' = overwrite (bools b) r (replicate cnt (\<not> v))"
    using bitmap_scan_and_flip_ok [OF assms(1,2), of start cnt v] Some by auto
  from r(2) have rc: "r + cnt \<le> bit_cnt b" by (simp add: run_at_replicate)
  have "take cnt (drop j (bools b)) \<noteq> replicate cnt v" if "start \<le> j" "j < r" for j
    using r(3) [OF that] rc that by (simp add: run_at_replicate)
  moreover have "r = start" if "cnt = 0"
  proof (rule ccontr)
    assume "r \<noteq> start"
    then show False using r(1) r(3) [of start] that assms(3) by (simp add: run_at_replicate)
  qed
  moreover from rc assms(2) have "r \<noteq> BITMAP_ERROR" by simp
  ultimately show ?thesis using b' r(1,2) by (auto simp: run_at_replicate)
qed

theorem bitmap_scan_and_flip_first_witness:
  "\<exists>b'. bitmap_scan_and_flip demo_bm 0 2 False = Some (4, b') \<and>
     bools b' = overwrite (bools demo_bm) 4 [True, True]"
proof -
  have "bitmap_scan_from demo_bm 69 0 2 False = Some 4" by code_simp
  then have "bitmap_scan demo_bm 0 2 False = Some 4"
    by (simp add: bitmap_scan_def demo_bm_ok del: bitmap_scan_from.simps)
  then have "r = 4" if "bitmap_scan_and_flip demo_bm 0 2 False = Some (r, b')" for r b'
    using that by (auto simp: bitmap_scan_and_flip_def elim!: bind_SomeE)
  with bitmap_scan_and_flip_first [of demo_bm 0 2 False] demo_bm_ok show ?thesis
    by (fastforce simp: numeral_2_eq_2)
qed

text \<open>
  Storing a bitmap and loading it into a bitmap of the same length
  (\<open>bitmap_write\<close>, \<open>bitmap_read\<close>) gives every bit back, whatever the target held and
  whatever the unused bits of the last word are.
\<close>

theorem bitmap_file_roundtrip:
  assumes "bm_ok b" and "bm_ok b0" and "bit_cnt b0 = bit_cnt b" and "i < bit_cnt b"
  shows "length (bitmap_bytes b) = bitmap_file_size b \<and>
    Option.bind (bitmap_load b0 (bitmap_bytes b)) (\<lambda>b'. bitmap_test b' i) = bitmap_test b i"
proof -
  obtain b' where b': "bitmap_load b0 (bitmap_bytes b) = Some b'" "bm_ok b'" "bit_cnt b' = bit_cnt b"
      "bools b' = bools b"
    using bitmap_load_bytes [OF assms(1-3)] by blast
  have "bm_bit b' i = bm_bit b i" using assms(4) b'(3) arg_cong [OF b'(4), of "\<lambda>xs. xs ! i"] by simp
  with b' assms show ?thesis by (simp add: bitmap_test_bit elem_idx_less length_bitmap_bytes)
qed

theorem bitmap_file_roundtrip_witness:
  "Option.bind (bitmap_load \<lparr>bit_cnt = 70, bits = [0, 0]\<rparr> (bitmap_bytes demo_bm))
     (\<lambda>b'. bitmap_test b' 68) = Some True"
proof -
  have "bm_ok \<lparr>bit_cnt = 70, bits = [0, 0]\<rparr>"
    by (simp add: bm_ok_def elem_cnt_def DIV_ROUND_UP_def)
  moreover have "bitmap_test demo_bm 68 = Some True" by code_simp
  ultimately show ?thesis
    using bitmap_file_roundtrip [of demo_bm "\<lparr>bit_cnt = 70, bits = [0, 0]\<rparr>" 68] demo_bm_ok by simp
qed

end
