(* ===== verification/Fs_Inode.thy ===== *)
theory Fs_Inode
  imports Fs_Cache
begin

text \<open>
  Inodes, \<open>fs/inode.c\<close> and \<open>fs/inode.h\<close>, first part: the structure of an inode on disk,
  the map from the blocks of a file to sectors (direct, indirect and doubly indirect) and
  the reading and writing of file data through the buffer cache. The allocation of sectors
  and the table of open inodes are in \<open>Fs_Alloc\<close>.

  \<open>offset_t\<close> is a signed 32-bit integer in the code; here it is \<open>int\<close>. The operations take
  the contents of the \<open>struct inode_disk\<close> they only look at as a value.

  \<open>file_bytes\<close> is the abstract value of a file, the list of its bytes; reading is shown to
  return a segment of it and writing to overwrite one.
\<close>

abbreviation DIRECT_BLOCKS_COUNT :: nat where "DIRECT_BLOCKS_COUNT \<equiv> 123"

abbreviation INDIRECT_BLOCKS_PER_SECTOR :: nat where "INDIRECT_BLOCKS_PER_SECTOR \<equiv> 128"

abbreviation INODE_MAGIC :: u32 where "INODE_MAGIC \<equiv> 0x494e4f44"

section \<open>Data\<close>

text \<open>\<open>padding\<close> stands for the three bytes the compiler leaves between \<open>is_dir\<close> and \<open>length\<close>.\<close>

record inode_disk =
  direct_blocks :: "u32 list"
  indirect_block :: u32
  doubly_indirect_block :: u32
  is_dir :: u8
  padding :: "u8 list"
  data_length :: int
  magic :: u32

definition put_inode :: "inode_disk \<Rightarrow> u8 list" where
  "put_inode d =
    concat (map (le_bytes 4) (direct_blocks d)) @ le_bytes 4 (indirect_block d) @
    le_bytes 4 (doubly_indirect_block d) @ [is_dir d] @ padding d @
    le_bytes 4 (word_of_int (data_length d) :: u32) @ le_bytes 4 (magic d)"

definition get_inode :: "u8 list \<Rightarrow> inode_disk" where
  "get_inode bs =
    \<lparr>direct_blocks = le_chunks 4 DIRECT_BLOCKS_COUNT bs,
     indirect_block = le_word (take 4 (drop 492 bs)),
     doubly_indirect_block = le_word (take 4 (drop 496 bs)),
     is_dir = bs ! 500,
     padding = take 3 (drop 501 bs),
     data_length = sint (le_word (take 4 (drop 504 bs)) :: u32),
     magic = le_word (take 4 (drop 508 bs))\<rparr>"

text \<open>\<open>struct inode_indirect_block_sector\<close> is an array of sector numbers.\<close>

definition put_blocks :: "u32 list \<Rightarrow> u8 list" where
  "put_blocks ws = concat (map (le_bytes 4) ws)"

definition get_blocks :: "u8 list \<Rightarrow> u32 list" where
  "get_blocks bs = le_chunks 4 INDIRECT_BLOCKS_PER_SECTOR bs"

section \<open>Operations\<close>

definition bytes_to_sectors :: "int \<Rightarrow> nat" where
  "bytes_to_sectors sz = DIV_ROUND_UP (nat sz) BLOCK_SECTOR_SIZE"

definition index_to_sector :: "inode_disk \<Rightarrow> int \<Rightarrow> 'a cache_state_scheme \<Rightarrow> (u32 \<times> 'a cache_state_scheme) option" where
  "index_to_sector idisk index s =
    (let limit1 = int DIRECT_BLOCKS_COUNT;
         limit2 = limit1 + int INDIRECT_BLOCKS_PER_SECTOR;
         limit3 = limit2 + int INDIRECT_BLOCKS_PER_SECTOR * int INDIRECT_BLOCKS_PER_SECTOR in
     if index < limit1 then
       if 0 \<le> index then Some (direct_blocks idisk ! nat index, s) else None
     else if index < limit2 then
       do { (b, s) \<leftarrow> buffer_cache_read (indirect_block idisk) s;
            Some (get_blocks b ! nat (index - limit1), s) }
     else if index < limit3 then
       let index_first = (index - limit2) div int INDIRECT_BLOCKS_PER_SECTOR;
           index_second = (index - limit2) mod int INDIRECT_BLOCKS_PER_SECTOR in
       do { (b, s) \<leftarrow> buffer_cache_read (doubly_indirect_block idisk) s;
            (b, s) \<leftarrow> buffer_cache_read (get_blocks b ! nat index_first) s;
            Some (get_blocks b ! nat index_second, s) }
     else Some (- 1, s))"

definition byte_to_sector :: "inode_disk \<Rightarrow> int \<Rightarrow> 'a cache_state_scheme \<Rightarrow> (u32 \<times> 'a cache_state_scheme) option" where
  "byte_to_sector d pos s =
    (if 0 \<le> pos \<and> pos < data_length d
     then index_to_sector d (pos div int BLOCK_SECTOR_SIZE) s
     else Some (- 1, s))"

text \<open>
  The loop of \<open>inode_read_at\<close>. It returns the bytes it puts into the caller's buffer, so
  \<open>bytes_read\<close> is their number. A negative offset inside a sector is an access outside the
  bounce buffer.
\<close>

function inode_read_loop ::
  "inode_disk \<Rightarrow> int \<Rightarrow> int \<Rightarrow> 'a cache_state_scheme \<Rightarrow> (u8 list \<times> 'a cache_state_scheme) option" where
  "inode_read_loop d sz offset s =
    (if sz \<le> 0 then Some ([], s) else do {
       (sector_idx, s) \<leftarrow> byte_to_sector d offset s;
       let sector_ofs = c_rem offset (int BLOCK_SECTOR_SIZE);
       let inode_left = data_length d - offset;
       let sector_left = int BLOCK_SECTOR_SIZE - sector_ofs;
       let min_left = (if inode_left < sector_left then inode_left else sector_left);
       let chunk_size = (if sz < min_left then sz else min_left);
       if chunk_size \<le> 0 then Some ([], s) else do {
         guard_opt (0 \<le> sector_ofs);
         (bounce, s) \<leftarrow> buffer_cache_read sector_idx s;
         (rest, s) \<leftarrow> inode_read_loop d (sz - chunk_size) (offset + chunk_size) s;
         if sector_ofs = 0 \<and> chunk_size = int BLOCK_SECTOR_SIZE then Some (bounce @ rest, s)
         else Some (take (nat chunk_size) (drop (nat sector_ofs) bounce) @ rest, s) } })"
  by pat_completeness auto
termination
  by (relation "measure (\<lambda>(d, sz, offset, s). nat sz)") (auto split: if_splits)

declare inode_read_loop.simps [simp del]

definition inode_read_data :: "inode_disk \<Rightarrow> int \<Rightarrow> int \<Rightarrow> 'a cache_state_scheme \<Rightarrow> (u8 list \<times> 'a cache_state_scheme) option" where
  "inode_read_data d sz offset s = inode_read_loop d sz offset s"

text \<open>
  The loop of \<open>inode_write_at\<close>, on an inode that has its final length. The buffer argument
  is what is left of the caller's buffer; the first result is \<open>bytes_written\<close>.
\<close>

function inode_write_loop ::
  "inode_disk \<Rightarrow> u8 list \<Rightarrow> int \<Rightarrow> int \<Rightarrow> 'a cache_state_scheme \<Rightarrow> (int \<times> 'a cache_state_scheme) option" where
  "inode_write_loop d buf sz offset s =
    (if sz \<le> 0 then Some (0, s) else do {
       (sector_idx, s) \<leftarrow> byte_to_sector d offset s;
       let sector_ofs = c_rem offset (int BLOCK_SECTOR_SIZE);
       let inode_left = data_length d - offset;
       let sector_left = int BLOCK_SECTOR_SIZE - sector_ofs;
       let min_left = (if inode_left < sector_left then inode_left else sector_left);
       let chunk_size = (if sz < min_left then sz else min_left);
       if chunk_size \<le> 0 then Some (0, s) else do {
         guard_opt (0 \<le> sector_ofs \<and> nat chunk_size \<le> length buf);
         s \<leftarrow> (if sector_ofs = 0 \<and> chunk_size = int BLOCK_SECTOR_SIZE
               then buffer_cache_write sector_idx (take BLOCK_SECTOR_SIZE buf) s
               else do {
                 (bounce, s) \<leftarrow> (if sector_ofs > 0 \<or> chunk_size < sector_left
                                then buffer_cache_read sector_idx s
                                else Some (replicate BLOCK_SECTOR_SIZE 0, s));
                 buffer_cache_write sector_idx
                   (overwrite bounce (nat sector_ofs) (take (nat chunk_size) buf)) s });
         (n, s) \<leftarrow> inode_write_loop d (drop (nat chunk_size) buf) (sz - chunk_size) (offset + chunk_size) s;
         Some (chunk_size + n, s) } })"
  by pat_completeness auto
termination
  by (relation "measure (\<lambda>(d, buf, sz, offset, s). nat sz)") (auto split: if_splits)

declare inode_write_loop.simps [simp del]

text \<open>
  \<open>get_inode_data_sectors\<close>; the result is the array it fills. The inner loops copy the
  first entries of an indirect block. A negative length gives the null pointer.
\<close>

fun doubly_data_sectors ::
  "u32 list \<Rightarrow> nat \<Rightarrow> nat \<Rightarrow> nat \<Rightarrow> 'a cache_state_scheme \<Rightarrow> (u32 list \<times> 'a cache_state_scheme) option" where
  "doubly_data_sectors blocks i 0 num s = Some ([], s)"
| "doubly_data_sectors blocks i (Suc l) num s =
    do { let subsize = min num INDIRECT_BLOCKS_PER_SECTOR;
         (b, s) \<leftarrow> buffer_cache_read (blocks ! i) s;
         (rest, s) \<leftarrow> doubly_data_sectors blocks (Suc i) l (num - subsize) s;
         Some (take subsize (get_blocks b) @ rest, s) }"

definition get_inode_data_sectors ::
  "inode_disk \<Rightarrow> 'a cache_state_scheme \<Rightarrow> (u32 list option \<times> 'a cache_state_scheme) option" where
  "get_inode_data_sectors d s =
    (if data_length d < 0 then Some (None, s) else do {
       let num_sectors = bytes_to_sectors (data_length d);
       let l = min num_sectors DIRECT_BLOCKS_COUNT;
       let direct = take l (direct_blocks d);
       let num_sectors = num_sectors - l;
       let l = min num_sectors INDIRECT_BLOCKS_PER_SECTOR;
       (indirect, s) \<leftarrow> (if l > 0 then do {
           (b, s) \<leftarrow> buffer_cache_read (indirect_block d) s;
           Some (take l (get_blocks b), s) } else Some ([], s));
       let num_sectors = num_sectors - l;
       let l = min num_sectors (INDIRECT_BLOCKS_PER_SECTOR * INDIRECT_BLOCKS_PER_SECTOR);
       (doubly, s) \<leftarrow> (if l > 0 then do {
           (b, s) \<leftarrow> buffer_cache_read (doubly_indirect_block d) s;
           doubly_data_sectors (get_blocks b) 0 (DIV_ROUND_UP l INDIRECT_BLOCKS_PER_SECTOR) l s }
         else Some ([], s));
       Some (Some (direct @ indirect @ doubly), s) })"

section \<open>The inode as bytes\<close>

definition inode_ok :: "inode_disk \<Rightarrow> bool" where
  "inode_ok d \<longleftrightarrow> length (direct_blocks d) = DIRECT_BLOCKS_COUNT \<and> length (padding d) = 3 \<and>
     - (2 ^ 31) \<le> data_length d \<and> data_length d < 2 ^ 31"

lemma length_put_inode: "inode_ok d \<Longrightarrow> length (put_inode d) = 512"
  by (simp add: put_inode_def inode_ok_def)

lemma sint_word_of_int: "- (2 ^ 31) \<le> x \<Longrightarrow> x < 2 ^ 31 \<Longrightarrow> sint (word_of_int x :: u32) = x"
  by (simp add: sint_uint signed_take_bit_int_eq_self uint_word_of_int_eq signed_take_bit_take_bit)

lemma get_put_inode:
  assumes "inode_ok d"
  shows "get_inode (put_inode d) = d"
proof -
  have dir: "le_chunks 4 DIRECT_BLOCKS_COUNT (concat (map (le_bytes 4) (direct_blocks d)) @ r) = direct_blocks d" for r
    using le_chunks_concat [of 4 "direct_blocks d" r] assms by (simp add: inode_ok_def)
  have "sint (word_of_int (data_length d) :: u32) = data_length d"
    using assms by (intro sint_word_of_int) (simp_all add: inode_ok_def)
  then show ?thesis
    using assms unfolding get_inode_def
    by (subst put_inode_def, subst dir) (simp add: put_inode_def inode_ok_def nth_append)
qed

lemma put_get_inode:
  assumes "length bs = 512"
  shows "put_inode (get_inode bs) = bs"
proof -
  have dir: "concat (map (le_bytes 4) (le_chunks 4 DIRECT_BLOCKS_COUNT bs :: u32 list)) = take 492 bs"
    using concat_le_chunks [where 'a = 32, of 4 DIRECT_BLOCKS_COUNT bs] assms by simp
  have "[bs ! 500] = take 1 (drop 500 bs)"
    using assms by (simp add: take_Suc_conv_app_nth)
  then have "put_inode (get_inode bs) = take 492 bs @ take 4 (drop 492 bs) @ take 4 (drop 496 bs) @
      take 1 (drop 500 bs) @ take 3 (drop 501 bs) @ take 4 (drop 504 bs) @ take 4 (drop 508 bs)"
    using assms by (simp add: put_inode_def get_inode_def dir)
  also have "\<dots> = take (492 + (4 + (4 + (1 + (3 + (4 + 4)))))) bs"
    by (simp only: take_add drop_drop) simp
  finally show ?thesis using assms by simp
qed

lemma inode_ok_get: "length bs = 512 \<Longrightarrow> inode_ok (get_inode bs)"
  using sint_lt [of "le_word (take 4 (drop 504 bs)) :: u32"] sint_ge [of "le_word (take 4 (drop 504 bs)) :: u32"]
  by (simp add: inode_ok_def get_inode_def)

lemma get_put_blocks: "length ws = INDIRECT_BLOCKS_PER_SECTOR \<Longrightarrow> get_blocks (put_blocks ws) = ws"
  using le_chunks_concat [of 4 ws "[]"] by (simp add: get_blocks_def put_blocks_def)

lemma put_get_blocks: "length bs = 512 \<Longrightarrow> put_blocks (get_blocks bs) = bs"
  using concat_le_chunks [where 'a = 32, of 4 INDIRECT_BLOCKS_PER_SECTOR bs]
  by (simp add: get_blocks_def put_blocks_def)

lemma length_get_blocks [simp]: "length (get_blocks bs) = INDIRECT_BLOCKS_PER_SECTOR"
  by (simp add: get_blocks_def)

lemma length_put_blocks [simp]: "length (put_blocks ws) = 4 * length ws"
  by (simp add: put_blocks_def)

section \<open>Steps of the sector store\<close>

text \<open>The cache operations leave the parts of the state above the cache alone.\<close>

lemma flush_more [frame_simps]: "cache_state.more (buffer_cache_flush i s) = cache_state.more s"
  by (simp add: buffer_cache_flush_def Let_def block_write_eq ide_write_def split: prod.split)

lemma evict_more [frame_simps]:
  "buffer_cache_evict s = Some (k, s') \<Longrightarrow> cache_state.more s' = cache_state.more s"
  by (auto simp: buffer_cache_evict_def Let_def frame_simps split: option.splits prod.splits if_splits)

lemma slot_more [frame_simps]:
  "cache_slot x s = Some (k, s') \<Longrightarrow> cache_state.more s' = cache_state.more s"
  by (auto simp: cache_slot_def Let_def block_read_eq dest: evict_more split: option.splits prod.splits)

lemma read_more [frame_simps]:
  "buffer_cache_read x s = Some (b, s') \<Longrightarrow> cache_state.more s' = cache_state.more s"
  by (auto simp: buffer_cache_read_def Let_def dest: slot_more split: option.splits)

lemma write_more [frame_simps]:
  "buffer_cache_write x b s = Some s' \<Longrightarrow> cache_state.more s' = cache_state.more s"
  by (auto simp: buffer_cache_write_def Let_def dest: slot_more split: option.splits)

text \<open>
  Two states that show the same sectors, and a state that shows sector \<open>x\<close> changed to
  \<open>b\<close>. These are the only effects file operations have on the store.
\<close>

definition same_sectors :: "'a cache_state_scheme \<Rightarrow> 'a cache_state_scheme \<Rightarrow> bool" where
  "same_sectors s s' \<longleftrightarrow> cache_inv s' \<and> cache_valid s' = cache_valid s \<and>
     (\<forall>y. cache_valid s y \<longrightarrow> cache_content s' y = cache_content s y) \<and>
     cache_state.more s' = cache_state.more s"

definition set_sector :: "'a cache_state_scheme \<Rightarrow> u32 \<Rightarrow> u8 list \<Rightarrow> 'a cache_state_scheme \<Rightarrow> bool" where
  "set_sector s x b s' \<longleftrightarrow> cache_inv s' \<and> cache_valid s' = cache_valid s \<and>
     (\<forall>y. cache_valid s y \<longrightarrow> cache_content s' y = (if y = x then b else cache_content s y)) \<and>
     cache_state.more s' = cache_state.more s"

lemma same_sectors_refl [simp]: "same_sectors s s = cache_inv s"
  by (simp add: same_sectors_def)

lemma same_sectors_trans [trans]:
  "same_sectors s t \<Longrightarrow> same_sectors t u \<Longrightarrow> same_sectors s u"
  by (simp add: same_sectors_def)

lemma same_sectorsD:
  "same_sectors s t \<Longrightarrow> cache_inv t" "same_sectors s t \<Longrightarrow> cache_valid t = cache_valid s"
  "same_sectors s t \<Longrightarrow> cache_valid s y \<Longrightarrow> cache_content t y = cache_content s y"
  "same_sectors s t \<Longrightarrow> cache_state.more t = cache_state.more s"
  by (simp_all add: same_sectors_def)

lemma readE:
  assumes "cache_inv s" and "cache_valid s x"
  obtains s' where "buffer_cache_read x s = Some (cache_content s x, s')" and "same_sectors s s'"
proof -
  obtain s' where "buffer_cache_read x s = Some (cache_content s x, s')" "cache_inv s'"
      "cache_valid s' = cache_valid s" "\<And>y. cache_valid s y \<Longrightarrow> cache_content s' y = cache_content s y"
    using bc.rdE [OF assms] by blast
  then show thesis using that read_more unfolding same_sectors_def by blast
qed

lemma writeE:
  assumes "cache_inv s" and "cache_valid s x" and "length b = 512"
  obtains s' where "buffer_cache_write x b s = Some s'" and "set_sector s x b s'"
proof -
  obtain s' where "buffer_cache_write x b s = Some s'" "cache_inv s'" "cache_valid s' = cache_valid s"
      "\<And>y. cache_valid s y \<Longrightarrow> cache_content s' y = (if y = x then b else cache_content s y)"
    using bc.wrE [OF assms] by blast
  then show thesis using that write_more unfolding set_sector_def by blast
qed

section \<open>The block map\<close>

abbreviation MAX_BLOCKS :: nat where "MAX_BLOCKS \<equiv> 16635"

abbreviation num_blocks :: "inode_disk \<Rightarrow> nat" where
  "num_blocks d \<equiv> bytes_to_sectors (data_length d)"

text \<open>The sector of the \<open>k\<close>-th block of a file, and the sectors of its indirect blocks, for
  given contents of the sectors.\<close>

definition block_map :: "(u32 \<Rightarrow> u8 list) \<Rightarrow> inode_disk \<Rightarrow> nat \<Rightarrow> u32" where
  "block_map c d k =
    (if k < 123 then direct_blocks d ! k
     else if k < 251 then get_blocks (c (indirect_block d)) ! (k - 123)
     else if k < MAX_BLOCKS then
       get_blocks (c (get_blocks (c (doubly_indirect_block d)) ! ((k - 251) div 128))) ! ((k - 251) mod 128)
     else - 1)"

definition map_sectors :: "(u32 \<Rightarrow> u8 list) \<Rightarrow> inode_disk \<Rightarrow> nat \<Rightarrow> u32 list" where
  "map_sectors c d n =
    (if 123 < n then [indirect_block d] else []) @
    (if 251 < n then doubly_indirect_block d #
       map (\<lambda>j. get_blocks (c (doubly_indirect_block d)) ! j) [0..<DIV_ROUND_UP (n - 251) 128] else [])"

definition data_sectors :: "(u32 \<Rightarrow> u8 list) \<Rightarrow> inode_disk \<Rightarrow> nat \<Rightarrow> u32 list" where
  "data_sectors c d n = map (block_map c d) [0..<n]"

text \<open>An inode whose sectors are all on the device.\<close>

definition inode_wf :: "(u32 \<Rightarrow> bool) \<Rightarrow> (u32 \<Rightarrow> u8 list) \<Rightarrow> inode_disk \<Rightarrow> bool" where
  "inode_wf v c d \<longleftrightarrow> inode_ok d \<and> 0 \<le> data_length d \<and> num_blocks d \<le> MAX_BLOCKS \<and>
     (\<forall>x \<in> set (map_sectors c d (num_blocks d)) \<union> set (data_sectors c d (num_blocks d)). v x)"

text \<open>No two blocks of the file share a sector, and no data block is an indirect block.\<close>

definition blocks_distinct :: "(u32 \<Rightarrow> u8 list) \<Rightarrow> inode_disk \<Rightarrow> bool" where
  "blocks_distinct c d \<longleftrightarrow> distinct (data_sectors c d (num_blocks d)) \<and>
     set (map_sectors c d (num_blocks d)) \<inter> set (data_sectors c d (num_blocks d)) = {}"

lemma map_sector_indirect: "123 < n \<Longrightarrow> indirect_block d \<in> set (map_sectors c d n)"
  by (simp add: map_sectors_def)

lemma map_sector_doubly: "251 < n \<Longrightarrow> doubly_indirect_block d \<in> set (map_sectors c d n)"
  by (simp add: map_sectors_def)

lemma map_sector_second:
  "251 + k < n \<Longrightarrow> get_blocks (c (doubly_indirect_block d)) ! (k div 128) \<in> set (map_sectors c d n)"
  by (auto simp: map_sectors_def intro!: div_less_DIV_ROUND_UP imageI)

text \<open>The block map depends only on the contents of the indirect blocks.\<close>

lemma map_sectors_cong:
  assumes "\<forall>x \<in> set (map_sectors c d n). c' x = c x"
  shows "map_sectors c' d n = map_sectors c d n"
  using assms by (auto simp: map_sectors_def)

lemma block_map_cong:
  assumes "\<forall>x \<in> set (map_sectors c d n). c' x = c x" and "k < n"
  shows "block_map c' d k = block_map c d k"
proof (cases "k < 251")
  case True
  then show ?thesis using assms by (simp add: block_map_def map_sector_indirect)
next
  case False
  with assms(2) have "251 < n" "251 + (k - 251) < n" by simp_all
  with assms(1) have "c' (doubly_indirect_block d) = c (doubly_indirect_block d)"
      "c' (get_blocks (c (doubly_indirect_block d)) ! ((k - 251) div 128)) =
       c (get_blocks (c (doubly_indirect_block d)) ! ((k - 251) div 128))"
    by (blast intro: map_sector_doubly map_sector_second)+
  with False show ?thesis by (simp add: block_map_def)
qed

lemma data_sectors_cong:
  "\<forall>x \<in> set (map_sectors c d n). c' x = c x \<Longrightarrow> data_sectors c' d n = data_sectors c d n"
  by (auto simp: data_sectors_def intro: block_map_cong)

lemma inode_wf_cong:
  assumes "\<forall>x \<in> set (map_sectors c d (num_blocks d)). c' x = c x"
  shows "inode_wf v c' d = inode_wf v c d" and "blocks_distinct c' d = blocks_distinct c d"
  by (simp_all add: inode_wf_def blocks_distinct_def map_sectors_cong [OF assms] data_sectors_cong [OF assms])

lemma data_sectors_nth: "k < n \<Longrightarrow> block_map c d k \<in> set (data_sectors c d n)"
  by (simp add: data_sectors_def)

lemma inode_wfD:
  assumes "inode_wf v c d"
  shows "inode_ok d" and "0 \<le> data_length d" and "num_blocks d \<le> MAX_BLOCKS"
    and "\<And>x. x \<in> set (map_sectors c d (num_blocks d)) \<Longrightarrow> v x"
    and "\<And>k. k < num_blocks d \<Longrightarrow> v (block_map c d k)"
  using assms data_sectors_nth by (auto simp: inode_wf_def)

lemma index_to_sector_ok:
  assumes inv: "cache_inv s" and wf: "inode_wf (cache_valid s) (cache_content s) d"
    and idx: "0 \<le> index" "nat index < num_blocks d"
  obtains s' where "index_to_sector d index s = Some (block_map (cache_content s) d (nat index), s')"
    and "same_sectors s s'"
proof -
  let ?c = "cache_content s" and ?n = "num_blocks d"
  note v = inode_wfD(4) [OF wf]
  from wf idx have max: "nat index < MAX_BLOCKS" by (simp add: inode_wf_def)
  consider "index < 123" | "123 \<le> index" "index < 251" | "251 \<le> index" by linarith
  then show thesis
  proof cases
    case 1
    then show thesis using that [of s] inv idx by (simp add: index_to_sector_def block_map_def nat_less_iff)
  next
    case 2
    then have "123 < ?n" using idx by linarith
    then have "cache_valid s (indirect_block d)" by (intro v map_sector_indirect)
    then obtain t where t: "buffer_cache_read (indirect_block d) s = Some (?c (indirect_block d), t)"
        "same_sectors s t"
      using readE [OF inv] by blast
    from 2 have "nat (index - 123) = nat index - 123" "\<not> nat index < 123" "nat index < 251"
      by linarith+
    with 2 t show thesis by (intro that [of t]) (simp_all add: index_to_sector_def block_map_def)
  next
    case 3
    define k where "k = nat index - 251"
    have k: "index = int (251 + k)" "nat index = 251 + k" using 3 by (simp_all add: k_def)
    have index_max: "index < 16635" using max 3 by simp
    have div: "nat ((index - 251) div 128) = k div 128" "nat ((index - 251) mod 128) = k mod 128"
      by (simp_all add: k(1) nat_div_distrib nat_mod_distrib)
    let ?x = "get_blocks (?c (doubly_indirect_block d)) ! (k div 128)"
    from idx k have n: "251 + k < ?n" by simp
    then have "cache_valid s (doubly_indirect_block d)" by (intro v map_sector_doubly) simp
    then obtain t where t: "buffer_cache_read (doubly_indirect_block d) s = Some (?c (doubly_indirect_block d), t)"
        "same_sectors s t"
      using readE [OF inv] by blast
    have x: "cache_valid s ?x" using n by (intro v map_sector_second)
    obtain u where u: "buffer_cache_read ?x t = Some (cache_content t ?x, u)" "same_sectors t u"
      using readE [of t ?x] same_sectorsD(1,2) [OF t(2)] x by auto
    show thesis
    proof (rule that [of u])
      show "index_to_sector d index s = Some (block_map ?c d (nat index), u)"
        using 3 t(1) u(1) div k(2) max same_sectorsD(3) [OF t(2) x] index_max
        by (simp add: index_to_sector_def block_map_def)
      show "same_sectors s u" using same_sectors_trans [OF t(2) u(2)] .
    qed
  qed
qed

lemma block_of_byte:
  assumes "0 \<le> pos" and "pos < data_length d"
  shows "nat pos div 512 < num_blocks d"
  using assms by (simp add: bytes_to_sectors_def div_less_DIV_ROUND_UP nat_less_iff)

lemma byte_to_sector_ok:
  assumes "cache_inv s" and "inode_wf (cache_valid s) (cache_content s) d"
    and "0 \<le> pos" and "pos < data_length d"
  obtains s' where "byte_to_sector d pos s = Some (block_map (cache_content s) d (nat pos div 512), s')"
    and "same_sectors s s'"
proof -
  have "nat (pos div 512) = nat pos div 512" using assms(3) by (simp add: nat_div_distrib)
  moreover from assms(3) have "0 \<le> pos div 512" by simp
  ultimately obtain s' where
    "index_to_sector d (pos div 512) s = Some (block_map (cache_content s) d (nat pos div 512), s')"
    "same_sectors s s'"
    using index_to_sector_ok [OF assms(1,2), of "pos div 512"] block_of_byte [OF assms(3,4)]
    by metis
  then show thesis using assms(3,4) that by (simp add: byte_to_sector_def)
qed

section \<open>File contents\<close>

definition file_byte :: "(u32 \<Rightarrow> u8 list) \<Rightarrow> inode_disk \<Rightarrow> nat \<Rightarrow> u8" where
  "file_byte c d i = c (block_map c d (i div 512)) ! (i mod 512)"

definition file_bytes :: "(u32 \<Rightarrow> u8 list) \<Rightarrow> inode_disk \<Rightarrow> u8 list" where
  "file_bytes c d = map (file_byte c d) [0..<nat (data_length d)]"

lemma length_file_bytes [simp]: "length (file_bytes c d) = nat (data_length d)"
  by (simp add: file_bytes_def)

lemma file_bytes_segment:
  "i + n \<le> nat (data_length d) \<Longrightarrow> take n (drop i (file_bytes c d)) = map (file_byte c d) [i..<i + n]"
  by (simp add: file_bytes_def take_drop_map_upt)

text \<open>Sectors that look the same show the same file.\<close>

lemma file_bytes_cong:
  assumes wf: "inode_wf v c d" and same: "\<And>y. v y \<Longrightarrow> c' y = c y"
  shows "inode_wf v c' d" and "blocks_distinct c' d = blocks_distinct c d"
    and "file_bytes c' d = file_bytes c d"
proof -
  let ?n = "num_blocks d"
  have m: "\<forall>x \<in> set (map_sectors c d ?n). c' x = c x"
    using inode_wfD(4) [OF wf] same by blast
  show "inode_wf v c' d" "blocks_distinct c' d = blocks_distinct c d"
    using inode_wf_cong [OF m] wf by simp_all
  have "file_byte c' d i = file_byte c d i" if "i < nat (data_length d)" for i
  proof -
    from that have k: "i div 512 < ?n"
      by (simp add: bytes_to_sectors_def div_less_DIV_ROUND_UP)
    then show ?thesis
      using block_map_cong [OF m k] inode_wfD(5) [OF wf k] same by (simp add: file_byte_def)
  qed
  then show "file_bytes c' d = file_bytes c d" by (simp add: file_bytes_def)
qed

lemma same_sectors_file:
  assumes "same_sectors s t" and "inode_wf (cache_valid s) (cache_content s) d"
  shows "inode_wf (cache_valid t) (cache_content t) d"
    and "blocks_distinct (cache_content t) d = blocks_distinct (cache_content s) d"
    and "file_bytes (cache_content t) d = file_bytes (cache_content s) d"
  using file_bytes_cong [OF assms(2), of "cache_content t"] same_sectorsD [OF assms(1)] by simp_all

text \<open>A chunk that lies inside one sector.\<close>

lemma chunk_segment:
  assumes "pos mod 512 + n \<le> 512" and "length (c (block_map c d (pos div 512))) = 512"
  shows "take n (drop (pos mod 512) (c (block_map c d (pos div 512)))) = map (file_byte c d) [pos..<pos + n]"
proof (rule nth_equalityI)
  show "length (take n (drop (pos mod 512) (c (block_map c d (pos div 512))))) =
      length (map (file_byte c d) [pos..<pos + n])"
    using assms by simp
  fix i assume "i < length (take n (drop (pos mod 512) (c (block_map c d (pos div 512)))))"
  then have i: "i < n" by simp
  define r q where "r = pos mod 512" and "q = pos div 512"
  have "pos = 512 * q + r" by (simp add: q_def r_def)
  moreover have "r + i < 512" using assms(1) i by (simp add: r_def)
  ultimately have "(pos + i) div 512 = q" "(pos + i) mod 512 = r + i"
    by (simp_all only: add.assoc div_mult_self4 mod_mult_self4) simp_all
  with i assms show "take n (drop (pos mod 512) (c (block_map c d (pos div 512)))) ! i =
      map (file_byte c d) [pos..<pos + n] ! i"
    by (simp add: file_byte_def q_def r_def)
qed

section \<open>Reading\<close>

text \<open>The size of the next chunk of the loops, for an offset inside the file.\<close>

definition chunk_of :: "inode_disk \<Rightarrow> int \<Rightarrow> int \<Rightarrow> int" where
  "chunk_of d sz offset = min sz (min (data_length d - offset) (512 - offset mod 512))"

lemma chunk_of_bounds:
  assumes "0 \<le> offset" and "offset < data_length d" and "0 < sz"
  shows "0 < chunk_of d sz offset" and "chunk_of d sz offset \<le> sz"
    and "offset + chunk_of d sz offset \<le> data_length d"
    and "offset mod 512 + chunk_of d sz offset \<le> 512"
proof -
  have "offset mod 512 < 512" by simp
  with assms show "0 < chunk_of d sz offset" by (simp add: chunk_of_def)
  show "chunk_of d sz offset \<le> sz" by (simp add: chunk_of_def)
  show "offset + chunk_of d sz offset \<le> data_length d" by (auto simp: chunk_of_def min_def)
  show "offset mod 512 + chunk_of d sz offset \<le> 512" by (auto simp: chunk_of_def min_def)
qed

lemma nat_mod_512: "0 \<le> offset \<Longrightarrow> nat (offset mod 512) = nat offset mod 512"
  by (simp add: nat_mod_distrib)

lemma chunk_of_expand:
  "(if sz < (if a < b then a else b) then sz else (if a < b then a else b)) = min sz (min a (b::int))"
  by (auto simp: min_def)

lemma inode_read_loop_past:
  assumes "0 \<le> offset" and "data_length d \<le> offset"
  shows "inode_read_loop d sz offset s = Some ([], s)"
  using assms by (subst inode_read_loop.simps) (simp add: byte_to_sector_def Let_def chunk_of_expand min_le_iff_disj)

lemma inode_read_loop_step:
  assumes "0 \<le> offset" and "offset < data_length d" and "0 < sz"
  shows "inode_read_loop d sz offset s = do {
    (x, s) \<leftarrow> byte_to_sector d offset s;
    (bounce, s) \<leftarrow> buffer_cache_read x s;
    (rest, s) \<leftarrow> inode_read_loop d (sz - chunk_of d sz offset) (offset + chunk_of d sz offset) s;
    if offset mod 512 = 0 \<and> chunk_of d sz offset = 512 then Some (bounce @ rest, s)
    else Some (take (nat (chunk_of d sz offset)) (drop (nat (offset mod 512)) bounce) @ rest, s) }"
  using chunk_of_bounds(1) [OF assms] assms
  by (subst inode_read_loop.simps)
     (simp add: Let_def chunk_of_expand chunk_of_def [symmetric] case_prod_beta' cong: if_cong)

lemma inode_read_loop_ok:
  assumes "cache_inv s" and "inode_wf (cache_valid s) (cache_content s) d" and "0 \<le> offset"
  shows "\<exists>t. inode_read_loop d sz offset s =
      Some (take (nat sz) (drop (nat offset) (file_bytes (cache_content s) d)), t) \<and> same_sectors s t"
  using assms
proof (induction "nat sz" arbitrary: sz offset s rule: less_induct)
  case less
  consider "sz \<le> 0" | "data_length d \<le> offset" | "0 < sz" "offset < data_length d" by linarith
  then show ?case
  proof cases
    case 1
    then show ?thesis using less.prems by (subst inode_read_loop.simps) simp
  next
    case 2
    then show ?thesis using less.prems by (simp add: inode_read_loop_past)
  next
    case 3
    let ?c = "cache_content s" and ?ch = "chunk_of d sz offset" and ?o = "nat offset"
    let ?x = "block_map ?c d (?o div 512)"
    note ch = chunk_of_bounds [OF less.prems(3) 3(2,1)]
    obtain t where t: "byte_to_sector d offset s = Some (?x, t)" "same_sectors s t"
      using byte_to_sector_ok [OF less.prems 3(2)] by blast
    have x: "cache_valid s ?x"
      by (rule inode_wfD(5) [OF less.prems(2) block_of_byte [OF less.prems(3) 3(2)]])
    obtain u where u: "buffer_cache_read ?x t = Some (?c ?x, u)" "same_sectors t u"
      using readE [of t ?x] same_sectorsD [OF t(2)] x by metis
    have su: "same_sectors s u" by (rule same_sectors_trans [OF t(2) u(2)])
    note fu = same_sectors_file [OF su less.prems(2)]
    obtain w where w: "inode_read_loop d (sz - ?ch) (offset + ?ch) u =
        Some (take (nat (sz - ?ch)) (drop (nat (offset + ?ch)) (file_bytes ?c d)), w)" "same_sectors u w"
      using less.hyps [of "sz - ?ch" u "offset + ?ch"] ch less.prems(3) same_sectorsD(1) [OF su] fu by auto
    have len: "length (?c ?x) = 512" using length_content [OF less.prems(1) x] .
    have seg: "take (nat ?ch) (drop (?o mod 512) (?c ?x)) = take (nat ?ch) (drop ?o (file_bytes ?c d))"
    proof -
      have "?o mod 512 + nat ?ch \<le> 512" "?o + nat ?ch \<le> nat (data_length d)"
        using ch less.prems(3) by (simp_all flip: nat_mod_512 add: nat_add_distrib [symmetric])
      then show ?thesis using len by (simp add: chunk_segment file_bytes_segment)
    qed
    have "nat sz = nat ?ch + nat (sz - ?ch)" "nat (offset + ?ch) = nat ?ch + ?o"
      using ch less.prems(3) by (simp_all add: nat_add_distrib)
    then have "take (nat ?ch) (drop ?o (file_bytes ?c d)) @
        take (nat (sz - ?ch)) (drop (nat (offset + ?ch)) (file_bytes ?c d)) =
        take (nat sz) (drop ?o (file_bytes ?c d))"
      by (simp only: take_add drop_drop)
    moreover have "?c ?x = take (nat ?ch) (drop (?o mod 512) (?c ?x))" if "offset mod 512 = 0" "?ch = 512"
      using that len less.prems(3) by (simp flip: nat_mod_512)
    ultimately show ?thesis
      using t(1) u(1) w(1) seg same_sectors_trans [OF su w(2)] less.prems(3) 3
      by (auto simp: inode_read_loop_step nat_mod_512)
  qed
qed

section \<open>Writing\<close>

text \<open>A state in which only data sectors of the inode have changed.\<close>

definition data_written :: "'a cache_state_scheme \<Rightarrow> inode_disk \<Rightarrow> 'a cache_state_scheme \<Rightarrow> bool" where
  "data_written s d t \<longleftrightarrow> cache_inv t \<and> cache_valid t = cache_valid s \<and>
     (\<forall>y. cache_valid s y \<and> y \<notin> set (data_sectors (cache_content s) d (num_blocks d)) \<longrightarrow>
        cache_content t y = cache_content s y) \<and>
     cache_state.more t = cache_state.more s"

lemma same_data_written: "same_sectors s t \<Longrightarrow> data_written s d t"
  by (simp add: data_written_def same_sectors_def)

lemma data_written_map:
  assumes "data_written s d t" and "inode_wf (cache_valid s) (cache_content s) d"
    and "blocks_distinct (cache_content s) d"
  shows "\<forall>x \<in> set (map_sectors (cache_content s) d (num_blocks d)). cache_content t x = cache_content s x"
  using assms inode_wfD(4) [OF assms(2)] by (auto simp: data_written_def blocks_distinct_def)

lemma data_written_wf:
  assumes "data_written s d t" and "inode_wf (cache_valid s) (cache_content s) d"
    and "blocks_distinct (cache_content s) d"
  shows "inode_wf (cache_valid t) (cache_content t) d" and "blocks_distinct (cache_content t) d"
    and "data_sectors (cache_content t) d (num_blocks d) = data_sectors (cache_content s) d (num_blocks d)"
  using inode_wf_cong [OF data_written_map [OF assms]] data_sectors_cong [OF data_written_map [OF assms]] assms
  by (simp_all add: data_written_def)

lemma data_written_trans:
  assumes "data_written s d t" and "data_written t d u"
    and "inode_wf (cache_valid s) (cache_content s) d" and "blocks_distinct (cache_content s) d"
  shows "data_written s d u"
  using assms(2) data_written_wf(3) [OF assms(1,3,4)] assms(1) by (auto simp: data_written_def)

lemma in_chunk_iff:
  assumes "pos mod 512 + n \<le> 512"
  shows "pos \<le> i \<and> i < pos + n \<longleftrightarrow>
    i div 512 = pos div 512 \<and> pos mod 512 \<le> i mod 512 \<and> i mod 512 < pos mod 512 + (n::nat)"
proof -
  define q r k m where "q = i div 512" and "r = i mod 512" and "k = pos div 512" and "m = pos mod 512"
  have i: "i = 512 * q + r" and pos: "pos = 512 * k + m" and r: "r < 512" and m: "m + n \<le> 512"
    using assms by (simp_all add: q_def r_def k_def m_def)
  have "512 * k + m \<le> 512 * q + r \<and> 512 * q + r < 512 * k + m + n \<longleftrightarrow> q = k \<and> m \<le> r \<and> r < m + n"
  proof (cases "q = k")
    case False
    then have "512 * q + 512 \<le> 512 * k \<or> 512 * k + 512 \<le> 512 * q" by linarith
    with r m False show ?thesis by linarith
  qed auto
  then show ?thesis unfolding i [symmetric] pos [symmetric] by (simp add: q_def r_def k_def m_def)
qed

lemma write_chunk_file:
  assumes inv: "cache_inv s" and wf: "inode_wf (cache_valid s) (cache_content s) d"
    and dist: "blocks_distinct (cache_content s) d"
    and n: "pos mod 512 + length src \<le> 512" "pos + length src \<le> nat (data_length d)" "src \<noteq> []"
    and set: "set_sector s (block_map (cache_content s) d (pos div 512))
      (overwrite (cache_content s (block_map (cache_content s) d (pos div 512))) (pos mod 512) src) t"
  shows "data_written s d t"
    and "file_bytes (cache_content t) d = overwrite (file_bytes (cache_content s) d) pos src"
proof -
  let ?c = "cache_content s" and ?k = "pos div 512" and ?N = "num_blocks d"
  let ?x = "block_map ?c d ?k"
  have k: "?k < ?N"
  proof -
    have "0 < length src" using n(3) by simp
    with n(2) have "int pos < data_length d" by linarith
    then show ?thesis using block_of_byte [of "int pos" d] by simp
  qed
  then have mem: "?x \<in> set (data_sectors ?c d ?N)" by (rule data_sectors_nth)
  show dw: "data_written s d t"
    using set mem by (auto simp: set_sector_def data_written_def)
  note m = data_written_map [OF dw wf dist]
  have lenx: "length (?c ?x) = 512" by (rule length_content [OF inv inode_wfD(5) [OF wf k]])
  show "file_bytes (cache_content t) d = overwrite (file_bytes ?c d) pos src"
  proof (rule nth_equalityI)
    fix i assume "i < length (file_bytes (cache_content t) d)"
    then have i: "i < nat (data_length d)" by simp
    then have ki: "i div 512 < ?N" by (simp add: bytes_to_sectors_def div_less_DIV_ROUND_UP)
    have inj: "block_map ?c d (i div 512) = ?x \<longleftrightarrow> i div 512 = ?k"
      using dist ki k by (auto simp: blocks_distinct_def data_sectors_def distinct_map inj_on_def)
    have "file_byte (cache_content t) d i =
        (if i div 512 = ?k then overwrite (?c ?x) (pos mod 512) src ! (i mod 512) else file_byte ?c d i)"
      using set inj inode_wfD(5) [OF wf ki]
      by (simp add: file_byte_def block_map_cong [OF m ki] set_sector_def)
    moreover have "i - pos = i mod 512 - pos mod 512" if "i div 512 = ?k"
      using that by (metis div_mult_mod_eq add_diff_cancel_left)
    ultimately have "file_byte (cache_content t) d i =
        (if pos \<le> i \<and> i < pos + length src then src ! (i - pos) else file_byte ?c d i)"
      unfolding in_chunk_iff [OF n(1)]
      using lenx n(1) by (auto simp: nth_overwrite file_byte_def)
    then show "file_bytes (cache_content t) d ! i = overwrite (file_bytes ?c d) pos src ! i"
      using i n(2) by (simp add: nth_overwrite file_bytes_def)
  qed (use n(2) in simp)
qed

lemma inode_write_loop_past:
  assumes "0 \<le> offset" and "data_length d \<le> offset"
  shows "inode_write_loop d buf sz offset s = Some (0, s)"
  using assms by (subst inode_write_loop.simps) (simp add: byte_to_sector_def Let_def chunk_of_expand min_le_iff_disj)

text \<open>The part of the loop body that stores one chunk.\<close>

definition store_chunk :: "u32 \<Rightarrow> int \<Rightarrow> int \<Rightarrow> u8 list \<Rightarrow> 'a cache_state_scheme \<Rightarrow> 'a cache_state_scheme option" where
  "store_chunk x ofs n buf s =
    (if ofs = 0 \<and> n = 512 then buffer_cache_write x (take 512 buf) s
     else do { (bounce, s) \<leftarrow> buffer_cache_read x s;
               buffer_cache_write x (overwrite bounce (nat ofs) (take (nat n) buf)) s })"

lemma inode_write_loop_step:
  assumes "0 \<le> offset" and "offset < data_length d" and "0 < sz"
    and "nat (chunk_of d sz offset) \<le> length buf"
  shows "inode_write_loop d buf sz offset s = do {
    (x, s) \<leftarrow> byte_to_sector d offset s;
    s \<leftarrow> store_chunk x (offset mod 512) (chunk_of d sz offset) buf s;
    (n, s) \<leftarrow> inode_write_loop d (drop (nat (chunk_of d sz offset)) buf) (sz - chunk_of d sz offset)
      (offset + chunk_of d sz offset) s;
    Some (chunk_of d sz offset + n, s) }"
proof -
  note ch = chunk_of_bounds [OF assms(1-3)]
  have store: "(if offset mod 512 = 0 \<and> chunk_of d sz offset = 512
      then buffer_cache_write x (take 512 buf) s
      else (if 0 < offset mod 512 \<or> chunk_of d sz offset < 512 - offset mod 512
            then buffer_cache_read x s else Some (replicate 512 0, s)) \<bind>
           (\<lambda>(bounce, s). buffer_cache_write x
              (overwrite bounce (nat (offset mod 512)) (take (nat (chunk_of d sz offset)) buf)) s)) =
    store_chunk x (offset mod 512) (chunk_of d sz offset) buf s" for x and s :: "'a cache_state_scheme"
    using ch(4) pos_mod_sign [of 512 offset] by (auto simp: store_chunk_def)
  show ?thesis
    by (subst inode_write_loop.simps)
       (use ch(1) assms in \<open>simp add: Let_def chunk_of_expand chunk_of_def [symmetric] store
          del: if_split cong: if_cong\<close>)
qed

lemma store_chunkE:
  assumes "cache_inv s" and "cache_valid s x" and "0 \<le> ofs" and "0 \<le> n" and "ofs + n \<le> 512"
    and "nat n \<le> length buf"
  obtains t where "store_chunk x ofs n buf s = Some t"
    and "set_sector s x (overwrite (cache_content s x) (nat ofs) (take (nat n) buf)) t"
proof (cases "ofs = 0 \<and> n = 512")
  case True
  then have len: "length (take 512 buf) = 512" using assms by simp
  obtain t where "buffer_cache_write x (take 512 buf) s = Some t" "set_sector s x (take 512 buf) t"
    using writeE [OF assms(1,2) len] by blast
  then show thesis using that True len length_content [OF assms(1,2)] by (simp add: store_chunk_def)
next
  case False
  obtain u where u: "buffer_cache_read x s = Some (cache_content s x, u)" "same_sectors s u"
    using readE [OF assms(1,2)] by blast
  let ?b = "overwrite (cache_content s x) (nat ofs) (take (nat n) buf)"
  have "length ?b = 512"
    using assms length_content [OF assms(1,2)] by simp
  then obtain t where t: "buffer_cache_write x ?b u = Some t" "set_sector u x ?b t"
    using writeE [of u x ?b] same_sectorsD [OF u(2)] assms(2) by metis
  have "set_sector s x ?b t" using t(2) u(2) by (simp add: set_sector_def same_sectors_def)
  with that t(1) u(1) False show thesis by (auto simp: store_chunk_def)
qed

lemma overwrite_append:
  assumes "off + length a + length b \<le> length dst"
  shows "overwrite (overwrite dst off a) (off + length a) b = overwrite dst off (a @ b)"
  using assms by (intro nth_equalityI) (auto simp: nth_overwrite nth_append)

definition write_count :: "inode_disk \<Rightarrow> int \<Rightarrow> int \<Rightarrow> int" where
  "write_count d sz offset = max 0 (min sz (data_length d - offset))"

lemma inode_write_loop_ok:
  assumes "cache_inv s" and "inode_wf (cache_valid s) (cache_content s) d"
    and "blocks_distinct (cache_content s) d" and "0 \<le> offset" and "nat sz \<le> length buf"
  shows "\<exists>t. inode_write_loop d buf sz offset s = Some (write_count d sz offset, t) \<and> data_written s d t \<and>
    file_bytes (cache_content t) d =
      overwrite (file_bytes (cache_content s) d) (nat offset) (take (nat (write_count d sz offset)) buf)"
  using assms
proof (induction "nat sz" arbitrary: sz offset buf s rule: less_induct)
  case less
  consider "sz \<le> 0" | "data_length d \<le> offset" | "0 < sz" "offset < data_length d" by linarith
  then show ?case
  proof cases
    case 1
    then have "inode_write_loop d buf sz offset s = Some (0, s)" by (subst inode_write_loop.simps) simp
    moreover have "write_count d sz offset = 0" using 1 by (auto simp: write_count_def)
    ultimately show ?thesis using less.prems(1) by (auto intro: same_data_written)
  next
    case 2
    moreover from 2 have "write_count d sz offset = 0" by (auto simp: write_count_def)
    ultimately show ?thesis using less.prems(1,4) by (auto simp: inode_write_loop_past intro: same_data_written)
  next
    case 3
    let ?c = "cache_content s" and ?ch = "chunk_of d sz offset" and ?o = "nat offset"
    let ?x = "block_map ?c d (?o div 512)"
    let ?off' = "offset + ?ch" and ?sz' = "sz - ?ch" and ?src = "take (nat ?ch) buf"
    note ch = chunk_of_bounds [OF less.prems(4) 3(2,1)]
    have chbuf: "nat ?ch \<le> length buf" "length ?src = nat ?ch" using ch(2) less.prems(5) by simp_all
    obtain t where t: "byte_to_sector d offset s = Some (?x, t)" "same_sectors s t"
      using byte_to_sector_ok [OF less.prems(1,2,4) 3(2)] by blast
    have x: "cache_valid s ?x"
      by (rule inode_wfD(5) [OF less.prems(2) block_of_byte [OF less.prems(4) 3(2)]])
    have xt: "cache_valid t ?x" "cache_content t ?x = ?c ?x"
      using same_sectorsD [OF t(2)] x by simp_all
    obtain u where u: "store_chunk ?x (offset mod 512) ?ch buf t = Some u"
        "set_sector t ?x (overwrite (?c ?x) (?o mod 512) ?src) u"
      using store_chunkE [OF same_sectorsD(1) [OF t(2)] xt(1), of "offset mod 512" ?ch buf]
        ch chbuf xt(2) less.prems(4) by (auto simp: nat_mod_512)
    have set: "set_sector s ?x (overwrite (?c ?x) (?o mod 512) ?src) u"
      using u(2) t(2) by (simp add: set_sector_def same_sectors_def)
    have ofs: "?o mod 512 + nat ?ch \<le> 512" "?o + nat ?ch \<le> nat (data_length d)"
      using ch less.prems(4) by (simp_all flip: nat_mod_512 add: nat_add_distrib [symmetric])
    have "?src \<noteq> []" using ch(1) chbuf(2) by auto
    note w1 = write_chunk_file [OF less.prems(1-3) _ _ this set]
    have dw: "data_written s d u" and fu: "file_bytes (cache_content u) d = overwrite (file_bytes ?c d) ?o ?src"
      using w1 ofs chbuf(2) by simp_all
    note wfu = data_written_wf [OF dw less.prems(2,3)]
    have invu: "cache_inv u" using dw by (simp add: data_written_def)
    obtain w where w: "inode_write_loop d (drop (nat ?ch) buf) ?sz' ?off' u = Some (write_count d ?sz' ?off', w)"
        "data_written u d w"
        "file_bytes (cache_content w) d = overwrite (file_bytes (cache_content u) d) (nat ?off')
          (take (nat (write_count d ?sz' ?off')) (drop (nat ?ch) buf))"
      using less.hyps [OF _ invu wfu(1,2), of ?sz' ?off' "drop (nat ?ch) buf"] ch less.prems(4,5) 3(1) by fastforce
    have cnt: "write_count d sz offset = ?ch + write_count d ?sz' ?off'" "0 \<le> write_count d ?sz' ?off'"
      using ch 3 by (auto simp: write_count_def)
    have nat_off: "nat ?off' = ?o + nat ?ch" using ch less.prems(4) by (simp add: nat_add_distrib)
    have len: "?o + nat ?ch + length (take (nat (write_count d ?sz' ?off')) (drop (nat ?ch) buf)) \<le> nat (data_length d)"
      using ch less.prems(4) 3 by (auto simp: write_count_def min_def max_def)
    have "take (nat (write_count d sz offset)) buf =
        ?src @ take (nat (write_count d ?sz' ?off')) (drop (nat ?ch) buf)"
      unfolding cnt(1) using ch cnt(2) by (simp add: nat_add_distrib take_add)
    then have "file_bytes (cache_content w) d =
        overwrite (file_bytes ?c d) ?o (take (nat (write_count d sz offset)) buf)"
      unfolding w(3) fu nat_off using len chbuf(2)
      overwrite_append [of ?o ?src "take (nat (write_count d ?sz' ?off')) (drop (nat ?ch) buf)" "file_bytes ?c d"]
      by simp
    moreover have "inode_write_loop d buf sz offset s = Some (write_count d sz offset, w)"
      using t(1) u(1) w(1) cnt(1) chbuf(1) less.prems(4) 3 by (simp add: inode_write_loop_step)
    ultimately show ?thesis using data_written_trans [OF dw w(2) less.prems(2,3)] by blast
  qed
qed

section \<open>Listing the sectors of a file\<close>

definition second_level :: "(u32 \<Rightarrow> u8 list) \<Rightarrow> u32 list \<Rightarrow> nat \<Rightarrow> u32" where
  "second_level c blocks m = get_blocks (c (blocks ! (m div 128))) ! (m mod 128)"

lemma take_map_nth: "n \<le> length xs \<Longrightarrow> take n xs = map ((!) xs) [0..<n]"
  by (intro nth_equalityI) simp_all

lemma second_level_block:
  assumes "n \<le> 128"
  shows "map (second_level c blocks) [128 * i..<128 * i + n] = take n (get_blocks (c (blocks ! i)))"
  using assms by (intro nth_equalityI) (simp_all add: second_level_def)

lemma doubly_data_sectors_ok:
  assumes "cache_inv s" and "l = DIV_ROUND_UP num 128"
    and "\<forall>m < num. cache_valid s (blocks ! (i + m div 128))"
  shows "\<exists>t. doubly_data_sectors blocks i l num s =
      Some (map (second_level (cache_content s) blocks) [128 * i..<128 * i + num], t) \<and> same_sectors s t"
  using assms
proof (induction l arbitrary: i num s)
  case 0
  then have "num = 0" using less_DIV_ROUND_UP_iff [of 128 0 num] by simp
  with 0 show ?case by simp
next
  case (Suc l)
  let ?sub = "min num 128"
  from Suc.prems(2) have num: "0 < num" by (cases num) (simp_all add: DIV_ROUND_UP_def)
  have l: "l = DIV_ROUND_UP (num - ?sub) 128"
  proof (cases "128 \<le> num")
    case True
    then have "num + 127 = num - 128 + 127 + 1 * 128" by simp
    then have "(num + 127) div 128 = (num - 128 + 127) div 128 + 1" by (metis div_mult_self1 add.commute zero_neq_numeral)
    with Suc.prems(2) True show ?thesis by (simp add: DIV_ROUND_UP_def)
  next
    case False
    then have "(num + 127) div 128 = 1" using num by simp
    with Suc.prems(2) False show ?thesis by (simp add: DIV_ROUND_UP_def)
  qed
  from Suc.prems(3) num have "cache_valid s (blocks ! i)" by (auto dest: spec [of _ 0])
  then obtain u where u: "buffer_cache_read (blocks ! i) s = Some (cache_content s (blocks ! i), u)" "same_sectors s u"
    using readE [OF Suc.prems(1)] by blast
  have val: "\<forall>m < num - ?sub. cache_valid u (blocks ! (Suc i + m div 128))"
  proof (intro allI impI)
    fix m assume "m < num - ?sub"
    then have "m + 128 < num" by (auto simp: min_def split: if_splits)
    with Suc.prems(3) have "cache_valid s (blocks ! (i + (m + 128) div 128))" by blast
    then show "cache_valid u (blocks ! (Suc i + m div 128))" using same_sectorsD(2) [OF u(2)] by (simp add: div_add_self2)
  qed
  obtain t where t: "doubly_data_sectors blocks (Suc i) l (num - ?sub) u =
      Some (map (second_level (cache_content u) blocks) [128 * Suc i..<128 * Suc i + (num - ?sub)], t)" "same_sectors u t"
    using Suc.IH [OF same_sectorsD(1) [OF u(2)] l val] by blast
  have eq: "map (second_level (cache_content u) blocks) [128 * Suc i..<128 * Suc i + (num - ?sub)] =
      map (second_level (cache_content s) blocks) [128 * Suc i..<128 * Suc i + (num - ?sub)]"
  proof (rule map_cong [OF refl])
    fix m assume "m \<in> set [128 * Suc i..<128 * Suc i + (num - ?sub)]"
    then have m: "128 * Suc i \<le> m" "m < 128 * i + num" by (auto simp: min_def split: if_splits)
    then have "cache_valid s (blocks ! (i + (m - 128 * i) div 128))" using Suc.prems(3) by simp
    moreover have "i + (m - 128 * i) div 128 = m div 128" 
    proof -
      from m(1) obtain r where "m = 128 * i + r" using le_Suc_ex [of "128 * i" m] by auto
      then show ?thesis by simp
    qed
    ultimately show "second_level (cache_content u) blocks m = second_level (cache_content s) blocks m"
      using same_sectorsD(3) [OF u(2)] by (simp add: second_level_def)
  qed
  have "[128 * i..<128 * i + num] = [128 * i..<128 * i + ?sub] @ [128 * Suc i..<128 * Suc i + (num - ?sub)]"
  proof (cases "128 \<le> num")
    case True
    then obtain k where "num = 128 + k" using le_Suc_ex by blast
    then show ?thesis using upt_add_eq_append [of "128 * i" "128 * i + 128" k] by (simp add: ac_simps)
  qed simp
  then have "map (second_level (cache_content s) blocks) [128 * i..<128 * i + num] =
      take ?sub (get_blocks (cache_content s (blocks ! i))) @
      map (second_level (cache_content s) blocks) [128 * Suc i..<128 * Suc i + (num - ?sub)]"
    by (simp add: second_level_block)
  with u(1) t eq same_sectors_trans [OF u(2) t(2)] show ?case by (simp add: Let_def)
qed

lemma data_sectors_direct:
  "n \<le> 123 \<Longrightarrow> length (direct_blocks d) = 123 \<Longrightarrow> take n (direct_blocks d) = data_sectors c d n"
  by (simp add: data_sectors_def block_map_def take_map_nth)

lemma data_sectors_indirect:
  assumes "n \<le> 128"
  shows "data_sectors c d (123 + n) = data_sectors c d 123 @ take n (get_blocks (c (indirect_block d)))"
proof -
  have "map (block_map c d) [123..<123 + n] = take n (get_blocks (c (indirect_block d)))"
    using assms by (intro nth_equalityI) (simp_all add: block_map_def)
  then show ?thesis using upt_add_eq_append [of 0 123 n] by (simp add: data_sectors_def)
qed

lemma data_sectors_doubly:
  assumes "n \<le> 16384"
  shows "data_sectors c d (251 + n) =
    data_sectors c d 251 @ map (second_level c (get_blocks (c (doubly_indirect_block d)))) [0..<n]"
proof -
  have "map (block_map c d) [251..<251 + n] = map (second_level c (get_blocks (c (doubly_indirect_block d)))) [0..<n]"
    using assms by (intro nth_equalityI) (simp_all add: block_map_def second_level_def)
  then show ?thesis using upt_add_eq_append [of 0 251 n] by (simp add: data_sectors_def)
qed

lemma get_inode_data_sectors_ok:
  assumes inv: "cache_inv s" and wf: "inode_wf (cache_valid s) (cache_content s) d"
  shows "\<exists>t. get_inode_data_sectors d s =
    Some (Some (data_sectors (cache_content s) d (num_blocks d)), t) \<and> same_sectors s t"
proof -
  let ?c = "cache_content s" and ?n = "num_blocks d"
  have d: "length (direct_blocks d) = 123" "0 \<le> data_length d" "?n \<le> MAX_BLOCKS"
    using inode_wfD(1-3) [OF wf] by (simp_all add: inode_ok_def)
  note v = inode_wfD(4) [OF wf]
  consider "?n \<le> 123" | k where "?n = 123 + k" "0 < k" "k \<le> 128" | k where "?n = 251 + k" "0 < k" "k \<le> 16384"
  proof -
    have "?n \<le> 123 \<or> ?n = 123 + (?n - 123) \<and> 0 < ?n - 123 \<and> ?n - 123 \<le> 128 \<or>
        ?n = 251 + (?n - 251) \<and> 0 < ?n - 251 \<and> ?n - 251 \<le> 16384"
      using d(3) by linarith
    then show thesis using that by blast
  qed
  then show ?thesis
  proof cases
    case 1
    then show ?thesis using d inv by (simp add: get_inode_data_sectors_def data_sectors_direct)
  next
    case 2
    then have "cache_valid s (indirect_block d)" by (intro v map_sector_indirect) simp
    then obtain t where "buffer_cache_read (indirect_block d) s = Some (?c (indirect_block d), t)" "same_sectors s t"
      using readE [OF inv] by blast
    with 2 d show ?thesis
      by (simp add: get_inode_data_sectors_def Let_def data_sectors_indirect data_sectors_direct [of 123 d ?c, symmetric])
  next
    case 3
    let ?D = "doubly_indirect_block d"
    from 3 have "cache_valid s (indirect_block d)" "cache_valid s ?D"
      by (auto intro!: v map_sector_indirect map_sector_doubly)
    then obtain t where t: "buffer_cache_read (indirect_block d) s = Some (?c (indirect_block d), t)" "same_sectors s t"
      using readE [OF inv] by blast
    have D: "cache_valid t ?D" "cache_content t ?D = ?c ?D"
      using same_sectorsD [OF t(2)] \<open>cache_valid s ?D\<close> by simp_all
    then obtain u where u: "buffer_cache_read ?D t = Some (?c ?D, u)" "same_sectors t u"
      using readE [OF same_sectorsD(1) [OF t(2)], of ?D] by metis
    have su: "same_sectors s u" by (rule same_sectors_trans [OF t(2) u(2)])
    have second: "cache_valid s (get_blocks (?c ?D) ! (m div 128))" if "m < k" for m
      using 3 that by (intro v map_sector_second) simp
    then have "\<forall>m < k. cache_valid u (get_blocks (?c ?D) ! (0 + m div 128))"
      using same_sectorsD(2) [OF su] by simp
    from doubly_data_sectors_ok [OF same_sectorsD(1) [OF su] refl this]
    obtain w where w: "doubly_data_sectors (get_blocks (?c ?D)) 0 (DIV_ROUND_UP k 128) k u =
        Some (map (second_level (cache_content u) (get_blocks (?c ?D))) [0..<k], w)" "same_sectors u w"
      by auto
    have "map (second_level (cache_content u) (get_blocks (?c ?D))) [0..<k] =
        map (second_level ?c (get_blocks (?c ?D))) [0..<k]"
      using second same_sectorsD(3) [OF su] by (simp add: second_level_def)
    then show ?thesis
      using 3 d t u w same_sectors_trans [OF su w(2)] data_sectors_indirect [of 128 ?c d]
      by (simp add: get_inode_data_sectors_def Let_def data_sectors_doubly data_sectors_direct [of 123 d ?c, symmetric])
  qed
qed

section \<open>Properties\<close>

text \<open>A small file of 600 bytes in sectors 2 and 3 of the demonstration device.\<close>

definition demo_inode :: inode_disk where
  "demo_inode = \<lparr>direct_blocks = [2, 3] @ replicate 121 0, indirect_block = 0, doubly_indirect_block = 0,
     is_dir = 0, padding = [0, 0, 0], data_length = 600, magic = INODE_MAGIC\<rparr>"

abbreviation demo_fs :: cache_state where "demo_fs \<equiv> buffer_cache_init demo_cache"

lemma demo_inode_ok: "inode_ok demo_inode" "num_blocks demo_inode = 2" "data_length demo_inode = 600"
  by (simp_all add: demo_inode_def inode_ok_def bytes_to_sectors_def DIV_ROUND_UP_def)

lemma demo_data_sectors: "data_sectors c demo_inode 2 = [2, 3]" "map_sectors c demo_inode 2 = []"
  by (simp_all add: data_sectors_def map_sectors_def block_map_def demo_inode_def upt_rec)

lemma demo_fs_ok: "cache_inv demo_fs" "cache_valid demo_fs 2" "cache_valid demo_fs 3"
  "x \<in> {2, 3} \<Longrightarrow> cache_content demo_fs x = replicate 512 7"
proof -
  have dev: "fs_device demo_fs = demo_ide" "image demo_fs = replicate 2048 7" "fd demo_fs = 3"
    by (simp_all add: buffer_cache_init_def demo_cache_def)
  show "cache_valid demo_fs 2" "cache_valid demo_fs 3"
    by (simp_all add: cache_valid_def dev_valid_def dev demo_ide_def word_le_nat_alt)
  have free: "\<forall>i < length (cache demo_fs). \<not> occupied (cache demo_fs ! i)"
    by (simp add: buffer_cache_init_def)
  show "cache_inv demo_fs"
    by (auto simp: cache_inv_def buffer_cache_init_def demo_cache_def no_dups_def entry_ok_def)
  show "x \<in> {2, 3} \<Longrightarrow> cache_content demo_fs x = replicate 512 7"
    using free by (subst content_uncached)
      (auto simp: sector_at_def dev demo_ide_def ide_offset_def pread_def)
qed

lemma demo_inode_wf: "inode_wf (cache_valid demo_fs) c demo_inode" "blocks_distinct c demo_inode"
  using demo_inode_ok demo_fs_ok by (auto simp: inode_wf_def blocks_distinct_def demo_data_sectors)

lemma demo_file: "file_bytes (cache_content demo_fs) demo_inode = replicate 600 7"
proof -
  have "file_byte (cache_content demo_fs) demo_inode i = 7" if "i < 600" for i
  proof -
    have "i div 512 = 0 \<or> i div 512 = 1" using that by linarith
    then have "block_map (cache_content demo_fs) demo_inode (i div 512) \<in> {2, 3}"
      by (auto simp: block_map_def demo_inode_def)
    then show ?thesis by (simp add: file_byte_def demo_fs_ok(4))
  qed
  then show ?thesis by (intro nth_equalityI) (simp_all add: file_bytes_def demo_inode_ok)
qed

text \<open>
  An inode fills exactly one sector, the sector decodes to the inode it was made from,
  and decoding and encoding any sector gives the same 512 bytes: no field overlaps another
  and none is lost.
\<close>

theorem inode_disk_roundtrip:
  assumes "inode_ok d" and "length bs = BLOCK_SECTOR_SIZE"
  shows "length (put_inode d) = BLOCK_SECTOR_SIZE \<and> get_inode (put_inode d) = d \<and>
    inode_ok (get_inode bs) \<and> put_inode (get_inode bs) = bs"
  using assms by (simp add: length_put_inode get_put_inode put_get_inode inode_ok_get)

theorem inode_disk_roundtrip_witness:
  "get_inode (put_inode demo_inode) = demo_inode \<and> put_inode (get_inode (replicate 512 255)) = replicate 512 255"
  using inode_disk_roundtrip [OF demo_inode_ok(1), of "replicate 512 255"] by simp

text \<open>
  C25: The two traversals of the block tree agree. \<open>get_inode_data_sectors\<close> returns one
  sector number for every block of the file, and the number at position \<open>k\<close> is the one
  \<open>index_to_sector\<close> finds for block \<open>k\<close>, through the direct, indirect and doubly indirect
  blocks alike.
\<close>

theorem data_sectors_agree:
  assumes "cache_inv s" and "inode_wf (cache_valid s) (cache_content s) d"
  shows "\<exists>xs t. get_inode_data_sectors d s = Some (Some xs, t) \<and>
    length xs = bytes_to_sectors (data_length d) \<and>
    (\<forall>k < length xs. map_option fst (index_to_sector d (int k) t) = Some (xs ! k))"
proof -
  let ?n = "num_blocks d"
  obtain t where t: "get_inode_data_sectors d s = Some (Some (data_sectors (cache_content s) d ?n), t)"
      "same_sectors s t"
    using get_inode_data_sectors_ok [OF assms] by blast
  note wf = same_sectors_file(1) [OF t(2) assms(2)]
  have m: "\<forall>x \<in> set (map_sectors (cache_content s) d ?n). cache_content t x = cache_content s x"
    using inode_wfD(4) [OF assms(2)] same_sectorsD(3) [OF t(2)] by blast
  have "map_option fst (index_to_sector d (int k) t) = Some (data_sectors (cache_content s) d ?n ! k)"
    if k: "k < ?n" for k
  proof -
    obtain u where "index_to_sector d (int k) t = Some (block_map (cache_content t) d k, u)"
      using index_to_sector_ok [OF same_sectorsD(1) [OF t(2)] wf, of "int k"] k by auto
    with k show ?thesis by (simp add: data_sectors_def block_map_cong [OF m k])
  qed
  then show ?thesis using t(1) by (auto simp: data_sectors_def)
qed

theorem data_sectors_agree_witness:
  "\<exists>t. get_inode_data_sectors demo_inode demo_fs = Some (Some [2, 3], t) \<and>
     map_option fst (index_to_sector demo_inode 1 t) = Some 3"
proof -
  have "map_option fst (get_inode_data_sectors demo_inode demo_fs) = Some (Some [2, 3])"
    using get_inode_data_sectors_ok [OF demo_fs_ok(1) demo_inode_wf(1)]
    by (auto simp: demo_inode_ok(2) demo_data_sectors)
  then show ?thesis
    using data_sectors_agree [OF demo_fs_ok(1) demo_inode_wf(1)]
    by (auto simp: demo_inode_ok dest: spec [of _ "Suc 0"])
qed

text \<open>
  C12: Reading \<open>size\<close> bytes at any non-negative offset returns exactly this segment of
  the file's bytes, cut at the end of the file, whatever the alignment, and changes no
  sector.
\<close>

theorem inode_read_exact:
  assumes "cache_inv s" and "inode_wf (cache_valid s) (cache_content s) d" and "0 \<le> offset"
  shows "\<exists>t. inode_read_data d sz offset s =
      Some (take (nat sz) (drop (nat offset) (file_bytes (cache_content s) d)), t) \<and>
    cache_inv t \<and> (\<forall>y. cache_valid s y \<longrightarrow> cache_content t y = cache_content s y)"
  using inode_read_loop_ok [OF assms, of sz] by (auto simp: inode_read_data_def same_sectors_def)

theorem inode_read_exact_witness:
  "\<exists>t. inode_read_data demo_inode 200 500 demo_fs = Some (replicate 100 7, t)"
  using inode_read_exact [OF demo_fs_ok(1) demo_inode_wf(1), of 500 200] by (auto simp: demo_file)

text \<open>
  C11: A write inside a file stores the bytes and nothing else. It reports the number of
  bytes that fit before the end of the file; afterwards the file reads as before with this
  segment overwritten, and another file with which it shares no sector reads as before.
\<close>

theorem inode_write_exact:
  assumes "cache_inv s" and "inode_wf (cache_valid s) (cache_content s) d"
    and "blocks_distinct (cache_content s) d" and "0 \<le> offset" and "nat sz \<le> length buf"
    and "inode_wf (cache_valid s) (cache_content s) d2"
    and "set (data_sectors (cache_content s) d (num_blocks d)) \<inter>
      (set (map_sectors (cache_content s) d2 (num_blocks d2)) \<union>
       set (data_sectors (cache_content s) d2 (num_blocks d2))) = {}"
  shows "\<exists>n t. inode_write_loop d buf sz offset s = Some (n, t) \<and>
    n = max 0 (min sz (data_length d - offset)) \<and> cache_inv t \<and>
    file_bytes (cache_content t) d =
      overwrite (file_bytes (cache_content s) d) (nat offset) (take (nat n) buf) \<and>
    file_bytes (cache_content t) d2 = file_bytes (cache_content s) d2"
proof -
  obtain t where t: "inode_write_loop d buf sz offset s = Some (write_count d sz offset, t)" "data_written s d t"
      "file_bytes (cache_content t) d =
        overwrite (file_bytes (cache_content s) d) (nat offset) (take (nat (write_count d sz offset)) buf)"
    using inode_write_loop_ok [OF assms(1-5)] by blast
  have m: "\<forall>x \<in> set (map_sectors (cache_content s) d2 (num_blocks d2)). cache_content t x = cache_content s x"
    using t(2) inode_wfD(4) [OF assms(6)] assms(7) by (auto simp: data_written_def)
  have "file_byte (cache_content t) d2 i = file_byte (cache_content s) d2 i" if "i < nat (data_length d2)" for i
  proof -
    from that have k: "i div 512 < num_blocks d2"
      by (simp add: bytes_to_sectors_def div_less_DIV_ROUND_UP)
    then have "block_map (cache_content s) d2 (i div 512) \<notin> set (data_sectors (cache_content s) d (num_blocks d))"
      using assms(7) data_sectors_nth by blast
    then show ?thesis
      using t(2) inode_wfD(5) [OF assms(6) k] by (simp add: file_byte_def block_map_cong [OF m k] data_written_def)
  qed
  then have "file_bytes (cache_content t) d2 = file_bytes (cache_content s) d2" by (simp add: file_bytes_def)
  with t show ?thesis by (auto simp: write_count_def data_written_def)
qed

text \<open>A second file, of no bytes, and a write across the border of the two sectors.\<close>

theorem inode_write_exact_witness:
  "\<exists>t. inode_write_loop demo_inode (replicate 200 9) 200 500 demo_fs = Some (100, t) \<and>
     file_bytes (cache_content t) demo_inode = replicate 500 7 @ replicate 100 9"
proof -
  let ?d2 = "demo_inode\<lparr>data_length := 0\<rparr>"
  have n2: "bytes_to_sectors 0 = 0" by (simp add: bytes_to_sectors_def)
  have wf2: "inode_wf (cache_valid demo_fs) (cache_content demo_fs) ?d2"
    using demo_inode_ok(1) by (simp add: inode_wf_def n2 inode_ok_def map_sectors_def data_sectors_def)
  have "overwrite (replicate 600 (7::u8)) 500 (replicate 100 9) = replicate 500 7 @ replicate 100 9"
    by (simp add: overwrite_def)
  then show ?thesis
    using inode_write_exact [OF demo_fs_ok(1) demo_inode_wf(1,2) _ _ wf2, of 500 200 "replicate 200 9"]
    by (auto simp: demo_file demo_inode_ok n2 map_sectors_def data_sectors_def)
qed

end
