(* ===== verification/Fs_Alloc.thy ===== *)
theory Fs_Alloc
  imports Fs_Inode Fs_Bitmap
begin

text \<open>
  The free map, \<open>fs/free-map.c\<close>, the allocating part and the open-inode table of
  \<open>fs/inode.c\<close>, and the file objects of \<open>fs/file.c\<close>.

  \<open>struct inode\<close> and \<open>struct file\<close> objects live in two maps from addresses; \<open>malloc\<close>
  takes a fresh address and does not fail; a freed object is gone from its map, so that the
  use of a dangling pointer is \<open>None\<close>. The list of open inodes is the list of their
  addresses.

  The free map is kept in a file of its own, and every allocation writes it there. An
  allocation that would have to extend that file calls itself through the file layer; this
  case is left out (\<open>None\<close>). It does not arise as long as the file is as long as the
  map, as \<open>free_map_create\<close> makes it.
\<close>

record inode =
  sector_no :: u32
  open_cnt :: int
  removed :: bool
  deny_write_cnt :: int
  idata :: inode_disk

record file_t =
  file_inode :: nat
  file_pos :: int
  deny_write :: bool

text \<open>
  A directory that is open: \<open>struct dir\<close> of \<open>directory.h\<close>. \<open>cwd\<close> is the current directory,
  \<open>stack_name\<close> stands for the bytes of an uninitialised name on the stack, and \<open>console\<close>
  are the messages and the effects on the host so far.
\<close>

record dir_t =
  dir_inode :: nat
  dir_pos :: int
  dir_open_cnt :: int

record fs_state = cache_state +
  inodes :: "nat \<Rightarrow> inode option"
  open_inodes :: "nat list"
  files :: "nat \<Rightarrow> file_t option"
  next_addr :: nat
  free_map :: bitmap
  free_map_file :: "nat option"
  file_table :: "(string \<times> nat) list"
  dirs :: "nat \<Rightarrow> dir_t option"
  cwd :: "nat option"
  stack_name :: "u8 list"
  console :: "event list"

abbreviation FREE_MAP_SECTOR :: u32 where "FREE_MAP_SECTOR \<equiv> 0"

abbreviation ROOT_DIR_SECTOR :: u32 where "ROOT_DIR_SECTOR \<equiv> 1"

abbreviation zeros :: "u8 list" where "zeros \<equiv> replicate BLOCK_SECTOR_SIZE 0"

section \<open>The free map\<close>

definition free_map_init :: "fs_state \<Rightarrow> fs_state option" where
  "free_map_init s = do {
     b \<leftarrow> bitmap_create (unat (block_size (fs_device s) - 1));
     b \<leftarrow> bitmap_mark b (unat FREE_MAP_SECTOR);
     b \<leftarrow> bitmap_mark b (unat ROOT_DIR_SECTOR);
     Some (s\<lparr>free_map := b\<rparr>) }"

definition num_free_sectors :: "fs_state \<Rightarrow> nat option" where
  "num_free_sectors s = bitmap_count (free_map s) 0 (bitmap_size (free_map s)) False"

text \<open>\<open>bitmap_write (free_map, free_map_file)\<close>, through \<open>file_write_at\<close> and \<open>inode_write_at\<close>.\<close>

definition free_map_write :: "fs_state \<Rightarrow> (bool \<times> fs_state) option" where
  "free_map_write s = do {
     p \<leftarrow> free_map_file s;
     f \<leftarrow> files s p;
     i \<leftarrow> inodes s (file_inode f);
     let sz = int (byte_cnt (bit_cnt (free_map s)));
     if deny_write_cnt i \<noteq> 0 then Some (0 = sz, s) else do {
       (x, s) \<leftarrow> byte_to_sector (idata i) (sz - 1) s;
       guard_opt (x \<noteq> - 1);
       (n, s) \<leftarrow> inode_write_loop (idata i) (bitmap_bytes (free_map s)) sz 0 s;
       Some (n = sz, s) } }"

text \<open>The result is the sector stored through \<open>sectorp\<close>, if the call is successful.\<close>

definition free_map_allocate :: "nat \<Rightarrow> fs_state \<Rightarrow> (u32 option \<times> fs_state) option" where
  "free_map_allocate cnt s = do {
     (idx, b) \<leftarrow> bitmap_scan_and_flip (free_map s) 0 cnt False;
     let s = s\<lparr>free_map := b\<rparr>;
     if idx \<noteq> BITMAP_ERROR \<and> free_map_file s \<noteq> None then do {
       (ok, s) \<leftarrow> free_map_write s;
       if ok then Some (Some (of_nat idx), s)
       else do { b \<leftarrow> bitmap_set_multiple (free_map s) idx cnt False;
                 Some (None, s\<lparr>free_map := b\<rparr>) } }
     else Some (if idx \<noteq> BITMAP_ERROR then Some (of_nat idx) else None, s) }"

definition free_map_release :: "u32 \<Rightarrow> nat \<Rightarrow> fs_state \<Rightarrow> fs_state option" where
  "free_map_release sector cnt s = do {
     used \<leftarrow> bitmap_all (free_map s) (unat sector) cnt;
     let s = (if used then s else s\<lparr>panics := panics s + 1\<rparr>);
     b \<leftarrow> bitmap_set_multiple (free_map s) (unat sector) cnt False;
     (ok, s) \<leftarrow> free_map_write (s\<lparr>free_map := b\<rparr>);
     Some s }"

section \<open>Reserving sectors for an inode\<close>

text \<open>
  The body of the loop over the direct blocks, which is also \<open>inode_reserve_indirect\<close> at
  level 0: the entry gets a zeroed sector unless it has one. The result is the return value
  and the new value of the entry.
\<close>

definition reserve_sector :: "u32 \<Rightarrow> nat \<Rightarrow> fs_state \<Rightarrow> ((bool \<times> u32) \<times> fs_state) option" where
  "reserve_sector entry num s =
    (if entry = 0 then do {
       (r, s) \<leftarrow> free_map_allocate 1 s;
       case r of
         None \<Rightarrow> Some ((False, entry), s)
       | Some x \<Rightarrow> do { s \<leftarrow> buffer_cache_write x zeros s; Some ((True, x), s) } }
     else Some ((True, entry), s))"

text \<open>The loops over the entries of an array of blocks: \<open>l\<close> entries from \<open>i\<close> on, each for
  at most \<open>unit\<close> sectors of the \<open>num\<close> that are left. An error ends the loop.\<close>

fun reserve_blocks ::
  "(u32 \<Rightarrow> nat \<Rightarrow> fs_state \<Rightarrow> ((bool \<times> u32) \<times> fs_state) option) \<Rightarrow> nat \<Rightarrow> nat \<Rightarrow> nat \<Rightarrow> nat \<Rightarrow>
    u32 list \<Rightarrow> fs_state \<Rightarrow> ((bool \<times> u32 list) \<times> fs_state) option" where
  "reserve_blocks f un 0 i num blocks s = Some ((True, blocks), s)"
| "reserve_blocks f un (Suc l) i num blocks s = do {
     guard_opt (i < length blocks);
     let subsize = min num un;
     ((ok, x), s) \<leftarrow> f (blocks ! i) subsize s;
     let blocks = blocks[i := x];
     if \<not> ok then Some ((False, blocks), s)
     else reserve_blocks f un l (Suc i) (num - subsize) blocks s }"

text \<open>
  \<open>inode_reserve_indirect\<close>. For an indirect block the result of \<open>free_map_allocate\<close> is not
  looked at: when it fails the entry is still 0.
\<close>

primrec inode_reserve_indirect :: "nat \<Rightarrow> u32 \<Rightarrow> nat \<Rightarrow> fs_state \<Rightarrow> ((bool \<times> u32) \<times> fs_state) option" where
  "inode_reserve_indirect 0 = reserve_sector"
| "inode_reserve_indirect (Suc level) = (\<lambda>entry num s. do {
     (entry, s) \<leftarrow> (if entry = 0 then do {
         (r, s) \<leftarrow> free_map_allocate 1 s;
         let entry = (case r of None \<Rightarrow> entry | Some x \<Rightarrow> x);
         s \<leftarrow> buffer_cache_write entry zeros s;
         Some (entry, s) } else Some (entry, s));
     (b, s) \<leftarrow> buffer_cache_read entry s;
     let un = (if Suc level = 1 then 1 else INDIRECT_BLOCKS_PER_SECTOR);
     let l = DIV_ROUND_UP num un;
     ((ok, blocks), s) \<leftarrow> reserve_blocks (inode_reserve_indirect level) un l 0 num (get_blocks b) s;
     if \<not> ok then Some ((False, entry), s)
     else do { s \<leftarrow> buffer_cache_write entry (put_blocks blocks) s;
               Some ((True, entry), s) } })"

definition inode_reserve :: "inode_disk \<Rightarrow> int \<Rightarrow> fs_state \<Rightarrow> ((bool \<times> inode_disk) \<times> fs_state) option" where
  "inode_reserve d len s =
    (if len < 0 then Some ((False, d), s) else do {
       let num = bytes_to_sectors len;
       let l = min num DIRECT_BLOCKS_COUNT;
       ((ok, blocks), s) \<leftarrow> reserve_blocks reserve_sector 1 l 0 l (direct_blocks d) s;
       let d = d\<lparr>direct_blocks := blocks\<rparr>;
       if \<not> ok then Some ((False, d), s) else do {
       let num = num - l;
       if num = 0 then Some ((True, d), s) else do {
       let l = min num INDIRECT_BLOCKS_PER_SECTOR;
       ((ok, x), s) \<leftarrow> inode_reserve_indirect 1 (indirect_block d) l s;
       let d = d\<lparr>indirect_block := x\<rparr>;
       if \<not> ok then Some ((False, d), s) else do {
       let num = num - l;
       if num = 0 then Some ((True, d), s) else do {
       let l = min num (INDIRECT_BLOCKS_PER_SECTOR * INDIRECT_BLOCKS_PER_SECTOR);
       ((ok, x), s) \<leftarrow> inode_reserve_indirect 2 (doubly_indirect_block d) l s;
       let d = d\<lparr>doubly_indirect_block := x\<rparr>;
       if ok \<and> num - l \<noteq> 0 then Some ((False, d), s\<lparr>panics := panics s + 1\<rparr>)
       else Some ((ok, d), s) } } } } })"

definition inode_allocate :: "inode_disk \<Rightarrow> fs_state \<Rightarrow> ((bool \<times> inode_disk) \<times> fs_state) option" where
  "inode_allocate d s = inode_reserve d (data_length d) s"

definition inode_create :: "u32 \<Rightarrow> int \<Rightarrow> bool \<Rightarrow> fs_state \<Rightarrow> (bool \<times> fs_state) option" where
  "inode_create sector len dir s = do {
     let d = \<lparr>direct_blocks = replicate DIRECT_BLOCKS_COUNT 0, indirect_block = 0,
       doubly_indirect_block = 0, is_dir = (if dir then 1 else 0), padding = [0, 0, 0],
       data_length = len, magic = INODE_MAGIC\<rparr>;
     let s = (if 0 \<le> len then s else s\<lparr>panics := panics s + 1\<rparr>);
     ((ok, d), s) \<leftarrow> inode_allocate d s;
     if ok then do { s \<leftarrow> buffer_cache_write sector (put_inode d) s; Some (True, s) }
     else Some (False, s) }"

section \<open>Releasing the sectors of an inode\<close>

fun release_blocks ::
  "(u32 \<Rightarrow> nat \<Rightarrow> fs_state \<Rightarrow> fs_state option) \<Rightarrow> nat \<Rightarrow> nat \<Rightarrow> nat \<Rightarrow> nat \<Rightarrow> u32 list \<Rightarrow> fs_state \<Rightarrow> fs_state option"
where
  "release_blocks f un 0 i num blocks s = Some s"
| "release_blocks f un (Suc l) i num blocks s = do {
     guard_opt (i < length blocks);
     let subsize = min num un;
     s \<leftarrow> f (blocks ! i) subsize s;
     release_blocks f un l (Suc i) (num - subsize) blocks s }"

primrec inode_deallocate_indirect :: "nat \<Rightarrow> u32 \<Rightarrow> nat \<Rightarrow> fs_state \<Rightarrow> fs_state option" where
  "inode_deallocate_indirect 0 = (\<lambda>entry num s. free_map_release entry 1 s)"
| "inode_deallocate_indirect (Suc level) = (\<lambda>entry num s. do {
     (b, s) \<leftarrow> buffer_cache_read entry s;
     let un = (if Suc level = 1 then 1 else INDIRECT_BLOCKS_PER_SECTOR);
     s \<leftarrow> release_blocks (inode_deallocate_indirect level) un (DIV_ROUND_UP num un) 0 num (get_blocks b) s;
     free_map_release entry 1 s })"

definition inode_deallocate :: "inode_disk \<Rightarrow> fs_state \<Rightarrow> (bool \<times> fs_state) option" where
  "inode_deallocate d s =
    (if data_length d < 0 then Some (False, s) else do {
       let num = bytes_to_sectors (data_length d);
       let l = min num DIRECT_BLOCKS_COUNT;
       s \<leftarrow> release_blocks (inode_deallocate_indirect 0) 1 l 0 l (direct_blocks d) s;
       let num = num - l;
       let l = min num INDIRECT_BLOCKS_PER_SECTOR;
       s \<leftarrow> (if l > 0 then inode_deallocate_indirect 1 (indirect_block d) l s else Some s);
       let num = num - l;
       let l = min num (INDIRECT_BLOCKS_PER_SECTOR * INDIRECT_BLOCKS_PER_SECTOR);
       s \<leftarrow> (if l > 0 then inode_deallocate_indirect 2 (doubly_indirect_block d) l s else Some s);
       Some (True, if num - l = 0 then s else s\<lparr>panics := panics s + 1\<rparr>) })"

section \<open>The open inodes\<close>

definition inode_init :: "fs_state \<Rightarrow> fs_state" where
  "inode_init s = s\<lparr>open_inodes := []\<rparr>"

text \<open>\<open>inode_reopen\<close> returns the inode; it does not count the new opener.\<close>

definition inode_reopen :: "nat \<Rightarrow> fs_state \<Rightarrow> nat \<times> fs_state" where
  "inode_reopen p s = (p, s)"

fun find_open :: "(nat \<Rightarrow> inode option) \<Rightarrow> nat list \<Rightarrow> u32 \<Rightarrow> nat option option" where
  "find_open h [] sector = Some None"
| "find_open h (p # ps) sector = do {
     i \<leftarrow> h p;
     if sector_no i = sector then Some (Some p) else find_open h ps sector }"

definition inode_open :: "u32 \<Rightarrow> fs_state \<Rightarrow> (nat \<times> fs_state) option" where
  "inode_open sector s = do {
     r \<leftarrow> find_open (inodes s) (open_inodes s) sector;
     case r of
       Some p \<Rightarrow> Some (inode_reopen p s)
     | None \<Rightarrow> do {
         let p = next_addr s;
         (b, s) \<leftarrow> buffer_cache_read sector s;
         Some (p, s\<lparr>next_addr := Suc p, open_inodes := p # open_inodes s,
           inodes := (inodes s)(p \<mapsto> \<lparr>sector_no = sector, open_cnt = 1, removed = False,
             deny_write_cnt = 0, idata = get_inode b\<rparr>)\<rparr>) } }"

definition inode_close :: "nat option \<Rightarrow> fs_state \<Rightarrow> fs_state option" where
  "inode_close q s =
    (case q of
       None \<Rightarrow> Some s
     | Some p \<Rightarrow> do {
         i \<leftarrow> inodes s p;
         let i = i\<lparr>open_cnt := open_cnt i - 1\<rparr>;
         let s = s\<lparr>inodes := (inodes s)(p \<mapsto> i)\<rparr>;
         if open_cnt i = 0 then do {
           let s = s\<lparr>open_inodes := remove1 p (open_inodes s)\<rparr>;
           s \<leftarrow> (if removed i then do {
                  s \<leftarrow> free_map_release (sector_no i) 1 s;
                  (ok, s) \<leftarrow> inode_deallocate (idata i) s;
                  Some s } else Some s);
           Some (s\<lparr>inodes := (inodes s)(p := None)\<rparr>) }
         else Some s })"

definition inode_remove :: "nat \<Rightarrow> fs_state \<Rightarrow> fs_state option" where
  "inode_remove p s = do {
     i \<leftarrow> inodes s p;
     Some (s\<lparr>inodes := (inodes s)(p \<mapsto> i\<lparr>removed := True\<rparr>)\<rparr>) }"

definition inode_length :: "nat \<Rightarrow> fs_state \<Rightarrow> int option" where
  "inode_length p s = map_option (\<lambda>i. data_length (idata i)) (inodes s p)"

definition inode_is_directory :: "nat \<Rightarrow> fs_state \<Rightarrow> bool option" where
  "inode_is_directory p s = map_option (\<lambda>i. is_dir (idata i) \<noteq> 0) (inodes s p)"

definition inode_is_removed :: "nat \<Rightarrow> fs_state \<Rightarrow> bool option" where
  "inode_is_removed p s = map_option removed (inodes s p)"

definition inode_deny_write :: "nat \<Rightarrow> fs_state \<Rightarrow> fs_state option" where
  "inode_deny_write p s = do {
     i \<leftarrow> inodes s p;
     let i = i\<lparr>deny_write_cnt := deny_write_cnt i + 1\<rparr>;
     Some (s\<lparr>inodes := (inodes s)(p \<mapsto> i),
       panics := (if deny_write_cnt i \<le> open_cnt i then panics s else panics s + 1)\<rparr>) }"

definition inode_allow_write :: "nat \<Rightarrow> fs_state \<Rightarrow> fs_state option" where
  "inode_allow_write p s = do {
     i \<leftarrow> inodes s p;
     let bad = (if deny_write_cnt i > 0 then 0 else 1) + (if deny_write_cnt i \<le> open_cnt i then 0 else 1);
     Some (s\<lparr>inodes := (inodes s)(p \<mapsto> i\<lparr>deny_write_cnt := deny_write_cnt i - 1\<rparr>), panics := panics s + bad\<rparr>) }"

definition inode_get_inumber :: "nat \<Rightarrow> fs_state \<Rightarrow> u32 option" where
  "inode_get_inumber p s = map_option sector_no (inodes s p)"

section \<open>Reading and writing open inodes\<close>

definition inode_read_at :: "nat \<Rightarrow> int \<Rightarrow> int \<Rightarrow> fs_state \<Rightarrow> (u8 list \<times> fs_state) option" where
  "inode_read_at p sz offset s = do { i \<leftarrow> inodes s p; inode_read_data (idata i) sz offset s }"

text \<open>The sum \<open>offset + size\<close> overflows when it is not an \<open>offset_t\<close>.\<close>

definition offset_ok :: "int \<Rightarrow> bool" where
  "offset_ok x \<longleftrightarrow> - (2 ^ 31) < x \<and> x < 2 ^ 31"

definition set_idata :: "nat \<Rightarrow> inode_disk \<Rightarrow> fs_state \<Rightarrow> fs_state" where
  "set_idata p d s = s\<lparr>inodes := (inodes s)(p := map_option (\<lambda>i. i\<lparr>idata := d\<rparr>) (inodes s p))\<rparr>"

definition is_free_map_inode :: "nat \<Rightarrow> fs_state \<Rightarrow> bool" where
  "is_free_map_inode p s =
    (case free_map_file s of None \<Rightarrow> False
     | Some q \<Rightarrow> (case files s q of None \<Rightarrow> False | Some f \<Rightarrow> file_inode f = p))"

definition inode_write_at :: "nat \<Rightarrow> u8 list \<Rightarrow> int \<Rightarrow> int \<Rightarrow> fs_state \<Rightarrow> (int \<times> fs_state) option" where
  "inode_write_at p buf sz offset s = do {
     i \<leftarrow> inodes s p;
     if deny_write_cnt i \<noteq> 0 then Some (0, s) else do {
     guard_opt (offset_ok (offset + sz));
     (x, s) \<leftarrow> byte_to_sector (idata i) (offset + sz - 1) s;
     if x = - 1 then do {
       guard_opt (\<not> is_free_map_inode p s);
       ((ok, d), s) \<leftarrow> inode_reserve (idata i) (offset + sz) s;
       if \<not> ok then Some (0, set_idata p d s) else do {
         let d = d\<lparr>data_length := offset + sz\<rparr>;
         s \<leftarrow> buffer_cache_write (sector_no i) (put_inode d) (set_idata p d s);
         inode_write_loop d buf sz offset s } }
     else inode_write_loop (idata i) buf sz offset s } }"

section \<open>The free map and its file\<close>

text \<open>The fields of the file system do not matter to the cache.\<close>

lemma cache_frame_free_map [simp]:
  "cache_inv (s\<lparr>free_map := b\<rparr>) = cache_inv s" "cache_valid (s\<lparr>free_map := b\<rparr>) = cache_valid s"
  "cache_content (s\<lparr>free_map := b\<rparr>) = cache_content s"
  by (simp_all add: cache_inv_def cache_valid_def cache_content_def dev_valid_def sector_at_def
      entry_ok_def fun_eq_iff split: option.split)

lemma cache_frame_panics [simp]:
  "cache_inv (s\<lparr>panics := n\<rparr>) = cache_inv s" "cache_valid (s\<lparr>panics := n\<rparr>) = cache_valid s"
  "cache_content (s\<lparr>panics := n\<rparr>) = cache_content s"
  by (simp_all add: cache_inv_def cache_valid_def cache_content_def dev_valid_def sector_at_def
      entry_ok_def fun_eq_iff split: option.split)

lemma cache_frame_inodes [simp]:
  "cache_inv (s\<lparr>inodes := h\<rparr>) = cache_inv s" "cache_valid (s\<lparr>inodes := h\<rparr>) = cache_valid s"
  "cache_content (s\<lparr>inodes := h\<rparr>) = cache_content s"
  by (simp_all add: cache_inv_def cache_valid_def cache_content_def dev_valid_def sector_at_def
      entry_ok_def fun_eq_iff split: option.split)

lemma cache_frame_open_inodes [simp]:
  "cache_inv (s\<lparr>open_inodes := ps\<rparr>) = cache_inv s" "cache_valid (s\<lparr>open_inodes := ps\<rparr>) = cache_valid s"
  "cache_content (s\<lparr>open_inodes := ps\<rparr>) = cache_content s"
  by (simp_all add: cache_inv_def cache_valid_def cache_content_def dev_valid_def sector_at_def
      entry_ok_def fun_eq_iff split: option.split)

lemma cache_frame_files [simp]:
  "cache_inv (s\<lparr>files := h\<rparr>) = cache_inv s" "cache_valid (s\<lparr>files := h\<rparr>) = cache_valid s"
  "cache_content (s\<lparr>files := h\<rparr>) = cache_content s"
  by (simp_all add: cache_inv_def cache_valid_def cache_content_def dev_valid_def sector_at_def
      entry_ok_def fun_eq_iff split: option.split)

lemma cache_frame_next_addr [simp]:
  "cache_inv (s\<lparr>next_addr := n\<rparr>) = cache_inv s" "cache_valid (s\<lparr>next_addr := n\<rparr>) = cache_valid s"
  "cache_content (s\<lparr>next_addr := n\<rparr>) = cache_content s"
  by (simp_all add: cache_inv_def cache_valid_def cache_content_def dev_valid_def sector_at_def
      entry_ok_def fun_eq_iff split: option.split)

lemma cache_frame_free_map_file [simp]:
  "cache_inv (s\<lparr>free_map_file := q\<rparr>) = cache_inv s" "cache_valid (s\<lparr>free_map_file := q\<rparr>) = cache_valid s"
  "cache_content (s\<lparr>free_map_file := q\<rparr>) = cache_content s"
  by (simp_all add: cache_inv_def cache_valid_def cache_content_def dev_valid_def sector_at_def
      entry_ok_def fun_eq_iff split: option.split)

lemma cache_frame_file_table [simp]:
  "cache_inv (s\<lparr>file_table := es\<rparr>) = cache_inv s" "cache_valid (s\<lparr>file_table := es\<rparr>) = cache_valid s"
  "cache_content (s\<lparr>file_table := es\<rparr>) = cache_content s"
  by (simp_all add: cache_inv_def cache_valid_def cache_content_def dev_valid_def sector_at_def
      entry_ok_def fun_eq_iff split: option.split)

lemma cache_frame_dirs [simp]:
  "cache_inv (s\<lparr>dirs := h\<rparr>) = cache_inv s" "cache_valid (s\<lparr>dirs := h\<rparr>) = cache_valid s"
  "cache_content (s\<lparr>dirs := h\<rparr>) = cache_content s"
  by (simp_all add: cache_inv_def cache_valid_def cache_content_def dev_valid_def sector_at_def
      entry_ok_def fun_eq_iff split: option.split)

lemma cache_frame_cwd [simp]:
  "cache_inv (s\<lparr>cwd := q\<rparr>) = cache_inv s" "cache_valid (s\<lparr>cwd := q\<rparr>) = cache_valid s"
  "cache_content (s\<lparr>cwd := q\<rparr>) = cache_content s"
  by (simp_all add: cache_inv_def cache_valid_def cache_content_def dev_valid_def sector_at_def
      entry_ok_def fun_eq_iff split: option.split)

lemma cache_frame_console [simp]:
  "cache_inv (s\<lparr>console := es\<rparr>) = cache_inv s" "cache_valid (s\<lparr>console := es\<rparr>) = cache_valid s"
  "cache_content (s\<lparr>console := es\<rparr>) = cache_content s"
  by (simp_all add: cache_inv_def cache_valid_def cache_content_def dev_valid_def sector_at_def
      entry_ok_def fun_eq_iff split: option.split)

lemma more_fields:
  fixes s t :: fs_state
  assumes "cache_state.more t = cache_state.more s"
  shows "inodes t = inodes s" and "open_inodes t = open_inodes s" and "files t = files s"
    and "next_addr t = next_addr s" and "free_map t = free_map s" and "free_map_file t = free_map_file s"
    and "file_table t = file_table s" and "dirs t = dirs s" and "cwd t = cwd s"
    and "stack_name t = stack_name s" and "console t = console s"
  using assms by (cases s; cases t; simp)+

lemma more_set_map:
  fixes s t :: fs_state
  shows "cache_state.more t = cache_state.more (s\<lparr>free_map := b\<rparr>) \<Longrightarrow>
    cache_state.more (t\<lparr>free_map := free_map s\<rparr>) = cache_state.more s"
  by (cases s; cases t) simp

lemma invalid_minus_one: "\<not> cache_valid s (- 1)"
proof -
  have "0 < dev_panics b (- 1)" for b
    by (cases b) (simp add: word_order.extremum)
  then show ?thesis by (auto simp: cache_valid_def dev_valid_def)
qed

text \<open>
  The situation after \<open>free_map_create\<close>: the file of the free map is open, as long as
  the map and on valid sectors of its own. \<open>d\<close> is its inode.
\<close>

definition fm_wf :: "inode_disk \<Rightarrow> fs_state \<Rightarrow> bool" where
  "fm_wf d s \<longleftrightarrow> cache_inv s \<and> bm_ok (free_map s) \<and> 0 < bit_cnt (free_map s) \<and>
     bit_cnt (free_map s) < BITMAP_ERROR \<and>
     (\<exists>a f i. free_map_file s = Some a \<and> files s a = Some f \<and> inodes s (file_inode f) = Some i \<and>
        deny_write_cnt i = 0 \<and> idata i = d) \<and>
     data_length d = int (byte_cnt (bit_cnt (free_map s))) \<and>
     inode_wf (cache_valid s) (cache_content s) d \<and> blocks_distinct (cache_content s) d"

text \<open>The copy of the map on disk is up to date.\<close>

definition fm_synced :: "inode_disk \<Rightarrow> fs_state \<Rightarrow> bool" where
  "fm_synced d s \<longleftrightarrow> file_bytes (cache_content s) d = bitmap_bytes (free_map s)"

lemma byte_cnt_pos: "0 < n \<Longrightarrow> 0 < byte_cnt n"
  by (simp add: byte_cnt_def elem_cnt_def less_DIV_ROUND_UP_iff)

lemma fm_wf_set_map:
  assumes "fm_wf d s" and "bm_ok b" and "bit_cnt b = bit_cnt (free_map s)"
  shows "fm_wf d (s\<lparr>free_map := b\<rparr>)"
  using assms by (simp add: fm_wf_def)

lemma fm_wf_data_written:
  assumes "fm_wf d s" and "data_written s d t"
  shows "fm_wf d t"
proof -
  have wf: "inode_wf (cache_valid s) (cache_content s) d" "blocks_distinct (cache_content s) d"
    using assms(1) by (simp_all add: fm_wf_def)
  have "cache_inv t" "cache_state.more t = cache_state.more s"
    using assms(2) by (simp_all add: data_written_def)
  with assms(1) data_written_wf [OF assms(2) wf] more_fields [OF this(2)] show ?thesis
    by (simp add: fm_wf_def)
qed

lemma free_map_write_ok:
  assumes "fm_wf d s"
  shows "\<exists>t. free_map_write s = Some (True, t) \<and> data_written s d t \<and> fm_wf d t \<and> fm_synced d t \<and>
    free_map t = free_map s"
proof -
  let ?sz = "int (byte_cnt (bit_cnt (free_map s)))" and ?buf = "bitmap_bytes (free_map s)"
  obtain a f i where fi: "free_map_file s = Some a" "files s a = Some f" "inodes s (file_inode f) = Some i"
      "deny_write_cnt i = 0" "idata i = d"
    using assms unfolding fm_wf_def by blast
  have wf: "cache_inv s" "inode_wf (cache_valid s) (cache_content s) d" "blocks_distinct (cache_content s) d"
      "data_length d = ?sz" "0 < ?sz" "bm_ok (free_map s)"
    using assms byte_cnt_pos by (simp_all add: fm_wf_def)
  define x where "x = block_map (cache_content s) d (nat (?sz - 1) div 512)"
  have "0 \<le> ?sz - 1" "?sz - 1 < data_length d" using wf(4,5) by simp_all
  then obtain u where u: "byte_to_sector d (?sz - 1) s = Some (x, u)" "same_sectors s u"
    using byte_to_sector_ok [OF wf(1,2)] unfolding x_def by blast
  have "cache_valid s x"
    unfolding x_def using wf(4,5) by (intro inode_wfD(5) [OF wf(2)] block_of_byte) simp_all
  then have x: "x \<noteq> - 1" using invalid_minus_one by metis
  note fu = same_sectors_file [OF u(2) wf(2)]
  have len: "length ?buf = byte_cnt (bit_cnt (free_map s))"
    using length_bitmap_bytes [OF wf(6)] by (simp add: bitmap_file_size_def)
  obtain t where t: "inode_write_loop d ?buf ?sz 0 u = Some (write_count d ?sz 0, t)" "data_written u d t"
      "file_bytes (cache_content t) d = overwrite (file_bytes (cache_content u) d) (nat 0)
        (take (nat (write_count d ?sz 0)) ?buf)"
    using inode_write_loop_ok [OF same_sectorsD(1) [OF u(2)] fu(1), of 0 ?sz ?buf] fu(2) wf(3) len by auto
  have cnt: "write_count d ?sz 0 = ?sz" using wf(4,5) by (simp add: write_count_def)
  have su: "data_written s d t"
    using data_written_trans [OF same_data_written [OF u(2)] t(2) wf(2,3)] .
  have "free_map t = free_map s" using su by (intro more_fields) (simp add: data_written_def)
  moreover have "free_map u = free_map s" using more_fields(5) [OF same_sectorsD(4) [OF u(2)]] .
  moreover have "file_bytes (cache_content t) d = ?buf"
    using t(3) len wf(4) by (simp add: cnt)
  ultimately show ?thesis
    using fi u(1) x t(1) cnt su fm_wf_data_written [OF assms su]
    by (auto simp: free_map_write_def fm_synced_def Let_def)
qed

lemma run_at_1: "run_at xs (Suc 0) v i \<longleftrightarrow> i < length xs \<and> xs ! i = v"
  by (auto simp: run_at_def Suc_le_eq take_Suc_conv_app_nth)

text \<open>Allocating one sector takes the first free one.\<close>

lemma free_map_allocate_ok:
  assumes "fm_wf d s"
  shows "(\<forall>i < bit_cnt (free_map s). bools (free_map s) ! i) \<and> free_map_allocate 1 s = Some (None, s) \<or>
    (\<exists>i t. i < bit_cnt (free_map s) \<and> \<not> bools (free_map s) ! i \<and> (\<forall>j < i. bools (free_map s) ! j) \<and>
      free_map_allocate 1 s = Some (Some (of_nat i), t) \<and> fm_wf d t \<and> fm_synced d t \<and>
      bools (free_map t) = (bools (free_map s))[i := True] \<and> data_written s d (t\<lparr>free_map := free_map s\<rparr>))"
proof -
  let ?b = "free_map s"
  have ok: "bm_ok ?b" "bit_cnt ?b < BITMAP_ERROR" using assms by (simp_all add: fm_wf_def)
  show ?thesis
  proof (cases "first_run (bools ?b) 0 1 False")
    case None
    moreover from None have "\<forall>i < bit_cnt ?b. bools ?b ! i"
      by (auto simp: first_run_None_iff run_at_1)
    moreover have "s\<lparr>free_map := ?b\<rparr> = s" by simp
    ultimately show ?thesis
      using bitmap_scan_and_flip_ok [OF ok, of 0 1 False] by (simp add: free_map_allocate_def)
  next
    case (Some i)
    then have i: "i < bit_cnt ?b" "\<not> bools ?b ! i" "\<forall>j < i. bools ?b ! j"
      by (auto simp: first_run_Some_iff run_at_1)
    have ne: "i \<noteq> BITMAP_ERROR" using i(1) ok(2) by simp
    obtain b where b: "bitmap_scan_and_flip ?b 0 1 False = Some (i, b)" "bm_ok b" "bit_cnt b = bit_cnt ?b"
        "bools b = overwrite (bools ?b) i [True]"
      using bitmap_scan_and_flip_ok [OF ok, of 0 1 False] Some by auto
    let ?s = "s\<lparr>free_map := b\<rparr>"
    obtain t where t: "free_map_write ?s = Some (True, t)" "data_written ?s d t" "fm_wf d t" "fm_synced d t"
        "free_map t = b"
      using free_map_write_ok [OF fm_wf_set_map [OF assms b(2,3)]] by auto
    have "overwrite (bools ?b) i [True] = (bools ?b)[i := True]"
      using i(1) by (intro nth_equalityI) (auto simp: nth_overwrite nth_list_update)
    moreover have "free_map_file ?s \<noteq> None" using assms by (auto simp: fm_wf_def)
    moreover have "data_written s d (t\<lparr>free_map := ?b\<rparr>)"
      using t(2) more_set_map [of t b s] by (simp add: data_written_def)
    ultimately show ?thesis using i ne b(1,4) t by (auto simp: free_map_allocate_def)
  qed
qed

lemma free_map_release_ok:
  assumes "fm_wf d s" and "unat x < bit_cnt (free_map s)"
  shows "\<exists>t. free_map_release x 1 s = Some t \<and> fm_wf d t \<and> fm_synced d t \<and>
    bools (free_map t) = (bools (free_map s))[unat x := False]"
proof -
  let ?b = "free_map s" and ?i = "unat x"
  have ok: "bm_ok ?b" using assms by (simp_all add: fm_wf_def)
  have used: "bitmap_all ?b ?i 1 = Some (bools ?b ! ?i)"
    using bitmap_contains_ok [OF ok, of ?i 1 False] assms(2)
    by (auto simp: bitmap_all_def take_Suc_conv_app_nth)
  let ?s = "if bools ?b ! ?i then s else s\<lparr>panics := panics s + 1\<rparr>"
  obtain b where b: "bitmap_set_multiple ?b ?i 1 False = Some b" "bm_ok b" "bit_cnt b = bit_cnt ?b"
      "bools b = overwrite (bools ?b) ?i [False]"
    using bitmap_set_multiple_ok [OF ok, of ?i 1 False] assms(2) by auto
  have "fm_wf d (s\<lparr>panics := n\<rparr>) = fm_wf d s" for n by (simp add: fm_wf_def)
  then have "fm_wf d ?s" using assms(1) by simp
  then have wf: "fm_wf d (?s\<lparr>free_map := b\<rparr>)" using b(2,3) by (intro fm_wf_set_map) simp_all
  obtain t where t: "free_map_write (?s\<lparr>free_map := b\<rparr>) = Some (True, t)" "fm_wf d t" "fm_synced d t" "free_map t = b"
    using free_map_write_ok [OF wf] by auto
  have "overwrite (bools ?b) ?i [False] = (bools ?b)[?i := False]"
    using assms(2) by (intro nth_equalityI) (auto simp: nth_overwrite nth_list_update)
  then show ?thesis using used b t by (cases "bools ?b ! ?i") (simp_all add: free_map_release_def)
qed

lemma le_word_zeros: "le_word (replicate n 0) = 0"
  by (induction n) simp_all

text \<open>A full map.\<close>

definition fm_full :: "fs_state \<Rightarrow> bool" where
  "fm_full s \<longleftrightarrow> bm_ok (free_map s) \<and> bit_cnt (free_map s) < BITMAP_ERROR \<and>
     (\<forall>i < bit_cnt (free_map s). bools (free_map s) ! i)"

lemma free_map_allocate_full: "fm_full s \<Longrightarrow> free_map_allocate 1 s = Some (None, s)"
proof -
  assume f: "fm_full s"
  then have "first_run (bools (free_map s)) 0 1 False = None"
    by (auto simp: fm_full_def first_run_None_iff run_at_1)
  with f bitmap_scan_and_flip_ok [of "free_map s" 0 1 False] show ?thesis
    by (simp add: fm_full_def free_map_allocate_def)
qed

lemma inode_reserve_nothing: "inode_reserve d 0 s = Some ((True, d), s)"
  by (simp add: inode_reserve_def bytes_to_sectors_def)

text \<open>Reading an open inode, and writing inside one.\<close>

lemma inode_read_at_ok:
  assumes "inodes s p = Some i" and "cache_inv s" and "inode_wf (cache_valid s) (cache_content s) (idata i)" and "0 \<le> offset"
  shows "\<exists>t. inode_read_at p sz offset s =
      Some (take (nat sz) (drop (nat offset) (file_bytes (cache_content s) (idata i))), t) \<and> same_sectors s t"
  using inode_read_loop_ok [OF assms(2-4)] assms(1) by (auto simp: inode_read_at_def inode_read_data_def)

lemma inode_write_at_ok:
  assumes "inodes s p = Some i" and "deny_write_cnt i = 0" and "cache_inv s"
    and "inode_wf (cache_valid s) (cache_content s) (idata i)" and "blocks_distinct (cache_content s) (idata i)"
    and "0 \<le> offset" and "0 < sz" and "offset + sz \<le> data_length (idata i)" and "nat sz \<le> length buf"
  shows "\<exists>t. inode_write_at p buf sz offset s = Some (sz, t) \<and> data_written s (idata i) t \<and>
    file_bytes (cache_content t) (idata i) =
      overwrite (file_bytes (cache_content s) (idata i)) (nat offset) (take (nat sz) buf)"
proof -
  let ?d = "idata i"
  define x where "x = block_map (cache_content s) ?d (nat (offset + sz - 1) div 512)"
  have pos: "0 \<le> offset + sz - 1" "offset + sz - 1 < data_length ?d" using assms(6-8) by simp_all
  then obtain u where u: "byte_to_sector ?d (offset + sz - 1) s = Some (x, u)" "same_sectors s u"
    using byte_to_sector_ok [OF assms(3,4)] unfolding x_def by blast
  have "cache_valid s x" unfolding x_def by (rule inode_wfD(5) [OF assms(4) block_of_byte [OF pos]])
  then have x: "x \<noteq> - 1" using invalid_minus_one by metis
  note fu = same_sectors_file [OF u(2) assms(4)]
  have cnt: "write_count ?d sz offset = sz" using assms(7,8) by (simp add: write_count_def)
  obtain t where t: "inode_write_loop ?d buf sz offset u = Some (sz, t)" "data_written u ?d t"
      "file_bytes (cache_content t) ?d = overwrite (file_bytes (cache_content u) ?d) (nat offset) (take (nat sz) buf)"
    using inode_write_loop_ok [OF same_sectorsD(1) [OF u(2)] fu(1), of offset sz buf] fu(2) assms(5,6,9) cnt by auto
  have "data_length ?d < 2 ^ 31" using assms(4) by (simp add: inode_wf_def inode_ok_def)
  then have off: "offset_ok (offset + sz)" using assms(6-8) by (simp add: offset_ok_def)
  have "data_written s ?d t"
    using data_written_trans [OF same_data_written [OF u(2)] t(2) assms(4,5)] .
  then show ?thesis using assms(1,2) off u(1) x t(1,3) fu(3) by (auto simp: inode_write_at_def)
qed

section \<open>Properties\<close>

text \<open>
  A state with a device of 64 KiB, a free map of 64 bits in the file of the inode in sector
  0, whose only data sector is 2, and the sectors 0, 1 and 2 in use.
\<close>

definition fm_inode :: inode_disk where
  "fm_inode = \<lparr>direct_blocks = 2 # replicate 122 0, indirect_block = 0, doubly_indirect_block = 0,
     is_dir = 0, padding = [0, 0, 0], data_length = 8, magic = INODE_MAGIC\<rparr>"

definition demo_alloc :: fs_state where
  "demo_alloc = cache_state.extend demo_fs (fs_state.fields
     [0 \<mapsto> \<lparr>sector_no = 0, open_cnt = 1, removed = False, deny_write_cnt = 0, idata = fm_inode\<rparr>]
     [0] [1 \<mapsto> \<lparr>file_inode = 0, file_pos = 0, deny_write = False\<rparr>] 2
     \<lparr>bit_cnt = 64, bits = [7]\<rparr> (Some 1) [] Map.empty None (replicate 31 0) [])"

lemma demo_alloc_cache: "cache_inv demo_alloc" "cache_valid demo_alloc = cache_valid demo_fs"
    "cache_content demo_alloc = cache_content demo_fs"
  using demo_fs_ok(1)
  by (simp_all add: demo_alloc_def cache_state.defs fs_state.defs cache_inv_def cache_valid_def
      cache_content_def dev_valid_def sector_at_def entry_ok_def fun_eq_iff split: option.split)

lemma demo_alloc_wf: "fm_wf fm_inode demo_alloc"
proof -
  have n: "num_blocks fm_inode = Suc 0" "0 \<le> data_length fm_inode" by (simp_all add: fm_inode_def bytes_to_sectors_def DIV_ROUND_UP_def)
  have s: "data_sectors c fm_inode (Suc 0) = [2]" "map_sectors c fm_inode (Suc 0) = []" for c
    by (simp_all add: data_sectors_def map_sectors_def block_map_def fm_inode_def)
  have "inode_ok fm_inode" by (simp add: fm_inode_def inode_ok_def)
  then have "inode_wf (cache_valid demo_alloc) (cache_content demo_alloc) fm_inode"
      "blocks_distinct (cache_content demo_alloc) fm_inode"
    using demo_fs_ok(2) by (simp_all add: inode_wf_def blocks_distinct_def n s demo_alloc_cache)
  moreover have "free_map demo_alloc = \<lparr>bit_cnt = 64, bits = [7]\<rparr>" "free_map_file demo_alloc = Some 1"
      "files demo_alloc 1 = Some \<lparr>file_inode = 0, file_pos = 0, deny_write = False\<rparr>"
      "inodes demo_alloc 0 = Some \<lparr>sector_no = 0, open_cnt = 1, removed = False, deny_write_cnt = 0, idata = fm_inode\<rparr>"
    by (simp_all add: demo_alloc_def cache_state.defs fs_state.defs)
  ultimately show ?thesis
    by (simp add: fm_wf_def demo_alloc_cache bm_ok_def elem_cnt_def byte_cnt_def DIV_ROUND_UP_def fm_inode_def)
qed

text \<open>
  C13: Allocating a sector takes the first free one, marks it in the map and nothing else,
  and leaves the copy of the map in its file equal to the map in memory. The call fails
  only when no sector is free, and then changes nothing.
\<close>

theorem free_map_allocate_first:
  assumes "fm_wf d s"
  shows "\<exists>r t. free_map_allocate 1 s = Some (r, t) \<and> fm_wf d t \<and>
    (case r of
       None \<Rightarrow> t = s \<and> (\<forall>i < bit_cnt (free_map s). bitmap_test (free_map s) i = Some True)
     | Some x \<Rightarrow> bitmap_test (free_map s) (unat x) = Some False \<and>
         bitmap_test (free_map t) (unat x) = Some True \<and>
         (\<forall>i < unat x. bitmap_test (free_map s) i = Some True) \<and>
         (\<forall>i < bit_cnt (free_map s). i \<noteq> unat x \<longrightarrow> bitmap_test (free_map t) i = bitmap_test (free_map s) i) \<and>
         file_bytes (cache_content t) d = bitmap_bytes (free_map t))"
proof -
  have test: "bitmap_test (free_map u) i = Some (bools (free_map u) ! i)"
    if "fm_wf d u" "i < bit_cnt (free_map u)" for u i
    using that by (simp add: fm_wf_def bitmap_test_bit elem_idx_less)
  consider (full) "\<forall>i < bit_cnt (free_map s). bools (free_map s) ! i" "free_map_allocate 1 s = Some (None, s)"
    | (ok) i t where "i < bit_cnt (free_map s)" "\<not> bools (free_map s) ! i" "\<forall>j < i. bools (free_map s) ! j"
        "free_map_allocate 1 s = Some (Some (of_nat i), t)" "fm_wf d t" "fm_synced d t"
        "bools (free_map t) = (bools (free_map s))[i := True]"
    using free_map_allocate_ok [OF assms] by blast
  then show ?thesis
  proof cases
    case full
    then show ?thesis using test [OF assms] assms by simp
  next
    case ok
    have cnt: "bit_cnt (free_map t) = bit_cnt (free_map s)"
      using arg_cong [OF ok(7), of length] by simp
    have "i < 2 ^ 32" using ok(1) assms by (simp add: fm_wf_def)
    then have u: "unat (of_nat i :: u32) = i" by (simp add: unat_of_nat take_bit_nat_eq_self)
    have "\<forall>j < i. bitmap_test (free_map s) j = Some True" using ok(1,3) test [OF assms] by simp
    moreover have "\<forall>j < bit_cnt (free_map s). j \<noteq> i \<longrightarrow> bitmap_test (free_map t) j = bitmap_test (free_map s) j"
      using ok(7) cnt test [OF assms] test [OF ok(5)] by (simp del: nth_bools)
    moreover have "bitmap_test (free_map t) i = Some True" "bitmap_test (free_map s) i = Some False"
      using ok(1,2,7) cnt test [OF assms] test [OF ok(5)] by (simp_all del: nth_bools)
    ultimately show ?thesis using ok(4-6) u by (auto simp: fm_synced_def)
  qed
qed

theorem free_map_allocate_first_witness:
  "\<exists>t. free_map_allocate 1 demo_alloc = Some (Some 3, t) \<and> bitmap_test (free_map t) 3 = Some True"
proof -
  have fm: "free_map demo_alloc = \<lparr>bit_cnt = 64, bits = [7]\<rparr>"
    by (simp add: demo_alloc_def cache_state.defs fs_state.defs)
  have t: "bitmap_test \<lparr>bit_cnt = 64, bits = [7]\<rparr> 3 = Some False" "bitmap_test \<lparr>bit_cnt = 64, bits = [7]\<rparr> 0 = Some True"
    "bitmap_test \<lparr>bit_cnt = 64, bits = [7]\<rparr> 1 = Some True" "bitmap_test \<lparr>bit_cnt = 64, bits = [7]\<rparr> 2 = Some True"
    by code_simp+
  obtain r t where r: "free_map_allocate 1 demo_alloc = Some (r, t)"
    "case r of
       None \<Rightarrow> t = demo_alloc \<and> (\<forall>i < 64. bitmap_test \<lparr>bit_cnt = 64, bits = [7]\<rparr> i = Some True)
     | Some x \<Rightarrow> bitmap_test \<lparr>bit_cnt = 64, bits = [7]\<rparr> (unat x) = Some False \<and>
         bitmap_test (free_map t) (unat x) = Some True \<and>
         (\<forall>i < unat x. bitmap_test \<lparr>bit_cnt = 64, bits = [7]\<rparr> i = Some True)"
    using free_map_allocate_first [OF demo_alloc_wf] unfolding fm by (auto split: option.splits)
  then obtain x where x: "r = Some x" using t(1) by (cases r) auto
  then have xf: "bitmap_test \<lparr>bit_cnt = 64, bits = [7]\<rparr> (unat x) = Some False"
      "\<forall>i < unat x. bitmap_test \<lparr>bit_cnt = 64, bits = [7]\<rparr> i = Some True"
    using r(2) by simp_all
  have "k = 3" if "bitmap_test \<lparr>bit_cnt = 64, bits = [7]\<rparr> k = Some False"
      "\<forall>i < k. bitmap_test \<lparr>bit_cnt = 64, bits = [7]\<rparr> i = Some True" for k
  proof -
    have "k \<noteq> 0" by (rule notI) (use that(1) t(2) in simp)
    moreover have "k \<noteq> 1" by (rule notI) (use that(1) t(3) in simp)
    moreover have "k \<noteq> 2" by (rule notI) (use that(1) t(4) in simp)
    moreover have "\<not> 3 < k" using that(2) t(1) by auto
    ultimately show ?thesis by linarith
  qed
  with xf have "unat x = 3" by blast
  then have "x = 3" "bitmap_test (free_map t) 3 = Some True"
    using r(2) x by (auto simp: word_unat_eq_iff)
  with r(1) x show ?thesis by blast
qed

text \<open>
  Allocation and release are inverse: releasing the sector just allocated gives back
  the map as it was, in memory and in the file.
\<close>

theorem free_map_allocate_release:
  assumes "fm_wf d s" and "free_map_allocate 1 s = Some (Some x, t)"
  shows "\<exists>u. free_map_release x 1 t = Some u \<and> bools (free_map u) = bools (free_map s) \<and>
    file_bytes (cache_content u) d = bitmap_bytes (free_map u)"
proof -
  obtain i where i: "i < bit_cnt (free_map s)" "\<not> bools (free_map s) ! i" "x = of_nat i" "fm_wf d t"
      "bools (free_map t) = (bools (free_map s))[i := True]"
    using free_map_allocate_ok [OF assms(1)] assms(2) by auto
  have "i < 2 ^ 32" using i(1) assms(1) by (simp add: fm_wf_def)
  then have x: "unat x = i" unfolding i(3) by (simp add: unat_of_nat take_bit_nat_eq_self)
  have "bit_cnt (free_map t) = bit_cnt (free_map s)" using arg_cong [OF i(5), of length] by simp
  with i(1) x obtain u where u: "free_map_release x 1 t = Some u" "fm_synced d u"
      "bools (free_map u) = (bools (free_map t))[i := False]"
    using free_map_release_ok [OF i(4), of x] by auto
  have "(bools (free_map s))[i := False] = bools (free_map s)"
    using i(2) by (metis list_update_id)
  with u i(5) show ?thesis by (simp add: fm_synced_def)
qed

theorem free_map_allocate_release_witness:
  "\<exists>t u. free_map_allocate 1 demo_alloc = Some (Some 3, t) \<and> free_map_release 3 1 t = Some u \<and>
     bools (free_map u) = bools (free_map demo_alloc)"
proof -
  have fm: "free_map demo_alloc = \<lparr>bit_cnt = 64, bits = [7]\<rparr>"
    by (simp add: demo_alloc_def cache_state.defs fs_state.defs)
  have "bools (free_map demo_alloc) = [True, True, True] @ replicate 61 False"
    unfolding fm by code_simp
  then have b: "bools (free_map demo_alloc) ! 3 = False" "\<forall>j < 3. bools (free_map demo_alloc) ! j"
    by (auto simp: nth_append less_Suc_eq numeral_3_eq_3 simp del: nth_bools)
  obtain i t where i: "\<not> bools (free_map demo_alloc) ! i" "\<forall>j < i. bools (free_map demo_alloc) ! j"
      "free_map_allocate 1 demo_alloc = Some (Some (of_nat i), t)"
    using free_map_allocate_ok [OF demo_alloc_wf] b(1) fm by (auto simp del: nth_bools)
  have "i = 3" using i(1,2) b by (metis linorder_neqE_nat)
  with i(3) have t: "free_map_allocate 1 demo_alloc = Some (Some 3, t)" by simp
  from free_map_allocate_release [OF demo_alloc_wf t] t show ?thesis by blast
qed

text \<open>
  C36: When the disk is full, reserving an indirect block of level 1 that does not exist yet (its
  entry is 0), for at least one sector, destroys the inode in sector 0, the one of the free map:
  \<open>inode_reserve_indirect\<close> does not look at the result of \<open>free_map_allocate\<close>, the entry is still 0,
  and the zeros meant for the new block are written to sector 0. The call itself reports failure.
\<close>

theorem reserve_indirect_full_disk:
  assumes "cache_inv s" and "cache_valid s FREE_MAP_SECTOR" and "fm_full s" and "0 < n"
  shows "\<exists>t. inode_reserve_indirect 1 0 n s = Some ((False, 0), t) \<and>
    cache_content t FREE_MAP_SECTOR = zeros"
proof -
  obtain u where u: "buffer_cache_write 0 zeros s = Some u" "set_sector s 0 zeros u"
    using writeE [OF assms(1,2), of zeros] by auto
  then have u0: "cache_inv u" "cache_valid u 0" "cache_content u 0 = zeros"
    using assms(2) by (simp_all add: set_sector_def)
  obtain t where t: "buffer_cache_read 0 u = Some (zeros, t)" "same_sectors u t"
    using readE [OF u0(1,2)] u0(3) by metis
  have "cache_state.more t = cache_state.more s"
    using u(2) t(2) by (simp add: set_sector_def same_sectors_def)
  from more_fields(5) [OF this] have full: "fm_full t" using assms(3) by (simp add: fm_full_def)
  have z: "get_blocks zeros ! 0 = 0" "0 < length (get_blocks zeros)"
    by (simp_all add: get_blocks_def nth_le_chunks le_word_zeros)
  obtain m where m: "n = Suc m" using assms(4) gr0_implies_Suc by blast
  have "reserve_blocks reserve_sector 1 n 0 n (get_blocks zeros) t = Some ((False, get_blocks zeros), t)"
    using z free_map_allocate_full [OF full] list_update_id [of "get_blocks zeros" 0]
    by (simp add: m reserve_sector_def)
  then have "inode_reserve_indirect 1 0 n s = Some ((False, 0), t)"
    using free_map_allocate_full [OF assms(3)] u(1) t(1) by simp
  moreover have "cache_content t 0 = zeros" using same_sectorsD(3) [OF t(2) u0(2)] u0(3) by simp
  ultimately show ?thesis by blast
qed

definition demo_full :: fs_state where
  "demo_full = demo_alloc\<lparr>free_map := \<lparr>bit_cnt = 64, bits = [- 1]\<rparr>\<rparr>"

theorem reserve_indirect_full_disk_witness:
  "\<exists>t. inode_reserve_indirect 1 0 5 demo_full = Some ((False, 0), t) \<and> cache_content t 0 = zeros"
proof (rule reserve_indirect_full_disk)
  show "cache_inv demo_full" "cache_valid demo_full 0"
    by (simp_all add: demo_full_def demo_alloc_cache)
       (simp add: cache_valid_def dev_valid_def buffer_cache_init_def demo_cache_def demo_ide_def word_le_nat_alt)
  have "bools \<lparr>bit_cnt = 64, bits = [- 1]\<rparr> ! i" if "i < 64" for i
    using that by (simp add: bm_bit_def)
  then show "fm_full demo_full"
    by (simp add: fm_full_def demo_full_def bm_ok_def elem_cnt_def DIV_ROUND_UP_def del: nth_bools)
qed simp

text \<open>
  Writing no bytes at offset 0 of a file that may be written truncates it: the byte
  before the end of the range, at \<open>offset + size - 1 = -1\<close>, belongs to no sector, the inode
  is \<open>extended\<close> to \<open>offset + size\<close> bytes, and its length becomes 0.
\<close>

theorem empty_write_truncates:
  assumes "inodes s p = Some i" and "deny_write_cnt i = 0" and "\<not> is_free_map_inode p s"
    and "cache_inv s" and "cache_valid s (sector_no i)" and "inode_ok (idata i)"
  shows "\<exists>t. inode_write_at p buf 0 0 s = Some (0, t) \<and> inode_length p t = Some 0 \<and>
    data_length (get_inode (cache_content t (sector_no i))) = 0"
proof -
  let ?d = "(idata i)\<lparr>data_length := 0\<rparr>" and ?s = "set_idata p ((idata i)\<lparr>data_length := 0\<rparr>) s"
  have ok: "inode_ok ?d" using assms(6) by (simp add: inode_ok_def)
  have more: "cache_inv ?s = cache_inv s" "cache_valid ?s = cache_valid s"
    by (simp_all add: set_idata_def)
  obtain t where t: "buffer_cache_write (sector_no i) (put_inode ?d) ?s = Some t"
      "set_sector ?s (sector_no i) (put_inode ?d) t"
    using writeE [of ?s "sector_no i" "put_inode ?d"] more assms(4,5) length_put_inode [OF ok] by auto
  have "inodes t = inodes ?s" using t(2) by (intro more_fields) (simp add: set_sector_def)
  then have len: "inode_length p t = Some 0" using assms(1) by (simp add: inode_length_def set_idata_def)
  have "inode_write_loop ?d buf 0 0 t = Some (0, t)" by (subst inode_write_loop.simps) simp
  then have w: "inode_write_at p buf 0 0 s = Some (0, t)"
    using assms t(1) by (simp add: inode_write_at_def offset_ok_def byte_to_sector_def inode_reserve_nothing)
  have "cache_content t (sector_no i) = put_inode ?d"
    using t(2) assms(5) more by (simp add: set_sector_def)
  then show ?thesis using w len get_put_inode [OF ok] by simp
qed

definition demo_open :: fs_state where
  "demo_open = demo_alloc\<lparr>inodes := (inodes demo_alloc)(5 \<mapsto>
     \<lparr>sector_no = 3, open_cnt = 1, removed = False, deny_write_cnt = 0, idata = demo_inode\<rparr>),
     open_inodes := [5, 0]\<rparr>"

lemma demo_open_cache: "cache_inv demo_open" "cache_valid demo_open = cache_valid demo_fs"
    "cache_content demo_open = cache_content demo_fs"
  by (simp_all add: demo_open_def demo_alloc_cache)

lemma demo_open_fields: "\<not> is_free_map_inode 5 demo_open" "inodes demo_open 5 = Some
     \<lparr>sector_no = 3, open_cnt = 1, removed = False, deny_write_cnt = 0, idata = demo_inode\<rparr>"
    "open_inodes demo_open = [5, 0]" "\<exists>i. inodes demo_open 0 = Some i \<and> sector_no i = 0"
  by (simp_all add: demo_open_def demo_alloc_def cache_state.defs fs_state.defs is_free_map_inode_def)

theorem empty_write_truncates_witness:
  "inode_length 5 demo_open = Some 600 \<and>
   (\<exists>t. inode_write_at 5 [] 0 0 demo_open = Some (0, t) \<and> inode_length 5 t = Some 0)"
  using empty_write_truncates [OF demo_open_fields(2) _ demo_open_fields(1), of "[]"] demo_fs_ok(3) demo_inode_ok
  by (auto simp: demo_open_fields(2) demo_open_cache inode_length_def)

text \<open>
  C37: Opening an inode twice and closing it once leaves the second opener with a freed
  object, because \<open>inode_reopen\<close> does not count openers: the address both calls of
  \<open>inode_open\<close> returned is gone after the first \<open>inode_close\<close>, and the next access through
  it has no defined result.
\<close>

theorem reopened_inode_dangles:
  assumes "cache_inv s" and "cache_valid s x" and "find_open (inodes s) (open_inodes s) x = Some None"
  shows "\<exists>p s1 s2. inode_open x s = Some (p, s1) \<and> inode_open x s1 = Some (p, s1) \<and>
    inode_close (Some p) s1 = Some s2 \<and> inodes s2 p = None \<and> p \<notin> set (open_inodes s2) - set (open_inodes s) \<and>
    inode_read_at p sz offset s2 = None \<and> inode_write_at p buf sz offset s2 = None \<and>
    inode_close (Some p) s2 = None"
proof -
  obtain t where t: "buffer_cache_read x s = Some (cache_content s x, t)" "same_sectors s t"
    using readE [OF assms(1,2)] by blast
  note f = more_fields [OF same_sectorsD(4) [OF t(2)]]
  let ?p = "next_addr s"
  let ?i = "\<lparr>sector_no = x, open_cnt = 1, removed = False, deny_write_cnt = 0,
    idata = get_inode (cache_content s x)\<rparr>"
  let ?s1 = "t\<lparr>next_addr := Suc ?p, open_inodes := ?p # open_inodes t, inodes := (inodes t)(?p \<mapsto> ?i)\<rparr>"
  have 1: "inode_open x s = Some (?p, ?s1)"
    using assms(3) t(1) by (simp add: inode_open_def Let_def)
  have 2: "inode_open x ?s1 = Some (?p, ?s1)"
    by (simp add: inode_open_def inode_reopen_def)
  obtain s2 where s2: "inode_close (Some ?p) ?s1 = Some s2" "inodes s2 ?p = None"
      "open_inodes s2 = open_inodes t"
    by (simp add: inode_close_def)
  from 1 2 s2 f(2) show ?thesis
    by (intro exI [of _ ?p] exI [of _ ?s1] exI [of _ s2])
       (simp add: inode_read_at_def inode_write_at_def inode_close_def)
qed

theorem reopened_inode_dangles_witness:
  "\<exists>p s1 s2. inode_open 2 demo_open = Some (p, s1) \<and> inode_open 2 s1 = Some (p, s1) \<and>
     inode_close (Some p) s1 = Some s2 \<and> inode_read_at p 1 0 s2 = None"
proof -
  have "find_open (inodes demo_open) (open_inodes demo_open) 2 = Some None"
    using demo_open_fields(2-4) by auto
  then show ?thesis
    using reopened_inode_dangles [of demo_open 2 1 0 "[]"] demo_fs_ok(2) demo_open_cache by fastforce
qed

end
