(* ===== verification/Fs_File.thy ===== *)
theory Fs_File
  imports Fs_Alloc
begin

text \<open>
  File objects and the table of open files, \<open>fs/file.c\<close>, and the rest of
  \<open>fs/free-map.c\<close>, which uses them. The file table is a list of names and addresses of
  file objects.
\<close>

section \<open>File objects\<close>

definition file_open :: "nat option \<Rightarrow> fs_state \<Rightarrow> (nat option \<times> fs_state) option" where
  "file_open q s =
    (case q of
       None \<Rightarrow> do { s \<leftarrow> inode_close None s; Some (None, s) }
     | Some p \<Rightarrow>
         let a = next_addr s in
         Some (Some a, s\<lparr>next_addr := Suc a,
           files := (files s)(a \<mapsto> \<lparr>file_inode = p, file_pos = 0, deny_write = False\<rparr>)\<rparr>))"

definition file_reopen :: "nat \<Rightarrow> fs_state \<Rightarrow> (nat option \<times> fs_state) option" where
  "file_reopen a s = do {
     f \<leftarrow> files s a;
     let (p, s) = inode_reopen (file_inode f) s;
     file_open (Some p) s }"

definition file_deny_write :: "nat \<Rightarrow> fs_state \<Rightarrow> fs_state option" where
  "file_deny_write a s = do {
     f \<leftarrow> files s a;
     if \<not> deny_write f then
       inode_deny_write (file_inode f) (s\<lparr>files := (files s)(a \<mapsto> f\<lparr>deny_write := True\<rparr>)\<rparr>)
     else Some s }"

definition file_allow_write :: "nat \<Rightarrow> fs_state \<Rightarrow> fs_state option" where
  "file_allow_write a s = do {
     f \<leftarrow> files s a;
     if deny_write f then
       inode_allow_write (file_inode f) (s\<lparr>files := (files s)(a \<mapsto> f\<lparr>deny_write := False\<rparr>)\<rparr>)
     else Some s }"

definition file_close :: "nat option \<Rightarrow> fs_state \<Rightarrow> fs_state option" where
  "file_close q s =
    (case q of
       None \<Rightarrow> Some s
     | Some a \<Rightarrow> do {
         s \<leftarrow> file_allow_write a s;
         f \<leftarrow> files s a;
         s \<leftarrow> inode_close (Some (file_inode f)) s;
         Some (s\<lparr>files := (files s)(a := None)\<rparr>) })"

definition file_get_inode :: "nat \<Rightarrow> fs_state \<Rightarrow> nat option" where
  "file_get_inode a s = map_option file_inode (files s a)"

definition file_read :: "nat \<Rightarrow> int \<Rightarrow> fs_state \<Rightarrow> (u8 list \<times> fs_state) option" where
  "file_read a sz s = do {
     f \<leftarrow> files s a;
     (bs, s) \<leftarrow> inode_read_at (file_inode f) sz (file_pos f) s;
     Some (bs, s\<lparr>files := (files s)(a \<mapsto> f\<lparr>file_pos := file_pos f + int (length bs)\<rparr>)\<rparr>) }"

definition file_read_at :: "nat \<Rightarrow> int \<Rightarrow> int \<Rightarrow> fs_state \<Rightarrow> (u8 list \<times> fs_state) option" where
  "file_read_at a sz ofs s = do { f \<leftarrow> files s a; inode_read_at (file_inode f) sz ofs s }"

text \<open>
  \<open>file_write\<close> stores a null character into the last byte of the caller's buffer, which is
  part of the result, and moves the position by two less than it wrote.
\<close>

definition file_write :: "nat \<Rightarrow> u8 list \<Rightarrow> int \<Rightarrow> fs_state \<Rightarrow> ((int \<times> u8 list) \<times> fs_state) option" where
  "file_write a buf sz s = do {
     guard_opt (0 < sz \<and> nat sz \<le> length buf);
     let buf = buf[nat (sz - 1) := 0];
     f \<leftarrow> files s a;
     (n, s) \<leftarrow> inode_write_at (file_inode f) buf sz (file_pos f) s;
     Some ((n, buf), s\<lparr>files := (files s)(a \<mapsto> f\<lparr>file_pos := file_pos f + (n - 2)\<rparr>)\<rparr>) }"

definition file_write_at :: "nat \<Rightarrow> u8 list \<Rightarrow> int \<Rightarrow> int \<Rightarrow> fs_state \<Rightarrow> (int \<times> fs_state) option" where
  "file_write_at a buf sz ofs s = do { f \<leftarrow> files s a; inode_write_at (file_inode f) buf sz ofs s }"

definition file_length :: "nat \<Rightarrow> fs_state \<Rightarrow> int option" where
  "file_length a s = do { f \<leftarrow> files s a; inode_length (file_inode f) s }"

definition file_seek :: "nat \<Rightarrow> int \<Rightarrow> fs_state \<Rightarrow> fs_state option" where
  "file_seek a new_pos s = do {
     f \<leftarrow> files s a;
     Some (s\<lparr>files := (files s)(a \<mapsto> f\<lparr>file_pos := new_pos\<rparr>),
       panics := (if 0 \<le> new_pos then panics s else panics s + 1)\<rparr>) }"

definition file_tell :: "nat \<Rightarrow> fs_state \<Rightarrow> int option" where
  "file_tell a s = map_option file_pos (files s a)"

section \<open>The file table\<close>

definition init_file_table :: "fs_state \<Rightarrow> fs_state" where
  "init_file_table s = s\<lparr>file_table := []\<rparr>"

definition get_file_by_fname :: "string \<Rightarrow> fs_state \<Rightarrow> nat option" where
  "get_file_by_fname fname s = map_of (file_table s) fname"

definition add_to_file_table :: "nat \<Rightarrow> string \<Rightarrow> fs_state \<Rightarrow> fs_state" where
  "add_to_file_table a fname s =
    (if get_file_by_fname fname s \<noteq> None then s
     else s\<lparr>file_table := file_table s @ [(fname, a)]\<rparr>)"

fun take_entry :: "(string \<times> nat) list \<Rightarrow> string \<Rightarrow> (nat \<times> (string \<times> nat) list) option" where
  "take_entry [] fname = None"
| "take_entry ((n, a) # es) fname =
    (if n = fname then Some (a, es)
     else map_option (\<lambda>(b, es). (b, (n, a) # es)) (take_entry es fname))"

definition remove_from_file_table :: "string \<Rightarrow> fs_state \<Rightarrow> (bool \<times> fs_state) option" where
  "remove_from_file_table fname s =
    (case take_entry (file_table s) fname of
       None \<Rightarrow> Some (False, s)
     | Some (a, es) \<Rightarrow> do {
         s \<leftarrow> file_close (Some a) s;
         Some (True, s\<lparr>file_table := es\<rparr>) })"

fun free_entries :: "(string \<times> nat) list \<Rightarrow> fs_state \<Rightarrow> fs_state option" where
  "free_entries [] s = Some s"
| "free_entries ((n, a) # es) s = do {
     s \<leftarrow> file_close (Some a) (s\<lparr>file_table := es\<rparr>);
     free_entries es s }"

definition free_file_table :: "fs_state \<Rightarrow> fs_state option" where
  "free_file_table s = free_entries (file_table s) s"

section \<open>The free map file\<close>

definition bitmap_read :: "nat \<Rightarrow> fs_state \<Rightarrow> (bool \<times> fs_state) option" where
  "bitmap_read a s =
    (let b = free_map s in
     if bit_cnt b > 0 then do {
       let sz = int (byte_cnt (bit_cnt b));
       (bs, s) \<leftarrow> file_read_at a sz 0 s;
       b \<leftarrow> bitmap_load b bs;
       Some (int (length bs) = sz, s\<lparr>free_map := b\<rparr>) }
     else Some (True, s))"

definition free_map_open :: "fs_state \<Rightarrow> fs_state option" where
  "free_map_open s = do {
     (p, s) \<leftarrow> inode_open FREE_MAP_SECTOR s;
     (a, s) \<leftarrow> file_open (Some p) s;
     let s = s\<lparr>free_map_file := a\<rparr>;
     a \<leftarrow> a;
     (ok, s) \<leftarrow> bitmap_read a s;
     Some (if ok then s else s\<lparr>panics := panics s + 1\<rparr>) }"

definition free_map_close :: "fs_state \<Rightarrow> fs_state option" where
  "free_map_close s = file_close (free_map_file s) s"

definition free_map_create :: "fs_state \<Rightarrow> fs_state option" where
  "free_map_create s = do {
     (ok, s) \<leftarrow> inode_create FREE_MAP_SECTOR (int (bitmap_file_size (free_map s))) False s;
     let s = (if ok then s else s\<lparr>panics := panics s + 1\<rparr>);
     (p, s) \<leftarrow> inode_open FREE_MAP_SECTOR s;
     (a, s) \<leftarrow> file_open (Some p) s;
     let s = s\<lparr>free_map_file := a\<rparr>;
     (ok, s) \<leftarrow> free_map_write s;
     Some (if ok then s else s\<lparr>panics := panics s + 1\<rparr>) }"

section \<open>Lemmas\<close>

text \<open>A file object on an inode whose data is all on valid sectors.\<close>

definition file_ok :: "nat \<Rightarrow> file_t \<Rightarrow> inode \<Rightarrow> fs_state \<Rightarrow> bool" where
  "file_ok a f i s \<longleftrightarrow> files s a = Some f \<and> inodes s (file_inode f) = Some i \<and> cache_inv s \<and>
     inode_wf (cache_valid s) (cache_content s) (idata i) \<and> 0 \<le> file_pos f"

abbreviation bytes_of :: "inode \<Rightarrow> fs_state \<Rightarrow> u8 list" where
  "bytes_of i s \<equiv> file_bytes (cache_content s) (idata i)"

lemma file_read_ok:
  assumes "file_ok a f i s"
  shows "\<exists>t. file_read a n s = Some (take (nat n) (drop (nat (file_pos f)) (bytes_of i s)), t) \<and>
    file_ok a (f\<lparr>file_pos := file_pos f + int (length (take (nat n) (drop (nat (file_pos f)) (bytes_of i s))))\<rparr>) i t \<and>
    bytes_of i t = bytes_of i s"
proof -
  let ?xs = "take (nat n) (drop (nat (file_pos f)) (bytes_of i s))"
  note a = assms [unfolded file_ok_def]
  obtain u where u: "inode_read_at (file_inode f) n (file_pos f) s = Some (?xs, u)" "same_sectors s u"
    using inode_read_at_ok [of s "file_inode f" i "file_pos f" n] a by blast
  note m = more_fields [OF same_sectorsD(4) [OF u(2)]]
  note fu = same_sectors_file [OF u(2), of "idata i"]
  show ?thesis
    using a u(1) m(1,3) fu same_sectorsD(1) [OF u(2)]
    by (simp add: file_read_def file_ok_def)
qed

lemma segment_append:
  "take n (drop i xs) @ take m (drop (i + length (take n (drop i xs))) xs) = take (n + m) (drop i xs)"
proof (cases "i + n \<le> length xs")
  case True
  then show ?thesis by (simp only: take_add) (simp add: add.commute)
next
  case False
  then show ?thesis by simp
qed

lemma take_entry_None: "take_entry es fname = None \<longleftrightarrow> fname \<notin> fst ` set es"
  by (induction es fname rule: take_entry.induct) auto

lemma take_entry_Some:
  "take_entry es fname = Some (a, es') \<Longrightarrow> distinct (map fst es) \<Longrightarrow>
     map_of es fname = Some a \<and> distinct (map fst es') \<and> fst ` set es' \<subseteq> fst ` set es \<and>
     (\<forall>m. map_of es' m = (if m = fname then None else map_of es m))"
proof (induction es fname arbitrary: es' rule: take_entry.induct)
  case (2 n b es fname)
  show ?case
  proof (cases "n = fname")
    case True
    with 2(2,3) show ?thesis by (auto simp: map_of_eq_None_iff)
  next
    case False
    with 2(2) obtain es'' where es'': "take_entry es fname = Some (a, es'')" "es' = (n, b) # es''" by auto
    with 2(1) [OF False es''(1)] 2(3) False show ?thesis by auto
  qed
qed simp

section \<open>Properties\<close>

text \<open>
  Consecutive reads see consecutive parts of the file. Two calls of \<open>file_read\<close> return
  together what one read of both sizes from the old position gives, also at the end of the
  file, and the position ends behind the last byte returned.
\<close>

theorem file_read_sequential:
  assumes "file_ok a f i s" and "0 \<le> n" and "0 \<le> m"
  shows "\<exists>xs ys s1 s2. file_read a n s = Some (xs, s1) \<and> file_read a m s1 = Some (ys, s2) \<and>
    xs @ ys = take (nat (n + m)) (drop (nat (file_pos f)) (bytes_of i s)) \<and>
    file_tell a s2 = Some (file_pos f + int (length (xs @ ys)))"
proof -
  let ?xs = "take (nat n) (drop (nat (file_pos f)) (bytes_of i s))"
  let ?f1 = "f\<lparr>file_pos := file_pos f + int (length ?xs)\<rparr>"
  obtain s1 where s1: "file_read a n s = Some (?xs, s1)" "file_ok a ?f1 i s1" "bytes_of i s1 = bytes_of i s"
    using file_read_ok [OF assms(1)] by blast
  let ?ys = "take (nat m) (drop (nat (file_pos ?f1)) (bytes_of i s1))"
  obtain s2 where s2: "file_read a m s1 = Some (?ys, s2)"
      "file_ok a (?f1\<lparr>file_pos := file_pos ?f1 + int (length ?ys)\<rparr>) i s2"
    using file_read_ok [OF s1(2)] by blast
  have "0 \<le> file_pos f" using assms(1) by (simp add: file_ok_def)
  then have "nat (file_pos ?f1) = nat (file_pos f) + length ?xs" by (simp add: nat_add_distrib)
  then have "?xs @ ?ys = take (nat n + nat m) (drop (nat (file_pos f)) (bytes_of i s))"
    unfolding s1(3) by (simp only: segment_append)
  also have "nat n + nat m = nat (n + m)" using assms(2,3) by simp
  finally have cat: "?xs @ ?ys = take (nat (n + m)) (drop (nat (file_pos f)) (bytes_of i s))" .
  have "file_tell a s2 = Some (file_pos ?f1 + int (length ?ys))"
    using s2(2) by (simp add: file_ok_def file_tell_def)
  also have "file_pos ?f1 + int (length ?ys) = file_pos f + int (length (?xs @ ?ys))"
    by (simp only: length_append) simp
  finally show ?thesis using s1(1) s2(1) cat by blast
qed

definition demo_files :: fs_state where
  "demo_files = demo_open\<lparr>files := (files demo_open)(6 \<mapsto>
     \<lparr>file_inode = 5, file_pos = 590, deny_write = False\<rparr>), file_table := [(''a'', 6), (''b'', 9)]\<rparr>"

definition demo_file_obj :: file_t where
  "demo_file_obj = \<lparr>file_inode = 5, file_pos = 590, deny_write = False\<rparr>"

definition demo_file_inode :: inode where
  "demo_file_inode = \<lparr>sector_no = 3, open_cnt = 1, removed = False, deny_write_cnt = 0, idata = demo_inode\<rparr>"

lemma demo_files_ok: "file_ok 6 demo_file_obj demo_file_inode demo_files"
    "bytes_of demo_file_inode demo_files = replicate 600 7"
  using demo_inode_wf(1) demo_file
  by (simp_all add: file_ok_def demo_files_def demo_file_obj_def demo_file_inode_def demo_open_cache
      demo_open_fields)

theorem file_read_sequential_witness:
  "\<exists>s1 s2 xs ys. file_read 6 4 demo_files = Some (xs, s1) \<and> file_read 6 20 s1 = Some (ys, s2) \<and>
     xs @ ys = replicate 10 7 \<and> file_tell 6 s2 = Some 600"
  using file_read_sequential [OF demo_files_ok(1), of 4 20]
  by (fastforce simp: demo_files_ok(2) demo_file_obj_def)

text \<open>
  What \<open>file_write\<close> does inside a file: it stores the bytes with the last one replaced by
  a null character, in the caller's buffer too, and moves the position by the number of
  bytes less two, so that the next write starts on the last but one byte of this one.
\<close>

theorem file_write_position:
  assumes "file_ok a f i s" and "blocks_distinct (cache_content s) (idata i)"
    and "deny_write_cnt i = 0" and "0 < sz" and "nat sz \<le> length buf" and "file_pos f + sz \<le> data_length (idata i)"
  shows "\<exists>t. file_write a buf sz s = Some ((sz, buf[nat (sz - 1) := 0]), t) \<and>
    file_tell a t = Some (file_pos f + sz - 2) \<and>
    bytes_of i t = overwrite (bytes_of i s) (nat (file_pos f)) (take (nat (sz - 1)) buf @ [0])"
proof -
  let ?buf = "buf[nat (sz - 1) := 0]"
  note a = assms(1) [unfolded file_ok_def]
  obtain t where t: "inode_write_at (file_inode f) ?buf sz (file_pos f) s = Some (sz, t)" "data_written s (idata i) t"
      "bytes_of i t = overwrite (bytes_of i s) (nat (file_pos f)) (take (nat sz) ?buf)"
    using inode_write_at_ok [of s "file_inode f" i "file_pos f" sz ?buf] a assms(2-6) by auto
  have m: "files t = files s" using t(2) by (intro more_fields) (simp add: data_written_def)
  have "nat sz = Suc (nat (sz - 1))" using assms(4) by simp
  then have "take (nat sz) ?buf = take (nat (sz - 1)) buf @ [0]"
    using assms(5) by (simp add: take_Suc_conv_app_nth)
  then show ?thesis using a assms(4,5) t(1,3) m by (simp add: file_write_def file_tell_def)
qed

theorem file_write_position_witness:
  "\<exists>t. file_write 6 [65, 66, 67, 68] 3 demo_files = Some ((3, [65, 66, 0, 68]), t) \<and> file_tell 6 t = Some 591"
proof -
  have "[65, 66, 67, 68][nat (3 - 1) := 0] = [65, 66, 0, 68::u8]" by code_simp
  then show ?thesis
    using file_write_position [OF demo_files_ok(1), of 3 "[65, 66, 67, 68]"] demo_inode_wf(2) demo_inode_ok(3)
    by (auto simp: demo_file_inode_def demo_file_obj_def)
qed

text \<open>
  The file table is a map from names to files. Adding a name leaves an entry with that
  name alone and otherwise makes it the one that is found; removing a name removes it; both
  keep all other names and never store a name twice.
\<close>

theorem file_table_map:
  assumes "distinct (map fst (file_table s))"
  shows "get_file_by_fname m (add_to_file_table a fname s) =
      (if m = fname \<and> get_file_by_fname m s = None then Some a else get_file_by_fname m s) \<and>
    distinct (map fst (file_table (add_to_file_table a fname s))) \<and>
    (case remove_from_file_table fname s of
       None \<Rightarrow> True
     | Some (found, t) \<Rightarrow> found = (get_file_by_fname fname s \<noteq> None) \<and>
         get_file_by_fname m t = (if m = fname then None else get_file_by_fname m s) \<and>
         distinct (map fst (file_table t)))"
proof -
  have add: "get_file_by_fname m (add_to_file_table a fname s) =
      (if m = fname \<and> get_file_by_fname m s = None then Some a else get_file_by_fname m s) \<and>
    distinct (map fst (file_table (add_to_file_table a fname s)))"
    using assms by (auto simp: add_to_file_table_def get_file_by_fname_def map_add_def map_of_eq_None_iff eq_commute [of None] split: option.splits)
  have "found = (get_file_by_fname fname s \<noteq> None) \<and>
         get_file_by_fname m t = (if m = fname then None else get_file_by_fname m s) \<and>
         distinct (map fst (file_table t))"
    if r: "remove_from_file_table fname s = Some (found, t)" for found t
  proof (cases "take_entry (file_table s) fname")
    case None
    with r assms show ?thesis
      by (auto simp: remove_from_file_table_def get_file_by_fname_def take_entry_None map_of_eq_None_iff)
  next
    case (Some p)
    then obtain b es where e: "take_entry (file_table s) fname = Some (b, es)" by (cases p) auto
    with r obtain u where "found" "t = u\<lparr>file_table := es\<rparr>"
      by (auto simp: remove_from_file_table_def elim!: bind_SomeE)
    with take_entry_Some [OF e assms] show ?thesis by (simp add: get_file_by_fname_def)
  qed
  with add show ?thesis by (auto split: option.split)
qed

theorem file_table_map_witness:
  "get_file_by_fname ''c'' (add_to_file_table 7 ''c'' demo_files) = Some 7 \<and>
   get_file_by_fname ''a'' (add_to_file_table 7 ''a'' demo_files) = Some 6"
  using file_table_map [of demo_files "''c''" 7 "''c''"] file_table_map [of demo_files "''a''" 7 "''a''"]
  by (simp add: demo_files_def get_file_by_fname_def)

end
