(* ===== verification/Fs_Dir.thy ===== *)
theory Fs_Dir
  imports Fs_File
begin

text \<open>
  Directories: \<open>fs/directory.c\<close>. A directory is a file of entries of 36 bytes, the sector of
  an inode, a name in 31 bytes and a byte that tells whether the entry is in use. The entry
  at offset 0 is for the parent directory.

  Open directories live in the map \<open>dirs\<close>, and \<open>cwd\<close> is the global variable of this name.
  Names are strings; the bytes of a name on disk end with the first null byte. The loops
  over the entries of a directory differ only in the test that ends them: \<open>scan_entries\<close>.
\<close>

abbreviation NAME_MAX :: nat where "NAME_MAX \<equiv> 30"

abbreviation ENTRY_SIZE :: nat where "ENTRY_SIZE \<equiv> 36"

section \<open>Entries\<close>

record dir_entry =
  entry_sector :: u32
  entry_name :: "u8 list"
  in_use :: bool

definition put_entry :: "dir_entry \<Rightarrow> u8 list" where
  "put_entry e = le_bytes 4 (entry_sector e) @ entry_name e @ [if in_use e then 1 else 0]"

definition get_entry :: "u8 list \<Rightarrow> dir_entry" where
  "get_entry bs = \<lparr>entry_sector = le_word (take 4 bs), entry_name = take (NAME_MAX + 1) (drop 4 bs),
     in_use = (bs ! 35 \<noteq> 0)\<rparr>"

definition char_byte :: "char \<Rightarrow> u8" where "char_byte c = of_nat (of_char c)"

definition byte_char :: "u8 \<Rightarrow> char" where "byte_char b = char_of (unat b)"

text \<open>\<open>strncpy\<close> into an array of \<open>n\<close> bytes, and the string in such an array.\<close>

definition name_bytes :: "nat \<Rightarrow> string \<Rightarrow> u8 list" where
  "name_bytes n name = take n (map char_byte name @ replicate n 0)"

definition bytes_name :: "u8 list \<Rightarrow> string" where
  "bytes_name bs = map byte_char (takeWhile (\<lambda>b. b \<noteq> 0) bs)"

text \<open>\<open>strcmp (name, e.name)\<close>; a name that is not terminated has no defined comparison.\<close>

definition name_is :: "string \<Rightarrow> dir_entry \<Rightarrow> bool option" where
  "name_is name e = (if 0 \<in> set (entry_name e) then Some (bytes_name (entry_name e) = name) else None)"

definition read_entry :: "nat \<Rightarrow> int \<Rightarrow> fs_state \<Rightarrow> (dir_entry option \<times> fs_state) option" where
  "read_entry p ofs s = do {
     (bs, s) \<leftarrow> inode_read_at p (int ENTRY_SIZE) ofs s;
     Some (if length bs = ENTRY_SIZE then Some (get_entry bs) else None, s) }"

text \<open>
  The loop \<open>for (...; inode_read_at (...) == sizeof e; ofs += sizeof e)\<close>. It stops at the
  first entry that passes the test, or at the end of the file; the offset is that of the
  entry, or of the end. A directory has fewer entries than bytes, so the loop ends within
  the bound \<open>entry_fuel\<close>.
\<close>

fun scan_entries ::
  "nat \<Rightarrow> (dir_entry \<Rightarrow> bool option) \<Rightarrow> nat \<Rightarrow> int \<Rightarrow> fs_state \<Rightarrow> ((dir_entry option \<times> int) \<times> fs_state) option" where
  "scan_entries 0 test p ofs s = None"
| "scan_entries (Suc n) test p ofs s = do {
     (r, s) \<leftarrow> read_entry p ofs s;
     case r of
       None \<Rightarrow> Some ((None, ofs), s)
     | Some e \<Rightarrow> do {
         stop \<leftarrow> test e;
         if stop then Some ((Some e, ofs), s) else scan_entries n test p (ofs + int ENTRY_SIZE) s } }"

definition entry_fuel :: "nat \<Rightarrow> fs_state \<Rightarrow> nat" where
  "entry_fuel p s = (case inodes s p of None \<Rightarrow> 0 | Some i \<Rightarrow> Suc (nat (data_length (idata i))))"

section \<open>Paths\<close>

text \<open>The tokens \<open>strtok_r\<close> finds between slashes.\<close>

abbreviation slash :: char where "slash \<equiv> CHR ''/''"

function path_tokens :: "string \<Rightarrow> string list" where
  "path_tokens cs =
    (let rest = dropWhile (\<lambda>c. c = slash) cs in
     if rest = [] then []
     else takeWhile (\<lambda>c. c \<noteq> slash) rest # path_tokens (dropWhile (\<lambda>c. c \<noteq> slash) rest))"
  by pat_completeness auto
termination
proof (relation "measure length", goal_cases)
  case (2 cs rest)
  from 2(2) obtain c r where r: "rest = c # r" by (cases rest) simp_all
  have "c \<noteq> slash"
    using hd_dropWhile [of "\<lambda>c. c = slash" cs] unfolding 2(1) [symmetric] r by simp
  have "length (dropWhile (\<lambda>c. c \<noteq> slash) r) \<le> length r" by (rule length_dropWhile_le)
  moreover have "length rest \<le> length cs" using 2 by (simp add: length_dropWhile_le)
  ultimately show ?case using r \<open>c \<noteq> slash\<close> by simp
qed simp

declare path_tokens.simps [simp del]

fun split_tokens :: "string list \<Rightarrow> string \<Rightarrow> string \<Rightarrow> string \<times> string" where
  "split_tokens [] dir last_token = (dir, last_token)"
| "split_tokens (token # ts) dir last_token =
    split_tokens ts (if length last_token > 0 then dir @ last_token @ [slash] else dir) token"

definition split_path_filename :: "string \<Rightarrow> string \<times> string" where
  "split_path_filename path =
    split_tokens (path_tokens path) (if path \<noteq> [] \<and> hd path = slash then [slash] else []) []"

section \<open>Opening and closing directories\<close>

definition dir_open :: "nat option \<Rightarrow> fs_state \<Rightarrow> (nat option \<times> fs_state) option" where
  "dir_open q s =
    (case q of
       None \<Rightarrow> do { s \<leftarrow> inode_close None s; Some (None, s) }
     | Some p \<Rightarrow>
         let a = next_addr s in
         Some (Some a, s\<lparr>next_addr := Suc a,
           dirs := (dirs s)(a \<mapsto> \<lparr>dir_inode = p, dir_pos = int ENTRY_SIZE, dir_open_cnt = 1\<rparr>)\<rparr>))"

definition dir_close :: "nat option \<Rightarrow> fs_state \<Rightarrow> fs_state option" where
  "dir_close q s =
    (case q of
       None \<Rightarrow> Some s
     | Some a \<Rightarrow> do {
         d \<leftarrow> dirs s a;
         let d = d\<lparr>dir_open_cnt := dir_open_cnt d - 1\<rparr>;
         let s = s\<lparr>dirs := (dirs s)(a \<mapsto> d)\<rparr>;
         if dir_open_cnt d = 0 then do {
           s \<leftarrow> inode_close (Some (dir_inode d)) s;
           Some (s\<lparr>dirs := (dirs s)(a := None), cwd := None\<rparr>) }
         else Some s })"

definition dir_get_inode :: "nat \<Rightarrow> fs_state \<Rightarrow> nat option" where
  "dir_get_inode a s = map_option dir_inode (dirs s a)"

definition dir_create :: "u32 \<Rightarrow> nat \<Rightarrow> fs_state \<Rightarrow> (bool \<times> fs_state) option" where
  "dir_create sector entry_cnt s = do {
     guard_opt (offset_ok (int (entry_cnt * ENTRY_SIZE)));
     (ok, s) \<leftarrow> inode_create sector (int (entry_cnt * ENTRY_SIZE)) True s;
     if \<not> ok then Some (False, s)
     else do {
       (p, s) \<leftarrow> inode_open sector s;
       (d, s) \<leftarrow> dir_open (Some p) s;
       let s = (if d \<noteq> None then s else s\<lparr>panics := panics s + 1\<rparr>);
       a \<leftarrow> d;
       p \<leftarrow> dir_get_inode a s;
       let e = \<lparr>entry_sector = sector, entry_name = replicate (NAME_MAX + 1) 0, in_use = True\<rparr>;
       (n, s) \<leftarrow> inode_write_at p (put_entry e) (int ENTRY_SIZE) 0 s;
       s \<leftarrow> dir_close d s;
       Some (n = int ENTRY_SIZE, s) } }"

definition dir_open_root :: "fs_state \<Rightarrow> (nat option \<times> fs_state) option" where
  "dir_open_root s =
    (case cwd s of
       None \<Rightarrow> do {
         (p, s) \<leftarrow> inode_open ROOT_DIR_SECTOR s;
         (d, s) \<leftarrow> dir_open (Some p) s;
         Some (d, s\<lparr>cwd := d\<rparr>) }
     | Some a \<Rightarrow> do {
         d \<leftarrow> dirs s a;
         Some (Some a, s\<lparr>dirs := (dirs s)(a \<mapsto> d\<lparr>dir_open_cnt := dir_open_cnt d + 1\<rparr>)\<rparr>) })"

definition dir_reopen :: "nat \<Rightarrow> fs_state \<Rightarrow> (nat option \<times> fs_state) option" where
  "dir_reopen a s = do {
     d \<leftarrow> dirs s a;
     let (p, s) = inode_reopen (dir_inode d) s;
     dir_open (Some p) s }"

section \<open>Looking up, adding and removing names\<close>

definition lookup :: "nat \<Rightarrow> string \<Rightarrow> fs_state \<Rightarrow> ((dir_entry \<times> int) option \<times> fs_state) option" where
  "lookup a name s = do {
     p \<leftarrow> dir_get_inode a s;
     ((e, ofs), s) \<leftarrow> scan_entries (entry_fuel p s)
        (\<lambda>e. if in_use e then name_is name e else Some False) p (int ENTRY_SIZE) s;
     Some (map_option (\<lambda>e. (e, ofs)) e, s) }"

definition dir_is_empty :: "nat \<Rightarrow> fs_state \<Rightarrow> (bool \<times> fs_state) option" where
  "dir_is_empty a s = do {
     p \<leftarrow> dir_get_inode a s;
     ((e, ofs), s) \<leftarrow> scan_entries (entry_fuel p s) (\<lambda>e. Some (in_use e)) p (int ENTRY_SIZE) s;
     Some (e = None, s) }"

definition dir_lookup :: "nat \<Rightarrow> string \<Rightarrow> fs_state \<Rightarrow> (nat option \<times> fs_state) option" where
  "dir_lookup a name s =
    (if name = ''.'' then do {
       p \<leftarrow> dir_get_inode a s;
       let (p, s) = inode_reopen p s;
       Some (Some p, s) }
     else if name = ''..'' then do {
       p \<leftarrow> dir_get_inode a s;
       (r, s) \<leftarrow> read_entry p 0 s;
       e \<leftarrow> r;
       (p, s) \<leftarrow> inode_open (entry_sector e) s;
       Some (Some p, s) }
     else do {
       (r, s) \<leftarrow> lookup a name s;
       case r of
         None \<Rightarrow> Some (None, s)
       | Some (e, ofs) \<Rightarrow> do {
           (p, s) \<leftarrow> inode_open (entry_sector e) s;
           Some (Some p, s) } })"

text \<open>
  The loop of \<open>dir_open_path\<close> over the tokens, with \<open>cur\<close> the directory reached so far.
\<close>

fun walk_path :: "string list \<Rightarrow> nat option \<Rightarrow> fs_state \<Rightarrow> (nat option \<times> fs_state) option" where
  "walk_path [] cur s = Some (cur, s)"
| "walk_path (token # ts) cur s = do {
     a \<leftarrow> cur;
     (q, s) \<leftarrow> dir_lookup a token s;
     if q = None then do { s \<leftarrow> dir_close cur s; Some (None, s) }
     else do {
       (nxt, s) \<leftarrow> dir_open q s;
       s \<leftarrow> dir_close cur s;
       if nxt = None then Some (None, s) else walk_path ts nxt s } }"

definition dir_open_path :: "string \<Rightarrow> fs_state \<Rightarrow> (nat option \<times> fs_state) option" where
  "dir_open_path path s = do {
     (cur, s) \<leftarrow> (if path \<noteq> [] \<and> hd path = slash then dir_open_root s
       else case cwd s of None \<Rightarrow> dir_open_root s | Some a \<Rightarrow> dir_reopen a s);
     (cur, s) \<leftarrow> walk_path (path_tokens path) cur s;
     case cur of
       None \<Rightarrow> Some (None, s)
     | Some a \<Rightarrow> do {
         p \<leftarrow> dir_get_inode a s;
         gone \<leftarrow> inode_is_removed p s;
         if gone then do { s \<leftarrow> dir_close cur s; Some (None, s) } else Some (cur, s) } }"

definition dir_add :: "nat \<Rightarrow> string \<Rightarrow> u32 \<Rightarrow> bool \<Rightarrow> fs_state \<Rightarrow> (bool \<times> fs_state) option" where
  "dir_add a name sector dir s =
    (if name = [] \<or> NAME_MAX < length name then Some (False, s)
     else do {
       (r, s) \<leftarrow> lookup a name s;
       if r \<noteq> None then Some (False, s)
       else do {
         p \<leftarrow> dir_get_inode a s;
         (ok, s) \<leftarrow> (if dir then do {
             (c, s) \<leftarrow> inode_open sector s;
             (d, s) \<leftarrow> dir_open (Some c) s;
             parent \<leftarrow> inode_get_inumber p s;
             let e = \<lparr>entry_sector = parent, entry_name = stack_name s, in_use = True\<rparr>;
             (n, s) \<leftarrow> inode_write_at c (put_entry e) (int ENTRY_SIZE) 0 s;
             s \<leftarrow> dir_close d s;
             Some (n = int ENTRY_SIZE, s) } else Some (True, s));
         if \<not> ok then Some (False, s)
         else do {
           ((e, ofs), s) \<leftarrow> scan_entries (entry_fuel p s) (\<lambda>e. Some (\<not> in_use e)) p 0 s;
           let e = \<lparr>entry_sector = sector, entry_name = name_bytes (NAME_MAX + 1) name, in_use = True\<rparr>;
           (n, s) \<leftarrow> inode_write_at p (put_entry e) (int ENTRY_SIZE) ofs s;
           Some (n = int ENTRY_SIZE, s) } } })"

definition dir_remove :: "nat \<Rightarrow> string \<Rightarrow> fs_state \<Rightarrow> (bool \<times> fs_state) option" where
  "dir_remove a name s = do {
     (r, s) \<leftarrow> lookup a name s;
     case r of
       None \<Rightarrow> do { s \<leftarrow> inode_close None s; Some (False, s) }
     | Some (e, ofs) \<Rightarrow> do {
         (q, s) \<leftarrow> inode_open (entry_sector e) s;
         dir \<leftarrow> inode_is_directory q s;
         (ok, s) \<leftarrow> (if dir then do {
             (d, s) \<leftarrow> dir_open (Some q) s;
             t \<leftarrow> d;
             (empty, s) \<leftarrow> dir_is_empty t s;
             s \<leftarrow> dir_close d s;
             Some (empty, s) } else Some (True, s));
         if \<not> ok then do { s \<leftarrow> inode_close (Some q) s; Some (False, s) }
         else do {
           p \<leftarrow> dir_get_inode a s;
           (n, s) \<leftarrow> inode_write_at p (put_entry (e\<lparr>in_use := False\<rparr>)) (int ENTRY_SIZE) ofs s;
           if n \<noteq> int ENTRY_SIZE then do { s \<leftarrow> inode_close (Some q) s; Some (False, s) }
           else do {
             s \<leftarrow> inode_remove q s;
             s \<leftarrow> inode_close (Some q) s;
             Some (True, s) } } } }"

text \<open>
  The two functions that read the next entry of an open directory. The name is the content
  of an array of 31 bytes; \<open>c_string\<close> is the string in such an array, if it is terminated.
\<close>

definition c_string :: "u8 list \<Rightarrow> string option" where
  "c_string bs = (if 0 \<in> set bs then Some (bytes_name bs) else None)"

definition next_entry :: "nat \<Rightarrow> fs_state \<Rightarrow> (dir_entry option \<times> fs_state) option" where
  "next_entry a s = do {
     d \<leftarrow> dirs s a;
     ((e, ofs), s) \<leftarrow> scan_entries (entry_fuel (dir_inode d) s) (\<lambda>e. Some (in_use e)) (dir_inode d) (dir_pos d) s;
     let pos = (if e = None then ofs else ofs + int ENTRY_SIZE);
     Some (e, s\<lparr>dirs := (dirs s)(a \<mapsto> d\<lparr>dir_pos := pos\<rparr>)\<rparr>) }"

definition dir_readdir :: "nat \<Rightarrow> fs_state \<Rightarrow> (u8 list option \<times> fs_state) option" where
  "dir_readdir a s = do {
     (e, s) \<leftarrow> next_entry a s;
     Some (map_option entry_name e, s) }"

definition dir_readdir_inode :: "nat \<Rightarrow> fs_state \<Rightarrow> ((u32 \<times> u8 list option) \<times> fs_state) option" where
  "dir_readdir_inode a s = do {
     (e, s) \<leftarrow> next_entry a s;
     Some (case e of None \<Rightarrow> (- 1, None) | Some e \<Rightarrow> (entry_sector e, Some (entry_name e)), s) }"

section \<open>Splitting paths\<close>

text \<open>A name between slashes, and a path made of names.\<close>

definition path_name :: "string \<Rightarrow> bool" where
  "path_name t \<longleftrightarrow> t \<noteq> [] \<and> slash \<notin> set t"

definition join_path :: "string list \<Rightarrow> string" where
  "join_path ts = concat (map (\<lambda>t. t @ [slash]) ts)"

lemma join_path_simps [simp]:
  "join_path [] = []" "join_path (t # ts) = t @ slash # join_path ts" "join_path (xs @ ys) = join_path xs @ join_path ys"
  by (simp_all add: join_path_def)

lemma path_tokens_slash [simp]: "path_tokens (slash # cs) = path_tokens cs"
  by (subst (1 2) path_tokens.simps) (simp add: Let_def)

lemma path_tokens_Nil [simp]: "path_tokens [] = []"
  by (subst path_tokens.simps) simp

lemma path_tokens_name:
  assumes "path_name t"
  shows "path_tokens (t @ slash # cs) = t # path_tokens cs" and "path_tokens t = [t]"
proof -
  have t: "t \<noteq> []" "hd t \<noteq> slash" "\<forall>c \<in> set t. c \<noteq> slash"
    using assms by (cases t; auto simp: path_name_def)+
  have d: "dropWhile (\<lambda>c. c = slash) (t @ ys) = t @ ys" for ys using t by (cases t) simp_all
  have w: "takeWhile (\<lambda>c. c \<noteq> slash) t = t" "dropWhile (\<lambda>c. c \<noteq> slash) t = []"
    using t(3) by simp_all
  show "path_tokens (t @ slash # cs) = t # path_tokens cs"
    using t(1,3) by (subst path_tokens.simps) (simp add: Let_def d)
  show "path_tokens t = [t]"
    using t(1) d [of "[]"] by (subst path_tokens.simps) (simp add: Let_def w del: dropWhile_eq_Nil_conv takeWhile_eq_all_conv)
qed

lemma path_tokens_join:
  "\<forall>t \<in> set ts. path_name t \<Longrightarrow> path_tokens (join_path ts @ cs) = ts @ path_tokens cs"
  by (induction ts) (simp_all add: path_tokens_name(1))

lemma path_tokens_names: "\<forall>t \<in> set (path_tokens cs). path_name t"
proof (induction cs rule: path_tokens.induct)
  case (1 cs)
  define rest where "rest = dropWhile (\<lambda>c. c = slash) cs"
  show ?case
  proof (cases "rest = []")
    case True
    then show ?thesis by (subst path_tokens.simps) (simp add: rest_def)
  next
    case False
    then have "hd rest \<noteq> slash" unfolding rest_def by (rule hd_dropWhile)
    with False have "path_name (takeWhile (\<lambda>c. c \<noteq> slash) rest)"
      by (cases rest) (auto simp: path_name_def dest: set_takeWhileD)
    with 1 False show ?thesis
      by (subst path_tokens.simps) (simp add: Let_def flip: rest_def)
  qed
qed

text \<open>The tokens take no more room than the path.\<close>

lemma path_tokens_length:
  "length (join_path (path_tokens cs)) + (if cs \<noteq> [] \<and> hd cs = slash then 1 else 0) \<le> length cs + 1"
proof (induction cs rule: path_tokens.induct)
  case (1 cs)
  define rest where "rest = dropWhile (\<lambda>c. c = slash) cs"
  have r: "length rest + (if cs \<noteq> [] \<and> hd cs = slash then 1 else 0) \<le> length cs"
    using length_dropWhile_le [of "\<lambda>c. c = slash" "tl cs"] by (cases cs) (auto simp: rest_def)
  show ?case
  proof (cases "rest = []")
    case True
    with r show ?thesis by (subst path_tokens.simps) (simp add: rest_def)
  next
    case False
    define w where "w = takeWhile (\<lambda>c. c \<noteq> slash) rest"
    define z where "z = dropWhile (\<lambda>c. c \<noteq> slash) rest"
    have z: "z \<noteq> [] \<Longrightarrow> hd z = slash" unfolding z_def using hd_dropWhile by blast
    have "length w + length z = length rest"
      unfolding w_def z_def by (metis length_append takeWhile_dropWhile_id)
    moreover have "length (join_path (path_tokens z)) + (if z \<noteq> [] \<and> hd z = slash then 1 else 0) \<le> length z + 1"
      using 1 [OF rest_def False] unfolding z_def .
    moreover have "path_tokens cs = w # path_tokens z"
      using False by (subst path_tokens.simps) (simp add: Let_def w_def z_def flip: rest_def)
    moreover have "z = [] \<Longrightarrow> length (join_path (path_tokens z)) = 0" by simp
    ultimately show ?thesis using r z by (cases "z = []") auto
  qed
qed

lemma split_tokens_names:
  "\<forall>t \<in> set ts. path_name t \<Longrightarrow> ts \<noteq> [] \<Longrightarrow>
    split_tokens ts dir last_token = (dir @ (if last_token = [] then [] else last_token @ [slash]) @ join_path (butlast ts), last ts)"
proof (induction ts arbitrary: dir last_token)
  case (Cons t ts)
  have t: "t \<noteq> []" using Cons.prems(1) by (simp add: path_name_def)
  show ?case
  proof (cases "ts = []")
    case False
    with Cons.IH [of "if last_token = [] then dir else dir @ last_token @ [slash]" t] Cons.prems(1) t
    show ?thesis by (cases "last_token = []") simp_all
  qed simp
qed simp

text \<open>
  For a plain name the second part is the name itself: with its null character it is one byte longer
  than the path.
\<close>

lemma split_path_plain: "path_name path \<Longrightarrow> split_path_filename path = ([], path)"
  by (cases path) (auto simp: split_path_filename_def path_tokens_name(2), auto simp: path_name_def)

section \<open>A directory as a list of entries\<close>

lemma char_byte_char [simp]: "byte_char (char_byte c) = c"
  by (simp add: byte_char_def char_byte_def unat_of_nat take_bit_eq_mod)

lemma char_byte_0: "char_byte c = 0 \<longleftrightarrow> c = CHR 0x00"
proof -
  have "char_byte (CHR 0x00) = 0" by (simp add: char_byte_def)
  then show ?thesis by (metis char_byte_char)
qed

lemma length_put_entry: "length (entry_name e) = 31 \<Longrightarrow> length (put_entry e) = ENTRY_SIZE"
  by (simp add: put_entry_def)

lemma get_put_entry:
  assumes "length (entry_name e) = 31"
  shows "get_entry (put_entry e) = e"
proof -
  have "take 4 (put_entry e) = le_bytes 4 (entry_sector e)" "drop 4 (put_entry e) = entry_name e @ [if in_use e then 1 else 0]"
    by (simp_all add: put_entry_def)
  moreover have "put_entry e ! 35 = (if in_use e then 1 else 0)"
    using assms by (simp add: put_entry_def nth_append)
  moreover have "le_word (le_bytes 4 (entry_sector e)) = entry_sector e" by (rule le_word_bytes) simp
  ultimately show ?thesis using assms by (simp add: get_entry_def)
qed

lemma name_bytes_ok:
  assumes "length name \<le> NAME_MAX" and "CHR 0x00 \<notin> set name"
  shows "length (name_bytes 31 name) = 31" and "0 \<in> set (name_bytes 31 name)"
    and "bytes_name (name_bytes 31 name) = name"
proof -
  have n: "name_bytes 31 name = map char_byte name @ replicate (31 - length name) 0"
    using assms(1) by (simp add: name_bytes_def)
  show "length (name_bytes 31 name) = 31" "0 \<in> set (name_bytes 31 name)" using assms(1) by (simp_all add: n)
  have "takeWhile (\<lambda>b. b \<noteq> 0) (map char_byte name @ replicate (31 - length name) 0) = map char_byte name"
    using assms(2) by (subst takeWhile_append2) (auto simp: char_byte_0 takeWhile_replicate)
  then show "bytes_name (name_bytes 31 name) = name" by (simp add: bytes_name_def n comp_def)
qed

definition entry_at :: "u8 list \<Rightarrow> nat \<Rightarrow> dir_entry" where
  "entry_at bs k = get_entry (take ENTRY_SIZE (drop (ENTRY_SIZE * k) bs))"

definition entries_of :: "u8 list \<Rightarrow> dir_entry list" where
  "entries_of bs = map (entry_at bs) [0..<length bs div ENTRY_SIZE]"

lemma length_entries_of [simp]: "length (entries_of bs) = length bs div ENTRY_SIZE"
  by (simp add: entries_of_def)

lemma nth_entries_of [simp]: "k < length bs div ENTRY_SIZE \<Longrightarrow> entries_of bs ! k = entry_at bs k"
  by (simp add: entries_of_def)

lemma entry_at_name: "k < length bs div ENTRY_SIZE \<Longrightarrow> length (entry_name (entry_at bs k)) = 31"
  by (simp add: entry_at_def get_entry_def)

lemma entry_inside: "k < n div ENTRY_SIZE \<longleftrightarrow> ENTRY_SIZE * k + ENTRY_SIZE \<le> n"
  using less_eq_div_iff_mult_less_eq [of ENTRY_SIZE "Suc k" n] by (simp add: Suc_le_eq algebra_simps)

text \<open>Writing one entry.\<close>

lemma entries_of_overwrite:
  assumes "k < length bs div ENTRY_SIZE" and "length (entry_name e) = 31"
  shows "entries_of (overwrite bs (ENTRY_SIZE * k) (put_entry e)) = (entries_of bs)[k := e]"
proof (rule nth_equalityI)
  let ?o = "overwrite bs (ENTRY_SIZE * k) (put_entry e)"
  have len: "length (put_entry e) = ENTRY_SIZE" by (rule length_put_entry [OF assms(2)])
  have k: "ENTRY_SIZE * k + ENTRY_SIZE \<le> length bs" using assms(1) by (simp only: entry_inside)
  then have lo: "length ?o = length bs" using len by simp
  then show "length (entries_of ?o) = length ((entries_of bs)[k := e])" by simp
  fix j assume "j < length (entries_of ?o)"
  then have j: "j < length bs div ENTRY_SIZE" using lo by simp
  have jb: "ENTRY_SIZE * j + ENTRY_SIZE \<le> length bs" using j by (simp only: entry_inside)
  consider "j = k" | "j < k" | "k < j" by linarith
  then show "entries_of ?o ! j = (entries_of bs)[k := e] ! j"
  proof cases
    case 1
    have "take ENTRY_SIZE (drop (ENTRY_SIZE * k) ?o) = put_entry e"
      using k len lo by (intro nth_equalityI) (simp_all add: nth_overwrite)
    then show ?thesis using 1 j assms lo get_put_entry [OF assms(2)] by (simp add: entry_at_def)
  next
    case 2
    have "take ENTRY_SIZE (drop (ENTRY_SIZE * j) ?o) = take ENTRY_SIZE (drop (ENTRY_SIZE * j) bs)"
      using jb 2 k len lo by (intro nth_equalityI) (simp_all add: nth_overwrite)
    then show ?thesis using 2 j lo by (simp add: entry_at_def)
  next
    case 3
    have "take ENTRY_SIZE (drop (ENTRY_SIZE * j) ?o) = take ENTRY_SIZE (drop (ENTRY_SIZE * j) bs)"
      using jb 3 k len lo by (intro nth_equalityI) (simp_all add: nth_overwrite)
    then show ?thesis using 3 j lo by (simp add: entry_at_def)
  qed
qed

section \<open>Scanning a directory\<close>

text \<open>The first index from \<open>k\<close> on at which a list satisfies a test.\<close>

definition find_from :: "('a \<Rightarrow> bool) \<Rightarrow> 'a list \<Rightarrow> nat \<Rightarrow> nat option" where
  "find_from P xs k = List.find (\<lambda>i. P (xs ! i)) [k..<length xs]"

lemma find_from_step:
  "find_from P xs k =
    (if k < length xs then if P (xs ! k) then Some k else find_from P xs (Suc k) else None)"
  by (simp add: find_from_def upt_rec [of k])

lemma find_from_Some:
  "find_from P xs k = Some j \<longleftrightarrow> k \<le> j \<and> j < length xs \<and> P (xs ! j) \<and> (\<forall>i. k \<le> i \<and> i < j \<longrightarrow> \<not> P (xs ! i))"
proof (induction "length xs - k" arbitrary: k)
  case 0
  then show ?case by (auto simp: find_from_def)
next
  case (Suc n)
  then have IH: "find_from P xs (Suc k) = Some j \<longleftrightarrow>
      Suc k \<le> j \<and> j < length xs \<and> P (xs ! j) \<and> (\<forall>i. Suc k \<le> i \<and> i < j \<longrightarrow> \<not> P (xs ! i))"
    by simp
  show ?case
  proof (cases "P (xs ! k)")
    case True
    then show ?thesis using Suc.hyps(2) by (subst find_from_step) (auto simp: not_less_iff_gr_or_eq)
  next
    case False
    then have "k \<le> i \<and> i < j \<longrightarrow> \<not> P (xs ! i) \<longleftrightarrow> Suc k \<le> i \<and> i < j \<longrightarrow> \<not> P (xs ! i)" for i
      by (cases "i = k") auto
    then have "(\<forall>i. k \<le> i \<and> i < j \<longrightarrow> \<not> P (xs ! i)) \<longleftrightarrow> (\<forall>i. Suc k \<le> i \<and> i < j \<longrightarrow> \<not> P (xs ! i))"
      by (metis Suc_leD False le_antisym not_less_eq_eq)
    with False IH Suc.hyps(2) show ?thesis
      by (subst find_from_step) (auto simp: Suc_le_eq le_eq_less_or_eq)
  qed
qed

lemma find_from_None:
  "find_from P xs k = None \<longleftrightarrow> (\<forall>i. k \<le> i \<and> i < length xs \<longrightarrow> \<not> P (xs ! i))"
  by (auto simp: find_from_def find_None_iff)

text \<open>
  An open inode whose data can be read and written, with its bytes; the state after reading
  is the same to the file layer.
\<close>

definition open_ok :: "nat \<Rightarrow> inode \<Rightarrow> fs_state \<Rightarrow> bool" where
  "open_ok p i s \<longleftrightarrow> inodes s p = Some i \<and> deny_write_cnt i = 0 \<and> cache_inv s \<and>
     inode_wf (cache_valid s) (cache_content s) (idata i) \<and> blocks_distinct (cache_content s) (idata i)"

lemma open_ok_same:
  assumes "open_ok p i s" and "same_sectors s t"
  shows "open_ok p i t" and "bytes_of i t = bytes_of i s"
  using assms same_sectors_file [OF assms(2), of "idata i"] same_sectorsD(1) [OF assms(2)]
    more_fields(1) [OF same_sectorsD(4) [OF assms(2)]]
  by (auto simp: open_ok_def)

lemma open_ok_written:
  assumes "open_ok p i s" and "data_written s (idata i) t"
  shows "open_ok p i t"
  using assms data_written_wf [OF assms(2)] more_fields(1) [of t s] by (auto simp: open_ok_def data_written_def)

lemma read_entry_ok:
  assumes "open_ok p i s"
  shows "\<exists>t. read_entry p (int (ENTRY_SIZE * k)) s =
      Some (if k < length (bytes_of i s) div ENTRY_SIZE then Some (entry_at (bytes_of i s) k) else None, t) \<and>
    same_sectors s t"
proof -
  let ?bs = "bytes_of i s"
  obtain t where t: "inode_read_at p (int ENTRY_SIZE) (int (ENTRY_SIZE * k)) s =
      Some (take ENTRY_SIZE (drop (ENTRY_SIZE * k) ?bs), t)" "same_sectors s t"
    using inode_read_at_ok [of s p i "int (ENTRY_SIZE * k)" "int ENTRY_SIZE"] assms
    by (simp only: nat_int) (auto simp: open_ok_def)
  have "length (take ENTRY_SIZE (drop (ENTRY_SIZE * k) ?bs)) = ENTRY_SIZE \<longleftrightarrow> k < length ?bs div ENTRY_SIZE"
    by (simp only: entry_inside length_take length_drop) linarith
  with t show ?thesis unfolding read_entry_def by (simp add: entry_at_def del: length_take length_drop)
qed

lemma scan_entries_ok:
  assumes "open_ok p i s" and "length (bytes_of i s) div ENTRY_SIZE < n + k"
    and "\<forall>j. k \<le> j \<and> j < length (bytes_of i s) div ENTRY_SIZE \<longrightarrow>
      test (entries_of (bytes_of i s) ! j) = Some (P (entries_of (bytes_of i s) ! j))"
    and "k \<le> length (bytes_of i s) div ENTRY_SIZE"
  shows "\<exists>t. scan_entries n test p (int (ENTRY_SIZE * k)) s =
      Some (case find_from P (entries_of (bytes_of i s)) k of
          Some j \<Rightarrow> (Some (entries_of (bytes_of i s) ! j), int (ENTRY_SIZE * j))
        | None \<Rightarrow> (None, int (ENTRY_SIZE * (length (bytes_of i s) div ENTRY_SIZE))), t) \<and> same_sectors s t"
  using assms
proof (induction n arbitrary: k s)
  case 0
  then show ?case by simp
next
  case (Suc n)
  let ?bs = "bytes_of i s"
  obtain t where t: "read_entry p (int (ENTRY_SIZE * k)) s =
      Some (if k < length ?bs div ENTRY_SIZE then Some (entry_at ?bs k) else None, t)" "same_sectors s t"
    using read_entry_ok [OF Suc.prems(1)] by blast
  note o = open_ok_same [OF Suc.prems(1) t(2)]
  consider "k = length ?bs div ENTRY_SIZE" | "k < length ?bs div ENTRY_SIZE" "P (entries_of ?bs ! k)"
    | "k < length ?bs div ENTRY_SIZE" "\<not> P (entries_of ?bs ! k)" using Suc.prems(4) by linarith
  then show ?case
  proof cases
    case 1
    then have "find_from P (entries_of ?bs) k = None" by (auto simp: find_from_None)
    with 1 t show ?thesis by simp
  next
    case 2
    then have "find_from P (entries_of ?bs) k = Some k" "test (entry_at ?bs k) = Some True"
      using Suc.prems(3) by (auto simp: find_from_Some)
    with 2 t show ?thesis by simp
  next
    case 3
    then have f: "find_from P (entries_of ?bs) k = find_from P (entries_of ?bs) (Suc k)"
      and test: "test (entry_at ?bs k) = Some False"
      using Suc.prems(3) by (auto simp: find_from_step [of P _ k])
    have ofs: "int (ENTRY_SIZE * k) + int ENTRY_SIZE = int (ENTRY_SIZE * Suc k)" by simp
    obtain u where u: "scan_entries n test p (int (ENTRY_SIZE * Suc k)) t =
        Some (case find_from P (entries_of ?bs) (Suc k) of
            Some j \<Rightarrow> (Some (entries_of ?bs ! j), int (ENTRY_SIZE * j))
          | None \<Rightarrow> (None, int (ENTRY_SIZE * (length ?bs div ENTRY_SIZE))), u)" "same_sectors t u"
      using Suc.IH [OF o(1), of "Suc k"] 3 Suc.prems(2,3) unfolding o(2) by auto
    have "scan_entries (Suc n) test p (int (ENTRY_SIZE * k)) s = scan_entries n test p (int (ENTRY_SIZE * Suc k)) t"
      unfolding scan_entries.simps t(1) ofs using 3 test by simp
    with u f same_sectors_trans [OF t(2) u(2)] show ?thesis by auto
  qed
qed

section \<open>A directory as a map from names to sectors\<close>

definition called :: "string \<Rightarrow> dir_entry \<Rightarrow> bool" where
  "called name e \<longleftrightarrow> in_use e \<and> bytes_name (entry_name e) = name"

text \<open>The entry at index 0 is for the parent; the others have terminated names, each used once.\<close>

definition entries_ok :: "dir_entry list \<Rightarrow> bool" where
  "entries_ok es \<longleftrightarrow> es \<noteq> [] \<and> in_use (es ! 0) \<and>
     (\<forall>k. 1 \<le> k \<and> k < length es \<and> in_use (es ! k) \<longrightarrow> 0 \<in> set (entry_name (es ! k))) \<and>
     (\<forall>j k. 1 \<le> j \<and> j < length es \<and> 1 \<le> k \<and> k < length es \<and> in_use (es ! j) \<and>
        called (bytes_name (entry_name (es ! j))) (es ! k) \<longrightarrow> j = k)"

definition names :: "dir_entry list \<Rightarrow> string \<Rightarrow> u32 option" where
  "names es name = map_option (\<lambda>k. entry_sector (es ! k)) (find_from (called name) es 1)"

definition dir_ok :: "nat \<Rightarrow> dir_t \<Rightarrow> inode \<Rightarrow> fs_state \<Rightarrow> bool" where
  "dir_ok a d i s \<longleftrightarrow> dirs s a = Some d \<and> open_ok (dir_inode d) i s \<and> entries_ok (entries_of (bytes_of i s))"

lemma dir_ok_same:
  assumes "dir_ok a d i s" and "same_sectors s t"
  shows "dir_ok a d i t"
  using assms open_ok_same [of "dir_inode d" i s t] more_fields(8) [OF same_sectorsD(4) [OF assms(2)]]
  by (simp add: dir_ok_def)

lemma entries_okD:
  assumes "entries_ok (entries_of bs)"
  shows "1 \<le> length bs div ENTRY_SIZE" and "in_use (entries_of bs ! 0)"
    and "1 \<le> k \<Longrightarrow> k < length bs div ENTRY_SIZE \<Longrightarrow> in_use (entries_of bs ! k) \<Longrightarrow>
      name_is name (entries_of bs ! k) = Some (bytes_name (entry_name (entries_of bs ! k)) = name)"
proof -
  have "entries_of bs \<noteq> []" using assms unfolding entries_ok_def by blast
  then have "length (entries_of bs) \<noteq> 0" by (simp only: length_0_conv not_False_eq_True)
  then show "1 \<le> length bs div ENTRY_SIZE" by simp
  show "in_use (entries_of bs ! 0)" using assms by (simp add: entries_ok_def)
  show "1 \<le> k \<Longrightarrow> k < length bs div ENTRY_SIZE \<Longrightarrow> in_use (entries_of bs ! k) \<Longrightarrow>
      name_is name (entries_of bs ! k) = Some (bytes_name (entry_name (entries_of bs ! k)) = name)"
    using assms by (simp add: entries_ok_def name_is_def)
qed

lemma lookup_ok:
  assumes "dir_ok a d i s"
  shows "\<exists>t. lookup a name s =
      Some (map_option (\<lambda>k. (entries_of (bytes_of i s) ! k, int (ENTRY_SIZE * k)))
              (find_from (called name) (entries_of (bytes_of i s)) 1), t) \<and> same_sectors s t"
proof -
  let ?es = "entries_of (bytes_of i s)" and ?p = "dir_inode d"
  have o: "dirs s a = Some d" "open_ok ?p i s" "entries_ok ?es" using assms by (simp_all add: dir_ok_def)
  have "length (bytes_of i s) div ENTRY_SIZE < entry_fuel ?p s + 1"
    using o(2) div_le_dividend [of "length (bytes_of i s)" ENTRY_SIZE]
    by (simp add: open_ok_def entry_fuel_def)
  moreover have "\<forall>j. 1 \<le> j \<and> j < length (bytes_of i s) div ENTRY_SIZE \<longrightarrow>
      (if in_use (?es ! j) then name_is name (?es ! j) else Some False) = Some (called name (?es ! j))"
    using entries_okD(3) [OF o(3)] by (simp add: called_def)
  ultimately obtain t where t: "scan_entries (entry_fuel ?p s) (\<lambda>e. if in_use e then name_is name e else Some False)
      ?p (int (ENTRY_SIZE * 1)) s = Some (case find_from (called name) ?es 1 of
          Some j \<Rightarrow> (Some (?es ! j), int (ENTRY_SIZE * j))
        | None \<Rightarrow> (None, int (ENTRY_SIZE * (length (bytes_of i s) div ENTRY_SIZE))), t)" "same_sectors s t"
    using scan_entries_ok [OF o(2) _ _ entries_okD(1) [OF o(3)],
        where test = "\<lambda>e. if in_use e then name_is name e else Some False" and P = "called name"] by blast
  then have "lookup a name s = Some (map_option (\<lambda>k. (?es ! k, int (ENTRY_SIZE * k))) (find_from (called name) ?es 1), t)"
    using o(1) by (cases "find_from (called name) ?es 1") (simp_all add: lookup_def dir_get_inode_def)
  with t(2) show ?thesis by blast
qed

text \<open>Filling a free slot adds a name; clearing the slot of a name removes it.\<close>

lemma find_from_update:
  assumes "k < length xs" and "n \<le> k" and "\<not> P (xs ! k)" and "P y" and "find_from P xs n = None"
  shows "find_from P (xs[k := y]) n = Some k"
  using assms by (auto simp: find_from_Some find_from_None)

lemma find_from_update_other:
  assumes "k < length xs" and "\<not> P (xs ! k)" and "\<not> P y"
  shows "find_from P (xs[k := y]) n = find_from P xs n"
proof (cases "find_from P xs n")
  case None
  with assms have "find_from P (xs[k := y]) n = None" by (auto simp: find_from_None nth_list_update)
  with None show ?thesis by simp
next
  case (Some j)
  then have "j \<noteq> k" using assms by (auto simp: find_from_Some)
  with Some assms have "find_from P (xs[k := y]) n = Some j" by (auto simp: find_from_Some nth_list_update)
  with Some show ?thesis by simp
qed

lemma names_add:
  assumes "names es name = None" and "1 \<le> k" and "k < length es" and "\<not> in_use (es ! k)"
    and "called name e"
  shows "names (es[k := e]) = (names es)(name \<mapsto> entry_sector e)"
proof
  fix m
  have nk: "\<not> called m (es ! k)" for m using assms(4) by (simp add: called_def)
  show "names (es[k := e]) m = ((names es)(name \<mapsto> entry_sector e)) m"
  proof (cases "m = name")
    case True
    have "find_from (called name) (es[k := e]) 1 = Some k"
      using assms nk by (intro find_from_update) (auto simp: names_def)
    with True assms(3) show ?thesis by (simp add: names_def)
  next
    case False
    then have f: "find_from (called m) (es[k := e]) 1 = find_from (called m) es 1"
      using assms nk by (intro find_from_update_other) (auto simp: called_def)
    show ?thesis
    proof (cases "find_from (called m) es 1")
      case (Some j)
      then have "j \<noteq> k" using nk by (auto simp: find_from_Some)
      with f Some False show ?thesis by (simp add: names_def)
    qed (use f False in \<open>simp add: names_def\<close>)
  qed
qed

lemma entries_ok_add:
  assumes "entries_ok es" and "names es name = None" and "1 \<le> k" and "k < length es"
    and "called name e" and "0 \<in> set (entry_name e)"
  shows "entries_ok (es[k := e])"
proof -
  have no: "\<forall>j. 1 \<le> j \<and> j < length es \<longrightarrow> \<not> called name (es ! j)"
    using assms(2) by (auto simp: names_def find_from_None)
  have n: "in_use e" "bytes_name (entry_name e) = name" using assms(5) by (simp_all add: called_def)
  have u: "\<forall>j l. 1 \<le> j \<and> j < length es \<and> 1 \<le> l \<and> l < length es \<and> in_use (es ! j) \<and>
      called (bytes_name (entry_name (es ! j))) (es ! l) \<longrightarrow> j = l"
    using assms(1) by (simp add: entries_ok_def)
  show ?thesis
    using assms(1,3,4,6) no u n unfolding entries_ok_def
    by (auto simp: nth_list_update called_def)
qed

text \<open>Adding a name of a file.\<close>

lemma dir_add_ok:
  assumes "dir_ok a d i s" and "name \<noteq> []" and "length name \<le> NAME_MAX" and "CHR 0x00 \<notin> set name"
    and "names (entries_of (bytes_of i s)) name = None" and "\<exists>e \<in> set (entries_of (bytes_of i s)). \<not> in_use e"
  shows "\<exists>t. dir_add a name x False s = Some (True, t) \<and> dir_ok a d i t \<and>
    names (entries_of (bytes_of i t)) = (names (entries_of (bytes_of i s)))(name \<mapsto> x) \<and> data_written s (idata i) t"
proof -
  let ?es = "entries_of (bytes_of i s)" and ?p = "dir_inode d"
  let ?e = "\<lparr>entry_sector = x, entry_name = name_bytes 31 name, in_use = True\<rparr>"
  have "find_from (called name) ?es 1 = None" using assms(5) by (simp add: names_def)
  then obtain t where t: "lookup a name s = Some (None, t)" "same_sectors s t"
    using lookup_ok [OF assms(1), of name] by auto
  have dt: "dir_ok a d i t" "bytes_of i t = bytes_of i s"
    using dir_ok_same [OF assms(1) t(2)] open_ok_same [OF _ t(2)] assms(1) by (auto simp: dir_ok_def)
  then have o: "dirs t a = Some d" "open_ok ?p i t" "entries_ok ?es" by (simp_all add: dir_ok_def)
  obtain k where k: "find_from (\<lambda>e. \<not> in_use e) ?es 0 = Some k"
    using assms(6) by (cases "find_from (\<lambda>e. \<not> in_use e) ?es 0") (auto simp: find_from_None in_set_conv_nth)
  then have kb: "k < length (bytes_of i s) div ENTRY_SIZE" "\<not> in_use (?es ! k)" by (auto simp: find_from_Some)
  moreover have "k \<noteq> 0" using kb(2) entries_okD(2) [OF o(3)] by (metis)
  ultimately have k1: "1 \<le> k" "k < length ?es" by simp_all
  have "length (bytes_of i t) div ENTRY_SIZE < entry_fuel ?p t + 0"
    using o(2) div_le_dividend [of "length (bytes_of i t)" ENTRY_SIZE] by (simp add: open_ok_def entry_fuel_def)
  then obtain u where u: "scan_entries (entry_fuel ?p t) (\<lambda>e. Some (\<not> in_use e)) ?p (int (ENTRY_SIZE * 0)) t =
      Some ((Some (?es ! k), int (ENTRY_SIZE * k)), u)" "same_sectors t u"
    using scan_entries_ok [OF o(2), of "entry_fuel ?p t" 0 "\<lambda>e. Some (\<not> in_use e)" "\<lambda>e. \<not> in_use e"] k
    unfolding dt(2) by auto
  have ou: "open_ok ?p i u" "bytes_of i u = bytes_of i s" "dirs u a = Some d"
    using open_ok_same [OF o(2) u(2)] dt(2) o(1) more_fields(8) [OF same_sectorsD(4) [OF u(2)]] by simp_all
  note nb = name_bytes_ok [OF assms(3,4)]
  have le: "length (entry_name ?e) = 31" using nb(1) by simp
  have "ENTRY_SIZE * k + ENTRY_SIZE \<le> nat (data_length (idata i))" using kb(1) by (simp only: entry_inside) simp
  then have in_file: "int (ENTRY_SIZE * k) + int ENTRY_SIZE \<le> data_length (idata i)" by linarith
  obtain v where v: "inode_write_at ?p (put_entry ?e) (int ENTRY_SIZE) (int (ENTRY_SIZE * k)) u = Some (int ENTRY_SIZE, v)"
      "data_written u (idata i) v"
      "bytes_of i v = overwrite (bytes_of i u) (ENTRY_SIZE * k) (put_entry ?e)"
    using inode_write_at_ok [of u ?p i "int (ENTRY_SIZE * k)" "int ENTRY_SIZE" "put_entry ?e"] ou(1) in_file
      length_put_entry [OF le] by (auto simp: open_ok_def simp del: of_nat_mult)
  have es: "entries_of (bytes_of i v) = ?es[k := ?e]"
    using entries_of_overwrite [OF kb(1) le] v(3) ou(2) by simp
  have c: "called name ?e" using nb(3) by (simp add: called_def)
  have "entries_ok (?es[k := ?e])"
    using entries_ok_add [OF o(3) assms(5) k1 c] nb(2) by simp
  moreover have "dirs v = dirs u" using v(2) by (intro more_fields) (simp add: data_written_def)
  ultimately have "dir_ok a d i v" using open_ok_written [OF ou(1) v(2)] ou(3) es by (simp add: dir_ok_def)
  moreover have "names (entries_of (bytes_of i v)) = (names ?es)(name \<mapsto> x)"
    unfolding es using names_add [OF assms(5) k1 kb(2) c] by simp
  moreover have "data_written s (idata i) v"
    using data_written_trans [OF same_data_written [OF same_sectors_trans [OF t(2) u(2)]] v(2)] assms(1) by (simp add: dir_ok_def open_ok_def)
  moreover have "dir_add a name x False s = Some (True, v)"
    using assms(2,3) t(1) o(1) u(1) v(1) by (simp add: dir_add_def dir_get_inode_def)
  ultimately show ?thesis by blast
qed

text \<open>Reading does not change the objects on the heap, whatever the state.\<close>

lemma index_to_sector_more: "index_to_sector d k s = Some (x, t) \<Longrightarrow> cache_state.more t = cache_state.more s"
  by (auto simp: index_to_sector_def Let_def elim!: bind_SomeE split: if_splits dest!: read_more)

lemma byte_to_sector_more: "byte_to_sector d k s = Some (x, t) \<Longrightarrow> cache_state.more t = cache_state.more s"
  by (auto simp: byte_to_sector_def split: if_splits dest: index_to_sector_more)

lemma inode_read_loop_more:
  "inode_read_loop d sz ofs s = Some (bs, t) \<Longrightarrow> cache_state.more t = cache_state.more s"
proof (induction "nat sz" arbitrary: sz ofs s bs rule: less_induct)
  case less
  show ?case
  proof (cases "sz \<le> 0")
    case True
    then show ?thesis using less.prems by (subst (asm) inode_read_loop.simps) simp
  next
    case False
    obtain x u where u: "byte_to_sector d ofs s = Some (x, u)"
      using less.prems False by (subst (asm) inode_read_loop.simps) (auto elim!: bind_SomeE)
    define c where "c = (let so = c_rem ofs (int BLOCK_SECTOR_SIZE); il = data_length d - ofs;
      sl = int BLOCK_SECTOR_SIZE - so; ml = (if il < sl then il else sl) in if sz < ml then sz else ml)"
    show ?thesis
    proof (cases "c \<le> 0")
      case True
      then show ?thesis using less.prems False u byte_to_sector_more [OF u]
        by (subst (asm) inode_read_loop.simps) (simp add: c_def Let_def)
    next
      case pos: False
      then obtain b v bs' where v: "buffer_cache_read x u = Some (b, v)"
          and r: "inode_read_loop d (sz - c) (ofs + c) v = Some (bs', t)"
        using less.prems False u
        by (subst (asm) inode_read_loop.simps) (auto simp: c_def Let_def elim!: bind_SomeE split: if_splits)
      have "nat (sz - c) < nat sz" using pos False by simp
      from less.hyps [OF this r] show ?thesis using read_more [OF v] byte_to_sector_more [OF u] by simp
    qed
  qed
qed

lemma read_entry_more: "read_entry p ofs s = Some (e, t) \<Longrightarrow> cache_state.more t = cache_state.more s"
  by (auto simp: read_entry_def inode_read_at_def inode_read_data_def elim!: bind_SomeE dest: inode_read_loop_more)

lemma scan_entries_more: "scan_entries n test p ofs s = Some (r, t) \<Longrightarrow> cache_state.more t = cache_state.more s"
proof (induction n arbitrary: ofs s)
  case (Suc n)
  then obtain e u where u: "read_entry p ofs s = Some (e, u)" by (auto elim!: bind_SomeE)
  with Suc show ?case using read_entry_more [OF u]
    by (auto elim!: bind_SomeE split: option.splits if_splits)
qed simp

lemma file_bytes_one_sector:
  assumes "0 \<le> data_length d" and "data_length d \<le> 512" and "length (c (direct_blocks d ! 0)) = 512"
  shows "file_bytes c d = take (nat (data_length d)) (c (direct_blocks d ! 0))"
  using assms by (intro nth_equalityI) (auto simp: file_bytes_def file_byte_def block_map_def)

lemma entries_of_Cons:
  assumes "length (entry_name e) = 31"
  shows "entries_of (put_entry e @ bs) = e # entries_of bs"
proof (rule nth_equalityI)
  have l: "length (put_entry e) = ENTRY_SIZE" by (rule length_put_entry [OF assms])
  then show len: "length (entries_of (put_entry e @ bs)) = length (e # entries_of bs)" by simp
  fix k assume "k < length (entries_of (put_entry e @ bs))"
  then have k: "k < length (put_entry e @ bs) div ENTRY_SIZE" by simp
  show "entries_of (put_entry e @ bs) ! k = (e # entries_of bs) ! k"
  proof (cases k)
    case 0
    then show ?thesis using k l get_put_entry [OF assms] by (simp add: entry_at_def)
  next
    case (Suc j)
    then have "j < length bs div ENTRY_SIZE" using k l by simp
    moreover have "ENTRY_SIZE * k - length (put_entry e) = ENTRY_SIZE * j" using Suc l by simp
    ultimately show ?thesis using Suc k l by (simp add: entry_at_def)
  qed
qed

lemma entries_of_concat:
  "\<forall>e \<in> set es. length (entry_name e) = 31 \<Longrightarrow> entries_of (concat (map put_entry es)) = es"
  by (induction es) (simp_all add: entries_of_Cons, simp add: entries_of_def)

text \<open>Opening an inode that is not open yet.\<close>

lemma inode_open_new:
  assumes "find_open (inodes s) (open_inodes s) x = Some None" and "cache_inv s" and "cache_valid s x"
  obtains t where "inode_open x s = Some (next_addr s, t\<lparr>next_addr := Suc (next_addr s),
      open_inodes := next_addr s # open_inodes s,
      inodes := (inodes s)(next_addr s \<mapsto> \<lparr>sector_no = x, open_cnt = 1, removed = False, deny_write_cnt = 0,
        idata = get_inode (cache_content s x)\<rparr>)\<rparr>)"
    and "same_sectors s t"
proof -
  obtain t where t: "buffer_cache_read x s = Some (cache_content s x, t)" "same_sectors s t"
    using readE [OF assms(2,3)] by blast
  with more_fields(1,2) [OF same_sectorsD(4) [OF t(2)]] assms(1) that show thesis
    by (simp add: inode_open_def Let_def)
qed

text \<open>The last close of an inode that was not removed.\<close>

lemma inode_close_last:
  assumes "inodes s p = Some i" and "open_cnt i = 1" and "\<not> removed i"
  shows "\<exists>t. inode_close (Some p) s = Some t \<and> inodes t p = None \<and> (\<forall>q. q \<noteq> p \<longrightarrow> inodes t q = inodes s q) \<and>
    dirs t = dirs s \<and> cache_inv t = cache_inv s \<and> cache_valid t = cache_valid s \<and> cache_content t = cache_content s"
  using assms by (simp add: inode_close_def)

text \<open>A write through a good inode does not bring another one back.\<close>

lemma dangling_after_write:
  assumes "open_ok p i s" and "inodes s q = None" and "0 \<le> offset" and "0 < sz"
    and "offset + sz \<le> data_length (idata i)" and "nat sz \<le> length buf"
  shows "\<exists>t. inode_write_at p buf sz offset s = Some (sz, t) \<and> inodes t q = None"
proof -
  obtain t where "inode_write_at p buf sz offset s = Some (sz, t)" "data_written s (idata i) t"
    using inode_write_at_ok [of s p i offset sz buf] assms by (auto simp: open_ok_def)
  with more_fields(1) [of t s] assms(2) show ?thesis by (simp add: data_written_def)
qed

section \<open>Properties\<close>

text \<open>
  A directory with the entries of its parent, of a directory \<open>sub\<close> and a free slot, in
  sector 2; sector 1 is its inode, and sector 3 the inode of \<open>sub\<close>.
\<close>

definition demo_entry :: "string \<Rightarrow> u32 \<Rightarrow> bool \<Rightarrow> dir_entry" where
  "demo_entry n x u = \<lparr>entry_sector = x, entry_name = name_bytes 31 n, in_use = u\<rparr>"

definition demo_entries :: "dir_entry list" where
  "demo_entries = [demo_entry [] 1 True, demo_entry ''sub'' 3 True, demo_entry [] 0 False]"

definition demo_dir_inode :: "u32 \<Rightarrow> int \<Rightarrow> inode_disk" where
  "demo_dir_inode x len = \<lparr>direct_blocks = x # replicate 122 0, indirect_block = 0, doubly_indirect_block = 0,
     is_dir = 1, padding = [0, 0, 0], data_length = len, magic = INODE_MAGIC\<rparr>"

definition demo_image :: "u8 list" where
  "demo_image = replicate 512 0 @ put_inode (demo_dir_inode 2 108) @ (concat (map put_entry demo_entries) @ replicate 404 0) @ put_inode (demo_dir_inode 2 36)"

definition demo_dir_obj :: dir_t where "demo_dir_obj = \<lparr>dir_inode = 5, dir_pos = 36, dir_open_cnt = 1\<rparr>"

definition demo_root :: inode where
  "demo_root = \<lparr>sector_no = 1, open_cnt = 1, removed = False, deny_write_cnt = 0, idata = demo_dir_inode 2 108\<rparr>"

definition demo_dir :: fs_state where
  "demo_dir = cache_state.extend (demo_fs\<lparr>image := demo_image\<rparr>) (fs_state.fields [5 \<mapsto> demo_root] [5] Map.empty 10
     \<lparr>bit_cnt = 64, bits = [7]\<rparr> None [] [7 \<mapsto> demo_dir_obj] (Some 7) (replicate 31 0) [])"

lemma demo_dir_inode_ok: "inode_ok (demo_dir_inode x len)" if "0 \<le> len" "len < 2 ^ 31"
  using that by (simp add: demo_dir_inode_def inode_ok_def)

lemma demo_entries_names: "\<forall>e \<in> set demo_entries. length (entry_name e) = 31"
  by (simp add: demo_entries_def demo_entry_def name_bytes_ok)

lemma demo_entries_bytes: "length (concat (map put_entry demo_entries)) = 108"
proof -
  have "length (put_entry e) = 36" if "e \<in> set demo_entries" for e
    using demo_entries_names that length_put_entry by blast
  then show ?thesis by (simp add: demo_entries_def)
qed

lemma demo_dir_cache:
  "cache_inv demo_dir" "cache_valid demo_dir 2" "cache_valid demo_dir 3" "cache_valid demo_dir 1"
  "cache_content demo_dir 2 = concat (map put_entry demo_entries) @ replicate 404 0"
  "cache_content demo_dir 3 = put_inode (demo_dir_inode 2 36)"
  "cache_content demo_dir 1 = put_inode (demo_dir_inode 2 108)"
proof -
  have dev: "fs_device demo_dir = demo_ide" "image demo_dir = demo_image" "cache demo_dir = cache demo_fs"
      "clock demo_dir = clock demo_fs" "fd demo_dir = 3"
    by (simp_all add: demo_dir_def cache_state.defs fs_state.defs buffer_cache_init_def demo_cache_def)
  have ln: "length (put_inode (demo_dir_inode 2 108)) = 512" "length (put_inode (demo_dir_inode 2 36)) = 512"
    using length_put_inode [OF demo_dir_inode_ok, of _ 2] by simp_all
  have len: "length demo_image = 2048"
    using demo_entries_bytes ln by (simp add: demo_image_def)
  show "cache_valid demo_dir 2" "cache_valid demo_dir 3" "cache_valid demo_dir 1"
    using len by (simp_all add: cache_valid_def dev_valid_def dev demo_ide_def word_le_nat_alt)
  have free: "\<forall>i < length (cache demo_dir). \<not> occupied (cache demo_dir ! i)"
    unfolding dev by (simp add: buffer_cache_init_def)
  show "cache_inv demo_dir"
    by (auto simp: cache_inv_def dev buffer_cache_init_def demo_cache_def no_dups_def entry_ok_def)
  show "cache_content demo_dir 2 = concat (map put_entry demo_entries) @ replicate 404 0"
    using free demo_entries_bytes ln by (subst content_uncached)
      (auto simp: sector_at_def dev demo_ide_def ide_offset_def pread_def demo_image_def)
  show "cache_content demo_dir 1 = put_inode (demo_dir_inode 2 108)"
    using free ln by (subst content_uncached)
      (auto simp: sector_at_def dev demo_ide_def ide_offset_def pread_def demo_image_def)
  show "cache_content demo_dir 3 = put_inode (demo_dir_inode 2 36)"
    using free demo_entries_bytes ln by (subst content_uncached)
      (auto simp: sector_at_def dev demo_ide_def ide_offset_def pread_def demo_image_def)
qed

lemma demo_dir_bytes: "bytes_of demo_root demo_dir = concat (map put_entry demo_entries)"
  using demo_dir_cache(5) demo_entries_bytes
  by (subst file_bytes_one_sector) (simp_all add: demo_root_def demo_dir_inode_def)

lemma demo_entries_ok: "entries_ok demo_entries" "names demo_entries ''sub'' = Some 3" "names demo_entries ''new'' = None"
proof -
  have n: "bytes_name (name_bytes 31 ''sub'') = ''sub''" "bytes_name (name_bytes 31 []) = []"
      "0 \<in> set (name_bytes 31 ''sub'')"
    by (auto intro!: name_bytes_ok)
  show "entries_ok demo_entries"
    by (auto simp: entries_ok_def demo_entries_def demo_entry_def called_def n nth_Cons' numeral_2_eq_2)
  show "names demo_entries ''sub'' = Some 3" "names demo_entries ''new'' = None"
    by (simp_all add: names_def find_from_def demo_entries_def demo_entry_def called_def n upt_rec)
qed

lemma demo_dir_ok: "dir_ok 7 demo_dir_obj demo_root demo_dir" "entries_of (bytes_of demo_root demo_dir) = demo_entries"
proof -
  show es: "entries_of (bytes_of demo_root demo_dir) = demo_entries"
    unfolding demo_dir_bytes by (rule entries_of_concat [OF demo_entries_names])
  have len: "data_length (demo_dir_inode 2 108) = 108" by (simp add: demo_dir_inode_def)
  have n: "bytes_to_sectors 108 = Suc 0"
    by (simp add: demo_dir_inode_def bytes_to_sectors_def DIV_ROUND_UP_def)
  have d: "data_sectors c (demo_dir_inode 2 108) (Suc 0) = [2]" "map_sectors c (demo_dir_inode 2 108) (Suc 0) = []" for c
    by (simp_all add: data_sectors_def map_sectors_def block_map_def demo_dir_inode_def)
  have "inode_wf (cache_valid demo_dir) (cache_content demo_dir) (demo_dir_inode 2 108)"
      "blocks_distinct (cache_content demo_dir) (demo_dir_inode 2 108)"
    using demo_dir_inode_ok [of 108 2] demo_dir_cache(2)
    by (simp_all add: inode_wf_def blocks_distinct_def n d len)
  moreover have "inodes demo_dir 5 = Some demo_root" "dirs demo_dir 7 = Some demo_dir_obj"
    by (simp_all add: demo_dir_def cache_state.defs fs_state.defs)
  ultimately show "dir_ok 7 demo_dir_obj demo_root demo_dir"
    using demo_dir_cache(1) demo_entries_ok(1) es
    by (simp add: dir_ok_def open_ok_def demo_root_def demo_dir_obj_def)
qed

text \<open>
  \<open>split_path_filename\<close> splits a path into its last name and the directory before it: the
  names of the directory, followed by the file name, are the names of the path, the directory
  is absolute when the path is, and both parts together are no longer than the path.
\<close>

theorem split_path_names:
  "case split_path_filename path of (directory, filename) \<Rightarrow>
     path_tokens directory @ (if filename = [] then [] else [filename]) = path_tokens path \<and>
     slash \<notin> set filename \<and>
     (directory \<noteq> [] \<and> hd directory = slash) = (path \<noteq> [] \<and> hd path = slash) \<and>
     length directory + length filename \<le> length path"
proof -
  define r where "r = (if path \<noteq> [] \<and> hd path = slash then [slash] else [])"
  let ?ts = "path_tokens path"
  note ok = path_tokens_names [of path]
  have len: "length (join_path ?ts) + length r \<le> length path + 1"
    using path_tokens_length [of path] by (auto simp: r_def)
  show ?thesis
  proof (cases "?ts = []")
    case True
    then have "split_path_filename path = (r, [])" by (simp add: split_path_filename_def r_def)
    then show ?thesis using True by (cases path) (auto simp: r_def)
  next
    case False
    then have s: "split_path_filename path = (r @ join_path (butlast ?ts), last ?ts)"
      using split_tokens_names [OF ok False] by (simp add: split_path_filename_def r_def)
    have ts: "?ts = butlast ?ts @ [last ?ts]" using False by simp
    have b: "\<forall>t \<in> set (butlast ?ts). path_name t" "path_name (last ?ts)"
      using ok False by (auto dest: in_set_butlastD)
    have "path_tokens (join_path (butlast ?ts)) = butlast ?ts"
      using path_tokens_join [OF b(1), of "[]"] by simp
    then have "path_tokens (r @ join_path (butlast ?ts)) = butlast ?ts" by (simp add: r_def)
    moreover have "length (join_path (butlast ?ts)) + length (last ?ts) + 1 = length (join_path ?ts)"
      using arg_cong [OF ts, of "\<lambda>xs. length (join_path xs)"] by simp
    moreover have "join_path (butlast ?ts) = [] \<or> hd (join_path (butlast ?ts)) \<noteq> slash"
      using b(1) by (cases "butlast ?ts") (auto simp: path_name_def hd_append dest: hd_in_set)
    ultimately show ?thesis
      using s ts b(2) len by (auto simp: path_name_def r_def)
  qed
qed

text \<open>
  C14: A directory is a map from names to sectors. As long as a slot is free, adding a file
  succeeds exactly for a name of 1 to 30 characters that is not in use, and then
  changes the map at this name only; otherwise the map stays as it was.
\<close>

theorem dir_add_names:
  assumes "dir_ok a d i s" and "CHR 0x00 \<notin> set name" and "\<exists>e \<in> set (entries_of (bytes_of i s)). \<not> in_use e"
  shows "\<exists>ok t. dir_add a name x False s = Some (ok, t) \<and> dir_ok a d i t \<and>
    ok = (name \<noteq> [] \<and> length name \<le> NAME_MAX \<and> names (entries_of (bytes_of i s)) name = None) \<and>
    names (entries_of (bytes_of i t)) =
      (if ok then (names (entries_of (bytes_of i s)))(name \<mapsto> x) else names (entries_of (bytes_of i s)))"
proof -
  consider (bad) "name = [] \<or> NAME_MAX < length name"
    | (used) y where "name \<noteq> []" "length name \<le> NAME_MAX" "names (entries_of (bytes_of i s)) name = Some y"
    | (new) "name \<noteq> []" "length name \<le> NAME_MAX" "names (entries_of (bytes_of i s)) name = None"
    by (metis not_le option.exhaust)
  then show ?thesis
  proof cases
    case bad
    then show ?thesis using assms(1) by (auto simp: dir_add_def)
  next
    case used
    then obtain k where "find_from (called name) (entries_of (bytes_of i s)) 1 = Some k" by (auto simp: names_def)
    then obtain e t where t: "lookup a name s = Some (Some e, t)" "same_sectors s t"
      using lookup_ok [OF assms(1), of name] by auto
    have "bytes_of i t = bytes_of i s"
      using open_ok_same(2) [OF _ t(2)] assms(1) by (auto simp: dir_ok_def)
    then show ?thesis using used t dir_ok_same [OF assms(1) t(2)]
      by (intro exI [where x = False] exI [where x = t]) (simp add: dir_add_def)
  next
    case new
    from dir_add_ok [OF assms(1) new(1,2) assms(2) new(3) assms(3)] new show ?thesis by auto
  qed
qed

theorem dir_add_names_witness:
  "\<exists>t. dir_add 7 ''new'' 9 False demo_dir = Some (True, t) \<and> names (entries_of (bytes_of demo_root t)) ''new'' = Some 9 \<and>
     names (entries_of (bytes_of demo_root t)) ''sub'' = Some 3"
proof -
  have "\<exists>e \<in> set demo_entries. \<not> in_use e" by (simp add: demo_entries_def demo_entry_def)
  then show ?thesis
    using dir_add_names [OF demo_dir_ok(1), of "''new''" 9] demo_entries_ok(2,3)
    unfolding demo_dir_ok(2) by auto
qed

text \<open>
  C15: \<open>dir_lookup\<close> implements the map: for a name other than the two dots it opens the inode
  in the sector the name is mapped to, and it finds nothing when there is none.
\<close>

theorem dir_lookup_names:
  assumes "dir_ok a d i s" and "name \<noteq> ''.''" and "name \<noteq> ''..''"
  shows "\<exists>t. same_sectors s t \<and> dir_ok a d i t \<and> dir_lookup a name s =
    (case names (entries_of (bytes_of i s)) name of
       None \<Rightarrow> Some (None, t)
     | Some x \<Rightarrow> map_option (\<lambda>(p, u). (Some p, u)) (inode_open x t))"
proof -
  let ?es = "entries_of (bytes_of i s)"
  obtain t where t: "lookup a name s = Some (map_option (\<lambda>k. (?es ! k, int (ENTRY_SIZE * k)))
      (find_from (called name) ?es 1), t)" "same_sectors s t"
    using lookup_ok [OF assms(1)] by blast
  have "dir_lookup a name s = (case names ?es name of
       None \<Rightarrow> Some (None, t)
     | Some x \<Rightarrow> map_option (\<lambda>(p, u). (Some p, u)) (inode_open x t))"
  proof (cases "find_from (called name) ?es 1")
    case None
    with t(1) assms(2,3) show ?thesis by (simp add: dir_lookup_def names_def)
  next
    case (Some k)
    have "(do { (p, u) \<leftarrow> inode_open x t; Some (Some p, u) }) = map_option (\<lambda>(p, u). (Some p, u)) (inode_open x t)" for x
      by (cases "inode_open x t") auto
    with Some t(1) assms(2,3) show ?thesis by (simp add: dir_lookup_def names_def)
  qed
  with t(2) dir_ok_same [OF assms(1) t(2)] show ?thesis by blast
qed

theorem dir_lookup_names_witness:
  "\<exists>t u. dir_lookup 7 ''new'' demo_dir = Some (None, t) \<and>
     dir_lookup 7 ''sub'' demo_dir = map_option (\<lambda>(p, u). (Some p, u)) (inode_open 3 u)"
  using dir_lookup_names [OF demo_dir_ok(1), of "''new''"] dir_lookup_names [OF demo_dir_ok(1), of "''sub''"]
  unfolding demo_dir_ok(2) by (auto simp: demo_entries_ok(2,3))

text \<open>
  C38: Removing a directory has no defined result. Unless somebody has the directory open
  already, \<open>dir_remove\<close> opens its inode, gives it to \<open>dir_open\<close>, and \<open>dir_close\<close> frees it;
  then, whether the directory is empty or not, \<open>dir_remove\<close> uses the freed inode.
\<close>

theorem remove_directory_dangles:
  assumes "dir_ok a d i s" and "names (entries_of (bytes_of i s)) name = Some x"
    and "find_open (inodes s) (open_inodes s) x = Some None" and "cache_valid s x"
    and "sub = get_inode (cache_content s x)" and "is_dir sub \<noteq> 0" and "int ENTRY_SIZE \<le> data_length sub"
    and "inode_wf (cache_valid s) (cache_content s) sub" and "blocks_distinct (cache_content s) sub"
    and "inodes s (next_addr s) = None" and "dirs s (Suc (next_addr s)) = None"
  shows "dir_remove a name s = None"
proof -
  let ?es = "entries_of (bytes_of i s)" and ?p = "dir_inode d" and ?q = "next_addr s" and ?c = "Suc (next_addr s)"
  obtain k where k: "find_from (called name) ?es 1 = Some k" "entry_sector (?es ! k) = x"
    using assms(2) by (auto simp: names_def)
  then have kb: "k < length (bytes_of i s) div ENTRY_SIZE" by (simp add: find_from_Some)
  obtain t where t: "lookup a name s = Some (Some (?es ! k, int (ENTRY_SIZE * k)), t)" "same_sectors s t"
    using lookup_ok [OF assms(1), of name] k(1) by auto
  note m = more_fields [OF same_sectorsD(4) [OF t(2)]] and c = same_sectorsD(1-3) [OF t(2)]
  have x: "cache_valid t x" "cache_content t x = cache_content s x" using c assms(4) by simp_all
  let ?i = "\<lparr>sector_no = x, open_cnt = 1, removed = False, deny_write_cnt = 0, idata = sub\<rparr>"
  obtain u where u: "inode_open x t = Some (?q, u\<lparr>next_addr := Suc ?q, open_inodes := ?q # open_inodes s,
      inodes := (inodes s)(?q \<mapsto> ?i)\<rparr>)" "same_sectors t u"
    using inode_open_new [of t x] assms(3,5) m c(1) x by metis
  note su = same_sectors_trans [OF t(2) u(2)]
  define v where "v = u\<lparr>next_addr := Suc ?c, open_inodes := ?q # open_inodes s, inodes := (inodes s)(?q \<mapsto> ?i),
    dirs := (dirs s)(?c \<mapsto> \<lparr>dir_inode = ?q, dir_pos = int ENTRY_SIZE, dir_open_cnt = 1\<rparr>)\<rparr>"
  have open_v: "dir_open (Some ?q) (u\<lparr>next_addr := Suc ?q, open_inodes := ?q # open_inodes s,
      inodes := (inodes s)(?q \<mapsto> ?i)\<rparr>) = Some (Some ?c, v)"
    using more_fields(8) [OF same_sectorsD(4) [OF su]] by (simp add: dir_open_def v_def Let_def)
  have ov: "open_ok ?q ?i v"
    using same_sectors_file [OF su assms(8)] same_sectorsD(1) [OF su] assms(9) by (simp add: open_ok_def v_def)
  have "length (bytes_of ?i v) div ENTRY_SIZE < entry_fuel ?q v + 1"
    using div_le_dividend [of "nat (data_length sub)" ENTRY_SIZE] by (simp add: entry_fuel_def v_def)
  moreover have "1 \<le> length (bytes_of ?i v) div ENTRY_SIZE"
    using assms(7) entry_inside [of 0 "nat (data_length sub)"] by simp
  ultimately obtain r w where w: "scan_entries (entry_fuel ?q v) (\<lambda>e. Some (in_use e)) ?q (int (ENTRY_SIZE * 1)) v = Some (r, w)"
      "same_sectors v w"
    using scan_entries_ok [OF ov, of "entry_fuel ?q v" 1 "\<lambda>e. Some (in_use e)" in_use] by blast
  obtain r1 r2 where r: "r = (r1, r2)" by (cases r)
  have empty: "dir_is_empty ?c v = Some (r1 = None, w)"
    using w(1) r by (simp add: dir_is_empty_def dir_get_inode_def v_def)
  note fw = more_fields [OF same_sectorsD(4) [OF w(2)]]
  have p: "?p \<noteq> ?q" and a: "a \<noteq> ?c" using assms(1,10,11) by (auto simp: dir_ok_def open_ok_def)
  have fields: "inodes w ?q = Some ?i" "dirs w ?c = Some \<lparr>dir_inode = ?q, dir_pos = int ENTRY_SIZE, dir_open_cnt = 1\<rparr>"
      "inodes w ?p = Some i" "dirs w a = Some d"
    using fw p a assms(1) by (simp_all add: v_def dir_ok_def open_ok_def)
  have ow: "open_ok ?p i w"
  proof -
    have "open_ok ?p i u" using open_ok_same(1) [OF _ su] assms(1) by (auto simp: dir_ok_def)
    then have "open_ok ?p i v" using p assms(1) by (simp add: open_ok_def v_def dir_ok_def)
    then show ?thesis using w(2) by (rule open_ok_same)
  qed
  obtain z where z: "dir_close (Some ?c) w = Some z" "inodes z ?q = None" "open_ok ?p i z" "dirs z a = Some d"
    using fields ow p a by (simp add: dir_close_def inode_close_def open_ok_def)
  have "ENTRY_SIZE * k + ENTRY_SIZE \<le> nat (data_length (idata i))" using kb by (simp only: entry_inside) simp
  then have in_file: "int (ENTRY_SIZE * k) + int ENTRY_SIZE \<le> data_length (idata i)" by linarith
  have "length (entry_name (?es ! k)) = 31" using entry_at_name [OF kb] kb by simp
  then have "length (put_entry ((?es ! k)\<lparr>in_use := False\<rparr>)) = ENTRY_SIZE" by (intro length_put_entry) simp
  then obtain y where y: "inode_write_at ?p (put_entry ((?es ! k)\<lparr>in_use := False\<rparr>)) (int ENTRY_SIZE) (int (ENTRY_SIZE * k)) z =
      Some (int ENTRY_SIZE, y)" "inodes y ?q = None"
    using dangling_after_write [OF z(3,2), of "int (ENTRY_SIZE * k)" "int ENTRY_SIZE"] in_file by force
  have dir: "inode_is_directory ?q (u\<lparr>next_addr := Suc ?q, open_inodes := ?q # open_inodes s,
      inodes := (inodes s)(?q \<mapsto> ?i)\<rparr>) = Some True"
    using assms(6) by (simp add: inode_is_directory_def)
  have gone: "inode_close (Some ?q) z = None" "inode_remove ?q y = None"
    using z(2) y(2) by (simp_all add: inode_close_def inode_remove_def)
  show ?thesis
    using t(1) k(2) u(1) dir open_v empty z(1,4) y(1) gone
    by (cases "r1 = None") (simp_all add: dir_remove_def dir_get_inode_def)
qed

theorem remove_directory_dangles_witness: "dir_remove 7 ''sub'' demo_dir = None"
proof (rule remove_directory_dangles [OF demo_dir_ok(1)])
  show "names (entries_of (bytes_of demo_root demo_dir)) ''sub'' = Some 3"
    unfolding demo_dir_ok(2) by (rule demo_entries_ok)
  have o: "open_inodes demo_dir = [5]" "inodes demo_dir = [5 \<mapsto> demo_root]" "next_addr demo_dir = 10"
      "dirs demo_dir = [7 \<mapsto> demo_dir_obj]"
    by (simp_all add: demo_dir_def cache_state.defs fs_state.defs)
  then show "find_open (inodes demo_dir) (open_inodes demo_dir) 3 = Some None" by (simp add: demo_root_def)
  show "demo_dir_inode 2 36 = get_inode (cache_content demo_dir 3)"
    using get_put_inode [OF demo_dir_inode_ok, of 36 2] by (simp add: demo_dir_cache)
  have n: "bytes_to_sectors 36 = Suc 0" "data_length (demo_dir_inode 2 36) = 36"
    by (simp_all add: demo_dir_inode_def bytes_to_sectors_def DIV_ROUND_UP_def)
  have d: "data_sectors c (demo_dir_inode 2 36) (Suc 0) = [2]" "map_sectors c (demo_dir_inode 2 36) (Suc 0) = []" for c
    by (simp_all add: data_sectors_def map_sectors_def block_map_def demo_dir_inode_def)
  show "inode_wf (cache_valid demo_dir) (cache_content demo_dir) (demo_dir_inode 2 36)"
      "blocks_distinct (cache_content demo_dir) (demo_dir_inode 2 36)"
    using demo_dir_inode_ok [of 36 2] demo_dir_cache(2) by (simp_all add: inode_wf_def blocks_distinct_def n d)
  show "inodes demo_dir (next_addr demo_dir) = None" "dirs demo_dir (Suc (next_addr demo_dir)) = None"
    by (simp_all add: o)
qed (simp_all add: demo_dir_cache demo_dir_inode_def)

end
