(* ===== verification/Fs_Filesys.thy ===== *)
theory Fs_Filesys
  imports Fs_Dir
begin

text \<open>
  The file system as a whole: \<open>fs/filesys.c\<close>. Files are created, opened and removed by
  name, the disk is formatted, and the file system is started and shut down.

  A message goes to \<open>console\<close>. The arrays for the two parts of a path have as many bytes as the path
  has characters in \<open>filesys_create\<close> and \<open>filesys_remove\<close>. A part with its null character has to fit
  in there; otherwise the result is \<open>None\<close>, as for every access outside an object.
\<close>

abbreviation MAX_FILES_IN_DIRECTORY :: nat where "MAX_FILES_IN_DIRECTORY \<equiv> 1000"

definition say :: "event \<Rightarrow> fs_state \<Rightarrow> fs_state" where
  "say e s = s\<lparr>console := console s @ [e]\<rparr>"

definition check :: "bool \<Rightarrow> fs_state \<Rightarrow> fs_state" where
  "check ok s = (if ok then s else s\<lparr>panics := panics s + 1\<rparr>)"

section \<open>Starting and stopping\<close>

definition do_format :: "fs_state \<Rightarrow> fs_state option" where
  "do_format s = do {
     s \<leftarrow> free_map_create (say (Raw ''Formatting file system...'') s);
     (ok, s) \<leftarrow> dir_create ROOT_DIR_SECTOR MAX_FILES_IN_DIRECTORY s;
     s \<leftarrow> free_map_close (check ok s);
     Some (say (Out ''done.'') s) }"

definition filesys_init :: "bool \<Rightarrow> fs_state \<Rightarrow> fs_state option" where
  "filesys_init format s = do {
     dev \<leftarrow> block_get_hd s;
     s \<leftarrow> free_map_init (inode_init (s\<lparr>fs_device := dev\<rparr>));
     let s = buffer_cache_init s;
     s \<leftarrow> (if format then do_format s else Some s);
     s \<leftarrow> free_map_open s;
     n \<leftarrow> num_free_sectors s;
     Some (init_file_table (say (Out (''Num free sectors: '' @ show_nat n)) s)) }"

definition filesys_done :: "fs_state \<Rightarrow> fs_state option" where
  "filesys_done s = do {
     s \<leftarrow> free_map_close s;
     free_file_table (buffer_cache_close s) }"

section \<open>Files by name\<close>

text \<open>The arrays of \<open>filesys_create\<close> and \<open>filesys_remove\<close> for the parts of a path.\<close>

definition fits_path :: "string \<Rightarrow> string \<Rightarrow> bool" where
  "fits_path path part \<longleftrightarrow> length part + 1 \<le> length path"

text \<open>
  \<open>filesys_create\<close> looks at the last part of the path only. The sector of the inode is
  released when a later step fails.
\<close>

definition filesys_create :: "string \<Rightarrow> int \<Rightarrow> bool \<Rightarrow> fs_state \<Rightarrow> (bool \<times> fs_state) option" where
  "filesys_create path initial_size dir s = do {
     let (directory, file_name) = split_path_filename path;
     guard_opt (fits_path path directory \<and> fits_path path file_name);
     (q, s) \<leftarrow> dir_open_root s;
     ((success, inode_sector), s) \<leftarrow>
       (case q of
          None \<Rightarrow> Some ((False, 0), s)
        | Some a \<Rightarrow> do {
            (r, s) \<leftarrow> free_map_allocate 1 s;
            case r of
              None \<Rightarrow> Some ((False, 0), s)
            | Some x \<Rightarrow> do {
                (ok, s) \<leftarrow> inode_create x initial_size dir s;
                if \<not> ok then Some ((False, x), s)
                else do {
                  (ok, s) \<leftarrow> dir_add a file_name x dir s;
                  Some ((ok, x), s) } } });
     s \<leftarrow> (if \<not> success \<and> inode_sector \<noteq> 0 then free_map_release inode_sector 1 s else Some s);
     s \<leftarrow> dir_close q s;
     Some (success, s) }"

definition filesys_open :: "string \<Rightarrow> fs_state \<Rightarrow> (nat option \<times> fs_state) option" where
  "filesys_open name s =
    (if name = [] then Some (None, s)
     else do {
       let (directory, file_name) = split_path_filename name;
       (q, s) \<leftarrow> dir_open_root s;
       case q of
         None \<Rightarrow> Some (None, s)
       | Some a \<Rightarrow> do {
           (p, s) \<leftarrow> (if length file_name > 0 then do {
               (p, s) \<leftarrow> dir_lookup a file_name s;
               s \<leftarrow> dir_close q s;
               Some (p, s) }
             else do { p \<leftarrow> dir_get_inode a s; Some (Some p, s) });
           case p of
             None \<Rightarrow> Some (None, s)
           | Some i \<Rightarrow> do {
               gone \<leftarrow> inode_is_removed i s;
               if gone then Some (None, s) else file_open p s } } })"

definition filesys_remove :: "string \<Rightarrow> fs_state \<Rightarrow> (bool \<times> fs_state) option" where
  "filesys_remove name s = do {
     let (directory, file_name) = split_path_filename name;
     guard_opt (fits_path name directory \<and> fits_path name file_name);
     (q, s) \<leftarrow> dir_open_path directory s;
     (success, s) \<leftarrow> (case q of None \<Rightarrow> Some (False, s) | Some a \<Rightarrow> dir_remove a file_name s);
     s \<leftarrow> dir_close q s;
     Some (success, s) }"

definition filesys_chdir :: "string \<Rightarrow> fs_state \<Rightarrow> (bool \<times> fs_state) option" where
  "filesys_chdir name s = do {
     (q, s) \<leftarrow> dir_open_path name s;
     if q = None then Some (False, s)
     else do {
       s \<leftarrow> dir_close (cwd s) s;
       Some (True, s\<lparr>cwd := q\<rparr>) } }"

text \<open>
  A name without a slash does not fit; the absolute path of a file in the root directory does.
\<close>

abbreviation in_root :: "string \<Rightarrow> string" where
  "in_root name \<equiv> slash # name"

lemma split_in_root: "path_name name \<Longrightarrow> split_path_filename (in_root name) = (''/'', name)"
  by (cases name) (auto simp: split_path_filename_def path_tokens_name(2))

lemma fits_in_root: "path_name name \<Longrightarrow> fits_path (in_root name) ''/'' \<and> fits_path (in_root name) name"
  by (cases name) (auto simp: fits_path_def path_name_def)

section \<open>The file system at rest\<close>

lemma more_updates:
  fixes s t :: fs_state
  assumes "cache_state.more t = cache_state.more s"
  shows "cache_state.more (t\<lparr>dirs := h\<rparr>) = cache_state.more (s\<lparr>dirs := h\<rparr>)"
    and "cache_state.more (t\<lparr>console := es\<rparr>) = cache_state.more (s\<lparr>console := es\<rparr>)"
    and "cache_state.more (t\<lparr>cwd := q\<rparr>) = cache_state.more (s\<lparr>cwd := q\<rparr>)"
    and "cache_state.more (t\<lparr>next_addr := n\<rparr>) = cache_state.more (s\<lparr>next_addr := n\<rparr>)"
    and "cache_state.more (t\<lparr>inodes := m\<rparr>) = cache_state.more (s\<lparr>inodes := m\<rparr>)"
    and "cache_state.more (t\<lparr>files := fs\<rparr>) = cache_state.more (s\<lparr>files := fs\<rparr>)"
    and "cache_state.more (t\<lparr>open_inodes := ps\<rparr>) = cache_state.more (s\<lparr>open_inodes := ps\<rparr>)"
  using assms by (cases s; cases t; simp)+

lemma same_sectors_fields:
  fixes s t :: fs_state
  assumes "same_sectors s t"
  shows "same_sectors (s\<lparr>dirs := h\<rparr>) (t\<lparr>dirs := h\<rparr>)" and "same_sectors (s\<lparr>console := es\<rparr>) (t\<lparr>console := es\<rparr>)"
    and "same_sectors (s\<lparr>cwd := q\<rparr>) (t\<lparr>cwd := q\<rparr>)" and "same_sectors (s\<lparr>next_addr := n\<rparr>) (t\<lparr>next_addr := n\<rparr>)"
    and "same_sectors (s\<lparr>inodes := m\<rparr>) (t\<lparr>inodes := m\<rparr>)"
    and "same_sectors (s\<lparr>files := fs\<rparr>) (t\<lparr>files := fs\<rparr>)"
    and "same_sectors (s\<lparr>open_inodes := ps\<rparr>) (t\<lparr>open_inodes := ps\<rparr>)"
  using assms more_updates [OF same_sectorsD(4) [OF assms]] by (simp_all add: same_sectors_def)

text \<open>
  The file system between two commands: no directory is open, and the inode of the root
  directory, which is \<open>i\<close> once it is opened, is on the disk only.
\<close>

definition at_rest :: "inode \<Rightarrow> fs_state \<Rightarrow> bool" where
  "at_rest i s \<longleftrightarrow> cwd s = None \<and> cache_inv s \<and> cache_valid s ROOT_DIR_SECTOR \<and>
     find_open (inodes s) (open_inodes s) ROOT_DIR_SECTOR = Some None \<and>
     inodes s (next_addr s) = None \<and> dirs s (Suc (next_addr s)) = None \<and>
     i = \<lparr>sector_no = ROOT_DIR_SECTOR, open_cnt = 1, removed = False, deny_write_cnt = 0,
          idata = get_inode (cache_content s ROOT_DIR_SECTOR)\<rparr> \<and>
     inode_wf (cache_valid s) (cache_content s) (idata i) \<and> blocks_distinct (cache_content s) (idata i) \<and>
     entries_ok (entries_of (bytes_of i s))"

lemma at_restD:
  assumes "at_rest i s"
  shows "cwd s = None" and "cache_inv s" and "cache_valid s ROOT_DIR_SECTOR"
    and "find_open (inodes s) (open_inodes s) ROOT_DIR_SECTOR = Some None"
    and "inodes s (next_addr s) = None" and "dirs s (Suc (next_addr s)) = None"
    and "\<lparr>sector_no = ROOT_DIR_SECTOR, open_cnt = 1, removed = False, deny_write_cnt = 0,
          idata = get_inode (cache_content s ROOT_DIR_SECTOR)\<rparr> = i"
    and "open_cnt i = 1" and "\<not> removed i" and "deny_write_cnt i = 0"
    and "inode_wf (cache_valid s) (cache_content s) (idata i)" and "blocks_distinct (cache_content s) (idata i)"
    and "entries_ok (entries_of (bytes_of i s))"
  using assms unfolding at_rest_def by (blast, blast, blast, blast, blast, blast, blast, simp, simp, simp, blast+)

lemma at_rest_say: "at_rest i (say e s) = at_rest i s"
  by (simp add: at_rest_def say_def)

lemma more_eqI:
  fixes s t :: fs_state
  assumes "inodes t = inodes s" and "open_inodes t = open_inodes s" and "files t = files s"
    and "next_addr t = next_addr s" and "free_map t = free_map s" and "free_map_file t = free_map_file s"
    and "file_table t = file_table s" and "dirs t = dirs s" and "cwd t = cwd s"
    and "stack_name t = stack_name s" and "console t = console s"
  shows "cache_state.more t = cache_state.more s"
  using assms by (cases s; cases t; simp)

text \<open>What \<open>dir_open_root\<close> and \<open>dir_close\<close> do then.\<close>

definition with_root :: "inode \<Rightarrow> fs_state \<Rightarrow> fs_state \<Rightarrow> fs_state" where
  "with_root i s u = u\<lparr>next_addr := next_addr s + 2, open_inodes := next_addr s # open_inodes s,
     inodes := (inodes s)(next_addr s \<mapsto> i),
     dirs := (dirs s)(Suc (next_addr s) \<mapsto> \<lparr>dir_inode = next_addr s, dir_pos = int ENTRY_SIZE, dir_open_cnt = 1\<rparr>),
     cwd := Some (Suc (next_addr s))\<rparr>"

lemma dir_open_root_ok:
  assumes "at_rest i s"
  obtains u where "dir_open_root s = Some (Some (Suc (next_addr s)), with_root i s u)" and "same_sectors s u"
    and "dir_ok (Suc (next_addr s)) \<lparr>dir_inode = next_addr s, dir_pos = int ENTRY_SIZE, dir_open_cnt = 1\<rparr> i (with_root i s u)"
    and "bytes_of i (with_root i s u) = bytes_of i s"
proof -
  note a = at_restD [OF assms]
  obtain u where u: "inode_open ROOT_DIR_SECTOR s = Some (next_addr s, u\<lparr>next_addr := Suc (next_addr s),
      open_inodes := next_addr s # open_inodes s, inodes := (inodes s)(next_addr s \<mapsto> i)\<rparr>)" "same_sectors s u"
    using inode_open_new [OF a(4,2,3)] unfolding a(7) by metis
  note m = more_fields [OF same_sectorsD(4) [OF u(2)]]
  have "dir_open_root s = Some (Some (Suc (next_addr s)), with_root i s u)"
    using a(1) u(1) m(8) by (simp add: dir_open_root_def dir_open_def with_root_def Let_def)
  moreover note u(2)
  moreover have f: "inode_wf (cache_valid u) (cache_content u) (idata i)" "blocks_distinct (cache_content u) (idata i)"
      "bytes_of i u = bytes_of i s" "cache_inv u"
    using same_sectors_file [OF u(2) a(11)] same_sectorsD(1) [OF u(2)] a(12) by simp_all
  have "dir_ok (Suc (next_addr s)) \<lparr>dir_inode = next_addr s, dir_pos = int ENTRY_SIZE, dir_open_cnt = 1\<rparr> i (with_root i s u)"
    using a(10,13) f by (simp add: dir_ok_def open_ok_def with_root_def)
  moreover have "bytes_of i (with_root i s u) = bytes_of i s" using f(3) by (simp add: with_root_def)
  ultimately show thesis by (rule that)
qed

lemma dir_close_root:
  assumes "at_rest i s" and "inodes w = (inodes s)(next_addr s \<mapsto> i)" and "open_inodes w = next_addr s # open_inodes s"
    and "dirs w = (dirs s)(Suc (next_addr s) \<mapsto> \<lparr>dir_inode = next_addr s, dir_pos = pos, dir_open_cnt = 1\<rparr>)"
  shows "dir_close (Some (Suc (next_addr s))) w = Some (w\<lparr>inodes := inodes s, open_inodes := open_inodes s,
    dirs := dirs s, cwd := None\<rparr>)"
proof -
  note a = at_restD [OF assms(1)]
  have "(inodes s)(next_addr s := None) = inodes s" "(dirs s)(Suc (next_addr s) := None) = dirs s"
    using a(5,6) by (auto simp: fun_eq_iff)
  with a(8,9) assms(2-4) show ?thesis
    by (simp add: dir_close_def inode_close_def Let_def fun_upd_upd)
qed

definition demo_rest :: fs_state where
  "demo_rest = demo_dir\<lparr>inodes := Map.empty, open_inodes := [], dirs := Map.empty, cwd := None\<rparr>"

lemma demo_at_rest: "at_rest demo_root demo_rest" "entries_of (bytes_of demo_root demo_rest) = demo_entries"
proof -
  note o = demo_dir_ok(1) [unfolded dir_ok_def open_ok_def]
  have "idata demo_root = get_inode (cache_content demo_dir 1)"
    using get_put_inode [OF demo_dir_inode_ok, of 108 2] by (simp add: demo_dir_cache demo_root_def)
  then have r: "demo_root = \<lparr>sector_no = ROOT_DIR_SECTOR, open_cnt = 1, removed = False, deny_write_cnt = 0,
      idata = get_inode (cache_content demo_dir 1)\<rparr>" by (simp add: demo_root_def)
  show "at_rest demo_root demo_rest"
    using o r demo_dir_cache(4) by (simp add: at_rest_def demo_rest_def)
  show "entries_of (bytes_of demo_root demo_rest) = demo_entries"
    using demo_dir_ok(2) by (simp add: demo_rest_def)
qed

section \<open>Properties\<close>

lemma takeWhile_shorter: "length (takeWhile (\<lambda>c. c \<noteq> x) xs) < length xs \<longleftrightarrow> x \<in> set xs"
  by (induction xs) auto

text \<open>
  C33: The arrays of \<open>filesys_create\<close> and \<open>filesys_remove\<close> hold both parts of a path exactly when
  the path has a slash and is not the root alone. For every other path, so for every plain name,
  \<open>split_path_filename\<close> writes the null character of a part behind the end of its array.
\<close>

theorem path_arrays_fit:
  "(case split_path_filename path of (directory, file_name) \<Rightarrow> fits_path path directory \<and> fits_path path file_name) =
      (slash \<in> set path \<and> path \<noteq> ''/'') \<and>
    (slash \<notin> set path \<or> path = ''/'' \<longrightarrow> filesys_create path initial_size dir s = None \<and> filesys_remove path s = None)"
proof -
  define r where "r = (if path \<noteq> [] \<and> hd path = slash then [slash] else [])"
  let ?ts = "path_tokens path" and ?fits = "case split_path_filename path of (directory, file_name) \<Rightarrow> fits_path path directory \<and> fits_path path file_name"
  note ok = path_tokens_names [of path]
  have len: "length (join_path ?ts) + length r \<le> length path + 1" using path_tokens_length [of path] by (auto simp: r_def)
  have fits: "?fits = (slash \<in> set path \<and> path \<noteq> ''/'')"
  proof (cases "?ts = []")
    case True
    then have "split_path_filename path = (r, [])" by (simp add: split_path_filename_def r_def)
    moreover have "slash \<in> set path" if "path \<noteq> []" using True path_tokens_name(2) [of path] that by (auto simp: path_name_def)
    moreover have "hd path = slash" if "path \<noteq> []"
    proof (rule ccontr)
      assume "hd path \<noteq> slash"
      then have "dropWhile (\<lambda>c. c = slash) path = path" using that by (cases path) simp_all
      then show False using True that by (subst (asm) path_tokens.simps) (simp add: Let_def)
    qed
    ultimately show ?thesis by (cases path) (auto simp: fits_path_def r_def Suc_le_eq)
  next
    case False
    then have s: "split_path_filename path = (r @ join_path (butlast ?ts), last ?ts)"
      using split_tokens_names [OF ok False] by (simp add: split_path_filename_def r_def)
    have ts: "?ts = butlast ?ts @ [last ?ts]" using False by simp
    have "length (join_path (butlast ?ts)) + length (last ?ts) + 1 = length (join_path ?ts)"
      using arg_cong [OF ts, of "\<lambda>xs. length (join_path xs)"] by simp
    then have l: "length (r @ join_path (butlast ?ts)) + length (last ?ts) \<le> length path" using len by simp
    have n: "last ?ts \<noteq> []" using ok False by (auto simp: path_name_def)
    have root: "path \<noteq> ''/''" using False by auto
    have "length (last ?ts) < length path \<longleftrightarrow> slash \<in> set path"
    proof (cases "r @ join_path (butlast ?ts) = []")
      case True
      then have "path = [] \<or> hd path \<noteq> slash" by (auto simp: r_def split: if_splits)
      then have d: "dropWhile (\<lambda>c. c = slash) path = path" by (cases path) simp_all
      have "butlast ?ts = []" using True by (cases "butlast ?ts") simp_all
      then have "?ts = [last ?ts]" using ts by simp
      moreover have "hd ?ts = takeWhile (\<lambda>c. c \<noteq> slash) path" using False d by (subst path_tokens.simps) (auto simp: Let_def)
      ultimately have w: "last ?ts = takeWhile (\<lambda>c. c \<noteq> slash) path" by (metis list.sel(1))
      then show ?thesis by (simp add: takeWhile_shorter)
    next
      case d: False
      then have "length (last ?ts) < length path" using l by (cases "r @ join_path (butlast ?ts)") simp_all
      moreover have "slash \<in> set path"
      proof (rule ccontr)
        assume "slash \<notin> set path"
        moreover have "path \<noteq> []" using False by auto
        ultimately have "?ts = [path]" by (intro path_tokens_name(2)) (simp add: path_name_def)
        then show False using \<open>length (last ?ts) < length path\<close> by simp
      qed
      ultimately show ?thesis by simp
    qed
    then show ?thesis using s l n root by (cases "last ?ts") (auto simp: fits_path_def)
  qed
  obtain directory file_name where s: "split_path_filename path = (directory, file_name)" by fastforce
  have "filesys_create path initial_size dir s = None \<and> filesys_remove path s = None" if "slash \<notin> set path \<or> path = ''/''"
  proof -
    have e: "(fits_path path directory \<and> fits_path path file_name) = False" using fits that s by auto
    show ?thesis unfolding filesys_create_def filesys_remove_def s Let_def prod.case e guard_opt_simps Option.bind.simps by simp
  qed
  with fits show ?thesis by blast
qed

theorem path_arrays_fit_witness: "filesys_create ''a'' 0 False demo_rest = None \<and> filesys_remove ''a'' demo_rest = None"
  using path_arrays_fit [of "''a''" 0 False demo_rest] by simp

end
