(* ===== verification/Fs_Reserve.thy ===== *)
theory Fs_Reserve
  imports Fs_Filesys
begin

text \<open>
  What \<open>inode_reserve\<close>, \<open>inode_create\<close> and a write behind the end of a file do to the sectors.

  \<open>used\<close> is the set of sectors the free map has marked. \<open>takes f s W X t\<close> is the effect of all
  allocating operations: from \<open>s\<close> to \<open>t\<close> the free sectors \<open>X\<close> were marked, and of the sectors in use
  before only those in \<open>W\<close> and the data of the file \<open>f\<close> of the free map may have changed.
\<close>

section \<open>Sectors in use\<close>

definition used :: "fs_state \<Rightarrow> u32 set" where
  "used s = {x. unat x < bit_cnt (free_map s) \<and> bools (free_map s) ! unat x}"

definition free_count :: "fs_state \<Rightarrow> nat" where
  "free_count s = bit_cnt (free_map s) - card (used s)"

definition file_data :: "(u32 \<Rightarrow> u8 list) \<Rightarrow> inode_disk \<Rightarrow> u32 set" where
  "file_data c d = set (data_sectors c d (num_blocks d))"

definition file_map :: "(u32 \<Rightarrow> u8 list) \<Rightarrow> inode_disk \<Rightarrow> u32 set" where
  "file_map c d = set (map_sectors c d (num_blocks d))"

text \<open>A file system in which sectors can be allocated; \<open>f\<close> is the inode of the free map.\<close>

definition alloc_ok :: "inode_disk \<Rightarrow> fs_state \<Rightarrow> bool" where
  "alloc_ok f s \<longleftrightarrow> fm_wf f s \<and> (\<forall>x. unat x < bit_cnt (free_map s) \<longrightarrow> cache_valid s x) \<and> 0 \<in> used s \<and>
     file_data (cache_content s) f \<union> file_map (cache_content s) f \<subseteq> used s - {0}"

definition takes :: "inode_disk \<Rightarrow> fs_state \<Rightarrow> u32 set \<Rightarrow> u32 set \<Rightarrow> fs_state \<Rightarrow> bool" where
  "takes f s W X t \<longleftrightarrow> alloc_ok f s \<and> alloc_ok f t \<and> cache_valid t = cache_valid s \<and> bit_cnt (free_map t) = bit_cnt (free_map s) \<and>
     X \<inter> used s = {} \<and> used t = used s \<union> X \<and> file_data (cache_content t) f = file_data (cache_content s) f \<and>
     file_map (cache_content t) f = file_map (cache_content s) f \<and>
     (\<forall>y \<in> used s - W - file_data (cache_content s) f. cache_content t y = cache_content s y) \<and>
     cache_state.more (t\<lparr>free_map := free_map s\<rparr>) = cache_state.more s"

lemma finite_used [simp]: "finite (used s)"
  by simp

lemma used_bound: "card (used s) \<le> bit_cnt (free_map s)"
proof -
  have "unat ` used s \<subseteq> {..<bit_cnt (free_map s)}" by (auto simp: used_def)
  then have "card (unat ` used s) \<le> bit_cnt (free_map s)" by (metis card_lessThan card_mono finite_lessThan)
  moreover have "card (unat ` used s) = card (used s)" by (rule card_image) (simp add: inj_on_def word_unat_eq_iff)
  ultimately show ?thesis by simp
qed

lemma alloc_okD:
  assumes "alloc_ok f s"
  shows "fm_wf f s" and "\<And>x. x \<in> used s \<Longrightarrow> cache_valid s x" and "0 \<in> used s" and "cache_inv s"
    and "file_data (cache_content s) f \<subseteq> used s" and "file_map (cache_content s) f \<subseteq> used s"
    and "0 \<notin> file_data (cache_content s) f" and "0 \<notin> file_map (cache_content s) f"
    and "file_data (cache_content s) f \<inter> file_map (cache_content s) f = {}"
  using assms by (auto simp: alloc_ok_def used_def fm_wf_def blocks_distinct_def file_data_def file_map_def)

lemma takes_refl: "alloc_ok f s \<Longrightarrow> takes f s {} {} s"
  by (simp add: takes_def)

lemma takesD:
  assumes "takes f s W X t"
  shows "alloc_ok f t" and "cache_valid t = cache_valid s" and "X \<inter> used s = {}" and "used t = used s \<union> X"
    and "file_data (cache_content t) f = file_data (cache_content s) f"
    and "file_map (cache_content t) f = file_map (cache_content s) f"
    and "\<And>y. y \<in> used s \<Longrightarrow> y \<notin> W \<Longrightarrow> y \<notin> file_data (cache_content s) f \<Longrightarrow> cache_content t y = cache_content s y"
    and "cache_inv t"
  using assms alloc_okD(4) by (auto simp: takes_def)

lemma takes_new:
  assumes "takes f s W X t" and "x \<in> X"
  shows "x \<notin> used s" and "x \<in> used t" and "x \<noteq> 0" and "x \<notin> file_data (cache_content t) f" and "x \<notin> file_map (cache_content t) f"
proof -
  have s: "alloc_ok f s" using assms(1) by (simp add: takes_def)
  show "x \<notin> used s" "x \<in> used t" using takesD(3,4) [OF assms(1)] assms(2) by blast+
  then show "x \<noteq> 0" "x \<notin> file_data (cache_content t) f" "x \<notin> file_map (cache_content t) f"
    using takesD(5,6) [OF assms(1)] alloc_okD(3,5,6) [OF s] by blast+
qed

lemma takes_free_count: "takes f s W X t \<Longrightarrow> free_count t + card X = free_count s"
proof -
  assume t: "takes f s W X t"
  then have "card (used t) = card (used s) + card X"
    by (simp add: takesD(4) card_Un_disjoint takesD(3) Int_commute)
  moreover have "card (used t) \<le> bit_cnt (free_map t)" by (rule used_bound)
  moreover have "bit_cnt (free_map t) = bit_cnt (free_map s)" using t by (simp add: takes_def)
  ultimately show ?thesis by (simp add: free_count_def)
qed

lemma more_free_map:
  fixes s t u :: fs_state
  assumes "cache_state.more (t\<lparr>free_map := free_map s\<rparr>) = cache_state.more s"
    and "cache_state.more (u\<lparr>free_map := free_map t\<rparr>) = cache_state.more t"
  shows "cache_state.more (u\<lparr>free_map := free_map s\<rparr>) = cache_state.more s"
  using assms by (cases s; cases t; cases u) simp

lemma takes_trans:
  assumes "takes f s W X t" and "takes f t W' Y u" and "W' \<subseteq> W \<union> X"
  shows "takes f s W (X \<union> Y) u"
proof -
  have "cache_content u y = cache_content s y" if "y \<in> used s" "y \<notin> W" "y \<notin> file_data (cache_content s) f" for y
  proof -
    have "y \<notin> W'" using that(1,2) assms(3) takesD(3) [OF assms(1)] by blast
    with that show ?thesis using takesD(4,5,7) [OF assms(1)] takesD(7) [OF assms(2), of y] by simp
  qed
  moreover have "cache_state.more (u\<lparr>free_map := free_map s\<rparr>) = cache_state.more s"
    by (rule more_free_map [where t = t]) (use assms(1,2) in \<open>simp_all add: takes_def\<close>)
  ultimately show ?thesis using assms(1,2) by (auto simp: takes_def)
qed

lemma takes_mono: "takes f s W X t \<Longrightarrow> W \<subseteq> W' \<Longrightarrow> takes f s W' X t"
  by (auto simp: takes_def)

section \<open>The steps\<close>

lemma used_more:
  fixes s t :: fs_state
  shows "cache_state.more t = cache_state.more s \<Longrightarrow> used t = used s"
  unfolding used_def by (drule more_fields(5)) simp

lemma takes_same:
  assumes "alloc_ok f s" and "same_sectors s t"
  shows "takes f s {} {} t"
proof -
  note a = alloc_okD [OF assms(1)] and c = same_sectorsD [OF assms(2)]
  have wf: "inode_wf (cache_valid s) (cache_content s) f" using a(1) by (simp add: fm_wf_def)
  then have m: "\<forall>x \<in> set (map_sectors (cache_content s) f (num_blocks f)). cache_content t x = cache_content s x"
    using c(3) inode_wfD(4) by blast
  have fm: "fm_wf f t" by (rule fm_wf_data_written [OF a(1) same_data_written [OF assms(2)]])
  have d: "file_data (cache_content t) f = file_data (cache_content s) f" "file_map (cache_content t) f = file_map (cache_content s) f"
    by (simp_all add: file_data_def file_map_def data_sectors_cong [OF m] map_sectors_cong [OF m])
  have u: "used t = used s" using c(4) by (rule used_more)
  have f: "free_map t = free_map s" by (rule more_fields(5) [OF c(4)])
  have "cache_state.more (t\<lparr>free_map := free_map s\<rparr>) = cache_state.more s"
    using c(4) by (cases s; cases t) simp
  then show ?thesis using assms(1) fm d u f c a by (simp add: takes_def alloc_ok_def)
qed

lemma takes_write:
  assumes "alloc_ok f s" and "set_sector s x b t" and "x \<in> used s" and "x \<notin> file_data (cache_content s) f"
    and "x \<notin> file_map (cache_content s) f"
  shows "takes f s {x} {} t" and "cache_content t x = b"
proof -
  note a = alloc_okD [OF assms(1)]
  have more: "cache_state.more t = cache_state.more s" and inv: "cache_inv t" "cache_valid t = cache_valid s"
    and c: "\<And>y. cache_valid s y \<Longrightarrow> cache_content t y = (if y = x then b else cache_content s y)"
    using assms(2) by (simp_all add: set_sector_def)
  have wf: "inode_wf (cache_valid s) (cache_content s) f" using a(1) by (simp add: fm_wf_def)
  then have m: "\<forall>y \<in> set (map_sectors (cache_content s) f (num_blocks f)). cache_content t y = cache_content s y"
    using c inode_wfD(4) [OF wf] assms(5) unfolding file_map_def by force
  have d: "file_data (cache_content t) f = file_data (cache_content s) f" "file_map (cache_content t) f = file_map (cache_content s) f"
    by (simp_all add: file_data_def file_map_def data_sectors_cong [OF m] map_sectors_cong [OF m])
  have f: "free_map t = free_map s" by (rule more_fields(5) [OF more])
  have "fm_wf f t"
    using a(1) inv f more_fields [OF more] inode_wf_cong [OF m] by (simp add: fm_wf_def)
  moreover have "cache_state.more (t\<lparr>free_map := free_map s\<rparr>) = cache_state.more s"
    using more by (cases s; cases t) simp
  ultimately show "takes f s {x} {} t"
    using assms(1) d f inv c a used_more [OF more] by (auto simp: takes_def alloc_ok_def)
  show "cache_content t x = b" using c [OF a(2) [OF assms(3)]] by simp
qed

lemma takes_allocate:
  assumes "alloc_ok f s" and "0 < free_count s"
  obtains x t where "free_map_allocate 1 s = Some (Some x, t)" and "takes f s {} {x} t"
proof -
  note a = alloc_okD [OF assms(1)]
  have wf: "inode_wf (cache_valid s) (cache_content s) f" "blocks_distinct (cache_content s) f" "bit_cnt (free_map s) < 2 ^ 32"
    using a(1) by (simp_all add: fm_wf_def)
  have word: "unat (of_nat i :: u32) = i" if "i < bit_cnt (free_map s)" for i
    using that wf(3) by (simp add: unat_of_nat take_bit_nat_eq_self)
  have "\<not> (\<forall>i < bit_cnt (free_map s). bools (free_map s) ! i)"
  proof
    assume full: "\<forall>i < bit_cnt (free_map s). bools (free_map s) ! i"
    have "(of_nat :: nat \<Rightarrow> u32) ` {..<bit_cnt (free_map s)} \<subseteq> used s"
      using full word by (auto simp: used_def)
    then have "card ((of_nat :: nat \<Rightarrow> u32) ` {..<bit_cnt (free_map s)}) \<le> card (used s)" by (intro card_mono) simp_all
    moreover have "inj_on (of_nat :: nat \<Rightarrow> u32) {..<bit_cnt (free_map s)}"
      using word by (intro inj_onI) (metis lessThan_iff)
    ultimately show False using assms(2) by (simp add: card_image free_count_def)
  qed
  then obtain i t where i: "i < bit_cnt (free_map s)" "\<not> bools (free_map s) ! i"
      "free_map_allocate 1 s = Some (Some (of_nat i), t)" "fm_wf f t"
      "bools (free_map t) = (bools (free_map s))[i := True]" "data_written s f (t\<lparr>free_map := free_map s\<rparr>)"
    using free_map_allocate_ok [OF a(1)] by blast
  let ?x = "of_nat i :: u32"
  have x: "unat ?x = i" using word i(1) by simp
  have cnt: "bit_cnt (free_map t) = bit_cnt (free_map s)" using arg_cong [OF i(5), of length] by simp
  have used: "used t = used s \<union> {?x}"
    using i(1) x unfolding used_def cnt i(5) by (auto simp: nth_list_update word_unat_eq_iff simp del: nth_bools)
  have new: "?x \<notin> used s" using i(2) x by (simp add: used_def)
  note dw = i(6) [unfolded data_written_def]
  note m = data_written_map [OF i(6) wf(1,2)]
  have d: "file_data (cache_content t) f = file_data (cache_content s) f" "file_map (cache_content t) f = file_map (cache_content s) f"
    using data_sectors_cong [OF m] map_sectors_cong [OF m] by (simp_all add: file_data_def file_map_def)
  have "takes f s {} {?x} t"
    using dw cnt used new d i(4) assms(1) a by (auto simp: takes_def alloc_ok_def file_data_def)
  then show thesis using i(3) that by blast
qed

section \<open>New sectors\<close>

text \<open>The sectors \<open>g k\<close> for \<open>k \<in> A\<close> are different, in \<open>X\<close>, and filled with zeros.\<close>

definition fresh :: "(u32 \<Rightarrow> u8 list) \<Rightarrow> u32 set \<Rightarrow> (nat \<Rightarrow> u32) \<Rightarrow> nat set \<Rightarrow> bool" where
  "fresh c X g A \<longleftrightarrow> inj_on g A \<and> g ` A \<subseteq> X \<and> (\<forall>k \<in> A. c (g k) = zeros)"

lemma fresh_empty [simp]: "fresh c X g {}"
  by (simp add: fresh_def)

lemma fresh_Un:
  assumes "fresh c X g A" and "fresh c Y g B" and "X \<inter> Y = {}"
  shows "fresh c (X \<union> Y) g (A \<union> B)"
proof -
  have "g ` (A - B) \<inter> g ` (B - A) = {}" using assms unfolding fresh_def by blast
  then have "inj_on g (A \<union> B)" using assms unfolding fresh_def by (simp add: inj_on_Un)
  then show ?thesis using assms unfolding fresh_def by blast
qed

lemma fresh_mono: "fresh c X g A \<Longrightarrow> X \<subseteq> Y \<Longrightarrow> fresh c Y g A"
  unfolding fresh_def by blast

lemma fresh_cong: "fresh c X g A \<Longrightarrow> (\<And>k. k \<in> A \<Longrightarrow> g' k = g k) \<Longrightarrow> fresh c X g' A"
  unfolding fresh_def by (auto simp: inj_on_def)

text \<open>New sectors stay as they are when more sectors are taken.\<close>

lemma fresh_later:
  assumes "fresh (cache_content t) X g A" and "takes f s W Z t" and "takes f t W' Y u" and "X \<inter> W' = {}" and "X \<subseteq> Z"
  shows "fresh (cache_content u) X g A"
proof -
  have "cache_content u y = cache_content t y" if "y \<in> X" for y
    using takesD(7) [OF assms(3)] takes_new [OF assms(2), of y] that assms(4,5) by blast
  then show ?thesis using assms(1) unfolding fresh_def by auto
qed

lemma reserve_row:
  assumes "alloc_ok f s" and "i + l \<le> length xs" and "\<forall>j. i \<le> j \<and> j < i + l \<longrightarrow> (xs ! j = 0) = (m \<le> j)"
    and "i + l - max i m \<le> free_count s"
  shows "\<exists>ys X t. reserve_blocks reserve_sector un l i num xs s = Some ((True, ys), t) \<and> takes f s {} X t \<and>
    card X = i + l - max i m \<and> length ys = length xs \<and> (\<forall>j. j < i \<or> i + l \<le> j \<or> j < m \<longrightarrow> ys ! j = xs ! j) \<and>
    fresh (cache_content t) X ((!) ys) {max i m..<i + l}"
  using assms
proof (induction l arbitrary: i num xs s)
  case 0
  then show ?case using takes_refl [OF 0(1)] by force
next
  case (Suc l)
  show ?case
  proof (cases "i < m")
    case True
    then have e: "xs ! i \<noteq> 0" using Suc.prems(3) by auto
    have max: "max (Suc i) m = max i m" using True by simp
    obtain ys X t where t: "reserve_blocks reserve_sector un l (Suc i) (num - min num un) xs s = Some ((True, ys), t)"
      "takes f s {} X t" "card X = Suc i + l - max i m" "length ys = length xs" "\<forall>j. j < Suc i \<or> Suc i + l \<le> j \<or> j < m \<longrightarrow> ys ! j = xs ! j"
      "fresh (cache_content t) X ((!) ys) {max i m..<Suc i + l}"
      using Suc.IH [of s "Suc i" xs "num - min num un"] Suc.prems unfolding max by force
    then show ?thesis using e Suc.prems(2)
      by (intro exI [of _ ys] exI [of _ X] exI [of _ t]) (simp add: reserve_sector_def [of "xs ! i"] Let_def)
  next
    case False
    then have e: "xs ! i = 0" and max: "max i m = i" "max (Suc i) m = Suc i" using Suc.prems(3) by auto
    have "0 < free_count s" using Suc.prems(4) max by simp
    then obtain x s1 where s1: "free_map_allocate 1 s = Some (Some x, s1)" "takes f s {} {x} s1"
      using takes_allocate [OF Suc.prems(1)] by blast
    note x = takes_new [OF s1(2), of x, simplified]
    obtain s2 where s2: "buffer_cache_write x zeros s1 = Some s2" "set_sector s1 x zeros s2"
      using writeE [OF takesD(8) [OF s1(2)] alloc_okD(2) [OF takesD(1) [OF s1(2)] x(2)], of zeros] by auto
    note w = takes_write [OF takesD(1) [OF s1(2)] s2(2) x(2,4,5)]
    have t2: "takes f s {} {x} s2" using takes_trans [OF s1(2) w(1)] by simp
    have fc: "Suc (free_count s2) = free_count s" using takes_free_count [OF t2] by simp
    let ?xs = "xs[i := x]"
    obtain ys X t where t: "reserve_blocks reserve_sector un l (Suc i) (num - min num un) ?xs s2 = Some ((True, ys), t)"
      "takes f s2 {} X t" "card X = Suc i + l - Suc i" "length ys = length xs"
      "\<forall>j. j < Suc i \<or> Suc i + l \<le> j \<or> j < m \<longrightarrow> ys ! j = ?xs ! j" "fresh (cache_content t) X ((!) ys) {Suc i..<Suc i + l}"
      using Suc.IH [of s2 "Suc i" ?xs "num - min num un"] Suc.prems fc takesD(1) [OF t2] unfolding max by force
    have yi: "ys ! i = x" using t(5) Suc.prems(2) by simp
    have "fresh (cache_content s2) {x} ((!) ys) {i}" using yi w(2) by (simp add: fresh_def)
    then have f: "fresh (cache_content t) {x} ((!) ys) {i}" using fresh_later [OF _ t2 t(2)] by blast
    have dis: "{x} \<inter> X = {}" using takesD(3) [OF t(2)] takesD(4) [OF t2] by blast
    have "{i} \<union> {Suc i..<Suc i + l} = {i..<i + Suc l}" by auto
    then have "fresh (cache_content t) ({x} \<union> X) ((!) ys) {i..<i + Suc l}" using fresh_Un [OF f t(6) dis] by simp
    moreover have "takes f s {} ({x} \<union> X) t" using takes_trans [OF t2 t(2)] by simp
    moreover have "card ({x} \<union> X) = i + Suc l - i" using t(3) dis by simp
    moreover have "\<forall>j. j < i \<or> i + Suc l \<le> j \<or> j < m \<longrightarrow> ys ! j = xs ! j" using t(5) False by (auto simp: nth_list_update)
    moreover have "reserve_blocks reserve_sector un (Suc l) i num xs s = Some ((True, ys), t)"
      using e s1(1) s2(1) t(1) Suc.prems(2) by (simp add: reserve_sector_def [of 0] Let_def)
    ultimately show ?thesis unfolding max using t(4) by blast
  qed
qed

text \<open>
  An indirect block: its entry is 0 as long as it has no sectors, and else its first \<open>m\<close> entries
  are those that are set.
\<close>

definition row_ok :: "(u32 \<Rightarrow> u8 list) \<Rightarrow> u32 \<Rightarrow> nat \<Rightarrow> bool" where
  "row_ok c e m \<longleftrightarrow> (if e = 0 then m = 0 else \<forall>j < 128. (get_blocks (c e) ! j = 0) = (m \<le> j))"

definition block_ok :: "inode_disk \<Rightarrow> fs_state \<Rightarrow> u32 \<Rightarrow> bool" where
  "block_ok f s e \<longleftrightarrow> e \<noteq> 0 \<longrightarrow> e \<in> used s \<and> e \<notin> file_data (cache_content s) f \<and> e \<notin> file_map (cache_content s) f"

lemma get_blocks_zeros: "j < 128 \<Longrightarrow> get_blocks zeros ! j = 0"
  by (simp add: get_blocks_def nth_le_chunks le_word_zeros)

text \<open>The first part of \<open>inode_reserve_indirect\<close>: the indirect block gets a sector unless it has one.\<close>

lemma reserve_entry:
  assumes "alloc_ok f s" and "row_ok (cache_content s) e m" and "block_ok f s e" and "(if e = 0 then 1 else 0) \<le> free_count s"
  obtains e' A t where "(if e = 0 then do {
         (r, s) \<leftarrow> free_map_allocate 1 s;
         let entry = (case r of None \<Rightarrow> e | Some x \<Rightarrow> x);
         s \<leftarrow> buffer_cache_write entry zeros s;
         Some (entry, s) } else Some (e, s)) = Some (e', t)"
    and "takes f s {} A t" and "A = (if e = 0 then {e'} else {})" and "e \<noteq> 0 \<longrightarrow> e' = e \<and> t = s" and "e' \<noteq> 0" and "block_ok f t e'"
    and "\<forall>j < 128. (get_blocks (cache_content t e') ! j = 0) = (m \<le> j)"
proof (cases "e = 0")
  case True
  then have "0 < free_count s" using assms(4) by simp
  then obtain x s1 where s1: "free_map_allocate 1 s = Some (Some x, s1)" "takes f s {} {x} s1"
    using takes_allocate [OF assms(1)] by blast
  note x = takes_new [OF s1(2), of x, simplified]
  obtain s2 where s2: "buffer_cache_write x zeros s1 = Some s2" "set_sector s1 x zeros s2"
    using writeE [OF takesD(8) [OF s1(2)] alloc_okD(2) [OF takesD(1) [OF s1(2)] x(2)], of zeros] by auto
  note w = takes_write [OF takesD(1) [OF s1(2)] s2(2) x(2,4,5)]
  have t2: "takes f s {} {x} s2" using takes_trans [OF s1(2) w(1)] by simp
  have "m = 0" using assms(2) True by (simp add: row_ok_def)
  then have "\<forall>j < 128. (get_blocks (cache_content s2 x) ! j = 0) = (m \<le> j)" using w(2) get_blocks_zeros by simp
  moreover have "block_ok f s2 x" using takes_new [OF t2, of x] by (simp add: block_ok_def)
  ultimately show thesis using True s1(1) s2(1) t2 x(3) by (intro that [of x s2 "{x}"]) simp_all
next
  case False
  then show thesis using assms takes_refl by (intro that [of e s "{}"]) (simp_all add: row_ok_def)
qed

lemma reserve_indirect_1:
  assumes "alloc_ok f s" and "row_ok (cache_content s) e m" and "block_ok f s e" and "m \<le> num" and "num \<le> 128"
    and "num - m + (if e = 0 then 1 else 0) \<le> free_count s"
  shows "\<exists>e' A X t. inode_reserve_indirect 1 e num s = Some ((True, e'), t) \<and> takes f s ({e} - {0}) (A \<union> X) t \<and>
    A = (if e = 0 then {e'} else {}) \<and> (e \<noteq> 0 \<longrightarrow> e' = e) \<and> A \<inter> X = {} \<and> card X = num - m \<and> e' \<noteq> 0 \<and> block_ok f t e' \<and>
    row_ok (cache_content t) e' num \<and> (\<forall>j < m. get_blocks (cache_content t e') ! j = get_blocks (cache_content s e) ! j) \<and>
    fresh (cache_content t) X (\<lambda>j. get_blocks (cache_content t e') ! j) {m..<num}"
proof -
  have "(if e = 0 then 1 else 0) \<le> free_count s" using assms(6) by linarith
  from reserve_entry [OF assms(1-3) this] obtain e' A s1 where
    s1: "(if e = 0 then do {
         (r, s) \<leftarrow> free_map_allocate 1 s;
         let entry = (case r of None \<Rightarrow> e | Some x \<Rightarrow> x);
         s \<leftarrow> buffer_cache_write entry zeros s;
         Some (entry, s) } else Some (e, s)) = Some (e', s1)"
    "takes f s {} A s1" "A = (if e = 0 then {e'} else {})" "e \<noteq> 0 \<longrightarrow> e' = e \<and> s1 = s" "e' \<noteq> 0" "block_ok f s1 e'"
    "\<forall>j < 128. (get_blocks (cache_content s1 e') ! j = 0) = (m \<le> j)" .
  note a1 = takesD(1) [OF s1(2)]
  have e': "e' \<in> used s1" "e' \<notin> file_data (cache_content s1) f" "e' \<notin> file_map (cache_content s1) f"
    using s1(5,6) by (simp_all add: block_ok_def)
  let ?xs = "get_blocks (cache_content s1 e')"
  obtain s2 where s2: "buffer_cache_read e' s1 = Some (cache_content s1 e', s2)" "same_sectors s1 s2"
    using readE [OF alloc_okD(4) [OF a1] alloc_okD(2) [OF a1 e'(1)]] by blast
  have t2: "takes f s1 {} {} s2" by (rule takes_same [OF a1 s2(2)])
  have "free_count s2 = free_count s1" using takes_free_count [OF t2] by simp
  moreover have "free_count s1 + (if e = 0 then 1 else 0) = free_count s"
    using takes_free_count [OF s1(2)] s1(3) by (simp split: if_splits)
  ultimately have room: "num - m \<le> free_count s2" using assms(6) by linarith
  obtain ys X s3 where s3: "reserve_blocks reserve_sector 1 num 0 num ?xs s2 = Some ((True, ys), s3)" "takes f s2 {} X s3"
    "card X = num - m" "length ys = 128" "\<forall>j. num \<le> j \<or> j < m \<longrightarrow> ys ! j = ?xs ! j" "fresh (cache_content s3) X ((!) ys) {m..<num}"
    using reserve_row [OF takesD(1) [OF t2], of 0 num ?xs m 1 num] s1(7) assms(5) room by auto
  have t3: "takes f s1 {} X s3" using takes_trans [OF t2 s3(2)] by simp
  note a3 = takesD(1) [OF t3]
  have e3: "e' \<in> used s3" "e' \<notin> file_data (cache_content s3) f" "e' \<notin> file_map (cache_content s3) f"
    using e' takesD(4-6) [OF t3] by auto
  have eX: "e' \<notin> X" using takesD(3) [OF t3] e'(1) by blast
  obtain t where t: "buffer_cache_write e' (put_blocks ys) s3 = Some t" "set_sector s3 e' (put_blocks ys) t"
    using writeE [OF takesD(8) [OF t3] alloc_okD(2) [OF a3 e3(1)], of "put_blocks ys"] s3(4) by auto
  note w = takes_write [OF a3 t(2) e3]
  have t4: "takes f s ({e} - {0}) (A \<union> (X \<union> {})) t"
  proof (rule takes_trans)
    show "takes f s ({e} - {0}) A s1" by (rule takes_mono [OF s1(2)]) simp
    show "takes f s1 {e'} (X \<union> {}) t"
      by (rule takes_trans [OF takes_mono [OF t3] w(1)]) simp_all
    show "{e'} \<subseteq> {e} - {0} \<union> A" using s1(3-5) by auto
  qed
  have ys: "get_blocks (cache_content t e') = ys" using w(2) s3(4) by (simp add: get_put_blocks)
  have "fresh (cache_content t) X ((!) ys) {m..<num}"
    by (rule fresh_later [OF s3(6) s3(2) w(1)]) (use eX in simp_all)
  moreover have "row_ok (cache_content t) e' num"
  proof -
    have "ys ! j \<noteq> 0" if "m \<le> j" "j < num" for j
    proof -
      have "ys ! j \<in> X" using s3(6) that by (simp add: fresh_def image_subset_iff)
      then show ?thesis by (rule takes_new(3) [OF s3(2)])
    qed
    then have "(ys ! j = 0) = (num \<le> j)" if "j < 128" for j
      using s3(5) s1(7) that assms(4) by (cases "num \<le> j"; cases "m \<le> j") auto
    then show ?thesis using ys s1(5) by (simp add: row_ok_def)
  qed
  moreover have "\<forall>j < m. ys ! j = get_blocks (cache_content s e) ! j"
    using s3(5) s1(4) assms(2) by (auto simp: row_ok_def split: if_splits)
  moreover have "inode_reserve_indirect 1 e num s = Some ((True, e'), t)"
    using s1(1) s2(1) s3(1) t(1) by (simp add: One_nat_def del: One_nat_def [symmetric])
  moreover have "A \<inter> X = {}" using eX s1(3) by auto
  moreover have "block_ok f t e'" using takesD(4-6) [OF w(1)] e3 by (simp add: block_ok_def)
  ultimately show ?thesis using s1(3-5) s3(3) t4 ys by (intro exI [of _ e'] exI [of _ A] exI [of _ X] exI [of _ t]) simp
qed

section \<open>The doubly indirect block\<close>

text \<open>How many of the first \<open>n\<close> blocks below a doubly indirect block are in its row \<open>j\<close>.\<close>

definition row_size :: "nat \<Rightarrow> nat \<Rightarrow> nat" where
  "row_size n j = min 128 (n - 128 * j)"

lemma row_size_le [simp]: "row_size n j \<le> 128"
  by (simp add: row_size_def)

lemma row_size_mono: "m \<le> n \<Longrightarrow> row_size m j \<le> row_size n j"
  by (auto simp: row_size_def)

lemma row_members: "{k. m \<le> k \<and> k < n \<and> k div 128 = i} = (\<lambda>j. 128 * i + j) ` {row_size m i..<row_size n i}"
proof (intro set_eqI iffI)
  fix k assume "k \<in> {k. m \<le> k \<and> k < n \<and> k div 128 = i}"
  then have "m \<le> k" "k < n" "k div 128 = i" by auto
  then have k: "m \<le> k" "k < n" "128 * i \<le> k" "k < 128 * i + 128" by linarith+
  then show "k \<in> (\<lambda>j. 128 * i + j) ` {row_size m i..<row_size n i}"
    by (intro image_eqI [where x = "k - 128 * i"]) (auto simp: row_size_def min_def)
next
  fix k assume "k \<in> (\<lambda>j. 128 * i + j) ` {row_size m i..<row_size n i}"
  then show "k \<in> {k. m \<le> k \<and> k < n \<and> k div 128 = i}" by (auto simp: row_size_def min_def split: if_splits)
qed

lemma fresh_image:
  assumes "fresh c X h A" and "\<And>j. j \<in> A \<Longrightarrow> g (f j) = h j"
  shows "fresh c X g (f ` A)"
proof -
  have "inj_on g (f ` A)"
    using assms unfolding fresh_def by (intro inj_on_imageI) (simp add: inj_on_def)
  then show ?thesis using assms by (auto simp: fresh_def)
qed

lemma fresh_row:
  assumes "fresh c X h {row_size m i..<row_size n i}" and "\<And>j. j < 128 \<Longrightarrow> g (128 * i + j) = h j"
  shows "fresh c X g {k. m \<le> k \<and> k < n \<and> k div 128 = i}"
  unfolding row_members
  by (rule fresh_image [OF assms(1)]) (use assms(2) order_less_le_trans [OF _ row_size_le [of n i]] in simp)

definition row_need :: "nat \<Rightarrow> nat \<Rightarrow> u32 list \<Rightarrow> nat \<Rightarrow> nat" where
  "row_need m n xs j = row_size n j - row_size m j + (if xs ! j = 0 then 1 else 0)"

text \<open>The rows \<open>i\<close> to \<open>i + l\<close> before they are filled up.\<close>

definition rows_ok :: "inode_disk \<Rightarrow> fs_state \<Rightarrow> u32 list \<Rightarrow> nat \<Rightarrow> nat set \<Rightarrow> bool" where
  "rows_ok f s xs m J \<longleftrightarrow> (\<forall>j \<in> J. row_ok (cache_content s) (xs ! j) (row_size m j) \<and> block_ok f s (xs ! j)) \<and>
     (\<forall>j \<in> J. \<forall>k \<in> J. j \<noteq> k \<longrightarrow> xs ! j = xs ! k \<longrightarrow> xs ! j = 0)"

lemma rows_ok_subset: "rows_ok f s xs m J \<Longrightarrow> K \<subseteq> J \<Longrightarrow> rows_ok f s xs m K"
  unfolding rows_ok_def by blast

lemma rows_ok_zeros:
  assumes "rows_ok f s xs m J" and "\<And>j. j \<in> K \<Longrightarrow> j \<notin> J \<Longrightarrow> xs ! j = 0 \<and> row_size m j = 0"
  shows "rows_ok f s xs m K"
proof -
  have "row_ok (cache_content s) (xs ! j) (row_size m j) \<and> block_ok f s (xs ! j)" if "j \<in> K" for j
    using assms that by (cases "j \<in> J") (simp_all add: rows_ok_def row_ok_def block_ok_def)
  moreover have "xs ! j = 0" if "j \<in> K" "k \<in> K" "j \<noteq> k" "xs ! j = xs ! k" for j k
  proof (cases "j \<in> J \<and> k \<in> J")
    case True
    then show ?thesis using assms(1) that unfolding rows_ok_def by blast
  next
    case False
    then show ?thesis using assms(2) that by metis
  qed
  ultimately show ?thesis unfolding rows_ok_def by blast
qed

lemma row_ok_cong: "(e \<noteq> 0 \<Longrightarrow> c' e = c e) \<Longrightarrow> row_ok c' e m = row_ok c e m"
  by (simp add: row_ok_def)

lemma block_ok_takes: "takes f s W X t \<Longrightarrow> block_ok f s e \<Longrightarrow> block_ok f t e"
  using takesD(4-6) [of f s W X t] by (auto simp: block_ok_def)

lemma block_same:
  assumes "takes f s W X t" and "block_ok f s e" and "e \<noteq> 0" and "e \<notin> W"
  shows "cache_content t e = cache_content s e"
  using takesD(7) [OF assms(1)] assms(2-4) by (simp add: block_ok_def)

lemma rows_ok_takes:
  assumes "rows_ok f s xs m J" and "takes f s W X t" and "\<And>j. j \<in> J \<Longrightarrow> xs ! j \<notin> W - {0}" and "\<And>j. j \<in> J \<Longrightarrow> ys ! j = xs ! j"
  shows "rows_ok f t ys m J"
proof -
  have "row_ok (cache_content t) (xs ! j) (row_size m j) \<and> block_ok f t (xs ! j)" if "j \<in> J" for j
  proof -
    have b: "block_ok f s (xs ! j)" "row_ok (cache_content s) (xs ! j) (row_size m j)" using assms(1) that by (simp_all add: rows_ok_def)
    then have "row_ok (cache_content t) (xs ! j) (row_size m j) = row_ok (cache_content s) (xs ! j) (row_size m j)"
      using block_same [OF assms(2) b(1)] assms(3) [OF that] by (intro row_ok_cong) simp
    with b show ?thesis using block_ok_takes [OF assms(2) b(1)] by simp
  qed
  then show ?thesis using assms(1,4) by (simp add: rows_ok_def)
qed

text \<open>The entry of block \<open>k\<close> when \<open>xs\<close> are the entries of the doubly indirect block.\<close>

abbreviation second_block :: "fs_state \<Rightarrow> u32 list \<Rightarrow> nat \<Rightarrow> u32" where
  "second_block s xs k \<equiv> second_level (cache_content s) xs k"

lemma second_level_row: "j < 128 \<Longrightarrow> second_level c xs (128 * i + j) = get_blocks (c (xs ! i)) ! j"
  by (simp add: second_level_def)

definition rows_done :: "inode_disk \<Rightarrow> fs_state \<Rightarrow> u32 list \<Rightarrow> nat \<Rightarrow> nat \<Rightarrow> nat set \<Rightarrow> u32 list \<Rightarrow> u32 set \<Rightarrow> u32 set \<Rightarrow> fs_state \<Rightarrow> bool" where
  "rows_done f s xs m n J ys A X t \<longleftrightarrow> takes f s ((!) xs ` J - {0}) (A \<union> X) t \<and> A \<inter> X = {} \<and>
     card (A \<union> X) = (\<Sum>j \<in> J. row_need m n xs j) \<and> length ys = length xs \<and>
     (\<forall>j. j \<notin> J \<or> xs ! j \<noteq> 0 \<longrightarrow> ys ! j = xs ! j) \<and>
     (\<forall>j \<in> J. ys ! j \<noteq> 0 \<and> (xs ! j = 0 \<longrightarrow> ys ! j \<in> A) \<and>
        (\<forall>k < row_size m j. get_blocks (cache_content t (ys ! j)) ! k = get_blocks (cache_content s (xs ! j)) ! k)) \<and>
     rows_ok f t ys n J \<and>
     fresh (cache_content t) X (second_block t ys) {k. m \<le> k \<and> k < n \<and> k div 128 \<in> J}"

lemma rows_done_empty: "alloc_ok f s \<Longrightarrow> rows_done f s xs m n {} xs {} {} s"
  by (simp add: rows_done_def takes_refl rows_ok_def)

text \<open>One more row in front.\<close>

lemma rows_done_insert:
  assumes "rows_ok f s xs m (insert i J)" and "i \<notin> J" and "finite J" and "i < length xs"
    and one: "takes f s ({xs ! i} - {0}) (A1 \<union> X1) t1" "A1 = (if xs ! i = 0 then {e'} else {})" "xs ! i \<noteq> 0 \<longrightarrow> e' = xs ! i"
      "A1 \<inter> X1 = {}" "card X1 = row_size n i - row_size m i" "e' \<noteq> 0" "block_ok f t1 e'" "row_ok (cache_content t1) e' (row_size n i)"
      "\<forall>j < row_size m i. get_blocks (cache_content t1 e') ! j = get_blocks (cache_content s (xs ! i)) ! j"
      "fresh (cache_content t1) X1 (\<lambda>j. get_blocks (cache_content t1 e') ! j) {row_size m i..<row_size n i}"
    and rest: "rows_done f t1 (xs[i := e']) m n J ys A2 X2 t"
  shows "rows_done f s xs m n (insert i J) ys (A1 \<union> A2) (X1 \<union> X2) t"
proof -
  let ?xs = "xs[i := e']"
  have old: "block_ok f s (xs ! j)" if "j \<in> insert i J" for j using assms(1) that unfolding rows_ok_def by blast
  have xs: "?xs ! j = xs ! j" if "j \<in> J" for j using that assms(2) by (metis nth_list_update_neq)
  have ne: "xs ! j \<noteq> e'" if "j \<in> J" "xs ! j \<noteq> 0" for j
  proof (cases "xs ! i = 0")
    case True
    then have "e' \<notin> used s" using takes_new(1) [OF one(1), of e'] one(2) by simp
    moreover have "xs ! j \<in> used s" using old [of j] that by (simp add: block_ok_def)
    ultimately show ?thesis by metis
  next
    case False
    then show ?thesis using assms(1,2) that one(3) by (auto simp: rows_ok_def)
  qed
  note r = rest [unfolded rows_done_def]
  have t2: "takes f t1 ((!) xs ` J - {0}) (A2 \<union> X2) t" using r xs by (metis (no_types, lifting) image_cong)
  have tt: "takes f s ((!) xs ` insert i J - {0}) ((A1 \<union> X1) \<union> (A2 \<union> X2)) t"
    by (rule takes_trans [OF takes_mono [OF one(1)] t2]) auto
  have dis: "(A1 \<union> X1) \<inter> (A2 \<union> X2) = {}" using takesD(3) [OF t2] takesD(4) [OF one(1)] by blast
  have c1: "card (A1 \<union> X1) = row_need m n xs i"
    using one(2,4,5) by (simp add: card_Un_disjoint row_need_def)
  have "card ((A1 \<union> X1) \<union> (A2 \<union> X2)) = row_need m n xs i + (\<Sum>j \<in> J. row_need m n ?xs j)"
    using dis c1 r by (simp add: card_Un_disjoint)
  also have "(\<Sum>j \<in> J. row_need m n ?xs j) = (\<Sum>j \<in> J. row_need m n xs j)"
    by (rule sum.cong) (simp_all add: row_need_def xs)
  finally have card: "card ((A1 \<union> X1) \<union> (A2 \<union> X2)) = (\<Sum>j \<in> insert i J. row_need m n xs j)"
    using assms(2,3) by simp
  have yi: "ys ! i = e'" using r assms(2,4) by simp
  have ysj: "ys ! j = xs ! j" if "j \<notin> insert i J \<or> xs ! j \<noteq> 0" for j
    using r that xs one(3) yi by (cases "j = i") auto
  have "e' \<notin> (!) xs ` J - {0}" using ne by auto
  then have ce: "cache_content t e' = cache_content t1 e'" by (rule block_same [OF t2 one(7,6)])
  have cj: "cache_content t1 (xs ! j) = cache_content s (xs ! j)" if "j \<in> J" "xs ! j \<noteq> 0" for j
    using block_same [OF one(1) old] that assms(1,2) by (auto simp: rows_ok_def)
  have "\<forall>j \<in> insert i J. ys ! j \<noteq> 0 \<and> (xs ! j = 0 \<longrightarrow> ys ! j \<in> A1 \<union> A2) \<and>
    (\<forall>k < row_size m j. get_blocks (cache_content t (ys ! j)) ! k = get_blocks (cache_content s (xs ! j)) ! k)"
  proof
    fix j assume j: "j \<in> insert i J"
    show "ys ! j \<noteq> 0 \<and> (xs ! j = 0 \<longrightarrow> ys ! j \<in> A1 \<union> A2) \<and>
      (\<forall>k < row_size m j. get_blocks (cache_content t (ys ! j)) ! k = get_blocks (cache_content s (xs ! j)) ! k)"
    proof (cases "j = i")
      case True
      then show ?thesis using yi one(2,6,9) ce by simp
    next
      case False
      with j have J: "j \<in> J" by simp
      have "row_size m j = 0" if "xs ! j = 0" using assms(1) J that by (auto simp: rows_ok_def row_ok_def)
      then show ?thesis using r J xs [OF J] cj [OF J] by (cases "xs ! j = 0") auto
    qed
  qed
  moreover have "rows_ok f t ys n (insert i J)"
  proof -
    have "row_ok (cache_content t) e' (row_size n i)" using one(8) ce by (simp add: row_ok_def)
    moreover have "block_ok f t e'" by (rule block_ok_takes [OF t2 one(7)])
    moreover have "ys ! j \<noteq> e'" if "j \<in> J" for j
    proof (cases "xs ! j = 0")
      case True
      then have "ys ! j \<in> A2" using r that xs by simp
      then have "ys ! j \<notin> used t1" using takes_new(1) [OF t2] by blast
      then show ?thesis using one(6,7) by (auto simp: block_ok_def)
    qed (use ne that ysj in simp)
    moreover have "rows_ok f t ys n J" using r by blast
    ultimately show ?thesis using yi assms(2) unfolding rows_ok_def by (metis insert_iff)
  qed
  moreover have "fresh (cache_content t) (X1 \<union> X2) (second_block t ys) {k. m \<le> k \<and> k < n \<and> k div 128 \<in> insert i J}"
  proof -
    have "X1 \<inter> ((!) xs ` J - {0}) = {}"
    proof -
      have "x \<notin> (!) xs ` J - {0}" if "x \<in> X1" for x
        using takes_new(1) [OF one(1), of x] that old by (auto simp: block_ok_def)
      then show ?thesis by blast
    qed
    then have "fresh (cache_content t) X1 (\<lambda>j. get_blocks (cache_content t1 e') ! j) {row_size m i..<row_size n i}"
      by (rule fresh_later [OF one(10,1) t2]) simp
    then have f1: "fresh (cache_content t) X1 (second_block t ys) {k. m \<le> k \<and> k < n \<and> k div 128 = i}"
      by (rule fresh_row) (simp add: second_level_row yi ce)
    have f2: "fresh (cache_content t) X2 (second_block t ys) {k. m \<le> k \<and> k < n \<and> k div 128 \<in> J}" using r by blast
    have d12: "X1 \<inter> X2 = {}" using dis by blast
    have "{k. m \<le> k \<and> k < n \<and> k div 128 = i} \<union> {k. m \<le> k \<and> k < n \<and> k div 128 \<in> J} =
      {k. m \<le> k \<and> k < n \<and> k div 128 \<in> insert i J}" by auto
    then show ?thesis using fresh_Un [OF f1 f2 d12] by (simp only:)
  qed
  moreover have set: "(A1 \<union> A2) \<union> (X1 \<union> X2) = (A1 \<union> X1) \<union> (A2 \<union> X2)" by blast
  moreover have "(A1 \<union> A2) \<inter> (X1 \<union> X2) = {}" using dis one(4) r by blast
  moreover have "length ys = length xs" using r by simp
  moreover have "\<forall>j. j \<notin> insert i J \<or> xs ! j \<noteq> 0 \<longrightarrow> ys ! j = xs ! j" using ysj by blast
  ultimately show ?thesis using tt card unfolding rows_done_def set by (intro conjI)
qed

lemma reserve_rows:
  assumes "alloc_ok f s" and "rows_ok f s xs m {i..<i + l}" and "i + l \<le> length xs" and "m \<le> n"
    and "(\<Sum>j \<in> {i..<i + l}. row_need m n xs j) \<le> free_count s"
  shows "\<exists>ys A X t. reserve_blocks (inode_reserve_indirect 1) 128 l i (n - 128 * i) xs s = Some ((True, ys), t) \<and>
    rows_done f s xs m n {i..<i + l} ys A X t"
  using assms
proof (induction l arbitrary: i xs s)
  case 0
  then show ?case using rows_done_empty [OF 0(1)] by force
next
  case (Suc l)
  let ?J = "{Suc i..<Suc i + l}"
  have J: "{i..<i + Suc l} = insert i ?J" by auto
  note rows = Suc.prems(2) [unfolded J]
  have i: "row_ok (cache_content s) (xs ! i) (row_size m i)" "block_ok f s (xs ! i)" "i < length xs"
    using rows Suc.prems(3) by (simp_all add: rows_ok_def)
  have need: "row_need m n xs i + (\<Sum>j \<in> ?J. row_need m n xs j) \<le> free_count s"
    using Suc.prems(5) unfolding J by simp
  then have room: "row_size n i - row_size m i + (if xs ! i = 0 then 1 else 0) \<le> free_count s" by (simp add: row_need_def)
  from reserve_indirect_1 [OF Suc.prems(1) i(1,2) row_size_mono [OF Suc.prems(4)] row_size_le room]
  obtain e' A1 X1 t1 where one: "inode_reserve_indirect 1 (xs ! i) (row_size n i) s = Some ((True, e'), t1)"
    "takes f s ({xs ! i} - {0}) (A1 \<union> X1) t1" "A1 = (if xs ! i = 0 then {e'} else {})" "xs ! i \<noteq> 0 \<longrightarrow> e' = xs ! i"
    "A1 \<inter> X1 = {}" "card X1 = row_size n i - row_size m i" "e' \<noteq> 0" "block_ok f t1 e'" "row_ok (cache_content t1) e' (row_size n i)"
    "\<forall>j < row_size m i. get_blocks (cache_content t1 e') ! j = get_blocks (cache_content s (xs ! i)) ! j"
    "fresh (cache_content t1) X1 (\<lambda>j. get_blocks (cache_content t1 e') ! j) {row_size m i..<row_size n i}"
    by (elim exE conjE) (rule that; assumption)
  let ?xs = "xs[i := e']"
  have xs: "?xs ! j = xs ! j" if "j \<in> ?J" for j using that by simp
  have "card (A1 \<union> X1) = row_need m n xs i" using one(3,5,6) by (simp add: card_Un_disjoint row_need_def)
  then have "free_count t1 + row_need m n xs i = free_count s" using takes_free_count [OF one(2)] by simp
  moreover have "(\<Sum>j \<in> ?J. row_need m n ?xs j) = (\<Sum>j \<in> ?J. row_need m n xs j)"
    by (rule sum.cong) (simp_all add: row_need_def)
  ultimately have room': "(\<Sum>j \<in> ?J. row_need m n ?xs j) \<le> free_count t1" using need by linarith
  have "rows_ok f s xs m ?J" using rows by (simp add: rows_ok_def)
  then have "rows_ok f t1 ?xs m ?J"
  proof (rule rows_ok_takes [OF _ one(2)])
    show "xs ! j \<notin> {xs ! i} - {0} - {0}" if "j \<in> ?J" for j using rows that unfolding rows_ok_def by auto
  qed (rule xs)
  then obtain ys A2 X2 t where rest: "reserve_blocks (inode_reserve_indirect 1) 128 l (Suc i) (n - 128 * Suc i) ?xs t1 = Some ((True, ys), t)"
    "rows_done f t1 ?xs m n ?J ys A2 X2 t"
    using Suc.IH [of t1 ?xs "Suc i"] takesD(1) [OF one(2)] Suc.prems(3,4) room' by auto
  have "rows_done f s xs m n (insert i ?J) ys (A1 \<union> A2) (X1 \<union> X2) t"
    by (rule rows_done_insert [OF rows _ _ i(3) one(2-) rest(2)]) simp_all
  moreover have "reserve_blocks (inode_reserve_indirect 1) 128 (Suc l) i (n - 128 * i) xs s = Some ((True, ys), t)"
  proof -
    have "n - 128 * i - min (n - 128 * i) 128 = n - 128 * Suc i" "min (n - 128 * i) 128 = row_size n i"
      by (simp_all add: row_size_def)
    then show ?thesis using one(1) rest(1) i(3) by (simp del: inode_reserve_indirect.simps One_nat_def)
  qed
  ultimately show ?case unfolding J by blast
qed

lemma sum_row_size: "(\<Sum>j<r. row_size n j) = min n (128 * r)"
  by (induction r) (auto simp: row_size_def min_def)

lemma sum_row_need:
  assumes "m \<le> n" and "\<forall>j < DIV_ROUND_UP n 128. (xs ! j = 0) = (DIV_ROUND_UP m 128 \<le> j)"
  shows "(\<Sum>j<DIV_ROUND_UP n 128. row_need m n xs j) = (n - m) + (DIV_ROUND_UP n 128 - DIV_ROUND_UP m 128)"
proof -
  let ?r = "DIV_ROUND_UP n 128" and ?q = "DIV_ROUND_UP m 128"
  have n: "n \<le> 128 * ?r" using DIV_ROUND_UP_le [of 128 n] by simp
  have "(\<Sum>j<?r. row_need m n xs j) = (\<Sum>j<?r. row_size n j - row_size m j) + (\<Sum>j<?r. if ?q \<le> j then 1 else 0)"
    unfolding sum.distrib [symmetric] by (rule sum.cong) (use assms(2) in \<open>simp_all add: row_need_def\<close>)
  also have "(\<Sum>j<?r. row_size n j - row_size m j) = n - m"
    using n assms(1) by (simp add: sum_subtractf_nat row_size_mono sum_row_size)
  also have "(\<Sum>j<?r. if ?q \<le> j then 1 else 0) = ?r - ?q"
  proof -
    have "{j. j < ?r \<and> ?q \<le> j} = {?q..<?r}" by auto
    moreover have "(\<Sum>j<?r. if ?q \<le> j then 1 else 0) = card {j. j < ?r \<and> ?q \<le> j}"
      by (simp add: sum.If_cases Int_def)
    ultimately show ?thesis by simp
  qed
  finally show ?thesis .
qed

text \<open>
  A doubly indirect block with \<open>m\<close> blocks of the file below it, and the sectors that are written
  when it grows.
\<close>

definition tree_ok :: "inode_disk \<Rightarrow> fs_state \<Rightarrow> u32 \<Rightarrow> nat \<Rightarrow> bool" where
  "tree_ok f s e m \<longleftrightarrow> row_ok (cache_content s) e (DIV_ROUND_UP m 128) \<and> block_ok f s e \<and>
     (e \<noteq> 0 \<longrightarrow> e \<notin> set (get_blocks (cache_content s e)) \<and> rows_ok f s (get_blocks (cache_content s e)) m {..<128})"

definition tree_map :: "(u32 \<Rightarrow> u8 list) \<Rightarrow> u32 \<Rightarrow> u32 set" where
  "tree_map c e = (if e = 0 then {} else insert e (set (get_blocks (c e)) - {0}))"

lemma DIV_ROUND_UP_mono: "m \<le> n \<Longrightarrow> DIV_ROUND_UP m 128 \<le> DIV_ROUND_UP n 128"
  by (simp add: DIV_ROUND_UP_def div_le_mono)

lemma rows_bound: "n \<le> 128 * 128 \<Longrightarrow> DIV_ROUND_UP n 128 \<le> 128"
  by (simp add: DIV_ROUND_UP_def)

lemma row_size_0: "DIV_ROUND_UP n 128 \<le> j \<Longrightarrow> row_size n j = 0"
  using less_DIV_ROUND_UP_iff [of 128 j n] by (simp add: row_size_def)

lemma in_rows: "k < n \<Longrightarrow> k div 128 < DIV_ROUND_UP n 128"
  by (rule div_less_DIV_ROUND_UP) simp_all

lemma reserve_indirect_2:
  assumes "alloc_ok f s" and "tree_ok f s e m" and "m \<le> n" and "n \<le> 128 * 128"
    and "(if e = 0 then 1 else 0) + (n - m) + (DIV_ROUND_UP n 128 - DIV_ROUND_UP m 128) \<le> free_count s"
  shows "\<exists>e' A X t. inode_reserve_indirect 2 e n s = Some ((True, e'), t) \<and> takes f s (tree_map (cache_content s) e) (A \<union> X) t \<and>
    A \<inter> X = {} \<and> (e \<noteq> 0 \<longrightarrow> e' = e) \<and> e' \<noteq> 0 \<and> tree_ok f t e' n \<and>
    tree_map (cache_content t) e' \<subseteq> tree_map (cache_content s) e \<union> A \<and>
    (\<forall>k < m. second_block t (get_blocks (cache_content t e')) k = second_block s (get_blocks (cache_content s e)) k) \<and>
    fresh (cache_content t) X (second_block t (get_blocks (cache_content t e'))) {m..<n} \<and>
    free_count t + ((if e = 0 then 1 else 0) + (n - m) + (DIV_ROUND_UP n 128 - DIV_ROUND_UP m 128)) = free_count s"
proof -
  let ?q = "DIV_ROUND_UP m 128" and ?r = "DIV_ROUND_UP n 128"
  note tree = assms(2) [unfolded tree_ok_def]
  have r: "?q \<le> ?r" "?r \<le> 128" using DIV_ROUND_UP_mono [OF assms(3)] rows_bound [OF assms(4)] .
  have "(if e = 0 then 1 else 0) \<le> free_count s" using assms(5) by linarith
  from reserve_entry [OF assms(1) conjunct1 [OF tree] conjunct1 [OF conjunct2 [OF tree]] this] obtain e' A0 s1 where
    s1: "(if e = 0 then do {
         (r, s) \<leftarrow> free_map_allocate 1 s;
         let entry = (case r of None \<Rightarrow> e | Some x \<Rightarrow> x);
         s \<leftarrow> buffer_cache_write entry zeros s;
         Some (entry, s) } else Some (e, s)) = Some (e', s1)"
    "takes f s {} A0 s1" "A0 = (if e = 0 then {e'} else {})" "e \<noteq> 0 \<longrightarrow> e' = e \<and> s1 = s" "e' \<noteq> 0" "block_ok f s1 e'"
    "\<forall>j < 128. (get_blocks (cache_content s1 e') ! j = 0) = (?q \<le> j)" .
  let ?xs = "get_blocks (cache_content s1 e')"
  note a1 = takesD(1) [OF s1(2)]
  have zero: "e = 0 \<Longrightarrow> m = 0 \<and> ?q = 0"
    using tree less_DIV_ROUND_UP_iff [of 128 0 m] by (auto simp: row_ok_def)
  have e1: "e' \<in> used s1" using s1(5,6) by (simp add: block_ok_def)
  have x0: "?xs ! j = 0" if "e = 0" "j < 128" for j using s1(7) that zero by simp
  have e_xs: "e' \<notin> set ?xs"
  proof (cases "e = 0")
    case True
    then have "set ?xs \<subseteq> {0}" using x0 by (auto simp: in_set_conv_nth)
    then show ?thesis using s1(5) by blast
  qed (use tree s1(4) in simp)
  have rows1: "rows_ok f s1 ?xs m {..<128}"
  proof (cases "e = 0")
    case True
    then show ?thesis using x0 zero by (simp add: rows_ok_def row_ok_def block_ok_def row_size_def)
  qed (use tree s1(4) in simp)
  obtain s2 where s2: "buffer_cache_read e' s1 = Some (cache_content s1 e', s2)" "same_sectors s1 s2"
    using readE [OF alloc_okD(4) [OF a1] alloc_okD(2) [OF a1 e1]] by blast
  have t2: "takes f s1 {} {} s2" by (rule takes_same [OF a1 s2(2)])
  have rows2: "rows_ok f s2 ?xs m {..<128}" by (rule rows_ok_takes [OF rows1 t2]) simp_all
  have count: "free_count s2 = free_count s1" "free_count s1 + (if e = 0 then 1 else 0) = free_count s"
    using takes_free_count [OF t2] takes_free_count [OF s1(2)] s1(3) by (simp_all split: if_splits)
  have need: "(\<Sum>j<?r. row_need m n ?xs j) = (n - m) + (?r - ?q)" using s1(7) r(2) by (intro sum_row_need [OF assms(3)]) simp
  then have room: "(\<Sum>j \<in> {0..<0 + ?r}. row_need m n ?xs j) \<le> free_count s2"
    using assms(5) count by (simp add: atLeast0LessThan)
  have "rows_ok f s2 ?xs m {0..<0 + ?r}" by (rule rows_ok_subset [OF rows2]) (use r(2) in auto)
  from reserve_rows [OF takesD(1) [OF t2] this _ assms(3) room] r(2) obtain ys A X s3 where
    s3: "reserve_blocks (inode_reserve_indirect 1) 128 ?r 0 n ?xs s2 = Some ((True, ys), s3)"
      "rows_done f s2 ?xs m n {..<?r} ys A X s3" by (auto simp: atLeast0LessThan)
  note d = s3(2) [unfolded rows_done_def]
  have d1: "takes f s2 ((!) ?xs ` {..<?r} - {0}) (A \<union> X) s3" using d by blast
  have t3: "takes f s1 ((!) ?xs ` {..<?r} - {0}) (A \<union> X) s3" using takes_trans [OF takes_mono [OF t2] d1] by simp
  have len: "length ys = 128" using d by simp
  have ys0: "ys ! j = 0" if "?r \<le> j" "j < 128" for j using d that s1(7) r by auto
  have e_ys: "e' \<notin> set ys"
  proof
    assume "e' \<in> set ys"
    then obtain j where j: "j < 128" "ys ! j = e'" using len by (auto simp: in_set_conv_nth)
    show False
    proof (cases "j < ?r \<and> ?xs ! j = 0")
      case True
      then have "e' \<in> A" using d j by auto
      then show False using takesD(3) [OF t3] e1 by blast
    next
      case False
      then have "ys ! j = ?xs ! j" using d by auto
      then show False using e_xs j by (metis length_get_blocks nth_mem)
    qed
  qed
  have block3: "block_ok f s3 e'" by (rule block_ok_takes [OF t3 s1(6)])
  then have e3: "e' \<in> used s3" "e' \<notin> file_data (cache_content s3) f" "e' \<notin> file_map (cache_content s3) f"
    using s1(5) by (simp_all add: block_ok_def)
  obtain t where t: "buffer_cache_write e' (put_blocks ys) s3 = Some t" "set_sector s3 e' (put_blocks ys) t"
    using writeE [OF takesD(8) [OF t3] alloc_okD(2) [OF takesD(1) [OF t3] e3(1)], of "put_blocks ys"] len by auto
  note w = takes_write [OF takesD(1) [OF t3] t(2) e3]
  have ys: "get_blocks (cache_content t e') = ys" using w(2) len by (simp add: get_put_blocks)
  have xs_map: "(!) ?xs ` {..<?r} - {0} \<subseteq> tree_map (cache_content s) e"
  proof (cases "e = 0")
    case True
    then show ?thesis using x0 r(2) by auto
  next
    case False
    have "(!) ?xs ` {..<?r} \<subseteq> set ?xs" using r(2) by (auto intro: nth_mem)
    then show ?thesis using False s1(4) by (auto simp: tree_map_def)
  qed
  have e_map: "e' \<in> tree_map (cache_content s) e \<union> A0" using s1(3,4) by (simp add: tree_map_def)
  have "takes f s (tree_map (cache_content s) e) (A0 \<union> ((A \<union> X) \<union> {})) t"
  proof (rule takes_trans)
    show "takes f s (tree_map (cache_content s) e) A0 s1" by (rule takes_mono [OF s1(2)]) simp
    show "takes f s1 (insert e' ((!) ?xs ` {..<?r} - {0})) ((A \<union> X) \<union> {}) t"
      by (rule takes_trans [OF takes_mono [OF t3] w(1)]) auto
    show "insert e' ((!) ?xs ` {..<?r} - {0}) \<subseteq> tree_map (cache_content s) e \<union> A0" using xs_map e_map by blast
  qed
  then have takes: "takes f s (tree_map (cache_content s) e) ((A0 \<union> A) \<union> X) t" by (simp add: Un_assoc)
  have row_same: "cache_content t (ys ! j) = cache_content s3 (ys ! j)" if "j < ?r" for j
  proof (rule block_same [OF w(1)])
    show "ys ! j \<noteq> 0" "block_ok f s3 (ys ! j)" using d that by (auto simp: rows_ok_def)
    show "ys ! j \<notin> {e'}" using e_ys that r(2) len by (metis nth_mem order_less_le_trans singletonD)
  qed
  have second: "second_block t ys k = second_block s3 ys k" if "k < n" for k
    using row_same [OF in_rows [OF that]] by (simp add: second_level_def)
  have dis: "(A0 \<union> A) \<inter> X = {}"
  proof -
    have "A0 \<inter> X = {}" using takesD(3) [OF t3] s1(3) e1 by auto
    then show ?thesis using d by blast
  qed
  have fresh: "fresh (cache_content t) X (second_block t ys) {m..<n}"
  proof -
    have "{k. m \<le> k \<and> k < n \<and> k div 128 \<in> {..<?r}} = {m..<n}" using in_rows by auto
    then have "fresh (cache_content s3) X (second_block s3 ys) {m..<n}" using d by simp
    then have "fresh (cache_content t) X (second_block s3 ys) {m..<n}"
      by (rule fresh_later [OF _ t3 w(1)]) (use takesD(3) [OF t3] e1 in auto)
    then show ?thesis by (rule fresh_cong) (simp add: second)
  qed
  have old: "second_block t ys k = second_block s (get_blocks (cache_content s e)) k" if k: "k < m" for k
  proof -
    have ne: "e \<noteq> 0" using zero k by auto
    have j: "k div 128 < ?r" "k mod 128 < row_size m (k div 128)"
      using in_rows [OF k] r(1) k by (simp_all add: row_size_def less_diff_conv mult.commute)
    then have "second_block s3 ys k = second_block s2 ?xs k" using d by (simp add: second_level_def)
    also have "\<dots> = second_block s1 ?xs k"
    proof -
      have "k div 128 < 128" using j(1) r(2) by simp
      moreover from this have "?xs ! (k div 128) \<noteq> 0" using s1(7) in_rows [OF k] by auto
      ultimately have "cache_content s2 (?xs ! (k div 128)) = cache_content s1 (?xs ! (k div 128))"
        using rows1 by (intro block_same [OF t2]) (simp_all add: rows_ok_def)
      then show ?thesis by (simp add: second_level_def)
    qed
    finally show ?thesis using ne s1(4) second [of k] k assms(3) by simp
  qed
  have "rows_ok f t ys n {..<?r}"
    by (rule rows_ok_takes [OF _ w(1)]) (use d e_ys r(2) len in \<open>auto simp: in_set_conv_nth\<close>)
  then have "rows_ok f t ys n {..<128}"
    by (rule rows_ok_zeros) (use ys0 row_size_0 in auto)
  moreover have "row_ok (cache_content t) e' ?r"
  proof -
    have "ys ! j \<noteq> 0" if "j < ?r" for j using d that by auto
    then have "(ys ! j = 0) = (?r \<le> j)" if "j < 128" for j using ys0 that by (cases "?r \<le> j") auto
    then show ?thesis using s1(5) by (simp add: row_ok_def ys)
  qed
  ultimately have tree': "tree_ok f t e' n"
    using e_ys block_ok_takes [OF w(1) block3] by (simp add: tree_ok_def ys)
  have "tree_map (cache_content t) e' \<subseteq> tree_map (cache_content s) e \<union> (A0 \<union> A)"
  proof
    fix y assume "y \<in> tree_map (cache_content t) e'"
    then consider "y = e'" | j where "j < 128" "y = ys ! j" "y \<noteq> 0"
      using s1(5) len by (auto simp: tree_map_def ys in_set_conv_nth)
    then show "y \<in> tree_map (cache_content s) e \<union> (A0 \<union> A)"
    proof cases
      case 2
      then have "j < ?r" using ys0 by (meson not_le)
      then show ?thesis using d 2 xs_map by (cases "?xs ! j = 0") auto
    qed (use e_map in blast)
  qed
  moreover have "inode_reserve_indirect 2 e n s = Some ((True, e'), t)"
  proof -
    have "inode_reserve_indirect 2 = inode_reserve_indirect (Suc 1)" by (simp only: Suc_1)
    then show ?thesis using s1(1) s2(1) s3(1) t(1) by (simp del: inode_reserve_indirect.simps add: inode_reserve_indirect.simps(2) [of "Suc 0"])
  qed
  moreover have "free_count t + ((if e = 0 then 1 else 0) + (n - m) + (?r - ?q)) = free_count s"
    using takes_free_count [OF d1] takes_free_count [OF w(1)] count need d by simp
  ultimately show ?thesis using takes dis s1(4,5) tree' old fresh
    by (intro exI [of _ e'] exI [of _ "A0 \<union> A"] exI [of _ X] exI [of _ t]) (simp add: ys)
qed

end
