(* ===== verification/Fs_Grow.thy ===== *)
theory Fs_Grow
  imports Fs_Reserve
begin

text \<open>
  Files that grow: \<open>inode_reserve\<close> as a whole, \<open>inode_create\<close>, and \<open>inode_write_at\<close> behind the
  end of a file.

  \<open>extent_ok f s d n\<close> says that the inode \<open>d\<close> has sectors for exactly \<open>n\<close> blocks, that these and its
  indirect blocks are different sectors in use, apart from the file \<open>f\<close> of the free map. It is the
  invariant of files: \<open>inode_create\<close> establishes it and growing keeps it.
\<close>

section \<open>The sectors of a file\<close>

definition map_set :: "(u32 \<Rightarrow> u8 list) \<Rightarrow> inode_disk \<Rightarrow> u32 set" where
  "map_set c d = {indirect_block d} - {0} \<union> tree_map c (doubly_indirect_block d)"

definition extent_ok :: "inode_disk \<Rightarrow> fs_state \<Rightarrow> inode_disk \<Rightarrow> nat \<Rightarrow> bool" where
  "extent_ok f s d n \<longleftrightarrow> length (direct_blocks d) = 123 \<and> n \<le> MAX_BLOCKS \<and>
     (\<forall>k < 123. (direct_blocks d ! k = 0) = (n \<le> k)) \<and>
     (indirect_block d = 0) = (n \<le> 123) \<and> block_ok f s (indirect_block d) \<and>
     row_ok (cache_content s) (indirect_block d) (min 128 (n - 123)) \<and>
     (doubly_indirect_block d = 0) = (n \<le> 251) \<and> tree_ok f s (doubly_indirect_block d) (n - 251) \<and>
     indirect_block d \<notin> tree_map (cache_content s) (doubly_indirect_block d) \<and>
     (\<forall>k < n. block_map (cache_content s) d k \<noteq> 0 \<and> block_ok f s (block_map (cache_content s) d k)) \<and>
     inj_on (block_map (cache_content s) d) {..<n} \<and>
     map_set (cache_content s) d \<inter> block_map (cache_content s) d ` {..<n} = {}"

text \<open>The number of sectors for \<open>n\<close> blocks and the indirect blocks they need.\<close>

definition sectors_for :: "nat \<Rightarrow> nat" where
  "sectors_for n = n + (if 123 < n then 1 else 0) + (if 251 < n then 1 + DIV_ROUND_UP (n - 251) 128 else 0)"

lemma tree_map_used:
  assumes "tree_ok f s e m" and "x \<in> tree_map (cache_content s) e"
  shows "x \<noteq> 0" and "block_ok f s x"
proof -
  have "e \<noteq> 0" using assms(2) by (auto simp: tree_map_def)
  moreover have "block_ok f s y" if "y \<in> set (get_blocks (cache_content s e))" for y
    using assms(1) that \<open>e \<noteq> 0\<close> by (auto simp: tree_ok_def rows_ok_def in_set_conv_nth)
  ultimately show "x \<noteq> 0" "block_ok f s x" using assms by (auto simp: tree_map_def tree_ok_def)
qed

text \<open>A doubly indirect block that is not written stays as it is.\<close>

lemma tree_takes:
  assumes "tree_ok f s e m" and "takes f s W X t" and "W \<inter> tree_map (cache_content s) e = {}"
  shows "tree_ok f t e m" and "tree_map (cache_content t) e = tree_map (cache_content s) e"
    and "k < m \<Longrightarrow> k < 128 * 128 \<Longrightarrow> second_block t (get_blocks (cache_content t e)) k = second_block s (get_blocks (cache_content s e)) k"
proof -
  have same: "cache_content t x = cache_content s x" if "x \<in> tree_map (cache_content s) e" for x
    using tree_map_used [OF assms(1) that] that assms(3) by (intro block_same [OF assms(2)]) auto
  then have e: "cache_content t e = cache_content s e" if "e \<noteq> 0" using that by (simp add: tree_map_def)
  then show "tree_map (cache_content t) e = tree_map (cache_content s) e" by (auto simp: tree_map_def)
  show "tree_ok f t e m"
  proof (cases "e = 0")
    case True
    then show ?thesis using assms(1) by (simp add: tree_ok_def row_ok_def block_ok_def)
  next
    case False
    let ?xs = "get_blocks (cache_content s e)"
    have "?xs ! j \<notin> W - {0}" if "j \<in> {..<128}" for j
    proof -
      have "?xs ! j \<in> set ?xs" using that by simp
      then show ?thesis using assms(3) False by (auto simp: tree_map_def)
    qed
    then have "rows_ok f t ?xs m {..<128}"
      using assms(1) False by (intro rows_ok_takes [OF _ assms(2)]) (simp_all add: tree_ok_def)
    then show ?thesis
      using assms(1) e [OF False] block_ok_takes [OF assms(2)] by (simp add: tree_ok_def row_ok_def False)
  qed
  show "second_block t (get_blocks (cache_content t e)) k = second_block s (get_blocks (cache_content s e)) k"
    if k: "k < m" "k < 128 * 128"
  proof -
    have row: "row_ok (cache_content s) e (DIV_ROUND_UP m 128)" and ne: "e \<noteq> 0"
      using assms(1) less_DIV_ROUND_UP_iff [of 128 0 m] k by (auto simp: tree_ok_def row_ok_def split: if_splits)
    have "k div 128 < 128" using k(2) by simp
    then have "get_blocks (cache_content s e) ! (k div 128) \<in> tree_map (cache_content s) e"
      using row ne in_rows [OF k(1)] by (simp add: tree_map_def row_ok_def)
    then show ?thesis using same e ne by (simp add: second_level_def)
  qed
qed

section \<open>The three parts of \<open>inode_reserve\<close>\<close>

text \<open>The second and the third part, which are left out when no block is below the indirect block.\<close>

lemma reserve_part_1:
  assumes "alloc_ok f s" and "row_ok (cache_content s) e m" and "block_ok f s e" and "m \<le> n" and "n \<le> 128"
    and "(e = 0) = (m = 0)" and "n - m + (if m = 0 \<and> 0 < n then 1 else 0) \<le> free_count s"
  shows "\<exists>e' A X t. (if n = 0 then Some ((True, e), s) else inode_reserve_indirect 1 e n s) = Some ((True, e'), t) \<and>
    takes f s ({e} - {0}) (A \<union> X) t \<and> A \<inter> X = {} \<and> card (A \<union> X) = n - m + (if m = 0 \<and> 0 < n then 1 else 0) \<and>
    {e'} - {0} \<subseteq> {e} - {0} \<union> A \<and> (e' = 0) = (n = 0) \<and> block_ok f t e' \<and> row_ok (cache_content t) e' n \<and>
    (\<forall>j < m. get_blocks (cache_content t e') ! j = get_blocks (cache_content s e) ! j) \<and>
    fresh (cache_content t) X (\<lambda>j. get_blocks (cache_content t e') ! j) {m..<n}"
proof (cases "n = 0")
  case True
  then show ?thesis using assms takes_mono [OF takes_refl [OF assms(1)], of "{e} - {0}"]
    by (intro exI [of _ e] exI [of _ "{}"] exI [of _ s]) simp
next
  case False
  then have "n - m + (if e = 0 then 1 else 0) \<le> free_count s" using assms(6,7) by (simp split: if_splits)
  from reserve_indirect_1 [OF assms(1-5) this] obtain e' A X t where r:
    "inode_reserve_indirect 1 e n s = Some ((True, e'), t)" "takes f s ({e} - {0}) (A \<union> X) t"
    "A = (if e = 0 then {e'} else {})" "e \<noteq> 0 \<longrightarrow> e' = e" "A \<inter> X = {}" "card X = n - m" "e' \<noteq> 0" "block_ok f t e'"
    "row_ok (cache_content t) e' n" "\<forall>j < m. get_blocks (cache_content t e') ! j = get_blocks (cache_content s e) ! j"
    "fresh (cache_content t) X (\<lambda>j. get_blocks (cache_content t e') ! j) {m..<n}" by (elim exE conjE) (rule that; assumption)
  have "card (A \<union> X) = n - m + (if m = 0 \<and> 0 < n then 1 else 0)"
    using r(3,5,6) assms(6) False by (simp add: card_Un_disjoint)
  moreover have "{e'} - {0} \<subseteq> {e} - {0} \<union> A" using r(3,4) by auto
  ultimately show ?thesis using r False by (intro exI [of _ e'] exI [of _ A] exI [of _ X] exI [of _ t]) simp
qed

lemma reserve_part_2:
  assumes "alloc_ok f s" and "tree_ok f s e m" and "m \<le> n" and "n \<le> 128 * 128" and "(e = 0) = (m = 0)"
    and "(if m = 0 \<and> 0 < n then 1 else 0) + (n - m) + (DIV_ROUND_UP n 128 - DIV_ROUND_UP m 128) \<le> free_count s"
  shows "\<exists>e' A X t. (if n = 0 then Some ((True, e), s) else inode_reserve_indirect 2 e n s) = Some ((True, e'), t) \<and>
    takes f s (tree_map (cache_content s) e) (A \<union> X) t \<and> A \<inter> X = {} \<and> (e' = 0) = (n = 0) \<and> tree_ok f t e' n \<and>
    tree_map (cache_content t) e' \<subseteq> tree_map (cache_content s) e \<union> A \<and>
    (\<forall>k < m. second_block t (get_blocks (cache_content t e')) k = second_block s (get_blocks (cache_content s e)) k) \<and>
    fresh (cache_content t) X (second_block t (get_blocks (cache_content t e'))) {m..<n} \<and>
    free_count t + ((if m = 0 \<and> 0 < n then 1 else 0) + (n - m) + (DIV_ROUND_UP n 128 - DIV_ROUND_UP m 128)) = free_count s"
proof (cases "n = 0")
  case True
  then show ?thesis using assms takes_mono [OF takes_refl [OF assms(1)], of "tree_map (cache_content s) e"]
    by (intro exI [of _ e] exI [of _ "{}"] exI [of _ s]) simp
next
  case False
  then have "(if e = 0 then 1 else 0) + (n - m) + (DIV_ROUND_UP n 128 - DIV_ROUND_UP m 128) \<le> free_count s"
    using assms(5,6) by (simp split: if_splits)
  from reserve_indirect_2 [OF assms(1-4) this] obtain e' A X t where r:
    "inode_reserve_indirect 2 e n s = Some ((True, e'), t)" "takes f s (tree_map (cache_content s) e) (A \<union> X) t" "A \<inter> X = {}"
    "e \<noteq> 0 \<longrightarrow> e' = e" "e' \<noteq> 0" "tree_ok f t e' n" "tree_map (cache_content t) e' \<subseteq> tree_map (cache_content s) e \<union> A"
    "\<forall>k < m. second_block t (get_blocks (cache_content t e')) k = second_block s (get_blocks (cache_content s e)) k"
    "fresh (cache_content t) X (second_block t (get_blocks (cache_content t e'))) {m..<n}"
    "free_count t + ((if e = 0 then 1 else 0) + (n - m) + (DIV_ROUND_UP n 128 - DIV_ROUND_UP m 128)) = free_count s"
    by (elim exE conjE) (rule that; assumption)
  moreover have "(if m = 0 \<and> 0 < n then 1 else 0) = (if e = 0 then 1 else (0 :: nat))" using assms(5) False by simp
  ultimately show ?thesis using False by (intro exI [of _ e'] exI [of _ A] exI [of _ X] exI [of _ t]) simp
qed

text \<open>\<open>inode_reserve\<close> for a length that is not too large is these parts one after the other.\<close>

lemma inode_reserve_parts:
  assumes "0 \<le> len" and "bytes_to_sectors len = N" and "N \<le> MAX_BLOCKS"
    and "reserve_blocks reserve_sector 1 (min N 123) 0 (min N 123) (direct_blocks d) s = Some ((True, ys), s1)"
    and "(if min 128 (N - 123) = 0 then Some ((True, indirect_block d), s1)
      else inode_reserve_indirect 1 (indirect_block d) (min 128 (N - 123)) s1) = Some ((True, e1), s2)"
    and "(if N - 251 = 0 then Some ((True, doubly_indirect_block d), s2)
      else inode_reserve_indirect 2 (doubly_indirect_block d) (N - 251) s2) = Some ((True, e2), s3)"
  shows "inode_reserve d len s = Some ((True, d\<lparr>direct_blocks := ys, indirect_block := e1, doubly_indirect_block := e2\<rparr>), s3)"
proof -
  consider "N \<le> 123" | "123 < N" "N \<le> 251" | "251 < N" by linarith
  then show ?thesis
  proof cases
    case 1
    then show ?thesis using assms by (simp add: inode_reserve_def Let_def del: inode_reserve_indirect.simps One_nat_def)
  next
    case 2
    then have m: "min N 123 = 123" "min 128 (N - 123) = N - 123" "N - 123 \<noteq> 0" by simp_all
    then show ?thesis using assms 2 by (simp add: inode_reserve_def Let_def min.commute del: inode_reserve_indirect.simps One_nat_def)
  next
    case 3
    then have m: "min N 123 = 123" "min 128 (N - 123) = 128" "min (N - 123) 128 = 128" "N - 123 - 128 = N - 251" "min (N - 251) (128 * 128) = N - 251"
      using assms(3) by simp_all
    then show ?thesis using assms 3 by (simp add: inode_reserve_def Let_def del: inode_reserve_indirect.simps One_nat_def)
  qed
qed

lemma sectors_for_split:
  assumes "n \<le> N"
  shows "sectors_for N - sectors_for n = (min N 123 - n) +
    ((min 128 (N - 123) - min 128 (n - 123)) + (if min 128 (n - 123) = 0 \<and> 0 < min 128 (N - 123) then 1 else 0)) +
    ((if n - 251 = 0 \<and> 0 < N - 251 then 1 else 0) + ((N - 251) - (n - 251)) +
      (DIV_ROUND_UP (N - 251) 128 - DIV_ROUND_UP (n - 251) 128))"
proof -
  have r: "DIV_ROUND_UP (n - 251) 128 \<le> DIV_ROUND_UP (N - 251) 128" using assms by (intro DIV_ROUND_UP_mono) simp
  have z: "n \<le> 251 \<Longrightarrow> DIV_ROUND_UP (n - 251) 128 = 0" "N \<le> 251 \<Longrightarrow> DIV_ROUND_UP (N - 251) 128 = 0" by simp_all
  consider "N \<le> 123" | "123 < N" "N \<le> 251" | "251 < N" "n \<le> 123" | "251 < N" "123 < n" "n \<le> 251" | "251 < n" by linarith
  then show ?thesis
    by cases (use assms r z in \<open>auto simp: sectors_for_def min_def split: if_splits\<close>)
qed

lemma sectors_for_mono:
  assumes "n \<le> N"
  shows "sectors_for n \<le> sectors_for N"
proof -
  have "DIV_ROUND_UP (n - 251) 128 \<le> DIV_ROUND_UP (N - 251) 128" using assms by (intro DIV_ROUND_UP_mono) simp
  then show ?thesis using assms by (auto simp: sectors_for_def)
qed

lemma block_map_parts:
  "k < 123 \<Longrightarrow> block_map c d k = direct_blocks d ! k"
  "k < 128 \<Longrightarrow> block_map c d (123 + k) = get_blocks (c (indirect_block d)) ! k"
  "k < 16384 \<Longrightarrow> block_map c d (251 + k) = second_level c (get_blocks (c (doubly_indirect_block d))) k"
  by (simp_all add: block_map_def second_level_def)

lemma part_cases:
  fixes k :: nat
  obtains "k < 123" | j where "k = 123 + j" "j < 128" | j where "k = 251 + j"
proof (cases "k < 251")
  case True
  then show thesis using that(1) that(2) [of "k - 123"] by (cases "k < 123") simp_all
next
  case False
  then show thesis using that(3) [of "k - 251"] by simp
qed

lemma parts_of:
  fixes n N :: nat
  shows "{n..<min N 123} \<union> (\<lambda>j. 123 + j) ` {min 128 (n - 123)..<min 128 (N - 123)} \<union> (\<lambda>j. 251 + j) ` {n - 251..<N - 251} = {n..<N}"
  by (auto simp: image_def min_def split: if_splits)

text \<open>
  What \<open>inode_reserve\<close> does when there are enough free sectors: the inode has its new number of
  blocks, the old blocks are where they were, and the new ones are free sectors filled with
  zeros. \<open>A\<close> are the new indirect blocks and \<open>X\<close> the new blocks of data.
\<close>

definition grows :: "inode_disk \<Rightarrow> fs_state \<Rightarrow> inode_disk \<Rightarrow> nat \<Rightarrow> nat \<Rightarrow> inode_disk \<Rightarrow> u32 set \<Rightarrow> u32 set \<Rightarrow> fs_state \<Rightarrow> bool" where
  "grows f s d n N d' A X t \<longleftrightarrow> takes f s (map_set (cache_content s) d) (A \<union> X) t \<and> A \<inter> X = {} \<and> extent_ok f t d' N \<and>
     is_dir d' = is_dir d \<and> padding d' = padding d \<and> data_length d' = data_length d \<and> magic d' = magic d \<and>
     map_set (cache_content t) d' \<subseteq> map_set (cache_content s) d \<union> A \<and>
     (\<forall>k < n. block_map (cache_content t) d' k = block_map (cache_content s) d k) \<and>
     fresh (cache_content t) X (block_map (cache_content t) d') {n..<N} \<and>
     free_count t + (sectors_for N - sectors_for n) = free_count s"

lemma map_set_used:
  assumes "extent_ok f s d n" and "x \<in> map_set (cache_content s) d"
  shows "x \<noteq> 0" and "block_ok f s x" and "x \<in> used s"
proof -
  have t: "tree_ok f s (doubly_indirect_block d) (n - 251)" and b: "block_ok f s (indirect_block d)"
    using assms(1) by (simp_all add: extent_ok_def)
  from assms(2) consider "x = indirect_block d" "x \<noteq> 0" | "x \<in> tree_map (cache_content s) (doubly_indirect_block d)"
    by (auto simp: map_set_def)
  then show "x \<noteq> 0" "block_ok f s x" by (cases; use b tree_map_used [OF t] in blast)+
  then show "x \<in> used s" by (simp add: block_ok_def)
qed

text \<open>The sectors of the file after it has grown.\<close>

lemma grown_blocks:
  assumes "extent_ok f s d n" and "takes f s W (A \<union> X) t" and "A \<inter> X = {}"
    and "map_set (cache_content t) d' \<subseteq> map_set (cache_content s) d \<union> A"
    and old: "\<forall>k < n. block_map (cache_content t) d' k = block_map (cache_content s) d k"
    and new: "fresh (cache_content t) X (block_map (cache_content t) d') {n..<N}"
  shows "\<forall>k < N. block_map (cache_content t) d' k \<noteq> 0 \<and> block_ok f t (block_map (cache_content t) d' k)"
    and "inj_on (block_map (cache_content t) d') {..<N}"
    and "map_set (cache_content t) d' \<inter> block_map (cache_content t) d' ` {..<N} = {}"
proof -
  let ?g = "block_map (cache_content t) d'" and ?h = "block_map (cache_content s) d"
  note x = assms(1) [unfolded extent_ok_def]
  have in_X: "?g k \<in> X" if "n \<le> k" "k < N" for k using new that by (auto simp: fresh_def)
  have in_used: "?h k \<in> used s" if "k < n" for k using x that by (auto simp: block_ok_def)
  have notin: "y \<notin> used s" if "y \<in> A \<union> X" for y by (rule takes_new(1) [OF assms(2) that])
  show "\<forall>k < N. ?g k \<noteq> 0 \<and> block_ok f t (?g k)"
  proof (intro allI impI)
    fix k assume k: "k < N"
    show "?g k \<noteq> 0 \<and> block_ok f t (?g k)"
    proof (cases "k < n")
      case True
      then show ?thesis using x old block_ok_takes [OF assms(2)] by simp
    next
      case False
      then have "?g k \<in> A \<union> X" using in_X k by simp
      then show ?thesis using takes_new [OF assms(2)] by (simp add: block_ok_def)
    qed
  qed
  show "inj_on ?g {..<N}"
  proof (rule inj_onI)
    fix j k assume jk: "j \<in> {..<N}" "k \<in> {..<N}" "?g j = ?g k"
    consider "j < n" "k < n" | "n \<le> j" "n \<le> k" | "j < n" "n \<le> k" | "n \<le> j" "k < n" by linarith
    then show "j = k"
    proof cases
      case 1
      then show ?thesis using jk(3) old x unfolding inj_on_def by simp
    next
      case 2
      then show ?thesis using jk new unfolding fresh_def inj_on_def by simp
    next
      case 3
      then show ?thesis using jk old in_used in_X notin by (metis UnI2 lessThan_iff)
    next
      case 4
      then show ?thesis using jk old in_used in_X notin by (metis UnI2 lessThan_iff)
    qed
  qed
  have "?g k \<notin> map_set (cache_content s) d \<union> A" if "k < N" for k
  proof (cases "k < n")
    case True
    then have "?h k \<notin> map_set (cache_content s) d" using x by blast
    then show ?thesis using True old notin in_used by auto
  next
    case False
    then have k: "?g k \<in> X" using in_X that by simp
    then have "?g k \<notin> map_set (cache_content s) d" using notin [of "?g k"] map_set_used(3) [OF assms(1), of "?g k"] by blast
    then show ?thesis using k assms(3) by blast
  qed
  then show "map_set (cache_content t) d' \<inter> ?g ` {..<N} = {}" using assms(4) by blast
qed

lemma inode_reserve_ok:
  assumes "alloc_ok f s" and "extent_ok f s d n" and "0 \<le> len" and "bytes_to_sectors len = N" and "n \<le> N" and "N \<le> MAX_BLOCKS"
    and "sectors_for N - sectors_for n \<le> free_count s"
  shows "\<exists>d' A X t. inode_reserve d len s = Some ((True, d'), t) \<and> grows f s d n N d' A X t"
proof -
  note x = assms(2) [unfolded extent_ok_def]
  let ?e1 = "indirect_block d" and ?e2 = "doubly_indirect_block d"
  let ?m1 = "min 128 (n - 123)" and ?n1 = "min 128 (N - 123)"
  note room = assms(7) [unfolded sectors_for_split [OF assms(5)]]
  \<comment> \<open>the direct blocks\<close>
  have "min N 123 - n \<le> free_count s" using room by linarith
  then obtain ys X0 s1 where s1: "reserve_blocks reserve_sector 1 (min N 123) 0 (min N 123) (direct_blocks d) s = Some ((True, ys), s1)"
    "takes f s {} X0 s1" "card X0 = min N 123 - n" "length ys = 123" "\<forall>j. min N 123 \<le> j \<or> j < n \<longrightarrow> ys ! j = direct_blocks d ! j"
    "fresh (cache_content s1) X0 ((!) ys) {n..<min N 123}"
    using reserve_row [OF assms(1), of 0 "min N 123" "direct_blocks d" n 1 "min N 123"] x by auto
  have fc1: "free_count s1 + (min N 123 - n) = free_count s" using takes_free_count [OF s1(2)] s1(3) by simp
  have e1: "row_ok (cache_content s1) ?e1 ?m1" "block_ok f s1 ?e1" "(?e1 = 0) = (?m1 = 0)"
  proof -
    have "cache_content s1 ?e1 = cache_content s ?e1" if "?e1 \<noteq> 0" using block_same [OF s1(2)] x that by blast
    then show "row_ok (cache_content s1) ?e1 ?m1" using x row_ok_cong [of ?e1 "cache_content s1" "cache_content s"] by metis
    show "block_ok f s1 ?e1" using x by (intro block_ok_takes [OF s1(2)]) blast
    show "(?e1 = 0) = (?m1 = 0)" using x by auto
  qed
  have same1: "get_blocks (cache_content s1 ?e1) = get_blocks (cache_content s ?e1)" if "0 < ?m1"
    using block_same [OF s1(2), of ?e1] x e1(3) that by (metis empty_iff not_gr_zero)
  have m1: "?m1 \<le> ?n1" "?n1 \<le> 128" using assms(5) by auto
  \<comment> \<open>the indirect block\<close>
  have "?n1 - ?m1 + (if ?m1 = 0 \<and> 0 < ?n1 then 1 else 0) \<le> free_count s1" using room fc1 by linarith
  from reserve_part_1 [OF takesD(1) [OF s1(2)] e1(1,2) m1 e1(3) this] obtain e1' A1 X1 s2 where
    s2: "(if ?n1 = 0 then Some ((True, ?e1), s1) else inode_reserve_indirect 1 ?e1 ?n1 s1) = Some ((True, e1'), s2)"
    "takes f s1 ({?e1} - {0}) (A1 \<union> X1) s2" "A1 \<inter> X1 = {}"
    "card (A1 \<union> X1) = ?n1 - ?m1 + (if ?m1 = 0 \<and> 0 < ?n1 then 1 else 0)"
    "{e1'} - {0} \<subseteq> {?e1} - {0} \<union> A1" "(e1' = 0) = (?n1 = 0)" "block_ok f s2 e1'" "row_ok (cache_content s2) e1' ?n1"
    "\<forall>j < ?m1. get_blocks (cache_content s2 e1') ! j = get_blocks (cache_content s1 ?e1) ! j"
    "fresh (cache_content s2) X1 (\<lambda>j. get_blocks (cache_content s2 e1') ! j) {?m1..<?n1}"
    by (elim exE conjE) (rule that; assumption)
  have t2: "takes f s ({?e1} - {0}) (X0 \<union> (A1 \<union> X1)) s2" by (rule takes_trans [OF takes_mono [OF s1(2)] s2(2)]) auto
  have fc2: "free_count s2 + (?n1 - ?m1 + (if ?m1 = 0 \<and> 0 < ?n1 then 1 else 0)) = free_count s1"
    using takes_free_count [OF s2(2)] s2(4) by simp
  have "({?e1} - {0}) \<inter> tree_map (cache_content s) ?e2 = {}" using x by auto
  note tree = tree_takes [OF _ t2 this]
  have e2: "tree_ok f s2 ?e2 (n - 251)" "(?e2 = 0) = (n - 251 = 0)" "tree_map (cache_content s2) ?e2 = tree_map (cache_content s) ?e2"
    using x tree(1,2) by auto
  \<comment> \<open>the doubly indirect block\<close>
  have "N - 251 \<le> 128 * 128" using assms(6) by simp
  moreover have "(if n - 251 = 0 \<and> 0 < N - 251 then 1 else 0) + ((N - 251) - (n - 251)) +
      (DIV_ROUND_UP (N - 251) 128 - DIV_ROUND_UP (n - 251) 128) \<le> free_count s2" using room fc1 fc2 by linarith
  moreover have "n - 251 \<le> N - 251" using assms(5) by simp
  ultimately obtain e2' A2 X2 t where
    s3: "(if N - 251 = 0 then Some ((True, ?e2), s2) else inode_reserve_indirect 2 ?e2 (N - 251) s2) = Some ((True, e2'), t)"
    "takes f s2 (tree_map (cache_content s2) ?e2) (A2 \<union> X2) t" "A2 \<inter> X2 = {}" "(e2' = 0) = (N - 251 = 0)" "tree_ok f t e2' (N - 251)"
    "tree_map (cache_content t) e2' \<subseteq> tree_map (cache_content s2) ?e2 \<union> A2"
    "\<forall>k < n - 251. second_block t (get_blocks (cache_content t e2')) k = second_block s2 (get_blocks (cache_content s2 ?e2)) k"
    "fresh (cache_content t) X2 (second_block t (get_blocks (cache_content t e2'))) {n - 251..<N - 251}"
    "free_count t + ((if n - 251 = 0 \<and> 0 < N - 251 then 1 else 0) + ((N - 251) - (n - 251)) +
      (DIV_ROUND_UP (N - 251) 128 - DIV_ROUND_UP (n - 251) 128)) = free_count s2"
    using reserve_part_2 [OF takesD(1) [OF t2] e2(1) _ _ e2(2)] by metis
  define d' A X where "d' = d\<lparr>direct_blocks := ys, indirect_block := e1', doubly_indirect_block := e2'\<rparr>"
    and "A = A1 \<union> A2" and "X = (X0 \<union> X1) \<union> X2"
  let ?W = "map_set (cache_content s) d"
  have W: "{?e1} - {0} \<subseteq> ?W" "tree_map (cache_content s2) ?e2 \<subseteq> ?W" using e2(3) by (auto simp: map_set_def)
  have t3: "takes f s1 ?W ((A1 \<union> X1) \<union> (A2 \<union> X2)) t" by (rule takes_trans [OF takes_mono [OF s2(2) W(1)] s3(2)]) (use W in blast)
  have takes: "takes f s ?W (A \<union> X) t"
    using takes_trans [OF takes_mono [OF s1(2), of ?W] t3] by (simp add: A_def X_def Un_ac)
  have notW: "y \<notin> ?W" if "y \<in> A \<union> X" for y using takes_new(1) [OF takes that] map_set_used(3) [OF assms(2)] by blast
  have dis: "X0 \<inter> (A1 \<union> X1) = {}" "(X0 \<union> (A1 \<union> X1)) \<inter> (A2 \<union> X2) = {}"
    using takesD(3) [OF s2(2)] takesD(4) [OF s1(2)] takesD(3) [OF s3(2)] takesD(4) [OF t2] by blast+
  have e1': "e1' \<notin> tree_map (cache_content s) ?e2 \<and> e1' \<notin> A2" if "e1' \<noteq> 0"
  proof
    have "e1' = ?e1 \<or> e1' \<in> A \<union> X" using s2(5) that by (auto simp: A_def)
    then show "e1' \<notin> tree_map (cache_content s) ?e2" using x notW by (auto simp: map_set_def)
    show "e1' \<notin> A2" using takes_new(1) [OF s3(2), of e1'] s2(7) that by (auto simp: block_ok_def)
  qed
  have c1: "cache_content t e1' = cache_content s2 e1'" if "e1' \<noteq> 0"
    by (rule block_same [OF s3(2) s2(7) that]) (use e1' [OF that] e2(3) in simp)
  have map: "map_set (cache_content t) d' \<subseteq> ?W \<union> A" using s2(5) s3(6) e2(3) by (auto simp: map_set_def d'_def A_def)
  have g1: "block_map (cache_content t) d' k = ys ! k" if "k < 123" for k using that by (simp add: block_map_parts d'_def)
  have g2: "block_map (cache_content t) d' (123 + k) = get_blocks (cache_content s2 e1') ! k" if k: "k < ?n1" for k
  proof -
    have "e1' \<noteq> 0" using s2(6) k by auto
    from c1 [OF this] show ?thesis using k by (simp add: block_map_parts d'_def)
  qed
  have g3: "block_map (cache_content t) d' (251 + k) = second_block t (get_blocks (cache_content t e2')) k" if "k < 16384" for k
    using that by (simp add: block_map_parts d'_def)
  have old: "\<forall>k < n. block_map (cache_content t) d' k = block_map (cache_content s) d k"
  proof (intro allI impI)
    fix k assume k: "k < n"
    consider "k < 123" | j where "k = 123 + j" "j < 128" | j where "k = 251 + j" by (rule part_cases)
    then show "block_map (cache_content t) d' k = block_map (cache_content s) d k"
    proof cases
      case 1
      then show ?thesis using g1 s1(5) k by (simp add: block_map_parts)
    next
      case 2
      then show ?thesis using g2 [of j] s2(9) same1 k m1 by (simp add: block_map_parts)
    next
      case 3
      then show ?thesis using g3 [of j] s3(7) tree(3) [of "n - 251" j] x k by (simp add: block_map_parts)
    qed
  qed
  have new: "fresh (cache_content t) X (block_map (cache_content t) d') {n..<N}"
    unfolding X_def
  proof (subst parts_of [symmetric], intro fresh_Un)
    have "X0 \<inter> ?W = {}" using notW by (auto simp: X_def)
    then have "fresh (cache_content t) X0 ((!) ys) {n..<min N 123}" by (rule fresh_later [OF s1(6,2) t3]) simp
    then show "fresh (cache_content t) X0 (block_map (cache_content t) d') {n..<min N 123}" by (rule fresh_cong) (simp add: g1)
    have "X1 \<inter> tree_map (cache_content s2) ?e2 = {}" using notW W(2) by (auto simp: X_def)
    then have "fresh (cache_content t) X1 (\<lambda>j. get_blocks (cache_content s2 e1') ! j) {?m1..<?n1}"
      by (rule fresh_later [OF s2(10,2) s3(2)]) simp
    then show "fresh (cache_content t) X1 (block_map (cache_content t) d') ((\<lambda>j. 123 + j) ` {?m1..<?n1})"
      by (rule fresh_image) (rule g2, simp)
    show "fresh (cache_content t) X2 (block_map (cache_content t) d') ((\<lambda>j. 251 + j) ` {n - 251..<N - 251})"
      by (rule fresh_image [OF s3(8)], rule g3) (use assms(6) in auto)
  qed (use dis in blast)+
  have AX: "A \<inter> X = {}" using dis s2(3) s3(3) unfolding A_def X_def by blast
  have row: "row_ok (cache_content t) e1' ?n1" using s2(8) row_ok_cong [of e1' "cache_content t" "cache_content s2" ?n1] c1 by simp
  have zeros: "(ys ! k = 0) = (N \<le> k)" if k: "k < 123" for k
  proof (cases "n \<le> k \<and> k < N")
    case True
    then have "ys ! k \<in> X0" using s1(6) k by (simp add: fresh_def image_subset_iff)
    then show ?thesis using takes_new(3) [OF s1(2)] True by simp
  next
    case False
    then have "ys ! k = direct_blocks d ! k" using s1(5) by auto
    then show ?thesis using x k False assms(5) by auto
  qed
  have "e1' \<notin> tree_map (cache_content t) e2'"
    using e1' s3(6) e2(3) tree_map_used(1) [OF s3(5), of e1'] by blast
  moreover note grown_blocks [OF assms(2) takes AX map old new]
  ultimately have ext: "extent_ok f t d' N"
    unfolding extent_ok_def using zeros row s1(4) s2(6) s3(4,5) block_ok_takes [OF s3(2) s2(7)] assms(6) by (auto simp: d'_def)
  have "inode_reserve d len s = Some ((True, d'), t)"
    unfolding d'_def by (rule inode_reserve_parts [OF assms(3,4,6) s1(1) s2(1) s3(1)])
  moreover have "free_count t + (sectors_for N - sectors_for n) = free_count s"
    unfolding sectors_for_split [OF assms(5)] using fc1 fc2 s3(9) by linarith
  ultimately have "inode_reserve d len s = Some ((True, d'), t)" "grows f s d n N d' A X t"
    unfolding grows_def using takes AX ext map old new by (auto simp: d'_def)
  then show ?thesis by blast
qed

section \<open>Files\<close>

text \<open>
  A file of the file system: it has exactly the blocks for its length, and what is behind its
  end in the last block is zero.
\<close>

definition file_wf :: "inode_disk \<Rightarrow> fs_state \<Rightarrow> inode_disk \<Rightarrow> bool" where
  "file_wf f s d \<longleftrightarrow> inode_ok d \<and> 0 \<le> data_length d \<and> extent_ok f s d (num_blocks d) \<and>
     (\<forall>i. nat (data_length d) \<le> i \<and> i < 512 * num_blocks d \<longrightarrow> file_byte (cache_content s) d i = 0)"

definition file_sectors_of :: "fs_state \<Rightarrow> inode_disk \<Rightarrow> u32 set" where
  "file_sectors_of s d = map_set (cache_content s) d \<union> block_map (cache_content s) d ` {..<num_blocks d}"

lemma map_sectors_set:
  assumes "extent_ok f s d n"
  shows "set (map_sectors (cache_content s) d n) \<subseteq> map_set (cache_content s) d"
proof
  note x = assms [unfolded extent_ok_def]
  fix y assume "y \<in> set (map_sectors (cache_content s) d n)"
  then consider "123 < n" "y = indirect_block d" | "251 < n" "y = doubly_indirect_block d"
    | j where "251 < n" "j < DIV_ROUND_UP (n - 251) 128" "y = get_blocks (cache_content s (doubly_indirect_block d)) ! j"
    by (auto simp: map_sectors_def split: if_splits)
  then show "y \<in> map_set (cache_content s) d"
  proof cases
    case 3
    have "n - 251 \<le> 128 * 128" using x by linarith
    with rows_bound [OF this] 3 have "j < 128" by linarith
    moreover have "row_ok (cache_content s) (doubly_indirect_block d) (DIV_ROUND_UP (n - 251) 128)" "doubly_indirect_block d \<noteq> 0"
      using x 3(1) by (auto simp: tree_ok_def)
    ultimately have "y \<noteq> 0" "y \<in> set (get_blocks (cache_content s (doubly_indirect_block d)))" using 3 by (auto simp: row_ok_def)
    then show ?thesis using \<open>doubly_indirect_block d \<noteq> 0\<close> by (simp add: map_set_def tree_map_def)
  qed (use x in \<open>auto simp: map_set_def tree_map_def\<close>)
qed

lemma extent_wf:
  assumes "extent_ok f s d (num_blocks d)" and "alloc_ok f s" and "inode_ok d" and "0 \<le> data_length d"
  shows "inode_wf (cache_valid s) (cache_content s) d" and "blocks_distinct (cache_content s) d"
proof -
  let ?n = "num_blocks d"
  note y = assms(1) [unfolded extent_ok_def]
  have b: "block_map (cache_content s) d k \<in> used s" if "k < ?n" for k using y that by (auto simp: block_ok_def)
  have m: "set (map_sectors (cache_content s) d ?n) \<subseteq> used s"
    using map_sectors_set [OF assms(1)] map_set_used(3) [OF assms(1)] by blast
  show "inode_wf (cache_valid s) (cache_content s) d"
    using assms(3,4) y b m alloc_okD(2) [OF assms(2)] by (auto simp: inode_wf_def data_sectors_def)
  show "blocks_distinct (cache_content s) d"
    using y map_sectors_set [OF assms(1)] by (auto simp: blocks_distinct_def data_sectors_def distinct_map atLeast0LessThan)
qed

lemma extent_file:
  assumes "extent_ok f s d (num_blocks d)"
  shows "file_sectors_of s d \<subseteq> used s" and "file_data (cache_content s) d \<subseteq> file_sectors_of s d"
    and "file_data (cache_content s) d \<inter> map_set (cache_content s) d = {}"
    and "file_data (cache_content s) d = block_map (cache_content s) d ` {..<num_blocks d}"
  using map_set_used(3) [OF assms] assms
  by (auto simp: file_sectors_of_def file_data_def data_sectors_def extent_ok_def block_ok_def atLeast0LessThan)

lemma file_wfD:
  assumes "file_wf f s d" and "alloc_ok f s"
  shows "inode_wf (cache_valid s) (cache_content s) d" and "blocks_distinct (cache_content s) d" and "file_sectors_of s d \<subseteq> used s"
    and "file_data (cache_content s) d = block_map (cache_content s) d ` {..<num_blocks d}"
  using assms extent_wf [OF _ assms(2), of d] extent_file(1,4) [of f s d] by (simp_all add: file_wf_def)

lemma extent_takes:
  assumes "extent_ok f s d n" and "takes f s W X t" and "W \<inter> map_set (cache_content s) d = {}"
  shows "extent_ok f t d n" and "map_set (cache_content t) d = map_set (cache_content s) d"
    and "k < n \<Longrightarrow> block_map (cache_content t) d k = block_map (cache_content s) d k"
proof -
  note x = assms(1) [unfolded extent_ok_def]
  let ?e1 = "indirect_block d" and ?e2 = "doubly_indirect_block d"
  have tm: "W \<inter> tree_map (cache_content s) ?e2 = {}" using assms(3) by (auto simp: map_set_def)
  have tree: "tree_ok f s ?e2 (n - 251)" using x by blast
  note tr = tree_takes [OF tree assms(2) tm]
  have e1: "cache_content t ?e1 = cache_content s ?e1" if "?e1 \<noteq> 0"
    using block_same [OF assms(2)] x that assms(3) by (auto simp: map_set_def)
  show map: "map_set (cache_content t) d = map_set (cache_content s) d" using tr(2) by (simp add: map_set_def)
  show bm: "block_map (cache_content t) d k = block_map (cache_content s) d k" if k: "k < n" for k
  proof (rule part_cases [of k])
    assume "k < 123" then show ?thesis by (simp add: block_map_parts)
  next
    fix j assume j: "k = 123 + j" "j < 128"
    then have "?e1 \<noteq> 0" using x k by auto
    then show ?thesis using e1 j by (simp add: block_map_parts)
  next
    fix j assume j: "k = 251 + j"
    then have "j < 16384" "j < n - 251" using x k by auto
    then show ?thesis using tr(3) j by (simp add: block_map_parts)
  qed
  have "row_ok (cache_content t) ?e1 (min 128 (n - 123))" using x e1 row_ok_cong [of ?e1 "cache_content t" "cache_content s"] by metis
  moreover have "\<forall>k < n. block_map (cache_content t) d k \<noteq> 0 \<and> block_ok f t (block_map (cache_content t) d k)"
    using x bm block_ok_takes [OF assms(2)] by simp
  moreover have "block_map (cache_content t) d ` {..<n} = block_map (cache_content s) d ` {..<n}"
    "inj_on (block_map (cache_content t) d) {..<n} = inj_on (block_map (cache_content s) d) {..<n}"
    using bm by (auto intro!: image_cong inj_on_cong)
  ultimately show "extent_ok f t d n"
    using x tr(1,2) map block_ok_takes [OF assms(2)] unfolding extent_ok_def by simp
qed

text \<open>A file whose sectors are not written stays as it is.\<close>

lemma extent_same:
  assumes "extent_ok f s d (num_blocks d)" and "takes f s W X t" and "W \<inter> file_sectors_of s d = {}"
  shows "extent_ok f t d (num_blocks d)" and "i < 512 * num_blocks d \<Longrightarrow> file_byte (cache_content t) d i = file_byte (cache_content s) d i"
    and "file_bytes (cache_content t) d = file_bytes (cache_content s) d" and "file_sectors_of t d = file_sectors_of s d"
proof -
  let ?n = "num_blocks d"
  have "W \<inter> map_set (cache_content s) d = {}" using assms(3) by (auto simp: file_sectors_of_def)
  note e = extent_takes [OF assms(1,2) this]
  show "extent_ok f t d ?n" by (rule e(1))
  have same: "cache_content t (block_map (cache_content t) d k) = cache_content s (block_map (cache_content s) d k)" if k: "k < ?n" for k
  proof -
    have "block_map (cache_content s) d k \<noteq> 0" "block_ok f s (block_map (cache_content s) d k)" using assms(1) k by (simp_all add: extent_ok_def)
    moreover have "block_map (cache_content s) d k \<notin> W" using assms(3) k by (auto simp: file_sectors_of_def)
    ultimately show ?thesis using e(3) [OF k] block_same [OF assms(2)] by simp
  qed
  show byte: "file_byte (cache_content t) d i = file_byte (cache_content s) d i" if "i < 512 * ?n" for i
    using same [of "i div 512"] that by (simp add: file_byte_def less_mult_imp_div_less mult.commute)
  have "nat (data_length d) \<le> 512 * ?n" using DIV_ROUND_UP_le [of 512 "nat (data_length d)"] by (simp add: bytes_to_sectors_def)
  then show "file_bytes (cache_content t) d = file_bytes (cache_content s) d" using byte by (simp add: file_bytes_def)
  show "file_sectors_of t d = file_sectors_of s d" using e(2,3) by (auto simp: file_sectors_of_def)
qed

lemma file_takes:
  assumes "file_wf f s d" and "takes f s W X t" and "W \<inter> file_sectors_of s d = {}"
  shows "file_wf f t d" and "file_bytes (cache_content t) d = file_bytes (cache_content s) d"
    and "file_sectors_of t d = file_sectors_of s d"
proof -
  have x: "extent_ok f s d (num_blocks d)" using assms(1) by (simp add: file_wf_def)
  note e = extent_same [OF x assms(2,3)]
  show "file_wf f t d" using assms(1) e(1,2) by (simp add: file_wf_def)
  show "file_bytes (cache_content t) d = file_bytes (cache_content s) d" "file_sectors_of t d = file_sectors_of s d" by (rule e(3,4))+
qed

lemma block_map_length [simp]: "block_map c (d\<lparr>data_length := len\<rparr>) = block_map c d"
  by (simp add: block_map_def fun_eq_iff)

lemma map_set_length [simp]: "map_set c (d\<lparr>data_length := len\<rparr>) = map_set c d"
  by (simp add: map_set_def)

lemma extent_length: "extent_ok f s (d\<lparr>data_length := len\<rparr>) n = extent_ok f s d n"
  by (simp add: extent_ok_def)

lemma bytes_to_sectors_mono: "a \<le> b \<Longrightarrow> bytes_to_sectors a \<le> bytes_to_sectors b"
  by (simp add: bytes_to_sectors_def DIV_ROUND_UP_def div_le_mono nat_mono)

lemma grows_fields:
  assumes "grows f s d n N d' A X t"
  shows "is_dir d' = is_dir d" and "padding d' = padding d" and "data_length d' = data_length d" and "magic d' = magic d"
  using assms by (simp_all add: grows_def)

text \<open>Growing a file appends zeros to its content.\<close>

lemma grows_file:
  assumes "grows f s d n N d' A X t" and "file_wf f s d" and "n = num_blocks d" and "N = bytes_to_sectors len"
    and "data_length d \<le> len" and "len < 2 ^ 31"
  shows "file_wf f t (d'\<lparr>data_length := len\<rparr>)"
    and "file_bytes (cache_content t) (d'\<lparr>data_length := len\<rparr>) = file_bytes (cache_content s) d @ replicate (nat (len - data_length d)) 0"
    and "file_sectors_of t (d'\<lparr>data_length := len\<rparr>) \<subseteq> file_sectors_of s d \<union> (A \<union> X)"
proof -
  note g = assms(1) [unfolded grows_def]
  note w = assms(2) [unfolded file_wf_def]
  let ?g = "block_map (cache_content t) d'" and ?h = "block_map (cache_content s) d" and ?L = "nat (data_length d)"
  have x: "extent_ok f s d n" using w assms(3) by blast
  have takes: "takes f s (map_set (cache_content s) d) (A \<union> X) t" using g by blast
  have same: "cache_content t (?g k) = cache_content s (?h k)" if k: "k < n" for k
  proof -
    have "?h k \<noteq> 0" "block_ok f s (?h k)" "?h k \<notin> map_set (cache_content s) d" using x k by (auto simp: extent_ok_def)
    then show ?thesis using g k block_same [OF takes] by simp
  qed
  have zero: "cache_content t (?g k) = zeros" if "n \<le> k" "k < N" for k using g that by (simp add: fresh_def)
  have byte: "file_byte (cache_content t) d' i = (if i < ?L then file_byte (cache_content s) d i else 0)" if i: "i < 512 * N" for i
  proof -
    have k: "i div 512 < N" using i by (simp add: less_mult_imp_div_less mult.commute)
    show ?thesis
    proof (cases "i div 512 < n")
      case True
      then have "i < 512 * n" by linarith
      then show ?thesis using same [OF True] w assms(3) by (auto simp: file_byte_def)
    next
      case False
      have "?L \<le> 512 * n" using DIV_ROUND_UP_le [of 512 ?L] by (simp add: bytes_to_sectors_def assms(3))
      then have "\<not> i < ?L" using False by linarith
      then show ?thesis using zero [of "i div 512"] False k by (simp add: file_byte_def)
    qed
  qed
  have d': "file_byte c (d'\<lparr>data_length := len\<rparr>) = file_byte c d'" for c by (simp add: file_byte_def fun_eq_iff)
  have len: "nat len \<le> 512 * N" using DIV_ROUND_UP_le [of 512 "nat len"] by (simp add: bytes_to_sectors_def assms(4))
  have pos: "0 \<le> len" "?L \<le> nat len" using w assms(5) by (simp_all add: nat_mono)
  have "extent_ok f t d' N" using g by blast
  moreover from this have "length (direct_blocks d') = 123" by (simp add: extent_ok_def)
  moreover have "padding d' = padding d" by (rule grows_fields(2) [OF assms(1)])
  ultimately show "file_wf f t (d'\<lparr>data_length := len\<rparr>)"
    using w pos assms(6) byte d' assms(4) by (auto simp: file_wf_def inode_ok_def extent_length)
  show "file_bytes (cache_content t) (d'\<lparr>data_length := len\<rparr>) = file_bytes (cache_content s) d @ replicate (nat (len - data_length d)) 0"
  proof (rule nth_equalityI)
    show "length (file_bytes (cache_content t) (d'\<lparr>data_length := len\<rparr>)) =
      length (file_bytes (cache_content s) d @ replicate (nat (len - data_length d)) 0)"
      using pos assms(5) w by (simp add: nat_diff_distrib)
  qed (use byte d' len pos in \<open>simp add: file_bytes_def nth_append\<close>)
  show "file_sectors_of t (d'\<lparr>data_length := len\<rparr>) \<subseteq> file_sectors_of s d \<union> (A \<union> X)"
  proof -
    have "?g k \<in> file_sectors_of s d \<union> (A \<union> X)" if "k < N" for k
      using g that assms(3) by (cases "k < n") (auto simp: file_sectors_of_def fresh_def image_subset_iff)
    then show ?thesis using g assms(4) by (auto simp: file_sectors_of_def)
  qed
qed

section \<open>Creating an inode\<close>

definition new_inode :: "int \<Rightarrow> bool \<Rightarrow> inode_disk" where
  "new_inode len dir = \<lparr>direct_blocks = replicate DIRECT_BLOCKS_COUNT 0, indirect_block = 0, doubly_indirect_block = 0,
     is_dir = (if dir then 1 else 0), padding = [0, 0, 0], data_length = len, magic = INODE_MAGIC\<rparr>"

lemma new_inode_fields [simp]: "data_length (new_inode len dir) = len" "is_dir (new_inode len dir) = (if dir then 1 else 0)"
  by (simp_all add: new_inode_def)

lemma new_inode_extent: "extent_ok f s (new_inode len dir) 0"
  by (simp add: extent_ok_def new_inode_def block_ok_def row_ok_def tree_ok_def tree_map_def)

lemma new_inode_map: "map_set c (new_inode len dir) = {}"
  by (simp add: map_set_def tree_map_def new_inode_def)

lemma new_inode_length: "(new_inode len dir)\<lparr>data_length := n\<rparr> = new_inode n dir"
  by (simp add: new_inode_def)

lemma empty_file: "file_wf f s (new_inode 0 dir)" "file_bytes c (new_inode 0 dir) = []" "file_sectors_of s (new_inode 0 dir) = {}"
proof -
  have n: "data_length (new_inode 0 dir) = 0" "num_blocks (new_inode 0 dir) = 0" by (simp_all add: new_inode_def bytes_to_sectors_def)
  show "file_wf f s (new_inode 0 dir)"
    using new_inode_extent n by (simp add: file_wf_def inode_ok_def) (simp add: new_inode_def)
  show "file_bytes c (new_inode 0 dir) = []" "file_sectors_of s (new_inode 0 dir) = {}"
    using n by (simp_all add: file_bytes_def file_sectors_of_def new_inode_map)
qed

lemma grows_length:
  assumes "grows f s d n N d' A X t"
  shows "grows f s (d\<lparr>data_length := l\<rparr>) n N (d'\<lparr>data_length := l\<rparr>) A X t"
  using assms by (simp add: grows_def extent_length)

text \<open>The sectors of the file of the free map.\<close>

definition map_file :: "inode_disk \<Rightarrow> fs_state \<Rightarrow> u32 set" where
  "map_file f s = file_data (cache_content s) f \<union> file_map (cache_content s) f"

lemma map_file_takes: "takes f s W X t \<Longrightarrow> map_file f t = map_file f s"
  using takesD(5,6) by (simp add: map_file_def)

lemma used_takes: "takes f s W X t \<Longrightarrow> x \<in> used s \<Longrightarrow> x \<in> used t"
  using takesD(4) by blast

text \<open>Writing an inode to its sector.\<close>

lemma put_inode_ok:
  assumes "alloc_ok f s" and "inode_ok d" and "x \<in> used s" and "x \<notin> map_file f s"
  obtains t where "buffer_cache_write x (put_inode d) s = Some t" and "takes f s {x} {} t"
    and "get_inode (cache_content t x) = d"
proof -
  obtain t where t: "buffer_cache_write x (put_inode d) s = Some t" "set_sector s x (put_inode d) t"
    using writeE [OF alloc_okD(4) [OF assms(1)] alloc_okD(2) [OF assms(1,3)], of "put_inode d"] length_put_inode [OF assms(2)] by auto
  have "x \<notin> file_data (cache_content s) f" "x \<notin> file_map (cache_content s) f" using assms(4) by (simp_all add: map_file_def)
  note w = takes_write [OF assms(1) t(2) assms(3) this]
  show thesis using t(1) w get_put_inode [OF assms(2)] by (intro that [of t]) simp_all
qed

lemma inode_create_ok:
  assumes "alloc_ok f s" and "x \<in> used s" and "x \<notin> map_file f s" and "0 \<le> len" and "len < 2 ^ 31"
    and "bytes_to_sectors len \<le> MAX_BLOCKS" and "sectors_for (bytes_to_sectors len) \<le> free_count s"
  shows "\<exists>d Y t. inode_create x len dir s = Some (True, t) \<and> takes f s {x} Y t \<and> get_inode (cache_content t x) = d \<and>
    file_wf f t d \<and> file_bytes (cache_content t) d = replicate (nat len) 0 \<and> file_sectors_of t d \<subseteq> Y \<and>
    data_length d = len \<and> is_dir d = (if dir then 1 else 0) \<and> free_count t + sectors_for (bytes_to_sectors len) = free_count s"
proof -
  let ?N = "bytes_to_sectors len" and ?d = "new_inode len dir"
  have "sectors_for ?N - sectors_for 0 \<le> free_count s" using assms(7) by simp
  from inode_reserve_ok [OF assms(1) new_inode_extent assms(4) refl _ assms(6) this] obtain d A X t where
    t: "inode_reserve ?d len s = Some ((True, d), t)" "grows f s ?d 0 ?N d A X t" by blast
  note field = grows_fields [OF t(2)]
  have d: "d\<lparr>data_length := 0, data_length := len\<rparr> = d" using field(3) by simp
  have "grows f s (new_inode 0 dir) 0 ?N (d\<lparr>data_length := 0\<rparr>) A X t"
    using grows_length [OF t(2), of 0] by (simp add: new_inode_length)
  from grows_file [OF this empty_file(1) _ refl _ assms(5)] assms(4)
  have fl: "file_wf f t d" "file_bytes (cache_content t) d = replicate (nat len) 0" "file_sectors_of t d \<subseteq> A \<union> X"
    by (simp_all add: d [simplified] empty_file bytes_to_sectors_def)
  have takes: "takes f s {} (A \<union> X) t" using t(2) by (simp add: grows_def new_inode_map)
  have "x \<notin> map_file f t" using assms(3) map_file_takes [OF takes] by simp
  moreover have "inode_ok d" using fl(1) by (simp add: file_wf_def)
  ultimately obtain u where u: "buffer_cache_write x (put_inode d) t = Some u" "takes f t {x} {} u" "get_inode (cache_content u x) = d"
    using put_inode_ok [OF takesD(1) [OF takes] _ used_takes [OF takes assms(2)]] by blast
  have "{x} \<inter> file_sectors_of t d = {}" using fl(3) takesD(3) [OF takes] assms(2) by blast
  note f = file_takes [OF fl(1) u(2) this]
  have "takes f s {x} ((A \<union> X) \<union> {}) u" by (rule takes_trans [OF takes_mono [OF takes] u(2)]) simp_all
  moreover have "inode_create x len dir s = Some (True, u)"
    using t(1) u(1) assms(4) by (simp add: inode_create_def inode_allocate_def new_inode_def)
  moreover have "free_count u + sectors_for ?N = free_count s"
    using t(2) takes_free_count [OF u(2)] by (simp add: grows_def sectors_for_def)
  ultimately show ?thesis using u(3) f fl field by (intro exI [of _ d] exI [of _ "A \<union> X"] exI [of _ u]) simp
qed

section \<open>Writing to files\<close>

text \<open>A write that ends before the end of the file does not look at the length of the file.\<close>

lemma write_loop_length:
  assumes "0 \<le> offset" and "offset + sz \<le> data_length d" and "data_length d \<le> len" and "nat sz \<le> length buf"
  shows "inode_write_loop (d\<lparr>data_length := len\<rparr>) buf sz offset (s :: 'a cache_state_scheme) = inode_write_loop d buf sz offset s"
  using assms
proof (induction "nat sz" arbitrary: sz offset buf s rule: less_induct)
  case less
  show ?case
  proof (cases "0 < sz")
    case True
    let ?d = "d\<lparr>data_length := len\<rparr>" and ?ch = "chunk_of d sz offset"
    have pos: "offset < data_length d" "offset < data_length ?d" using True less.prems by simp_all
    have ch: "chunk_of ?d sz offset = ?ch" using less.prems by (simp add: chunk_of_def min_def)
    note b = chunk_of_bounds [OF less.prems(1) pos(1) True]
    have fits: "nat ?ch \<le> length buf" using b(2) less.prems(4) by linarith
    have "inode_write_loop ?d (drop (nat ?ch) buf) (sz - ?ch) (offset + ?ch) t = inode_write_loop d (drop (nat ?ch) buf) (sz - ?ch) (offset + ?ch) t" for t :: "'a cache_state_scheme"
    proof (rule less.hyps)
      show "nat (sz - ?ch) < nat sz" "0 \<le> offset + ?ch" using b True less.prems(1) by simp_all
      show "nat (sz - ?ch) \<le> length (drop (nat ?ch) buf)" using b less.prems(4) by simp
    qed (use less.prems in simp_all)
    moreover have "byte_to_sector ?d offset t = byte_to_sector d offset t" for t :: "'a cache_state_scheme"
      using pos less.prems(1) by (simp add: byte_to_sector_def index_to_sector_def)
    ultimately show ?thesis
      using inode_write_loop_step [OF less.prems(1) pos(1) True fits, where s = s]
        inode_write_loop_step [OF less.prems(1) pos(2) True, of buf, where s = s] fits by (simp add: ch)
  next
    case False
    then show ?thesis by (subst (1 2) inode_write_loop.simps) simp
  qed
qed

text \<open>A change of the data of a file other than that of the free map.\<close>

lemma takes_data_written:
  assumes "alloc_ok f s" and "extent_ok f s d (num_blocks d)" and "data_written s d t"
  shows "takes f s (file_data (cache_content s) d) {} t"
proof -
  note a = alloc_okD [OF assms(1)] and t = assms(3) [unfolded data_written_def]
  have "block_ok f s y" "y \<noteq> 0" if "y \<in> file_data (cache_content s) d" for y
    using assms(2) that by (auto simp: extent_ok_def file_data_def data_sectors_def)
  then have dis: "file_data (cache_content s) d \<inter> file_map (cache_content s) f = {}" by (auto simp: block_ok_def)
  have wf: "inode_wf (cache_valid s) (cache_content s) f" using a(1) by (simp add: fm_wf_def)
  then have m: "\<forall>y \<in> set (map_sectors (cache_content s) f (num_blocks f)). cache_content t y = cache_content s y"
    using t inode_wfD(4) [OF wf] dis unfolding file_map_def file_data_def by blast
  have d: "file_data (cache_content t) f = file_data (cache_content s) f" "file_map (cache_content t) f = file_map (cache_content s) f"
    by (simp_all add: file_data_def file_map_def data_sectors_cong [OF m] map_sectors_cong [OF m])
  have more: "cache_state.more t = cache_state.more s" using t by blast
  have f: "free_map t = free_map s" by (rule more_fields(5) [OF more])
  have "fm_wf f t"
    using a(1) t f more_fields [OF more] inode_wf_cong [OF m] by (simp add: fm_wf_def)
  moreover have "cache_state.more (t\<lparr>free_map := free_map s\<rparr>) = cache_state.more s"
    using more by (cases s; cases t) simp
  ultimately show ?thesis
    using assms(1) t d f a used_more [OF more] by (simp add: takes_def alloc_ok_def file_data_def)
qed

lemma file_write_inside:
  assumes "alloc_ok f s" and "file_wf f s d" and "0 \<le> offset" and "0 \<le> sz" and "offset + sz \<le> data_length d" and "nat sz \<le> length buf"
  shows "\<exists>t. inode_write_loop d buf sz offset s = Some (sz, t) \<and> takes f s (file_data (cache_content s) d) {} t \<and> file_wf f t d \<and>
    file_bytes (cache_content t) d = overwrite (file_bytes (cache_content s) d) (nat offset) (take (nat sz) buf) \<and>
    file_sectors_of t d = file_sectors_of s d"
proof -
  let ?n = "num_blocks d"
  define e where "e = d\<lparr>data_length := int (512 * ?n)\<rparr>"
  note w = file_wfD [OF assms(2,1)] and a = alloc_okD [OF assms(1)]
  have d: "inode_ok d" "0 \<le> data_length d" "extent_ok f s d ?n" using assms(2) by (simp_all add: file_wf_def)
  have len: "data_length d \<le> int (512 * ?n)" using DIV_ROUND_UP_le [of 512 "nat (data_length d)"] d(2) by (simp add: bytes_to_sectors_def)
  have n: "num_blocks e = ?n" by (simp add: e_def bytes_to_sectors_def DIV_ROUND_UP_def)
  have e: "block_map c e = block_map c d" "map_sectors c e = map_sectors c d" "data_sectors c e = data_sectors c d" for c
    by (simp_all add: e_def map_sectors_def data_sectors_def fun_eq_iff)
  have "?n \<le> MAX_BLOCKS" using d(3) by (simp add: extent_ok_def)
  then have wf: "inode_wf (cache_valid s) (cache_content s) e" "blocks_distinct (cache_content s) e"
    using w(1,2) n by (simp_all add: inode_wf_def blocks_distinct_def e inode_ok_def) (simp_all add: e_def)
  have "write_count e sz offset = sz" using assms(4,5) len by (simp add: write_count_def e_def)
  with inode_write_loop_ok [OF a(4) wf assms(3,6)] obtain t where
    t: "inode_write_loop e buf sz offset s = Some (sz, t)" "data_written s e t"
      "file_bytes (cache_content t) e = overwrite (file_bytes (cache_content s) e) (nat offset) (take (nat sz) buf)" by auto
  have dw: "data_written s d t" using t(2) by (simp add: data_written_def e n)
  note takes = takes_data_written [OF assms(1) d(3) dw]
  have loop: "inode_write_loop d buf sz offset s = Some (sz, t)"
    using t(1) unfolding e_def write_loop_length [OF assms(3,5) len assms(6)] .
  have whole: "file_bytes c e = map (file_byte c d) [0..<512 * ?n]" for c
  proof -
    have "nat (data_length e) = 512 * ?n" by (simp add: e_def)
    moreover have "file_byte c e = file_byte c d" by (simp add: file_byte_def e fun_eq_iff)
    ultimately show ?thesis by (simp only: file_bytes_def)
  qed
  have byte: "file_byte (cache_content t) d i = overwrite (file_bytes (cache_content s) e) (nat offset) (take (nat sz) buf) ! i"
    if "i < 512 * ?n" for i
    using arg_cong [OF t(3), of "\<lambda>bs. bs ! i"] that by (simp add: whole)
  have "file_data (cache_content s) d \<inter> map_set (cache_content s) d = {}" using d(3) unfolding w(4) extent_ok_def by blast
  note x = extent_takes [OF d(3) takes this]
  have sz: "length (file_bytes (cache_content s) e) = 512 * ?n" "nat (data_length d) \<le> 512 * ?n" using len by (simp_all add: whole)
  have src: "nat offset + length (take (nat sz) buf) \<le> nat (data_length d)" using assms(3-6) by simp
  have slack: "file_byte (cache_content t) d i = 0" if "nat (data_length d) \<le> i" "i < 512 * ?n" for i
    using byte [of i] that src sz assms(2) by (simp add: nth_overwrite file_wf_def whole)
  have "file_bytes (cache_content t) d = overwrite (file_bytes (cache_content s) d) (nat offset) (take (nat sz) buf)"
  proof (rule nth_equalityI)
    fix i assume "i < length (file_bytes (cache_content t) d)"
    then have i: "i < nat (data_length d)" by simp
    have "file_bytes (cache_content s) e ! i = file_bytes (cache_content s) d ! i"
      using i sz(2) by (simp add: whole) (simp add: file_bytes_def)
    then show "file_bytes (cache_content t) d ! i = overwrite (file_bytes (cache_content s) d) (nat offset) (take (nat sz) buf) ! i"
      using byte [of i] i sz src by (simp add: file_bytes_def nth_overwrite)
  qed (use src in simp)
  moreover have "file_wf f t d" using d x(1) slack by (simp add: file_wf_def)
  moreover have "file_sectors_of t d = file_sectors_of s d" using x(2,3) by (auto simp: file_sectors_of_def)
  ultimately show ?thesis using loop takes by blast
qed

text \<open>Changing an inode in memory that is not that of the free map.\<close>

lemma set_idata_same [simp]:
  "cache_inv (set_idata p d s) = cache_inv s" "cache_valid (set_idata p d s) = cache_valid s"
  "cache_content (set_idata p d s) = cache_content s" "free_map (set_idata p d s) = free_map s"
  "used (set_idata p d s) = used s" "free_count (set_idata p d s) = free_count s" "map_file f (set_idata p d s) = map_file f s"
  by (simp_all add: set_idata_def used_def free_count_def map_file_def)

lemma file_wf_cong:
  assumes "cache_content t = cache_content s" and "used t = used s"
  shows "file_wf f t d = file_wf f s d" and "file_sectors_of t d = file_sectors_of s d" and "extent_ok f t d n = extent_ok f s d n"
proof -
  have b: "block_ok f t x = block_ok f s x" for x using assms by (simp add: block_ok_def)
  have r: "rows_ok f t xs m J = rows_ok f s xs m J" for xs m J using assms by (simp add: rows_ok_def b)
  have "tree_ok f t e m = tree_ok f s e m" for e m using assms by (simp add: tree_ok_def b r)
  then show "file_wf f t d = file_wf f s d" using assms by (simp add: file_wf_def extent_ok_def b)
  show "file_sectors_of t d = file_sectors_of s d" using assms by (simp add: file_sectors_of_def)
  show "extent_ok f t d n = extent_ok f s d n" using assms \<open>\<And>e m. tree_ok f t e m = tree_ok f s e m\<close> by (simp add: extent_ok_def b)
qed

lemma alloc_ok_set_idata:
  assumes "alloc_ok f s" and "\<not> is_free_map_inode p s"
  shows "alloc_ok f (set_idata p d s)"
proof -
  obtain a fl i where i: "free_map_file s = Some a" "files s a = Some fl" "inodes s (file_inode fl) = Some i"
    "deny_write_cnt i = 0" "idata i = f" using assms(1) by (auto simp: alloc_ok_def fm_wf_def)
  then have "file_inode fl \<noteq> p" using assms(2) by (simp add: is_free_map_inode_def)
  then have "inodes (set_idata p d s) (file_inode fl) = Some i" using i by (simp add: set_idata_def)
  moreover have "free_map_file (set_idata p d s) = Some a" "files (set_idata p d s) a = Some fl" using i by (simp_all add: set_idata_def)
  ultimately show ?thesis using assms(1) i by (auto simp: alloc_ok_def fm_wf_def)
qed

lemma is_free_map_inode_more:
  fixes s t :: fs_state
  assumes "cache_state.more (t\<lparr>free_map := free_map s\<rparr>) = cache_state.more s"
  shows "is_free_map_inode p t = is_free_map_inode p s" and "inodes t = inodes s"
  using more_fields [OF assms] by (simp_all add: is_free_map_inode_def cong: option.case_cong)

lemma takes_set_idata:
  assumes "takes f s W X t" and "\<not> is_free_map_inode p s"
  shows "takes f (set_idata p d s) W X (set_idata p d t)"
proof -
  have m: "cache_state.more (t\<lparr>free_map := free_map s\<rparr>) = cache_state.more s" using assms(1) by (simp add: takes_def)
  note k = is_free_map_inode_more [OF m]
  have "cache_state.more ((set_idata p d t)\<lparr>free_map := free_map s\<rparr>) = cache_state.more (set_idata p d s)"
    using m k(2) by (cases s; cases t) (simp add: set_idata_def)
  then show ?thesis
    using assms k(1) alloc_ok_set_idata [of f s p d] alloc_ok_set_idata [of f t p d] by (simp add: takes_def)
qed

definition pad_to :: "nat \<Rightarrow> u8 list \<Rightarrow> u8 list" where
  "pad_to n bs = bs @ replicate (n - length bs) 0"

text \<open>The first part of \<open>inode_write_at\<close>: the file gets its new length.\<close>

definition write_prepare :: "nat \<Rightarrow> inode \<Rightarrow> int \<Rightarrow> fs_state \<Rightarrow> (inode_disk option \<times> fs_state) option" where
  "write_prepare p i len s = do {
     (x, s) \<leftarrow> byte_to_sector (idata i) (len - 1) s;
     if x = - 1 then do {
       guard_opt (\<not> is_free_map_inode p s);
       ((ok, d), s) \<leftarrow> inode_reserve (idata i) len s;
       if \<not> ok then Some (None, set_idata p d s) else do {
         let d = d\<lparr>data_length := len\<rparr>;
         s \<leftarrow> buffer_cache_write (sector_no i) (put_inode d) (set_idata p d s);
         Some (Some d, s) } }
     else Some (Some (idata i), s) }"

lemma inode_write_at_prepare:
  assumes "inodes s p = Some i" and "deny_write_cnt i = 0" and "offset_ok (offset + sz)"
  shows "inode_write_at p buf sz offset s = do {
    (r, s) \<leftarrow> write_prepare p i (offset + sz) s;
    case r of None \<Rightarrow> Some (0, s) | Some d \<Rightarrow> inode_write_loop d buf sz offset s }"
  using assms by (simp add: inode_write_at_def write_prepare_def Let_def bind_assoc case_prod_beta' cong: if_cong)
     (auto split: Option.bind_splits)

text \<open>An open file: its inode in memory is the one in its sector, which no file uses for its blocks.\<close>

definition open_file :: "inode_disk \<Rightarrow> fs_state \<Rightarrow> nat \<Rightarrow> inode \<Rightarrow> bool" where
  "open_file f s p i \<longleftrightarrow> inodes s p = Some i \<and> \<not> is_free_map_inode p s \<and> file_wf f s (idata i) \<and> sector_no i \<in> used s \<and>
     sector_no i \<notin> map_file f s \<and> sector_no i \<notin> file_sectors_of s (idata i) \<and> get_inode (cache_content s (sector_no i)) = idata i"

lemma takes_inodes: "takes f s W X t \<Longrightarrow> inodes t = inodes s" "takes f s W X t \<Longrightarrow> is_free_map_inode p t = is_free_map_inode p s"
  using is_free_map_inode_more [of s t] by (simp_all add: takes_def)

lemma set_idata_id: "inodes s p = Some i \<Longrightarrow> set_idata p (idata i) s = s"
  by (simp add: set_idata_def fun_upd_idem)

lemma content_same:
  assumes "takes f s W X t" and "x \<in> used s" and "x \<notin> W" and "x \<notin> map_file f s"
  shows "cache_content t x = cache_content s x"
  using takesD(7) [OF assms(1-3)] assms(4) by (simp add: map_file_def)

lemma write_prepare_ok:
  assumes "alloc_ok f s" and "open_file f s p i" and "0 < len" and "len < 2 ^ 31"
    and "bytes_to_sectors len \<le> MAX_BLOCKS" and "sectors_for (bytes_to_sectors len) - sectors_for (num_blocks (idata i)) \<le> free_count s"
  shows "\<exists>d Y t. write_prepare p i len s = Some (Some d, t) \<and> takes f (set_idata p d s) (insert (sector_no i) (file_sectors_of s (idata i))) Y t \<and>
    open_file f t p (i\<lparr>idata := d\<rparr>) \<and> data_length d = max (data_length (idata i)) len \<and> is_dir d = is_dir (idata i) \<and>
    file_bytes (cache_content t) d = pad_to (nat len) (file_bytes (cache_content s) (idata i)) \<and>
    file_sectors_of t d \<subseteq> file_sectors_of s (idata i) \<union> Y \<and>
    free_count t + (sectors_for (bytes_to_sectors len) - sectors_for (num_blocks (idata i))) = free_count s"
proof (cases "len \<le> data_length (idata i)")
  case True
  let ?d = "idata i"
  note o = assms(2) [unfolded open_file_def] and a = alloc_okD [OF assms(1)]
  have wf: "file_wf f s ?d" using o by blast
  note w = file_wfD [OF wf assms(1)]
  have pos: "0 \<le> len - 1" "len - 1 < data_length ?d" using assms(3) True by simp_all
  obtain t where t: "byte_to_sector ?d (len - 1) s = Some (block_map (cache_content s) ?d (nat (len - 1) div 512), t)" "same_sectors s t"
    using byte_to_sector_ok [OF a(4) w(1) pos] by blast
  have "cache_valid s (block_map (cache_content s) ?d (nat (len - 1) div 512))" by (rule inode_wfD(5) [OF w(1) block_of_byte [OF pos]])
  then have ne: "block_map (cache_content s) ?d (nat (len - 1) div 512) \<noteq> - 1" using invalid_minus_one by metis
  note takes = takes_same [OF assms(1) t(2)]
  have "{} \<inter> file_sectors_of s ?d = {}" by simp
  note fl = file_takes [OF wf takes this]
  have "open_file f t p (i\<lparr>idata := ?d\<rparr>)"
    using o fl takes_inodes [OF takes] used_takes [OF takes] map_file_takes [OF takes] content_same [OF takes] by (simp add: open_file_def)
  moreover have "pad_to (nat len) (file_bytes (cache_content s) ?d) = file_bytes (cache_content s) ?d"
    using True by (simp add: pad_to_def nat_mono)
  moreover have "write_prepare p i len s = Some (Some ?d, t)" using t(1) ne by (simp add: write_prepare_def)
  moreover have "takes f s (insert (sector_no i) (file_sectors_of s ?d)) {} t" by (rule takes_mono [OF takes]) simp
  moreover have "free_count t + (sectors_for (bytes_to_sectors len) - sectors_for (num_blocks ?d)) = free_count s"
    using takes_free_count [OF takes] sectors_for_mono [OF bytes_to_sectors_mono [OF True]] by simp
  ultimately show ?thesis using True fl o by (intro exI [of _ ?d] exI [of _ "{}"] exI [of _ t]) (simp add: set_idata_id)
next
  case False
  let ?d = "idata i" and ?x = "sector_no i" and ?n = "num_blocks (idata i)" and ?N = "bytes_to_sectors len"
  note o = assms(2) [unfolded open_file_def]
  have wf: "file_wf f s ?d" and ext: "extent_ok f s ?d ?n" and fm: "\<not> is_free_map_inode p s" using o by (simp_all add: file_wf_def)
  have "?n \<le> ?N" using False by (intro bytes_to_sectors_mono) simp
  from inode_reserve_ok [OF assms(1) ext _ refl this assms(5,6)] assms(3) obtain d A X s1 where
    s1: "inode_reserve ?d len s = Some ((True, d), s1)" "grows f s ?d ?n ?N d A X s1" by auto
  let ?e = "d\<lparr>data_length := len\<rparr>"
  have "data_length ?d \<le> len" using False by simp
  note fl = grows_file [OF s1(2) wf refl refl this assms(4)]
  have t1: "takes f s (map_set (cache_content s) ?d) (A \<union> X) s1" using s1(2) by (simp add: grows_def)
  have t2: "takes f (set_idata p ?e s) (map_set (cache_content s) ?d) (A \<union> X) (set_idata p ?e s1)" by (rule takes_set_idata [OF t1 fm])
  have x: "?x \<in> used s1" "?x \<notin> map_file f s1" using o used_takes [OF t1] map_file_takes [OF t1] by auto
  have "inode_ok ?e" using fl(1) by (simp add: file_wf_def)
  then obtain t where t: "buffer_cache_write ?x (put_inode ?e) (set_idata p ?e s1) = Some t" "takes f (set_idata p ?e s1) {?x} {} t"
    "get_inode (cache_content t ?x) = ?e"
    using put_inode_ok [OF takesD(1) [OF t2], of ?e ?x] x by auto
  have "file_wf f (set_idata p ?e s1) ?e" "file_sectors_of (set_idata p ?e s1) ?e = file_sectors_of s1 ?e"
    using fl(1) file_wf_cong [of "set_idata p ?e s1" s1] by simp_all
  moreover have xs: "?x \<notin> file_sectors_of s1 ?e" using fl(3) o takesD(3) [OF t1] by blast
  ultimately have fl2: "file_wf f t ?e" "file_bytes (cache_content t) ?e = file_bytes (cache_content s1) ?e" "file_sectors_of t ?e = file_sectors_of s1 ?e"
    using file_takes [of f "set_idata p ?e s1" ?e "{?x}" "{}" t] t(2) by simp_all
  have t3: "takes f (set_idata p ?e s) (insert ?x (file_sectors_of s ?d)) ((A \<union> X) \<union> {}) t"
    by (rule takes_trans [OF takes_mono [OF t2] t(2)]) (auto simp: file_sectors_of_def)
  have ino: "inodes t = (inodes s)(p \<mapsto> i\<lparr>idata := ?e\<rparr>)" using takes_inodes(1) [OF t3] o by (simp add: set_idata_def)
  have "write_prepare p i len s = Some (Some ?e, t)"
    using False assms(3) fm s1(1) t(1) by (simp add: write_prepare_def byte_to_sector_def Let_def)
  moreover have "\<not> is_free_map_inode p t"
  proof -
    have "is_free_map_inode p (set_idata p ?e s) = is_free_map_inode p s"
      by (simp add: is_free_map_inode_def set_idata_def cong: option.case_cong)
    then show ?thesis using takes_inodes(2) [OF t3] fm by blast
  qed
  then have "open_file f t p (i\<lparr>idata := ?e\<rparr>)"
    using ino fl2 xs t(3) x used_takes [OF t(2)] map_file_takes [OF t(2)] by (simp add: open_file_def)
  moreover have "file_bytes (cache_content t) ?e = pad_to (nat len) (file_bytes (cache_content s) ?d)"
    using fl2(2) fl(2) wf assms(3) False by (simp add: pad_to_def file_wf_def nat_diff_distrib)
  moreover have "file_sectors_of t ?e \<subseteq> file_sectors_of s ?d \<union> (A \<union> X)" using fl2(3) fl(3) by simp
  moreover have "free_count t + (sectors_for ?N - sectors_for ?n) = free_count s"
    using s1(2) takes_free_count [OF t(2)] by (simp add: grows_def)
  moreover have "is_dir ?e = is_dir ?d" using grows_fields(1) [OF s1(2)] by simp
  ultimately show ?thesis using t3 False by (intro exI [of _ ?e] exI [of _ "A \<union> X"] exI [of _ t]) simp
qed

text \<open>\<open>inode_write_at\<close> as a whole.\<close>

lemma inode_write_at_grows:
  assumes "alloc_ok f s" and "open_file f s p i" and "deny_write_cnt i = 0" and "0 \<le> offset" and "0 < sz" and "nat sz \<le> length buf"
    and "offset + sz < 2 ^ 31" and "bytes_to_sectors (offset + sz) \<le> MAX_BLOCKS"
    and "sectors_for (bytes_to_sectors (offset + sz)) - sectors_for (num_blocks (idata i)) \<le> free_count s"
  shows "\<exists>d Y t. inode_write_at p buf sz offset s = Some (sz, t) \<and> takes f (set_idata p d s) (insert (sector_no i) (file_sectors_of s (idata i))) Y t \<and>
    open_file f t p (i\<lparr>idata := d\<rparr>) \<and> data_length d = max (data_length (idata i)) (offset + sz) \<and> is_dir d = is_dir (idata i) \<and>
    file_bytes (cache_content t) d =
      overwrite (pad_to (nat (offset + sz)) (file_bytes (cache_content s) (idata i))) (nat offset) (take (nat sz) buf) \<and>
    file_sectors_of t d \<subseteq> file_sectors_of s (idata i) \<union> Y \<and>
    free_count t + (sectors_for (bytes_to_sectors (offset + sz)) - sectors_for (num_blocks (idata i))) = free_count s"
proof -
  have pos: "0 < offset + sz" using assms(4,5) by simp
  from write_prepare_ok [OF assms(1,2) pos assms(7-9)] obtain d Y u where
    u: "write_prepare p i (offset + sz) s = Some (Some d, u)"
    "takes f (set_idata p d s) (insert (sector_no i) (file_sectors_of s (idata i))) Y u" "open_file f u p (i\<lparr>idata := d\<rparr>)"
    "data_length d = max (data_length (idata i)) (offset + sz)" "is_dir d = is_dir (idata i)"
    "file_bytes (cache_content u) d = pad_to (nat (offset + sz)) (file_bytes (cache_content s) (idata i))"
    "file_sectors_of u d \<subseteq> file_sectors_of s (idata i) \<union> Y"
    "free_count u + (sectors_for (bytes_to_sectors (offset + sz)) - sectors_for (num_blocks (idata i))) = free_count s" by (elim exE conjE) (rule that; assumption)
  note a = takesD(1) [OF u(2)] and o = u(3) [unfolded open_file_def inode.simps]
  have wf: "file_wf f u d" using o by simp
  have "offset + sz \<le> data_length d" using u(4) by simp
  from file_write_inside [OF a wf assms(4) _ this assms(6)] assms(5) obtain t where
    t: "inode_write_loop d buf sz offset u = Some (sz, t)" "takes f u (file_data (cache_content u) d) {} t" "file_wf f t d"
      "file_bytes (cache_content t) d = overwrite (file_bytes (cache_content u) d) (nat offset) (take (nat sz) buf)"
      "file_sectors_of t d = file_sectors_of u d" by auto
  have data: "file_data (cache_content u) d \<subseteq> file_sectors_of u d" using file_wfD(4) [OF wf a] by (auto simp: file_sectors_of_def)
  have "takes f (set_idata p d s) (insert (sector_no i) (file_sectors_of s (idata i))) (Y \<union> {}) t"
    by (rule takes_trans [OF u(2) t(2)]) (use data u(7) in blast)
  moreover have "open_file f t p (i\<lparr>idata := d\<rparr>)"
  proof -
    have "sector_no i \<notin> file_data (cache_content u) d" using data o by auto
    then have "cache_content t (sector_no i) = cache_content u (sector_no i)" using o by (intro content_same [OF t(2)]) simp_all
    then show ?thesis using o t(3,5) takes_inodes [OF t(2)] used_takes [OF t(2)] map_file_takes [OF t(2)] by (simp add: open_file_def)
  qed
  moreover have "inode_write_at p buf sz offset s = Some (sz, t)"
  proof -
    have "inodes s p = Some i" "offset_ok (offset + sz)" using assms(2,7) pos by (simp_all add: open_file_def offset_ok_def)
    from inode_write_at_prepare [OF this(1) assms(3) this(2)] show ?thesis using u(1) t(1) by simp
  qed
  ultimately show ?thesis using u(4-8) t(4,5) takes_free_count [OF t(2)] by (intro exI [of _ d] exI [of _ Y] exI [of _ t]) simp
qed

end
