(* ===== verification/Fs_Files.thy ===== *)
theory Fs_Files
  imports Fs_Grow
begin

text \<open>
  The file system as its users see it: files are created, extended and read, and names are added
  to the root directory, with no effect on other files. The proofs combine what \<open>Fs_Grow\<close> shows
  about inodes with what \<open>Fs_Dir\<close> shows about directories.
\<close>

section \<open>Creating a file\<close>

text \<open>
  The file system between two commands, with the root directory on the disk and the free map in
  memory; nothing is on the heap behind the next free address.
\<close>

definition rest_ok :: "inode_disk \<Rightarrow> inode \<Rightarrow> fs_state \<Rightarrow> bool" where
  "rest_ok f i s \<longleftrightarrow> at_rest i s \<and> alloc_ok f s \<and> extent_ok f s (idata i) (num_blocks (idata i)) \<and>
     ROOT_DIR_SECTOR \<in> used s \<and> ROOT_DIR_SECTOR \<notin> map_file f s \<and> ROOT_DIR_SECTOR \<notin> file_sectors_of s (idata i) \<and>
     (\<forall>k \<ge> next_addr s. inodes s k = None \<and> dirs s k = None \<and> files s k = None)"

lemma with_root_fields [simp]:
  "cache_inv (with_root i s u) = cache_inv u" "cache_valid (with_root i s u) = cache_valid u"
  "cache_content (with_root i s u) = cache_content u" "free_map (with_root i s u) = free_map u"
  "used (with_root i s u) = used u" "free_count (with_root i s u) = free_count u" "map_file f (with_root i s u) = map_file f u"
  by (simp_all add: with_root_def used_def free_count_def map_file_def)

text \<open>Objects that are made or freed do not matter to the allocation, apart from those of the free map.\<close>

lemma alloc_ok_objects:
  assumes "alloc_ok f s" and "alloc_ok f w" and "cache_inv t = cache_inv w" and "cache_valid t = cache_valid w"
    and "cache_content t = cache_content w" and "free_map t = free_map w" and "free_map_file t = free_map_file s"
    and "\<And>a. files s a \<noteq> None \<Longrightarrow> files t a = files s a" and "\<And>p. inodes s p \<noteq> None \<Longrightarrow> inodes t p = inodes s p"
  shows "alloc_ok f t"
proof -
  obtain a fl j where j: "free_map_file s = Some a" "files s a = Some fl" "inodes s (file_inode fl) = Some j"
    "deny_write_cnt j = 0" "idata j = f" using assms(1) by (auto simp: alloc_ok_def fm_wf_def)
  then have "free_map_file t = Some a" "files t a = Some fl" "inodes t (file_inode fl) = Some j"
    using assms(7-9) by (metis option.distinct(1))+
  moreover have "used t = used w" using assms(6) by (simp add: used_def)
  ultimately show ?thesis using assms(2-6) j(4,5) by (auto simp: alloc_ok_def fm_wf_def)
qed

lemma takes_fields:
  assumes "takes f s W X t"
  shows "inodes t = inodes s" and "open_inodes t = open_inodes s" and "files t = files s" and "next_addr t = next_addr s"
    and "dirs t = dirs s" and "cwd t = cwd s" and "file_table t = file_table s" and "free_map_file t = free_map_file s"
    and "stack_name t = stack_name s" and "console t = console s"
  using more_fields [where t = "t\<lparr>free_map := free_map s\<rparr>" and s = s] assms by (simp_all add: takes_def)

text \<open>Objects that are made for a command and freed at its end leave no trace.\<close>

lemma takes_objects:
  assumes "takes f s {} {} z" and "takes f u W X w"
    and "cache_content u = cache_content z" and "cache_valid u = cache_valid z" and "free_map u = free_map z"
    and "cache_inv t = cache_inv w" and "cache_valid t = cache_valid w" and "cache_content t = cache_content w" and "free_map t = free_map w"
    and "cache_state.more (t\<lparr>free_map := free_map s\<rparr>) = cache_state.more s"
  shows "takes f s W X t"
proof -
  have s: "alloc_ok f s" using assms(1) by (simp add: takes_def)
  note m = more_fields [OF assms(10)]
  have "alloc_ok f t" by (rule alloc_ok_objects [OF s takesD(1) [OF assms(2)]]) (use assms(6-9) m in simp_all)
  moreover have "used u = used z" "used t = used w" using assms(5,9) by (simp_all add: used_def)
  moreover have "bit_cnt (free_map w) = bit_cnt (free_map u)" "bit_cnt (free_map z) = bit_cnt (free_map s)"
    using assms(1,2) by (simp_all add: takes_def)
  ultimately show ?thesis
    using s takesD [OF assms(1)] takesD [OF assms(2)] assms(3-5,7-10) by (simp add: takes_def)
qed

lemma rest_okD:
  assumes "rest_ok f i s"
  shows "at_rest i s" and "alloc_ok f s" and "extent_ok f s (idata i) (num_blocks (idata i))" and "ROOT_DIR_SECTOR \<in> used s"
    and "ROOT_DIR_SECTOR \<notin> map_file f s" and "ROOT_DIR_SECTOR \<notin> file_sectors_of s (idata i)"
    and "\<And>k. next_addr s \<le> k \<Longrightarrow> inodes s k = None" and "\<And>k. next_addr s \<le> k \<Longrightarrow> dirs s k = None"
    and "\<And>k. next_addr s \<le> k \<Longrightarrow> files s k = None"
  using assms by (simp_all add: rest_ok_def)

text \<open>The root directory is opened.\<close>

abbreviation root_dir :: "fs_state \<Rightarrow> dir_t" where
  "root_dir s \<equiv> \<lparr>dir_inode = next_addr s, dir_pos = int ENTRY_SIZE, dir_open_cnt = 1\<rparr>"

lemma open_root:
  assumes "rest_ok f i s"
  obtains u where "dir_open_root s = Some (Some (Suc (next_addr s)), with_root i s u)" and "takes f s {} {} u"
    and "alloc_ok f (with_root i s u)" and "dir_ok (Suc (next_addr s)) (root_dir s) i (with_root i s u)"
    and "bytes_of i (with_root i s u) = bytes_of i s"
proof -
  note r = rest_okD [OF assms]
  obtain u where u: "dir_open_root s = Some (Some (Suc (next_addr s)), with_root i s u)" "same_sectors s u"
    "dir_ok (Suc (next_addr s)) (root_dir s) i (with_root i s u)" "bytes_of i (with_root i s u) = bytes_of i s"
    by (rule dir_open_root_ok [OF r(1)])
  note t = takes_same [OF r(2) u(2)]
  have "alloc_ok f (with_root i s u)"
    by (rule alloc_ok_objects [OF r(2) takesD(1) [OF t]])
       (use takes_fields [OF t] r(7) [OF order_refl] in \<open>auto simp: with_root_def\<close>)
  with u t that show thesis by blast
qed

text \<open>A directory is not affected by what happens outside its sectors.\<close>

lemma dir_ok_takes:
  assumes "dir_ok a d i s" and "extent_ok f s (idata i) (num_blocks (idata i))" and "takes f s W X t"
    and "W \<inter> file_sectors_of s (idata i) = {}"
  shows "dir_ok a d i t" and "bytes_of i t = bytes_of i s"
proof -
  let ?d = "idata i"
  note e = extent_same [OF assms(2-4)]
  show b: "bytes_of i t = bytes_of i s" by (rule e(3))
  have o: "open_ok (dir_inode d) i s" using assms(1) by (simp add: dir_ok_def)
  then have "inode_ok ?d" "0 \<le> data_length ?d" by (simp_all add: open_ok_def inode_wf_def)
  from extent_wf [OF e(1) takesD(1) [OF assms(3)] this] have "open_ok (dir_inode d) i t"
    using o takes_fields(1) [OF assms(3)] takesD(8) [OF assms(3)] by (simp add: open_ok_def)
  then show "dir_ok a d i t" using assms(1) b takes_fields(5) [OF assms(3)] by (simp add: dir_ok_def)
qed

text \<open>The root directory is closed again.\<close>

lemma close_root:
  assumes "rest_ok f i s" and "dir_open_root s = Some (Some (Suc (next_addr s)), with_root i s u)" and "takes f s {} {} u"
    and "takes f (with_root i s u) W X w" and "dir_ok (Suc (next_addr s)) (root_dir s) i w"
    and "extent_ok f w (idata i) (num_blocks (idata i))" and "file_sectors_of w (idata i) = file_sectors_of s (idata i)"
    and "ROOT_DIR_SECTOR \<notin> W"
  shows "\<exists>t. dir_close (Some (Suc (next_addr s))) w = Some (t\<lparr>next_addr := next_addr s + 2\<rparr>) \<and> takes f s W X t \<and>
    rest_ok f i (t\<lparr>next_addr := next_addr s + 2\<rparr>) \<and> cache_content t = cache_content w \<and> used t = used w"
proof -
  note r = rest_okD [OF assms(1)] and a = at_restD [OF r(1)]
  let ?t = "w\<lparr>inodes := inodes s, open_inodes := open_inodes s, dirs := dirs s, cwd := None\<rparr>"
  note fw = takes_fields [OF assms(4)] and fu = takes_fields [OF assms(3)]
  have "dir_close (Some (Suc (next_addr s))) w = Some ?t"
    by (rule dir_close_root [OF r(1)]) (use fw in \<open>simp_all add: with_root_def\<close>)
  moreover have "rest_ok f i ?t"
  proof -
    have root: "ROOT_DIR_SECTOR \<in> used w" "ROOT_DIR_SECTOR \<notin> map_file f w"
      using r(4,5) used_takes [OF assms(3)] used_takes [OF assms(4)] map_file_takes [OF assms(3)] map_file_takes [OF assms(4)] by auto
    have "cache_content w ROOT_DIR_SECTOR = cache_content u ROOT_DIR_SECTOR"
      using content_same [OF assms(4), of ROOT_DIR_SECTOR] used_takes [OF assms(3) r(4)] assms(8) r(5) map_file_takes [OF assms(3)] by simp
    also have "\<dots> = cache_content s ROOT_DIR_SECTOR" using content_same [OF assms(3) r(4)] r(5) by simp
    finally have c: "cache_content w ROOT_DIR_SECTOR = cache_content s ROOT_DIR_SECTOR" .
    have same: "cache_content ?t = cache_content w" "used ?t = used w" "map_file f ?t = map_file f w"
      by (simp_all add: used_def map_file_def)
    have al: "alloc_ok f ?t"
      by (rule alloc_ok_objects [OF r(2) takesD(1) [OF assms(4)]]) (use fw fu in \<open>simp_all add: with_root_def\<close>)
    have "at_rest i ?t"
      unfolding at_rest_def
    proof (intro conjI)
      show "cache_inv ?t" "cache_valid ?t ROOT_DIR_SECTOR" using takesD(8) [OF assms(4)] alloc_okD(2) [OF al] root(1) same(2) by simp_all
      show "inodes ?t (next_addr ?t) = None" "dirs ?t (Suc (next_addr ?t)) = None" using r(7,8) fw(4) by (simp_all add: with_root_def)
      show "i = \<lparr>sector_no = ROOT_DIR_SECTOR, open_cnt = 1, removed = False, deny_write_cnt = 0,
          idata = get_inode (cache_content ?t ROOT_DIR_SECTOR)\<rparr>" using a(7) c by simp
      show "inode_wf (cache_valid ?t) (cache_content ?t) (idata i)" "blocks_distinct (cache_content ?t) (idata i)"
        "entries_ok (entries_of (bytes_of i ?t))" using assms(5) by (simp_all add: dir_ok_def open_ok_def)
      show "find_open (inodes ?t) (open_inodes ?t) ROOT_DIR_SECTOR = Some None" using a(4) by simp
    qed simp
    moreover have "\<forall>k \<ge> next_addr ?t. inodes ?t k = None \<and> dirs ?t k = None \<and> files ?t k = None"
      using r(7-9) fw(3,4) fu(3) by (simp add: with_root_def)
    ultimately show ?thesis
      using al root assms(6,7) r(6) same file_wf_cong(2,3) [OF same(1,2)] by (simp add: rest_ok_def)
  qed
  moreover have "takes f s W X (?t\<lparr>next_addr := next_addr s\<rparr>)"
    by (rule takes_objects [OF assms(3,4)], simp_all)
       (rule more_eqI; use fw fu r(1) in \<open>simp add: with_root_def at_restD(1)\<close>)
  moreover have "(?t\<lparr>next_addr := next_addr s\<rparr>)\<lparr>next_addr := next_addr s + 2\<rparr> = ?t"
  proof -
    have "next_addr ?t = next_addr s + 2" using fw(4) by (simp add: with_root_def)
    then show ?thesis by (cases ?t) simp
  qed
  moreover have "cache_content (?t\<lparr>next_addr := next_addr s\<rparr>) = cache_content w" "used (?t\<lparr>next_addr := next_addr s\<rparr>) = used w"
    by (simp_all add: used_def)
  ultimately show ?thesis by metis
qed

text \<open>A new inode for the file, while the root directory is open.\<close>

lemma allocate_inode:
  assumes "alloc_ok f s" and "0 \<le> len" and "len < 2 ^ 31" and "bytes_to_sectors len \<le> MAX_BLOCKS"
    and "Suc (sectors_for (bytes_to_sectors len)) \<le> free_count s"
  shows "\<exists>x d Y s1 t. free_map_allocate 1 s = Some (Some x, s1) \<and> inode_create x len dir s1 = Some (True, t) \<and>
    takes f s {} (insert x Y) t \<and> x \<notin> Y \<and> x \<noteq> 0 \<and> get_inode (cache_content t x) = d \<and> file_wf f t d \<and>
    file_bytes (cache_content t) d = replicate (nat len) 0 \<and> file_sectors_of t d \<subseteq> Y \<and> data_length d = len \<and> is_dir d = (if dir then 1 else 0) \<and>
    free_count t + Suc (sectors_for (bytes_to_sectors len)) = free_count s"
proof -
  have "0 < free_count s" using assms(5) by simp
  then obtain x s1 where s1: "free_map_allocate 1 s = Some (Some x, s1)" "takes f s {} {x} s1" by (rule takes_allocate [OF assms(1)])
  note x = takes_new [OF s1(2), of x, simplified]
  have "x \<notin> map_file f s1" using x by (simp add: map_file_def)
  moreover have "sectors_for (bytes_to_sectors len) \<le> free_count s1" using takes_free_count [OF s1(2)] assms(5) by simp
  ultimately obtain d Y t where t: "inode_create x len dir s1 = Some (True, t)" "takes f s1 {x} Y t" "get_inode (cache_content t x) = d"
    "file_wf f t d" "file_bytes (cache_content t) d = replicate (nat len) 0" "file_sectors_of t d \<subseteq> Y"
    "data_length d = len" "is_dir d = (if dir then 1 else 0)" "free_count t + sectors_for (bytes_to_sectors len) = free_count s1"
    using inode_create_ok [OF takesD(1) [OF s1(2)] x(2) _ assms(2-4)] by blast
  have "takes f s {} ({x} \<union> Y) t" by (rule takes_trans [OF s1(2) t(2)]) simp
  moreover have "x \<notin> Y" using takesD(3) [OF t(2)] x(2) by blast
  moreover have "free_count t + Suc (sectors_for (bytes_to_sectors len)) = free_count s" using t(9) takes_free_count [OF s1(2)] by simp
  ultimately show ?thesis using s1(1) t x(3) by (intro exI [of _ x] exI [of _ d] exI [of _ Y] exI [of _ s1] exI [of _ t]) simp
qed

lemma filesys_create_ok:
  assumes "rest_ok f i s" and "path_name name" and "length name \<le> NAME_MAX" and "CHR 0x00 \<notin> set name"
    and "names (entries_of (bytes_of i s)) name = None" and "\<exists>e \<in> set (entries_of (bytes_of i s)). \<not> in_use e"
    and "0 \<le> len" and "len < 2 ^ 31" and "bytes_to_sectors len \<le> MAX_BLOCKS"
    and "Suc (sectors_for (bytes_to_sectors len)) \<le> free_count s"
  shows "\<exists>x d Y t. filesys_create (in_root name) len False s = Some (True, t\<lparr>next_addr := next_addr s + 2\<rparr>) \<and>
    takes f s (file_sectors_of s (idata i)) (insert x Y) t \<and> rest_ok f i (t\<lparr>next_addr := next_addr s + 2\<rparr>) \<and>
    names (entries_of (bytes_of i t)) = (names (entries_of (bytes_of i s)))(name \<mapsto> x) \<and> x \<notin> Y \<and>
    get_inode (cache_content t x) = d \<and> file_wf f t d \<and> file_bytes (cache_content t) d = replicate (nat len) 0 \<and>
    file_sectors_of t d \<subseteq> Y \<and> data_length d = len \<and> is_dir d = 0 \<and> file_sectors_of t (idata i) = file_sectors_of s (idata i) \<and>
    free_count t + Suc (sectors_for (bytes_to_sectors len)) = free_count s"
proof -
  note r = rest_okD [OF assms(1)]
  let ?a = "Suc (next_addr s)" and ?D = "root_dir s" and ?d = "idata i"
  obtain u where u: "dir_open_root s = Some (Some ?a, with_root i s u)" "takes f s {} {} u" "alloc_ok f (with_root i s u)"
    "dir_ok ?a ?D i (with_root i s u)" "bytes_of i (with_root i s u) = bytes_of i s" by (rule open_root [OF assms(1)])
  let ?w = "with_root i s u"
  have eu: "extent_ok f u ?d (num_blocks ?d)" "file_sectors_of u ?d = file_sectors_of s ?d" using extent_same(1,4) [OF r(3) u(2)] by simp_all
  have wc: "cache_content ?w = cache_content u" "used ?w = used u" by simp_all
  have ew: "extent_ok f ?w ?d (num_blocks ?d)" "file_sectors_of ?w ?d = file_sectors_of s ?d" using eu file_wf_cong(2,3) [OF wc] by simp_all
  have "Suc (sectors_for (bytes_to_sectors len)) \<le> free_count ?w" using assms(10) takes_free_count [OF u(2)] by simp
  from allocate_inode [OF u(3) assms(7-9) this, of False] obtain x e Y s1 s2 where
    c: "free_map_allocate 1 ?w = Some (Some x, s1)" "inode_create x len False s1 = Some (True, s2)" "takes f ?w {} (insert x Y) s2" "x \<notin> Y" "x \<noteq> 0"
      "get_inode (cache_content s2 x) = e" "file_wf f s2 e" "file_bytes (cache_content s2) e = replicate (nat len) 0" "file_sectors_of s2 e \<subseteq> Y"
      "data_length e = len" "is_dir e = 0" "free_count s2 + Suc (sectors_for (bytes_to_sectors len)) = free_count ?w" by auto
  have d2: "dir_ok ?a ?D i s2" "bytes_of i s2 = bytes_of i s" using dir_ok_takes [OF u(4) ew(1) c(3)] u(5) by simp_all
  have e2: "extent_ok f s2 ?d (num_blocks ?d)" "file_sectors_of s2 ?d = file_sectors_of s ?d" using extent_same(1,4) [OF ew(1) c(3)] ew(2) by simp_all
  have "name \<noteq> []" using assms(2) by (simp add: path_name_def)
  then obtain v where v: "dir_add ?a name x False s2 = Some (True, v)" "dir_ok ?a ?D i v"
    "names (entries_of (bytes_of i v)) = (names (entries_of (bytes_of i s)))(name \<mapsto> x)" "data_written s2 ?d v"
    using dir_add_ok [OF d2(1) _ assms(3,4), of x] assms(5,6) d2(2) by auto
  let ?R = "file_data (cache_content s2) ?d"
  have tv: "takes f s2 ?R {} v" by (rule takes_data_written [OF takesD(1) [OF c(3)] e2(1) v(4)])
  have R: "?R \<subseteq> file_sectors_of s ?d" using extent_file(2) [OF e2(1)] e2(2) by simp
  have tw: "takes f ?w ?R (insert x Y \<union> {}) v" by (rule takes_trans [OF takes_mono [OF c(3)] tv]) auto
  have ev: "extent_ok f v ?d (num_blocks ?d)" "file_sectors_of v ?d = file_sectors_of s ?d"
    using extent_takes [OF e2(1) tv extent_file(3) [OF e2(1)]] e2(2) by (auto simp: file_sectors_of_def)
  have "ROOT_DIR_SECTOR \<notin> ?R" using R r(6) by blast
  with ev obtain t where t: "dir_close (Some ?a) v = Some (t\<lparr>next_addr := next_addr s + 2\<rparr>)" "takes f s ?R (insert x Y \<union> {}) t"
    "rest_ok f i (t\<lparr>next_addr := next_addr s + 2\<rparr>)" "cache_content t = cache_content v" "used t = used v"
    using close_root [OF assms(1) u(1,2) tw v(2)] by blast
  have su: "used u = used s" using takesD(4) [OF u(2)] by simp
  have new: "y \<notin> used s" if "y \<in> insert x Y" for y using takes_new(1) [OF c(3) that] su by simp
  have eY: "?R \<inter> insert x Y = {}" using R extent_file(1) [OF r(3)] new by blast
  then have "?R \<inter> file_sectors_of s2 e = {}" using c(9) by blast
  note fe = file_takes [OF c(7) tv this]
  have xv: "cache_content v x = cache_content s2 x"
    using takes_new [OF c(3), of x] eY by (intro content_same [OF tv]) (simp_all add: map_file_def)
  have "filesys_create (in_root name) len False s = Some (True, t\<lparr>next_addr := next_addr s + 2\<rparr>)"
    using u(1) c(1,2) v(1) t(1) split_in_root [OF assms(2)] fits_in_root [OF assms(2)] by (simp add: filesys_create_def)
  moreover have "takes f s (file_sectors_of s ?d) (insert x Y) t" using takes_mono [OF t(2)] R by simp
  moreover have "file_wf f t e" "file_sectors_of t e = file_sectors_of s2 e" "file_sectors_of t ?d = file_sectors_of s ?d"
    using fe ev(2) file_wf_cong(1,2) [OF t(4,5)] by simp_all
  moreover have "free_count t + Suc (sectors_for (bytes_to_sectors len)) = free_count s"
    using c(12) takes_free_count [OF u(2)] takes_free_count [OF tw] takes_free_count [OF c(3)] takes_free_count [OF t(2)] by simp
  ultimately show ?thesis
    using t(3,4) v(3) c(4,6,8-11) xv fe(2)
    by (intro exI [of _ x] exI [of _ e] exI [of _ Y] exI [of _ t]) simp
qed

section \<open>Opening a file\<close>

lemma find_open_None: "find_open h ps x = Some None \<longleftrightarrow> (\<forall>p \<in> set ps. \<exists>i. h p = Some i \<and> sector_no i \<noteq> x)"
  by (induction ps) (auto split: Option.bind_splits)

text \<open>The inode that is made for the file in sector \<open>x\<close>.\<close>

definition inode_of :: "fs_state \<Rightarrow> u32 \<Rightarrow> inode" where
  "inode_of s x = \<lparr>sector_no = x, open_cnt = 1, removed = False, deny_write_cnt = 0, idata = get_inode (cache_content s x)\<rparr>"

definition opened :: "fs_state \<Rightarrow> u32 \<Rightarrow> fs_state \<Rightarrow> fs_state" where
  "opened s x z = z\<lparr>next_addr := next_addr s + 4, open_inodes := (next_addr s + 2) # open_inodes s,
     inodes := (inodes s)(next_addr s + 2 \<mapsto> inode_of s x), dirs := dirs s, cwd := None,
     files := (files s)(next_addr s + 3 \<mapsto> \<lparr>file_inode = next_addr s + 2, file_pos = 0, deny_write = False\<rparr>)\<rparr>"

text \<open>The root directory is opened, the name is looked up, and the inode of the file is opened.\<close>

lemma find_by_name:
  assumes "rest_ok f i s" and "names (entries_of (bytes_of i s)) name = Some x" and "x \<in> used s" and "x \<noteq> ROOT_DIR_SECTOR"
    and "find_open (inodes s) (open_inodes s) x = Some None"
  obtains u k t1 z where "dir_open_root s = Some (Some (Suc (next_addr s)), with_root i s u)" and "same_sectors s u"
    and "find_from (called name) (entries_of (bytes_of i s)) 1 = Some k" and "entry_sector (entries_of (bytes_of i s) ! k) = x"
    and "lookup (Suc (next_addr s)) name (with_root i s u) = Some (Some (entries_of (bytes_of i s) ! k, int (ENTRY_SIZE * k)), t1)"
    and "same_sectors (with_root i s u) t1"
    and "inode_open x t1 = Some (next_addr s + 2, z\<lparr>next_addr := next_addr s + 3, open_inodes := (next_addr s + 2) # next_addr s # open_inodes s,
      inodes := (inodes s)(next_addr s \<mapsto> i, next_addr s + 2 \<mapsto> inode_of s x)\<rparr>)" and "same_sectors t1 z"
    and "dir_ok (Suc (next_addr s)) (root_dir s) i (with_root i s u)" and "bytes_of i (with_root i s u) = bytes_of i s"
proof -
  note r = rest_okD [OF assms(1)] and a = at_restD [OF r(1)]
  let ?n = "next_addr s" and ?a = "Suc (next_addr s)" and ?D = "root_dir s"
  obtain u where u: "dir_open_root s = Some (Some ?a, with_root i s u)" "same_sectors s u"
    "dir_ok ?a ?D i (with_root i s u)" "bytes_of i (with_root i s u) = bytes_of i s"
    by (rule dir_open_root_ok [OF r(1)])
  let ?w = "with_root i s u" and ?es = "entries_of (bytes_of i s)"
  obtain k where k: "find_from (called name) ?es 1 = Some k" "entry_sector (?es ! k) = x"
    using assms(2) by (auto simp: names_def)
  obtain t1 where t1: "lookup ?a name ?w = Some (Some (?es ! k, int (ENTRY_SIZE * k)), t1)" "same_sectors ?w t1"
    using lookup_ok [OF u(3), of name] u(4) k(1) by auto
  note m1 = more_fields [OF same_sectorsD(4) [OF t1(2)]]
  have "\<exists>j. ((inodes s)(?n \<mapsto> i)) p = Some j \<and> sector_no j \<noteq> x" if "p \<in> set (?n # open_inodes s)" for p
  proof (cases "p = ?n")
    case True
    have "sector_no i = ROOT_DIR_SECTOR" using arg_cong [OF a(7), of sector_no] by simp
    then show ?thesis using True assms(4) by simp
  next
    case False
    then show ?thesis using that assms(5) by (simp add: find_open_None)
  qed
  then have fo: "find_open (inodes t1) (open_inodes t1) x = Some None" by (simp only: find_open_None m1) (simp add: with_root_def)
  have xv: "cache_valid s x" by (rule alloc_okD(2) [OF r(2) assms(3)])
  have v: "cache_inv t1" "cache_valid t1 = cache_valid s" "\<And>y. cache_valid s y \<Longrightarrow> cache_content t1 y = cache_content s y"
    using same_sectorsD [OF t1(2)] same_sectorsD [OF u(2)] by simp_all
  obtain z where z: "inode_open x t1 = Some (?n + 2, z\<lparr>next_addr := ?n + 3, open_inodes := (?n + 2) # ?n # open_inodes s,
      inodes := (inodes s)(?n \<mapsto> i, ?n + 2 \<mapsto> inode_of s x)\<rparr>)" "same_sectors t1 z"
    using inode_open_new [OF fo v(1), of thesis] v(2,3) xv m1 by (simp add: with_root_def inode_of_def eval_nat_numeral)
  show thesis by (rule that [OF u(1,2) k t1 z u(3,4)])
qed

lemma open_by_name:
  assumes "rest_ok f i s" and "path_name name" and "name \<noteq> ''.''" and "name \<noteq> ''..''"
    and "names (entries_of (bytes_of i s)) name = Some x" and "x \<in> used s" and "x \<notin> map_file f s" and "x \<noteq> ROOT_DIR_SECTOR"
    and "find_open (inodes s) (open_inodes s) x = Some None"
  shows "\<exists>z. same_sectors s z \<and> filesys_open (in_root name) s = Some (Some (next_addr s + 3), opened s x z)"
proof -
  note r = rest_okD [OF assms(1)] and a = at_restD [OF r(1)]
  let ?n = "next_addr s" and ?a = "Suc (next_addr s)" and ?D = "root_dir s" and ?es = "entries_of (bytes_of i s)"
  obtain u k t1 z where u: "dir_open_root s = Some (Some ?a, with_root i s u)" "same_sectors s u"
    and k: "find_from (called name) ?es 1 = Some k" "entry_sector (?es ! k) = x"
    and t1: "lookup ?a name (with_root i s u) = Some (Some (?es ! k, int (ENTRY_SIZE * k)), t1)" "same_sectors (with_root i s u) t1"
    and z: "inode_open x t1 = Some (?n + 2, z\<lparr>next_addr := ?n + 3, open_inodes := (?n + 2) # ?n # open_inodes s,
      inodes := (inodes s)(?n \<mapsto> i, ?n + 2 \<mapsto> inode_of s x)\<rparr>)" "same_sectors t1 z"
    by (rule find_by_name [OF assms(1,5,6,8,9)])
  let ?w = "with_root i s u"
  note m1 = more_fields [OF same_sectorsD(4) [OF t1(2)]]
  have v: "cache_inv t1" "cache_valid t1 = cache_valid s" "\<And>y. cache_valid s y \<Longrightarrow> cache_content t1 y = cache_content s y"
    using same_sectorsD [OF t1(2)] same_sectorsD [OF u(2)] by simp_all
  note mz = more_fields [OF same_sectorsD(4) [OF z(2)]] and mu = more_fields [OF same_sectorsD(4) [OF u(2)]]
  let ?t2 = "z\<lparr>next_addr := ?n + 3, open_inodes := (?n + 2) # ?n # open_inodes s, inodes := (inodes s)(?n \<mapsto> i, ?n + 2 \<mapsto> inode_of s x)\<rparr>"
  let ?t3 = "z\<lparr>next_addr := ?n + 3, open_inodes := (?n + 2) # open_inodes s, inodes := (inodes s)(?n + 2 \<mapsto> inode_of s x), dirs := dirs s, cwd := None\<rparr>"
  have "dir_lookup ?a name ?w = Some (Some (?n + 2), ?t2)"
    using t1(1) assms(3,4) z(1) k(2) by (simp add: dir_lookup_def)
  moreover have "dir_close (Some ?a) ?t2 = Some ?t3"
  proof -
    have "dirs z = (dirs s)(?a \<mapsto> ?D)" using mz m1 by (simp add: with_root_def)
    moreover have "(inodes s)(Suc (Suc ?n) \<mapsto> inode_of s x, ?n := None) = (inodes s)(Suc (Suc ?n) \<mapsto> inode_of s x)" "(dirs s)(?a := None) = dirs s"
      using r(7,8) by (auto simp: fun_eq_iff)
    ultimately show ?thesis using a(8,9) by (simp add: dir_close_def inode_close_def Let_def fun_upd_twist [of ?n "Suc (Suc ?n)"])
  qed
  moreover have "inode_is_removed (?n + 2) ?t3 = Some False" by (simp add: inode_is_removed_def inode_of_def)
  ultimately have "filesys_open (in_root name) s = Some (Some (?n + 3), ?t3\<lparr>next_addr := ?n + 4,
      files := (files s)(?n + 3 \<mapsto> \<lparr>file_inode = ?n + 2, file_pos = 0, deny_write = False\<rparr>)\<rparr>)"
    using u(1) assms(2) mz m1 mu by (simp add: filesys_open_def split_in_root path_name_def file_open_def with_root_def Let_def)
  then have op: "filesys_open (in_root name) s = Some (Some (?n + 3), opened s x z)" by (simp add: opened_def)
  let ?z = "z\<lparr>next_addr := ?n, open_inodes := open_inodes s, inodes := inodes s, dirs := dirs s, cwd := None, files := files s\<rparr>"
  have "cache_inv z" "cache_valid z = cache_valid s" "\<And>y. cache_valid s y \<Longrightarrow> cache_content z y = cache_content s y"
    using same_sectorsD [OF z(2)] v by simp_all
  moreover have "cache_state.more ?z = cache_state.more s"
    by (rule more_eqI) (use mz m1 mu a(1) in \<open>simp_all add: with_root_def\<close>)
  ultimately have "same_sectors s ?z" by (simp add: same_sectors_def)
  moreover have "opened s x ?z = opened s x z" by (simp add: opened_def)
  ultimately show ?thesis using op by (intro exI [of _ ?z]) simp
qed

section \<open>A disk of 1024 sectors\<close>

text \<open>
  The inode of the free map is in sector 0, its data in sector 2; the sectors 0, 1 and 2 are in use.
\<close>

definition big_cache :: cache_state where
  "big_cache = \<lparr>fd = 3, image = replicate (512 * 1024) 7, panics = 0, hard_drive = None,
     cache = replicate 64 \<lparr>occupied = False, disk_sector = 0, buffer = replicate 512 0, dirty = False, access = False\<rparr>,
     clock = 0, fs_device = Block ''hda'' ''disk'' 1024 Ide_ops 0 0\<rparr>"

definition big_inode :: inode_disk where
  "big_inode = fm_inode\<lparr>data_length := 128\<rparr>"

definition big_map :: bitmap where
  "big_map = \<lparr>bit_cnt = 1023, bits = 7 # replicate 15 0\<rparr>"

definition big_disk :: fs_state where
  "big_disk = cache_state.extend (buffer_cache_init big_cache) (fs_state.fields
     [0 \<mapsto> \<lparr>sector_no = 0, open_cnt = 1, removed = False, deny_write_cnt = 0, idata = big_inode\<rparr>]
     [0] [1 \<mapsto> \<lparr>file_inode = 0, file_pos = 0, deny_write = False\<rparr>] 2 big_map (Some 1) [] Map.empty None (replicate 31 0) [])"

lemma big_disk_cache: "cache_inv big_disk" "cache_valid big_disk x \<longleftrightarrow> unat x < 1024"
proof -
  have "cache_inv (buffer_cache_init big_cache)"
    by (auto simp: cache_inv_def buffer_cache_init_def big_cache_def no_dups_def entry_ok_def)
  then show "cache_inv big_disk"
    by (simp add: big_disk_def cache_state.defs fs_state.defs cache_inv_def cache_valid_def dev_valid_def entry_ok_def sector_at_def)
  show "cache_valid big_disk x \<longleftrightarrow> unat x < 1024"
    by (auto simp: big_disk_def cache_state.defs fs_state.defs cache_valid_def dev_valid_def buffer_cache_init_def big_cache_def word_le_nat_alt not_le)
qed

lemma big_map_bit: "k < 1023 \<Longrightarrow> bools big_map ! k = (k < 3)"
proof -
  assume "k < 1023"
  have "bit (7 :: u64) n = (n < 3)" for n
    by (cases n; simp; rename_tac m; case_tac m; simp; rename_tac j; case_tac j; simp)
  then show ?thesis using \<open>k < 1023\<close> by (cases "k < 64") (auto simp: big_map_def bm_bit_def nth_Cons')
qed

lemma big_disk_ok: "alloc_ok big_inode big_disk" "used big_disk = {0, 1, 2}" "free_count big_disk = 1020" "map_file big_inode big_disk = {2}"
proof -
  have fm: "free_map big_disk = big_map" "bit_cnt big_map = 1023" by (simp_all add: big_disk_def cache_state.defs fs_state.defs big_map_def)
  have "used big_disk = {x. unat x < 3}" using big_map_bit fm by (auto simp: used_def simp del: nth_bools)
  also have "\<dots> = {0, 1, 2}"
  proof -
    have "unat x < 3 \<longleftrightarrow> x = 0 \<or> x = 1 \<or> x = 2" for x :: u32 by (auto simp: word_unat_eq_iff)
    then show ?thesis by auto
  qed
  finally show u: "used big_disk = {0, 1, 2}" .
  then show "free_count big_disk = 1020" by (simp add: free_count_def fm)
  have n: "bytes_to_sectors 128 = Suc 0" "data_length big_inode = 128" by (simp_all add: big_inode_def bytes_to_sectors_def DIV_ROUND_UP_def)
  have s: "data_sectors c big_inode (Suc 0) = [2]" "map_sectors c big_inode (Suc 0) = []" for c
    by (simp_all add: data_sectors_def map_sectors_def block_map_def big_inode_def fm_inode_def)
  then have d: "file_data c big_inode = {2}" "file_map c big_inode = {}" for c by (simp_all add: file_data_def file_map_def n)
  then show "map_file big_inode big_disk = {2}" by (simp add: map_file_def)
  have "inode_ok big_inode" by (simp add: big_inode_def fm_inode_def inode_ok_def)
  then have wf: "inode_wf (cache_valid big_disk) (cache_content big_disk) big_inode" "blocks_distinct (cache_content big_disk) big_inode"
    using big_disk_cache(2) by (simp_all add: inode_wf_def blocks_distinct_def n s)
  have "bm_ok big_map" "byte_cnt 1023 = 128" by (simp_all add: bm_ok_def big_map_def elem_cnt_def byte_cnt_def DIV_ROUND_UP_def)
  moreover have "free_map_file big_disk = Some 1" "files big_disk 1 = Some \<lparr>file_inode = 0, file_pos = 0, deny_write = False\<rparr>"
      "inodes big_disk 0 = Some \<lparr>sector_no = 0, open_cnt = 1, removed = False, deny_write_cnt = 0, idata = big_inode\<rparr>"
    by (simp_all add: big_disk_def cache_state.defs fs_state.defs)
  ultimately have "fm_wf big_inode big_disk" using wf big_disk_cache(1) by (simp add: fm_wf_def fm n)
  then show "alloc_ok big_inode big_disk" using d u big_disk_cache(2) by (simp add: alloc_ok_def fm)
qed

section \<open>Properties\<close>

text \<open>
  C8: \<open>inode_create\<close> makes a file of the wanted length that is filled with zeros, on sectors that
  were free before, as long as there are sectors for its blocks and its indirect blocks. The
  content of every other file stays the same, and the free map stays in order.
\<close>

theorem inode_create_zeros:
  assumes "alloc_ok f s" and "x \<in> used s" and "x \<notin> map_file f s" and "0 \<le> len" and "len < 2 ^ 31"
    and "bytes_to_sectors len \<le> MAX_BLOCKS" and "sectors_for (bytes_to_sectors len) \<le> free_count s"
  shows "\<exists>t d. inode_create x len dir s = Some (True, t) \<and> alloc_ok f t \<and> d = get_inode (cache_content t x) \<and> data_length d = len \<and>
    (is_dir d \<noteq> 0) = dir \<and> file_wf f t d \<and> file_bytes (cache_content t) d = replicate (nat len) 0 \<and> file_sectors_of t d \<inter> used s = {} \<and>
    (\<forall>g. file_wf f s g \<and> x \<notin> file_sectors_of s g \<longrightarrow> file_wf f t g \<and> file_bytes (cache_content t) g = file_bytes (cache_content s) g)"
proof -
  from inode_create_ok [OF assms] obtain d Y t where t: "inode_create x len dir s = Some (True, t)" "takes f s {x} Y t"
    "get_inode (cache_content t x) = d" "file_wf f t d" "file_bytes (cache_content t) d = replicate (nat len) 0" "file_sectors_of t d \<subseteq> Y"
    "data_length d = len" "is_dir d = (if dir then 1 else 0)" by blast
  have "file_sectors_of t d \<inter> used s = {}" using t(6) takesD(3) [OF t(2)] by blast
  moreover have "file_wf f t g \<and> file_bytes (cache_content t) g = file_bytes (cache_content s) g"
    if "file_wf f s g" "x \<notin> file_sectors_of s g" for g
    using file_takes(1,2) [OF that(1) t(2)] that(2) by simp
  ultimately show ?thesis using t(1,3-5,7,8) takesD(1) [OF t(2)] by (intro exI [of _ t] exI [of _ d]) simp
qed

theorem inode_create_zeros_witness:
  "\<exists>t d. inode_create 1 200000 False big_disk = Some (True, t) \<and> d = get_inode (cache_content t 1) \<and>
    file_bytes (cache_content t) d = replicate 200000 0"
proof -
  have "bytes_to_sectors 200000 = 391" "sectors_for 391 = 395"
    by (simp_all add: bytes_to_sectors_def DIV_ROUND_UP_def sectors_for_def)
  then show ?thesis using inode_create_zeros [OF big_disk_ok(1), of 1 200000 False] big_disk_ok(2-4) by auto
qed

text \<open>
  C7: A write to an open file, inside it or across or behind its end, writes all its bytes as long as
  there are sectors for the blocks it adds. The file is then as long as it was or as the end of the
  range, whichever is more; a gap is filled with zeros; the inode in memory and that on disk agree.
  No other file changes.
\<close>

theorem inode_write_extends:
  assumes "alloc_ok f s" and "open_file f s p i" and "deny_write_cnt i = 0" and "0 \<le> offset" and "0 < sz" and "nat sz \<le> length buf"
    and "offset + sz < 2 ^ 31" and "bytes_to_sectors (offset + sz) \<le> MAX_BLOCKS"
    and "sectors_for (bytes_to_sectors (offset + sz)) - sectors_for (num_blocks (idata i)) \<le> free_count s"
  shows "\<exists>t d. inode_write_at p buf sz offset s = Some (sz, t) \<and> alloc_ok f t \<and> open_file f t p (i\<lparr>idata := d\<rparr>) \<and>
    data_length d = max (data_length (idata i)) (offset + sz) \<and>
    file_bytes (cache_content t) d =
      overwrite (pad_to (nat (offset + sz)) (file_bytes (cache_content s) (idata i))) (nat offset) (take (nat sz) buf) \<and>
    (\<forall>g. file_wf f s g \<and> file_sectors_of s g \<inter> insert (sector_no i) (file_sectors_of s (idata i)) = {} \<longrightarrow>
       file_wf f t g \<and> file_bytes (cache_content t) g = file_bytes (cache_content s) g)"
proof -
  from inode_write_at_grows [OF assms] obtain d Y t where t: "inode_write_at p buf sz offset s = Some (sz, t)"
    "takes f (set_idata p d s) (insert (sector_no i) (file_sectors_of s (idata i))) Y t" "open_file f t p (i\<lparr>idata := d\<rparr>)"
    "data_length d = max (data_length (idata i)) (offset + sz)"
    "file_bytes (cache_content t) d =
      overwrite (pad_to (nat (offset + sz)) (file_bytes (cache_content s) (idata i))) (nat offset) (take (nat sz) buf)"
    by (elim exE conjE) (rule that; assumption)
  have "file_wf f t g \<and> file_bytes (cache_content t) g = file_bytes (cache_content s) g"
    if g: "file_wf f s g" "file_sectors_of s g \<inter> insert (sector_no i) (file_sectors_of s (idata i)) = {}" for g
  proof -
    have "file_wf f (set_idata p d s) g" "file_sectors_of (set_idata p d s) g = file_sectors_of s g"
      using g(1) file_wf_cong [of "set_idata p d s" s] by simp_all
    then show ?thesis using file_takes(1,2) [OF _ t(2), of g] g(2) by (simp add: Int_commute)
  qed
  then show ?thesis using t takesD(1) [OF t(2)] by (intro exI [of _ t] exI [of _ d]) simp
qed

text \<open>An empty file in sector 1, open at address 5.\<close>

definition big_file :: inode where
  "big_file = \<lparr>sector_no = 1, open_cnt = 1, removed = False, deny_write_cnt = 0, idata = new_inode 0 False\<rparr>"

lemma big_open:
  obtains s where "alloc_ok big_inode s" and "open_file big_inode s 5 big_file" and "free_count s = 1020"
proof -
  let ?s = "big_disk\<lparr>inodes := (inodes big_disk)(5 \<mapsto> big_file)\<rparr>"
  have i: "inodes big_disk = [0 \<mapsto> \<lparr>sector_no = 0, open_cnt = 1, removed = False, deny_write_cnt = 0, idata = big_inode\<rparr>]"
    "free_map_file big_disk = Some 1" "files big_disk 1 = Some \<lparr>file_inode = 0, file_pos = 0, deny_write = False\<rparr>"
    by (simp_all add: big_disk_def cache_state.defs fs_state.defs)
  have u: "used ?s = used big_disk" "map_file big_inode ?s = {2}" "free_count ?s = 1020"
    using big_disk_ok by (simp_all add: used_def map_file_def free_count_def)
  have "fm_wf big_inode ?s" using big_disk_ok(1) i by (auto simp: alloc_ok_def fm_wf_def)
  then have a: "alloc_ok big_inode ?s" using big_disk_ok(1) u(1) by (simp add: alloc_ok_def)
  have "inode_ok (new_inode 0 False)" using empty_file(1) by (simp add: file_wf_def)
  moreover have "1 \<in> used ?s" "1 \<notin> map_file big_inode ?s" using u big_disk_ok(2) by simp_all
  ultimately obtain t where t: "takes big_inode ?s {1} {} t" "get_inode (cache_content t 1) = new_inode 0 False"
    by (rule put_inode_ok [OF a])
  have "inodes t 5 = Some big_file" "\<not> is_free_map_inode 5 t"
    using takes_inodes [OF t(1)] i by (simp_all add: is_free_map_inode_def)
  moreover have "1 \<in> used t" "1 \<notin> map_file big_inode t" using used_takes [OF t(1)] map_file_takes [OF t(1)] u big_disk_ok(2) by auto
  ultimately have "open_file big_inode t 5 big_file" using t(2) empty_file by (simp add: open_file_def big_file_def)
  moreover have "free_count t = 1020" using takes_free_count [OF t(1)] u(3) by simp
  ultimately show thesis using takesD(1) [OF t(1)] that by blast
qed

theorem inode_write_extends_witness:
  "\<exists>s t d. inode_write_at 5 [1, 2, 3] 3 150000 s = Some (3, t) \<and> open_file big_inode t 5 (big_file\<lparr>idata := d\<rparr>) \<and>
    file_bytes (cache_content t) d = replicate 150000 0 @ [1, 2, 3]"
proof -
  obtain s where s: "alloc_ok big_inode s" "open_file big_inode s 5 big_file" "free_count s = 1020" by (rule big_open)
  have n: "bytes_to_sectors 150003 = 293" "bytes_to_sectors 0 = 0" "sectors_for 293 = 296" "sectors_for 0 = 0"
    by (simp_all add: bytes_to_sectors_def DIV_ROUND_UP_def sectors_for_def)
  have o: "overwrite (replicate 150003 0) 150000 [1, 2, 3] = replicate 150000 0 @ [1, 2, 3 :: u8]"
    by (intro nth_equalityI) (auto simp: nth_overwrite nth_append)
  from inode_write_extends [OF s(1,2), of 150000 3 "[1, 2, 3]"] s(3) show ?thesis
    using n o by (auto simp: big_file_def empty_file pad_to_def)
qed

end
