(* ===== verification/Fs_Release.thy ===== *)
theory Fs_Release
  imports Fs_Grow
begin

text \<open>
  What \<open>inode_deallocate\<close> does to the sectors: it gives back exactly those of the file, the
  indirect blocks among them, and changes no sector that is still in use.
\<close>

section \<open>Giving back sectors\<close>

text \<open>
  From \<open>s\<close> to \<open>t\<close> the sectors \<open>X\<close> were freed; of the other sectors in use only the data of
  the free map may have changed. This is \<open>takes\<close> backwards in time.
\<close>

definition gives :: "inode_disk \<Rightarrow> fs_state \<Rightarrow> u32 set \<Rightarrow> fs_state \<Rightarrow> bool" where
  "gives f s X t \<longleftrightarrow> takes f t {} X s"

lemma givesD:
  assumes "gives f s X t"
  shows "alloc_ok f s" and "alloc_ok f t" and "cache_valid t = cache_valid s" and "used t = used s - X" and "X \<subseteq> used s"
    and "file_data (cache_content t) f = file_data (cache_content s) f" and "file_map (cache_content t) f = file_map (cache_content s) f"
    and "\<And>y. y \<in> used s \<Longrightarrow> y \<notin> X \<Longrightarrow> y \<notin> file_data (cache_content s) f \<Longrightarrow> cache_content t y = cache_content s y"
    and "cache_inv t" and "map_file f t = map_file f s" and "free_count t = free_count s + card X"
proof -
  note t = takesD [OF assms [unfolded gives_def]]
  show a: "alloc_ok f s" "alloc_ok f t" using assms by (simp_all add: gives_def takes_def)
  show "cache_valid t = cache_valid s" "used t = used s - X" "X \<subseteq> used s" using t(2-4) by auto
  show "file_data (cache_content t) f = file_data (cache_content s) f" "file_map (cache_content t) f = file_map (cache_content s) f"
    using t(5,6) by simp_all
  show "cache_content t y = cache_content s y" if "y \<in> used s" "y \<notin> X" "y \<notin> file_data (cache_content s) f" for y
    using t(7) [of y] t(4,5) that by auto
  show "cache_inv t" by (rule alloc_okD(4) [OF a(2)])
  show "map_file f t = map_file f s" using map_file_takes [OF assms [unfolded gives_def]] by simp
  show "free_count t = free_count s + card X" using takes_free_count [OF assms [unfolded gives_def]] by simp
qed

lemma gives_trans: "gives f s X t \<Longrightarrow> gives f t Y u \<Longrightarrow> gives f s (X \<union> Y) u"
  using takes_trans [of f u "{}" Y t "{}" X s] by (simp add: gives_def Un_commute)

lemma gives_same:
  assumes "alloc_ok f s" and "same_sectors s t"
  shows "gives f s {} t"
proof -
  have t: "takes f s {} {} t" by (rule takes_same [OF assms])
  then have "cache_state.more (s\<lparr>free_map := free_map t\<rparr>) = cache_state.more t"
    unfolding takes_def by (cases s; cases t) simp
  with t show ?thesis by (simp add: gives_def takes_def)
qed

lemma gives_refl: "alloc_ok f s \<Longrightarrow> gives f s {} s"
  by (simp add: gives_def takes_refl)

lemma block_gives:
  assumes "gives f s X t" and "block_ok f s e" and "e \<noteq> 0" and "e \<notin> X"
  shows "block_ok f t e" and "cache_content t e = cache_content s e"
  using givesD(4,6-8) [OF assms(1)] assms(2-4) by (simp_all add: block_ok_def)

lemma gives_release:
  assumes "alloc_ok f s" and "block_ok f s x" and "x \<noteq> 0"
  shows "\<exists>t. free_map_release x 1 s = Some t \<and> gives f s {x} t"
proof -
  note a = alloc_okD [OF assms(1)]
  let ?b = "free_map s" and ?i = "unat x"
  have x: "x \<in> used s" "x \<notin> file_data (cache_content s) f" "x \<notin> file_map (cache_content s) f"
    using assms(2,3) by (simp_all add: block_ok_def)
  have i: "?i < bit_cnt ?b" "bools ?b ! ?i" using x(1) by (simp_all add: used_def)
  have ok: "bm_ok ?b" and wf: "inode_wf (cache_valid s) (cache_content s) f" "blocks_distinct (cache_content s) f"
    using a(1) by (simp_all add: fm_wf_def)
  have "bitmap_all ?b ?i 1 = Some (bools ?b ! ?i)"
    using bitmap_contains_ok [OF ok, of ?i 1 False] i(1) by (auto simp: bitmap_all_def take_Suc_conv_app_nth)
  then have all: "bitmap_all ?b ?i 1 = Some True" using i(2) by simp
  obtain b where b: "bitmap_set_multiple ?b ?i 1 False = Some b" "bm_ok b" "bit_cnt b = bit_cnt ?b"
      "bools b = overwrite (bools ?b) ?i [False]"
    using bitmap_set_multiple_ok [OF ok, of ?i 1 False] i(1) by auto
  have "fm_wf f (s\<lparr>free_map := b\<rparr>)" by (rule fm_wf_set_map [OF a(1) b(2,3)])
  then obtain t where t: "free_map_write (s\<lparr>free_map := b\<rparr>) = Some (True, t)" "data_written (s\<lparr>free_map := b\<rparr>) f t"
    "fm_wf f t" "free_map t = b" using free_map_write_ok [of f "s\<lparr>free_map := b\<rparr>"] by auto
  have "overwrite (bools ?b) ?i [False] = (bools ?b)[?i := False]"
    using i(1) by (intro nth_equalityI) (auto simp: nth_overwrite nth_list_update)
  then have u: "used t = used s - {x}"
    using i(1) unfolding used_def t(4) b(3,4) by (auto simp: nth_list_update word_unat_eq_iff simp del: nth_bools)
  note dw = t(2) [unfolded data_written_def]
  have "cache_content (s\<lparr>free_map := b\<rparr>) = cache_content s" "cache_valid (s\<lparr>free_map := b\<rparr>) = cache_valid s" by simp_all
  then have m: "\<forall>y \<in> set (map_sectors (cache_content s) f (num_blocks f)). cache_content t y = cache_content s y"
    using data_written_map [OF t(2)] wf by simp
  then have d: "file_data (cache_content t) f = file_data (cache_content s) f" "file_map (cache_content t) f = file_map (cache_content s) f"
    using data_sectors_cong [OF m] map_sectors_cong [OF m] by (simp_all add: file_data_def file_map_def)
  have al: "alloc_ok f t" using t(3,4) dw b(3) u d x assms(1,3) by (auto simp: alloc_ok_def)
  have "cache_state.more (s\<lparr>free_map := free_map t\<rparr>) = cache_state.more t"
    using dw t(4) by (cases s; cases t) simp
  then have "gives f s {x} t"
    using al assms(1) dw t(4) b(3) u x(1) d by (auto simp: gives_def takes_def alloc_okD(2) file_data_def)
  then show ?thesis using all b(1) t(1) by (intro exI [of _ t]) (simp add: free_map_release_def)
qed

section \<open>Rows of blocks\<close>

text \<open>The direct blocks, or the entries of an indirect block.\<close>

lemma release_row:
  assumes "alloc_ok f s" and "i + l \<le> length xs" and "\<forall>j \<in> {i..<i + l}. xs ! j \<noteq> 0 \<and> block_ok f s (xs ! j)"
    and "inj_on ((!) xs) {i..<i + l}"
  shows "\<exists>t. release_blocks (inode_deallocate_indirect 0) 1 l i l xs s = Some t \<and> gives f s ((!) xs ` {i..<i + l}) t"
  using assms
proof (induction l arbitrary: i s)
  case 0
  then show ?case by (simp add: gives_refl)
next
  case (Suc l)
  have J: "{i..<i + Suc l} = insert i {Suc i..<Suc i + l}" by auto
  note p = Suc.prems(3,4) [unfolded J]
  obtain t where t: "free_map_release (xs ! i) 1 s = Some t" "gives f s {xs ! i} t"
    using gives_release [OF Suc.prems(1), of "xs ! i"] p(1) by auto
  have "xs ! j \<noteq> xs ! i" if "j \<in> {Suc i..<Suc i + l}" for j using p(2) that by (auto simp: inj_on_def)
  then have "\<forall>j \<in> {Suc i..<Suc i + l}. xs ! j \<noteq> 0 \<and> block_ok f t (xs ! j)"
    using p(1) block_gives(1) [OF t(2)] by blast
  moreover have "inj_on ((!) xs) {Suc i..<Suc i + l}" using p(2) by (rule inj_on_subset) blast
  ultimately obtain u where "release_blocks (inode_deallocate_indirect 0) 1 l (Suc i) l xs t = Some u"
    "gives f t ((!) xs ` {Suc i..<Suc i + l}) u"
    using Suc.IH [OF givesD(2) [OF t(2)], of "Suc i"] Suc.prems(2) by auto
  then show ?case using t(1) gives_trans [OF t(2)] Suc.prems(2) unfolding J by (simp del: One_nat_def)
qed

text \<open>An indirect block with \<open>n\<close> entries, and the sectors that belong to it.\<close>

definition row_sectors :: "(u32 \<Rightarrow> u8 list) \<Rightarrow> u32 \<Rightarrow> nat \<Rightarrow> u32 set" where
  "row_sectors c e n = insert e ((!) (get_blocks (c e)) ` {..<n})"

definition row_good :: "inode_disk \<Rightarrow> fs_state \<Rightarrow> u32 \<Rightarrow> nat \<Rightarrow> bool" where
  "row_good f s e n \<longleftrightarrow> n \<le> 128 \<and> (\<forall>x \<in> row_sectors (cache_content s) e n. x \<noteq> 0 \<and> block_ok f s x) \<and>
     inj_on ((!) (get_blocks (cache_content s e))) {..<n} \<and> e \<notin> (!) (get_blocks (cache_content s e)) ` {..<n}"

lemma row_good_gives:
  assumes "row_good f s e n" and "gives f s X t" and "X \<inter> row_sectors (cache_content s) e n = {}"
  shows "row_good f t e n" and "row_sectors (cache_content t) e n = row_sectors (cache_content s) e n"
    and "cache_content t e = cache_content s e"
proof -
  have e: "e \<noteq> 0" "block_ok f s e" "e \<notin> X" using assms(1,3) by (auto simp: row_good_def row_sectors_def)
  show c: "cache_content t e = cache_content s e" by (rule block_gives(2) [OF assms(2) e(2,1,3)])
  then show r: "row_sectors (cache_content t) e n = row_sectors (cache_content s) e n" by (simp add: row_sectors_def)
  show "row_good f t e n"
    using assms(1,3) block_gives(1) [OF assms(2)] unfolding row_good_def r c by blast
qed

lemma release_indirect_1:
  assumes "alloc_ok f s" and "row_good f s e n"
  shows "\<exists>t. inode_deallocate_indirect 1 e n s = Some t \<and> gives f s (row_sectors (cache_content s) e n) t"
proof -
  let ?xs = "get_blocks (cache_content s e)"
  have e: "e \<noteq> 0" "block_ok f s e" "e \<in> used s" using assms(2) by (auto simp: row_good_def row_sectors_def block_ok_def)
  obtain u where u: "buffer_cache_read e s = Some (cache_content s e, u)" "same_sectors s u"
    using readE [OF alloc_okD(4) [OF assms(1)] alloc_okD(2) [OF assms(1) e(3)]] by blast
  note g = gives_same [OF assms(1) u(2)]
  note r = row_good_gives [OF assms(2) g Int_empty_left]
  have "\<exists>t. release_blocks (inode_deallocate_indirect 0) 1 n 0 n ?xs u = Some t \<and> gives f u ((!) ?xs ` {0..<0 + n}) t"
    by (rule release_row [OF givesD(2) [OF g]])
       (use r(1) in \<open>auto simp: row_good_def row_sectors_def r(3) atLeast0LessThan\<close>)
  then obtain t where t: "release_blocks (inode_deallocate_indirect 0) 1 n 0 n ?xs u = Some t" "gives f u ((!) ?xs ` {..<n}) t"
    by (auto simp: atLeast0LessThan)
  have "block_ok f t e"
    by (rule block_gives(1) [OF t(2)]) (use r(1) e(1) in \<open>auto simp: row_good_def row_sectors_def r(3)\<close>)
  then obtain v where v: "free_map_release e 1 t = Some v" "gives f t {e} v"
    using gives_release [OF givesD(2) [OF t(2)] _ e(1)] by blast
  have "gives f s ({} \<union> ((!) ?xs ` {..<n} \<union> {e})) v" by (rule gives_trans [OF g gives_trans [OF t(2) v(2)]])
  then have "gives f s (row_sectors (cache_content s) e n) v" by (simp add: row_sectors_def)
  moreover have "inode_deallocate_indirect 1 e n s = Some v"
  proof -
    have "DIV_ROUND_UP n (Suc 0) = n" by (simp add: DIV_ROUND_UP_def)
    then show ?thesis unfolding One_nat_def inode_deallocate_indirect.simps(2) using u(1) t(1) v(1)
      by (simp del: inode_deallocate_indirect.simps)
  qed
  ultimately show ?thesis by blast
qed

text \<open>Several rows, below a doubly indirect block.\<close>

definition rows_sectors :: "(u32 \<Rightarrow> u8 list) \<Rightarrow> u32 list \<Rightarrow> nat \<Rightarrow> nat set \<Rightarrow> u32 set" where
  "rows_sectors c xs n J = (\<Union>j \<in> J. row_sectors c (xs ! j) (row_size n j))"

lemma release_rows:
  assumes "alloc_ok f s" and "i + l \<le> length xs" and "\<forall>j \<in> {i..<i + l}. row_good f s (xs ! j) (row_size n j)"
    and "\<forall>j \<in> {i..<i + l}. \<forall>k \<in> {i..<i + l}. j \<noteq> k \<longrightarrow>
      row_sectors (cache_content s) (xs ! j) (row_size n j) \<inter> row_sectors (cache_content s) (xs ! k) (row_size n k) = {}"
  shows "\<exists>t. release_blocks (inode_deallocate_indirect 1) 128 l i (n - 128 * i) xs s = Some t \<and>
    gives f s (rows_sectors (cache_content s) xs n {i..<i + l}) t"
  using assms
proof (induction l arbitrary: i s)
  case 0
  then show ?case by (simp add: gives_refl rows_sectors_def)
next
  case (Suc l)
  let ?c = "cache_content s" and ?J = "{Suc i..<Suc i + l}"
  have J: "{i..<i + Suc l} = insert i ?J" "i \<notin> ?J" by auto
  note p = Suc.prems(3,4) [unfolded J(1)]
  obtain t where t: "inode_deallocate_indirect 1 (xs ! i) (row_size n i) s = Some t" "gives f s (row_sectors ?c (xs ! i) (row_size n i)) t"
    using release_indirect_1 [OF Suc.prems(1), of "xs ! i" "row_size n i"] p(1) by blast
  have r: "row_good f t (xs ! j) (row_size n j)"
    "row_sectors (cache_content t) (xs ! j) (row_size n j) = row_sectors ?c (xs ! j) (row_size n j)" if j: "j \<in> ?J" for j
  proof -
    have "i \<noteq> j" using j J(2) by blast
    then have d: "row_sectors ?c (xs ! i) (row_size n i) \<inter> row_sectors ?c (xs ! j) (row_size n j) = {}" using p(2) j by simp
    have "row_good f s (xs ! j) (row_size n j)" using p(1) j by simp
    from row_good_gives(1,2) [OF this t(2) d] show "row_good f t (xs ! j) (row_size n j)"
      "row_sectors (cache_content t) (xs ! j) (row_size n j) = row_sectors ?c (xs ! j) (row_size n j)" .
  qed
  have "\<forall>j \<in> ?J. \<forall>k \<in> ?J. j \<noteq> k \<longrightarrow>
      row_sectors (cache_content t) (xs ! j) (row_size n j) \<inter> row_sectors (cache_content t) (xs ! k) (row_size n k) = {}"
    using p(2) r(2) by simp
  then obtain u where u: "release_blocks (inode_deallocate_indirect 1) 128 l (Suc i) (n - 128 * Suc i) xs t = Some u"
    "gives f t (rows_sectors (cache_content t) xs n ?J) u"
    using Suc.IH [OF givesD(2) [OF t(2)], of "Suc i"] Suc.prems(2) r(1) by auto
  have "rows_sectors (cache_content t) xs n ?J = rows_sectors ?c xs n ?J" using r(2) by (simp add: rows_sectors_def)
  then have "gives f s (rows_sectors ?c xs n (insert i ?J)) u" using gives_trans [OF t(2) u(2)] by (simp add: rows_sectors_def)
  moreover have "release_blocks (inode_deallocate_indirect 1) 128 (Suc l) i (n - 128 * i) xs s = Some u"
  proof -
    have "n - 128 * i - min (n - 128 * i) 128 = n - 128 * Suc i" "min (n - 128 * i) 128 = row_size n i"
      by (simp_all add: row_size_def)
    then show ?thesis using t(1) u(1) Suc.prems(2) by (simp del: inode_deallocate_indirect.simps One_nat_def)
  qed
  ultimately show ?case unfolding J(1) by blast
qed

lemma release_indirect_2:
  assumes "alloc_ok f s" and "e \<noteq> 0" and "block_ok f s e" and "n \<le> 128 * 128"
    and "\<forall>j < DIV_ROUND_UP n 128. row_good f s (get_blocks (cache_content s e) ! j) (row_size n j)"
    and "\<forall>j < DIV_ROUND_UP n 128. \<forall>k < DIV_ROUND_UP n 128. j \<noteq> k \<longrightarrow>
      row_sectors (cache_content s) (get_blocks (cache_content s e) ! j) (row_size n j) \<inter>
      row_sectors (cache_content s) (get_blocks (cache_content s e) ! k) (row_size n k) = {}"
    and "e \<notin> rows_sectors (cache_content s) (get_blocks (cache_content s e)) n {..<DIV_ROUND_UP n 128}"
  shows "\<exists>t. inode_deallocate_indirect 2 e n s = Some t \<and>
    gives f s (insert e (rows_sectors (cache_content s) (get_blocks (cache_content s e)) n {..<DIV_ROUND_UP n 128})) t"
proof -
  let ?xs = "get_blocks (cache_content s e)" and ?r = "DIV_ROUND_UP n 128"
  have e: "e \<in> used s" using assms(2,3) by (simp add: block_ok_def)
  obtain u where u: "buffer_cache_read e s = Some (cache_content s e, u)" "same_sectors s u"
    using readE [OF alloc_okD(4) [OF assms(1)] alloc_okD(2) [OF assms(1) e]] by blast
  note g = gives_same [OF assms(1) u(2)] and eu = block_gives(1) [OF gives_same [OF assms(1) u(2)] assms(3,2)]
  have r: "row_good f u (?xs ! j) (row_size n j)"
    "row_sectors (cache_content u) (?xs ! j) (row_size n j) = row_sectors (cache_content s) (?xs ! j) (row_size n j)" if "j < ?r" for j
    using row_good_gives(1,2) [OF _ g Int_empty_left] assms(5) that by blast+
  then have rows: "rows_sectors (cache_content u) ?xs n {..<?r} = rows_sectors (cache_content s) ?xs n {..<?r}" by (simp add: rows_sectors_def)
  have "\<exists>t. release_blocks (inode_deallocate_indirect 1) 128 ?r 0 (n - 128 * 0) ?xs u = Some t \<and>
      gives f u (rows_sectors (cache_content u) ?xs n {0..<0 + ?r}) t"
    by (rule release_rows [OF givesD(2) [OF g]]) (use rows_bound [OF assms(4)] r assms(6) in simp_all)
  then obtain t where t: "release_blocks (inode_deallocate_indirect 1) 128 ?r 0 n ?xs u = Some t"
    "gives f u (rows_sectors (cache_content s) ?xs n {..<?r}) t" using rows by (auto simp: atLeast0LessThan)
  have "block_ok f t e" using block_gives(1) [OF t(2) eu assms(2)] assms(7) by simp
  then obtain v where v: "free_map_release e 1 t = Some v" "gives f t {e} v"
    using gives_release [OF givesD(2) [OF t(2)] _ assms(2)] by blast
  have "gives f s ({} \<union> (rows_sectors (cache_content s) ?xs n {..<?r} \<union> {e})) v" by (rule gives_trans [OF g gives_trans [OF t(2) v(2)]])
  then have "gives f s (insert e (rows_sectors (cache_content s) ?xs n {..<?r})) v" by simp
  moreover have "inode_deallocate_indirect 2 e n s = Some v"
  proof -
    have "inode_deallocate_indirect 2 = inode_deallocate_indirect (Suc 1)" by (simp only: Suc_1)
    then show ?thesis using u(1) t(1) v(1)
      by (simp del: inode_deallocate_indirect.simps add: inode_deallocate_indirect.simps(2) [of "Suc 0"])
  qed
  ultimately show ?thesis by blast
qed

section \<open>A whole file\<close>

text \<open>An indirect block of a file and the part of the file below it.\<close>

lemma file_row:
  assumes "extent_ok f s d n" and "e \<in> map_set (cache_content s) d" and "ofs + m \<le> n" and "m \<le> 128"
    and "\<And>k. k < m \<Longrightarrow> get_blocks (cache_content s e) ! k = block_map (cache_content s) d (ofs + k)"
  shows "row_good f s e m" and "row_sectors (cache_content s) e m = insert e (block_map (cache_content s) d ` {ofs..<ofs + m})"
proof -
  let ?g = "block_map (cache_content s) d" and ?xs = "get_blocks (cache_content s e)"
  note x = assms(1) [unfolded extent_ok_def]
  have img: "(!) ?xs ` {..<m} = ?g ` {ofs..<ofs + m}"
  proof -
    have "{ofs..<ofs + m} = (\<lambda>k. ofs + k) ` {..<m}" by (simp add: image_add_atLeastLessThan lessThan_atLeast0 add.commute)
    then have "?g ` {ofs..<ofs + m} = (\<lambda>k. ?g (ofs + k)) ` {..<m}" by (simp only: image_image)
    also have "\<dots> = (!) ?xs ` {..<m}" by (rule image_cong) (simp_all add: assms(5))
    finally show ?thesis by simp
  qed
  then show r: "row_sectors (cache_content s) e m = insert e (?g ` {ofs..<ofs + m})" by (simp add: row_sectors_def)
  have sub: "?g ` {ofs..<ofs + m} \<subseteq> ?g ` {..<n}" using assms(3) by auto
  have "inj_on ((!) ?xs) {..<m}"
  proof (rule inj_onI)
    fix j k assume jk: "j \<in> {..<m}" "k \<in> {..<m}" "?xs ! j = ?xs ! k"
    then have "?g (ofs + j) = ?g (ofs + k)" using assms(5) by simp
    moreover have "inj_on ?g {..<n}" using x by blast
    ultimately have "ofs + j = ofs + k" using inj_onD [of ?g "{..<n}" "ofs + j" "ofs + k"] jk(1,2) assms(3) by simp
    then show "j = k" by simp
  qed
  moreover have "e \<notin> ?g ` {ofs..<ofs + m}" using x assms(2) sub by blast
  moreover have "y \<noteq> 0 \<and> block_ok f s y" if "y \<in> insert e (?g ` {ofs..<ofs + m})" for y
    using that x map_set_used(1,2) [OF assms(1,2)] sub by auto
  ultimately show "row_good f s e m" unfolding row_good_def r img using assms(4) by blast
qed

lemma notin_image: "y \<notin> g ` A \<Longrightarrow> B \<subseteq> A \<Longrightarrow> y \<notin> g ` B"
  by blast

lemma image_apart:
  assumes "inj_on g C" and "A \<subseteq> C" and "B \<subseteq> C" and "A \<inter> B = {}"
  shows "g ` A \<inter> g ` B = {}"
proof -
  have "g ` (A \<inter> B) = g ` A \<inter> g ` B" by (rule inj_on_image_Int [OF assms(1-3)])
  then show ?thesis by (simp only: assms(4) image_empty)
qed

lemma parts_apart:
  "A \<inter> B = {} \<Longrightarrow> e \<in> M \<Longrightarrow> T \<subseteq> M \<Longrightarrow> M \<inter> G = {} \<Longrightarrow> e \<notin> T \<Longrightarrow> A \<subseteq> G \<Longrightarrow> B \<subseteq> G \<Longrightarrow> ({e} \<union> A) \<inter> (T \<union> B) = {}"
  by blast

lemma insert_apart: "A \<inter> B = {} \<Longrightarrow> x \<notin> A \<Longrightarrow> A \<inter> insert x B = {}"
  by simp

lemma insert_disjoint_insert: "A \<inter> B = {} \<Longrightarrow> x \<noteq> y \<Longrightarrow> x \<notin> B \<Longrightarrow> y \<notin> A \<Longrightarrow> insert x A \<inter> insert y B = {}"
  by auto

lemma file_rows:
  fixes s :: fs_state and d :: inode_disk
  defines "c \<equiv> cache_content s" and "e \<equiv> doubly_indirect_block d"
  defines "xs \<equiv> get_blocks (c e)"
  assumes "extent_ok f s d n" and "251 < n"
  shows "e \<noteq> 0" and "block_ok f s e" and "tree_map c e = insert e ((!) xs ` {..<DIV_ROUND_UP (n - 251) 128})"
    and "\<And>j. j < DIV_ROUND_UP (n - 251) 128 \<Longrightarrow> row_good f s (xs ! j) (row_size (n - 251) j)"
    and "\<And>j k. j < DIV_ROUND_UP (n - 251) 128 \<Longrightarrow> k < DIV_ROUND_UP (n - 251) 128 \<Longrightarrow> j \<noteq> k \<Longrightarrow>
      row_sectors c (xs ! j) (row_size (n - 251) j) \<inter> row_sectors c (xs ! k) (row_size (n - 251) k) = {}"
    and "rows_sectors c xs (n - 251) {..<DIV_ROUND_UP (n - 251) 128} = (!) xs ` {..<DIV_ROUND_UP (n - 251) 128} \<union> block_map c d ` {251..<n}"
    and "e \<notin> rows_sectors c xs (n - 251) {..<DIV_ROUND_UP (n - 251) 128}"
proof -
  let ?m = "n - 251" and ?r = "DIV_ROUND_UP (n - 251) 128" and ?g = "block_map c d"
  let ?I = "\<lambda>j. {251 + 128 * j..<251 + 128 * j + row_size ?m j}"
  note x = assms(4) [unfolded extent_ok_def, folded c_def e_def]
  show e: "e \<noteq> 0" "block_ok f s e" using x assms(5) by (auto simp: tree_ok_def)
  have m: "?m \<le> 128 * 128" using x by linarith
  note r = rows_bound [OF m]
  have row: "\<forall>j < 128. (xs ! j = 0) = (?r \<le> j)" "e \<notin> set xs" "rows_ok f s xs ?m {..<128}"
    using x e(1) by (simp_all add: tree_ok_def row_ok_def xs_def c_def)
  have len: "length xs = 128" by (simp add: xs_def)
  have nz: "xs ! j \<noteq> 0" if "j < ?r" for j using row(1) r that by auto
  have sub: "(!) xs ` {..<?r} \<subseteq> set xs" using r len by auto
  show tm: "tree_map c e = insert e ((!) xs ` {..<?r})"
  proof -
    have "set xs - {0} = (!) xs ` {..<?r}"
    proof (intro equalityI subsetI)
      fix y assume "y \<in> set xs - {0}"
      then obtain j where "j < 128" "y = xs ! j" "y \<noteq> 0" using len by (auto simp: in_set_conv_nth)
      then show "y \<in> (!) xs ` {..<?r}" using row(1) by (auto simp: not_le)
    qed (use nz sub in auto)
    then show ?thesis using e(1) by (simp add: tree_map_def xs_def)
  qed
  have in_map: "xs ! j \<in> map_set c d" if "j < ?r" for j using that tm by (auto simp: map_set_def e_def)
  have rs: "251 + 128 * j + row_size ?m j \<le> n" if "j < ?r" for j
    using that less_DIV_ROUND_UP_iff [of 128 j ?m] by (simp add: row_size_def)
  have entry: "get_blocks (c (xs ! j)) ! k = ?g (251 + 128 * j + k)" if "j < ?r" "k < row_size ?m j" for j k
  proof -
    have "k < 128" using that(2) by (simp add: row_size_def)
    moreover have "128 * j + k < 16384" using rs [OF that(1)] that(2) m assms(5) by linarith
    ultimately show ?thesis
      using second_level_row [of k c xs j] block_map_parts(3) [of "128 * j + k" c d] by (simp add: xs_def e_def add.assoc)
  qed
  note row' = file_row [OF assms(4), folded c_def]
  show good: "row_good f s (xs ! j) (row_size ?m j)" if "j < ?r" for j
    by (rule row'(1) [OF in_map [OF that] rs [OF that] row_size_le entry [OF that]])
  have rsec: "row_sectors c (xs ! j) (row_size ?m j) = insert (xs ! j) (?g ` ?I j)" if "j < ?r" for j
    by (rule row'(2) [OF in_map [OF that] rs [OF that] row_size_le entry [OF that]])
  have I: "?I j \<subseteq> {..<n}" if "j < ?r" for j using rs [OF that] by auto
  have apart: "xs ! j \<notin> ?g ` {..<n}" if "j < ?r" for j using x in_map [OF that] by blast
  show "row_sectors c (xs ! j) (row_size ?m j) \<inter> row_sectors c (xs ! k) (row_size ?m k) = {}"
    if jk: "j < ?r" "k < ?r" "j \<noteq> k" for j k
  proof -
    have u: "\<forall>j \<in> {..<128}. \<forall>k \<in> {..<128}. j \<noteq> k \<longrightarrow> xs ! j = xs ! k \<longrightarrow> xs ! j = 0"
      using row(3) unfolding rows_ok_def by (rule conjunct2)
    have "j \<in> {..<128}" "k \<in> {..<128}" using jk r by auto
    from u [rule_format, OF this jk(3)] nz [OF jk(1)] have ne: "xs ! j \<noteq> xs ! k" by blast
    have "?I j \<inter> ?I k = {}"
    proof -
      have "row_size ?m j \<le> 128" "row_size ?m k \<le> 128" "j < k \<or> k < j" using jk(3) by auto
      then have "251 + 128 * j + row_size ?m j \<le> 251 + 128 * k \<or> 251 + 128 * k + row_size ?m k \<le> 251 + 128 * j" by linarith
      then show ?thesis unfolding Int_atLeastLessThan by (auto simp: min_le_iff_disj le_max_iff_disj)
    qed
    then have e1: "?g ` (?I j \<inter> ?I k) = {}" by (simp only: image_empty)
    have e2: "?g ` (?I j \<inter> ?I k) = ?g ` ?I j \<inter> ?g ` ?I k"
      by (rule inj_on_image_Int [OF _ I [OF jk(1)] I [OF jk(2)]]) (use x in blast)
    have d: "?g ` ?I j \<inter> ?g ` ?I k = {}" by (rule trans [OF e2 [symmetric] e1])
    have "xs ! j \<notin> ?g ` ?I k" by (rule notin_image [OF apart [OF jk(1)] I [OF jk(2)]])
    moreover have "xs ! k \<notin> ?g ` ?I j" by (rule notin_image [OF apart [OF jk(2)] I [OF jk(1)]])
    ultimately show ?thesis unfolding rsec [OF jk(1)] rsec [OF jk(2)] by (intro insert_disjoint_insert d ne)
  qed
  have "(\<Union>j<?r. ?I j) = {251..<n}"
  proof (intro equalityI subsetI)
    fix k assume k: "k \<in> {251..<n}"
    have "(k - 251) div 128 < ?r" using k by (intro in_rows) auto
    moreover have "k \<in> ?I ((k - 251) div 128)"
      using k mod_less_divisor [of 128 "k - 251"] div_mult_mod_eq [of "k - 251" 128] unfolding row_size_def by auto
    ultimately show "k \<in> (\<Union>j<?r. ?I j)" by blast
  qed (use rs in fastforce)
  then have "?g ` {251..<n} = (\<Union>j<?r. ?g ` ?I j)" by (metis image_UN)
  then show rows: "rows_sectors c xs ?m {..<?r} = (!) xs ` {..<?r} \<union> ?g ` {251..<n}"
    using rsec by (auto simp: rows_sectors_def)
  have "e \<in> map_set c d" using tm by (simp add: map_set_def e_def)
  then have "e \<notin> ?g ` {..<n}" using x by blast
  moreover have "e \<notin> (!) xs ` {..<?r}" using row(2) sub by blast
  ultimately show "e \<notin> rows_sectors c xs ?m {..<?r}" unfolding rows by fastforce
qed

text \<open>The second and the third part of a file.\<close>

lemma release_part_1:
  assumes "extent_ok f s d n" and "123 < n" and "gives f s (block_map (cache_content s) d ` {..<123}) t"
  shows "\<exists>u. inode_deallocate_indirect 1 (indirect_block d) (min (n - 123) 128) t = Some u \<and>
    gives f s ({indirect_block d} \<union> block_map (cache_content s) d ` {..<min n 251}) u"
proof -
  let ?e = "indirect_block d" and ?g = "block_map (cache_content s) d" and ?m = "min (n - 123) 128"
  note x = assms(1) [unfolded extent_ok_def]
  have e: "?e \<in> map_set (cache_content s) d" using x assms(2) by (simp add: map_set_def)
  have m: "123 + ?m = min n 251" "123 + ?m \<le> n" "?m \<le> 128" using assms(2) by auto
  have entry: "get_blocks (cache_content s ?e) ! k = ?g (123 + k)" if "k < ?m" for k using that by (simp add: block_map_parts)
  have row: "row_good f s ?e ?m" "row_sectors (cache_content s) ?e ?m = insert ?e (?g ` {123..<min n 251})"
    by (rule file_row [OF assms(1) e m(2,3), unfolded m(1)], rule entry, assumption)+
  have "?g ` {..<123} \<inter> insert ?e (?g ` {123..<min n 251}) = {}"
  proof -
    have sub: "{..<123} \<subseteq> {..<n}" "{123..<min n 251} \<subseteq> {..<n}" using assms(2) by auto
    have "inj_on ?g {..<n}" using x by blast
    from image_apart [OF this sub] have "?g ` {..<123} \<inter> ?g ` {123..<min n 251} = {}" by fastforce
    moreover have "?e \<notin> ?g ` {..<123}" using x e by (intro notin_image [OF _ sub(1)]) blast
    ultimately show ?thesis by (rule insert_apart)
  qed
  then have dis: "?g ` {..<123} \<inter> row_sectors (cache_content s) ?e ?m = {}" by (simp only: row(2))
  note r = row_good_gives(1,2) [OF row(1) assms(3) dis]
  from release_indirect_1 [OF givesD(2) [OF assms(3)] r(1)]
  obtain u where u: "inode_deallocate_indirect 1 ?e ?m t = Some u" "gives f t (row_sectors (cache_content t) ?e ?m) u"
    by (elim exE conjE) (rule that; assumption)
  have "gives f s (?g ` {..<123} \<union> row_sectors (cache_content t) ?e ?m) u" by (rule gives_trans [OF assms(3) u(2)])
  then have "gives f s (?g ` {..<123} \<union> insert ?e (?g ` {123..<min n 251})) u" by (simp only: r(2) row(2))
  moreover have "?g ` {..<123} \<union> insert ?e (?g ` {123..<min n 251}) = {?e} \<union> ?g ` {..<min n 251}"
  proof -
    have "{..<min n 251} = {..<123} \<union> {123..<min n 251}" using assms(2) by auto
    then have "?g ` {..<min n 251} = ?g ` {..<123} \<union> ?g ` {123..<min n 251}" by (simp only: image_Un)
    then show ?thesis by blast
  qed
  ultimately have "gives f s ({?e} \<union> ?g ` {..<min n 251}) u" by (simp only:)
  with u(1) show ?thesis by (intro exI conjI)
qed

lemma release_part_2:
  assumes "extent_ok f s d n" and "251 < n" and "gives f s ({indirect_block d} \<union> block_map (cache_content s) d ` {..<251}) t"
  shows "\<exists>u. inode_deallocate_indirect 2 (doubly_indirect_block d) (n - 251) t = Some u \<and>
    gives f s (map_set (cache_content s) d \<union> block_map (cache_content s) d ` {..<n}) u"
proof -
  let ?e = "doubly_indirect_block d" and ?c = "cache_content s" and ?m = "n - 251" and ?r = "DIV_ROUND_UP (n - 251) 128"
  let ?g = "block_map ?c d" and ?xs = "get_blocks (?c ?e)" and ?X = "{indirect_block d} \<union> block_map ?c d ` {..<251}"
  note x = assms(1) [unfolded extent_ok_def] and f = file_rows [OF assms(1,2)]
  have rows: "rows_sectors ?c ?xs ?m {..<?r} \<subseteq> tree_map ?c ?e \<union> ?g ` {251..<n}" using f(3,6) by blast
  have dis: "?X \<inter> (tree_map ?c ?e \<union> ?g ` {251..<n}) = {}"
  proof -
    have sub: "{..<251} \<subseteq> {..<n}" "{251..<n} \<subseteq> {..<n}" using assms(2) by auto
    have "inj_on ?g {..<n}" using x by blast
    from image_apart [OF this sub] have "?g ` {..<251} \<inter> ?g ` {251..<n} = {}" by fastforce
    moreover have "indirect_block d \<in> map_set ?c d" "tree_map ?c ?e \<subseteq> map_set ?c d" using x assms(2) by (auto simp: map_set_def)
    moreover have "map_set ?c d \<inter> ?g ` {..<n} = {}" "indirect_block d \<notin> tree_map ?c ?e" using x by blast+
    moreover have "?g ` {..<251} \<subseteq> ?g ` {..<n}" "?g ` {251..<n} \<subseteq> ?g ` {..<n}" by (rule image_mono [OF sub(1)], rule image_mono [OF sub(2)])
    ultimately show ?thesis by (rule parts_apart)
  qed
  have e: "?e \<notin> ?X" using dis f(3) by blast
  note b = block_gives [OF assms(3) f(2,1) e]
  have row: "row_good f t (?xs ! j) (row_size ?m j)" "row_sectors (cache_content t) (?xs ! j) (row_size ?m j) = row_sectors ?c (?xs ! j) (row_size ?m j)"
    if j: "j < ?r" for j
  proof -
    have "row_sectors ?c (?xs ! j) (row_size ?m j) \<subseteq> rows_sectors ?c ?xs ?m {..<?r}" using j by (auto simp: rows_sectors_def)
    then have "?X \<inter> row_sectors ?c (?xs ! j) (row_size ?m j) = {}" using dis rows by blast
    from row_good_gives(1,2) [OF f(4) [OF j] assms(3) this]
    show "row_good f t (?xs ! j) (row_size ?m j)" "row_sectors (cache_content t) (?xs ! j) (row_size ?m j) = row_sectors ?c (?xs ! j) (row_size ?m j)" .
  qed
  have m: "?m \<le> 128 * 128" using x by linarith
  have rs: "rows_sectors (cache_content t) ?xs ?m {..<?r} = rows_sectors ?c ?xs ?m {..<?r}" using row(2) by (simp add: rows_sectors_def)
  have "\<exists>u. inode_deallocate_indirect 2 ?e ?m t = Some u \<and>
      gives f t (insert ?e (rows_sectors (cache_content t) (get_blocks (cache_content t ?e)) ?m {..<?r})) u"
    by (rule release_indirect_2 [OF givesD(2) [OF assms(3)] f(1) b(1) m], unfold b(2)) (use row f(5,7) rs in simp_all)
  then obtain u where u: "inode_deallocate_indirect 2 ?e ?m t = Some u" "gives f t (insert ?e (rows_sectors ?c ?xs ?m {..<?r})) u"
    unfolding b(2) rs by blast
  have "?X \<union> insert ?e (rows_sectors ?c ?xs ?m {..<?r}) = map_set ?c d \<union> ?g ` {..<n}"
  proof -
    have "{..<n} = {..<251} \<union> {251..<n}" using assms(2) by auto
    then have "?g ` {..<n} = ?g ` {..<251} \<union> ?g ` {251..<n}" by (simp only: image_Un)
    moreover have "map_set ?c d = insert (indirect_block d) (tree_map ?c ?e)" using x assms(2) by (auto simp: map_set_def)
    ultimately show ?thesis unfolding f(3,6) by blast
  qed
  then show ?thesis using u(1) gives_trans [OF assms(3) u(2)] by metis
qed

lemma inode_deallocate_ok:
  assumes "alloc_ok f s" and "file_wf f s d"
  shows "\<exists>t. inode_deallocate d s = Some (True, t) \<and> gives f s (file_sectors_of s d) t"
proof -
  let ?n = "num_blocks d" and ?g = "block_map (cache_content s) d"
  have w: "0 \<le> data_length d" "extent_ok f s d ?n" using assms(2) by (simp_all add: file_wf_def)
  note x = w(2) [unfolded extent_ok_def]
  have direct: "(!) (direct_blocks d) ` {0..<0 + min ?n 123} = ?g ` {..<min ?n 123}"
    by (rule image_cong) (simp_all add: block_map_parts atLeast0LessThan)
  have inj: "inj_on ?g {..<min ?n 123}" using x by (meson inj_on_subset lessThan_subset_iff min.cobounded1)
  have "\<exists>t. release_blocks (inode_deallocate_indirect 0) 1 (min ?n 123) 0 (min ?n 123) (direct_blocks d) s = Some t \<and>
      gives f s ((!) (direct_blocks d) ` {0..<0 + min ?n 123}) t"
  proof (rule release_row [OF assms(1)])
    show "\<forall>j \<in> {0..<0 + min ?n 123}. direct_blocks d ! j \<noteq> 0 \<and> block_ok f s (direct_blocks d ! j)"
    proof
      fix j assume "j \<in> {0..<0 + min ?n 123}"
      then have "j < ?n" "?g j = direct_blocks d ! j" by (simp_all add: block_map_parts)
      moreover have "\<forall>k < ?n. ?g k \<noteq> 0 \<and> block_ok f s (?g k)" using x by blast
      ultimately show "direct_blocks d ! j \<noteq> 0 \<and> block_ok f s (direct_blocks d ! j)" by auto
    qed
    show "inj_on ((!) (direct_blocks d)) {0..<0 + min ?n 123}" using inj by (simp add: inj_on_def block_map_parts)
  qed (use x in simp)
  then obtain t1 where t1: "release_blocks (inode_deallocate_indirect 0) 1 (min ?n 123) 0 (min ?n 123) (direct_blocks d) s = Some t1"
    "gives f s (?g ` {..<min ?n 123}) t1" unfolding direct by blast
  consider "?n \<le> 123" | "123 < ?n" "?n \<le> 251" | "251 < ?n" by linarith
  then show ?thesis
  proof cases
    case 1
    then have "map_set (cache_content s) d = {}" using x by (simp add: map_set_def tree_map_def)
    then show ?thesis using 1 w(1) t1 by (simp add: inode_deallocate_def Let_def file_sectors_of_def del: inode_deallocate_indirect.simps One_nat_def)
  next
    case 2
    then have m: "min ?n 123 = 123" "min ?n 251 = ?n" "min (?n - 123) 128 = ?n - 123" by simp_all
    then obtain u where u: "inode_deallocate_indirect 1 (indirect_block d) (?n - 123) t1 = Some u" "gives f s ({indirect_block d} \<union> ?g ` {..<?n}) u"
      using release_part_1 [OF w(2) 2(1), of t1] t1(2) by auto
    have "file_sectors_of s d = {indirect_block d} \<union> ?g ` {..<?n}" using x 2 by (simp add: file_sectors_of_def map_set_def tree_map_def)
    then show ?thesis using 2 w(1) t1(1) u m by (simp add: inode_deallocate_def Let_def del: inode_deallocate_indirect.simps One_nat_def)
  next
    case 3
    then have m: "min ?n 123 = 123" "min ?n 251 = 251" "min (?n - 123) 128 = 128" "?n - 123 - 128 = ?n - 251" by simp_all
    have m': "?n - 251 \<le> 16384" "128 < ?n - 123" using x 3 by linarith+
    obtain u where u: "inode_deallocate_indirect 1 (indirect_block d) 128 t1 = Some u" "gives f s ({indirect_block d} \<union> ?g ` {..<251}) u"
      using release_part_1 [OF w(2) _, of t1] t1(2) 3 m by auto
    obtain v where v: "inode_deallocate_indirect 2 (doubly_indirect_block d) (?n - 251) u = Some v" "gives f s (file_sectors_of s d) v"
      using release_part_2 [OF w(2) 3 u(2)] by (auto simp: file_sectors_of_def)
    then show ?thesis using 3 w(1) t1(1) u(1) m m' by (simp add: inode_deallocate_def Let_def del: inode_deallocate_indirect.simps One_nat_def)
  qed
qed

end
