(* ===== verification/Fs_Util.thy ===== *)
theory Fs_Util
  imports Fs_Filesys
begin

text \<open>
  The commands on files: \<open>fs/fsutil.c\<close>, and the dump of a buffer they print,
  \<open>hex_dump\<close> of \<open>fs/debug.c\<close>.
\<close>

section \<open>Dumping a buf\<close>

definition hex_digit :: "nat \<Rightarrow> char" where
  "hex_digit d = ''0123456789abcdef'' ! (d mod 16)"

text \<open>\<open>%0<w>x\<close>, for numbers of at most \<open>w\<close> digits.\<close>

fun hex :: "nat \<Rightarrow> nat \<Rightarrow> string" where
  "hex 0 n = []"
| "hex (Suc w) n = hex w (n div 16) @ [hex_digit n]"

definition isprint :: "u8 \<Rightarrow> bool" where
  "isprint b \<longleftrightarrow> 32 \<le> b \<and> b < 127"

definition spaces :: "nat \<Rightarrow> string" where
  "spaces n = replicate n CHR '' ''"

text \<open>
  One line of the dump: the bytes \<open>bs\<close> of the line stand in the columns from \<open>start\<close> to
  \<open>stop\<close>.
\<close>

definition hex_line :: "nat \<Rightarrow> u8 list \<Rightarrow> bool \<Rightarrow> string" where
  "hex_line ofs bs ascii =
    (let start = ofs mod 16; stop = start + length bs in
     hex 8 (ROUND_DOWN ofs 16) @ ''  '' @ spaces (3 * start) @
     concat (map (\<lambda>i. hex 2 (unat (bs ! (i - start))) @ [if i = 7 then CHR ''-'' else CHR '' ''])
       [start..<stop]) @
     (if ascii then spaces (3 * (16 - stop)) @ ''|'' @ spaces start @
        map (\<lambda>b. if isprint b then byte_char b else CHR ''.'') bs @ spaces (16 - stop) @ ''|''
      else []))"

function hex_dump :: "nat \<Rightarrow> u8 list \<Rightarrow> bool \<Rightarrow> string list" where
  "hex_dump ofs buf ascii =
    (if buf = [] then []
     else let n = min (16 - ofs mod 16) (length buf)
          in hex_line ofs (take n buf) ascii # hex_dump (ofs + n) (drop n buf) ascii)"
  by pat_completeness auto
termination
  by (relation "measure (\<lambda>(ofs, buf, ascii). length buf)") auto

declare hex_dump.simps [simp del]

section \<open>Commands\<close>

text \<open>The loop of \<open>fsutil_ls\<close>; \<open>n\<close> bounds the number of entries.\<close>

fun ls_loop :: "nat \<Rightarrow> nat \<Rightarrow> fs_state \<Rightarrow> fs_state option" where
  "ls_loop 0 a s = None"
| "ls_loop (Suc n) a s = do {
     (r, s) \<leftarrow> dir_readdir a s;
     case r of
       None \<Rightarrow> Some s
     | Some bs \<Rightarrow> do { name \<leftarrow> c_string bs; ls_loop n a (say (Out name) s) } }"

definition dir_fuel :: "nat \<Rightarrow> fs_state \<Rightarrow> nat" where
  "dir_fuel a s = (case dirs s a of None \<Rightarrow> 0 | Some d \<Rightarrow> entry_fuel (dir_inode d) s)"

definition fsutil_ls :: "fs_state \<Rightarrow> (int \<times> fs_state) option" where
  "fsutil_ls s = do {
     (q, s) \<leftarrow> dir_open_root (say (Out ''Files in the root directory:'') s);
     case q of
       None \<Rightarrow> Some (1, s)
     | Some a \<Rightarrow> do {
         s \<leftarrow> ls_loop (dir_fuel a s) a s;
         s \<leftarrow> dir_close q s;
         Some (0, say (Out ''End of listing.'') s) } }"

text \<open>
  The prologue of the functions below: a file that is not in the table is opened and added.
\<close>

definition file_by_name :: "string \<Rightarrow> fs_state \<Rightarrow> (nat option \<times> fs_state) option" where
  "file_by_name file_name s =
    (case get_file_by_fname file_name s of
       Some a \<Rightarrow> Some (Some a, s)
     | None \<Rightarrow> do {
         (q, s) \<leftarrow> filesys_open file_name s;
         case q of
           None \<Rightarrow> Some (None, s)
         | Some a \<Rightarrow> Some (Some a, add_to_file_table a file_name s) })"

text \<open>The loop of \<open>fsutil_cat\<close>, which ends with the first empty read.\<close>

fun cat_loop :: "nat \<Rightarrow> nat \<Rightarrow> int \<Rightarrow> fs_state \<Rightarrow> fs_state option" where
  "cat_loop 0 a sz s = None"
| "cat_loop (Suc n) a sz s = do {
     pos \<leftarrow> file_tell a s;
     (bs, s) \<leftarrow> file_read a sz s;
     if bs = [] then Some s
     else cat_loop n a sz (s\<lparr>console := console s @ map Out (hex_dump (nat pos) bs True)\<rparr>) }"

definition fsutil_cat :: "string \<Rightarrow> fs_state \<Rightarrow> (int \<times> fs_state) option" where
  "fsutil_cat file_name s = do {
     let s = say (Out (''Printing <'' @ file_name @ ''> to the console...'')) s;
     let opened = (get_file_by_fname file_name s = None);
     (q, s) \<leftarrow> file_by_name file_name s;
     case q of
       None \<Rightarrow> Some (- 1, say (Out ''Error'') s)
     | Some a \<Rightarrow> do {
         cur_offset \<leftarrow> file_tell a s;
         s \<leftarrow> file_seek a 0 s;
         file_size \<leftarrow> file_length a s;
         s \<leftarrow> cat_loop (Suc (Suc (nat file_size))) a file_size s;
         s \<leftarrow> file_seek a cur_offset s;
         s \<leftarrow> (if opened then do { (ok, s) \<leftarrow> remove_from_file_table file_name s; Some s } else Some s);
         Some (0, say (Out ''Done printing'') s) } }"

definition fsutil_rm :: "string \<Rightarrow> fs_state \<Rightarrow> (bool \<times> fs_state) option" where
  "fsutil_rm file_name s = do {
     (ok, s) \<leftarrow> remove_from_file_table file_name s;
     filesys_remove file_name s }"

definition fsutil_create :: "string \<Rightarrow> int \<Rightarrow> fs_state \<Rightarrow> (bool \<times> fs_state) option" where
  "fsutil_create fname isize s =
    (if length fname = 0 \<or> 255 \<le> length fname then
       Some (False, say (Out (''Error with filename: '' @ show_nat (length fname))) s)
     else filesys_create fname isize False s)"

text \<open>The result of \<open>fsutil_write\<close> comes with the caller's buffer, which \<open>file_write\<close> changes.\<close>

definition fsutil_write :: "string \<Rightarrow> u8 list \<Rightarrow> int \<Rightarrow> fs_state \<Rightarrow> ((int \<times> u8 list) \<times> fs_state) option" where
  "fsutil_write file_name buf sz s = do {
     (q, s) \<leftarrow> file_by_name file_name s;
     case q of None \<Rightarrow> Some ((- 1, buf), s) | Some a \<Rightarrow> file_write a buf sz s }"

text \<open>\<open>fsutil_read\<close> returns -1 (here \<open>None\<close>) or the number of bytes stored in the buffer.\<close>

definition fsutil_read :: "string \<Rightarrow> int \<Rightarrow> fs_state \<Rightarrow> (u8 list option \<times> fs_state) option" where
  "fsutil_read file_name sz s = do {
     (q, s) \<leftarrow> file_by_name file_name s;
     case q of
       None \<Rightarrow> Some (None, s)
     | Some a \<Rightarrow> do { (bs, s) \<leftarrow> file_read a sz s; Some (Some bs, s) } }"

definition fsutil_size :: "string \<Rightarrow> fs_state \<Rightarrow> (int \<times> fs_state) option" where
  "fsutil_size file_name s = do {
     (q, s) \<leftarrow> file_by_name file_name s;
     case q of
       None \<Rightarrow> Some (- 1, s)
     | Some a \<Rightarrow> do {
         cur_offset \<leftarrow> file_tell a s;
         len \<leftarrow> file_length a s;
         s \<leftarrow> file_seek a cur_offset s;
         Some (len, s) } }"

definition fsutil_seek :: "string \<Rightarrow> int \<Rightarrow> fs_state \<Rightarrow> (int \<times> fs_state) option" where
  "fsutil_seek file_name offset s = do {
     (q, s) \<leftarrow> file_by_name file_name s;
     case q of
       None \<Rightarrow> Some (- 1, s)
     | Some a \<Rightarrow> do { s \<leftarrow> file_seek a offset s; Some (0, s) } }"

definition fsutil_close :: "string \<Rightarrow> fs_state \<Rightarrow> fs_state option" where
  "fsutil_close file_name s = map_option snd (remove_from_file_table file_name s)"

definition fsutil_freespace :: "fs_state \<Rightarrow> nat option" where
  "fsutil_freespace s = num_free_sectors s"

section \<open>Listing a directory\<close>

text \<open>Reading the next entry.\<close>

lemma next_entry_ok:
  assumes "dir_ok a d i s" and "dir_pos d = int (ENTRY_SIZE * k)"
    and "k \<le> length (entries_of (bytes_of i s))"
  shows "\<exists>t. next_entry a s =
    (case find_from in_use (entries_of (bytes_of i s)) k of
       None \<Rightarrow> Some (None, t\<lparr>dirs := (dirs s)(a \<mapsto> d\<lparr>dir_pos := int (ENTRY_SIZE * length (entries_of (bytes_of i s)))\<rparr>)\<rparr>)
     | Some j \<Rightarrow> Some (Some (entries_of (bytes_of i s) ! j),
         t\<lparr>dirs := (dirs s)(a \<mapsto> d\<lparr>dir_pos := int (ENTRY_SIZE * Suc j)\<rparr>)\<rparr>)) \<and> same_sectors s t"
proof -
  let ?bs = "bytes_of i s"
  note o = assms(1) [unfolded dir_ok_def]
  have "length ?bs div ENTRY_SIZE < entry_fuel (dir_inode d) s + k"
    using o div_le_dividend [of "length ?bs" ENTRY_SIZE] by (simp add: entry_fuel_def open_ok_def)
  then obtain t where t: "scan_entries (entry_fuel (dir_inode d) s) (\<lambda>e. Some (in_use e)) (dir_inode d) (int (ENTRY_SIZE * k)) s =
      Some (case find_from in_use (entries_of ?bs) k of
          Some j \<Rightarrow> (Some (entries_of ?bs ! j), int (ENTRY_SIZE * j))
        | None \<Rightarrow> (None, int (ENTRY_SIZE * (length ?bs div ENTRY_SIZE))), t)" "same_sectors s t"
    using scan_entries_ok [of "dir_inode d" i s "entry_fuel (dir_inode d) s" k "\<lambda>e. Some (in_use e)" in_use]
      o assms(3) by auto
  have "dirs t = dirs s" by (rule more_fields(8) [OF same_sectorsD(4) [OF t(2)]])
  then show ?thesis
    using o t assms(2) by (intro exI [where x = t])
      (auto simp: next_entry_def algebra_simps split: option.split)
qed

definition listing :: "dir_entry list \<Rightarrow> nat \<Rightarrow> string list" where
  "listing es k = map (\<lambda>e. bytes_name (entry_name e)) (filter in_use (drop k es))"

lemma listing_find:
  "listing es k = (case find_from in_use es k of None \<Rightarrow> []
     | Some j \<Rightarrow> bytes_name (entry_name (es ! j)) # listing es (Suc j))"
proof (induction "length es - k" arbitrary: k)
  case 0
  then show ?case by (simp add: listing_def find_from_def)
next
  case (Suc n)
  then have k: "k < length es" "n = length es - Suc k" by simp_all
  have d: "drop k es = es ! k # drop (Suc k) es" using k(1) by (rule Cons_nth_drop_Suc [symmetric])
  show ?case
  proof (cases "in_use (es ! k)")
    case True
    then show ?thesis using k(1) by (subst find_from_step) (simp add: listing_def d)
  next
    case False
    then have "listing es k = listing es (Suc k)" "find_from in_use es k = find_from in_use es (Suc k)"
      using k(1) find_from_step [of in_use es k] by (simp_all add: listing_def d)
    with Suc.hyps(1) [OF k(2)] show ?thesis by simp
  qed
qed

lemma ls_loop_ok:
  assumes "dir_ok a d i s" and "dir_pos d = int (ENTRY_SIZE * k)" and "1 \<le> k"
    and "k \<le> length (entries_of (bytes_of i s))" and "length (entries_of (bytes_of i s)) < n + k"
  shows "\<exists>t. ls_loop n a s = Some t \<and>
    same_sectors (s\<lparr>dirs := (dirs s)(a \<mapsto> d\<lparr>dir_pos := int (ENTRY_SIZE * length (entries_of (bytes_of i s)))\<rparr>),
      console := console s @ map Out (listing (entries_of (bytes_of i s)) k)\<rparr>) t"
  using assms
proof (induction n arbitrary: d k s)
  case (Suc n)
  let ?es = "entries_of (bytes_of i s)"
  obtain t where t: "next_entry a s =
    (case find_from in_use ?es k of
       None \<Rightarrow> Some (None, t\<lparr>dirs := (dirs s)(a \<mapsto> d\<lparr>dir_pos := int (ENTRY_SIZE * length ?es)\<rparr>)\<rparr>)
     | Some j \<Rightarrow> Some (Some (?es ! j), t\<lparr>dirs := (dirs s)(a \<mapsto> d\<lparr>dir_pos := int (ENTRY_SIZE * Suc j)\<rparr>)\<rparr>))"
    "same_sectors s t"
    using next_entry_ok [OF Suc.prems(1,2,4)] by blast
  have c: "console t = console s" by (rule more_fields(11) [OF same_sectorsD(4) [OF t(2)]])
  define pos where "pos = int (ENTRY_SIZE * length ?es)"
  show ?case
  proof (cases "find_from in_use ?es k")
    case None
    define h where "h = (dirs s)(a \<mapsto> d\<lparr>dir_pos := pos\<rparr>)"
    have "s\<lparr>dirs := h, console := console s @ map Out (listing ?es k)\<rparr> = s\<lparr>dirs := h\<rparr>"
      using None listing_find [of ?es k] by simp
    then have "same_sectors (s\<lparr>dirs := h, console := console s @ map Out (listing ?es k)\<rparr>) (t\<lparr>dirs := h\<rparr>)"
      using same_sectors_fields(1) [OF t(2), of h] by (simp only:)
    moreover have "ls_loop (Suc n) a s = Some (t\<lparr>dirs := h\<rparr>)"
      using None t(1) by (simp add: dir_readdir_def h_def pos_def)
    ultimately show ?thesis unfolding h_def pos_def by blast
  next
    case (Some j)
    then have j: "k \<le> j" "j < length ?es" "in_use (?es ! j)" by (auto simp: find_from_Some)
    let ?d = "d\<lparr>dir_pos := int (ENTRY_SIZE * Suc j)\<rparr>" and ?nm = "bytes_name (entry_name (?es ! j))"
    let ?u = "say (Out ?nm) (t\<lparr>dirs := (dirs s)(a \<mapsto> ?d)\<rparr>)"
    have "0 \<in> set (entry_name (?es ! j))"
      using Suc.prems(1,3) j by (auto simp: dir_ok_def entries_ok_def simp del: nth_entries_of)
    then have step: "ls_loop (Suc n) a s = ls_loop n a ?u"
      using Some t(1) by (simp add: dir_readdir_def c_string_def)
    have dt: "dir_ok a d i t" by (rule dir_ok_same [OF Suc.prems(1) t(2)])
    have b: "bytes_of i ?u = bytes_of i s"
      using open_ok_same(2) [OF _ t(2)] Suc.prems(1) by (auto simp: dir_ok_def say_def)
    have "dir_ok a ?d i ?u" using dt by (simp add: dir_ok_def open_ok_def say_def)
    moreover have "dir_pos ?d = int (ENTRY_SIZE * Suc j)" "1 \<le> Suc j" "Suc j \<le> length ?es" "length ?es < n + Suc j"
      using j Suc.prems(5) by simp_all
    ultimately obtain v where v: "ls_loop n a ?u = Some v" "same_sectors (?u\<lparr>dirs := (dirs ?u)(a \<mapsto> ?d\<lparr>dir_pos := pos\<rparr>),
        console := console ?u @ map Out (listing ?es (Suc j))\<rparr>) v"
      using Suc.IH [of ?d ?u "Suc j"] unfolding b pos_def by blast
    have "console ?u @ map Out (listing ?es (Suc j)) = console s @ map Out (listing ?es k)"
      using Some listing_find [of ?es k] c by (simp add: say_def)
    then have "?u\<lparr>dirs := (dirs ?u)(a \<mapsto> ?d\<lparr>dir_pos := pos\<rparr>), console := console ?u @ map Out (listing ?es (Suc j))\<rparr> =
        t\<lparr>dirs := (dirs s)(a \<mapsto> d\<lparr>dir_pos := pos\<rparr>), console := console s @ map Out (listing ?es k)\<rparr>"
      by (simp add: say_def)
    with v same_sectors_trans [OF same_sectors_fields(2) [OF same_sectors_fields(1) [OF t(2)]]] step
    show ?thesis unfolding pos_def by metis
  qed
qed simp

text \<open>
  C23: \<open>fsutil_ls\<close> ends, and prints the names of the root directory that are in use, in the
  order of their entries; it leaves the files, the directory and the open objects as they were.
\<close>

theorem fsutil_ls_lists:
  assumes "at_rest i s"
  shows "\<exists>t. fsutil_ls s = Some (0, t) \<and> same_sectors (s\<lparr>next_addr := next_addr s + 2,
    console := console s @ [Out ''Files in the root directory:''] @
      map Out (listing (entries_of (bytes_of i s)) 1) @ [Out ''End of listing.'']\<rparr>) t"
proof -
  let ?s = "say (Out ''Files in the root directory:'') s" and ?a = "Suc (next_addr s)"
  let ?es = "entries_of (bytes_of i s)" and ?d = "\<lparr>dir_inode = next_addr s, dir_pos = int ENTRY_SIZE, dir_open_cnt = 1\<rparr>"
  have r: "at_rest i ?s" "next_addr ?s = next_addr s" "bytes_of i ?s = bytes_of i s"
    using assms by (simp_all add: at_rest_say) (simp_all add: say_def)
  obtain u where u: "dir_open_root ?s = Some (Some ?a, with_root i ?s u)" "same_sectors ?s u"
      "dir_ok ?a ?d i (with_root i ?s u)" "bytes_of i (with_root i ?s u) = bytes_of i s"
    using dir_open_root_ok [OF r(1)] unfolding r(2,3) by metis
  let ?v = "with_root i ?s u"
  define n where "n = dir_fuel ?a ?v"
  have n: "length ?es < n + 1"
    using u(3) div_le_dividend [of "nat (data_length (idata i))" ENTRY_SIZE]
    by (simp add: n_def dir_fuel_def entry_fuel_def dir_ok_def open_ok_def)
  have es: "1 \<le> length ?es" using entries_okD(1) [OF at_restD(13) [OF assms]] by simp
  define pos where "pos = int (ENTRY_SIZE * length ?es)"
  obtain w where w: "ls_loop n ?a ?v = Some w" "same_sectors (?v\<lparr>dirs := (dirs ?v)(?a \<mapsto> ?d\<lparr>dir_pos := pos\<rparr>),
      console := console ?v @ map Out (listing ?es 1)\<rparr>) w"
    using ls_loop_ok [OF u(3), of 1 n] n es unfolding u(4) pos_def by auto
  let ?w = "w\<lparr>inodes := inodes ?s, open_inodes := open_inodes ?s, dirs := dirs ?s, cwd := None\<rparr>"
  note mu = more_fields [OF same_sectorsD(4) [OF u(2)]] and mw = more_fields [OF same_sectorsD(4) [OF w(2)]]
  have "dir_close (Some (Suc (next_addr ?s))) w = Some ?w"
    using mw by (intro dir_close_root [OF r(1)]) (simp_all add: with_root_def r(2))
  then have "fsutil_ls s = Some (0, say (Out ''End of listing.'') ?w)"
    using u(1) w(1) r(2) by (simp add: fsutil_ls_def n_def)
  moreover have "same_sectors (s\<lparr>next_addr := next_addr s + 2, console := console s @ [Out ''Files in the root directory:''] @
      map Out (listing ?es 1) @ [Out ''End of listing.'']\<rparr>) (say (Out ''End of listing.'') ?w)"
  proof -
    have "cache_state.more (say (Out ''End of listing.'') ?w) = cache_state.more (s\<lparr>next_addr := next_addr s + 2,
        console := console s @ [Out ''Files in the root directory:''] @ map Out (listing ?es 1) @ [Out ''End of listing.'']\<rparr>)"
      using mu mw at_restD(1) [OF assms] by (intro more_eqI) (simp_all add: with_root_def say_def)
    then show ?thesis
      using w(2) u(2) by (simp add: same_sectors_def with_root_def) (simp add: say_def)
  qed
  ultimately show ?thesis by blast
qed

theorem fsutil_ls_lists_witness:
  "\<exists>t. fsutil_ls demo_rest = Some (0, t) \<and> console t =
     [Out ''Files in the root directory:'', Out ''sub'', Out ''End of listing.'']"
proof -
  have n: "bytes_name (name_bytes 31 ''sub'') = ''sub''" by (rule name_bytes_ok) auto
  have "listing demo_entries 1 = [''sub'']" by (simp add: listing_def demo_entries_def demo_entry_def n)
  moreover have "console demo_rest = []" by (simp add: demo_rest_def demo_dir_def cache_state.defs fs_state.defs)
  ultimately show ?thesis
    using fsutil_ls_lists [OF demo_at_rest(1)] more_fields(11) [OF same_sectorsD(4)]
    unfolding demo_at_rest(2) by fastforce
qed

section \<open>Dumping a file\<close>

lemma file_read_same:
  assumes "file_ok a f i s" and "bs = take (nat n) (drop (nat (file_pos f)) (bytes_of i s))"
  shows "\<exists>t. file_read a n s = Some (bs, t\<lparr>files := (files s)(a \<mapsto> f\<lparr>file_pos := file_pos f + int (length bs)\<rparr>)\<rparr>) \<and>
    same_sectors s t"
proof -
  note a = assms(1) [unfolded file_ok_def]
  obtain t where t: "inode_read_at (file_inode f) n (file_pos f) s = Some (bs, t)" "same_sectors s t"
    using inode_read_at_ok [of s "file_inode f" i "file_pos f" n] a assms(2) by blast
  then show ?thesis using a more_fields(3) [OF same_sectorsD(4) [OF t(2)]] by (auto simp: file_read_def)
qed

lemma cat_loop_ok:
  assumes "file_ok a f i s" and "file_pos f = 0" and "len = data_length (idata i)"
  shows "\<exists>t. cat_loop (Suc (Suc n)) a len s = Some t \<and>
    same_sectors (s\<lparr>files := (files s)(a \<mapsto> f\<lparr>file_pos := len\<rparr>),
      console := console s @ map Out (hex_dump 0 (bytes_of i s) True)\<rparr>) t"
proof -
  let ?bs = "bytes_of i s" and ?f = "f\<lparr>file_pos := len\<rparr>"
  define h where "h = (files s)(a \<mapsto> ?f)"
  have len: "length ?bs = nat len" "0 \<le> len" using assms by (simp_all add: file_ok_def inode_wf_def)
  obtain u where u: "file_read a len s = Some (?bs, u\<lparr>files := h\<rparr>)" "same_sectors s u"
    using file_read_same [OF assms(1), of ?bs len] assms(2,3) len by (auto simp: h_def)
  have tell: "file_tell a s = Some 0" using assms(1,2) by (simp add: file_ok_def file_tell_def)
  have c: "console u = console s" by (rule more_fields(11) [OF same_sectorsD(4) [OF u(2)]])
  note su = same_sectors_fields(2) [OF same_sectors_fields(6) [OF u(2)]]
  show ?thesis
  proof (cases "?bs = []")
    case True
    then have "cat_loop (Suc (Suc n)) a len s = Some (u\<lparr>files := h\<rparr>)" using u(1) tell by simp
    moreover have "s\<lparr>files := h, console := console s @ map Out (hex_dump 0 ?bs True)\<rparr> = s\<lparr>files := h\<rparr>"
      using True by (simp add: hex_dump.simps)
    ultimately show ?thesis using same_sectors_fields(6) [OF u(2), of h] by (simp add: h_def)
  next
    case False
    let ?v = "u\<lparr>files := h, console := console s @ map Out (hex_dump 0 ?bs True)\<rparr>"
    have fu: "inode_wf (cache_valid u) (cache_content u) (idata i)" "bytes_of i u = ?bs" "cache_inv u"
      using same_sectors_file [OF u(2), of "idata i"] same_sectorsD(1) [OF u(2)] assms(1) by (simp_all add: file_ok_def)
    have v: "file_ok a ?f i ?v" "bytes_of i ?v = ?bs"
      using fu assms(1) len(2) more_fields(1) [OF same_sectorsD(4) [OF u(2)]] by (simp_all add: file_ok_def h_def)
    obtain w where w: "file_read a len ?v = Some ([], w\<lparr>files := h\<rparr>)" "same_sectors ?v w"
      using file_read_same [OF v(1), of "[]" len] len v(2) by (auto simp: h_def)
    have "file_tell a ?v = Some len" by (simp add: file_tell_def h_def)
    then have "cat_loop (Suc (Suc n)) a len s = Some (w\<lparr>files := h\<rparr>)"
      using False u(1) c tell w(1) by simp
    moreover have "same_sectors (s\<lparr>files := h, console := console s @ map Out (hex_dump 0 ?bs True)\<rparr>) (w\<lparr>files := h\<rparr>)"
    proof -
      have "files w = h" using more_fields(3) [OF same_sectorsD(4) [OF w(2)]] by simp
      then have "w\<lparr>files := h\<rparr> = w" by simp
      then have "same_sectors ?v (w\<lparr>files := h\<rparr>)" using w(2) by (simp only:)
      with su show ?thesis by (rule same_sectors_trans)
    qed
    ultimately show ?thesis unfolding h_def by blast
  qed
qed

text \<open>
  On an open file, \<open>fsutil_cat\<close> ends, prints a dump of exactly the bytes of the file, from
  the first to the last wherever the position is, and changes neither the
  position nor anything else.
\<close>

theorem fsutil_cat_dumps:
  assumes "get_file_by_fname name s = Some a" and "file_ok a f i s"
  shows "\<exists>t. fsutil_cat name s = Some (0, t) \<and> same_sectors (s\<lparr>console := console s @
    [Out (''Printing <'' @ name @ ''> to the console...'')] @
    map Out (hex_dump 0 (bytes_of i s) True) @ [Out ''Done printing'']\<rparr>) t"
proof -
  let ?s = "say (Out (''Printing <'' @ name @ ''> to the console...'')) s" and ?len = "data_length (idata i)"
  let ?v = "?s\<lparr>files := (files s)(a \<mapsto> f\<lparr>file_pos := 0\<rparr>)\<rparr>"
  note f = assms(2) [unfolded file_ok_def]
  have v: "file_ok a (f\<lparr>file_pos := 0\<rparr>) i ?v" "bytes_of i ?v = bytes_of i s"
    using f by (simp_all add: file_ok_def say_def)
  obtain w where w: "cat_loop (Suc (Suc (nat ?len))) a ?len ?v = Some w"
      "same_sectors (?v\<lparr>files := (files ?v)(a \<mapsto> f\<lparr>file_pos := ?len\<rparr>),
         console := console ?v @ map Out (hex_dump 0 (bytes_of i s) True)\<rparr>) w"
    using cat_loop_ok [OF v(1) _ refl] unfolding v(2) by auto
  note m = more_fields [OF same_sectorsD(4) [OF w(2)]]
  have fw: "files w a = Some (f\<lparr>file_pos := ?len\<rparr>)" "(files w)(a \<mapsto> f) = files s"
    using m(3) f by (auto simp: fun_eq_iff)
  have "fsutil_cat name s = Some (0, say (Out ''Done printing'') (w\<lparr>files := files s\<rparr>))"
    using assms(1) f w(1) fw
    by (simp add: fsutil_cat_def file_by_name_def file_tell_def file_seek_def file_length_def inode_length_def
        get_file_by_fname_def say_def Let_def del: cat_loop.simps)
  moreover have "same_sectors (s\<lparr>console := console s @ [Out (''Printing <'' @ name @ ''> to the console...'')] @
      map Out (hex_dump 0 (bytes_of i s) True) @ [Out ''Done printing'']\<rparr>) (say (Out ''Done printing'') (w\<lparr>files := files s\<rparr>))"
  proof -
    have "cache_state.more (say (Out ''Done printing'') (w\<lparr>files := files s\<rparr>)) = cache_state.more (s\<lparr>console := console s @
        [Out (''Printing <'' @ name @ ''> to the console...'')] @ map Out (hex_dump 0 (bytes_of i s) True) @ [Out ''Done printing'']\<rparr>)"
      using m by (intro more_eqI) (simp_all add: say_def)
    then show ?thesis using w(2) by (simp add: same_sectors_def) (simp add: say_def)
  qed
  ultimately show ?thesis by blast
qed

theorem fsutil_cat_dumps_witness:
  "\<exists>t. fsutil_cat ''a'' demo_files = Some (0, t) \<and> length (console t) = 2 + length (hex_dump 0 (replicate 600 7) True)"
proof -
  have "get_file_by_fname ''a'' demo_files = Some 6" "console demo_files = []"
    by (simp_all add: demo_files_def get_file_by_fname_def demo_open_def demo_alloc_def cache_state.defs fs_state.defs)
  with fsutil_cat_dumps [OF _ demo_files_ok(1), of "''a''"] more_fields(11) [OF same_sectorsD(4)]
  show ?thesis by (fastforce simp: demo_files_ok(2))
qed

end
