(* ===== verification/Fs_Util2.thy ===== *)
theory Fs_Util2
  imports Fs_Util
begin

text \<open>
  The commands of \<open>fs/fsutil2.c\<close>: copying files from and to the host, searching in
  files, measuring and removing fragmentation, and recovering data. The list of files that
  \<open>defragment\<close> keeps is a HOL list.
\<close>

text \<open>The host, and the text \<open>printf\<close> makes of the quotient of two numbers as \<open>float\<close>.\<close>

record fs_host = host +
  float_ratio :: "int \<Rightarrow> int \<Rightarrow> string"

fun strstr :: "string \<Rightarrow> string \<Rightarrow> bool" where
  "strstr [] needle = (needle = [])"
| "strstr (c # cs) needle = (take (length needle) (c # cs) = needle \<or> strstr cs needle)"

section \<open>How much of a file fits\<close>

definition total_indirect :: int where
  "total_indirect = int (DIRECT_BLOCKS_COUNT + INDIRECT_BLOCKS_PER_SECTOR + 2)"

definition total_double_indirect :: int where
  "total_double_indirect = total_indirect + 1 +
     int (INDIRECT_BLOCKS_PER_SECTOR + INDIRECT_BLOCKS_PER_SECTOR * INDIRECT_BLOCKS_PER_SECTOR)"

definition copyable_size :: "int \<Rightarrow> int \<Rightarrow> int" where
  "copyable_size sz free_sectors =
    (let sectors_needed = int (bytes_to_sectors sz);
         fits = (\<lambda>n. if sectors_needed \<le> n then sz else int BLOCK_SECTOR_SIZE * n - 1)
     in if free_sectors \<le> int DIRECT_BLOCKS_COUNT + 1 then fits (free_sectors - 1)
        else if free_sectors \<le> int (DIRECT_BLOCKS_COUNT + INDIRECT_BLOCKS_PER_SECTOR) + 2 then fits (free_sectors - 2)
        else if total_double_indirect \<le> free_sectors then fits (total_double_indirect - 131)
        else let metadata_blocks = 3 + int (DIV_ROUND_UP (nat (free_sectors - (total_indirect + 1))) 129)
             in fits (free_sectors - metadata_blocks))"

definition copyable_size_of_file :: "int \<Rightarrow> fs_state \<Rightarrow> int option" where
  "copyable_size_of_file sz s = map_option (\<lambda>n. copyable_size sz (int n)) (num_free_sectors s)"

section \<open>Copying\<close>

definition copy_in :: "fs_host \<Rightarrow> string \<Rightarrow> fs_state \<Rightarrow> (int \<times> fs_state) option" where
  "copy_in h fname s =
    (case open_read h (console s) fname of
       None \<Rightarrow> Some (1, s)
     | Some content \<Rightarrow> do {
         let sz = int (length content);
         guard_opt (sz < 2 ^ 31 - 1);
         copy_size \<leftarrow> copyable_size_of_file (if sz mod int BLOCK_SECTOR_SIZE = 0 then sz + 1 else sz) s;
         if copy_size \<le> 0 then Some (2, s)
         else do {
           (ok, s) \<leftarrow> fsutil_create fname copy_size s;
           let buf = take (nat copy_size) (map char_byte content @ replicate (nat copy_size) 0) @ [0];
           (n, s) \<leftarrow> fsutil_write fname buf (copy_size + 1) s;
           let s = (if sz \<noteq> copy_size then
               say (Out (''Warning: could only write '' @ show_int copy_size @ '' out of '' @ show_int sz @
                 '' bytes (reached end of file'')) s
             else s);
           a \<leftarrow> get_file_by_fname fname s;
           s \<leftarrow> file_seek a 0 s;
           Some (0, s) } })"

text \<open>
  The buffer of \<open>copy_out\<close>, \<open>find_file\<close> and \<open>defragment\<close>: what was read, and null bytes up to
  its length of \<open>size + 1\<close>.
\<close>

definition zero_padded :: "int \<Rightarrow> u8 list \<Rightarrow> u8 list" where
  "zero_padded sz bs = bs @ replicate (nat (sz + 1) - length bs) 0"

definition copy_out :: "fs_host \<Rightarrow> string \<Rightarrow> fs_state \<Rightarrow> (int \<times> fs_state) option" where
  "copy_out h fname s = do {
     (sz, s) \<leftarrow> fsutil_size fname s;
     if sz = - 1 then Some (1, s)
     else do {
       a \<leftarrow> get_file_by_fname fname s;
       offset \<leftarrow> file_tell a s;
       s \<leftarrow> file_seek a 0 s;
       guard_opt (0 \<le> sz);
       (r, s) \<leftarrow> fsutil_read fname sz s;
       let buf = zero_padded sz (case r of None \<Rightarrow> [] | Some bs \<Rightarrow> bs);
       if \<not> create_ok h (console s) fname then
         Some (12, say (Raw ''file does not exist'') s)
       else do {
         let s = say (Put_file fname (bytes_name buf)) s;
         s \<leftarrow> file_seek a offset s;
         Some (0, s) } } }"

section \<open>Searching\<close>

text \<open>
  The loops over the names of a directory; \<open>n\<close> bounds the number of entries. Those
  of \<open>find_file\<close> and \<open>fragmentation_degree\<close> end, and the functions return, when a file
  cannot be opened; then the directory is not closed, and the result says so.
\<close>

fun find_loop :: "nat \<Rightarrow> string \<Rightarrow> nat \<Rightarrow> fs_state \<Rightarrow> (bool \<times> fs_state) option" where
  "find_loop 0 pattern d s = None"
| "find_loop (Suc n) pattern d s = do {
     (r, s) \<leftarrow> dir_readdir d s;
     case r of
       None \<Rightarrow> Some (True, s)
     | Some nm \<Rightarrow> do {
         name \<leftarrow> c_string nm;
         (sz, s) \<leftarrow> fsutil_size name s;
         if sz = - 1 then Some (False, s)
         else do {
           a \<leftarrow> get_file_by_fname name s;
           offset \<leftarrow> file_tell a s;
           s \<leftarrow> file_seek a 0 s;
           guard_opt (0 \<le> sz);
           (r, s) \<leftarrow> fsutil_read name sz s;
           let buf = zero_padded sz (case r of None \<Rightarrow> [] | Some bs \<Rightarrow> bs);
           let s = (if strstr (bytes_name buf) pattern then say (Out name) s else s);
           s \<leftarrow> file_seek a offset s;
           find_loop n pattern d s } } }"

definition find_file :: "string \<Rightarrow> fs_state \<Rightarrow> fs_state option" where
  "find_file pattern s = do {
     (q, s) \<leftarrow> dir_open_root s;
     case q of
       None \<Rightarrow> Some s
     | Some d \<Rightarrow> do {
         (finished, s) \<leftarrow> find_loop (dir_fuel d s) pattern d s;
         if finished then dir_close q s else Some s } }"

section \<open>Fragmentation\<close>

text \<open>The difference of two sector numbers is unsigned.\<close>

fun jumps :: "u32 \<Rightarrow> u32 list \<Rightarrow> bool" where
  "jumps previous [] = False"
| "jumps previous (x # xs) = (if x - previous > 3 then True else jumps x xs)"

fun fragmentation_loop :: "nat \<Rightarrow> nat \<Rightarrow> int \<Rightarrow> int \<Rightarrow> fs_state \<Rightarrow> ((int \<times> int) option \<times> fs_state) option" where
  "fragmentation_loop 0 d fragmentable fragmented s = None"
| "fragmentation_loop (Suc n) d fragmentable fragmented s = do {
     (r, s) \<leftarrow> dir_readdir d s;
     case r of
       None \<Rightarrow> Some (Some (fragmentable, fragmented), s)
     | Some nm \<Rightarrow> do {
         name \<leftarrow> c_string nm;
         (sz, s) \<leftarrow> fsutil_size name s;
         if sz = - 1 then Some (None, s)
         else do {
           a \<leftarrow> get_file_by_fname name s;
           offset \<leftarrow> file_tell a s;
           s \<leftarrow> file_seek a 0 s;
           p \<leftarrow> file_get_inode a s;
           i \<leftarrow> inodes s p;
           (all_sectors, s) \<leftarrow> get_inode_data_sectors (idata i) s;
           sectors \<leftarrow> all_sectors;
           (file_size, s) \<leftarrow> fsutil_size name s;
           let inode_number = bytes_to_sectors file_size;
           guard_opt (sectors \<noteq> [] \<and> inode_number \<le> length sectors);
           let fragmented = (if jumps (hd sectors) (take (inode_number - 1) (tl sectors)) then fragmented + 1 else fragmented);
           let fragmentable = (if inode_number > 1 then fragmentable + 1 else fragmentable);
           s \<leftarrow> file_seek a offset s;
           fragmentation_loop n d fragmentable fragmented s } } }"

definition fragmentation_degree :: "fs_host \<Rightarrow> fs_state \<Rightarrow> fs_state option" where
  "fragmentation_degree h s = do {
     (q, s) \<leftarrow> dir_open_root s;
     case q of
       None \<Rightarrow> Some s
     | Some d \<Rightarrow> do {
         (r, s) \<leftarrow> fragmentation_loop (dir_fuel d s) d 0 0 s;
         case r of
           None \<Rightarrow> Some s
         | Some (fragmentable, fragmented) \<Rightarrow>
             dir_close q
               (say (Out (''Fragmentation pct: '' @ float_ratio h fragmented fragmentable))
               (say (Out (''Num fragmented files: '' @ show_int fragmented))
               (say (Out (''Num fragmentable files: '' @ show_int fragmentable)) s))) } }"

record file_elem =
  elem_fname :: string
  elem_contents :: "u8 list"
  elem_size :: int

text \<open>The three loops of \<open>defragment\<close>.\<close>

fun collect_files ::
  "nat \<Rightarrow> nat \<Rightarrow> file_elem list \<Rightarrow> fs_state \<Rightarrow> ((int \<times> file_elem list) \<times> fs_state) option" where
  "collect_files 0 d fs s = None"
| "collect_files (Suc n) d fs s = do {
     (r, s) \<leftarrow> dir_readdir d s;
     case r of
       None \<Rightarrow> Some ((0, fs), s)
     | Some nm \<Rightarrow> do {
         name \<leftarrow> c_string nm;
         (sz, s) \<leftarrow> fsutil_size name s;
         if sz = - 1 then Some ((1, fs), s)
         else do {
           a \<leftarrow> get_file_by_fname name s;
           offset \<leftarrow> file_tell a s;
           s \<leftarrow> file_seek a 0 s;
           guard_opt (0 \<le> sz);
           (r, s) \<leftarrow> fsutil_read name sz s;
           case r of
             None \<Rightarrow> Some ((13, fs), s)
           | Some bs \<Rightarrow> do {
               let f = \<lparr>elem_fname = name, elem_contents = zero_padded sz bs, elem_size = sz\<rparr>;
               s \<leftarrow> file_seek a offset s;
               collect_files n d (fs @ [f]) s } } } }"

fun remove_files :: "file_elem list \<Rightarrow> fs_state \<Rightarrow> fs_state option" where
  "remove_files [] s = Some s"
| "remove_files (f # fs) s = do {
     (ok, s) \<leftarrow> remove_from_file_table (elem_fname f) s;
     (ok, s) \<leftarrow> filesys_remove (elem_fname f) s;
     remove_files fs s }"

fun rewrite_files :: "file_elem list \<Rightarrow> fs_state \<Rightarrow> fs_state option" where
  "rewrite_files [] s = Some s"
| "rewrite_files (f # fs) s = do {
     (ok, s) \<leftarrow> fsutil_create (elem_fname f) (elem_size f) s;
     (n, s) \<leftarrow> fsutil_write (elem_fname f) (elem_contents f) (elem_size f) s;
     (r, s) \<leftarrow> fsutil_seek (elem_fname f) 0 s;
     rewrite_files fs s }"

definition defragment :: "fs_state \<Rightarrow> (int \<times> fs_state) option" where
  "defragment s = do {
     (q, s) \<leftarrow> dir_open_root s;
     case q of
       None \<Rightarrow> Some (11, s)
     | Some d \<Rightarrow> do {
         ((status, fs), s) \<leftarrow> collect_files (dir_fuel d s) d [] s;
         if status \<noteq> 0 then Some (status, s)
         else do {
           s \<leftarrow> dir_close q s;
           s \<leftarrow> remove_files fs s;
           s \<leftarrow> rewrite_files fs s;
           Some (0, s) } } }"

section \<open>Recovery\<close>

text \<open>\<open>recover (0)\<close>: a free sector that looks like the inode of a file gets a name.\<close>

definition recover_sector :: "nat \<Rightarrow> fs_state \<Rightarrow> fs_state option" where
  "recover_sector sector s = do {
     used \<leftarrow> bitmap_test (free_map s) sector;
     if used then Some s
     else do {
       (p, s) \<leftarrow> inode_open (of_nat sector) s;
       len \<leftarrow> inode_length p s;
       i \<leftarrow> inodes s p;
       if 0 < len \<and> magic (idata i) = INODE_MAGIC \<and> is_dir (idata i) = 0 then do {
         (q, s) \<leftarrow> dir_open_root s;
         root \<leftarrow> q;
         (ok, s) \<leftarrow> dir_add root (''recovered0-'' @ show_nat sector) (of_nat sector) False s;
         dir_close q s }
       else Some s } }"

fun recover_inodes :: "nat list \<Rightarrow> fs_state \<Rightarrow> fs_state option" where
  "recover_inodes [] s = Some s"
| "recover_inodes (x # xs) s = do { s \<leftarrow> recover_sector x s; recover_inodes xs s }"

text \<open>\<open>recover (1)\<close>: every sector that is not all zero is copied to the host.\<close>

fun recover_sectors :: "fs_host \<Rightarrow> nat list \<Rightarrow> fs_state \<Rightarrow> fs_state option" where
  "recover_sectors h [] s = Some s"
| "recover_sectors h (i # xs) s = do {
     (buf, s) \<leftarrow> buffer_cache_read (of_nat i) s;
     s \<leftarrow> (if \<forall>b \<in> set buf. b = 0 then Some s
       else do {
         let name = ''recovered1-'' @ show_nat i @ ''.txt'';
         guard_opt (create_ok h (console s) name);
         content \<leftarrow> c_string buf;
         Some (say (Put_file name content) s) });
     recover_sectors h xs s }"

text \<open>\<open>recover (2)\<close>: what stands in the last sector of a file behind its end.\<close>

fun recover_tails :: "fs_host \<Rightarrow> nat \<Rightarrow> nat \<Rightarrow> fs_state \<Rightarrow> fs_state option" where
  "recover_tails h 0 d s = None"
| "recover_tails h (Suc n) d s = do {
     (r, s) \<leftarrow> dir_readdir d s;
     case r of
       None \<Rightarrow> Some s
     | Some nm \<Rightarrow> do {
         name \<leftarrow> c_string nm;
         (sz, s) \<leftarrow> fsutil_size name s;
         guard_opt (- 1 \<le> sz);
         let eof = nat sz mod BLOCK_SECTOR_SIZE;
         if sz = - 1 \<or> eof = 0 then recover_tails h n d s
         else do {
           a \<leftarrow> get_file_by_fname name s;
           p \<leftarrow> file_get_inode a s;
           i \<leftarrow> inodes s p;
           (r, s) \<leftarrow> get_inode_data_sectors (idata i) s;
           sectors \<leftarrow> r;
           guard_opt (bytes_to_sectors sz \<le> length sectors);
           (buf, s) \<leftarrow> buffer_cache_read (sectors ! (bytes_to_sectors sz - 1)) s;
           s \<leftarrow> (case List.find (\<lambda>k. buf ! k \<noteq> 0) [eof..<BLOCK_SECTOR_SIZE] of
                  None \<Rightarrow> Some s
                | Some k \<Rightarrow> do {
                    tail \<leftarrow> c_string (drop k buf);
                    let s = say (Out (''start at '' @ show_nat k @ '': '' @ tail))
                            (say (Out (''entire: '' @ bytes_name buf)) s);
                    let fname = ''recovered2-'' @ name @ ''.txt'';
                    guard_opt (create_ok h (console s) fname);
                    Some (say (Put_file fname tail) s) });
           recover_tails h n d s } } }"

definition recover :: "fs_host \<Rightarrow> int \<Rightarrow> fs_state \<Rightarrow> fs_state option" where
  "recover h flag s =
    (if flag = 0 then recover_inodes [0..<bitmap_size (free_map s)] s
     else if flag = 1 then recover_sectors h [4..<bitmap_size (free_map s)] s
     else if flag = 2 then do {
       (q, s) \<leftarrow> dir_open_root s;
       d \<leftarrow> q;
       s \<leftarrow> recover_tails h (dir_fuel d s) d s;
       dir_close q s }
     else Some s)"

section \<open>What fits on the disk\<close>

text \<open>The index blocks of a file of \<open>n\<close> data sectors, and all sectors it takes, with its inode.\<close>

definition index_blocks :: "nat \<Rightarrow> nat" where
  "index_blocks n = (if n \<le> 123 then 0 else if n \<le> 251 then 1 else 2 + DIV_ROUND_UP (n - 251) 128)"

definition file_sectors :: "nat \<Rightarrow> nat" where
  "file_sectors n = 1 + n + index_blocks n"

lemma DIV_ROUND_UP_bounds:
  assumes "0 < k"
  shows "k * DIV_ROUND_UP n k < n + k" and "n \<le> k * DIV_ROUND_UP n k"
proof -
  have "(n + k - 1) div k * k + (n + k - 1) mod k = n + k - 1" "(n + k - 1) mod k < k"
    using assms by simp_all
  then show "k * DIV_ROUND_UP n k < n + k" "n \<le> k * DIV_ROUND_UP n k"
    using assms unfolding DIV_ROUND_UP_def mult.commute [of k] by linarith+
qed

lemma file_sectors_mono: "m \<le> n \<Longrightarrow> file_sectors m \<le> file_sectors n"
proof -
  assume mn: "m \<le> n"
  have "128 * DIV_ROUND_UP (m - 251) 128 < m - 251 + 128" "n - 251 \<le> 128 * DIV_ROUND_UP (n - 251) 128"
    by (rule DIV_ROUND_UP_bounds; simp)+
  with mn show ?thesis by (auto simp: file_sectors_def index_blocks_def)
qed

text \<open>The number of data sectors for \<open>free\<close> sectors in all.\<close>

definition fitting :: "nat \<Rightarrow> nat" where
  "fitting free = (if free \<le> 124 then free - 1 else if free \<le> 253 then free - 2
     else if 16766 \<le> free then MAX_BLOCKS else free - (3 + DIV_ROUND_UP (free - 254) 129))"

lemma fitting_fits:
  assumes "0 < fitting free"
  shows "file_sectors (fitting free) \<le> free" and "fitting free \<le> MAX_BLOCKS"
    and "MAX_BLOCKS \<le> fitting free \<or> free < file_sectors (Suc (fitting free))"
proof -
  define m q where "m = free - 254" and "q = DIV_ROUND_UP m 129"
  have q: "129 * q < m + 129" "m \<le> 129 * q" unfolding q_def by (rule DIV_ROUND_UP_bounds; simp)+
  define p r where "p = DIV_ROUND_UP (m - q) 128" and "r = DIV_ROUND_UP (m - q + 1) 128"
  have p: "128 * p < m - q + 128" and r: "m - q + 1 \<le> 128 * r"
    unfolding p_def r_def by (rule DIV_ROUND_UP_bounds; simp)+
  have big: "DIV_ROUND_UP 16384 128 = 128" "DIV_ROUND_UP 1 128 = 1" by (simp_all add: DIV_ROUND_UP_def)
  consider "free \<le> 124" | "124 < free" "free \<le> 253" | "253 < free" "free < 16766" | "16766 \<le> free" by linarith
  then show "file_sectors (fitting free) \<le> free" "fitting free \<le> MAX_BLOCKS"
      "MAX_BLOCKS \<le> fitting free \<or> free < file_sectors (Suc (fitting free))"
  proof (atomize (full), cases)
    case 3
    then have f: "fitting free = 251 + (m - q)" using q unfolding fitting_def by (auto simp: m_def q_def)
    have "file_sectors (251 + (m - q)) \<le> 254 + (m - q) + p"
      by (simp add: file_sectors_def index_blocks_def p_def)
    moreover have "file_sectors (Suc (251 + (m - q))) = 255 + (m - q) + r"
      by (simp add: file_sectors_def index_blocks_def r_def)
    moreover have "free = 254 + m" using 3 by (simp add: m_def)
    moreover have "m \<le> 16511" using 3 by (simp add: m_def)
    ultimately show "file_sectors (fitting free) \<le> free \<and> fitting free \<le> MAX_BLOCKS \<and>
        (MAX_BLOCKS \<le> fitting free \<or> free < file_sectors (Suc (fitting free)))"
      unfolding f using p q r by linarith
  qed (use assms in \<open>auto simp: fitting_def file_sectors_def index_blocks_def big\<close>)
qed

lemma copyable_size_fitting:
  assumes "0 < copyable_size sz (int free)"
  shows "copyable_size sz (int free) =
    (if bytes_to_sectors sz \<le> fitting free then sz else 512 * int (fitting free) - 1)"
proof -
  have "nat (int free - 254) = free - 254" by simp
  then show ?thesis
    using assms unfolding copyable_size_def total_double_indirect_def total_indirect_def fitting_def
    by (auto simp: Let_def of_nat_diff split: if_splits)
qed

lemma bytes_to_sectors_succ:
  assumes "0 < sz" and "sz mod 512 \<noteq> 0"
  shows "bytes_to_sectors (sz + 1) = bytes_to_sectors sz"
proof -
  have "int (nat sz mod 512) \<noteq> 0" using assms by (simp add: zmod_int)
  then have "nat (sz + 1) = Suc (nat sz)" "nat sz mod 512 \<noteq> 0" using assms(1) by (simp_all add: nat_add_distrib)
  moreover have "(511 + n) div 512 = n div 512 + 1" if n: "n mod 512 \<noteq> 0" for n :: nat
  proof -
    obtain j where j: "n mod 512 = Suc j" using n by (cases "n mod 512") auto
    define q where "q = n div 512"
    have "511 + n = j + (q + 1) * 512" using mult_div_mod_eq [of 512 n] unfolding j q_def [symmetric] by simp
    moreover have "j < 512" using mod_less_divisor [of 512 n] unfolding j by simp
    ultimately show ?thesis unfolding q_def [symmetric] by simp
  qed
  ultimately show ?thesis by (simp add: bytes_to_sectors_def DIV_ROUND_UP_def)
qed

lemma bytes_to_sectors_bounds:
  assumes "0 < sz"
  shows "0 < bytes_to_sectors sz" and "sz \<le> 512 * int (bytes_to_sectors sz)" and "512 * int (bytes_to_sectors sz) < sz + 512"
  using DIV_ROUND_UP_bounds [of 512 "nat sz"] assms unfolding bytes_to_sectors_def by linarith+


text \<open>
  C18: The size \<open>copy_in\<close> gets from \<open>copyable_size_of_file\<close> is right: a file of this size and one
  more byte, with its inode and all its index blocks, fits into the free sectors and into
  the limit of an inode; it is the size asked for, or the sectors are all used:
  one sector more would not fit.
\<close>

theorem copyable_size_fits:
  assumes "0 < sz" and "sz mod 512 \<noteq> 0" and "num_free_sectors s = Some free"
    and "copyable_size_of_file sz s = Some r" and "0 < r"
  shows "r \<le> sz \<and> bytes_to_sectors (r + 1) \<le> MAX_BLOCKS \<and> file_sectors (bytes_to_sectors (r + 1)) \<le> free \<and>
    (r < sz \<longrightarrow> (r + 1) mod 512 = 0 \<and>
       (bytes_to_sectors (r + 1) = MAX_BLOCKS \<or> free < file_sectors (Suc (bytes_to_sectors (r + 1)))))"
proof -
  have r: "r = copyable_size sz (int free)" using assms(3,4) by (simp add: copyable_size_of_file_def)
  let ?n = "bytes_to_sectors sz" and ?F = "fitting free"
  note n = bytes_to_sectors_bounds [OF assms(1)]
  have eq: "r = (if ?n \<le> ?F then sz else 512 * int ?F - 1)"
    using copyable_size_fitting [of sz free] assms(5) unfolding r by blast
  then have F: "0 < ?F" using n(1) assms(5) by (auto split: if_splits)
  note f = fitting_fits [OF F]
  show ?thesis
  proof (cases "?n \<le> ?F")
    case True
    then show ?thesis
      using eq f(1,2) file_sectors_mono [OF True] bytes_to_sectors_succ [OF assms(1,2)] by simp
  next
    case False
    then have "r + 1 = 512 * int ?F" using eq by simp
    moreover have "bytes_to_sectors (512 * int ?F) = ?F"
      by (simp add: bytes_to_sectors_def DIV_ROUND_UP_def nat_mult_distrib)
    ultimately show ?thesis using f False n by auto
  qed
qed

theorem copyable_size_fits_witness:
  "copyable_size_of_file 100000 demo_alloc = Some 30719 \<and> file_sectors (bytes_to_sectors 30720) \<le> 61"
proof -
  have "bitmap_count \<lparr>bit_cnt = 64, bits = [7]\<rparr> 0 64 False = Some 61" by code_simp
  then have n: "num_free_sectors demo_alloc = Some 61"
    by (simp add: num_free_sectors_def bitmap_size_def demo_alloc_def cache_state.defs fs_state.defs)
  then have r: "copyable_size_of_file 100000 demo_alloc = Some 30719"
    by (simp add: copyable_size_of_file_def copyable_size_def bytes_to_sectors_def DIV_ROUND_UP_def Let_def)
  show ?thesis using copyable_size_fits [OF _ _ n r] r by simp
qed

end
