(* ===== verification/Fs_Store.thy ===== *)
theory Fs_Store
  imports Fs_Files Fs_Util
begin

text \<open>
  The abstract view of the file system: a map from the names in the root directory to the bytes of
  the files. The commands of \<open>fs/fsutil.c\<close> refine the operations on this map (here the one that makes
  a file), and they keep the disk and the table of open files in order.
\<close>

section \<open>The contents of the disk\<close>

text \<open>
  The inode in a sector, the sectors of its file, and the sectors that belong to it with its own.
\<close>

definition file_at :: "fs_state \<Rightarrow> u32 \<Rightarrow> inode_disk" where
  "file_at s x = get_inode (cache_content s x)"

definition extent :: "fs_state \<Rightarrow> u32 \<Rightarrow> u32 set" where
  "extent s x = insert x (file_sectors_of s (file_at s x))"

definition slot_ok :: "inode_disk \<Rightarrow> fs_state \<Rightarrow> u32 \<Rightarrow> bool" where
  "slot_ok f s x \<longleftrightarrow> x \<in> used s \<and> x \<noteq> 0 \<and> x \<notin> map_file f s \<and> file_wf f s (file_at s x) \<and> x \<notin> file_sectors_of s (file_at s x) \<and> is_dir (file_at s x) = 0"

definition root_names :: "inode \<Rightarrow> fs_state \<Rightarrow> string \<Rightarrow> u32 option" where
  "root_names i s = names (entries_of (bytes_of i s))"

definition contents :: "inode \<Rightarrow> fs_state \<Rightarrow> string \<Rightarrow> u8 list option" where
  "contents i s name = map_option (\<lambda>x. file_bytes (cache_content s) (file_at s x)) (root_names i s name)"

text \<open>
  The root directory \<open>i\<close> names well-formed files, and no two of them, nor one of them and the
  directory, have a sector in common.
\<close>

definition disk_ok :: "inode_disk \<Rightarrow> inode \<Rightarrow> fs_state \<Rightarrow> bool" where
  "disk_ok f i s \<longleftrightarrow>
     (\<forall>m x. root_names i s m = Some x \<longrightarrow> slot_ok f s x \<and> extent s x \<inter> extent s ROOT_DIR_SECTOR = {}) \<and>
     (\<forall>m n x y. root_names i s m = Some x \<and> root_names i s n = Some y \<and> m \<noteq> n \<longrightarrow> extent s x \<inter> extent s y = {})"

lemma disk_okD:
  assumes "disk_ok f i s"
  shows "root_names i s m = Some x \<Longrightarrow> slot_ok f s x" and "root_names i s m = Some x \<Longrightarrow> extent s x \<inter> extent s ROOT_DIR_SECTOR = {}"
    and "root_names i s m = Some x \<Longrightarrow> root_names i s n = Some y \<Longrightarrow> m \<noteq> n \<Longrightarrow> extent s x \<inter> extent s y = {}"
  using assms unfolding disk_ok_def by blast+

lemma disk_okI:
  assumes "\<And>m x. root_names i s m = Some x \<Longrightarrow> slot_ok f s x \<and> extent s x \<inter> extent s ROOT_DIR_SECTOR = {}"
    and "\<And>m n x y. root_names i s m = Some x \<Longrightarrow> root_names i s n = Some y \<Longrightarrow> m \<noteq> n \<Longrightarrow> extent s x \<inter> extent s y = {}"
  shows "disk_ok f i s"
  unfolding disk_ok_def using assms by (intro conjI allI impI) blast+

text \<open>
  An entry of the table of open files: a file of the root directory under its absolute path, with an
  inode of its own that agrees with the one on the disk.
\<close>

definition open_entry :: "inode \<Rightarrow> fs_state \<Rightarrow> string \<Rightarrow> u32 \<Rightarrow> nat \<Rightarrow> bool" where
  "open_entry i s name x a \<longleftrightarrow> root_names i s name = Some x \<and>
     (\<exists>p pos. files s a = Some \<lparr>file_inode = p, file_pos = pos, deny_write = False\<rparr> \<and> inodes s p = Some (inode_of s x) \<and>
        p \<in> set (open_inodes s) \<and> \<not> is_free_map_inode p s)"

definition table_ok :: "inode \<Rightarrow> fs_state \<Rightarrow> bool" where
  "table_ok i s \<longleftrightarrow> distinct (map fst (file_table s)) \<and> distinct (open_inodes s) \<and>
     (\<forall>path a. map_of (file_table s) path = Some a \<longrightarrow> (\<exists>name x. path = in_root name \<and> open_entry i s name x a)) \<and>
     (\<forall>p \<in> set (open_inodes s). \<exists>j. inodes s p = Some j \<and> (sector_no j = 0 \<or>
        (\<exists>path a. map_of (file_table s) path = Some a \<and> map_option file_inode (files s a) = Some p)))"

lemma table_okD:
  assumes "table_ok i s"
  shows "distinct (map fst (file_table s))" and "distinct (open_inodes s)"
    and "map_of (file_table s) path = Some a \<Longrightarrow> \<exists>name x. path = in_root name \<and> open_entry i s name x a"
    and "p \<in> set (open_inodes s) \<Longrightarrow> \<exists>j. inodes s p = Some j \<and> (sector_no j = 0 \<or>
      (\<exists>path a. map_of (file_table s) path = Some a \<and> map_option file_inode (files s a) = Some p))"
  using assms unfolding table_ok_def by blast+

text \<open>
  The file system between two commands: no directory is open, the free map is in order, and so are
  the files on the disk and the table of those that are open.
\<close>

definition store_ok :: "inode_disk \<Rightarrow> inode \<Rightarrow> fs_state \<Rightarrow> bool" where
  "store_ok f i s \<longleftrightarrow> rest_ok f i s \<and> disk_ok f i s \<and> table_ok i s"

lemma store_okD:
  assumes "store_ok f i s"
  shows "rest_ok f i s" and "disk_ok f i s" and "table_ok i s"
  using assms by (simp_all add: store_ok_def)

text \<open>Which objects are on the heap does not matter for what is on the disk.\<close>

lemma disk_cong:
  assumes "cache_content t = cache_content s" and "free_map t = free_map s"
  shows "file_at t x = file_at s x" and "extent t x = extent s x" and "slot_ok f t x = slot_ok f s x" and "root_names i t = root_names i s"
    and "contents i t = contents i s" and "disk_ok f i t = disk_ok f i s" and "free_count t = free_count s" and "inode_of t x = inode_of s x"
proof -
  have u: "used t = used s" using assms(2) by (simp add: used_def)
  note w = file_wf_cong [OF assms(1) u]
  show f: "file_at t x = file_at s x" for x by (simp add: file_at_def assms(1))
  show e: "extent t x = extent s x" for x using w by (simp add: extent_def f)
  show sl: "slot_ok f t x = slot_ok f s x" for x using w by (simp add: slot_ok_def f u map_file_def assms(1))
  show r: "root_names i t = root_names i s" by (simp add: root_names_def assms(1))
  show "contents i t = contents i s" by (simp add: contents_def r f assms(1) fun_eq_iff)
  show "disk_ok f i t = disk_ok f i s" unfolding disk_ok_def r e sl by (rule refl)
  show "free_count t = free_count s" by (simp add: free_count_def u assms(2))
  show "inode_of t x = inode_of s x" by (simp add: inode_of_def assms(1))
qed

lemma next_addr_irrelevant [simp]:
  "file_at (s\<lparr>next_addr := n\<rparr>) x = file_at s x" "extent (s\<lparr>next_addr := n\<rparr>) x = extent s x"
  "slot_ok f (s\<lparr>next_addr := n\<rparr>) x = slot_ok f s x" "root_names i (s\<lparr>next_addr := n\<rparr>) = root_names i s"
  "contents i (s\<lparr>next_addr := n\<rparr>) = contents i s" "used (s\<lparr>next_addr := n\<rparr>) = used s" "free_count (s\<lparr>next_addr := n\<rparr>) = free_count s" "map_file f (s\<lparr>next_addr := n\<rparr>) = map_file f s"
  "disk_ok f i (s\<lparr>next_addr := n\<rparr>) = disk_ok f i s" "inode_of (s\<lparr>next_addr := n\<rparr>) x = inode_of s x"
  using disk_cong [of "s\<lparr>next_addr := n\<rparr>" s] by (simp_all add: used_def map_file_def)

lemma root_extent:
  assumes "rest_ok f i s"
  shows "file_at s ROOT_DIR_SECTOR = idata i" and "extent s ROOT_DIR_SECTOR = insert ROOT_DIR_SECTOR (file_sectors_of s (idata i))"
    and "extent s ROOT_DIR_SECTOR \<subseteq> used s"
proof -
  note r = rest_okD [OF assms]
  show f: "file_at s ROOT_DIR_SECTOR = idata i" using arg_cong [OF at_restD(7) [OF r(1)], of idata] by (simp add: file_at_def)
  then show "extent s ROOT_DIR_SECTOR = insert ROOT_DIR_SECTOR (file_sectors_of s (idata i))" by (simp add: extent_def)
  then show "extent s ROOT_DIR_SECTOR \<subseteq> used s" using extent_file(1) [OF r(3)] r(4) by simp
qed

lemma slot_used: "slot_ok f s x \<Longrightarrow> extent s x \<subseteq> used s"
  using extent_file(1) by (auto simp: slot_ok_def extent_def file_wf_def)

text \<open>A file is not affected by what happens outside its sectors.\<close>

lemma slot_takes:
  assumes "slot_ok f s x" and "takes f s W X t" and "W \<inter> extent s x = {}"
  shows "slot_ok f t x" and "extent t x = extent s x" and "file_bytes (cache_content t) (file_at t x) = file_bytes (cache_content s) (file_at s x)"
proof -
  have x: "x \<in> used s" "x \<notin> W" "x \<notin> map_file f s" using assms(1,3) by (auto simp: slot_ok_def extent_def)
  have f: "file_at t x = file_at s x" using content_same [OF assms(2) x] by (simp add: file_at_def)
  have "file_wf f s (file_at s x)" "W \<inter> file_sectors_of s (file_at s x) = {}" using assms(1,3) by (auto simp: slot_ok_def extent_def)
  note t = file_takes [OF this(1) assms(2) this(2)]
  show "slot_ok f t x" using assms(1) t used_takes [OF assms(2)] map_file_takes [OF assms(2)] by (simp add: slot_ok_def f)
  show "extent t x = extent s x" using t by (simp add: extent_def f)
  show "file_bytes (cache_content t) (file_at t x) = file_bytes (cache_content s) (file_at s x)" using t by (simp add: f)
qed

text \<open>Nor is the root directory.\<close>

lemma rest_takes:
  assumes "rest_ok f i s" and "takes f s W X t" and "W \<inter> extent s ROOT_DIR_SECTOR = {}" and "next_addr s \<le> n"
  shows "rest_ok f i (t\<lparr>next_addr := n\<rparr>)" and "bytes_of i t = bytes_of i s" and "extent t ROOT_DIR_SECTOR = extent s ROOT_DIR_SECTOR"
proof -
  note r = rest_okD [OF assms(1)] and a = at_restD [OF rest_okD(1) [OF assms(1)]] and f = takes_fields [OF assms(2)]
  let ?t = "t\<lparr>next_addr := n\<rparr>"
  have W: "W \<inter> file_sectors_of s (idata i) = {}" "ROOT_DIR_SECTOR \<notin> W" using assms(3) root_extent(2) [OF assms(1)] by auto
  note e = extent_same [OF r(3) assms(2) W(1)]
  show b: "bytes_of i t = bytes_of i s" by (rule e(3))
  have c: "cache_content t ROOT_DIR_SECTOR = cache_content s ROOT_DIR_SECTOR" by (rule content_same [OF assms(2) r(4) W(2) r(5)])
  have wf: "inode_wf (cache_valid t) (cache_content t) (idata i)" "blocks_distinct (cache_content t) (idata i)"
    using extent_wf [OF e(1) takesD(1) [OF assms(2)]] a(11) by (simp_all add: inode_wf_def)
  have "cache_content ?t = cache_content t" "used ?t = used t" by simp_all
  note cong = file_wf_cong [OF this]
  have fresh: "inodes t k = None \<and> dirs t k = None \<and> files t k = None" if "n \<le> k" for k
    using r(7-9) f(1,3,5) that assms(4) by simp
  have al: "alloc_ok f ?t" by (rule alloc_ok_objects [OF r(2) takesD(1) [OF assms(2)]]) (simp_all add: f)
  have "at_rest i ?t"
    unfolding at_rest_def using a wf b c f takesD(8) [OF assms(2)] takesD(2) [OF assms(2)] fresh by simp
  moreover have "file_sectors_of ?t (idata i) = file_sectors_of s (idata i)" using cong(2) e(4) by simp
  ultimately show "rest_ok f i ?t"
    using al cong(3) e(1) r(4-6) used_takes [OF assms(2)] map_file_takes [OF assms(2)] fresh by (simp add: rest_ok_def)
  show "extent t ROOT_DIR_SECTOR = extent s ROOT_DIR_SECTOR" using c e(4) root_extent(1) [OF assms(1)] by (simp add: extent_def file_at_def)
qed

text \<open>One step of the abstract view: the file \<open>name\<close> is made or changed.\<close>

lemma slot_content:
  assumes "slot_ok f s x" and "takes f s W X t" and "W \<inter> extent s x = {}"
  shows "cache_content t x = cache_content s x"
  by (rule content_same [OF assms(2)]) (use assms(1,3) in \<open>auto simp: slot_ok_def extent_def\<close>)

lemma disk_step:
  assumes "rest_ok f i s" and "disk_ok f i s" and "takes f s W X t" and "extent t ROOT_DIR_SECTOR = extent s ROOT_DIR_SECTOR"
    and "root_names i t = (root_names i s)(name \<mapsto> x)" and "W \<subseteq> extent s ROOT_DIR_SECTOR \<union> E" and "extent t x \<subseteq> X \<union> E" and "slot_ok f t x"
    and "E = (case root_names i s name of None \<Rightarrow> {} | Some y \<Rightarrow> extent s y)"
  shows "disk_ok f i t" and "contents i t = (contents i s)(name \<mapsto> file_bytes (cache_content t) (file_at t x))"
    and "\<And>m y. root_names i s m = Some y \<Longrightarrow> m \<noteq> name \<Longrightarrow> cache_content t y = cache_content s y"
proof -
  note d = disk_okD [OF assms(2)]
  have W: "W \<inter> extent s y = {}" "extent s y \<inter> E = {}" if "root_names i s m = Some y" "m \<noteq> name" for m y
  proof -
    show "extent s y \<inter> E = {}" using d(3) [OF that(1) _ that(2)] assms(9) by (auto split: option.splits)
    then show "W \<inter> extent s y = {}" using assms(6) d(2) [OF that(1)] by blast
  qed
  have old: "slot_ok f t y" "extent t y = extent s y" "extent s y \<inter> extent s ROOT_DIR_SECTOR = {}" "extent s y \<inter> extent t x = {}"
    "file_bytes (cache_content t) (file_at t y) = file_bytes (cache_content s) (file_at s y)" if "root_names i s m = Some y" "m \<noteq> name" for m y
  proof -
    show "extent s y \<inter> extent s ROOT_DIR_SECTOR = {}" by (rule d(2) [OF that(1)])
    note t = slot_takes [OF d(1) [OF that(1)] assms(3) W(1) [OF that]]
    show "slot_ok f t y" "extent t y = extent s y" "file_bytes (cache_content t) (file_at t y) = file_bytes (cache_content s) (file_at s y)" by (rule t)+
    have "extent s y \<inter> X = {}" using slot_used [OF d(1) [OF that(1)]] takesD(3) [OF assms(3)] by blast
    then show "extent s y \<inter> extent t x = {}" using W(2) [OF that] assms(7) by blast
  qed
  have root: "extent t x \<inter> extent s ROOT_DIR_SECTOR = {}"
  proof -
    have "X \<inter> extent s ROOT_DIR_SECTOR = {}" using root_extent(3) [OF assms(1)] takesD(3) [OF assms(3)] by blast
    moreover have "E \<inter> extent s ROOT_DIR_SECTOR = {}" using d(2) assms(9) by (auto split: option.splits)
    ultimately show ?thesis using assms(7) by blast
  qed
  show "disk_ok f i t"
  proof (rule disk_okI)
    fix m y assume "root_names i t m = Some y"
    then show "slot_ok f t y \<and> extent t y \<inter> extent t ROOT_DIR_SECTOR = {}"
      using assms(5) old(1-3) [of m y] root assms(8) by (cases "m = name") (simp_all add: assms(4))
  next
    fix m k y z assume a: "root_names i t m = Some y" "root_names i t k = Some z" "m \<noteq> k"
    then consider "m = name" "k \<noteq> name" | "m \<noteq> name" "k = name" | "m \<noteq> name" "k \<noteq> name" by fastforce
    then show "extent t y \<inter> extent t z = {}"
    proof cases
      case 1
      then show ?thesis using a assms(5) old(2,4) [of k z] by (simp add: Int_commute)
    next
      case 2
      then show ?thesis using a assms(5) old(2,4) [of m y] by simp
    next
      case 3
      then show ?thesis using a assms(5) old(2) [of m y] old(2) [of k z] d(3) [of m y k z] by simp
    qed
  qed
  have "contents i t m = ((contents i s)(name \<mapsto> file_bytes (cache_content t) (file_at t x))) m" for m
    using assms(5) old(5) [of m] by (cases "root_names i s m"; cases "m = name") (simp_all add: contents_def)
  then show "contents i t = (contents i s)(name \<mapsto> file_bytes (cache_content t) (file_at t x))" by auto
  show "cache_content t y = cache_content s y" if "root_names i s m = Some y" "m \<noteq> name" for m y
    by (rule slot_content [OF d(1) [OF that(1)] assms(3) W(1) [OF that]])
qed

text \<open>Nothing that is named changes.\<close>

lemma disk_same:
  assumes "rest_ok f i s" and "disk_ok f i s" and "takes f s {} {} t"
  shows "disk_ok f i t" and "contents i t = contents i s" and "root_names i t = root_names i s"
    and "\<And>m y. root_names i s m = Some y \<Longrightarrow> cache_content t y = cache_content s y"
proof -
  note d = disk_okD [OF assms(2)]
  note rest = rest_takes [OF assms(1,3) Int_empty_left order_refl] and sl = slot_takes [OF _ assms(3) Int_empty_left]
  show r: "root_names i t = root_names i s" using rest(2) by (simp add: root_names_def)
  show "disk_ok f i t"
    by (rule disk_okI) (use d sl(1,2) rest(3) in \<open>simp_all add: r\<close>)
  have "contents i t m = contents i s m" for m
    using sl(3) [OF d(1)] by (cases "root_names i s m") (simp_all add: contents_def r)
  then show "contents i t = contents i s" by (rule ext)
  show "cache_content t y = cache_content s y" if "root_names i s m = Some y" for m y
    by (rule slot_content [OF d(1) [OF that] assms(3) Int_empty_left])
qed

section \<open>The table of open files\<close>

text \<open>Two names are never on the same sector.\<close>

lemma root_names_inj: "disk_ok f i s \<Longrightarrow> root_names i s m = Some x \<Longrightarrow> root_names i s n = Some x \<Longrightarrow> m = n"
  using disk_okD(3) [of f i s m x n x] by (auto simp: extent_def)

lemma inode_of_inj: "inode_of s x = inode_of t y \<Longrightarrow> x = y"
  by (simp add: inode_of_def)

lemma open_inode:
  assumes "disk_ok f i s" and "table_ok i s" and "p \<in> set (open_inodes s)"
  shows "\<exists>j. inodes s p = Some j \<and> (sector_no j = 0 \<or> (\<exists>name x a. map_of (file_table s) (in_root name) = Some a \<and>
    open_entry i s name x a \<and> j = inode_of s x))"
proof -
  obtain j where j: "inodes s p = Some j" "sector_no j = 0 \<or> (\<exists>path a. map_of (file_table s) path = Some a \<and> map_option file_inode (files s a) = Some p)"
    using table_okD(4) [OF assms(2,3)] by blast
  show ?thesis
  proof (cases "sector_no j = 0")
    case False
    then obtain path a where a: "map_of (file_table s) path = Some a" "map_option file_inode (files s a) = Some p" using j(2) by blast
    obtain name x where "path = in_root name" "open_entry i s name x a" using table_okD(3) [OF assms(2) a(1)] by blast
    moreover from this have "j = inode_of s x" using a(2) j(1) by (auto simp: open_entry_def)
    ultimately show ?thesis using a(1) j(1) by blast
  qed (use j in simp)
qed

text \<open>The root directory is not open, and neither is a file that is not in the table.\<close>

lemma not_open:
  assumes "disk_ok f i s" and "table_ok i s" and "x \<noteq> 0"
    and "\<And>name a. map_of (file_table s) (in_root name) = Some a \<Longrightarrow> root_names i s name \<noteq> Some x"
  shows "find_open (inodes s) (open_inodes s) x = Some None"
  unfolding find_open_None
proof
  fix p assume "p \<in> set (open_inodes s)"
  from open_inode [OF assms(1,2) this] obtain j where j: "inodes s p = Some j"
    "sector_no j = 0 \<or> (\<exists>name y a. map_of (file_table s) (in_root name) = Some a \<and> open_entry i s name y a \<and> j = inode_of s y)" by blast
  have "sector_no j \<noteq> x" using j(2) assms(3,4) by (auto simp: open_entry_def inode_of_def)
  then show "\<exists>i. inodes s p = Some i \<and> sector_no i \<noteq> x" using j(1) by blast
qed

lemma not_root: "disk_ok f i s \<Longrightarrow> root_names i s m = Some x \<Longrightarrow> x \<noteq> ROOT_DIR_SECTOR"
  using disk_okD(2) [of f i s m x] by (auto simp: extent_def)

lemma root_not_open: "disk_ok f i s \<Longrightarrow> table_ok i s \<Longrightarrow> find_open (inodes s) (open_inodes s) ROOT_DIR_SECTOR = Some None"
  by (rule not_open, assumption, assumption, simp) (blast dest: not_root)

text \<open>The state at the end of a command may have other objects than one in which the disk is in order.\<close>

lemma store_okI:
  assumes "rest_ok f i t" and "disk_ok f i t" and "cache_content u = cache_content t" and "cache_valid u = cache_valid t" and "free_map u = free_map t"
    and "alloc_ok f u" and "cwd u = None" and "\<And>k. next_addr u \<le> k \<Longrightarrow> inodes u k = None \<and> dirs u k = None \<and> files u k = None"
    and "table_ok i u"
  shows "store_ok f i u"
proof -
  note c = disk_cong [OF assms(3,5)] and r = rest_okD [OF assms(1)] and a = at_restD [OF rest_okD(1) [OF assms(1)]]
  have u: "used u = used t" "map_file f u = map_file f t" using assms(3,5) by (simp_all add: used_def map_file_def)
  have d: "disk_ok f i u" using assms(2) c(6) by simp
  have "at_rest i u"
    unfolding at_rest_def using a root_not_open [OF d assms(9)] alloc_okD(4) [OF assms(6)] assms(3,4,7,8) by simp
  then have "rest_ok f i u"
    using assms(6,8) r(3-6) u file_wf_cong(2,3) [OF assms(3) u(1)] by (simp add: rest_ok_def)
  then show ?thesis using d assms(9) by (simp add: store_ok_def)
qed

text \<open>Objects that are none of the free map may change.\<close>

lemma alloc_ok_except:
  assumes "alloc_ok f t" and "cache_inv u = cache_inv t" and "cache_content u = cache_content t" and "cache_valid u = cache_valid t"
    and "free_map u = free_map t" and "free_map_file u = free_map_file t" and "\<not> is_free_map_inode p t"
    and "\<And>b. b \<noteq> a \<Longrightarrow> files t b \<noteq> None \<Longrightarrow> files u b = files t b" and "\<And>q. q \<noteq> p \<Longrightarrow> inodes t q \<noteq> None \<Longrightarrow> inodes u q = inodes t q"
    and "files t a = None \<or> map_option file_inode (files t a) = Some p"
  shows "alloc_ok f u"
proof -
  obtain b fl j where j: "free_map_file t = Some b" "files t b = Some fl" "inodes t (file_inode fl) = Some j"
    "deny_write_cnt j = 0" "idata j = f" using assms(1) by (auto simp: alloc_ok_def fm_wf_def)
  have p: "file_inode fl \<noteq> p" using assms(7) j(1,2) by (simp add: is_free_map_inode_def)
  then have "b \<noteq> a" using assms(10) j(2) by auto
  then have "files u b = Some fl" "inodes u (file_inode fl) = Some j" using assms(8) [of b] assms(9) [OF p] j(2,3) by simp_all
  moreover have "used u = used t" using assms(5) by (simp add: used_def)
  ultimately show ?thesis using assms(1-6) j by (auto simp: alloc_ok_def fm_wf_def)
qed

text \<open>A command that leaves the open files alone keeps the table in order.\<close>

lemma table_ok_keeps:
  assumes "table_ok i s" and "file_table t = file_table s" and "inodes t = inodes s" and "open_inodes t = open_inodes s" and "files t = files s"
    and "free_map_file t = free_map_file s"
    and "\<And>name x a. map_of (file_table s) (in_root name) = Some a \<Longrightarrow> root_names i s name = Some x \<Longrightarrow>
      root_names i t name = Some x \<and> cache_content t x = cache_content s x"
  shows "table_ok i t"
proof -
  have f: "is_free_map_inode p t = is_free_map_inode p s" for p using assms(5,6) by (simp add: is_free_map_inode_def split: option.split)
  have "\<exists>name x. path = in_root name \<and> open_entry i t name x a" if a: "map_of (file_table s) path = Some a" for path a
  proof -
    obtain name x where n: "path = in_root name" "open_entry i s name x a" using table_okD(3) [OF assms(1) a] by blast
    then have k: "root_names i t name = Some x" "cache_content t x = cache_content s x" using assms(7) [of name a x] a by (auto simp: open_entry_def)
    then have "inode_of t x = inode_of s x" by (simp add: inode_of_def)
    then have "open_entry i t name x a" using n(2) k(1) assms(3-5) f by (simp add: open_entry_def)
    then show ?thesis using n(1) by blast
  qed
  then show ?thesis using assms(1) unfolding table_ok_def assms(2-5) by blast
qed

section \<open>Making a file\<close>

lemma fsutil_create_ok:
  assumes "store_ok f i s" and "path_name name" and "length name \<le> NAME_MAX" and "CHR 0x00 \<notin> set name"
    and "contents i s name = None" and "\<exists>e \<in> set (entries_of (bytes_of i s)). \<not> in_use e"
    and "0 \<le> len" and "len < 2 ^ 31" and "bytes_to_sectors len \<le> MAX_BLOCKS"
    and "Suc (sectors_for (bytes_to_sectors len)) \<le> free_count s"
  shows "\<exists>t. fsutil_create (in_root name) len s = Some (True, t) \<and> store_ok f i t \<and>
    contents i t = (contents i s)(name \<mapsto> replicate (nat len) 0) \<and> file_table t = file_table s \<and> files t = files s \<and>
    free_count t + Suc (sectors_for (bytes_to_sectors len)) = free_count s"
proof -
  note d = store_okD [OF assms(1)]
  have no: "root_names i s name = None" using assms(5) by (simp add: contents_def)
  obtain x d Y t where t: "filesys_create (in_root name) len False s = Some (True, t\<lparr>next_addr := next_addr s + 2\<rparr>)"
    "takes f s (file_sectors_of s (idata i)) (insert x Y) t" "rest_ok f i (t\<lparr>next_addr := next_addr s + 2\<rparr>)"
    "names (entries_of (bytes_of i t)) = (names (entries_of (bytes_of i s)))(name \<mapsto> x)" "x \<notin> Y"
    "get_inode (cache_content t x) = d" "file_wf f t d" "file_bytes (cache_content t) d = replicate (nat len) 0"
    "file_sectors_of t d \<subseteq> Y" "file_sectors_of t (idata i) = file_sectors_of s (idata i)"
    "free_count t + Suc (sectors_for (bytes_to_sectors len)) = free_count s" "is_dir d = 0"
    using filesys_create_ok [OF d(1) assms(2-4) no [unfolded root_names_def] assms(6-10)] by (elim exE conjE) (rule that; assumption)
  let ?t = "t\<lparr>next_addr := next_addr s + 2\<rparr>"
  note n = takes_new [OF t(2), of x, simplified] and tf = takes_fields [OF t(2)]
  have fx: "file_at t x = d" using t(6) by (simp add: file_at_def)
  have sl: "slot_ok f t x" using n t(5,7,9,12) fx by (auto simp: slot_ok_def map_file_def)
  have ex: "extent t x \<subseteq> insert x Y \<union> {}" using t(9) fx by (auto simp: extent_def)
  have "cache_content t ROOT_DIR_SECTOR = cache_content s ROOT_DIR_SECTOR"
    by (rule content_same [OF t(2)]) (use rest_okD [OF d(1)] in simp_all)
  then have root: "extent t ROOT_DIR_SECTOR = extent s ROOT_DIR_SECTOR" using t(10) root_extent(1) [OF d(1)] by (simp add: extent_def file_at_def)
  have W: "file_sectors_of s (idata i) \<subseteq> extent s ROOT_DIR_SECTOR \<union> {}" using root_extent(2) [OF d(1)] by blast
  have names: "root_names i t = (root_names i s)(name \<mapsto> x)" using t(4) by (simp add: root_names_def)
  have E: "{} = (case root_names i s name of None \<Rightarrow> {} | Some y \<Rightarrow> extent s y)" using no by simp
  note st = disk_step [OF d(1,2) t(2) root names W ex sl E]
  have "table_ok i ?t"
  proof (rule table_ok_keeps [OF d(3)])
    fix m y a assume a: "root_names i s m = Some y"
    then have "m \<noteq> name" using no by auto
    then show "root_names i ?t m = Some y \<and> cache_content ?t y = cache_content s y" using names a st(3) [OF a] by simp
  qed (use tf in simp_all)
  then have "store_ok f i ?t" using t(3) st(1) by (simp add: store_ok_def)
  moreover have "fsutil_create (in_root name) len s = filesys_create (in_root name) len False s"
    using assms(3) by (simp add: fsutil_create_def)
  ultimately show ?thesis using t(1,8,11) st(2) fx tf by simp
qed

section \<open>Formatting\<close>

text \<open>The entries of a directory that was just made: the one of the parent, and free slots.\<close>

definition first_entry :: "u32 \<Rightarrow> dir_entry" where
  "first_entry x = \<lparr>entry_sector = x, entry_name = replicate (NAME_MAX + 1) 0, in_use = True\<rparr>"

definition new_entries :: "u32 \<Rightarrow> nat \<Rightarrow> dir_entry list" where
  "new_entries x n = first_entry x # replicate (n - 1) (get_entry (replicate ENTRY_SIZE 0))"

lemma entries_of_zeros: "entries_of (replicate (ENTRY_SIZE * n) 0) = replicate n (get_entry (replicate ENTRY_SIZE 0))"
proof (rule nth_equalityI)
  show len: "length (entries_of (replicate (ENTRY_SIZE * n) 0)) = length (replicate n (get_entry (replicate ENTRY_SIZE 0)))" by simp
  fix k assume "k < length (entries_of (replicate (ENTRY_SIZE * n) 0))"
  then have k: "k < n" by simp
  then have "min ENTRY_SIZE (ENTRY_SIZE * n - ENTRY_SIZE * k) = ENTRY_SIZE" by simp
  then have "take ENTRY_SIZE (drop (ENTRY_SIZE * k) (replicate (ENTRY_SIZE * n) 0)) = replicate ENTRY_SIZE (0 :: u8)"
    by (simp only: drop_replicate take_replicate)
  then show "entries_of (replicate (ENTRY_SIZE * n) 0) ! k = replicate n (get_entry (replicate ENTRY_SIZE 0)) ! k"
    using k by (simp add: entry_at_def)
qed

lemma new_entries_ok:
  assumes "0 < n"
  shows "entries_of (overwrite (replicate (ENTRY_SIZE * n) 0) 0 (put_entry (first_entry x))) = new_entries x n"
    and "entries_ok (new_entries x n)" and "names (new_entries x n) = Map.empty" and "length (new_entries x n) = n"
proof -
  have z: "\<not> in_use (get_entry (replicate ENTRY_SIZE 0))" by (simp add: get_entry_def)
  have u: "in_use (new_entries x n ! k) \<longleftrightarrow> k = 0" if "k < n" for k
    using that z by (simp add: new_entries_def nth_Cons' first_entry_def)
  show l: "length (new_entries x n) = n" using assms by (simp add: new_entries_def)
  have "entries_of (overwrite (replicate (ENTRY_SIZE * n) 0) (ENTRY_SIZE * 0) (put_entry (first_entry x))) =
      (entries_of (replicate (ENTRY_SIZE * n) 0))[0 := first_entry x]"
    using assms by (intro entries_of_overwrite) (simp_all add: first_entry_def)
  also have "\<dots> = new_entries x n" unfolding entries_of_zeros using assms by (cases n) (simp_all add: new_entries_def)
  finally show "entries_of (overwrite (replicate (ENTRY_SIZE * n) 0) 0 (put_entry (first_entry x))) = new_entries x n" by simp
  have "new_entries x n \<noteq> []" by (simp add: new_entries_def)
  then show "entries_ok (new_entries x n)" using u assms by (auto simp: entries_ok_def l)
  show "names (new_entries x n) = Map.empty"
    using u by (auto simp: names_def fun_eq_iff find_from_None called_def l)
qed

lemma dir_create_ok:
  assumes "alloc_ok f s" and "ROOT_DIR_SECTOR \<in> used s" and "ROOT_DIR_SECTOR \<notin> map_file f s" and "0 < n" and "int (ENTRY_SIZE * n) < 2 ^ 31"
    and "bytes_to_sectors (int (ENTRY_SIZE * n)) \<le> MAX_BLOCKS" and "sectors_for (bytes_to_sectors (int (ENTRY_SIZE * n))) \<le> free_count s"
    and "\<forall>p \<in> set (open_inodes s). \<exists>j. inodes s p = Some j \<and> sector_no j = 0" and "cwd s = None"
    and "\<forall>k \<ge> next_addr s. inodes s k = None \<and> dirs s k = None \<and> files s k = None" and "file_table s = []" and "distinct (open_inodes s)"
  shows "\<exists>i t. dir_create ROOT_DIR_SECTOR n s = Some (True, t) \<and> store_ok f i t \<and> entries_of (bytes_of i t) = new_entries ROOT_DIR_SECTOR n \<and>
    free_count t + sectors_for (bytes_to_sectors (int (ENTRY_SIZE * n))) = free_count s"
proof -
  let ?N = "next_addr s" and ?e = "first_entry ROOT_DIR_SECTOR" and ?len = "int (ENTRY_SIZE * n)"
  obtain d Y t1 where t1: "inode_create ROOT_DIR_SECTOR ?len True s = Some (True, t1)" "takes f s {ROOT_DIR_SECTOR} Y t1"
    "get_inode (cache_content t1 ROOT_DIR_SECTOR) = d" "file_wf f t1 d" "file_bytes (cache_content t1) d = replicate (nat ?len) 0"
    "file_sectors_of t1 d \<subseteq> Y" "data_length d = ?len" "free_count t1 + sectors_for (bytes_to_sectors ?len) = free_count s"
    using inode_create_ok [OF assms(1-3) _ assms(5-7), of True] by (metis of_nat_0_le_iff)
  note al1 = takesD(1) [OF t1(2)] and f1 = takes_fields [OF t1(2)]
  have root: "ROOT_DIR_SECTOR \<in> used t1" "ROOT_DIR_SECTOR \<notin> map_file f t1" "ROOT_DIR_SECTOR \<notin> file_sectors_of t1 d"
    using used_takes [OF t1(2)] map_file_takes [OF t1(2)] assms(2,3) takesD(3) [OF t1(2)] t1(6) by auto
  let ?i = "inode_of t1 ROOT_DIR_SECTOR"
  have i: "idata ?i = d" "open_cnt ?i = 1" "\<not> removed ?i" "deny_write_cnt ?i = 0" using t1(3) by (simp_all add: inode_of_def)
  have fo: "find_open (inodes t1) (open_inodes t1) ROOT_DIR_SECTOR = Some None" using assms(8) f1 by (auto simp: find_open_None)
  obtain u where u: "inode_open ROOT_DIR_SECTOR t1 = Some (?N, u\<lparr>next_addr := Suc ?N, open_inodes := ?N # open_inodes s,
      inodes := (inodes s)(?N \<mapsto> ?i)\<rparr>)" "same_sectors t1 u"
    using inode_open_new [OF fo alloc_okD(4) [OF al1] alloc_okD(2) [OF al1 root(1)]] unfolding inode_of_def f1 by metis
  note mu = more_fields [OF same_sectorsD(4) [OF u(2)]] and tu = takes_same [OF al1 u(2)]
  let ?w = "u\<lparr>open_inodes := ?N # open_inodes s, inodes := (inodes s)(?N \<mapsto> ?i), next_addr := Suc (Suc ?N),
    dirs := (dirs s)(Suc ?N \<mapsto> \<lparr>dir_inode = ?N, dir_pos = int ENTRY_SIZE, dir_open_cnt = 1\<rparr>)\<rparr>"
  have wc: "cache_content ?w = cache_content u" "used ?w = used u" "cache_valid ?w = cache_valid u" "cache_inv ?w = cache_inv u"
    by (simp_all add: used_def)
  have alw: "alloc_ok f ?w" by (rule alloc_ok_objects [OF al1 takesD(1) [OF tu]]) (use mu f1 assms(10) in auto)
  note fu = file_takes [OF t1(4) tu Int_empty_left]
  have fw: "file_wf f ?w d" "file_bytes (cache_content ?w) d = replicate (ENTRY_SIZE * n) 0" "file_sectors_of ?w d = file_sectors_of t1 d"
    using fu t1(5) file_wf_cong(1,2) [OF wc(1,2)] wc(1) unfolding nat_int by simp_all
  have le: "length (put_entry ?e) = ENTRY_SIZE" by (intro length_put_entry) (simp add: first_entry_def)
  obtain v where v: "inode_write_at ?N (put_entry ?e) (int ENTRY_SIZE) 0 ?w = Some (int ENTRY_SIZE, v)" "data_written ?w d v"
      "file_bytes (cache_content v) d = overwrite (replicate (ENTRY_SIZE * n) 0) 0 (put_entry ?e)"
    using inode_write_at_ok [of ?w ?N ?i 0 "int ENTRY_SIZE" "put_entry ?e"] file_wfD(1,2) [OF fw(1) alw] alloc_okD(4) [OF alw]
      i(1,4) fw(2) le t1(7) assms(4) by (auto simp del: of_nat_mult)
  have ew: "extent_ok f ?w d (num_blocks d)" using fw(1) by (simp add: file_wf_def)
  let ?R = "file_data (cache_content ?w) d"
  note tv = takes_data_written [OF alw ew v(2)]
  note ev = extent_takes [OF ew tv extent_file(3) [OF ew]]
  let ?t = "v\<lparr>inodes := inodes s, open_inodes := open_inodes s, dirs := dirs s, cwd := None, next_addr := ?N\<rparr>"
  have tt: "takes f t1 ?R {} ?t"
    by (rule takes_objects [OF tu tv], simp_all) (rule more_eqI; use takes_fields [OF tv] f1 mu assms(9) in simp)
  have "cache_content ?t = cache_content v" "used ?t = used v" by (simp_all add: used_def)
  note ct = this(1) and cong = file_wf_cong [OF this]
  have et: "extent_ok f ?t d (num_blocks d)" "file_sectors_of ?t d = file_sectors_of t1 d"
    using ev cong(2,3) fw(3) by (auto simp: file_sectors_of_def)
  have "?R \<subseteq> file_sectors_of t1 d" using extent_file(2) [OF ew] fw(3) by simp
  then have nR: "ROOT_DIR_SECTOR \<notin> ?R" using root(3) by blast
  have c: "cache_content ?t ROOT_DIR_SECTOR = cache_content t1 ROOT_DIR_SECTOR" by (rule content_same [OF tt root(1) nR root(2)])
  let ?z = "?t\<lparr>next_addr := Suc (Suc ?N)\<rparr>"
  have es: "entries_of (bytes_of ?i ?z) = new_entries ROOT_DIR_SECTOR n"
    using v(3) new_entries_ok(1) [OF assms(4)] i(1) ct by simp
  have "inode_ok d" "0 \<le> data_length d" using t1(4) by (simp_all add: file_wf_def)
  note wf = extent_wf [OF et(1) takesD(1) [OF tt] this]
  note tf = takes_fields [OF tt, unfolded f1]
  have fresh: "inodes ?z k = None \<and> dirs ?z k = None \<and> files ?z k = None" if "Suc (Suc ?N) \<le> k" for k
    using assms(10) that tf(3) by simp
  have "at_rest ?i ?z"
    unfolding at_rest_def
  proof (intro conjI)
    show "?i = \<lparr>sector_no = ROOT_DIR_SECTOR, open_cnt = 1, removed = False, deny_write_cnt = 0,
        idata = get_inode (cache_content ?z ROOT_DIR_SECTOR)\<rparr>" using c by (simp add: inode_of_def)
    show "inode_wf (cache_valid ?z) (cache_content ?z) (idata ?i)" "blocks_distinct (cache_content ?z) (idata ?i)" using wf i(1) by simp_all
    show "entries_ok (entries_of (bytes_of ?i ?z))" using es new_entries_ok(2) [OF assms(4)] by simp
    show "cwd ?z = None" using tf(6) assms(9) by simp
    show "cache_inv ?z" "cache_valid ?z ROOT_DIR_SECTOR" using takesD(8) [OF tt] takesD(2) [OF tt] alloc_okD(2) [OF al1 root(1)] by simp_all
    show "find_open (inodes ?z) (open_inodes ?z) ROOT_DIR_SECTOR = Some None" using fo f1 by simp
    show "inodes ?z (next_addr ?z) = None" "dirs ?z (Suc (next_addr ?z)) = None" using fresh by simp_all
  qed
  moreover have "alloc_ok f ?z" by (rule alloc_ok_objects [OF al1 takesD(1) [OF tt]]) (use tf f1 in simp_all)
  moreover have "ROOT_DIR_SECTOR \<in> used ?t" "ROOT_DIR_SECTOR \<notin> map_file f ?t" using used_takes [OF tt] map_file_takes [OF tt] root(1,2) by auto
  moreover have "extent_ok f ?z d (num_blocks d)" "file_sectors_of ?z d = file_sectors_of t1 d"
    using et file_wf_cong(2,3) [of ?z ?t] by simp_all
  ultimately have "rest_ok f ?i ?z" using i(1) root(3) fresh by (simp add: rest_ok_def)
  moreover have "root_names ?i ?z = Map.empty" using es new_entries_ok(3) [OF assms(4)] by (simp only: root_names_def)
  moreover from this have "disk_ok f ?i ?z" by (simp add: disk_ok_def)
  moreover have "table_ok ?i ?z" using assms(8,12) tf(7) assms(11) by (simp add: table_ok_def)
  ultimately have "store_ok f ?i ?z" by (simp only: store_ok_def)
  moreover have "dir_create ROOT_DIR_SECTOR n s = Some (True, ?z)"
  proof -
    have vf: "inodes v = (inodes s)(?N \<mapsto> ?i)" "open_inodes v = ?N # open_inodes s" "next_addr v = Suc (Suc ?N)"
      "dirs v = (dirs s)(Suc ?N \<mapsto> \<lparr>dir_inode = ?N, dir_pos = int ENTRY_SIZE, dir_open_cnt = 1\<rparr>)"
      using takes_fields [OF tv] by simp_all
    have "(inodes s)(?N := None) = inodes s" "(dirs s)(Suc ?N := None) = dirs s" using assms(10) by (auto simp: fun_eq_iff)
    then have "dir_close (Some (Suc ?N)) v = Some (v\<lparr>inodes := inodes s, open_inodes := open_inodes s, dirs := dirs s, cwd := None\<rparr>)"
      using vf i(2,3) by (simp add: dir_close_def inode_close_def Let_def)
    also have "v\<lparr>inodes := inodes s, open_inodes := open_inodes s, dirs := dirs s, cwd := None\<rparr> = ?z" using vf(3) by (cases v) simp
    finally have close: "dir_close (Some (Suc ?N)) v = Some ?z" .
    have "dirs u = dirs s" using mu f1 by simp
    moreover have "offset_ok ?len" using assms(5) by (simp add: offset_ok_def)
    ultimately show ?thesis
      using t1(1) u(1) v(1) close by (simp add: dir_create_def dir_open_def dir_get_inode_def Let_def first_entry_def mult.commute [of n] del: of_nat_mult)
  qed
  moreover have "free_count ?z + sectors_for (bytes_to_sectors ?len) = free_count s" using t1(8) takes_free_count [OF tt] by (simp del: of_nat_mult)
  ultimately show ?thesis using es by blast
qed

end
