(* ===== verification/Fs_Open.thy ===== *)
theory Fs_Open
  imports Fs_Store
begin

text \<open>
  Files that stay open from one command to the next. \<open>fsutil_write\<close>, \<open>fsutil_read\<close>,
  \<open>fsutil_seek\<close> and \<open>fsutil_size\<close> open a file when it is not in the table of open files, and leave
  it there; the next of these commands starts at the position where the last one stopped. The
  abstract view of the file system has these positions.
\<close>

section \<open>The view\<close>

text \<open>Where the next command on a file starts; at its first byte when it is not open.\<close>

definition position :: "fs_state \<Rightarrow> string \<Rightarrow> int" where
  "position s name =
    (case get_file_by_fname (in_root name) s of
       None \<Rightarrow> 0
     | Some a \<Rightarrow> (case files s a of None \<Rightarrow> 0 | Some fl \<Rightarrow> file_pos fl))"

definition view :: "inode \<Rightarrow> fs_state \<Rightarrow> string \<Rightarrow> (u8 list \<times> int) option" where
  "view i s name = map_option (\<lambda>bs. (bs, position s name)) (contents i s name)"

lemma view_Some: "view i s name = Some (bs, k) \<longleftrightarrow> contents i s name = Some bs \<and> position s name = k"
  by (auto simp: view_def)

lemma view_eqI:
  assumes "contents i t = contents i s" and "position t = position s"
  shows "view i t = view i s"
  using assms by (simp add: view_def fun_eq_iff)

lemma view_updateI:
  assumes "contents i t = (contents i s)(name \<mapsto> bs)" and "position t = (position s)(name := k)"
  shows "view i t = (view i s)(name \<mapsto> (bs, k))"
  using assms by (simp add: view_def fun_eq_iff)

lemma contents_slot:
  assumes "store_ok f i s" and "contents i s name = Some bs"
  obtains x where "root_names i s name = Some x" and "slot_ok f s x" and "bs = file_bytes (cache_content s) (file_at s x)"
  using assms disk_okD(1) [OF store_okD(2) [OF assms(1)]] by (auto simp: contents_def)

section \<open>Entries of the table\<close>

text \<open>The object and the inode of an open file belong to it alone.\<close>

lemma open_entryE:
  assumes "store_ok f i s" and "map_of (file_table s) (in_root name) = Some a" and "root_names i s name = Some x"
  obtains p pos where "files s a = Some \<lparr>file_inode = p, file_pos = pos, deny_write = False\<rparr>" and "inodes s p = Some (inode_of s x)"
    and "p \<in> set (open_inodes s)" and "\<not> is_free_map_inode p s" and "position s name = pos"
  using table_okD(3) [OF store_okD(3) [OF assms(1)] assms(2)] assms(2,3)
  by (auto simp: open_entry_def position_def get_file_by_fname_def)

lemma same_entry:
  assumes "disk_ok f i s" and "open_entry i s m y b" and "open_entry i s n x a"
    and "map_option file_inode (files s b) = map_option file_inode (files s a)"
  shows "m = n"
proof -
  have "inode_of s y = inode_of s x" using assms(2-4) by (auto simp: open_entry_def)
  then have "y = x" by (rule inode_of_inj)
  then show ?thesis using assms(2,3) root_names_inj [OF assms(1), of m y n] by (simp add: open_entry_def)
qed

lemma other_entry:
  assumes "store_ok f i s" and "map_of (file_table s) (in_root name) = Some a" and "map_of (file_table s) (in_root m) = Some b" and "m \<noteq> name"
  shows "map_option file_inode (files s b) \<noteq> map_option file_inode (files s a)" and "b \<noteq> a"
proof -
  note d = store_okD [OF assms(1)]
  obtain x y where e: "open_entry i s m y b" "open_entry i s name x a"
    using table_okD(3) [OF d(3) assms(2)] table_okD(3) [OF d(3) assms(3)] by auto
  show "map_option file_inode (files s b) \<noteq> map_option file_inode (files s a)" using same_entry [OF d(2) e] assms(4) by blast
  then show "b \<noteq> a" by blast
qed

lemma fm_inode_update:
  assumes "free_map_file t = free_map_file s"
    and "\<And>b. free_map_file s = Some b \<Longrightarrow> map_option file_inode (files t b) = map_option file_inode (files s b)"
  shows "is_free_map_inode p t = is_free_map_inode p s"
  using assms by (auto simp: is_free_map_inode_def split: option.splits)

lemma fm_file_other:
  assumes "\<not> is_free_map_inode p s" and "free_map_file s = Some b" and "files s a = Some fl" and "file_inode fl = p"
  shows "b \<noteq> a"
  using assms by (auto simp: is_free_map_inode_def)

text \<open>
  One step of the abstract view on an open file: its content may change, and the position does.
\<close>

lemma store_update:
  assumes "store_ok f i s" and "map_of (file_table s) (in_root name) = Some a" and "root_names i s name = Some x"
    and "files s a = Some \<lparr>file_inode = p, file_pos = pos, deny_write = False\<rparr>" and "takes f s W X t"
    and "W \<subseteq> extent s x" and "extent t x \<subseteq> X \<union> extent s x" and "slot_ok f t x"
    and "cache_content u = cache_content t" and "cache_valid u = cache_valid t" and "cache_inv u = cache_inv t" and "free_map u = free_map t"
    and "files u = (files s)(a \<mapsto> \<lparr>file_inode = p, file_pos = k, deny_write = False\<rparr>)" and "inodes u = (inodes s)(p \<mapsto> inode_of t x)"
    and "open_inodes u = open_inodes s" and "dirs u = dirs s" and "next_addr u = next_addr s" and "cwd u = cwd s"
    and "file_table u = file_table s" and "free_map_file u = free_map_file s"
  shows "store_ok f i u" and "view i u = (view i s)(name \<mapsto> (file_bytes (cache_content t) (file_at t x), k))" and "free_count u = free_count t"
    and "map_of (file_table u) (in_root name) = Some a" and "root_names i u name = Some x"
proof -
  note d = store_okD [OF assms(1)] and tf = takes_fields [OF assms(5)] and o = disk_okD [OF store_okD(2) [OF assms(1)]]
  note rd = rest_okD [OF d(1)]
  have p: "inodes s p = Some (inode_of s x)" "\<not> is_free_map_inode p s" "p \<in> set (open_inodes s)"
    using open_entryE [OF assms(1-3)] assms(4) by auto
  have Wr: "W \<inter> extent s ROOT_DIR_SECTOR = {}" using assms(6) o(2) [OF assms(3)] by blast
  have t: "t\<lparr>next_addr := next_addr s\<rparr> = t" using tf(4) by (cases t) simp
  note rest = rest_takes [OF d(1) assms(5) Wr order_refl, unfolded t]
  have names: "root_names i t = (root_names i s)(name \<mapsto> x)" using rest(2) assms(3) by (auto simp: root_names_def)
  have E: "extent s x = (case root_names i s name of None \<Rightarrow> {} | Some y \<Rightarrow> extent s y)" using assms(3) by simp
  have W: "W \<subseteq> extent s ROOT_DIR_SECTOR \<union> extent s x" using assms(6) by blast
  note st = disk_step [OF d(1,2) assms(5) rest(3) names W assms(7,8) E]
  note c = disk_cong [OF assms(9,12)]
  have fm: "is_free_map_inode q u = is_free_map_inode q s" for q
    by (rule fm_inode_update) (use assms(4,13,20) in auto)
  have al: "alloc_ok f u"
  proof (rule alloc_ok_except [OF takesD(1) [OF assms(5)], where a = a and p = p])
    show "\<not> is_free_map_inode p t" using p(2) takes_inodes(2) [OF assms(5)] by simp
  qed (use assms tf in simp_all)
  have entry: "open_entry i u name x a"
    unfolding open_entry_def using names p(3) fm p(2) assms(13-15) c(4,8) by simp
  have other: "open_entry i u m y b" if "map_of (file_table s) (in_root m) = Some b" "m \<noteq> name" "open_entry i s m y b" for m y b
  proof -
    note ne = other_entry [OF assms(1,2) that(1,2)]
    have y: "root_names i s m = Some y" using that(3) by (simp add: open_entry_def)
    have "inode_of u y = inode_of s y" using st(3) [OF y that(2)] c(8) by (simp add: inode_of_def)
    then show ?thesis
      using that(3) ne assms(4,13-15) names that(2) c(4) fm by (auto simp: open_entry_def)
  qed
  have "table_ok i u"
    unfolding table_ok_def
  proof (intro conjI allI impI ballI)
    show "distinct (map fst (file_table u))" "distinct (open_inodes u)" using table_okD(1,2) [OF d(3)] assms(15,19) by simp_all
  next
    fix path b assume b: "map_of (file_table u) path = Some b"
    then obtain m y where m: "path = in_root m" "open_entry i s m y b" using table_okD(3) [OF d(3)] assms(19) by metis
    show "\<exists>name x. path = in_root name \<and> open_entry i u name x b"
    proof (cases "m = name")
      case True
      then show ?thesis using b m(1) assms(2,19) entry by auto
    next
      case False
      then show ?thesis using other [OF _ False m(2)] b m(1) assms(19) by auto
    qed
  next
    fix q assume q: "q \<in> set (open_inodes u)"
    then obtain j where j: "inodes s q = Some j" "sector_no j = 0 \<or> (\<exists>path b. map_of (file_table s) path = Some b \<and> map_option file_inode (files s b) = Some q)"
      using table_okD(4) [OF d(3)] assms(15) by metis
    show "\<exists>j. inodes u q = Some j \<and> (sector_no j = 0 \<or> (\<exists>path b. map_of (file_table u) path = Some b \<and> map_option file_inode (files u b) = Some q))"
    proof (cases "q = p")
      case True
      then show ?thesis using assms(2,13,14,19) by auto
    next
      case False
      moreover have "map_option file_inode (files u b) = map_option file_inode (files s b)" for b using assms(4,13) by simp
      ultimately show ?thesis using j assms(14,19) by simp
    qed
  qed
  then show "store_ok f i u"
    by (rule store_okI [OF rest(1) st(1) assms(9,10,12) al, rotated 2]) (use assms(4,13,14,16-18) p(1) at_restD(1) [OF rd(1)] rd(7-9) in auto)
  have "position u = (position s)(name := k)"
  proof
    fix m show "position u m = ((position s)(name := k)) m"
    proof (cases "m = name")
      case False
      then have "files u b = files s b" if "map_of (file_table s) (in_root m) = Some b" for b using other_entry(2) [OF assms(1,2) that] assms(13) by simp
      then show ?thesis using False assms(19) by (simp add: position_def get_file_by_fname_def split: option.split)
    qed (use assms(2,13,19) in \<open>simp add: position_def get_file_by_fname_def\<close>)
  qed
  moreover have "contents i u = (contents i s)(name \<mapsto> file_bytes (cache_content t) (file_at t x))" using st(2) c(5) by simp
  ultimately show "view i u = (view i s)(name \<mapsto> (file_bytes (cache_content t) (file_at t x), k))" by (rule view_updateI [rotated])
  show "free_count u = free_count t" by (rule c(7))
  show "map_of (file_table u) (in_root name) = Some a" "root_names i u name = Some x" using assms(2,19) names c(4) by simp_all
qed

section \<open>Opening a file by its name\<close>

lemma map_of_snoc: "map_of (es @ [(k, a)]) m = (case map_of es m of None \<Rightarrow> if m = k then Some a else None | Some b \<Rightarrow> Some b)"
  by (induction es) auto

text \<open>The table has a new entry for the file in sector \<open>x\<close>.\<close>

lemma table_ok_opened:
  assumes "store_ok f i s" and "root_names i s name = Some x" and "map_of (file_table s) (in_root name) = None"
    and "root_names i u = root_names i s" and "\<And>m y. root_names i s m = Some y \<Longrightarrow> cache_content u y = cache_content s y"
    and "free_map_file u = free_map_file s" and "inodes s p = None" and "files s a = None"
    and "inodes u = (inodes s)(p \<mapsto> inode_of s x)" and "open_inodes u = p # open_inodes s"
    and "files u = (files s)(a \<mapsto> \<lparr>file_inode = p, file_pos = 0, deny_write = False\<rparr>)" and "file_table u = file_table s @ [(in_root name, a)]"
  shows "table_ok i u"
proof -
  note d = store_okD [OF assms(1)] and al = rest_okD(2) [OF store_okD(1) [OF assms(1)]]
  obtain b fl j where b: "free_map_file s = Some b" "files s b = Some fl" "inodes s (file_inode fl) = Some j"
    using alloc_okD(1) [OF al] by (auto simp: fm_wf_def)
  have ab: "b \<noteq> a" "file_inode fl \<noteq> p" using b(2,3) assms(7,8) by auto
  have fm: "is_free_map_inode q u = is_free_map_inode q s" for q
    by (rule fm_inode_update [OF assms(6)]) (use b(1) ab(1) assms(11) in simp)
  have new: "\<not> is_free_map_inode p u" unfolding fm using b(1,2) ab(2) by (simp add: is_free_map_inode_def)
  have io: "inode_of u y = inode_of s y" if "root_names i s m = Some y" for m y using assms(5) [OF that] by (simp add: inode_of_def)
  have old: "open_entry i u m y c" if "open_entry i s m y c" for m y c
  proof -
    have "c \<noteq> a" using that assms(8) by (auto simp: open_entry_def)
    moreover have "q \<noteq> p" if "inodes s q = Some (inode_of s y)" for q using that assms(7) by auto
    moreover have "root_names i s m = Some y" using that by (simp add: open_entry_def)
    ultimately show ?thesis using that io [of m y] fm assms(4,9-11) by (auto simp: open_entry_def)
  qed
  have entry: "open_entry i u name x a" using assms(2,4,9-11) new io [OF assms(2)] by (simp add: open_entry_def)
  have tab: "map_of (file_table u) path = Some c \<longleftrightarrow> map_of (file_table s) path = Some c \<or> path = in_root name \<and> c = a" for path c
    using assms(3,12) by (auto simp: map_of_snoc simp del: map_of_append split: option.splits if_splits)
  show ?thesis
    unfolding table_ok_def tab
  proof (intro conjI allI impI ballI)
    show "distinct (map fst (file_table u))"
      using table_okD(1) [OF d(3)] assms(3,12) by (auto simp: map_of_eq_None_iff)
    have "p \<notin> set (open_inodes s)" using table_okD(4) [OF d(3)] assms(7) by fastforce
    then show "distinct (open_inodes u)" using table_okD(2) [OF d(3)] assms(10) by simp
  next
    fix path c assume "map_of (file_table s) path = Some c \<or> path = in_root name \<and> c = a"
    then show "\<exists>name x. path = in_root name \<and> open_entry i u name x c"
      using table_okD(3) [OF d(3)] old entry by blast
  next
    fix q assume q: "q \<in> set (open_inodes u)"
    show "\<exists>j. inodes u q = Some j \<and> (sector_no j = 0 \<or> (\<exists>path c. (map_of (file_table s) path = Some c \<or> path = in_root name \<and> c = a) \<and>
        map_option file_inode (files u c) = Some q))"
    proof (cases "q = p")
      case True
      then show ?thesis using assms(9,11) by auto
    next
      case False
      then obtain j where j: "inodes s q = Some j" "sector_no j = 0 \<or> (\<exists>path c. map_of (file_table s) path = Some c \<and> map_option file_inode (files s c) = Some q)"
        using table_okD(4) [OF d(3), of q] q assms(10) by auto
      have "map_option file_inode (files u c) = Some q" if "map_option file_inode (files s c) = Some q" for c
        using that assms(8,11) by auto
      then show ?thesis using j False assms(9) by auto
    qed
  qed
qed

lemma open_new:
  assumes "store_ok f i s" and "path_name name" and "name \<noteq> ''.''" and "name \<noteq> ''..''" and "root_names i s name = Some x"
    and "map_of (file_table s) (in_root name) = None"
  shows "\<exists>a t. filesys_open (in_root name) s = Some (Some a, t) \<and> file_table t = file_table s \<and>
    store_ok f i (t\<lparr>file_table := file_table s @ [(in_root name, a)]\<rparr>) \<and> contents i t = contents i s \<and> free_count t = free_count s \<and>
    root_names i t = root_names i s \<and> files s a = None \<and> (\<exists>p. files t = (files s)(a \<mapsto> \<lparr>file_inode = p, file_pos = 0, deny_write = False\<rparr>))"
proof -
  note d = store_okD [OF assms(1)] and r = rest_okD [OF store_okD(1) [OF assms(1)]] and o = disk_okD [OF store_okD(2) [OF assms(1)]]
  let ?n = "next_addr s"
  have x: "x \<in> used s" "x \<notin> map_file f s" "x \<noteq> 0" "x \<noteq> ROOT_DIR_SECTOR"
    using o(1) [OF assms(5)] not_root [OF d(2) assms(5)] by (simp_all add: slot_ok_def)
  have "root_names i s m \<noteq> Some x" if "map_of (file_table s) (in_root m) = Some a" for m a
    using that assms(6) root_names_inj [OF d(2) assms(5), of m] by auto
  then have "find_open (inodes s) (open_inodes s) x = Some None" by (intro not_open [OF d(2,3) x(3)])
  then obtain z where z: "same_sectors s z" "filesys_open (in_root name) s = Some (Some (?n + 3), opened s x z)"
    using open_by_name [OF d(1) assms(2-4) assms(5) [unfolded root_names_def] x(1,2,4)] by blast
  let ?t = "opened s x z" let ?u = "?t\<lparr>file_table := file_table s @ [(in_root name, ?n + 3)]\<rparr>" and ?z = "z\<lparr>next_addr := ?n + 4\<rparr>"
  note tz = takes_same [OF r(2) z(1)] and m = more_fields [OF same_sectorsD(4) [OF z(1)]]
  note ds = disk_same [OF d(1,2) tz] and rest = rest_takes(1) [OF d(1) tz Int_empty_left, of "?n + 4"]
  have t: "cache_content ?t = cache_content z" "free_map ?t = free_map z" and u: "cache_content ?u = cache_content z" "free_map ?u = free_map z"
    by (simp_all add: opened_def)
  note c = disk_cong [OF t] and cu = disk_cong [OF u]
  have f: "inodes s (?n + 2) = None" "files s (?n + 3) = None" using r(7,9) by simp_all
  have tab: "table_ok i ?u"
  proof (rule table_ok_opened [OF assms(1,5,6)])
    show "root_names i ?u = root_names i s" using cu(4) ds(3) by simp
    show "cache_content ?u y = cache_content s y" if "root_names i s m = Some y" for m y using ds(4) [OF that] u(1) by simp
  qed (use f m in \<open>simp_all add: opened_def\<close>)
  have al: "alloc_ok f ?u"
    by (rule alloc_ok_objects [OF r(2) takesD(1) [OF tz]]) (use f m in \<open>auto simp: opened_def\<close>)
  have "store_ok f i ?u"
    by (rule store_okI [where t = ?z, OF _ _ _ _ _ al _ _ tab]) (use rest ds(1) r(7-9) m in \<open>simp_all add: opened_def\<close>)
  moreover have "contents i ?t = contents i s" "root_names i ?t = root_names i s" "free_count ?t = free_count s"
    using c(4,5,7) ds(2,3) takes_free_count [OF tz] by simp_all
  moreover have "file_table ?t = file_table s" "files ?t = (files s)(?n + 3 \<mapsto> \<lparr>file_inode = ?n + 2, file_pos = 0, deny_write = False\<rparr>)"
    using m by (simp_all add: opened_def)
  ultimately show ?thesis using z(2) f(2) by blast
qed

text \<open>The prologue of the commands, for a file that is open and for one that is not.\<close>

lemma file_by_name_ok:
  assumes "store_ok f i s" and "path_name name" and "name \<noteq> ''.''" and "name \<noteq> ''..''" and "root_names i s name = Some x"
  obtains a t where "file_by_name (in_root name) s = Some (Some a, t)" and "store_ok f i t" and "view i t = view i s"
    and "free_count t = free_count s" and "root_names i t name = Some x" and "map_of (file_table t) (in_root name) = Some a"
proof (cases "map_of (file_table s) (in_root name)")
  case (Some a)
  then have "file_by_name (in_root name) s = Some (Some a, s)" by (simp add: file_by_name_def get_file_by_fname_def)
  then show thesis by (rule that [OF _ assms(1) refl refl assms(5) Some])
next
  case None
  obtain a t p where t: "filesys_open (in_root name) s = Some (Some a, t)" "file_table t = file_table s"
    "store_ok f i (t\<lparr>file_table := file_table s @ [(in_root name, a)]\<rparr>)" "contents i t = contents i s" "free_count t = free_count s"
    "root_names i t = root_names i s" "files s a = None" "files t = (files s)(a \<mapsto> \<lparr>file_inode = p, file_pos = 0, deny_write = False\<rparr>)"
    using open_new [OF assms None] by blast
  let ?u = "t\<lparr>file_table := file_table s @ [(in_root name, a)]\<rparr>"
  have c: "cache_content ?u = cache_content t" "free_map ?u = free_map t" by simp_all
  note c = disk_cong [OF c]
  have "file_by_name (in_root name) s = Some (Some a, ?u)"
    using None t(1,2) by (simp add: file_by_name_def get_file_by_fname_def add_to_file_table_def)
  moreover have "position ?u m = position s m" for m
  proof -
    have "b \<noteq> a" if "map_of (file_table s) (in_root m) = Some b" for b
      using table_okD(3) [OF store_okD(3) [OF assms(1)] that] t(7) by (auto simp: open_entry_def)
    then show ?thesis using None t(8) by (auto simp: position_def get_file_by_fname_def map_of_snoc simp del: map_of_append split: option.split if_splits)
  qed
  then have "view i ?u = view i s" using c(5) t(4) by (intro view_eqI) auto
  moreover have "free_count ?u = free_count s" "root_names i ?u name = Some x" using c(4,7) t(5,6) assms(5) by simp_all
  moreover have "map_of (file_table ?u) (in_root name) = Some a" using None by (simp add: map_of_snoc del: map_of_append)
  ultimately show thesis by (intro that [OF _ t(3)])
qed

text \<open>Reading and seeking move the position only.\<close>

lemma store_moved:
  assumes "store_ok f i s" and "map_of (file_table s) (in_root name) = Some a" and "root_names i s name = Some x"
    and "files s a = Some \<lparr>file_inode = p, file_pos = pos, deny_write = False\<rparr>" and "takes f s {} {} t" and "view i s name = Some (bs, pos)"
    and "cache_content u = cache_content t" and "cache_valid u = cache_valid t" and "cache_inv u = cache_inv t" and "free_map u = free_map t"
    and "files u = (files s)(a \<mapsto> \<lparr>file_inode = p, file_pos = k, deny_write = False\<rparr>)" and "inodes u = inodes s"
    and "open_inodes u = open_inodes s" and "dirs u = dirs s" and "next_addr u = next_addr s" and "cwd u = cwd s"
    and "file_table u = file_table s" and "free_map_file u = free_map_file s"
  shows "store_ok f i u" and "view i u = (view i s)(name \<mapsto> (bs, k))" and "free_count u = free_count s"
proof -
  note d = store_okD [OF assms(1)]
  have x: "slot_ok f s x" by (rule disk_okD(1) [OF d(2) assms(3)])
  note sl = slot_takes [OF x assms(5) Int_empty_left]
  have ext: "extent t x \<subseteq> {} \<union> extent s x" using sl(2) by simp
  have "cache_content t x = cache_content s x" by (rule slot_content [OF x assms(5) Int_empty_left])
  then have "inodes s p = Some (inode_of t x)" using open_entryE [OF assms(1-3)] assms(4) by (auto simp: inode_of_def)
  then have ino: "inodes u = (inodes s)(p \<mapsto> inode_of t x)" using assms(12) by (simp add: fun_upd_idem)
  note st = store_update [OF assms(1-5) empty_subsetI ext sl(1) assms(7-11) ino assms(13-18)]
  show "store_ok f i u" by (rule st(1))
  have "file_bytes (cache_content t) (file_at t x) = bs" using sl(3) assms(3,6) by (simp add: view_Some contents_def)
  then show "view i u = (view i s)(name \<mapsto> (bs, k))" using st(2) by simp
  show "free_count u = free_count s" using st(3) takes_free_count [OF assms(5)] by simp
qed

section \<open>The commands on an open file\<close>

text \<open>How many sectors a write that ends at \<open>stop\<close> adds.\<close>

definition sectors_added :: "u8 list \<Rightarrow> int \<Rightarrow> nat" where
  "sectors_added old stop = sectors_for (bytes_to_sectors stop) - sectors_for (bytes_to_sectors (int (length old)))"

text \<open>What is stored by \<open>file_write\<close>, which ends the buffer with a null character.\<close>

definition terminated :: "u8 list \<Rightarrow> int \<Rightarrow> u8 list" where
  "terminated buf sz = (take (nat sz) buf)[nat (sz - 1) := 0]"

lemma fsutil_seek_ok:
  assumes "store_ok f i s" and "path_name name" and "name \<noteq> ''.''" and "name \<noteq> ''..''" and "view i s name = Some (bs, k)" and "0 \<le> ofs"
  shows "\<exists>t. fsutil_seek (in_root name) ofs s = Some (0, t) \<and> store_ok f i t \<and> view i t = (view i s)(name \<mapsto> (bs, ofs)) \<and>
    free_count t = free_count s"
proof -
  have "contents i s name = Some bs" using assms(5) by (simp add: view_Some)
  then obtain x where x: "root_names i s name = Some x" by (rule contents_slot [OF assms(1)])
  obtain a t where t: "file_by_name (in_root name) s = Some (Some a, t)" "store_ok f i t" "view i t = view i s"
    "free_count t = free_count s" "root_names i t name = Some x" "map_of (file_table t) (in_root name) = Some a"
    by (rule file_by_name_ok [OF assms(1-4) x])
  obtain p pos where e: "files t a = Some \<lparr>file_inode = p, file_pos = pos, deny_write = False\<rparr>" "position t name = pos"
    by (rule open_entryE [OF t(2,6,5)])
  have "view i t name = Some (bs, k)" using assms(5) t(3) by simp
  then have v: "view i t name = Some (bs, pos)" using e(2) by (simp add: view_Some)
  let ?u = "t\<lparr>files := (files t)(a \<mapsto> \<lparr>file_inode = p, file_pos = ofs, deny_write = False\<rparr>)\<rparr>"
  note st = store_moved [OF t(2,6,5) e(1) takes_refl [OF rest_okD(2) [OF store_okD(1) [OF t(2)]]] v, of ?u ofs]
  have "?u\<lparr>panics := panics t\<rparr> = ?u" by (cases t) simp
  then have "file_seek a ofs t = Some ?u" using e(1) assms(6) by (simp add: file_seek_def)
  then have "fsutil_seek (in_root name) ofs s = Some (0, ?u)" using t(1) by (simp add: fsutil_seek_def)
  then show ?thesis using st t(3,4) by simp
qed

lemma fsutil_size_ok:
  assumes "store_ok f i s" and "path_name name" and "name \<noteq> ''.''" and "name \<noteq> ''..''" and "view i s name = Some (bs, k)" and "0 \<le> k"
  shows "\<exists>t. fsutil_size (in_root name) s = Some (int (length bs), t) \<and> store_ok f i t \<and> view i t = view i s \<and> free_count t = free_count s"
proof -
  have "contents i s name = Some bs" using assms(5) by (simp add: view_Some)
  then obtain x where x: "root_names i s name = Some x" by (rule contents_slot [OF assms(1)])
  obtain a t where t: "file_by_name (in_root name) s = Some (Some a, t)" "store_ok f i t" "view i t = view i s"
    "free_count t = free_count s" "root_names i t name = Some x" "map_of (file_table t) (in_root name) = Some a"
    by (rule file_by_name_ok [OF assms(1-4) x])
  have v: "view i t name = Some (bs, k)" using assms(5) t(3) by simp
  then have p: "position t name = k" by (simp add: view_Some)
  obtain p where e: "files t a = Some \<lparr>file_inode = p, file_pos = k, deny_write = False\<rparr>" "inodes t p = Some (inode_of t x)"
    by (rule open_entryE [OF t(2,6,5)]) (use p in simp)
  let ?u = "t\<lparr>files := (files t)(a \<mapsto> \<lparr>file_inode = p, file_pos = k, deny_write = False\<rparr>)\<rparr>"
  note st = store_moved [OF t(2,6,5) e(1) takes_refl [OF rest_okD(2) [OF store_okD(1) [OF t(2)]]] v, of ?u k]
  have "?u\<lparr>panics := panics t\<rparr> = ?u" by (cases t) simp
  then have "file_seek a k t = Some ?u" using e(1) assms(6) by (simp add: file_seek_def)
  moreover have "slot_ok f t x" "bs = file_bytes (cache_content t) (file_at t x)"
    using disk_okD(1) [OF store_okD(2) [OF t(2)] t(5)] v t(5) by (auto simp: view_Some contents_def)
  then have "file_length a t = Some (int (length bs))"
    using e by (simp add: file_length_def inode_length_def inode_of_def file_at_def slot_ok_def file_wf_def)
  ultimately have "fsutil_size (in_root name) s = Some (int (length bs), ?u)"
    using t(1) e(1) by (simp add: fsutil_size_def file_tell_def)
  moreover have "(view i t)(name \<mapsto> (bs, k)) = view i s" using v t(3) by (simp add: fun_upd_idem)
  ultimately show ?thesis using st t(4) by simp
qed

lemma fsutil_read_ok:
  assumes "store_ok f i s" and "path_name name" and "name \<noteq> ''.''" and "name \<noteq> ''..''" and "view i s name = Some (bs, k)" and "0 \<le> k"
  shows "\<exists>t. fsutil_read (in_root name) sz s = Some (Some (take (nat sz) (drop (nat k) bs)), t) \<and> store_ok f i t \<and>
    view i t = (view i s)(name \<mapsto> (bs, k + int (length (take (nat sz) (drop (nat k) bs))))) \<and> free_count t = free_count s"
proof -
  let ?out = "take (nat sz) (drop (nat k) bs)"
  have "contents i s name = Some bs" using assms(5) by (simp add: view_Some)
  then obtain x where x: "root_names i s name = Some x" by (rule contents_slot [OF assms(1)])
  obtain a t where t: "file_by_name (in_root name) s = Some (Some a, t)" "store_ok f i t" "view i t = view i s"
    "free_count t = free_count s" "root_names i t name = Some x" "map_of (file_table t) (in_root name) = Some a"
    by (rule file_by_name_ok [OF assms(1-4) x])
  have v: "view i t name = Some (bs, k)" using assms(5) t(3) by simp
  then have p: "position t name = k" by (simp add: view_Some)
  obtain p where e: "files t a = Some \<lparr>file_inode = p, file_pos = k, deny_write = False\<rparr>" "inodes t p = Some (inode_of t x)"
    by (rule open_entryE [OF t(2,6,5)]) (use p in simp)
  have al: "alloc_ok f t" by (rule rest_okD(2) [OF store_okD(1) [OF t(2)]])
  have "slot_ok f t x" "bs = file_bytes (cache_content t) (idata (inode_of t x))"
    using disk_okD(1) [OF store_okD(2) [OF t(2)] t(5)] v t(5) by (auto simp: view_Some contents_def inode_of_def file_at_def)
  moreover from this have "inode_wf (cache_valid t) (cache_content t) (idata (inode_of t x))"
    using file_wfD(1) [OF _ al] by (simp add: slot_ok_def inode_of_def file_at_def)
  ultimately obtain w where w: "inode_read_at p sz k t = Some (?out, w)" "same_sectors t w"
    using inode_read_at_ok [OF e(2) alloc_okD(4) [OF al] _ assms(6)] by blast
  let ?u = "w\<lparr>files := (files t)(a \<mapsto> \<lparr>file_inode = p, file_pos = k + int (length ?out), deny_write = False\<rparr>)\<rparr>"
  note m = more_fields [OF same_sectorsD(4) [OF w(2)]]
  note st = store_moved [OF t(2,6,5) e(1) takes_same [OF al w(2)] v, of ?u "k + int (length ?out)"]
  have "fsutil_read (in_root name) sz s = Some (Some ?out, ?u)"
    using t(1) e(1) w(1) m(3) by (simp add: fsutil_read_def file_read_def)
  then show ?thesis using st m t(3,4) by simp
qed

lemma open_file_entry:
  assumes "store_ok f i s" and "root_names i s name = Some x" and "inodes s p = Some (inode_of s x)" and "\<not> is_free_map_inode p s"
  shows "open_file f s p (inode_of s x)"
  using disk_okD(1) [OF store_okD(2) [OF assms(1)] assms(2)] assms(3,4)
  by (simp add: open_file_def slot_ok_def inode_of_def file_at_def)

lemma fsutil_write_ok:
  assumes "store_ok f i s" and "path_name name" and "name \<noteq> ''.''" and "name \<noteq> ''..''" and "view i s name = Some (old, k)"
    and "0 \<le> k" and "0 < sz" and "nat sz \<le> length buf" and "k + sz < 2 ^ 31" and "bytes_to_sectors (k + sz) \<le> MAX_BLOCKS"
    and "sectors_added old (k + sz) \<le> free_count s"
  shows "\<exists>t. fsutil_write (in_root name) buf sz s = Some ((sz, buf[nat (sz - 1) := 0]), t) \<and> store_ok f i t \<and>
    view i t = (view i s)(name \<mapsto> (overwrite (pad_to (nat (k + sz)) old) (nat k) (terminated buf sz), k + sz - 2)) \<and>
    free_count t + sectors_added old (k + sz) = free_count s"
proof -
  let ?b = "buf[nat (sz - 1) := 0]"
  have "contents i s name = Some old" using assms(5) by (simp add: view_Some)
  then obtain x where x: "root_names i s name = Some x" by (rule contents_slot [OF assms(1)])
  obtain a t where t: "file_by_name (in_root name) s = Some (Some a, t)" "store_ok f i t" "view i t = view i s"
    "free_count t = free_count s" "root_names i t name = Some x" "map_of (file_table t) (in_root name) = Some a"
    by (rule file_by_name_ok [OF assms(1-4) x])
  have v: "view i t name = Some (old, k)" using assms(5) t(3) by simp
  then have pos: "position t name = k" by (simp add: view_Some)
  obtain p where e: "files t a = Some \<lparr>file_inode = p, file_pos = k, deny_write = False\<rparr>" "inodes t p = Some (inode_of t x)" "\<not> is_free_map_inode p t"
    by (rule open_entryE [OF t(2,6,5)]) (use pos in simp)
  note rt = rest_okD [OF store_okD(1) [OF t(2)]]
  have sl: "slot_ok f t x" and bytes: "old = file_bytes (cache_content t) (file_at t x)"
    using disk_okD(1) [OF store_okD(2) [OF t(2)] t(5)] v t(5) by (auto simp: view_Some contents_def)
  have io: "idata (inode_of t x) = file_at t x" "sector_no (inode_of t x) = x" "deny_write_cnt (inode_of t x) = 0"
    by (simp_all add: inode_of_def file_at_def)
  have len: "int (length old) = data_length (file_at t x)" using sl bytes by (simp add: slot_ok_def file_wf_def)
  note of = open_file_entry [OF t(2,5) e(2,3)]
  have "nat sz \<le> length ?b" using assms(8) by simp
  moreover have "sectors_for (bytes_to_sectors (k + sz)) - sectors_for (num_blocks (idata (inode_of t x))) \<le> free_count t"
    using assms(11) len io(1) t(4) by (simp add: sectors_added_def)
  ultimately have "\<exists>d Y w. inode_write_at p ?b sz k t = Some (sz, w) \<and>
      takes f (set_idata p d t) (insert (sector_no (inode_of t x)) (file_sectors_of t (idata (inode_of t x)))) Y w \<and>
      open_file f w p ((inode_of t x)\<lparr>idata := d\<rparr>) \<and> data_length d = max (data_length (idata (inode_of t x))) (k + sz) \<and>
      is_dir d = is_dir (idata (inode_of t x)) \<and> file_bytes (cache_content w) d =
        overwrite (pad_to (nat (k + sz)) (file_bytes (cache_content t) (idata (inode_of t x)))) (nat k) (take (nat sz) ?b) \<and>
      file_sectors_of w d \<subseteq> file_sectors_of t (idata (inode_of t x)) \<union> Y \<and>
      free_count w + (sectors_for (bytes_to_sectors (k + sz)) - sectors_for (num_blocks (idata (inode_of t x)))) = free_count t"
    by (intro inode_write_at_grows [OF rt(2) of io(3) assms(6,7) _ assms(9,10)])
  then obtain d Y w where w: "inode_write_at p ?b sz k t = Some (sz, w)" "takes f (set_idata p d t) (extent t x) Y w"
    "open_file f w p ((inode_of t x)\<lparr>idata := d\<rparr>)" "is_dir d = is_dir (file_at t x)"
    "file_bytes (cache_content w) d = overwrite (pad_to (nat (k + sz)) old) (nat k) (take (nat sz) ?b)"
    "file_sectors_of w d \<subseteq> file_sectors_of t (file_at t x) \<union> Y" "free_count w + sectors_added old (k + sz) = free_count t"
    unfolding io extent_def sectors_added_def len bytes [symmetric] by blast
  note wf = takes_fields [OF w(2)]
  let ?z = "w\<lparr>inodes := inodes t\<rparr>"
  let ?u = "w\<lparr>files := (files w)(a \<mapsto> \<lparr>file_inode = p, file_pos = k + sz - 2, deny_write = False\<rparr>)\<rparr>"
  have z: "takes f t (extent t x) Y ?z"
    by (rule takes_objects [OF takes_refl [OF rt(2)] w(2)], simp_all add: set_idata_def)
       (rule more_eqI; use wf in \<open>simp add: set_idata_def\<close>)
  have cz: "cache_content ?z = cache_content w" "used ?z = used w" by (simp_all add: used_def)
  have "file_at w x = d" using w(3) by (simp add: open_file_def file_at_def inode_of_def)
  then have fx: "file_at ?z x = d" by (simp add: file_at_def)
  have "slot_ok f ?z x"
    using w(3,4) fx sl file_wf_cong(1,2) [OF cz] cz by (simp add: open_file_def slot_ok_def inode_of_def map_file_def)
  moreover have "extent ?z x \<subseteq> Y \<union> extent t x" using w(6) fx file_wf_cong(2) [OF cz] by (auto simp: extent_def)
  moreover have "inodes ?u = (inodes t)(p \<mapsto> inode_of ?z x)"
  proof -
    have "idata (inode_of ?z x) = d" using fx by (simp add: inode_of_def file_at_def)
    then have "inode_of ?z x = (inode_of t x)\<lparr>idata := d\<rparr>" by (simp add: inode_of_def)
    then show ?thesis using wf(1) e(2) by (simp add: set_idata_def)
  qed
  ultimately have st: "store_ok f i ?u" "view i ?u = (view i t)(name \<mapsto> (file_bytes (cache_content ?z) (file_at ?z x), k + sz - 2))"
      "free_count ?u = free_count ?z"
    using store_update [OF t(2,6,5) e(1) z subset_refl, of ?u "k + sz - 2"] wf by (simp_all add: set_idata_def)
  have "file_bytes (cache_content ?z) (file_at ?z x) = overwrite (pad_to (nat (k + sz)) old) (nat k) (terminated buf sz)"
    using w(5) fx by (simp add: terminated_def take_update_swap)
  moreover have "free_count ?z = free_count w" by (rule disk_cong) simp_all
  moreover have "fsutil_write (in_root name) buf sz s = Some ((sz, ?b), ?u)"
    using t(1) e(1) w(1) wf(3) assms(7,8) by (simp add: fsutil_write_def file_write_def Let_def set_idata_def algebra_simps)
  ultimately show ?thesis using st w(7) t(3,4) by simp
qed

section \<open>Closing a file\<close>

text \<open>The entry of the table goes, with the file object and the inode in memory.\<close>

lemma table_ok_closed:
  assumes "store_ok f i s" and "map_of (file_table s) (in_root name) = Some a" and "files s a = Some \<lparr>file_inode = p, file_pos = pos, deny_write = False\<rparr>"
    and "take_entry (file_table s) (in_root name) = Some (a, es)" and "\<not> is_free_map_inode p s"
    and "u = s\<lparr>inodes := (inodes s)(p := None), open_inodes := remove1 p (open_inodes s), files := (files s)(a := None), file_table := es\<rparr>"
  shows "table_ok i u"
proof -
  note d = store_okD [OF assms(1)]
  note tab = take_entry_Some [OF assms(4) table_okD(1) [OF d(3)]]
  have u: "inodes u = (inodes s)(p := None)" "open_inodes u = remove1 p (open_inodes s)" "files u = (files s)(a := None)" "file_table u = es"
    "free_map_file u = free_map_file s" "cache_content u = cache_content s" "free_map u = free_map s" by (simp_all add: assms(6))
  note c = disk_cong [OF u(6,7)]
  have fm: "is_free_map_inode q u = is_free_map_inode q s" for q
  proof (rule fm_inode_update [OF u(5)])
    fix b assume "free_map_file s = Some b"
    from fm_file_other [OF assms(5) this assms(3)] have "b \<noteq> a" by simp
    then show "map_option file_inode (files u b) = map_option file_inode (files s b)" by (simp add: u(3))
  qed
  have mem: "q \<in> set (open_inodes u) \<longleftrightarrow> q \<in> set (open_inodes s) \<and> q \<noteq> p" for q using table_okD(2) [OF d(3)] by (simp add: u(2))
  have rest: "path \<noteq> in_root name \<and> map_of (file_table s) path = Some b" if "map_of (file_table u) path = Some b" for path b
    using that tab u(4) by (auto split: if_splits)
  have old: "open_entry i u m y b" if e: "open_entry i s m y b" "map_of (file_table s) (in_root m) = Some b" "m \<noteq> name" for m y b
  proof -
    note ne = other_entry [OF assms(1,2) e(2,3)]
    obtain q k where q: "files s b = Some \<lparr>file_inode = q, file_pos = k, deny_write = False\<rparr>" "inodes s q = Some (inode_of s y)"
      "q \<in> set (open_inodes s)" "\<not> is_free_map_inode q s" using e(1) by (auto simp: open_entry_def)
    then have "q \<noteq> p" using ne(1) assms(3) by simp
    then show ?thesis using q e(1) ne(2) c(4,8) fm mem by (simp add: open_entry_def u(1,3))
  qed
  show ?thesis
    unfolding table_ok_def
  proof (intro conjI allI impI ballI)
    show "distinct (map fst (file_table u))" "distinct (open_inodes u)" using tab table_okD(2) [OF d(3)] u(2,4) by simp_all
  next
    fix path b assume "map_of (file_table u) path = Some b"
    note b = rest [OF this]
    then obtain m y where "path = in_root m" "open_entry i s m y b" using table_okD(3) [OF d(3)] by blast
    then show "\<exists>name x. path = in_root name \<and> open_entry i u name x b" using old [of m y b] b by auto
  next
    fix q assume "q \<in> set (open_inodes u)"
    then have q: "q \<in> set (open_inodes s)" "q \<noteq> p" by (simp_all add: mem)
    from table_okD(4) [OF d(3) q(1)] obtain j where j: "inodes s q = Some j"
      "sector_no j = 0 \<or> (\<exists>path b. map_of (file_table s) path = Some b \<and> map_option file_inode (files s b) = Some q)" by blast
    have "map_of (file_table u) path = Some b \<and> map_option file_inode (files u b) = Some q"
      if b: "map_of (file_table s) path = Some b" "map_option file_inode (files s b) = Some q" for path b
    proof -
      have "b \<noteq> a" using b(2) q(2) assms(3) by auto
      moreover from this have "path \<noteq> in_root name" using b(1) assms(2) by auto
      ultimately show ?thesis using b tab u(3,4) by simp
    qed
    then show "\<exists>j. inodes u q = Some j \<and> (sector_no j = 0 \<or> (\<exists>path b. map_of (file_table u) path = Some b \<and> map_option file_inode (files u b) = Some q))"
      using j q(2) u(1) by (intro exI [of _ j]) (simp, blast)
  qed
qed

lemma close_file:
  assumes "store_ok f i s" and "root_names i s name = Some x"
  shows "\<exists>found t. remove_from_file_table (in_root name) s = Some (found, t) \<and> store_ok f i t \<and> contents i t = contents i s \<and>
    position t = (position s)(name := 0) \<and> free_count t = free_count s \<and> root_names i t = root_names i s \<and>
    map_of (file_table t) (in_root name) = None"
proof (cases "map_of (file_table s) (in_root name)")
  case None
  then have "take_entry (file_table s) (in_root name) = None" by (simp add: take_entry_None map_of_eq_None_iff)
  then have "remove_from_file_table (in_root name) s = Some (False, s)" by (simp add: remove_from_file_table_def)
  moreover have "position s = (position s)(name := 0)" using None by (auto simp: position_def get_file_by_fname_def fun_eq_iff)
  ultimately show ?thesis using assms(1) None by metis
next
  case (Some a)
  note d = store_okD [OF assms(1)]
  obtain p pos where e: "files s a = Some \<lparr>file_inode = p, file_pos = pos, deny_write = False\<rparr>" "inodes s p = Some (inode_of s x)"
    "p \<in> set (open_inodes s)" "\<not> is_free_map_inode p s" "position s name = pos" by (rule open_entryE [OF assms(1) Some assms(2)])
  have "in_root name \<in> fst ` set (file_table s)" using Some by (metis map_of_eq_None_iff option.distinct(1))
  then obtain b es where es: "take_entry (file_table s) (in_root name) = Some (b, es)"
    using take_entry_None [of "file_table s" "in_root name"] by (cases "take_entry (file_table s) (in_root name)") auto
  note tab = take_entry_Some [OF es table_okD(1) [OF d(3)]]
  have ab: "b = a" using tab Some by simp
  let ?t = "s\<lparr>inodes := (inodes s)(p := None), open_inodes := remove1 p (open_inodes s), files := (files s)(a := None), file_table := es\<rparr>"
  have table: "table_ok i ?t" by (rule table_ok_closed [OF assms(1) Some e(1) es [unfolded ab] e(4) refl])
  note r = rest_okD [OF d(1)]
  have al: "alloc_ok f ?t" by (rule alloc_ok_except [OF r(2) _ _ _ _ _ e(4), where a = a]) (use e(1) in simp_all)
  have st: "store_ok f i ?t"
    by (rule store_okI [OF d(1,2) _ _ _ al _ _ table]) (use r(7-9) at_restD(1) [OF r(1)] in simp_all)
  have "remove_from_file_table (in_root name) s = Some (True, ?t)"
    using es ab e(1,2) by (simp add: remove_from_file_table_def file_close_def file_allow_write_def inode_close_def inode_of_def Let_def)
  moreover note st
  moreover have c: "cache_content ?t = cache_content s" "free_map ?t = free_map s" by simp_all
  note disk_cong(4,5,7) [OF c]
  moreover have "position ?t = (position s)(name := 0)"
  proof
    fix m show "position ?t m = ((position s)(name := 0)) m"
      using tab other_entry(2) [OF assms(1) Some, of m] by (auto simp: position_def get_file_by_fname_def split: option.split)
  qed
  moreover have "map_of (file_table ?t) (in_root name) = None" using tab by simp
  ultimately show ?thesis by blast
qed

end
