(* ===== verification/Fs_Remove.thy ===== *)
theory Fs_Remove
  imports Fs_Open Fs_Release
begin

text \<open>
  Removing a file by its name: the entry of the directory is cleared, and the sectors of the file
  and the one of its inode are given back. In the abstract view the name disappears.
\<close>

section \<open>The other files\<close>

text \<open>The sectors of a file are still in use when others are not.\<close>

lemma extent_shrink:
  assumes "extent_ok f s d n" and "cache_content t = cache_content s" and "used t = used s - X"
    and "X \<inter> (map_set (cache_content s) d \<union> block_map (cache_content s) d ` {..<n}) = {}"
  shows "extent_ok f t d n"
proof -
  let ?e = "doubly_indirect_block d"
  note x = assms(1) [unfolded extent_ok_def]
  have b: "block_ok f t y" if "block_ok f s y" "y \<noteq> 0 \<Longrightarrow> y \<notin> X" for y
    using that assms(2,3) by (auto simp: block_ok_def)
  have m: "y \<notin> X" if "y \<in> map_set (cache_content s) d" for y using that assms(4) by blast
  have tree: "tree_ok f t ?e (n - 251)"
  proof -
    have t: "tree_ok f s ?e (n - 251)" using x by blast
    have e: "block_ok f t ?e" by (rule b) (use t m in \<open>auto simp: tree_ok_def map_set_def tree_map_def\<close>)
    have "rows_ok f t (get_blocks (cache_content t ?e)) (n - 251) {..<128}" if "?e \<noteq> 0"
    proof -
      have r: "rows_ok f s (get_blocks (cache_content s ?e)) (n - 251) {..<128}" using t that by (simp add: tree_ok_def)
      have "block_ok f t (get_blocks (cache_content s ?e) ! j)" if "j < 128" for j
      proof (rule b)
        show "block_ok f s (get_blocks (cache_content s ?e) ! j)" using r that by (simp add: rows_ok_def)
        show "get_blocks (cache_content s ?e) ! j \<notin> X" if "get_blocks (cache_content s ?e) ! j \<noteq> 0"
          using m that \<open>j < 128\<close> \<open>?e \<noteq> 0\<close> by (simp add: map_set_def tree_map_def)
      qed
      then show ?thesis using r assms(2) by (simp add: rows_ok_def)
    qed
    then show ?thesis using t e assms(2) by (simp add: tree_ok_def)
  qed
  have "block_ok f t (indirect_block d)" by (rule b) (use x m in \<open>auto simp: map_set_def\<close>)
  moreover have "block_ok f t (block_map (cache_content s) d k)" if "k < n" for k
    by (rule b) (use x assms(4) that in blast)+
  ultimately show ?thesis using x tree assms(2) by (simp add: extent_ok_def)
qed

text \<open>What \<open>gives\<close> leaves in place.\<close>

lemma gives_takes:
  assumes "gives f s X t"
  shows "takes f s X {} (t\<lparr>free_map := free_map s\<rparr>)"
proof -
  note g = givesD [OF assms]
  have t: "bit_cnt (free_map t) = bit_cnt (free_map s)" "cache_state.more t = cache_state.more (s\<lparr>free_map := free_map t\<rparr>)"
    using assms by (simp_all add: gives_def takes_def)
  have s: "bm_ok (free_map s)" using alloc_okD(1) [OF g(1)] by (simp add: fm_wf_def)
  have f: "fm_wf f (t\<lparr>free_map := free_map s\<rparr>)" by (rule fm_wf_set_map [OF alloc_okD(1) [OF g(2)] s]) (simp add: t(1))
  have u: "used (t\<lparr>free_map := free_map s\<rparr>) = used s" by (simp add: used_def)
  have "alloc_ok f (t\<lparr>free_map := free_map s\<rparr>)"
    using f alloc_okD(2,3) [OF g(1)] g(1,3,6,7) u by (simp add: alloc_ok_def)
  moreover have "cache_state.more (t\<lparr>free_map := free_map s\<rparr>) = cache_state.more s"
    using t(2) by (cases s; cases t) simp
  ultimately show ?thesis using g(1,3,6-8) u unfolding takes_def by simp
qed

lemma extent_gives:
  assumes "extent_ok f s d (num_blocks d)" and "gives f s X t" and "X \<inter> file_sectors_of s d = {}"
  shows "extent_ok f t d (num_blocks d)" and "file_bytes (cache_content t) d = file_bytes (cache_content s) d"
    and "file_sectors_of t d = file_sectors_of s d"
    and "i < 512 * num_blocks d \<Longrightarrow> file_byte (cache_content t) d i = file_byte (cache_content s) d i"
proof -
  let ?z = "t\<lparr>free_map := free_map s\<rparr>"
  note e = extent_same [OF assms(1) gives_takes [OF assms(2)] assms(3)]
  have c: "cache_content ?z = cache_content t" by simp
  show "file_bytes (cache_content t) d = file_bytes (cache_content s) d" using e(3) by simp
  show sec: "file_sectors_of t d = file_sectors_of s d" using e(4) by (simp add: file_sectors_of_def)
  show "i < 512 * num_blocks d \<Longrightarrow> file_byte (cache_content t) d i = file_byte (cache_content s) d i" using e(2) by simp
  have "used t = used ?z - X" using givesD(4) [OF assms(2)] by (simp add: used_def)
  then show "extent_ok f t d (num_blocks d)"
    by (rule extent_shrink [OF e(1) c [symmetric]]) (use assms(3) e(4) in \<open>simp add: file_sectors_of_def\<close>)
qed

lemma file_gives:
  assumes "file_wf f s d" and "gives f s X t" and "X \<inter> file_sectors_of s d = {}"
  shows "file_wf f t d" and "file_bytes (cache_content t) d = file_bytes (cache_content s) d"
    and "file_sectors_of t d = file_sectors_of s d"
  using extent_gives [OF _ assms(2,3)] assms(1) by (simp_all add: file_wf_def)

lemma gives_content:
  assumes "gives f s X t" and "x \<in> used s" and "x \<notin> X" and "x \<notin> map_file f s"
  shows "cache_content t x = cache_content s x"
  using givesD(8) [OF assms(1-3)] assms(4) by (simp add: map_file_def)

lemma slot_gives:
  assumes "slot_ok f s x" and "gives f s X t" and "X \<inter> extent s x = {}"
  shows "slot_ok f t x" and "extent t x = extent s x" and "file_bytes (cache_content t) (file_at t x) = file_bytes (cache_content s) (file_at s x)"
proof -
  have x: "x \<in> used s" "x \<notin> X" "x \<notin> map_file f s" using assms(1,3) by (auto simp: slot_ok_def extent_def)
  have f: "file_at t x = file_at s x" using gives_content [OF assms(2) x] by (simp add: file_at_def)
  have "file_wf f s (file_at s x)" "X \<inter> file_sectors_of s (file_at s x) = {}" using assms(1,3) by (auto simp: slot_ok_def extent_def)
  note t = file_gives [OF this(1) assms(2) this(2)]
  show "slot_ok f t x" using assms(1) t x givesD(4,10) [OF assms(2)] by (simp add: slot_ok_def f)
  show "extent t x = extent s x" using t by (simp add: extent_def f)
  show "file_bytes (cache_content t) (file_at t x) = file_bytes (cache_content s) (file_at s x)" using t by (simp add: f)
qed

lemma gives_fields:
  assumes "gives f s X t"
  shows "inodes t = inodes s" and "open_inodes t = open_inodes s" and "files t = files s" and "next_addr t = next_addr s"
    and "dirs t = dirs s" and "cwd t = cwd s" and "file_table t = file_table s" and "free_map_file t = free_map_file s"
    and "stack_name t = stack_name s" and "console t = console s"
  using takes_fields [OF assms [unfolded gives_def]] by simp_all

lemma rest_gives:
  assumes "rest_ok f i s" and "gives f s X t" and "X \<inter> extent s ROOT_DIR_SECTOR = {}"
  shows "rest_ok f i t" and "bytes_of i t = bytes_of i s" and "extent t ROOT_DIR_SECTOR = extent s ROOT_DIR_SECTOR"
proof -
  note r = rest_okD [OF assms(1)] and a = at_restD [OF rest_okD(1) [OF assms(1)]] and f = gives_fields [OF assms(2)] and g = givesD [OF assms(2)]
  have X: "X \<inter> file_sectors_of s (idata i) = {}" "ROOT_DIR_SECTOR \<notin> X" using assms(3) root_extent(2) [OF assms(1)] by auto
  note e = extent_gives [OF r(3) assms(2) X(1)]
  show b: "bytes_of i t = bytes_of i s" by (rule e(2))
  have c: "cache_content t ROOT_DIR_SECTOR = cache_content s ROOT_DIR_SECTOR" by (rule gives_content [OF assms(2) r(4) X(2) r(5)])
  have wf: "inode_wf (cache_valid t) (cache_content t) (idata i)" "blocks_distinct (cache_content t) (idata i)"
    using extent_wf [OF e(1) g(2)] a(11) by (simp_all add: inode_wf_def)
  have "at_rest i t" unfolding at_rest_def using a wf b c f g(3,9) by simp
  then show "rest_ok f i t" using g(2,4,10) e(1,3) r(4-9) f X(2) by (simp add: rest_ok_def)
  show "extent t ROOT_DIR_SECTOR = extent s ROOT_DIR_SECTOR" using c e(3) root_extent(1) [OF assms(1)] by (simp add: extent_def file_at_def)
qed

text \<open>Objects on the heap do not matter to \<open>gives\<close>, apart from those of the free map.\<close>

lemma gives_objects:
  assumes "gives f a X b" and "alloc_ok f s"
    and "cache_content s = cache_content a" and "cache_valid s = cache_valid a" and "free_map s = free_map a"
    and "cache_inv t = cache_inv b" and "cache_valid t = cache_valid b" and "cache_content t = cache_content b" and "free_map t = free_map b"
    and "cache_state.more (t\<lparr>free_map := free_map s\<rparr>) = cache_state.more s"
  shows "gives f s X t"
proof -
  note m = more_fields [OF assms(10)]
  have t: "alloc_ok f t" by (rule alloc_ok_objects [OF assms(2) givesD(2) [OF assms(1)]]) (use assms(6-9) m in simp_all)
  have "used s = used a" "used t = used b" using assms(5,9) by (simp_all add: used_def)
  moreover have "cache_state.more (s\<lparr>free_map := free_map t\<rparr>) = cache_state.more t"
    using assms(10) by (cases s; cases t) simp
  ultimately show ?thesis using assms(1-5,7-9) t by (simp add: gives_def takes_def)
qed

section \<open>Clearing an entry of a directory\<close>

lemma names_remove:
  assumes "entries_ok es" and "find_from (called name) es 1 = Some k"
  shows "names (es[k := (es ! k)\<lparr>in_use := False\<rparr>]) = (names es)(name := None)"
    and "entries_ok (es[k := (es ! k)\<lparr>in_use := False\<rparr>])"
proof -
  let ?es = "es[k := (es ! k)\<lparr>in_use := False\<rparr>]"
  have k: "1 \<le> k" "k < length es" "in_use (es ! k)" "bytes_name (entry_name (es ! k)) = name"
    using assms(2) by (auto simp: find_from_Some called_def)
  have only: "j = k" if "1 \<le> j" "j < length es" "called name (es ! j)" for j
    using assms(1) k that unfolding entries_ok_def by blast
  show "names ?es = (names es)(name := None)"
  proof
    fix m
    show "names ?es m = ((names es)(name := None)) m"
    proof (cases "m = name")
      case True
      have "\<not> called name (?es ! j)" if "1 \<le> j" "j < length es" for j
        using only [OF that] that by (cases "j = k") (auto simp: called_def)
      then show ?thesis using True by (simp add: names_def find_from_None)
    next
      case False
      then have "\<not> called m (es ! k)" "\<not> called m ((es ! k)\<lparr>in_use := False\<rparr>)" using k(4) by (auto simp: called_def)
      then have f: "find_from (called m) ?es 1 = find_from (called m) es 1" by (intro find_from_update_other k(2))
      have "j \<noteq> k" if "find_from (called m) es 1 = Some j" for j using that \<open>\<not> called m (es ! k)\<close> by (auto simp: find_from_Some)
      then show ?thesis using f False by (cases "find_from (called m) es 1") (simp_all add: names_def)
    qed
  qed
  show "entries_ok ?es"
    using assms(1) k(1,2) unfolding entries_ok_def by (auto simp: nth_list_update called_def)
qed

lemma clear_entry_ok:
  assumes "dir_ok a d i s" and "find_from (called name) (entries_of (bytes_of i s)) 1 = Some k"
  shows "\<exists>t. inode_write_at (dir_inode d) (put_entry ((entries_of (bytes_of i s) ! k)\<lparr>in_use := False\<rparr>)) (int ENTRY_SIZE)
      (int (ENTRY_SIZE * k)) s = Some (int ENTRY_SIZE, t) \<and>
    dir_ok a d i t \<and> names (entries_of (bytes_of i t)) = (names (entries_of (bytes_of i s)))(name := None) \<and> data_written s (idata i) t"
proof -
  let ?es = "entries_of (bytes_of i s)" and ?p = "dir_inode d"
  let ?e = "(?es ! k)\<lparr>in_use := False\<rparr>"
  have o: "dirs s a = Some d" "open_ok ?p i s" "entries_ok ?es" using assms(1) by (simp_all add: dir_ok_def)
  have kb: "k < length (bytes_of i s) div ENTRY_SIZE" using assms(2) by (auto simp: find_from_Some)
  have le: "length (entry_name ?e) = 31" using entry_at_name [OF kb] kb by simp
  have "ENTRY_SIZE * k + ENTRY_SIZE \<le> nat (data_length (idata i))" using kb by (simp only: entry_inside) simp
  then have in_file: "int (ENTRY_SIZE * k) + int ENTRY_SIZE \<le> data_length (idata i)" by linarith
  obtain v where v: "inode_write_at ?p (put_entry ?e) (int ENTRY_SIZE) (int (ENTRY_SIZE * k)) s = Some (int ENTRY_SIZE, v)"
      "data_written s (idata i) v" "bytes_of i v = overwrite (bytes_of i s) (ENTRY_SIZE * k) (put_entry ?e)"
    using inode_write_at_ok [of s ?p i "int (ENTRY_SIZE * k)" "int ENTRY_SIZE" "put_entry ?e"] o(2) in_file
      length_put_entry [OF le] by (auto simp: open_ok_def simp del: of_nat_mult)
  have es: "entries_of (bytes_of i v) = ?es[k := ?e]" using entries_of_overwrite [OF kb le] v(3) by simp
  have "dirs v = dirs s" using v(2) by (intro more_fields) (simp add: data_written_def)
  then have "dir_ok a d i v"
    using open_ok_written [OF o(2) v(2)] o(1) es names_remove(2) [OF o(3) assms(2)] by (simp add: dir_ok_def)
  then show ?thesis using v(1,2) es names_remove(1) [OF o(3) assms(2)] by (intro exI [of _ v]) simp
qed

section \<open>Closing a removed inode\<close>

text \<open>
  The last \<open>inode_close\<close> of an inode that was removed gives back its sector and those of its file.
\<close>

lemma close_removed:
  assumes "inodes s p = Some j" and "open_cnt j = 1" and "removed j"
    and "alloc_ok f (s\<lparr>inodes := (inodes s)(p \<mapsto> j\<lparr>open_cnt := 0\<rparr>), open_inodes := remove1 p (open_inodes s)\<rparr>)"
    and "block_ok f s (sector_no j)" and "sector_no j \<noteq> 0" and "file_wf f s (idata j)" and "sector_no j \<notin> file_sectors_of s (idata j)"
  shows "\<exists>t. inode_close (Some p) s = Some (t\<lparr>inodes := (inodes t)(p := None)\<rparr>) \<and>
    gives f (s\<lparr>inodes := (inodes s)(p \<mapsto> j\<lparr>open_cnt := 0\<rparr>), open_inodes := remove1 p (open_inodes s)\<rparr>)
      (insert (sector_no j) (file_sectors_of s (idata j))) t"
proof -
  let ?s = "s\<lparr>inodes := (inodes s)(p \<mapsto> j\<lparr>open_cnt := 0\<rparr>), open_inodes := remove1 p (open_inodes s)\<rparr>" and ?x = "sector_no j"
  have c: "cache_content ?s = cache_content s" "used ?s = used s" by (simp_all add: used_def)
  have b: "block_ok f ?s ?x" using assms(5) c by (simp add: block_ok_def)
  obtain t where t: "free_map_release ?x 1 ?s = Some t" "gives f ?s {?x} t" using gives_release [OF assms(4) b assms(6)] by blast
  have w: "file_wf f ?s (idata j)" "{?x} \<inter> file_sectors_of ?s (idata j) = {}"
    using assms(7,8) file_wf_cong(1,2) [OF c] by simp_all
  note fl = file_gives [OF w(1) t(2) w(2)]
  obtain u where u: "inode_deallocate (idata j) t = Some (True, u)" "gives f t (file_sectors_of t (idata j)) u"
    using inode_deallocate_ok [OF givesD(2) [OF t(2)] fl(1)] by blast
  have e: "file_sectors_of t (idata j) = file_sectors_of s (idata j)" using fl(3) file_wf_cong(2) [OF c] by simp
  have "gives f ?s ({?x} \<union> file_sectors_of s (idata j)) u" using gives_trans [OF t(2) u(2)] unfolding e .
  moreover have "inode_close (Some p) s = Some (u\<lparr>inodes := (inodes u)(p := None)\<rparr>)"
    using assms(1-3) t(1) u(1) by (simp add: inode_close_def Let_def)
  ultimately show ?thesis by auto
qed

section \<open>Removing a file\<close>

lemma path_root: "dir_open_root s = Some (Some a, t) \<Longrightarrow> dirs t a = Some d \<Longrightarrow> inodes t (dir_inode d) = Some i \<Longrightarrow>
    \<not> removed i \<Longrightarrow> dir_open_path ''/'' s = Some (Some a, t)"
  by (simp add: dir_open_path_def dir_get_inode_def inode_is_removed_def)

text \<open>
  The state while the name is removed: the root directory and the inode of the file are open.
\<close>

abbreviation file_open_in :: "inode \<Rightarrow> fs_state \<Rightarrow> u32 \<Rightarrow> fs_state \<Rightarrow> fs_state" where
  "file_open_in i s x z \<equiv> z\<lparr>next_addr := next_addr s + 3, open_inodes := (next_addr s + 2) # next_addr s # open_inodes s,
     inodes := (inodes s)(next_addr s \<mapsto> i, next_addr s + 2 \<mapsto> inode_of s x)\<rparr>"

abbreviation at_rest_again :: "fs_state \<Rightarrow> fs_state \<Rightarrow> fs_state" where
  "at_rest_again s z \<equiv> z\<lparr>inodes := inodes s, open_inodes := open_inodes s, dirs := dirs s, cwd := None, next_addr := next_addr s\<rparr>"

lemma file_open_in_ok:
  assumes "rest_ok f i s" and "same_sectors s u" and "same_sectors (with_root i s u) z"
    and "dir_ok (Suc (next_addr s)) (root_dir s) i (with_root i s u)" and "bytes_of i (with_root i s u) = bytes_of i s"
  shows "takes f (with_root i s u) {} {} z" and "alloc_ok f (file_open_in i s x z)"
    and "dir_ok (Suc (next_addr s)) (root_dir s) i (file_open_in i s x z)" and "bytes_of i (file_open_in i s x z) = bytes_of i s"
    and "extent_ok f (file_open_in i s x z) (idata i) (num_blocks (idata i))"
    and "file_sectors_of (file_open_in i s x z) (idata i) = file_sectors_of s (idata i)" and "takes f s {} {} (at_rest_again s z)"
    and "dirs z = (dirs s)(Suc (next_addr s) \<mapsto> root_dir s)" and "cwd z = Some (Suc (next_addr s))"
proof -
  note r = rest_okD [OF assms(1)] and mz = more_fields [OF same_sectorsD(4) [OF assms(3)]] and mu = more_fields [OF same_sectorsD(4) [OF assms(2)]]
  let ?n = "next_addr s" and ?w = "with_root i s u" and ?d = "idata i" and ?t = "file_open_in i s x z"
  note tu = takes_same [OF r(2) assms(2)]
  have alw: "alloc_ok f ?w"
    by (rule alloc_ok_objects [OF r(2) takesD(1) [OF tu]]) (use mu r(7) [OF order_refl] in \<open>auto simp: with_root_def\<close>)
  show tz: "takes f ?w {} {} z" by (rule takes_same [OF alw assms(3)])
  have c: "cache_content ?t = cache_content z" "used ?t = used z" by (simp_all add: used_def)
  show "alloc_ok f ?t"
    by (rule alloc_ok_objects [OF r(2) takesD(1) [OF tz]]) (use mz mu r(7) [of ?n] r(7) [of "?n + 2"] in \<open>auto simp: with_root_def\<close>)
  show "dir_ok (Suc ?n) (root_dir s) i ?t" "bytes_of i ?t = bytes_of i s"
    using dir_ok_same [OF assms(4,3)] open_ok_same(2) [of ?n i ?w z, OF _ assms(3)] assms(4,5) by (simp_all add: dir_ok_def open_ok_def)
  have "extent_ok f ?w ?d (num_blocks ?d)" "file_sectors_of ?w ?d = file_sectors_of s ?d"
    using extent_same(1,4) [OF r(3) tu Int_empty_left] file_wf_cong(2,3) [of ?w u] by simp_all
  then show "extent_ok f ?t ?d (num_blocks ?d)" "file_sectors_of ?t ?d = file_sectors_of s ?d"
    using extent_same(1,4) [OF _ tz Int_empty_left] file_wf_cong(2,3) [OF c] by simp_all
  have "cache_state.more (at_rest_again s z) = cache_state.more s"
    by (rule more_eqI) (use mz mu at_restD(1) [OF r(1)] in \<open>simp_all add: with_root_def\<close>)
  then have "same_sectors s (at_rest_again s z)"
    using same_sectorsD [OF assms(3)] same_sectorsD [OF assms(2)] by (simp add: same_sectors_def)
  then show "takes f s {} {} (at_rest_again s z)" by (rule takes_same [OF r(2)])
  show "dirs z = (dirs s)(Suc ?n \<mapsto> root_dir s)" "cwd z = Some (Suc ?n)" using mz by (simp_all add: with_root_def)
qed

text \<open>After the entry was cleared, the root directory could be closed again.\<close>

lemma cleared_rest:
  assumes "rest_ok f i s" and "dir_open_root s = Some (Some (Suc (next_addr s)), with_root i s u)" and "same_sectors s u"
    and "takes f (with_root i s u) {} {} z" and "takes f (file_open_in i s x z) W X v" and "dir_ok (Suc (next_addr s)) (root_dir s) i v"
    and "extent_ok f v (idata i) (num_blocks (idata i))" and "file_sectors_of v (idata i) = file_sectors_of s (idata i)"
    and "ROOT_DIR_SECTOR \<notin> W"
  shows "rest_ok f i (v\<lparr>inodes := inodes s, open_inodes := open_inodes s, dirs := dirs s, cwd := None, next_addr := next_addr s + 2\<rparr>)"
proof -
  note r = rest_okD [OF assms(1)] and zf = takes_fields [OF assms(4)] and vf = takes_fields [OF assms(5)]
  let ?n = "next_addr s" and ?a = "Suc (next_addr s)" and ?d = "idata i"
  let ?v = "v\<lparr>inodes := (inodes s)(?n \<mapsto> i), open_inodes := ?n # open_inodes s, next_addr := ?n + 2\<rparr>"
  have c: "cache_content ?v = cache_content v" "used ?v = used v" by (simp_all add: used_def)
  have t: "takes f (with_root i s u) W X ?v"
    by (rule takes_objects [OF assms(4,5)], simp_all) (rule more_eqI; use vf zf in \<open>simp add: with_root_def\<close>)
  have d: "dir_ok ?a (root_dir s) i ?v" using assms(6) by (simp add: dir_ok_def open_ok_def)
  have e: "extent_ok f ?v ?d (num_blocks ?d)" "file_sectors_of ?v ?d = file_sectors_of s ?d" using assms(7,8) file_wf_cong(2,3) [OF c] by simp_all
  from close_root [OF assms(1,2) takes_same [OF r(2) assms(3)] t d e assms(9)] obtain y where
    y: "dir_close (Some ?a) ?v = Some (y\<lparr>next_addr := ?n + 2\<rparr>)" "rest_ok f i (y\<lparr>next_addr := ?n + 2\<rparr>)" by blast
  have "dir_close (Some ?a) ?v = Some (?v\<lparr>inodes := inodes s, open_inodes := open_inodes s, dirs := dirs s, cwd := None\<rparr>)"
    by (rule dir_close_root [OF r(1)]) (use vf zf in \<open>simp_all add: with_root_def\<close>)
  also have "?v\<lparr>inodes := inodes s, open_inodes := open_inodes s, dirs := dirs s, cwd := None\<rparr> = (at_rest_again s v)\<lparr>next_addr := ?n + 2\<rparr>" by (cases v) simp
  finally have "(at_rest_again s v)\<lparr>next_addr := ?n + 2\<rparr> = y\<lparr>next_addr := ?n + 2\<rparr>" unfolding y(1) by (simp only: option.inject)
  then have "rest_ok f i ((at_rest_again s v)\<lparr>next_addr := ?n + 2\<rparr>)" using y(2) by (simp only:)
  then show ?thesis by simp
qed

text \<open>
  Up to the point where the inode is marked as removed; \<open>z\<close> is the state without the two open inodes.
\<close>

abbreviation removing :: "inode \<Rightarrow> fs_state \<Rightarrow> u32 \<Rightarrow> fs_state \<Rightarrow> fs_state" where
  "removing i s x z \<equiv> z\<lparr>inodes := (inodes s)(next_addr s \<mapsto> i, next_addr s + 2 \<mapsto> inode_of s x),
     open_inodes := (next_addr s + 2) # next_addr s # open_inodes s, dirs := (dirs s)(Suc (next_addr s) \<mapsto> root_dir s),
     cwd := Some (Suc (next_addr s)), next_addr := next_addr s + 3\<rparr>"

lemma clear_name_ok:
  assumes "rest_ok f i s" and "names (entries_of (bytes_of i s)) name = Some x" and "slot_ok f s x"
    and "x \<noteq> ROOT_DIR_SECTOR" and "find_open (inodes s) (open_inodes s) x = Some None"
  obtains u z where "dir_open_path ''/'' s = Some (Some (Suc (next_addr s)), with_root i s u)"
    and "dir_remove (Suc (next_addr s)) name (with_root i s u) = do {
      s' \<leftarrow> inode_remove (next_addr s + 2) (removing i s x z);
      s' \<leftarrow> inode_close (Some (next_addr s + 2)) s';
      Some (True, s') }"
    and "takes f s (file_sectors_of s (idata i)) {} z" and "rest_ok f i (z\<lparr>next_addr := next_addr s + 3\<rparr>)"
    and "names (entries_of (bytes_of i z)) = (names (entries_of (bytes_of i s)))(name := None)"
    and "file_sectors_of z (idata i) = file_sectors_of s (idata i)"
proof -
  note r = rest_okD [OF assms(1)]
  let ?n = "next_addr s" and ?a = "Suc (next_addr s)" and ?D = "root_dir s" and ?es = "entries_of (bytes_of i s)" and ?d = "idata i"
  have x: "x \<in> used s" "is_dir (file_at s x) = 0" using assms(3) by (simp_all add: slot_ok_def)
  obtain u k t1 y where u: "dir_open_root s = Some (Some ?a, with_root i s u)" "same_sectors s u"
    and k: "find_from (called name) ?es 1 = Some k" "entry_sector (?es ! k) = x"
    and t1: "lookup ?a name (with_root i s u) = Some (Some (?es ! k, int (ENTRY_SIZE * k)), t1)" "same_sectors (with_root i s u) t1"
    and y: "inode_open x t1 = Some (?n + 2, file_open_in i s x y)" "same_sectors t1 y"
    and w: "dir_ok ?a ?D i (with_root i s u)" "bytes_of i (with_root i s u) = bytes_of i s"
    by (rule find_by_name [OF assms(1,2) x(1) assms(4,5)])
  let ?t = "file_open_in i s x y"
  note o' = file_open_in_ok [OF assms(1) u(2) same_sectors_trans [OF t1(2) y(2)] w]
  note o = o'(1) o'(2-6) [of x] o'(7-9)
  obtain v where v: "inode_write_at ?n (put_entry ((?es ! k)\<lparr>in_use := False\<rparr>)) (int ENTRY_SIZE) (int (ENTRY_SIZE * k)) ?t = Some (int ENTRY_SIZE, v)"
    "dir_ok ?a ?D i v" "names (entries_of (bytes_of i v)) = (names ?es)(name := None)" "data_written ?t ?d v"
    using clear_entry_ok [OF o(3), of name k] k(1) unfolding o(4) dir_t.simps by blast
  let ?R = "file_data (cache_content ?t) ?d" and ?z = "at_rest_again s v"
  have tv: "takes f ?t ?R {} v" by (rule takes_data_written [OF o(2,5) v(4)])
  have R: "?R \<subseteq> file_sectors_of s ?d" using extent_file(2) [OF o(5)] unfolding o(6) .
  note vf = takes_fields [OF tv]
  have ev: "extent_ok f v ?d (num_blocks ?d)" "file_sectors_of v ?d = file_sectors_of s ?d"
    using extent_takes [OF o(5) tv extent_file(3) [OF o(5)]] o(6) by (auto simp: file_sectors_of_def)
  have "takes f s ?R {} ?z"
    by (rule takes_objects [OF o(7) tv], simp_all) (rule more_eqI; use vf takes_fields [OF o(7)] at_restD(1) [OF r(1)] in simp)
  then have "takes f s (file_sectors_of s ?d) {} ?z" by (rule takes_mono) (rule R)
  moreover have "rest_ok f i (?z\<lparr>next_addr := ?n + 3\<rparr>)"
  proof -
    have "ROOT_DIR_SECTOR \<notin> ?R" using R r(6) by blast
    note rest = cleared_rest [OF assms(1) u o(1) tv v(2) ev this]
    show ?thesis using rest_takes(1) [OF rest takes_refl [OF rest_okD(2) [OF rest]] Int_empty_left, of "?n + 3"] by simp
  qed
  moreover have "removing i s x ?z = v" using vf o(8,9) by (cases v) simp
  then have "dir_remove ?a name (with_root i s u) = do {
      s' \<leftarrow> inode_remove (?n + 2) (removing i s x ?z);
      s' \<leftarrow> inode_close (Some (?n + 2)) s';
      Some (True, s') }"
    using t1(1) y(1) k(2) x(2) v(1) o(3)
    by (simp add: dir_remove_def inode_is_directory_def inode_of_def file_at_def dir_get_inode_def dir_ok_def)
  moreover have "dir_open_path ''/'' s = Some (Some ?a, with_root i s u)"
    by (rule path_root [OF u(1), of ?D i]) (use at_restD(9) [OF r(1)] in \<open>simp_all add: with_root_def\<close>)
  moreover have "names (entries_of (bytes_of i ?z)) = (names ?es)(name := None)" using v(3) by simp
  moreover have "file_sectors_of ?z ?d = file_sectors_of s ?d" using ev(2) file_wf_cong(2) [of ?z v] by (simp add: used_def)
  ultimately show thesis by (intro that [of u ?z])
qed

text \<open>The whole operation.\<close>

lemma filesys_remove_ok:
  assumes "rest_ok f i s" and "path_name name" and "names (entries_of (bytes_of i s)) name = Some x" and "slot_ok f s x"
    and "extent s x \<inter> extent s ROOT_DIR_SECTOR = {}" and "find_open (inodes s) (open_inodes s) x = Some None"
  shows "\<exists>z t. filesys_remove (in_root name) s = Some (True, t) \<and> takes f s (file_sectors_of s (idata i)) {} z \<and>
    rest_ok f i (z\<lparr>next_addr := next_addr s + 3\<rparr>) \<and>
    names (entries_of (bytes_of i z)) = (names (entries_of (bytes_of i s)))(name := None) \<and>
    file_sectors_of z (idata i) = file_sectors_of s (idata i) \<and>
    gives f (z\<lparr>next_addr := next_addr s + 3\<rparr>) (extent s x) t"
proof -
  note r = rest_okD [OF assms(1)]
  let ?n = "next_addr s" and ?a = "Suc (next_addr s)" and ?R = "file_sectors_of s (idata i)"
  have x: "x \<in> used s" "x \<noteq> 0" "x \<notin> map_file f s" using assms(4) by (simp_all add: slot_ok_def)
  have xr: "x \<noteq> ROOT_DIR_SECTOR" using assms(5) by (auto simp: extent_def)
  obtain u z where u: "dir_open_path ''/'' s = Some (Some ?a, with_root i s u)"
    "dir_remove ?a name (with_root i s u) = do {
      s' \<leftarrow> inode_remove (?n + 2) (removing i s x z);
      s' \<leftarrow> inode_close (Some (?n + 2)) s';
      Some (True, s') }"
    and z: "takes f s ?R {} z" "rest_ok f i (z\<lparr>next_addr := ?n + 3\<rparr>)" "names (entries_of (bytes_of i z)) = (names (entries_of (bytes_of i s)))(name := None)"
      "file_sectors_of z (idata i) = file_sectors_of s (idata i)"
    by (rule clear_name_ok [OF assms(1,3,4) xr assms(6)])
  have dis: "?R \<inter> extent s x = {}" using assms(5) root_extent(2) [OF assms(1)] by blast
  note sl = slot_takes [OF assms(4) z(1) dis] and zf = takes_fields [OF z(1)]
  have "x \<notin> ?R" using dis by (auto simp: extent_def)
  then have fx: "file_at z x = file_at s x" using content_same [OF z(1) x(1) _ x(3)] by (simp add: file_at_def)
  have fresh: "inodes s ?n = None" "inodes s (?n + 2) = None" "dirs s ?a = None" using r(7,8) by simp_all
  let ?j = "(inode_of s x)\<lparr>removed := True\<rparr>"
  let ?v = "(removing i s x z)\<lparr>inodes := (inodes s)(?n \<mapsto> i, ?n + 2 \<mapsto> ?j)\<rparr>"
  let ?w = "?v\<lparr>inodes := (inodes ?v)(?n + 2 \<mapsto> ?j\<lparr>open_cnt := 0\<rparr>), open_inodes := remove1 (?n + 2) (open_inodes ?v)\<rparr>"
  have j: "sector_no ?j = x" "idata ?j = file_at s x" "open_cnt ?j = 1" "removed ?j" by (simp_all add: inode_of_def file_at_def)
  have al: "alloc_ok f ?w"
    by (rule alloc_ok_objects [OF r(2) takesD(1) [OF z(1)]]) (use zf fresh in auto)
  have c: "cache_content ?v = cache_content z" "used ?v = used z" by (simp_all add: used_def)
  have so: "x \<in> used z" "x \<notin> map_file f z" "file_wf f z (file_at s x)" "x \<notin> file_sectors_of z (file_at s x)"
    using sl(1) unfolding slot_ok_def fx by blast+
  have sx: "block_ok f ?v x" unfolding block_ok_def c using so(1) so(2) [unfolded map_file_def] by blast
  have sf: "file_wf f ?v (file_at s x)" "x \<notin> file_sectors_of ?v (file_at s x)" unfolding file_wf_cong(1,2) [OF c] by (fact so(3), fact so(4))
  have sv: "insert x (file_sectors_of ?v (file_at s x)) = extent s x"
    unfolding file_wf_cong(2) [OF c] using sl(2) by (simp only: extent_def fx)
  have "inodes ?v (?n + 2) = Some ?j" by simp
  from close_removed [OF this j(3,4) al, unfolded j(1,2), OF sx x(2) sf, unfolded sv] obtain y where
    y: "inode_close (Some (?n + 2)) ?v = Some (y\<lparr>inodes := (inodes y)(?n + 2 := None)\<rparr>)" "gives f ?w (extent s x) y" by blast
  note yf = gives_fields [OF y(2)]
  let ?y = "y\<lparr>inodes := (inodes y)(?n + 2 := None)\<rparr>"
  let ?t = "?y\<lparr>inodes := inodes s, open_inodes := open_inodes s, dirs := dirs s, cwd := None\<rparr>"
  have close: "dir_close (Some ?a) ?y = Some ?t"
    by (rule dir_close_root [OF r(1)]) (use fresh in \<open>auto simp: yf fun_eq_iff\<close>)
  have "inode_remove (?n + 2) (removing i s x z) = Some ?v" by (simp add: inode_remove_def)
  then have "dir_remove ?a name (with_root i s u) = Some (True, ?y)" unfolding u(2) using y(1) by simp
  then have "filesys_remove (in_root name) s = Some (True, ?t)"
    using u(1) close split_in_root [OF assms(2)] fits_in_root [OF assms(2)] by (simp add: filesys_remove_def)
  moreover have "gives f (z\<lparr>next_addr := ?n + 3\<rparr>) (extent s x) ?t"
    by (rule gives_objects [OF y(2) rest_okD(2) [OF z(2)]], simp_all) (rule more_eqI; use yf zf at_restD(1) [OF r(1)] in simp)
  ultimately show ?thesis using z by blast
qed

section \<open>The number of sectors of a file\<close>

lemma card_file_sectors:
  assumes "extent_ok f s d (num_blocks d)"
  shows "card (file_sectors_of s d) = sectors_for (num_blocks d)"
proof -
  let ?n = "num_blocks d" and ?c = "cache_content s" and ?e = "doubly_indirect_block d" and ?r = "DIV_ROUND_UP (num_blocks d - 251) 128"
  note x = assms [unfolded extent_ok_def]
  have blocks: "card (block_map ?c d ` {..<?n}) = ?n" using x by (simp add: card_image)
  have tree: "card (tree_map ?c ?e) = (if 251 < ?n then Suc ?r else 0)"
  proof (cases "251 < ?n")
    case True
    let ?xs = "get_blocks (?c ?e)"
    note f = file_rows [OF assms True]
    have inj: "inj_on ((!) ?xs) {..<?r}"
    proof (rule inj_onI, rule ccontr)
      fix j k assume "j \<in> {..<?r}" "k \<in> {..<?r}" "?xs ! j = ?xs ! k" "j \<noteq> k"
      then show False using f(5) [of j k] by (simp add: row_sectors_def)
    qed
    have "(!) ?xs ` {..<?r} \<subseteq> rows_sectors ?c ?xs (?n - 251) {..<?r}" unfolding f(6) by (rule Un_upper1)
    then have "?e \<notin> (!) ?xs ` {..<?r}" using f(7) by (rule contra_subsetD)
    then show ?thesis using True inj by (simp add: f(3) card_image)
  qed (use x in \<open>simp add: tree_map_def\<close>)
  have fin: "finite (tree_map ?c ?e)" by (simp add: tree_map_def)
  have "card (map_set ?c d) = (if 123 < ?n then 1 else 0) + (if 251 < ?n then Suc ?r else 0)"
  proof (cases "123 < ?n")
    case True
    then have "map_set ?c d = insert (indirect_block d) (tree_map ?c ?e)" using x by (auto simp: map_set_def)
    then show ?thesis using x True tree fin by simp
  next
    case False
    then have "map_set ?c d = tree_map ?c ?e" using x by (auto simp: map_set_def)
    then show ?thesis using tree False by simp
  qed
  moreover have "card (file_sectors_of s d) = card (map_set ?c d) + card (block_map ?c d ` {..<?n})"
    unfolding file_sectors_of_def by (rule card_Un_disjoint) (use x fin in \<open>simp_all add: map_set_def\<close>)
  ultimately show ?thesis unfolding blocks by (simp add: sectors_for_def)
qed

section \<open>The command\<close>

text \<open>The file is closed first when it is open.\<close>

lemma remove_closed:
  assumes "store_ok f i s" and "path_name name" and "root_names i s name = Some x" and "map_of (file_table s) (in_root name) = None"
  shows "\<exists>t. filesys_remove (in_root name) s = Some (True, t) \<and> store_ok f i t \<and> contents i t = (contents i s)(name := None) \<and>
    file_table t = file_table s \<and> files t = files s \<and> free_count t = free_count s + card (extent s x)"
proof -
  note d = store_okD [OF assms(1)] and o = disk_okD [OF store_okD(2) [OF assms(1)]]
  have x: "slot_ok f s x" by (rule o(1) [OF assms(3)])
  have "root_names i s m \<noteq> Some x" if "map_of (file_table s) (in_root m) = Some a" for m a
    using that assms(4) root_names_inj [OF d(2) assms(3), of m] by auto
  then have "find_open (inodes s) (open_inodes s) x = Some None" by (intro not_open [OF d(2,3)]) (use x in \<open>simp_all add: slot_ok_def\<close>)
  from filesys_remove_ok [OF d(1) assms(2) assms(3) [unfolded root_names_def] x o(2) [OF assms(3)] this] obtain z t where
    z: "filesys_remove (in_root name) s = Some (True, t)" "takes f s (file_sectors_of s (idata i)) {} z" "rest_ok f i (z\<lparr>next_addr := next_addr s + 3\<rparr>)"
      "names (entries_of (bytes_of i z)) = (names (entries_of (bytes_of i s)))(name := None)"
      "file_sectors_of z (idata i) = file_sectors_of s (idata i)" "gives f (z\<lparr>next_addr := next_addr s + 3\<rparr>) (extent s x) t"
    by (elim exE conjE) (rule that; assumption)
  let ?z = "z\<lparr>next_addr := next_addr s + 3\<rparr>" and ?W = "file_sectors_of s (idata i)"
  have "file_sectors_of ?z (idata i) = file_sectors_of s (idata i)" using z(5) file_wf_cong(2) [of ?z z] by (simp add: used_def)
  then have root: "extent ?z ROOT_DIR_SECTOR = extent s ROOT_DIR_SECTOR" unfolding root_extent(2) [OF d(1)] root_extent(2) [OF z(3)] by (rule arg_cong)
  then have xr: "extent s x \<inter> extent ?z ROOT_DIR_SECTOR = {}" using o(2) [OF assms(3)] by (simp only:)
  note rg = rest_gives [OF z(3,6) xr] and f = takes_fields [OF z(2)] and g = gives_fields [OF z(6)]
  have names: "root_names i t = (root_names i s)(name := None)" using rg(2) z(4) by (simp add: root_names_def)
  have old: "slot_ok f t y" "extent t y = extent s y" "extent s y \<inter> extent s ROOT_DIR_SECTOR = {}" "cache_content t y = cache_content s y"
    "file_bytes (cache_content t) (file_at t y) = file_bytes (cache_content s) (file_at s y)" if "root_names i s m = Some y" "m \<noteq> name" for m y
  proof -
    show r: "extent s y \<inter> extent s ROOT_DIR_SECTOR = {}" by (rule o(2) [OF that(1)])
    have W: "?W \<inter> extent s y = {}" using r root_extent(2) [OF d(1)] by blast
    note s1 = slot_takes [OF o(1) [OF that(1)] z(2) W]
    have y: "slot_ok f ?z y" "extent ?z y = extent s y" using s1(1,2) by simp_all
    moreover from this have e: "extent s x \<inter> extent ?z y = {}" using o(3) [OF assms(3) that(1)] that(2) by simp
    ultimately have s2: "slot_ok f t y" "extent t y = extent ?z y" "file_bytes (cache_content t) (file_at t y) = file_bytes (cache_content ?z) (file_at ?z y)"
      using slot_gives [OF _ z(6)] by blast+
    show "slot_ok f t y" "extent t y = extent s y" "file_bytes (cache_content t) (file_at t y) = file_bytes (cache_content s) (file_at s y)"
      using s1 s2 by simp_all
    have "cache_content t y = cache_content ?z y"
      by (rule gives_content [OF z(6)]) (use y e in \<open>auto simp: slot_ok_def extent_def\<close>)
    then show "cache_content t y = cache_content s y" using slot_content [OF o(1) [OF that(1)] z(2) W] by simp
  qed
  have "disk_ok f i t"
  proof (rule disk_okI)
    fix m y assume "root_names i t m = Some y"
    then have y: "root_names i s m = Some y" "m \<noteq> name" by (auto simp: names split: if_splits)
    show "slot_ok f t y \<and> extent t y \<inter> extent t ROOT_DIR_SECTOR = {}" using old(1-3) [OF y] rg(3) root by simp
  next
    fix m n y y' assume "root_names i t m = Some y" "root_names i t n = Some y'" "m \<noteq> n"
    then have y: "root_names i s m = Some y" "m \<noteq> name" "root_names i s n = Some y'" "n \<noteq> name" "m \<noteq> n" by (auto simp: names split: if_splits)
    show "extent t y \<inter> extent t y' = {}" using o(3) [OF y(1,3,5)] old(2) [OF y(1,2)] old(2) [OF y(3,4)] by simp
  qed
  moreover have "table_ok i t"
  proof (rule table_ok_keeps [OF d(3)])
    fix m y a assume a: "map_of (file_table s) (in_root m) = Some a" "root_names i s m = Some y"
    then have "m \<noteq> name" using assms(4) by auto
    then show "root_names i t m = Some y \<and> cache_content t y = cache_content s y" using names a(2) old(4) [OF a(2)] by simp
  qed (use f g in simp_all)
  ultimately have "store_ok f i t" using rg(1) by (simp add: store_ok_def)
  moreover have "contents i t m = ((contents i s)(name := None)) m" for m
    using old(5) [of m] by (cases "root_names i s m"; cases "m = name") (simp_all add: contents_def names)
  then have "contents i t = (contents i s)(name := None)" by (rule ext)
  moreover have "free_count t = free_count s + card (extent s x)" using givesD(11) [OF z(6)] takes_free_count [OF z(2)] by simp
  ultimately show ?thesis using z(1) f(3,7) g(3,7) by simp
qed

lemma card_extent:
  assumes "slot_ok f s x"
  shows "card (extent s x) = Suc (sectors_for (bytes_to_sectors (int (length (file_bytes (cache_content s) (file_at s x))))))"
proof -
  have w: "extent_ok f s (file_at s x) (num_blocks (file_at s x))" "x \<notin> file_sectors_of s (file_at s x)" "0 \<le> data_length (file_at s x)"
    using assms by (simp_all add: slot_ok_def file_wf_def)
  have "finite (file_sectors_of s (file_at s x))" using extent_file(1) [OF w(1)] finite_used by (rule finite_subset)
  then show ?thesis using w(2,3) card_file_sectors [OF w(1)] by (simp add: extent_def)
qed

lemma fsutil_rm_ok:
  assumes "store_ok f i s" and "path_name name" and "view i s name = Some (bs, k)"
  shows "\<exists>t. fsutil_rm (in_root name) s = Some (True, t) \<and> store_ok f i t \<and> view i t = (view i s)(name := None) \<and>
    free_count t = free_count s + Suc (sectors_for (bytes_to_sectors (int (length bs))))"
proof -
  have "contents i s name = Some bs" using assms(3) by (simp add: view_Some)
  then obtain x where x: "root_names i s name = Some x" by (rule contents_slot [OF assms(1)])
  obtain found u where u: "remove_from_file_table (in_root name) s = Some (found, u)" "store_ok f i u" "contents i u = contents i s"
    "position u = (position s)(name := 0)" "free_count u = free_count s" "root_names i u = root_names i s" "map_of (file_table u) (in_root name) = None"
    using close_file [OF assms(1) x] by blast
  have xu: "root_names i u name = Some x" using u(6) x by simp
  obtain t where t: "filesys_remove (in_root name) u = Some (True, t)" "store_ok f i t" "contents i t = (contents i u)(name := None)"
    "file_table t = file_table u" "files t = files u" "free_count t = free_count u + card (extent u x)"
    using remove_closed [OF u(2) assms(2) xu u(7)] by blast
  have "contents i u name = Some bs" using assms(3) u(3) by (simp add: view_Some)
  then have "bs = file_bytes (cache_content u) (file_at u x)" using xu by (simp add: contents_def)
  then have "free_count t = free_count s + Suc (sectors_for (bytes_to_sectors (int (length bs))))"
    using t(6) u(5) card_extent [OF disk_okD(1) [OF store_okD(2) [OF u(2)] xu]] by simp
  moreover have "position t = position u" using t(4,5) by (simp add: position_def get_file_by_fname_def fun_eq_iff split: option.split)
  then have "view i t = (view i s)(name := None)" using t(3) u(3,4) by (simp add: view_def fun_eq_iff)
  moreover have "fsutil_rm (in_root name) s = Some (True, t)" using u(1) t(1) by (simp add: fsutil_rm_def)
  ultimately show ?thesis using t(2) by blast
qed

section \<open>Properties\<close>

text \<open>
  C9: \<open>inode_deallocate\<close> gives back exactly the sectors of a file, its indirect blocks among them:
  they are free afterwards, every other sector that was in use still is, and every file on other
  sectors reads as before.
\<close>

theorem inode_deallocate_exact:
  assumes "alloc_ok f s" and "file_wf f s d"
  shows "\<exists>t. inode_deallocate d s = Some (True, t) \<and> alloc_ok f t \<and> used t = used s - file_sectors_of s d \<and>
    free_count t = free_count s + sectors_for (num_blocks d) \<and>
    (\<forall>g. file_wf f s g \<and> file_sectors_of s d \<inter> file_sectors_of s g = {} \<longrightarrow>
       file_wf f t g \<and> file_bytes (cache_content t) g = file_bytes (cache_content s) g)"
proof -
  obtain t where t: "inode_deallocate d s = Some (True, t)" "gives f s (file_sectors_of s d) t"
    using inode_deallocate_ok [OF assms] by blast
  note g = givesD [OF t(2)]
  have "free_count t = free_count s + sectors_for (num_blocks d)"
    using g(11) card_file_sectors [of f s d] assms(2) by (simp add: file_wf_def)
  then show ?thesis using t(1) g(2,4) file_gives(1,2) [OF _ t(2)] by blast
qed

theorem inode_deallocate_exact_witness:
  "\<exists>s t d. inode_create 1 200000 False big_disk = Some (True, s) \<and> d = get_inode (cache_content s 1) \<and>
    inode_deallocate d s = Some (True, t) \<and> free_count s = 625 \<and> free_count t = 1020"
proof -
  have n: "bytes_to_sectors 200000 = 391" "sectors_for 391 = 395"
    by (simp_all add: bytes_to_sectors_def DIV_ROUND_UP_def sectors_for_def)
  have a: "1 \<in> used big_disk" "1 \<notin> map_file big_inode big_disk" "(0 :: int) \<le> 200000" "(200000 :: int) < 2 ^ 31"
    "bytes_to_sectors 200000 \<le> MAX_BLOCKS" "sectors_for (bytes_to_sectors 200000) \<le> free_count big_disk"
    using big_disk_ok n by simp_all
  obtain d Y s where s: "inode_create 1 200000 False big_disk = Some (True, s)" "takes big_inode big_disk {1} Y s"
    "get_inode (cache_content s 1) = d" "file_wf big_inode s d" "data_length d = 200000"
    "free_count s + sectors_for (bytes_to_sectors 200000) = free_count big_disk"
    using inode_create_ok [OF big_disk_ok(1) a, of False] by blast
  have "free_count s = 625" using s(6) n big_disk_ok(3) by simp
  then show ?thesis using inode_deallocate_exact [OF takesD(1) [OF s(2)] s(4)] s(1,3,5) n by auto
qed

end
