(* ===== verification/Fs_View.thy ===== *)
theory Fs_View
  imports Fs_Store Fs_Remove
begin

text \<open>
  What the users of the file system rely on: sequences of the commands of \<open>fs/fsutil.c\<close> refine the
  same sequences on a map from names to bytes and positions, and lose no sector. The interface is
  the locale \<open>simulation\<close>, with \<open>metered\<close> for a quantity that no operation changes.
\<close>

section \<open>The interface\<close>

text \<open>A sequence of operations, each with a reply, on a state and in the abstract view.\<close>

fun run_all :: "('c \<Rightarrow> 's \<Rightarrow> ('r \<times> 's) option) \<Rightarrow> 'c list \<Rightarrow> 's \<Rightarrow> ('r list \<times> 's) option" where
  "run_all step [] s = Some ([], s)"
| "run_all step (c # cs) s = do {
     (r, s) \<leftarrow> step c s;
     (rs, s) \<leftarrow> run_all step cs s;
     Some (r # rs, s) }"

fun spec_all :: "('c \<Rightarrow> 'a \<Rightarrow> 'r \<times> 'a) \<Rightarrow> 'c list \<Rightarrow> 'a \<Rightarrow> 'r list \<times> 'a" where
  "spec_all spec [] m = ([], m)"
| "spec_all spec (c # cs) m = (let (r, m) = spec c m; (rs, m) = spec_all spec cs m in (r # rs, m))"

text \<open>Each operation of the sequence is allowed in the state it starts in.\<close>

fun feasible :: "('c \<Rightarrow> 's \<Rightarrow> bool) \<Rightarrow> ('c \<Rightarrow> 's \<Rightarrow> ('r \<times> 's) option) \<Rightarrow> 'c list \<Rightarrow> 's \<Rightarrow> bool" where
  "feasible allowed step [] s \<longleftrightarrow> True"
| "feasible allowed step (c # cs) s \<longleftrightarrow> allowed c s \<and> (\<forall>r t. step c s = Some (r, t) \<longrightarrow> feasible allowed step cs t)"

locale simulation =
  fixes inv :: "'s \<Rightarrow> bool" and view :: "'s \<Rightarrow> 'a" and step :: "'c \<Rightarrow> 's \<Rightarrow> ('r \<times> 's) option"
    and spec :: "'c \<Rightarrow> 'a \<Rightarrow> 'r \<times> 'a" and allowed :: "'c \<Rightarrow> 's \<Rightarrow> bool"
  assumes simulates: "inv s \<Longrightarrow> allowed c s \<Longrightarrow> \<exists>r t. step c s = Some (r, t) \<and> inv t \<and> spec c (view s) = (r, view t)"
begin

lemma stepE:
  assumes "inv s" and "allowed c s" and "spec c (view s) = (r, m)"
  obtains t where "step c s = Some (r, t)" and "inv t" and "view t = m"
  using simulates [OF assms(1,2)] assms(3) by auto

lemma run:
  assumes "inv s" and "feasible allowed step cs s"
  shows "\<exists>rs t. run_all step cs s = Some (rs, t) \<and> inv t \<and> spec_all spec cs (view s) = (rs, view t)"
  using assms
proof (induction cs arbitrary: s)
  case (Cons c cs)
  then obtain r t where t: "step c s = Some (r, t)" "inv t" "spec c (view s) = (r, view t)" using simulates [of s c] by auto
  moreover have "feasible allowed step cs t" using Cons.prems(2) t(1) by simp
  from Cons.IH [OF t(2) this] obtain rs u where "run_all step cs t = Some (rs, u)" "inv u" "spec_all spec cs (view t) = (rs, view u)" by blast
  ultimately show ?case by simp
qed simp

end

text \<open>Operations that keep the value of a function of the state.\<close>

locale metered = simulation inv view step spec allowed
  for inv :: "'s \<Rightarrow> bool" and view :: "'s \<Rightarrow> 'a" and step :: "'c \<Rightarrow> 's \<Rightarrow> ('r \<times> 's) option"
    and spec :: "'c \<Rightarrow> 'a \<Rightarrow> 'r \<times> 'a" and allowed :: "'c \<Rightarrow> 's \<Rightarrow> bool" +
  fixes total :: "'s \<Rightarrow> nat"
  assumes keeps: "inv s \<Longrightarrow> allowed c s \<Longrightarrow> step c s = Some (r, t) \<Longrightarrow> total t = total s"
begin

lemma run_total:
  assumes "inv s" and "feasible allowed step cs s"
  shows "\<exists>rs t. run_all step cs s = Some (rs, t) \<and> inv t \<and> spec_all spec cs (view s) = (rs, view t) \<and> total t = total s"
  using assms
proof (induction cs arbitrary: s)
  case (Cons c cs)
  then obtain r t where t: "step c s = Some (r, t)" "inv t" "spec c (view s) = (r, view t)" using simulates [of s c] by auto
  moreover have "total t = total s" using keeps [OF _ _ t(1)] Cons.prems by simp
  moreover have "feasible allowed step cs t" using Cons.prems(2) t(1) by simp
  from Cons.IH [OF t(2) this] obtain rs u where
    "run_all step cs t = Some (rs, u)" "inv u" "spec_all spec cs (view t) = (rs, view u)" "total u = total t" by blast
  ultimately show ?case by simp
qed simp

end

section \<open>The commands on files\<close>

text \<open>The names are those of files in the root directory; the commands get the absolute path.\<close>

definition good_name :: "string \<Rightarrow> bool" where
  "good_name name \<longleftrightarrow> path_name name \<and> length name \<le> NAME_MAX \<and> CHR 0x00 \<notin> set name \<and> name \<noteq> ''.'' \<and> name \<noteq> ''..''"

datatype file_command =
  Create string int | Write string "u8 list" int | Read string int | Seek string int | Size string | Remove string

datatype reply = Success bool | Number int | Bytes "u8 list option"

fun run_file_command :: "file_command \<Rightarrow> fs_state \<Rightarrow> (reply \<times> fs_state) option" where
  "run_file_command (Create n len) s = do { (ok, s) \<leftarrow> fsutil_create (in_root n) len s; Some (Success ok, s) }"
| "run_file_command (Write n buf sz) s = do { ((k, buf'), s) \<leftarrow> fsutil_write (in_root n) buf sz s; Some (Number k, s) }"
| "run_file_command (Read n sz) s = do { (r, s) \<leftarrow> fsutil_read (in_root n) sz s; Some (Bytes r, s) }"
| "run_file_command (Seek n ofs) s = do { (k, s) \<leftarrow> fsutil_seek (in_root n) ofs s; Some (Number k, s) }"
| "run_file_command (Size n) s = do { (k, s) \<leftarrow> fsutil_size (in_root n) s; Some (Number k, s) }"
| "run_file_command (Remove n) s = do { (ok, s) \<leftarrow> fsutil_rm (in_root n) s; Some (Success ok, s) }"

text \<open>
  The same on a map from names to the bytes of a file and the position in it: a new file is full of
  zeros; a write ends with a null character and moves the position by two less than it wrote; a
  read returns at most what there is behind the position.
\<close>

fun map_command :: "file_command \<Rightarrow> (string \<rightharpoonup> u8 list \<times> int) \<Rightarrow> reply \<times> (string \<rightharpoonup> u8 list \<times> int)" where
  "map_command (Create n len) m = (Success True, m(n \<mapsto> (replicate (nat len) 0, 0)))"
| "map_command (Write n buf sz) m =
    (case m n of None \<Rightarrow> (Number (- 1), m)
     | Some (bs, k) \<Rightarrow> (Number sz, m(n \<mapsto> (overwrite (pad_to (nat (k + sz)) bs) (nat k) (terminated buf sz), k + sz - 2))))"
| "map_command (Read n sz) m =
    (case m n of None \<Rightarrow> (Bytes None, m)
     | Some (bs, k) \<Rightarrow> let out = take (nat sz) (drop (nat k) bs) in (Bytes (Some out), m(n \<mapsto> (bs, k + int (length out)))))"
| "map_command (Seek n ofs) m = (case m n of None \<Rightarrow> (Number (- 1), m) | Some (bs, k) \<Rightarrow> (Number 0, m(n \<mapsto> (bs, ofs))))"
| "map_command (Size n) m = (case m n of None \<Rightarrow> (Number (- 1), m) | Some (bs, k) \<Rightarrow> (Number (int (length bs)), m))"
| "map_command (Remove n) m = (Success (m n \<noteq> None), m(n := None))"

text \<open>There is a free slot in the directory, and there are sectors for the inode and the file.\<close>

definition room_new :: "inode \<Rightarrow> int \<Rightarrow> fs_state \<Rightarrow> bool" where
  "room_new i len s \<longleftrightarrow> (\<exists>e \<in> set (entries_of (bytes_of i s)). \<not> in_use e) \<and> 0 \<le> len \<and> len < 2 ^ 31 \<and>
     bytes_to_sectors len \<le> MAX_BLOCKS \<and> Suc (sectors_for (bytes_to_sectors len)) \<le> free_count s"

text \<open>There are sectors for a write that ends at \<open>stop\<close>.\<close>

definition room_for :: "u8 list \<Rightarrow> int \<Rightarrow> fs_state \<Rightarrow> bool" where
  "room_for old stop s \<longleftrightarrow> stop < 2 ^ 31 \<and> bytes_to_sectors stop \<le> MAX_BLOCKS \<and> sectors_added old stop \<le> free_count s"

text \<open>
  A name is made before it is used and not made twice, there is room when it is needed, and no
  position is negative, as it is after one byte was written at the start of a file.
\<close>

fun allowed :: "inode \<Rightarrow> file_command \<Rightarrow> fs_state \<Rightarrow> bool" where
  "allowed i (Create n len) s \<longleftrightarrow> good_name n \<and> view i s n = None \<and> room_new i len s"
| "allowed i (Write n buf sz) s \<longleftrightarrow> good_name n \<and> 0 < sz \<and> nat sz \<le> length buf \<and>
     (case view i s n of None \<Rightarrow> False | Some (bs, k) \<Rightarrow> 0 \<le> k \<and> room_for bs (k + sz) s)"
| "allowed i (Read n sz) s \<longleftrightarrow> good_name n \<and> (case view i s n of None \<Rightarrow> False | Some (bs, k) \<Rightarrow> 0 \<le> k)"
| "allowed i (Seek n ofs) s \<longleftrightarrow> good_name n \<and> view i s n \<noteq> None \<and> 0 \<le> ofs"
| "allowed i (Size n) s \<longleftrightarrow> good_name n \<and> (case view i s n of None \<Rightarrow> False | Some (bs, k) \<Rightarrow> 0 \<le> k)"
| "allowed i (Remove n) s \<longleftrightarrow> good_name n \<and> view i s n \<noteq> None"

lemma create_view:
  assumes "store_ok f i s" and "good_name name" and "view i s name = None" and "room_new i len s"
  shows "\<exists>t. fsutil_create (in_root name) len s = Some (True, t) \<and> store_ok f i t \<and>
    view i t = (view i s)(name \<mapsto> (replicate (nat len) 0, 0)) \<and> free_count t + Suc (sectors_for (bytes_to_sectors len)) = free_count s"
proof -
  have no: "contents i s name = None" using assms(3) by (simp add: view_def)
  have "map_of (file_table s) (in_root name) = None"
    using table_okD(3) [OF store_okD(3) [OF assms(1)], of "in_root name"] no
    by (cases "map_of (file_table s) (in_root name)") (auto simp: open_entry_def contents_def)
  then have pos: "position s name = 0" by (simp add: position_def get_file_by_fname_def)
  obtain t where t: "fsutil_create (in_root name) len s = Some (True, t)" "store_ok f i t"
    "contents i t = (contents i s)(name \<mapsto> replicate (nat len) 0)" "file_table t = file_table s" "files t = files s"
    "free_count t + Suc (sectors_for (bytes_to_sectors len)) = free_count s"
    using fsutil_create_ok [OF assms(1) _ _ _ no] assms(2,4) by (auto simp: good_name_def room_new_def)
  have "position t = position s" using t(4,5) by (simp add: position_def get_file_by_fname_def fun_eq_iff split: option.split)
  then have "position t = (position s)(name := 0)" using pos by (simp add: fun_upd_idem)
  then have "view i t = (view i s)(name \<mapsto> (replicate (nat len) 0, 0))" by (rule view_updateI [OF t(3)])
  then show ?thesis using t(1,2,6) by blast
qed

text \<open>A file needs sectors for its blocks and indirect blocks, and one for its inode.\<close>

definition file_need :: "nat \<Rightarrow> nat" where
  "file_need n = Suc (sectors_for (bytes_to_sectors (int n)))"

lemma file_need_grows: "file_need (max (nat stop) (length old)) = file_need (length old) + sectors_added old stop" if "0 < stop"
proof (cases "stop \<le> int (length old)")
  case True
  then have "sectors_added old stop = 0" using sectors_for_mono [OF bytes_to_sectors_mono [OF True]] by (simp add: sectors_added_def)
  moreover have "max (nat stop) (length old) = length old" using True by (simp add: max_absorb2 nat_le_iff)
  ultimately show ?thesis by simp
next
  case False
  then have "sectors_for (bytes_to_sectors (int (length old))) \<le> sectors_for (bytes_to_sectors stop)"
    by (intro sectors_for_mono bytes_to_sectors_mono) simp
  then show ?thesis using False that by (simp add: max_def file_need_def sectors_added_def nat_le_iff)
qed

text \<open>What the files need together.\<close>

definition usage :: "(string \<rightharpoonup> u8 list \<times> int) \<Rightarrow> nat" where
  "usage m = (\<Sum>n \<in> dom m. file_need (length (fst (the (m n)))))"

lemma usage_update:
  assumes "finite (dom m)"
  shows "m n = None \<Longrightarrow> usage (m(n \<mapsto> (bs, k))) = usage m + file_need (length bs)"
    and "m n = Some (old, j) \<Longrightarrow> usage (m(n \<mapsto> (bs, k))) + file_need (length old) = usage m + file_need (length bs)"
    and "m n = Some (old, j) \<Longrightarrow> usage (m(n := None)) + file_need (length old) = usage m"
proof -
  let ?w = "\<lambda>m k. file_need (length (fst (the (m k))))"
  have rest: "(\<Sum>l \<in> dom m - {n}. ?w (m(n \<mapsto> (bs, k))) l) = usage (m(n := None))"
    unfolding usage_def by (rule sum.cong) auto
  have new: "usage (m(n \<mapsto> (bs, k))) = usage (m(n := None)) + file_need (length bs)"
    using assms sum.insert_remove [of "dom m" "?w (m(n \<mapsto> (bs, k)))" n] unfolding rest by (simp add: usage_def)
  show "usage (m(n \<mapsto> (bs, k))) = usage m + file_need (length bs)" if "m n = None"
    using new that by (simp add: fun_upd_idem)
  show old: "usage (m(n := None)) + file_need (length old) = usage m" if "m n = Some (old, j)" for old j
  proof -
    have "usage (m(n := None)) = (\<Sum>l \<in> dom m - {n}. ?w m l)" unfolding usage_def by (rule sum.cong) auto
    then show ?thesis using sum.remove [OF assms domI [of m n "(old, j)", OF that], of "?w m"] that by (simp add: usage_def)
  qed
  show "usage (m(n \<mapsto> (bs, k))) + file_need (length old) = usage m + file_need (length bs)" if "m n = Some (old, j)"
    using new old [OF that] by simp
qed

lemma finite_view: "finite (dom (view i s))"
proof -
  have "dom (view i s) \<subseteq> (\<lambda>e. bytes_name (entry_name e)) ` set (entries_of (bytes_of i s))"
    by (auto simp: view_def contents_def root_names_def names_def find_from_Some called_def simp del: nth_entries_of)
  then show ?thesis by (rule finite_subset) simp
qed

text \<open>One command, with the sectors it takes or gives.\<close>

lemma command_ok:
  assumes "store_ok f i s" and "allowed i c s"
  shows "\<exists>r t. run_file_command c s = Some (r, t) \<and> store_ok f i t \<and> map_command c (view i s) = (r, view i t) \<and>
    free_count t + usage (view i t) = free_count s + usage (view i s)"
proof (cases c)
  case (Create n len)
  then obtain t where t: "fsutil_create (in_root n) len s = Some (True, t)" "store_ok f i t"
    "view i t = (view i s)(n \<mapsto> (replicate (nat len) 0, 0))" "free_count t + Suc (sectors_for (bytes_to_sectors len)) = free_count s"
    using create_view [OF assms(1), of n len] assms(2) by auto
  have "usage (view i t) = usage (view i s) + file_need (nat len)"
    using usage_update(1) [OF finite_view, of i s n "replicate (nat len) 0" 0] assms(2) Create unfolding t(3) by simp
  moreover have "0 \<le> len" using assms(2) Create by (simp add: room_new_def)
  ultimately show ?thesis using t(1,2,4) by (simp add: Create file_need_def t(3))
next
  case (Write n buf sz)
  then obtain bs k where v: "view i s n = Some (bs, k)" "0 \<le> k" "room_for bs (k + sz) s" "good_name n" "0 < sz" "nat sz \<le> length buf"
    using assms(2) by (auto split: option.splits)
  let ?new = "overwrite (pad_to (nat (k + sz)) bs) (nat k) (terminated buf sz)"
  obtain t where t: "fsutil_write (in_root n) buf sz s = Some ((sz, buf[nat (sz - 1) := 0]), t)" "store_ok f i t"
    "view i t = (view i s)(n \<mapsto> (?new, k + sz - 2))" "free_count t + sectors_added bs (k + sz) = free_count s"
    using fsutil_write_ok [OF assms(1) _ _ _ v(1,2,5,6)] v(3,4) unfolding good_name_def room_for_def by blast
  have "length (terminated buf sz) = nat sz" using v(6) by (simp add: terminated_def)
  then have "length ?new = max (nat (k + sz)) (length bs)" using v(2,5) by (simp add: pad_to_def nat_add_distrib)
  then have "usage (view i t) + file_need (length bs) = usage (view i s) + file_need (length bs) + sectors_added bs (k + sz)"
    using usage_update(2) [OF finite_view v(1), of ?new "k + sz - 2"] file_need_grows [of "k + sz" bs] v(2,5) unfolding t(3) by simp
  then show ?thesis using t(1,2,4) v(1) by (simp add: Write t(3))
next
  case (Read n sz)
  then obtain bs k where v: "view i s n = Some (bs, k)" "0 \<le> k" "good_name n" using assms(2) by (auto split: option.splits)
  let ?out = "take (nat sz) (drop (nat k) bs)"
  obtain t where t: "fsutil_read (in_root n) sz s = Some (Some ?out, t)" "store_ok f i t"
    "view i t = (view i s)(n \<mapsto> (bs, k + int (length ?out)))" "free_count t = free_count s"
    using fsutil_read_ok [OF assms(1) _ _ _ v(1,2)] v(3) unfolding good_name_def by blast
  then show ?thesis using v(1) usage_update(2) [OF finite_view v(1), of bs "k + int (length ?out)"] by (simp add: Read t(3) Let_def)
next
  case (Seek n ofs)
  then obtain bs k where v: "view i s n = Some (bs, k)" "0 \<le> ofs" "good_name n" using assms(2) by auto
  obtain t where t: "fsutil_seek (in_root n) ofs s = Some (0, t)" "store_ok f i t" "view i t = (view i s)(n \<mapsto> (bs, ofs))" "free_count t = free_count s"
    using fsutil_seek_ok [OF assms(1) _ _ _ v(1,2)] v(3) unfolding good_name_def by blast
  then show ?thesis using v(1) usage_update(2) [OF finite_view v(1), of bs ofs] by (simp add: Seek t(3))
next
  case (Size n)
  then obtain bs k where v: "view i s n = Some (bs, k)" "0 \<le> k" "good_name n" using assms(2) by (auto split: option.splits)
  obtain t where t: "fsutil_size (in_root n) s = Some (int (length bs), t)" "store_ok f i t" "view i t = view i s" "free_count t = free_count s"
    using fsutil_size_ok [OF assms(1) _ _ _ v(1,2)] v(3) unfolding good_name_def by blast
  then show ?thesis using v(1) by (simp add: Size)
next
  case (Remove n)
  then obtain bs k where v: "view i s n = Some (bs, k)" "path_name n" using assms(2) by (auto simp: good_name_def)
  obtain t where t: "fsutil_rm (in_root n) s = Some (True, t)" "store_ok f i t" "view i t = (view i s)(n := None)"
    "free_count t = free_count s + Suc (sectors_for (bytes_to_sectors (int (length bs))))"
    using fsutil_rm_ok [OF assms(1) v(2,1)] by blast
  then show ?thesis using v(1) usage_update(3) [OF finite_view v(1)] by (simp add: Remove file_need_def)
qed

interpretation disk: simulation "store_ok f i" "view i" run_file_command map_command "allowed i" for f :: inode_disk and i :: inode
  by unfold_locales (use command_ok in blast)

interpretation sectors: metered "store_ok f i" "view i" run_file_command map_command "allowed i" "\<lambda>s. free_count s + usage (view i s)"
  for f :: inode_disk and i :: inode
  by unfold_locales (use command_ok in fastforce)

text \<open>A directory that was just made has no names, and a free slot for each entry but the first.\<close>

lemma new_entries_view:
  assumes "0 < n" and "entries_of (bytes_of i t) = new_entries x n"
  shows "contents i t = Map.empty" and "length (filter (\<lambda>e. \<not> in_use e) (entries_of (bytes_of i t))) = n - 1"
proof -
  have "root_names i t = Map.empty" using new_entries_ok(3) [OF assms(1)] by (simp only: root_names_def assms(2))
  then show "contents i t = Map.empty" by (simp add: contents_def fun_eq_iff)
  have "\<not> in_use (get_entry (replicate ENTRY_SIZE 0))" by (simp add: get_entry_def)
  then show "length (filter (\<lambda>e. \<not> in_use e) (entries_of (bytes_of i t))) = n - 1"
    unfolding assms(2) by (simp add: new_entries_def first_entry_def filter_replicate)
qed

section \<open>Properties\<close>

text \<open>
  C10: \<open>dir_create\<close> of the root directory, the second step of \<open>do_format\<close>: with the free map open and
  in order, the sector of the root inode in use and room on the disk, it succeeds. The file system is
  then in order, it has no files, the directory has a free slot for each entry but the first, and
  just the sectors of the directory were taken.
\<close>

theorem dir_create_formats:
  assumes "alloc_ok f s" and "ROOT_DIR_SECTOR \<in> used s" and "ROOT_DIR_SECTOR \<notin> map_file f s" and "0 < n" and "int (ENTRY_SIZE * n) < 2 ^ 31"
    and "bytes_to_sectors (int (ENTRY_SIZE * n)) \<le> MAX_BLOCKS" and "sectors_for (bytes_to_sectors (int (ENTRY_SIZE * n))) \<le> free_count s"
    and "\<forall>p \<in> set (open_inodes s). \<exists>j. inodes s p = Some j \<and> sector_no j = 0" and "cwd s = None"
    and "\<forall>k \<ge> next_addr s. inodes s k = None \<and> dirs s k = None \<and> files s k = None" and "file_table s = []" and "distinct (open_inodes s)"
  shows "\<exists>i t. dir_create ROOT_DIR_SECTOR n s = Some (True, t) \<and> store_ok f i t \<and> contents i t = Map.empty \<and>
    length (filter (\<lambda>e. \<not> in_use e) (entries_of (bytes_of i t))) = n - 1 \<and>
    free_count t + sectors_for (bytes_to_sectors (int (ENTRY_SIZE * n))) = free_count s"
proof -
  obtain i t where t: "dir_create ROOT_DIR_SECTOR n s = Some (True, t)" "store_ok f i t"
    "entries_of (bytes_of i t) = new_entries ROOT_DIR_SECTOR n"
    "free_count t + sectors_for (bytes_to_sectors (int (ENTRY_SIZE * n))) = free_count s"
    using dir_create_ok [OF assms] by blast
  then show ?thesis using new_entries_view [OF assms(4) t(3)] by blast
qed

text \<open>The disk of 1024 sectors, formatted.\<close>

lemma big_disk_idle:
  "\<forall>p \<in> set (open_inodes big_disk). \<exists>j. inodes big_disk p = Some j \<and> sector_no j = 0" "cwd big_disk = None"
  "\<forall>k \<ge> next_addr big_disk. inodes big_disk k = None \<and> dirs big_disk k = None \<and> files big_disk k = None" "file_table big_disk = []"
  "distinct (open_inodes big_disk)"
  by (auto simp: big_disk_def cache_state.defs fs_state.defs)

theorem dir_create_formats_witness:
  "\<exists>i t. dir_create ROOT_DIR_SECTOR MAX_FILES_IN_DIRECTORY big_disk = Some (True, t) \<and> store_ok big_inode i t \<and>
    contents i t = Map.empty \<and> free_count t = 949"
proof -
  have n: "bytes_to_sectors (int (ENTRY_SIZE * 1000)) = 71" "sectors_for 71 = 71"
    by (simp_all add: bytes_to_sectors_def DIV_ROUND_UP_def sectors_for_def)
  have u: "ROOT_DIR_SECTOR \<in> used big_disk" "ROOT_DIR_SECTOR \<notin> map_file big_inode big_disk" using big_disk_ok by simp_all
  have "\<exists>i t. dir_create ROOT_DIR_SECTOR 1000 big_disk = Some (True, t) \<and> store_ok big_inode i t \<and> contents i t = Map.empty \<and>
      length (filter (\<lambda>e. \<not> in_use e) (entries_of (bytes_of i t))) = 1000 - 1 \<and>
      free_count t + sectors_for (bytes_to_sectors (int (ENTRY_SIZE * 1000))) = free_count big_disk"
    by (rule dir_create_formats [OF big_disk_ok(1) u _ _ _ _ big_disk_idle]) (simp_all only: n big_disk_ok(3), simp_all)
  then show ?thesis unfolding n big_disk_ok(3) by (elim exE conjE) (intro exI conjI, assumption+, simp)
qed

lemma formatted_disk:
  obtains i s where "store_ok big_inode i s" and "view i s = Map.empty" and "room_new i 3 s" and "free_count s = 949"
proof -
  have n: "bytes_to_sectors (int (ENTRY_SIZE * 1000)) = 71" "sectors_for 71 = 71" "bytes_to_sectors 3 = 1" "sectors_for 1 = 1"
    by (simp_all add: bytes_to_sectors_def DIV_ROUND_UP_def sectors_for_def)
  have u: "ROOT_DIR_SECTOR \<in> used big_disk" "ROOT_DIR_SECTOR \<notin> map_file big_inode big_disk" using big_disk_ok by simp_all
  have "\<exists>i t. dir_create ROOT_DIR_SECTOR 1000 big_disk = Some (True, t) \<and> store_ok big_inode i t \<and>
      entries_of (bytes_of i t) = new_entries ROOT_DIR_SECTOR 1000 \<and>
      free_count t + sectors_for (bytes_to_sectors (int (ENTRY_SIZE * 1000))) = free_count big_disk"
    by (rule dir_create_ok [OF big_disk_ok(1) u _ _ _ _ big_disk_idle]) (simp_all only: n big_disk_ok(3), simp_all)
  then obtain i t where t: "store_ok big_inode i t" "entries_of (bytes_of i t) = new_entries ROOT_DIR_SECTOR 1000"
    "free_count t + 71 = 1020" unfolding n big_disk_ok(3) by blast
  note v = new_entries_view [OF _ t(2)]
  have "length (filter (\<lambda>e. \<not> in_use e) (entries_of (bytes_of i t))) = 999" using v(2) by simp
  then have "filter (\<lambda>e. \<not> in_use e) (entries_of (bytes_of i t)) \<noteq> []" by (metis list.size(3) zero_neq_numeral)
  then have "\<exists>e \<in> set (entries_of (bytes_of i t)). \<not> in_use e" by (simp add: filter_empty_conv)
  then have "room_new i 3 t" using t(3) n(3,4) by (simp add: room_new_def)
  moreover have "contents i t = Map.empty" by (rule v(1)) simp
  then have "view i t = Map.empty" by (simp add: view_def fun_eq_iff)
  ultimately show thesis using t(1,3) by (intro that [of i t]) simp_all
qed

text \<open>
  C5: A file that is created, written and read back after a seek to its start holds the bytes that
  were written, the last one replaced by a null character, and no other file has changed.
\<close>

theorem create_write_read:
  assumes "store_ok f i s" and "good_name name" and "view i s name = None" and "room_new i len s" and "0 < len" and "nat len \<le> length buf"
  shows "\<exists>t u v w. fsutil_create (in_root name) len s = Some (True, t) \<and>
    fsutil_write (in_root name) buf len t = Some ((len, buf[nat (len - 1) := 0]), u) \<and>
    fsutil_seek (in_root name) 0 u = Some (0, v) \<and>
    fsutil_read (in_root name) len v = Some (Some (terminated buf len), w) \<and>
    store_ok f i w \<and> view i w = (view i s)(name \<mapsto> (terminated buf len, len))"
proof -
  note g = assms(2) [unfolded good_name_def]
  have p: "path_name name" "name \<noteq> ''.''" "name \<noteq> ''..''" using g by simp_all
  obtain t where t: "fsutil_create (in_root name) len s = Some (True, t)" "store_ok f i t"
    "view i t = (view i s)(name \<mapsto> (replicate (nat len) 0, 0))" using create_view [OF assms(1-4)] by blast
  have vt: "view i t name = Some (replicate (nat len) 0, 0)" by (simp add: t(3))
  have r: "sectors_added (replicate (nat len) 0) (0 + len) \<le> free_count t" "0 + len < 2 ^ 31" "bytes_to_sectors (0 + len) \<le> MAX_BLOCKS"
    using assms(4,5) by (simp_all add: sectors_added_def room_new_def)
  have "overwrite (pad_to (nat (0 + len)) (replicate (nat len) 0)) (nat 0) (terminated buf len) = terminated buf len"
    using assms(6) by (simp add: overwrite_def pad_to_def terminated_def)
  with fsutil_write_ok [OF t(2) p vt order_refl assms(5,6) r(2,3,1)]
  obtain u where u: "fsutil_write (in_root name) buf len t = Some ((len, buf[nat (len - 1) := 0]), u)" "store_ok f i u"
    "view i u = (view i s)(name \<mapsto> (terminated buf len, 0 + len - 2))" by (auto simp: t(3))
  have "view i u name = Some (terminated buf len, 0 + len - 2)" by (simp add: u(3))
  from fsutil_seek_ok [OF u(2) p this order_refl]
  obtain v where v: "fsutil_seek (in_root name) 0 u = Some (0, v)" "store_ok f i v" "view i v = (view i s)(name \<mapsto> (terminated buf len, 0))"
    by (auto simp: u(3))
  have "take (nat len) (drop (nat 0) (terminated buf len)) = terminated buf len" "length (terminated buf len) = nat len"
    using assms(6) by (simp_all add: terminated_def)
  moreover have "view i v name = Some (terminated buf len, 0)" by (simp add: v(3))
  ultimately obtain w where "fsutil_read (in_root name) len v = Some (Some (terminated buf len), w)" "store_ok f i w"
    "view i w = (view i s)(name \<mapsto> (terminated buf len, len))"
    using fsutil_read_ok [OF v(2) p, of "terminated buf len" 0 len] assms(5) by (auto simp: v(3))
  then show ?thesis using t(1) u(1) v(1) by blast
qed

lemma good_a: "good_name ''a''"
  by (simp add: good_name_def path_name_def)

lemma terminated_demo: "terminated [10, 20, 30] 3 = [10, 20, 0]"
  by (simp add: terminated_def numeral_eq_Suc)

theorem create_write_read_witness:
  "\<exists>s t u v w. fsutil_create ''/a'' 3 s = Some (True, t) \<and> fsutil_write ''/a'' [10, 20, 30] 3 t = Some ((3, [10, 20, 0]), u) \<and>
    fsutil_seek ''/a'' 0 u = Some (0, v) \<and> fsutil_read ''/a'' 3 v = Some (Some [10, 20, 0], w)"
proof -
  obtain i s where s: "store_ok big_inode i s" "view i s = Map.empty" "room_new i 3 s" by (rule formatted_disk)
  have "[10, 20, 30][nat (3 - 1) := 0] = [10, 20, 0 :: u8]" by (simp add: numeral_eq_Suc)
  moreover have "view i s ''a'' = None" by (simp add: s(2))
  note create_write_read [OF s(1) good_a this s(3), of "[10, 20, 30]", unfolded terminated_demo]
  ultimately obtain t u v w where "fsutil_create ''/a'' 3 s = Some (True, t)" "fsutil_write ''/a'' [10, 20, 30] 3 t = Some ((3, [10, 20, 0]), u)"
    "fsutil_seek ''/a'' 0 u = Some (0, v)" "fsutil_read ''/a'' 3 v = Some (Some [10, 20, 0], w)" by auto
  then show ?thesis by (intro exI conjI)
qed

text \<open>
  C6: A file that is created and removed again leaves no trace: the same files have the same
  content and positions, and as many sectors are free as before.
\<close>

theorem create_remove_restores:
  assumes "store_ok f i s" and "good_name name" and "view i s name = None" and "room_new i len s"
  shows "\<exists>t u. fsutil_create (in_root name) len s = Some (True, t) \<and> fsutil_rm (in_root name) t = Some (True, u) \<and> store_ok f i u \<and>
    view i u = view i s \<and> free_count u = free_count s"
proof -
  obtain t where t: "fsutil_create (in_root name) len s = Some (True, t)" "store_ok f i t"
    "view i t = (view i s)(name \<mapsto> (replicate (nat len) 0, 0))" "free_count t + Suc (sectors_for (bytes_to_sectors len)) = free_count s"
    using create_view [OF assms] by blast
  have "path_name name" "view i t name = Some (replicate (nat len) 0, 0)" using assms(2) by (simp_all add: good_name_def t(3))
  from fsutil_rm_ok [OF t(2) this] obtain u where "fsutil_rm (in_root name) t = Some (True, u)" "store_ok f i u"
    "view i u = view i s" "free_count u = free_count s"
    using t(4) assms(3,4) by (auto simp: t(3) fun_upd_idem room_new_def)
  then show ?thesis using t(1) by blast
qed

theorem create_remove_restores_witness:
  "\<exists>i s t u. fsutil_create ''/a'' 3 s = Some (True, t) \<and> fsutil_rm ''/a'' t = Some (True, u) \<and> view i u = Map.empty \<and> free_count u = 949"
proof -
  obtain i s where s: "store_ok big_inode i s" "view i s = Map.empty" "room_new i 3 s" "free_count s = 949" by (rule formatted_disk)
  then show ?thesis using create_remove_restores [OF s(1) good_a _ s(3)] by auto
qed

text \<open>
  C1: The file system refines a map from names to bytes and positions: every feasible sequence of
  the commands that create, write, read, seek, measure and remove files of the root directory runs
  without an error, gives the replies of the same sequence on the map, and ends in a disk that is in
  order and has the final map as its view. Files stay open from one command to the next. No sector is
  lost on the way: the free sectors and those the files need add up to the same number.
\<close>

theorem session_refines:
  assumes "store_ok f i s" and "feasible (allowed i) run_file_command cs s"
  shows "\<exists>rs t. run_all run_file_command cs s = Some (rs, t) \<and> store_ok f i t \<and> spec_all map_command cs (view i s) = (rs, view i t) \<and>
    free_count t + usage (view i t) = free_count s + usage (view i s)"
  by (rule sectors.run_total [OF assms])

text \<open>
  The read after the write starts two bytes before the end of what was written; after the seek, a
  read returns everything.
\<close>

theorem session_refines_witness:
  "\<exists>i s rs t. view i s = Map.empty \<and> run_all run_file_command [Create ''a'' 3, Write ''a'' [10, 20, 30] 3, Read ''a'' 3,
      Seek ''a'' 0, Read ''a'' 5, Size ''a'', Remove ''a''] s = Some (rs, t) \<and>
    rs = [Success True, Number 3, Bytes (Some [20, 0]), Number 0, Bytes (Some [10, 20, 0]), Number 3, Success True] \<and>
    view i t = Map.empty \<and> free_count t = 949"
proof -
  let ?cs = "[Create ''a'' 3, Write ''a'' [10, 20, 30] 3, Read ''a'' 3, Seek ''a'' 0, Read ''a'' 5, Size ''a'', Remove ''a'']"
    and ?rs = "[Success True, Number 3, Bytes (Some [20, 0]), Number 0, Bytes (Some [10, 20, 0]), Number 3, Success True]"
  obtain i s where s: "store_ok big_inode i s" "view i s = Map.empty" "room_new i 3 s" "free_count s = 949" by (rule formatted_disk)
  have v: "overwrite (pad_to (nat 3) (replicate (nat 3) 0)) 0 [10, 20, 0] = [10, 20, 0 :: u8]"
    by (simp add: overwrite_def pad_to_def numeral_eq_Suc)
  have "allowed i (Create ''a'' 3) s" using s(2,3) good_a by simp
  then obtain t1 where t1: "run_file_command (Create ''a'' 3) s = Some (Success True, t1)" "store_ok big_inode i t1" "view i t1 = [''a'' \<mapsto> (replicate (nat 3) 0, 0)]"
    by (rule disk.stepE [OF s(1)]) (simp only: map_command.simps s(2))
  have "room_for (replicate (nat 3) 0) (0 + 3) t1" using s(3) by (simp add: room_new_def room_for_def sectors_added_def)
  then have "allowed i (Write ''a'' [10, 20, 30] 3) t1" using good_a by (simp add: t1(3))
  then obtain t2 where t2: "run_file_command (Write ''a'' [10, 20, 30] 3) t1 = Some (Number 3, t2)" "store_ok big_inode i t2" "view i t2 = [''a'' \<mapsto> ([10, 20, 0], 1)]"
    by (rule disk.stepE [OF t1(2)]) (use v in \<open>simp add: t1(3) terminated_demo\<close>)
  have a2: "allowed i (Read ''a'' 3) t2" using good_a by (simp add: t2(3))
  then obtain t3 where t3: "run_file_command (Read ''a'' 3) t2 = Some (Bytes (Some [20, 0]), t3)" "store_ok big_inode i t3" "view i t3 = [''a'' \<mapsto> ([10, 20, 0], 3)]"
    by (rule disk.stepE [OF t2(2)]) (simp add: t2(3) numeral_eq_Suc)
  have a3: "allowed i (Seek ''a'' 0) t3" using good_a by (simp add: t3(3))
  then obtain t4 where t4: "run_file_command (Seek ''a'' 0) t3 = Some (Number 0, t4)" "store_ok big_inode i t4" "view i t4 = [''a'' \<mapsto> ([10, 20, 0], 0)]"
    by (rule disk.stepE [OF t3(2)]) (simp add: t3(3))
  have a4: "allowed i (Read ''a'' 5) t4" using good_a by (simp add: t4(3))
  then obtain t5 where t5: "run_file_command (Read ''a'' 5) t4 = Some (Bytes (Some [10, 20, 0]), t5)" "store_ok big_inode i t5" "view i t5 = [''a'' \<mapsto> ([10, 20, 0], 3)]"
    by (rule disk.stepE [OF t4(2)]) (simp add: t4(3) numeral_eq_Suc)
  have a5: "allowed i (Size ''a'') t5" using good_a by (simp add: t5(3))
  then obtain t6 where t6: "run_file_command (Size ''a'') t5 = Some (Number 3, t6)" "store_ok big_inode i t6" "view i t6 = [''a'' \<mapsto> ([10, 20, 0], 3)]"
    by (rule disk.stepE [OF t5(2)]) (simp add: t5(3))
  have a6: "allowed i (Remove ''a'') t6" using good_a by (simp add: t6(3))
  have "feasible (allowed i) run_file_command ?cs s"
    unfolding feasible.simps t1(1) t2(1) t3(1) t4(1) t5(1) t6(1) option.inject prod.inject
    using \<open>allowed i (Create ''a'' 3) s\<close> \<open>allowed i (Write ''a'' [10, 20, 30] 3) t1\<close> a2 a3 a4 a5 a6 t1(1) t2(1) t3(1) t4(1) t5(1) t6(1) by (auto simp del: run_file_command.simps allowed.simps)
  from session_refines [OF s(1) this] obtain rs t where t: "run_all run_file_command ?cs s = Some (rs, t)"
    "spec_all map_command ?cs (view i s) = (rs, view i t)" "free_count t + usage (view i t) = free_count s + usage (view i s)" by blast
  have "spec_all map_command ?cs (view i s) = (?rs, Map.empty)" using v by (simp add: s(2) terminated_demo numeral_eq_Suc)
  with t(2) have "(rs, view i t) = (?rs, Map.empty)" by (simp only:)
  then have "view i t = Map.empty" "rs = ?rs" by (simp_all only: prod.inject)
  then show ?thesis using t(1,3) s(2,4) by (intro exI conjI; (assumption | simp))
qed

end
