(* ===== verification/Fs_Debug.thy ===== *)
theory Fs_Debug
  imports Fs_Util
begin

text \<open>
  Diagnostic output: sizes in a readable form (\<open>fs/debug.c\<close>) and the dump of a bitmap
  (\<open>fs/bitmap.c\<close>), and bitmaps in memory of the caller, which nothing else uses.
\<close>

section \<open>Readable sizes\<close>

definition factors :: "string list" where
  "factors = [''bytes'', ''kB'', ''MB'', ''GB'', ''TB'']"

text \<open>The loop divides until the number is small or the last unit is reached.\<close>

fun scale_size :: "u64 \<Rightarrow> string list \<Rightarrow> u64 \<times> string" where
  "scale_size n [] = (n, [])"
| "scale_size n [f] = (n, f)"
| "scale_size n (f # g # fs) = (if 1024 \<le> n then scale_size (n div 1024) (g # fs) else (n, f))"

definition print_human_readable_size :: "u64 \<Rightarrow> string" where
  "print_human_readable_size n =
    (if n = 1 then ''1 byte'' else let (k, f) = scale_size n factors in show_nat (unat k) @ '' '' @ f)"

lemma scale_size_unit:
  assumes "fs \<noteq> []"
  shows "\<exists>j k. scale_size n fs = (k, fs ! j) \<and> j < length fs \<and> unat k = unat n div 1024 ^ j \<and>
    (Suc j < length fs \<longrightarrow> unat k < 1024) \<and> (0 < j \<longrightarrow> 0 < unat k)"
  using assms
proof (induction n fs rule: scale_size.induct)
  case (2 n f)
  then show ?case by (intro exI [of _ 0] exI [of _ n]) simp
next
  case (3 n f g fs)
  show ?case
  proof (cases "1024 \<le> n")
    case True
    from "3.IH" [OF True list.distinct(2)] obtain j k where j: "scale_size (n div 1024) (g # fs) = (k, (g # fs) ! j)" "j < length (g # fs)"
      "unat k = unat (n div 1024) div 1024 ^ j" "Suc j < length (g # fs) \<longrightarrow> unat k < 1024" "0 < j \<longrightarrow> 0 < unat k"
      by (elim exE conjE) (rule that; assumption)
    have n: "unat (n div 1024) = unat n div 1024" by (simp add: unat_div)
    have "1024 \<le> unat n" using True by (simp add: word_le_nat_alt)
    then have "0 < unat n div 1024" by (simp add: div_greater_zero_iff)
    then have "0 < unat k" using j(3,5) n by (cases j) simp_all
    moreover have "unat k = unat n div 1024 ^ Suc j" using j(3) n by (simp add: div_mult2_eq)
    ultimately show ?thesis using True j by (intro exI [of _ "Suc j"] exI [of _ k]) simp
  next
    case False
    then show ?thesis by (intro exI [of _ 0] exI [of _ n]) (simp add: word_le_nat_alt not_le)
  qed
qed simp

text \<open>The number that is printed has at most four digits, unless it counts the largest unit, and is not 0.\<close>

lemma print_human_readable_size_unit:
  assumes "1 < unat n"
  shows "\<exists>j < 5. print_human_readable_size n = show_nat (unat n div 1024 ^ j) @ '' '' @ factors ! j \<and>
    (j < 4 \<longrightarrow> unat n div 1024 ^ j < 1024) \<and> 0 < unat n div 1024 ^ j"
proof -
  have "factors \<noteq> []" by (simp add: factors_def)
  from scale_size_unit [OF this, of n] obtain j k where j: "scale_size n factors = (k, factors ! j)" "j < length factors" "unat k = unat n div 1024 ^ j"
    "Suc j < length factors \<longrightarrow> unat k < 1024" "0 < j \<longrightarrow> 0 < unat k"
    by (elim exE conjE) (rule that; assumption)
  moreover have "n \<noteq> 1" using assms by auto
  moreover have "0 < unat n div 1024 ^ j" using j(3,5) assms by (cases j) simp_all
  ultimately show ?thesis by (intro exI [of _ j]) (simp add: print_human_readable_size_def factors_def)
qed


section \<open>Bitmaps in the memory of the caller\<close>

text \<open>The head of a bitmap takes 16 bytes.\<close>

definition bitmap_buf_size :: "nat \<Rightarrow> nat" where
  "bitmap_buf_size cnt = 16 + byte_cnt cnt"

text \<open>In a block that is too small the bits lie outside of it.\<close>

definition bitmap_create_in_buf :: "nat \<Rightarrow> u8 list \<Rightarrow> bitmap option" where
  "bitmap_create_in_buf cnt block =
    (if length block < bitmap_buf_size cnt then None
     else bitmap_set_all \<lparr>bit_cnt = cnt, bits = le_chunks 8 (elem_cnt cnt) (drop 16 block)\<rparr> False)"

lemma bitmap_create_in_buf_clear:
  assumes "bitmap_buf_size cnt \<le> length block"
  shows "\<exists>b. bitmap_create_in_buf cnt block = Some b \<and> bm_ok b \<and> bools b = replicate cnt False"
proof -
  let ?b = "\<lparr>bit_cnt = cnt, bits = le_chunks 8 (elem_cnt cnt) (drop 16 block)\<rparr>"
  have "bm_ok ?b" by (simp add: bm_ok_def)
  from bitmap_set_multiple_ok [OF this, of 0 cnt False] obtain b where
    b: "bitmap_set_multiple ?b 0 cnt False = Some b" "bm_ok b" "bit_cnt b = cnt" "bools b = overwrite (bools ?b) 0 (replicate cnt False)"
    by auto
  have "overwrite (bools ?b) 0 (replicate cnt False) = replicate cnt False" by (simp add: overwrite_def bools_def)
  then show ?thesis using assms b by (simp add: bitmap_create_in_buf_def bitmap_set_all_def bitmap_size_def)
qed

section \<open>The dump of a bitmap\<close>

definition bitmap_dump :: "bitmap \<Rightarrow> string list" where
  "bitmap_dump b = hex_dump 0 (take (byte_cnt (bit_cnt b)) (bitmap_bytes b)) False"

end
