(* ===== verification/Links.thy ===== *)
theory Links
  imports Prelude
begin

text \<open>
  Cells with a pointer to the next and one to the previous cell, as the two list libraries
  of the repository use them: \<open>linked_list.c\<close> and \<open>fs/list.c\<close>. The heap is a map from
  addresses to cells. What cells are linked to each other is seen through the functions
  \<open>nx\<close> and \<open>pv\<close>, and \<open>chain\<close> says that a list of cells is linked in both directions.

  The locale \<open>deque\<close> is the contract the two libraries share.
\<close>

section \<open>Cells\<close>

text \<open>\<open>None\<close> is the null pointer, or a pointer that was never written.\<close>

record link =
  nnext :: "nat option"
  nprev :: "nat option"

type_synonym 'a links = "nat \<Rightarrow> 'a link_scheme option"

definition set_next :: "nat \<Rightarrow> nat option \<Rightarrow> 'a links \<Rightarrow> 'a links option" where
  "set_next p q h = map_option (\<lambda>n. h(p \<mapsto> n\<lparr>nnext := q\<rparr>)) (h p)"

definition set_prev :: "nat \<Rightarrow> nat option \<Rightarrow> 'a links \<Rightarrow> 'a links option" where
  "set_prev p q h = map_option (\<lambda>n. h(p \<mapsto> n\<lparr>nprev := q\<rparr>)) (h p)"

text \<open>\<open>p->prev->next = p->next; p->next->prev = p->prev;\<close>\<close>

definition unlink :: "nat \<Rightarrow> 'a links \<Rightarrow> 'a links option" where
  "unlink p h = do {
     n \<leftarrow> h p;
     a \<leftarrow> nprev n;
     h \<leftarrow> set_next a (nnext n) h;
     n \<leftarrow> h p;
     b \<leftarrow> nnext n;
     set_prev b (nprev n) h }"

definition nx :: "'a links \<Rightarrow> nat \<Rightarrow> nat option" where
  "nx h p = Option.bind (h p) nnext"

definition pv :: "'a links \<Rightarrow> nat \<Rightarrow> nat option" where
  "pv h p = Option.bind (h p) nprev"

section \<open>Chains\<close>

fun chain :: "'a links \<Rightarrow> nat list \<Rightarrow> bool" where
  "chain h [] = True"
| "chain h [a] = (a \<in> dom h)"
| "chain h (a # b # xs) = (a \<in> dom h \<and> nx h a = Some b \<and> pv h b = Some a \<and> chain h (b # xs))"

lemma chain_append: "chain h (xs @ a # ys) \<longleftrightarrow> chain h (xs @ [a]) \<and> chain h (a # ys)"
  by (induction xs rule: induct_list012) (auto, (cases ys; auto)+)

lemma chain_dom: "chain h xs \<Longrightarrow> set xs \<subseteq> dom h"
  by (induction h xs rule: chain.induct) auto

text \<open>Two heaps that agree on the pointers a chain uses.\<close>

lemma chain_cong:
  assumes "\<forall>p \<in> set xs. p \<in> dom h \<longrightarrow> p \<in> dom h'" and "\<forall>p \<in> set (butlast xs). nx h' p = nx h p"
    and "\<forall>p \<in> set (tl xs). pv h' p = pv h p"
  shows "chain h xs \<Longrightarrow> chain h' xs"
  using assms by (induction h xs rule: chain.induct) (auto split: if_splits)

lemma chain_same:
  "\<forall>p \<in> set xs. p \<in> dom h' \<and> nx h' p = nx h p \<and> pv h' p = pv h p \<Longrightarrow> chain h xs \<Longrightarrow> chain h' xs"
  by (induction h xs rule: chain.induct) auto

lemma set_next_ok:
  assumes "p \<in> dom h"
  obtains h' where "set_next p q h = Some h'" and "dom h' = dom h" and "nx h' = (nx h)(p := q)" and "pv h' = pv h"
    and "\<And>x. map_option link.more (h' x) = map_option link.more (h x)"
proof -
  obtain n where n: "h p = Some n" using assms by auto
  show thesis
    by (rule that [of "h(p \<mapsto> n\<lparr>nnext := q\<rparr>)"]) (use n in \<open>auto simp: set_next_def nx_def pv_def fun_eq_iff\<close>)
qed

lemma set_prev_ok:
  assumes "p \<in> dom h"
  obtains h' where "set_prev p q h = Some h'" and "dom h' = dom h" and "pv h' = (pv h)(p := q)" and "nx h' = nx h"
    and "\<And>x. map_option link.more (h' x) = map_option link.more (h x)"
proof -
  obtain n where n: "h p = Some n" using assms by auto
  show thesis
    by (rule that [of "h(p \<mapsto> n\<lparr>nprev := q\<rparr>)"]) (use n in \<open>auto simp: set_prev_def nx_def pv_def fun_eq_iff\<close>)
qed

text \<open>Taking a cell out of a chain.\<close>

lemma unlink_ok:
  assumes "chain h (us @ a # p # b # vs)" and "distinct (us @ a # p # b # vs)"
  shows "\<exists>h'. unlink p h = Some h' \<and> chain h' (us @ a # b # vs) \<and> dom h' = dom h \<and>
    nx h' = (nx h)(a := Some b) \<and> pv h' = (pv h)(b := Some a) \<and>
    (\<forall>x. map_option link.more (h' x) = map_option link.more (h x))"
proof -
  have c: "chain h (us @ [a])" "chain h [a, p, b]" "chain h (b # vs)"
    using assms(1) chain_append [of h us a "p # b # vs"] chain_append [of h "[a, p]" b vs] by simp_all
  then have d: "a \<in> dom h" "p \<in> dom h" "b \<in> dom h" "nx h p = Some b" "pv h p = Some a" by auto
  then obtain n where n: "h p = Some n" "nnext n = Some b" "nprev n = Some a" by (auto simp: nx_def pv_def)
  obtain h1 where h1: "set_next a (Some b) h = Some h1" "dom h1 = dom h" "nx h1 = (nx h)(a := Some b)" "pv h1 = pv h"
      "\<And>x. map_option link.more (h1 x) = map_option link.more (h x)"
    using set_next_ok [OF d(1)] by blast
  have "p \<noteq> a" using assms(2) by auto
  then have n1: "h1 p = Some n" using h1(1) n(1) by (auto simp: set_next_def)
  have "b \<in> dom h1" using h1(2) d(3) by simp
  then obtain h2 where h2: "set_prev b (Some a) h1 = Some h2" "dom h2 = dom h1" "pv h2 = (pv h1)(b := Some a)" "nx h2 = nx h1"
      "\<And>x. map_option link.more (h2 x) = map_option link.more (h1 x)"
    using set_prev_ok by blast
  have "unlink p h = Some h2" using n n1 h1(1) h2(1) by (simp add: unlink_def)
  moreover have "chain h2 (us @ [a])"
    by (rule chain_cong [OF _ _ _ c(1)]) (use assms(2) h1 h2 in \<open>auto simp: tl_append split: list.split\<close>)
  moreover have "chain h2 (b # vs)"
    by (rule chain_cong [OF _ _ _ c(3)]) (use assms(2) h1 h2 in \<open>auto dest: in_set_butlastD\<close>)
  ultimately show ?thesis
    using h1 h2 d chain_append [of h2 us a "b # vs"] by auto
qed

text \<open>A heap in which the cell \<open>p\<close> has been linked in between \<open>a\<close> and \<open>b\<close>.\<close>

lemma chain_insert:
  assumes "chain h (us @ a # b # vs)" and "distinct (us @ a # p # b # vs)" and "p \<in> dom h'" and "dom h \<subseteq> dom h'"
    and "nx h' = (nx h)(a := Some p, p := Some b)" and "pv h' = (pv h)(p := Some a, b := Some p)"
  shows "chain h' (us @ a # p # b # vs)"
proof -
  have c: "chain h (us @ [a])" "chain h [a, b]" "chain h (b # vs)"
    using assms(1) chain_append [of h us a "b # vs"] chain_append [of h "[a]" b vs] by simp_all
  have "chain h' (us @ [a])"
    by (rule chain_cong [OF _ _ _ c(1)]) (use assms in \<open>auto simp: tl_append split: list.split\<close>)
  moreover have "chain h' (b # vs)"
    by (rule chain_cong [OF _ _ _ c(3)]) (use assms in \<open>auto dest: in_set_butlastD\<close>)
  moreover have "a \<in> dom h'" using c(2) assms(4) by auto
  ultimately show ?thesis
    using assms chain_append [of h' us a "p # b # vs"] by auto
qed

section \<open>The contract of a double-ended queue\<close>

text \<open>
  \<open>view s xs\<close> says that the state \<open>s\<close> holds the sequence \<open>xs\<close>, and \<open>new d s\<close> that \<open>d\<close> may be
  put into it.
\<close>

locale deque =
  fixes view :: "'s \<Rightarrow> 'd list \<Rightarrow> bool"
    and new :: "'d \<Rightarrow> 's \<Rightarrow> bool"
    and push_front :: "'d \<Rightarrow> 's \<Rightarrow> 's option"
    and push_back :: "'d \<Rightarrow> 's \<Rightarrow> 's option"
    and pop_front :: "'s \<Rightarrow> ('d \<times> 's) option"
    and pop_back :: "'s \<Rightarrow> ('d \<times> 's) option"
  assumes push_front: "view s xs \<Longrightarrow> new d s \<Longrightarrow> \<exists>t. push_front d s = Some t \<and> view t (d # xs)"
    and push_back: "view s xs \<Longrightarrow> new d s \<Longrightarrow> \<exists>t. push_back d s = Some t \<and> view t (xs @ [d])"
    and pop_front: "view s (d # xs) \<Longrightarrow> \<exists>t. pop_front s = Some (d, t) \<and> view t xs \<and> new d t"
    and pop_back: "view s (xs @ [d]) \<Longrightarrow> \<exists>t. pop_back s = Some (d, t) \<and> view t xs \<and> new d t"
begin

text \<open>What was pushed at one end comes out at the same end.\<close>

lemma push_pop_front: "view s xs \<Longrightarrow> new d s \<Longrightarrow> \<exists>t u. push_front d s = Some t \<and> pop_front t = Some (d, u) \<and> view u xs"
  using push_front [of s xs d] pop_front by blast

lemma push_pop_back: "view s xs \<Longrightarrow> new d s \<Longrightarrow> \<exists>t u. push_back d s = Some t \<and> pop_back t = Some (d, u) \<and> view u xs"
  using push_back [of s xs d] pop_back by blast

text \<open>Rotation: the queue discipline of a round robin.\<close>

lemma rotate_view:
  assumes "view s (d # xs)"
  shows "\<exists>t u. pop_front s = Some (d, t) \<and> push_back d t = Some u \<and> view u (xs @ [d])"
  using pop_front [OF assms] push_back by blast

text \<open>Popping until the queue is empty gives the elements in order.\<close>

fun drain :: "nat \<Rightarrow> 's \<Rightarrow> ('d list \<times> 's) option" where
  "drain 0 s = Some ([], s)"
| "drain (Suc n) s = do { (d, s) \<leftarrow> pop_front s; (ds, s) \<leftarrow> drain n s; Some (d # ds, s) }"

lemma drain_view: "view s xs \<Longrightarrow> \<exists>t. drain (length xs) s = Some (xs, t) \<and> view t []"
proof (induction xs arbitrary: s)
  case (Cons d xs)
  then obtain t where t: "pop_front s = Some (d, t)" "view t xs" using pop_front by blast
  with Cons.IH [OF t(2)] show ?case by auto
qed simp

end

end
