(* ===== verification/Fs_List.thy ===== *)
theory Fs_List
  imports Links "HOL-Library.Multiset"
begin

text \<open>
  The intrusive lists of the file system: \<open>fs/list.c\<close>. An element is a cell with two pointers
  that lies inside a larger object, and is known by its address; the head and the tail of a
  list are two more cells. The comparison \<open>lt\<close> is an argument of the functions that use it,
  with the auxiliary data fixed. A failed assertion is counted and the call goes on.

  \<open>ring l h xs\<close> says that the list \<open>l\<close> consists of the elements \<open>xs\<close>. The lists are shown to
  be double-ended queues (the interpretation \<open>dl\<close>), and the operations on ordered lists
  to be the functions on sequences they are meant to be.
\<close>

record list_heap =
  elems :: "nat \<Rightarrow> link option"
  failed_asserts :: nat

record llist =
  head_elem :: nat
  tail_elem :: nat

type_synonym less_func = "nat \<Rightarrow> nat \<Rightarrow> bool"

section \<open>Elements\<close>

definition assert_that :: "bool \<Rightarrow> list_heap \<Rightarrow> list_heap" where
  "assert_that ok h = (if ok then h else h\<lparr>failed_asserts := Suc (failed_asserts h)\<rparr>)"

definition upd_elems :: "((nat \<Rightarrow> link option) \<Rightarrow> (nat \<Rightarrow> link option) option) \<Rightarrow> list_heap \<Rightarrow> list_heap option" where
  "upd_elems f h = map_option (\<lambda>c. h\<lparr>elems := c\<rparr>) (f (elems h))"

definition is_head :: "nat option \<Rightarrow> list_heap \<Rightarrow> bool option" where
  "is_head e h = (case e of None \<Rightarrow> Some False
     | Some p \<Rightarrow> map_option (\<lambda>n. nprev n = None \<and> nnext n \<noteq> None) (elems h p))"

definition is_interior :: "nat option \<Rightarrow> list_heap \<Rightarrow> bool option" where
  "is_interior e h = (case e of None \<Rightarrow> Some False
     | Some p \<Rightarrow> map_option (\<lambda>n. nprev n \<noteq> None \<and> nnext n \<noteq> None) (elems h p))"

definition is_tail :: "nat option \<Rightarrow> list_heap \<Rightarrow> bool option" where
  "is_tail e h = (case e of None \<Rightarrow> Some False
     | Some p \<Rightarrow> map_option (\<lambda>n. nprev n \<noteq> None \<and> nnext n = None) (elems h p))"

definition llist_init :: "llist \<Rightarrow> list_heap \<Rightarrow> list_heap option" where
  "llist_init l h = do {
     h \<leftarrow> upd_elems (set_prev (head_elem l) None) h;
     h \<leftarrow> upd_elems (set_next (head_elem l) (Some (tail_elem l))) h;
     h \<leftarrow> upd_elems (set_prev (tail_elem l) (Some (head_elem l))) h;
     upd_elems (set_next (tail_elem l) None) h }"

text \<open>The result of a function that returns a pointer may be null.\<close>

definition list_begin :: "llist \<Rightarrow> list_heap \<Rightarrow> nat option option" where
  "list_begin l h = map_option nnext (elems h (head_elem l))"

definition list_next :: "nat \<Rightarrow> list_heap \<Rightarrow> (nat option \<times> list_heap) option" where
  "list_next e h = do {
     b \<leftarrow> is_head (Some e) h;
     c \<leftarrow> is_interior (Some e) h;
     n \<leftarrow> elems h e;
     Some (nnext n, assert_that (b \<or> c) h) }"

definition list_end :: "llist \<Rightarrow> nat" where
  "list_end l = tail_elem l"

definition list_rbegin :: "llist \<Rightarrow> list_heap \<Rightarrow> nat option option" where
  "list_rbegin l h = map_option nprev (elems h (tail_elem l))"

definition list_prev :: "nat \<Rightarrow> list_heap \<Rightarrow> (nat option \<times> list_heap) option" where
  "list_prev e h = do {
     b \<leftarrow> is_interior (Some e) h;
     c \<leftarrow> is_tail (Some e) h;
     n \<leftarrow> elems h e;
     Some (nprev n, assert_that (b \<or> c) h) }"

definition list_rend :: "llist \<Rightarrow> nat" where
  "list_rend l = head_elem l"

definition list_head :: "llist \<Rightarrow> nat" where
  "list_head l = head_elem l"

definition list_tail :: "llist \<Rightarrow> nat" where
  "list_tail l = tail_elem l"

section \<open>Insertion and removal\<close>

definition list_insert :: "nat \<Rightarrow> nat \<Rightarrow> list_heap \<Rightarrow> list_heap option" where
  "list_insert before e h = do {
     b \<leftarrow> is_interior (Some before) h;
     c \<leftarrow> is_tail (Some before) h;
     let h = assert_that (b \<or> c) h;
     n \<leftarrow> elems h before;
     h \<leftarrow> upd_elems (set_prev e (nprev n)) h;
     h \<leftarrow> upd_elems (set_next e (Some before)) h;
     n \<leftarrow> elems h before;
     p \<leftarrow> nprev n;
     h \<leftarrow> upd_elems (set_next p (Some e)) h;
     upd_elems (set_prev before (Some e)) h }"

text \<open>The pointers written by \<open>list_splice\<close>; the last element is the one before \<open>last_e\<close>.\<close>

definition relink :: "nat \<Rightarrow> nat \<Rightarrow> nat \<Rightarrow> (nat \<Rightarrow> link option) \<Rightarrow> (nat \<Rightarrow> link option) option" where
  "relink before first_e last_e c = do {
     n \<leftarrow> c first_e;
     a \<leftarrow> nprev n;
     m \<leftarrow> c last_e;
     c \<leftarrow> set_next a (nnext m) c;
     m \<leftarrow> c last_e;
     b \<leftarrow> nnext m;
     n \<leftarrow> c first_e;
     c \<leftarrow> set_prev b (nprev n) c;
     k \<leftarrow> c before;
     c \<leftarrow> set_prev first_e (nprev k) c;
     c \<leftarrow> set_next last_e (Some before) c;
     k \<leftarrow> c before;
     x \<leftarrow> nprev k;
     c \<leftarrow> set_next x (Some first_e) c;
     set_prev before (Some last_e) c }"

definition list_splice :: "nat \<Rightarrow> nat \<Rightarrow> nat \<Rightarrow> list_heap \<Rightarrow> list_heap option" where
  "list_splice before first_e last_e h = do {
     b \<leftarrow> is_interior (Some before) h;
     c \<leftarrow> is_tail (Some before) h;
     let h = assert_that (b \<or> c) h;
     if first_e = last_e then Some h
     else do {
       (q, h) \<leftarrow> list_prev last_e h;
       b \<leftarrow> is_interior (Some first_e) h;
       let h = assert_that b h;
       b \<leftarrow> is_interior q h;
       let h = assert_that b h;
       last_e \<leftarrow> q;
       upd_elems (relink before first_e last_e) h } }"

definition list_remove :: "nat \<Rightarrow> list_heap \<Rightarrow> (nat option \<times> list_heap) option" where
  "list_remove e h = do {
     b \<leftarrow> is_interior (Some e) h;
     h \<leftarrow> upd_elems (unlink e) (assert_that b h);
     n \<leftarrow> elems h e;
     Some (nnext n, h) }"

definition list_push_front :: "llist \<Rightarrow> nat \<Rightarrow> list_heap \<Rightarrow> list_heap option" where
  "list_push_front l e h = do { q \<leftarrow> list_begin l h; before \<leftarrow> q; list_insert before e h }"

definition list_push_back :: "llist \<Rightarrow> nat \<Rightarrow> list_heap \<Rightarrow> list_heap option" where
  "list_push_back l e h = list_insert (list_end l) e h"

definition list_empty :: "llist \<Rightarrow> list_heap \<Rightarrow> bool option" where
  "list_empty l h = map_option (\<lambda>q. q = Some (list_end l)) (list_begin l h)"

definition list_front :: "llist \<Rightarrow> list_heap \<Rightarrow> (nat option \<times> list_heap) option" where
  "list_front l h = do { b \<leftarrow> list_empty l h; q \<leftarrow> list_begin l h; Some (q, assert_that (\<not> b) h) }"

definition list_back :: "llist \<Rightarrow> list_heap \<Rightarrow> (nat option \<times> list_heap) option" where
  "list_back l h = do { b \<leftarrow> list_empty l h; q \<leftarrow> list_rbegin l h; Some (q, assert_that (\<not> b) h) }"

definition list_pop_front :: "llist \<Rightarrow> list_heap \<Rightarrow> (nat \<times> list_heap) option" where
  "list_pop_front l h = do {
     (q, h) \<leftarrow> list_front l h;
     e \<leftarrow> q;
     (r, h) \<leftarrow> list_remove e h;
     Some (e, h) }"

definition list_pop_back :: "llist \<Rightarrow> list_heap \<Rightarrow> (nat \<times> list_heap) option" where
  "list_pop_back l h = do {
     (q, h) \<leftarrow> list_back l h;
     e \<leftarrow> q;
     (r, h) \<leftarrow> list_remove e h;
     Some (e, h) }"

section \<open>Traversals\<close>

text \<open>
  A traversal from an element to the end. A list whose pointers run in a circle is followed
  for ever, which is \<open>None\<close>.
\<close>

partial_function (option) size_from :: "llist \<Rightarrow> nat \<Rightarrow> nat option \<Rightarrow> list_heap \<Rightarrow> (nat \<times> list_heap) option" where
  "size_from l cnt q h = do {
     e \<leftarrow> q;
     if e = list_end l then Some (cnt, h)
     else do { (q, h) \<leftarrow> list_next e h; size_from l (Suc cnt) q h } }"

definition list_size :: "llist \<Rightarrow> list_heap \<Rightarrow> (nat \<times> list_heap) option" where
  "list_size l h = do { q \<leftarrow> list_begin l h; size_from l 0 q h }"

text \<open>Exchanging the two pointers of an element, and going on to what was the next one.\<close>

definition swap_links :: "nat \<Rightarrow> (nat \<Rightarrow> link option) \<Rightarrow> (nat \<Rightarrow> link option) option" where
  "swap_links e c = map_option (\<lambda>n. c(e \<mapsto> n\<lparr>nprev := nnext n, nnext := nprev n\<rparr>)) (c e)"

partial_function (option) reverse_from :: "llist \<Rightarrow> nat option \<Rightarrow> list_heap \<Rightarrow> list_heap option" where
  "reverse_from l q h = do {
     e \<leftarrow> q;
     if e = list_end l then Some h
     else do {
       h \<leftarrow> upd_elems (swap_links e) h;
       n \<leftarrow> elems h e;
       reverse_from l (nprev n) h } }"

definition list_reverse :: "llist \<Rightarrow> list_heap \<Rightarrow> list_heap option" where
  "list_reverse l h = do {
     b \<leftarrow> list_empty l h;
     if b then Some h
     else do {
       q \<leftarrow> list_begin l h;
       h \<leftarrow> reverse_from l q h;
       n \<leftarrow> elems h (head_elem l);
       m \<leftarrow> elems h (tail_elem l);
       h \<leftarrow> upd_elems (set_next (head_elem l) (nprev m)) h;
       h \<leftarrow> upd_elems (set_prev (tail_elem l) (nnext n)) h;
       a \<leftarrow> nprev m;
       b \<leftarrow> nnext n;
       na \<leftarrow> elems h a;
       nb \<leftarrow> elems h b;
       h \<leftarrow> upd_elems (set_prev a (nnext nb)) h;
       upd_elems (set_next b (nprev na)) h } }"

section \<open>Ordered lists\<close>

partial_function (option) sorted_loop :: "nat \<Rightarrow> nat \<Rightarrow> less_func \<Rightarrow> list_heap \<Rightarrow> (bool \<times> list_heap) option" where
  "sorted_loop a b lt h = do {
     (q, h) \<leftarrow> list_next a h;
     if q = Some b then Some (True, h)
     else do {
       a \<leftarrow> q;
       (r, h) \<leftarrow> list_prev a h;
       p \<leftarrow> r;
       if lt a p then Some (False, h) else sorted_loop a b lt h } }"

definition is_sorted :: "nat \<Rightarrow> nat \<Rightarrow> less_func \<Rightarrow> list_heap \<Rightarrow> (bool \<times> list_heap) option" where
  "is_sorted a b lt h = (if a \<noteq> b then sorted_loop a b lt h else Some (True, h))"

partial_function (option) run_loop :: "nat \<Rightarrow> nat \<Rightarrow> less_func \<Rightarrow> list_heap \<Rightarrow> (nat \<times> list_heap) option" where
  "run_loop a b lt h = do {
     (q, h) \<leftarrow> list_next a h;
     a \<leftarrow> q;
     if a = b then Some (a, h)
     else do {
       (r, h) \<leftarrow> list_prev a h;
       p \<leftarrow> r;
       if lt a p then Some (a, h) else run_loop a b lt h } }"

definition find_end_of_run :: "nat \<Rightarrow> nat \<Rightarrow> less_func \<Rightarrow> list_heap \<Rightarrow> (nat \<times> list_heap) option" where
  "find_end_of_run a b lt h = run_loop a b lt (assert_that (a \<noteq> b) h)"

partial_function (option) merge_loop :: "nat \<Rightarrow> nat \<Rightarrow> nat \<Rightarrow> less_func \<Rightarrow> list_heap \<Rightarrow> list_heap option" where
  "merge_loop a0 a1b0 b1 lt h =
    (if a0 \<noteq> a1b0 \<and> a1b0 \<noteq> b1 then
       if \<not> lt a1b0 a0 then do {
         (q, h) \<leftarrow> list_next a0 h;
         a0 \<leftarrow> q;
         merge_loop a0 a1b0 b1 lt h }
       else do {
         (q, h) \<leftarrow> list_next a1b0 h;
         a1b0 \<leftarrow> q;
         (q, h) \<leftarrow> list_prev a1b0 h;
         p \<leftarrow> q;
         h \<leftarrow> list_splice a0 p a1b0 h;
         merge_loop a0 a1b0 b1 lt h }
     else Some h)"

definition inplace_merge :: "nat \<Rightarrow> nat \<Rightarrow> nat \<Rightarrow> less_func \<Rightarrow> list_heap \<Rightarrow> list_heap option" where
  "inplace_merge a0 a1b0 b1 lt h = do {
     (b, h) \<leftarrow> is_sorted a0 a1b0 lt h;
     let h = assert_that b h;
     (b, h) \<leftarrow> is_sorted a1b0 b1 lt h;
     merge_loop a0 a1b0 b1 lt (assert_that b h) }"

text \<open>One pass over the list; the result is the number of runs that were put out.\<close>

partial_function (option) sort_pass :: "llist \<Rightarrow> nat \<Rightarrow> nat \<Rightarrow> less_func \<Rightarrow> list_heap \<Rightarrow> (nat \<times> list_heap) option" where
  "sort_pass l a0 cnt lt h =
    (if a0 = list_end l then Some (cnt, h)
     else do {
       (a1b0, h) \<leftarrow> find_end_of_run a0 (list_end l) lt h;
       if a1b0 = list_end l then Some (Suc cnt, h)
       else do {
         (b1, h) \<leftarrow> find_end_of_run a1b0 (list_end l) lt h;
         h \<leftarrow> inplace_merge a0 a1b0 b1 lt h;
         sort_pass l b1 (Suc cnt) lt h } })"

partial_function (option) sort_loop :: "llist \<Rightarrow> less_func \<Rightarrow> list_heap \<Rightarrow> list_heap option" where
  "sort_loop l lt h = do {
     q \<leftarrow> list_begin l h;
     a0 \<leftarrow> q;
     (output_run_cnt, h) \<leftarrow> sort_pass l a0 0 lt h;
     if output_run_cnt > 1 then sort_loop l lt h else Some h }"

definition list_sort :: "llist \<Rightarrow> less_func \<Rightarrow> list_heap \<Rightarrow> list_heap option" where
  "list_sort l lt h = do {
     h \<leftarrow> sort_loop l lt h;
     q \<leftarrow> list_begin l h;
     a \<leftarrow> q;
     (b, h) \<leftarrow> is_sorted a (list_end l) lt h;
     Some (assert_that b h) }"

partial_function (option) insert_place :: "llist \<Rightarrow> nat option \<Rightarrow> nat \<Rightarrow> less_func \<Rightarrow> list_heap \<Rightarrow> (nat \<times> list_heap) option" where
  "insert_place l q x lt h = do {
     e \<leftarrow> q;
     if e = list_end l \<or> lt x e then Some (e, h)
     else do { (q, h) \<leftarrow> list_next e h; insert_place l q x lt h } }"

definition list_insert_ordered :: "llist \<Rightarrow> nat \<Rightarrow> less_func \<Rightarrow> list_heap \<Rightarrow> list_heap option" where
  "list_insert_ordered l x lt h = do {
     q \<leftarrow> list_begin l h;
     (e, h) \<leftarrow> insert_place l q x lt h;
     list_insert e x h }"

partial_function (option) unique_loop :: "llist \<Rightarrow> llist option \<Rightarrow> nat \<Rightarrow> less_func \<Rightarrow> list_heap \<Rightarrow> list_heap option" where
  "unique_loop l duplicates e lt h = do {
     (q, h) \<leftarrow> list_next e h;
     if q = Some (list_end l) then Some h
     else do {
       x \<leftarrow> q;
       if \<not> lt e x \<and> \<not> lt x e then do {
         (r, h) \<leftarrow> list_remove x h;
         h \<leftarrow> (case duplicates of None \<Rightarrow> Some h | Some d \<Rightarrow> list_push_back d x h);
         unique_loop l duplicates e lt h }
       else unique_loop l duplicates x lt h } }"

definition list_unique :: "llist \<Rightarrow> llist option \<Rightarrow> less_func \<Rightarrow> list_heap \<Rightarrow> list_heap option" where
  "list_unique l duplicates lt h = do {
     b \<leftarrow> list_empty l h;
     if b then Some h
     else do {
       q \<leftarrow> list_begin l h;
       e \<leftarrow> q;
       unique_loop l duplicates e lt h } }"

text \<open>The search for the best element; \<open>better\<close> compares the best one so far with the next.\<close>

partial_function (option) best_from :: "llist \<Rightarrow> nat \<Rightarrow> nat option \<Rightarrow> less_func \<Rightarrow> list_heap \<Rightarrow> (nat \<times> list_heap) option" where
  "best_from l best q better h = do {
     e \<leftarrow> q;
     if e = list_end l then Some (best, h)
     else do {
       (q, h) \<leftarrow> list_next e h;
       best_from l (if better best e then e else best) q better h } }"

definition list_max :: "llist \<Rightarrow> less_func \<Rightarrow> list_heap \<Rightarrow> (nat \<times> list_heap) option" where
  "list_max l lt h = do {
     q \<leftarrow> list_begin l h;
     best \<leftarrow> q;
     if best = list_end l then Some (best, h)
     else do { (q, h) \<leftarrow> list_next best h; best_from l best q lt h } }"

definition list_min :: "llist \<Rightarrow> less_func \<Rightarrow> list_heap \<Rightarrow> (nat \<times> list_heap) option" where
  "list_min l lt h = do {
     q \<leftarrow> list_begin l h;
     best \<leftarrow> q;
     if best = list_end l then Some (best, h)
     else do { (q, h) \<leftarrow> list_next best h; best_from l best q (\<lambda>b e. lt e b) h } }"

section \<open>Lists as sequences\<close>

abbreviation cells_of :: "llist \<Rightarrow> nat list \<Rightarrow> nat list" where
  "cells_of l xs \<equiv> head_elem l # xs @ [tail_elem l]"

definition ring :: "llist \<Rightarrow> list_heap \<Rightarrow> nat list \<Rightarrow> bool" where
  "ring l h xs \<longleftrightarrow> chain (elems h) (cells_of l xs) \<and> distinct (cells_of l xs) \<and>
     pv (elems h) (head_elem l) = None \<and> nx (elems h) (tail_elem l) = None"

lemma assert_that_True [simp]: "assert_that True h = h"
  by (simp add: assert_that_def)

lemma upd_elems_next:
  assumes "p \<in> dom (elems h)"
  obtains h' where "upd_elems (set_next p q) h = Some h'" and "dom (elems h') = dom (elems h)"
    and "nx (elems h') = (nx (elems h))(p := q)" and "pv (elems h') = pv (elems h)" and "failed_asserts h' = failed_asserts h"
proof -
  from set_next_ok [OF assms] obtain c where "set_next p q (elems h) = Some c" "dom c = dom (elems h)"
    "nx c = (nx (elems h))(p := q)" "pv c = pv (elems h)" by metis
  then show thesis by (intro that [of "h\<lparr>elems := c\<rparr>"]) (simp_all add: upd_elems_def)
qed

lemma upd_elems_prev:
  assumes "p \<in> dom (elems h)"
  obtains h' where "upd_elems (set_prev p q) h = Some h'" and "dom (elems h') = dom (elems h)"
    and "pv (elems h') = (pv (elems h))(p := q)" and "nx (elems h') = nx (elems h)" and "failed_asserts h' = failed_asserts h"
proof -
  from set_prev_ok [OF assms] obtain c where "set_prev p q (elems h) = Some c" "dom c = dom (elems h)"
    "pv c = (pv (elems h))(p := q)" "nx c = nx (elems h)" by metis
  then show thesis by (intro that [of "h\<lparr>elems := c\<rparr>"]) (simp_all add: upd_elems_def)
qed

lemma list_next_ok: "nx (elems h) a = Some b \<Longrightarrow> list_next a h = Some (Some b, h)"
  by (auto simp: list_next_def is_head_def is_interior_def nx_def bind_eq_Some_conv assert_that_def)

lemma list_prev_ok: "pv (elems h) b = Some a \<Longrightarrow> list_prev b h = Some (Some a, h)"
  by (auto simp: list_prev_def is_tail_def is_interior_def pv_def bind_eq_Some_conv assert_that_def)

lemma nx_Some: "nx c p = Some q \<longleftrightarrow> (\<exists>n. c p = Some n \<and> nnext n = Some q)"
  by (auto simp: nx_def bind_eq_Some_conv)

lemma pv_Some: "pv c p = Some q \<longleftrightarrow> (\<exists>n. c p = Some n \<and> nprev n = Some q)"
  by (auto simp: pv_def bind_eq_Some_conv)

lemma nx_dom: "nx c p = Some q \<Longrightarrow> p \<in> dom c"
  by (auto simp: nx_Some)

text \<open>Neighbours in a chain, and in a list.\<close>

lemma chain_links: "chain c (us @ a # b # vs) \<Longrightarrow> nx c a = Some b \<and> pv c b = Some a"
  using chain_append [of c us a "b # vs"] by simp

lemma cells_split:
  "cells_of l (us @ vs) = (butlast (head_elem l # us)) @ last (head_elem l # us) # hd (vs @ [tail_elem l]) # tl (vs @ [tail_elem l])"
proof -
  have "head_elem l # us = butlast (head_elem l # us) @ [last (head_elem l # us)]"
    using append_butlast_last_id [of "head_elem l # us"] by simp
  moreover have "vs @ [tail_elem l] = hd (vs @ [tail_elem l]) # tl (vs @ [tail_elem l])" by simp
  ultimately show ?thesis by (metis append_Cons append_assoc append_Nil)
qed

lemma ring_links:
  assumes "ring l h (us @ vs)"
  shows "nx (elems h) (last (head_elem l # us)) = Some (hd (vs @ [tail_elem l]))"
    and "pv (elems h) (hd (vs @ [tail_elem l])) = Some (last (head_elem l # us))"
  using assms chain_links unfolding ring_def cells_split by blast+

lemma ring_elem:
  assumes "ring l h (us @ e # vs)"
  shows "nx (elems h) e = Some (hd (vs @ [tail_elem l]))" and "pv (elems h) e = Some (last (head_elem l # us))"
  using ring_links(1) [of l h "us @ [e]" vs] ring_links(2) [of l h us "e # vs"] assms by auto

lemma ring_begin: "ring l h xs \<Longrightarrow> list_begin l h = Some (Some (hd (xs @ [tail_elem l])))"
  using ring_links(1) [of l h "[]" xs] by (auto simp: list_begin_def nx_Some)

lemma ring_rbegin: "ring l h xs \<Longrightarrow> list_rbegin l h = Some (Some (last (head_elem l # xs)))"
  using ring_links(2) [of l h xs "[]"] by (auto simp: list_rbegin_def pv_Some simp del: last.simps)

lemma ring_in_dom: "ring l h xs \<Longrightarrow> set (cells_of l xs) \<subseteq> dom (elems h)"
  unfolding ring_def using chain_dom by blast

lemma ring_tail_notin: "ring l h xs \<Longrightarrow> tail_elem l \<notin> set xs \<and> head_elem l \<notin> set xs \<and> head_elem l \<noteq> tail_elem l \<and> distinct xs"
  by (auto simp: ring_def)

lemma ring_cong:
  assumes "ring l h xs" and "\<forall>x \<in> set (cells_of l xs). x \<in> dom (elems h') \<and> nx (elems h') x = nx (elems h) x \<and> pv (elems h') x = pv (elems h) x"
  shows "ring l h' xs"
proof -
  have "chain (elems h') (cells_of l xs)"
    by (rule chain_same [of _ _ "elems h"]) (use assms in \<open>simp_all add: ring_def\<close>)
  with assms show ?thesis by (simp add: ring_def)
qed

lemma chain_unique:
  "chain c (a # xs @ [t]) \<Longrightarrow> chain c (a # ys @ [t]) \<Longrightarrow> t \<notin> set xs \<Longrightarrow> t \<notin> set ys \<Longrightarrow> xs = ys"
proof (induction xs arbitrary: a ys)
  case Nil
  then show ?case by (cases ys) auto
next
  case (Cons x xs)
  show ?case
  proof (cases ys)
    case Nil
    then show ?thesis using Cons.prems by auto
  next
    case (Cons y zs)
    then have "y = x" using Cons.prems by auto
    then show ?thesis using Cons.IH [of x zs] Cons.prems Cons by auto
  qed
qed

lemma ring_unique: "ring l h xs \<Longrightarrow> ring l h ys \<Longrightarrow> xs = ys"
  unfolding ring_def by (auto intro: chain_unique)

subsection \<open>Insertion and removal\<close>

lemma list_insert_links:
  assumes "pv (elems h) before = Some p" and "p \<in> dom (elems h)" and "e \<in> dom (elems h)" and "e \<noteq> before"
  shows "\<exists>h'. list_insert before e h = Some h' \<and> dom (elems h') = dom (elems h) \<and> failed_asserts h' = failed_asserts h \<and>
    nx (elems h') = (nx (elems h))(e := Some before, p := Some e) \<and> pv (elems h') = (pv (elems h))(e := Some p, before := Some e)"
proof -
  obtain n where n: "elems h before = Some n" "nprev n = Some p" using assms(1) by (auto simp: pv_Some)
  obtain h1 where h1: "upd_elems (set_prev e (Some p)) h = Some h1" "dom (elems h1) = dom (elems h)"
      "pv (elems h1) = (pv (elems h))(e := Some p)" "nx (elems h1) = nx (elems h)" "failed_asserts h1 = failed_asserts h"
    using upd_elems_prev [OF assms(3)] .
  obtain h2 where h2: "upd_elems (set_next e (Some before)) h1 = Some h2" "dom (elems h2) = dom (elems h1)"
      "nx (elems h2) = (nx (elems h1))(e := Some before)" "pv (elems h2) = pv (elems h1)" "failed_asserts h2 = failed_asserts h1"
    using upd_elems_next [of e h1] assms(3) h1(2) by metis
  have "pv (elems h2) before = Some p" using h1 h2 assms(1,4) by simp
  then obtain m where m: "elems h2 before = Some m" "nprev m = Some p" by (auto simp: pv_Some)
  obtain h3 where h3: "upd_elems (set_next p (Some e)) h2 = Some h3" "dom (elems h3) = dom (elems h2)"
      "nx (elems h3) = (nx (elems h2))(p := Some e)" "pv (elems h3) = pv (elems h2)" "failed_asserts h3 = failed_asserts h2"
    using upd_elems_next [of p h2] assms(2) h1(2) h2(2) by metis
  have "before \<in> dom (elems h3)" using m(1) h3(2) by auto
  then obtain h4 where h4: "upd_elems (set_prev before (Some e)) h3 = Some h4" "dom (elems h4) = dom (elems h3)"
      "pv (elems h4) = (pv (elems h3))(before := Some e)" "nx (elems h4) = nx (elems h3)" "failed_asserts h4 = failed_asserts h3"
    using upd_elems_prev by metis
  have "list_insert before e h = Some h4"
    using n m h1(1) h2(1) h3(1) h4(1)
    by (cases "nnext n = None") (simp_all add: list_insert_def is_interior_def is_tail_def)
  with h1 h2 h3 h4 show ?thesis by simp
qed

lemma list_insert_ring:
  assumes "ring l h (us @ vs)" and "e \<in> dom (elems h)" and "e \<notin> set (cells_of l (us @ vs))"
  shows "\<exists>h'. list_insert (hd (vs @ [tail_elem l])) e h = Some h' \<and> ring l h' (us @ e # vs) \<and> dom (elems h') = dom (elems h) \<and>
    failed_asserts h' = failed_asserts h \<and>
    (\<forall>x. x \<notin> set (cells_of l (us @ e # vs)) \<longrightarrow> nx (elems h') x = nx (elems h) x \<and> pv (elems h') x = pv (elems h) x)"
proof -
  let ?p = "last (head_elem l # us)" and ?b = "hd (vs @ [tail_elem l])"
  have r: "chain (elems h) (cells_of l (us @ vs))" "distinct (cells_of l (us @ vs))" "pv (elems h) (head_elem l) = None"
    "nx (elems h) (tail_elem l) = None" using assms(1) by (simp_all add: ring_def)
  have mem: "?p \<in> set (cells_of l (us @ vs))" "?b \<in> set (cells_of l (us @ vs))"
    by (cases us rule: rev_cases; simp) (cases vs; simp)
  have "?p \<in> dom (elems h)" using mem(1) ring_in_dom [OF assms(1)] by blast
  moreover have "e \<noteq> ?b" "e \<noteq> ?p" using mem assms(3) by metis+
  ultimately have e: "?p \<in> dom (elems h)" "e \<noteq> ?b" "e \<noteq> ?p" .
  from list_insert_links [OF ring_links(2) [OF assms(1)] e(1) assms(2) e(2)] obtain h' where h':
    "list_insert ?b e h = Some h'" "dom (elems h') = dom (elems h)" "failed_asserts h' = failed_asserts h"
    "nx (elems h') = (nx (elems h))(e := Some ?b, ?p := Some e)" "pv (elems h') = (pv (elems h))(e := Some ?p, ?b := Some e)"
    by metis
  have dis: "distinct (butlast (head_elem l # us) @ ?p # e # ?b # tl (vs @ [tail_elem l]))"
    using r(2) assms(3) unfolding cells_split by simp
  have nx': "nx (elems h') = (nx (elems h))(?p := Some e, e := Some ?b)"
    using h'(4) e(3) by (simp add: fun_upd_twist)
  have "chain (elems h') (butlast (head_elem l # us) @ ?p # e # ?b # tl (vs @ [tail_elem l]))"
  proof (rule chain_insert [OF _ dis _ _ nx' h'(5)])
    show "chain (elems h) (butlast (head_elem l # us) @ ?p # ?b # tl (vs @ [tail_elem l]))"
      using r(1) unfolding cells_split .
  qed (use h'(2) assms(2) in simp_all)
  moreover have "butlast (head_elem l # us) @ ?p # e # ?b # tl (vs @ [tail_elem l]) = cells_of l (us @ e # vs)"
  proof -
    have "butlast (head_elem l # us) @ [?p] = head_elem l # us" by (rule append_butlast_last_id) simp
    moreover have "?b # tl (vs @ [tail_elem l]) = vs @ [tail_elem l]" by simp
    ultimately show ?thesis by (metis append_Cons append_assoc append_Nil)
  qed
  ultimately have c: "chain (elems h') (cells_of l (us @ e # vs))" "distinct (cells_of l (us @ e # vs))"
    using dis by metis+
  have "head_elem l \<noteq> ?b" using r(2) by (cases vs) auto
  moreover have "tail_elem l \<noteq> ?p" using r(2) by (cases us rule: rev_cases) auto
  moreover have "head_elem l \<noteq> e" "tail_elem l \<noteq> e" using assms(3) by auto
  ultimately have "pv (elems h') (head_elem l) = None" "nx (elems h') (tail_elem l) = None"
    using r(3,4) h'(4,5) by simp_all
  with c have "ring l h' (us @ e # vs)" by (simp add: ring_def)
  moreover have "nx (elems h') x = nx (elems h) x \<and> pv (elems h') x = pv (elems h) x"
    if "x \<notin> set (cells_of l (us @ e # vs))" for x
  proof -
    have "x \<noteq> e" "x \<notin> set (cells_of l (us @ vs))" using that by auto
    then have "x \<noteq> e" "x \<noteq> ?p" "x \<noteq> ?b" using mem by metis+
    then show ?thesis using h'(4,5) by simp
  qed
  ultimately show ?thesis using h'(1-3) by blast
qed

lemma list_remove_ring:
  assumes "ring l h (us @ e # vs)"
  shows "\<exists>h'. list_remove e h = Some (Some (hd (vs @ [tail_elem l])), h') \<and> ring l h' (us @ vs) \<and> dom (elems h') = dom (elems h) \<and>
    failed_asserts h' = failed_asserts h \<and>
    (\<forall>x. x \<notin> set (cells_of l (us @ vs)) \<longrightarrow> nx (elems h') x = nx (elems h) x \<and> pv (elems h') x = pv (elems h) x)"
proof -
  let ?a = "last (head_elem l # us)" and ?b = "hd (vs @ [tail_elem l])"
  have r: "chain (elems h) (cells_of l (us @ e # vs))" "distinct (cells_of l (us @ e # vs))" "pv (elems h) (head_elem l) = None"
    "nx (elems h) (tail_elem l) = None" using assms by (simp_all add: ring_def)
  have full: "cells_of l (us @ e # vs) = butlast (head_elem l # us) @ ?a # e # ?b # tl (vs @ [tail_elem l])"
    using cells_split [of l us "e # vs"] by simp
  obtain c where c: "unlink e (elems h) = Some c" "chain c (butlast (head_elem l # us) @ ?a # ?b # tl (vs @ [tail_elem l]))"
      "dom c = dom (elems h)" "nx c = (nx (elems h))(?a := Some ?b)" "pv c = (pv (elems h))(?b := Some ?a)"
    using unlink_ok [OF r(1,2) [unfolded full]] by blast
  have e: "nx (elems h) e = Some ?b" "pv (elems h) e = Some ?a" by (rule ring_elem [OF assms])+
  have ab: "?a \<in> set (cells_of l (us @ vs))" "?b \<in> set (cells_of l (us @ vs))"
    by (cases us rule: rev_cases; simp) (cases vs; simp)
  then have "?a \<noteq> e" using r(2) by auto
  then have "nx c e = Some ?b" using c(4) e(1) by simp
  then obtain n where n: "c e = Some n" "nnext n = Some ?b" by (auto simp: nx_Some)
  let ?h' = "h\<lparr>elems := c\<rparr>"
  have "is_interior (Some e) h = Some True" using e by (auto simp: is_interior_def nx_Some pv_Some)
  then have "list_remove e h = Some (Some ?b, ?h')" using c(1) n by (simp add: list_remove_def upd_elems_def)
  moreover have "ring l ?h' (us @ vs)"
  proof -
    have "head_elem l \<noteq> ?b" using r(2) by (cases vs) auto
    moreover have "tail_elem l \<noteq> ?a" using r(2) by (cases us rule: rev_cases) auto
    moreover have "chain c (cells_of l (us @ vs))" using c(2) by (simp only: cells_split)
    moreover have "distinct (cells_of l (us @ vs))" using r(2) by auto
    ultimately show ?thesis using c(4,5) r(3,4) by (simp add: ring_def)
  qed
  moreover have "nx c x = nx (elems h) x \<and> pv c x = pv (elems h) x" if "x \<notin> set (cells_of l (us @ vs))" for x
    using that ab c(4,5) by (metis fun_upd_other)
  ultimately show ?thesis using c(3) by (intro exI [of _ ?h']) simp
qed

lemma llist_init_ring:
  assumes "head_elem l \<in> dom (elems h)" and "tail_elem l \<in> dom (elems h)" and "head_elem l \<noteq> tail_elem l"
  shows "\<exists>h'. llist_init l h = Some h' \<and> ring l h' [] \<and> dom (elems h') = dom (elems h) \<and> failed_asserts h' = failed_asserts h"
proof -
  obtain h1 where h1: "upd_elems (set_prev (head_elem l) None) h = Some h1" "dom (elems h1) = dom (elems h)"
      "pv (elems h1) = (pv (elems h))(head_elem l := None)" "nx (elems h1) = nx (elems h)" "failed_asserts h1 = failed_asserts h"
    using upd_elems_prev [OF assms(1)] .
  obtain h2 where h2: "upd_elems (set_next (head_elem l) (Some (tail_elem l))) h1 = Some h2" "dom (elems h2) = dom (elems h1)"
      "nx (elems h2) = (nx (elems h1))(head_elem l := Some (tail_elem l))" "pv (elems h2) = pv (elems h1)" "failed_asserts h2 = failed_asserts h1"
    using upd_elems_next assms(1) h1(2) by metis
  obtain h3 where h3: "upd_elems (set_prev (tail_elem l) (Some (head_elem l))) h2 = Some h3" "dom (elems h3) = dom (elems h2)"
      "pv (elems h3) = (pv (elems h2))(tail_elem l := Some (head_elem l))" "nx (elems h3) = nx (elems h2)" "failed_asserts h3 = failed_asserts h2"
    using upd_elems_prev assms(2) h1(2) h2(2) by metis
  obtain h4 where h4: "upd_elems (set_next (tail_elem l) None) h3 = Some h4" "dom (elems h4) = dom (elems h3)"
      "nx (elems h4) = (nx (elems h3))(tail_elem l := None)" "pv (elems h4) = pv (elems h3)" "failed_asserts h4 = failed_asserts h3"
    using upd_elems_next assms(2) h1(2) h2(2) h3(2) by metis
  have "llist_init l h = Some h4" using h1(1) h2(1) h3(1) h4(1) by (simp add: llist_init_def)
  with assms h1 h2 h3 h4 show ?thesis by (simp add: ring_def)
qed

subsection \<open>Double-ended queues\<close>

definition dl_view :: "llist \<times> list_heap \<Rightarrow> nat list \<Rightarrow> bool" where
  "dl_view lh xs \<longleftrightarrow> ring (fst lh) (snd lh) xs \<and> failed_asserts (snd lh) = 0"

definition dl_new :: "nat \<Rightarrow> llist \<times> list_heap \<Rightarrow> bool" where
  "dl_new e lh \<longleftrightarrow> e \<in> dom (elems (snd lh)) \<and> (\<exists>xs. ring (fst lh) (snd lh) xs \<and> e \<notin> set (cells_of (fst lh) xs))"

definition dl_push_front :: "nat \<Rightarrow> llist \<times> list_heap \<Rightarrow> (llist \<times> list_heap) option" where
  "dl_push_front e lh = map_option (Pair (fst lh)) (list_push_front (fst lh) e (snd lh))"

definition dl_push_back :: "nat \<Rightarrow> llist \<times> list_heap \<Rightarrow> (llist \<times> list_heap) option" where
  "dl_push_back e lh = map_option (Pair (fst lh)) (list_push_back (fst lh) e (snd lh))"

definition dl_pop_front :: "llist \<times> list_heap \<Rightarrow> (nat \<times> llist \<times> list_heap) option" where
  "dl_pop_front lh = map_option (\<lambda>(e, h). (e, fst lh, h)) (list_pop_front (fst lh) (snd lh))"

definition dl_pop_back :: "llist \<times> list_heap \<Rightarrow> (nat \<times> llist \<times> list_heap) option" where
  "dl_pop_back lh = map_option (\<lambda>(e, h). (e, fst lh, h)) (list_pop_back (fst lh) (snd lh))"

lemma dl_newD: "dl_new e (l, h) \<Longrightarrow> ring l h xs \<Longrightarrow> e \<in> dom (elems h) \<and> e \<notin> set (cells_of l xs)"
  using ring_unique unfolding dl_new_def fst_conv snd_conv by blast

lemma ring_empty: "ring l h xs \<Longrightarrow> list_empty l h = Some (xs = [])"
  using ring_begin [of l h xs] ring_tail_notin [of l h xs] by (cases xs) (auto simp: list_empty_def list_end_def)

lemma push_front_ring:
  assumes "ring l h xs" and "e \<in> dom (elems h)" and "e \<notin> set (cells_of l xs)"
  shows "\<exists>h'. list_push_front l e h = Some h' \<and> ring l h' (e # xs) \<and> failed_asserts h' = failed_asserts h"
  using list_insert_ring [of l h "[]" xs e] assms ring_begin [OF assms(1)] by (auto simp: list_push_front_def)

lemma push_back_ring:
  assumes "ring l h xs" and "e \<in> dom (elems h)" and "e \<notin> set (cells_of l xs)"
  shows "\<exists>h'. list_push_back l e h = Some h' \<and> ring l h' (xs @ [e]) \<and> dom (elems h') = dom (elems h) \<and>
    failed_asserts h' = failed_asserts h \<and>
    (\<forall>x. x \<notin> set (cells_of l (xs @ [e])) \<longrightarrow> nx (elems h') x = nx (elems h) x \<and> pv (elems h') x = pv (elems h) x)"
  using list_insert_ring [of l h xs "[]" e] assms by (simp add: list_push_back_def list_end_def)

lemma pop_front_ring:
  assumes "ring l h (e # xs)"
  shows "\<exists>h'. list_pop_front l h = Some (e, h') \<and> ring l h' xs \<and> dom (elems h') = dom (elems h) \<and> failed_asserts h' = failed_asserts h"
  using list_remove_ring [of l h "[]" e xs] assms ring_begin [OF assms] ring_empty [OF assms]
  by (auto simp: list_pop_front_def list_front_def)

lemma pop_back_ring:
  assumes "ring l h (xs @ [e])"
  shows "\<exists>h'. list_pop_back l h = Some (e, h') \<and> ring l h' xs \<and> dom (elems h') = dom (elems h) \<and> failed_asserts h' = failed_asserts h"
  using list_remove_ring [of l h xs e "[]"] assms ring_rbegin [OF assms] ring_empty [OF assms]
  by (auto simp: list_pop_back_def list_back_def)

interpretation dl: deque dl_view dl_new dl_push_front dl_push_back dl_pop_front dl_pop_back
proof
  fix s :: "llist \<times> list_heap" and xs :: "nat list" and d :: nat
  obtain l h where s: "s = (l, h)" by (cases s)
  show "\<exists>t. dl_push_front d s = Some t \<and> dl_view t (d # xs)" if "dl_view s xs" "dl_new d s"
    using push_front_ring [of l h xs d] dl_newD that s by (auto simp: dl_view_def dl_push_front_def)
  show "\<exists>t. dl_push_back d s = Some t \<and> dl_view t (xs @ [d])" if "dl_view s xs" "dl_new d s"
    using push_back_ring [of l h xs d] dl_newD that s by (auto simp: dl_view_def dl_push_back_def)
  show "\<exists>t. dl_pop_front s = Some (d, t) \<and> dl_view t xs \<and> dl_new d t" if "dl_view s (d # xs)"
  proof -
    from that s have r: "ring l h (d # xs)" "failed_asserts h = 0" by (auto simp: dl_view_def)
    from pop_front_ring [OF r(1)] obtain h' where "list_pop_front l h = Some (d, h')" "ring l h' xs"
      "dom (elems h') = dom (elems h)" "failed_asserts h' = failed_asserts h" by blast
    with r ring_in_dom [OF r(1)] show ?thesis using s by (auto simp: dl_view_def dl_new_def dl_pop_front_def ring_def)
  qed
  show "\<exists>t. dl_pop_back s = Some (d, t) \<and> dl_view t xs \<and> dl_new d t" if "dl_view s (xs @ [d])"
  proof -
    from that s have r: "ring l h (xs @ [d])" "failed_asserts h = 0" by (auto simp: dl_view_def)
    from pop_back_ring [OF r(1)] obtain h' where "list_pop_back l h = Some (d, h')" "ring l h' xs"
      "dom (elems h') = dom (elems h)" "failed_asserts h' = failed_asserts h" by blast
    with r ring_in_dom [OF r(1)] show ?thesis using s by (auto simp: dl_view_def dl_new_def dl_pop_back_def ring_def)
  qed
qed

subsection \<open>Traversals\<close>

lemma size_from_ring: "ring l h (us @ vs) \<Longrightarrow> size_from l k (Some (hd (vs @ [tail_elem l]))) h = Some (k + length vs, h)"
proof (induction vs arbitrary: us k)
  case Nil
  then show ?case by (subst size_from.simps) (simp add: list_end_def)
next
  case (Cons v vs)
  have "v \<noteq> tail_elem l" using ring_tail_notin [OF Cons.prems] by auto
  moreover have "list_next v h = Some (Some (hd (vs @ [tail_elem l])), h)"
    by (intro list_next_ok ring_elem [OF Cons.prems])
  ultimately show ?case
    using Cons.IH [of "us @ [v]" "Suc k"] Cons.prems by (subst size_from.simps) (simp add: list_end_def)
qed

lemma list_size_ring: "ring l h xs \<Longrightarrow> list_size l h = Some (length xs, h)"
  using size_from_ring [of l h "[]" xs 0] ring_begin [of l h xs] by (simp add: list_size_def)

subsection \<open>Splicing\<close>

lemma chain_join:
  "chain c (xs @ ys) \<longleftrightarrow> chain c xs \<and> chain c ys \<and>
     (xs \<noteq> [] \<longrightarrow> ys \<noteq> [] \<longrightarrow> nx c (last xs) = Some (hd ys) \<and> pv c (hd ys) = Some (last xs))"
proof (induction xs rule: induct_list012)
  case (2 x)
  then show ?case by (cases ys) (auto dest: nx_dom)
qed auto

text \<open>The pointers after \<open>relink\<close>: \<open>a'\<close> and \<open>v\<close>, \<open>x\<close> and \<open>s\<close>, \<open>s'\<close> and \<open>a\<close> have become neighbours.\<close>

lemma relink_links:
  assumes "pv c s = Some a'" and "nx c s' = Some v" and "pv c a = Some x" and "{a', v, x} \<subseteq> dom c"
    and "a' \<noteq> s'" and "s \<noteq> v" and "a \<noteq> v" and "a \<noteq> s"
  shows "\<exists>c'. relink a s s' c = Some c' \<and> dom c' = dom c \<and> nx c' = (nx c)(a' := Some v, s' := Some a, x := Some s) \<and>
    pv c' = (pv c)(v := Some a', s := Some x, a := Some s')"
proof -
  obtain n where n: "c s = Some n" "nprev n = Some a'" using assms(1) by (auto simp: pv_Some)
  obtain m where m: "c s' = Some m" "nnext m = Some v" using assms(2) by (auto simp: nx_Some)
  obtain c1 where c1: "set_next a' (Some v) c = Some c1" "dom c1 = dom c" "nx c1 = (nx c)(a' := Some v)" "pv c1 = pv c"
    using set_next_ok [of a' c] assms(4) by (metis insert_subset)
  have "nx c1 s' = Some v" "pv c1 s = Some a'" using c1 assms(1,2,5) by simp_all
  then obtain m1 n1 where m1: "c1 s' = Some m1" "nnext m1 = Some v" and n1: "c1 s = Some n1" "nprev n1 = Some a'"
    by (auto simp: nx_Some pv_Some)
  have "v \<in> dom c1" using c1(2) assms(4) by simp
  then obtain c2 where c2: "set_prev v (Some a') c1 = Some c2" "dom c2 = dom c1" "pv c2 = (pv c1)(v := Some a')" "nx c2 = nx c1"
    using set_prev_ok by metis
  have "pv c2 a = Some x" using c1 c2 assms(3,7) by simp
  then obtain k where k: "c2 a = Some k" "nprev k = Some x" by (auto simp: pv_Some)
  have "s \<in> dom c2" "s' \<in> dom c2" using n(1) m(1) c1(2) c2(2) by auto
  then obtain c3 where c3: "set_prev s (Some x) c2 = Some c3" "dom c3 = dom c2" "pv c3 = (pv c2)(s := Some x)" "nx c3 = nx c2"
    using set_prev_ok by metis
  have "s' \<in> dom c3" using \<open>s' \<in> dom c2\<close> c3(2) by simp
  then obtain c4 where c4: "set_next s' (Some a) c3 = Some c4" "dom c4 = dom c3" "nx c4 = (nx c3)(s' := Some a)" "pv c4 = pv c3"
    using set_next_ok by metis
  have "pv c4 a = Some x" using c1 c2 c3 c4 assms(3,7,8) by simp
  then obtain k4 where k4: "c4 a = Some k4" "nprev k4 = Some x" by (auto simp: pv_Some)
  have "x \<in> dom c4" using c1(2) c2(2) c3(2) c4(2) assms(4) by simp
  then obtain c5 where c5: "set_next x (Some s) c4 = Some c5" "dom c5 = dom c4" "nx c5 = (nx c4)(x := Some s)" "pv c5 = pv c4"
    using set_next_ok by metis
  have "a \<in> dom c5" using k4(1) c5(2) by auto
  then obtain c6 where c6: "set_prev a (Some s') c5 = Some c6" "dom c6 = dom c5" "pv c6 = (pv c5)(a := Some s')" "nx c6 = nx c5"
    using set_prev_ok by metis
  have "relink a s s' c = Some c6"
    unfolding relink_def by (simp add: n m c1(1) m1 n1 c2(1) k c3(1) c4(1) k4 c5(1) c6(1))
  with c1 c2 c3 c4 c5 c6 show ?thesis by simp
qed

lemma list_splice_ring:
  assumes "ring l h (us @ A @ S @ ws)" and "A \<noteq> []" and "S \<noteq> []"
  shows "\<exists>h'. list_splice (hd A) (hd S) (hd (ws @ [tail_elem l])) h = Some h' \<and> ring l h' (us @ S @ A @ ws) \<and>
    dom (elems h') = dom (elems h) \<and> failed_asserts h' = failed_asserts h"
proof -
  define U W where "U = head_elem l # us" and "W = ws @ [tail_elem l]"
  have ne: "U \<noteq> []" "W \<noteq> []" by (simp_all add: U_def W_def)
  have full: "cells_of l (us @ A @ S @ ws) = U @ A @ S @ W" "cells_of l (us @ S @ A @ ws) = U @ S @ A @ W"
    by (simp_all add: U_def W_def)
  have c: "chain (elems h) U" "chain (elems h) A" "chain (elems h) S" "chain (elems h) W"
    "pv (elems h) (hd A) = Some (last U)" "pv (elems h) (hd S) = Some (last A)"
    "nx (elems h) (last S) = Some (hd W)" "pv (elems h) (hd W) = Some (last S)"
    using assms ne unfolding ring_def full chain_join by simp_all
  have dis: "distinct (U @ A @ S @ W)" and ends: "pv (elems h) (head_elem l) = None" "nx (elems h) (tail_elem l) = None"
    using assms(1) unfolding ring_def full by blast+
  have mem: "hd A \<in> set A" "last A \<in> set A" "hd S \<in> set S" "last S \<in> set S" "last U \<in> set U" "hd W \<in> set W"
    using assms(2,3) ne by simp_all
  have disj: "set U \<inter> set A = {}" "set U \<inter> set S = {}" "set U \<inter> set W = {}" "set A \<inter> set S = {}" "set A \<inter> set W = {}"
    "set S \<inter> set W = {}" "distinct U" "distinct A" "distinct S" "distinct W"
    using dis by auto
  have neq: "last A \<noteq> last S" "hd S \<noteq> hd W" "hd A \<noteq> hd W" "hd A \<noteq> hd S" using mem disj by (metis disjoint_iff)+
  have "set (U @ A @ S @ W) \<subseteq> dom (elems h)" using ring_in_dom [OF assms(1)] unfolding full .
  then have indom: "{last A, hd W, last U} \<subseteq> dom (elems h)" using mem by auto
  from relink_links [OF c(6,7,5) indom neq] obtain d where d: "relink (hd A) (hd S) (last S) (elems h) = Some d" "dom d = dom (elems h)"
    "nx d = (nx (elems h))(last A := Some (hd W), last S := Some (hd A), last U := Some (hd S))"
    "pv d = (pv (elems h))(hd W := Some (last A), hd S := Some (last U), hd A := Some (last S))" by metis
  let ?h' = "h\<lparr>elems := d\<rparr>"
  have keep: "chain d X" if "chain (elems h) X" "last U \<notin> set (butlast X)" "last A \<notin> set (butlast X)" "last S \<notin> set (butlast X)"
      "hd W \<notin> set (tl X)" "hd S \<notin> set (tl X)" "hd A \<notin> set (tl X)" for X
  proof (rule chain_cong [OF _ _ _ that(1)])
    show "\<forall>p \<in> set X. p \<in> dom (elems h) \<longrightarrow> p \<in> dom d" using d(2) by simp
    show "\<forall>p \<in> set (butlast X). nx d p = nx (elems h) p" using d(3) that(2-4) by auto
    show "\<forall>p \<in> set (tl X). pv d p = pv (elems h) p" using d(4) that(5-7) by auto
  qed
  have outer: "last X \<notin> set (butlast X)" "hd X \<notin> set (tl X)" if "X \<noteq> []" "distinct X" for X :: "nat list"
  proof -
    show "last X \<notin> set (butlast X)" using that by (cases X rule: rev_cases) auto
    show "hd X \<notin> set (tl X)" using that by (cases X) auto
  qed
  have off: "y \<notin> set (butlast X)" "y \<notin> set (tl X)" if "y \<in> set Y" "set X \<inter> set Y = {}" for y X Y
    using that by (blast dest: in_set_butlastD) (use that in \<open>cases X; auto\<close>)
  have sym: "set A \<inter> set U = {}" "set S \<inter> set U = {}" "set W \<inter> set U = {}" "set S \<inter> set A = {}" "set W \<inter> set A = {}" "set W \<inter> set S = {}"
    using disj by blast+
  have "chain d U"
    by (rule keep [OF c(1) outer(1) [OF ne(1) disj(7)] off(1) [OF mem(2) disj(1)] off(1) [OF mem(4) disj(2)]
      off(2) [OF mem(6) disj(3)] off(2) [OF mem(3) disj(2)] off(2) [OF mem(1) disj(1)]])
  moreover have "chain d A"
    by (rule keep [OF c(2) off(1) [OF mem(5) sym(1)] outer(1) [OF assms(2) disj(8)] off(1) [OF mem(4) disj(4)]
      off(2) [OF mem(6) disj(5)] off(2) [OF mem(3) disj(4)] outer(2) [OF assms(2) disj(8)]])
  moreover have "chain d S"
    by (rule keep [OF c(3) off(1) [OF mem(5) sym(2)] off(1) [OF mem(2) sym(4)] outer(1) [OF assms(3) disj(9)]
      off(2) [OF mem(6) disj(6)] outer(2) [OF assms(3) disj(9)] off(2) [OF mem(1) sym(4)]])
  moreover have "chain d W"
    by (rule keep [OF c(4) off(1) [OF mem(5) sym(3)] off(1) [OF mem(2) sym(5)] off(1) [OF mem(4) sym(6)]
      outer(2) [OF ne(2) disj(10)] off(2) [OF mem(3) sym(6)] off(2) [OF mem(1) sym(5)]])
  moreover have "nx d (last U) = Some (hd S)" "pv d (hd S) = Some (last U)" "nx d (last S) = Some (hd A)"
    "pv d (hd A) = Some (last S)" "nx d (last A) = Some (hd W)" "pv d (hd W) = Some (last A)"
  proof -
    have "last U \<noteq> last S" "last U \<noteq> last A" using mem disj by (metis disjoint_iff)+
    with neq show "nx d (last U) = Some (hd S)" "pv d (hd S) = Some (last U)" "nx d (last S) = Some (hd A)"
      "pv d (hd A) = Some (last S)" "nx d (last A) = Some (hd W)" "pv d (hd W) = Some (last A)"
      unfolding d(3,4) by simp_all
  qed
  ultimately have "chain d (U @ S @ A @ W)" using assms(2,3) ne by (simp add: chain_join)
  moreover have "distinct (U @ S @ A @ W)" using dis by auto
  moreover have "pv d (head_elem l) = None" "nx d (tail_elem l) = None"
  proof -
    have "head_elem l \<in> set U" "tail_elem l \<in> set W" by (simp_all add: U_def W_def)
    then have "head_elem l \<noteq> hd W" "head_elem l \<noteq> hd S" "head_elem l \<noteq> hd A"
      "tail_elem l \<noteq> last A" "tail_elem l \<noteq> last S" "tail_elem l \<noteq> last U" using mem disj by (metis disjoint_iff)+
    then show "pv d (head_elem l) = None" "nx d (tail_elem l) = None" unfolding d(3,4) using ends by simp_all
  qed
  ultimately have "ring l ?h' (us @ S @ A @ ws)" unfolding ring_def full(2) by simp
  moreover have "list_splice (hd A) (hd S) (hd W) h = Some ?h'"
  proof -
    obtain n where n: "elems h (hd A) = Some n" "nprev n = Some (last U)" using c(5) by (auto simp: pv_Some)
    then have b: "\<exists>b c. is_interior (Some (hd A)) h = Some b \<and> is_tail (Some (hd A)) h = Some c \<and> (b \<or> c)"
      by (auto simp: is_interior_def is_tail_def)
    have "nx (elems h) (hd S) \<noteq> None"
    proof -
      obtain S' where S: "S = hd S # S'" using assms(3) by (cases S) auto
      have "nx (elems h) (hd S) = Some (hd (S' @ W))"
      proof (cases S')
        case Nil
        then have "last S = hd S" using S by (metis last_ConsL)
        then show ?thesis using c(7) Nil by simp
      next
        case (Cons y ys)
        then have "chain (elems h) (hd S # y # ys)" using c(3) S by metis
        then show ?thesis using Cons by simp
      qed
      then show ?thesis by simp
    qed
    then have i1: "is_interior (Some (hd S)) h = Some True" using c(6) by (auto simp: is_interior_def pv_Some nx_def)
    have "pv (elems h) (last S) \<noteq> None"
    proof -
      obtain S' where S: "S = S' @ [last S]" using assms(3) by (metis append_butlast_last_id)
      show ?thesis
      proof (cases S' rule: rev_cases)
        case Nil
        then have "hd S = last S" using S by (metis append_Nil list.sel(1))
        then show ?thesis using c(6) by simp
      next
        case (snoc ys y)
        then have "chain (elems h) (ys @ y # [last S])" using c(3) S by (metis append_Cons append_assoc append_Nil)
        then show ?thesis using chain_links by fastforce
      qed
    qed
    then have i2: "is_interior (Some (last S)) h = Some True" using c(7) by (auto simp: is_interior_def nx_Some pv_def)
    show ?thesis
      using b i1 i2 neq(2) list_prev_ok [OF c(8)] d(1) by (auto simp: list_splice_def upd_elems_def)
  qed
  ultimately show ?thesis using d(2) unfolding W_def by (intro exI [of _ ?h']) simp
qed

subsection \<open>Ordered lists\<close>

abbreviation end_at :: "llist \<Rightarrow> nat list \<Rightarrow> nat" where
  "end_at l vs \<equiv> hd (vs @ [tail_elem l])"

lemma ring_not_tail: "ring l h (us @ v # vs) \<Longrightarrow> v \<noteq> tail_elem l"
  using ring_tail_notin by fastforce

lemma ring_next:
  assumes "ring l h (us @ v # vs)"
  shows "list_next v h = Some (Some (end_at l vs), h)"
  by (rule list_next_ok) (rule ring_elem [OF assms])

lemma ring_prev: "ring l h (us @ v # vs) \<Longrightarrow> list_prev (end_at l vs) h = Some (Some v, h)"
  using ring_links(2) [of l h "us @ [v]" vs] by (intro list_prev_ok) simp

lemma insert_place_ring:
  "ring l h (us @ vs) \<Longrightarrow> insert_place l (Some (end_at l vs)) x lt h = Some (end_at l (dropWhile (\<lambda>e. \<not> lt x e) vs), h)"
proof (induction vs arbitrary: us)
  case Nil
  then show ?case by (subst insert_place.simps) (simp add: list_end_def)
next
  case (Cons v vs)
  show ?case
    using Cons.IH [of "us @ [v]"] Cons.prems ring_not_tail [OF Cons.prems] ring_next [OF Cons.prems]
    by (subst insert_place.simps) (simp add: list_end_def)
qed

lemma insert_ordered_ring:
  assumes "ring l h xs" and "x \<in> dom (elems h)" and "x \<notin> set (cells_of l xs)"
  shows "\<exists>h'. list_insert_ordered l x lt h = Some h' \<and>
    ring l h' (takeWhile (\<lambda>e. \<not> lt x e) xs @ x # dropWhile (\<lambda>e. \<not> lt x e) xs) \<and> failed_asserts h' = failed_asserts h"
proof -
  have "ring l h (takeWhile (\<lambda>e. \<not> lt x e) xs @ dropWhile (\<lambda>e. \<not> lt x e) xs)" using assms(1) by simp
  from list_insert_ring [OF this assms(2)] show ?thesis
    using assms insert_place_ring [of l h "[]" xs x lt] ring_begin [OF assms(1)] by (auto simp: list_insert_ordered_def)
qed

text \<open>The search for the largest element, and for the smallest one.\<close>

lemma best_from_ring:
  "ring l h (us @ vs) \<Longrightarrow>
   best_from l b (Some (end_at l vs)) better h = Some (fold (\<lambda>e b. if better b e then e else b) vs b, h)"
proof (induction vs arbitrary: us b)
  case Nil
  then show ?case by (subst best_from.simps) (simp add: list_end_def)
next
  case (Cons v vs)
  show ?case
    using Cons.IH [of "us @ [v]"] Cons.prems ring_not_tail [OF Cons.prems] ring_next [OF Cons.prems]
    by (subst best_from.simps) (simp add: list_end_def)
qed

lemma list_max_ring:
  "ring l h (x # xs) \<Longrightarrow> list_max l lt h = Some (fold (\<lambda>e b. if lt b e then e else b) xs x, h)"
  using ring_begin [of l h "x # xs"] ring_not_tail [of l h "[]" x xs] ring_next [of l h "[]" x xs] best_from_ring [of l h "[x]" xs x lt]
  by (simp add: list_max_def list_end_def)

lemma list_min_ring:
  "ring l h (x # xs) \<Longrightarrow> list_min l lt h = Some (fold (\<lambda>e b. if lt e b then e else b) xs x, h)"
  using ring_begin [of l h "x # xs"] ring_not_tail [of l h "[]" x xs] ring_next [of l h "[]" x xs]
    best_from_ring [of l h "[x]" xs x "\<lambda>b e. lt e b"]
  by (simp add: list_min_def list_end_def)

lemma max_min_empty:
  assumes "ring l h []"
  shows "list_max l lt h = Some (tail_elem l, h)" and "list_min l lt h = Some (tail_elem l, h)"
  using ring_begin [OF assms] by (simp_all add: list_max_def list_min_def list_end_def)

text \<open>The first of the elements with the largest key.\<close>

definition first_max :: "(nat \<Rightarrow> 'k::linorder) \<Rightarrow> nat list \<Rightarrow> nat \<Rightarrow> bool" where
  "first_max key xs m \<longleftrightarrow> (\<exists>us vs. xs = us @ m # vs \<and> (\<forall>y \<in> set us. key y < key m) \<and> (\<forall>y \<in> set vs. key y \<le> key m))"

definition first_min :: "(nat \<Rightarrow> 'k::linorder) \<Rightarrow> nat list \<Rightarrow> nat \<Rightarrow> bool" where
  "first_min key xs m \<longleftrightarrow> (\<exists>us vs. xs = us @ m # vs \<and> (\<forall>y \<in> set us. key m < key y) \<and> (\<forall>y \<in> set vs. key m \<le> key y))"

lemma first_max_Cons: "first_max key xs m \<Longrightarrow> key x < key m \<Longrightarrow> first_max key (x # xs) m"
  unfolding first_max_def by (metis append_Cons set_ConsD)

lemma first_max_le: "first_max key xs m \<Longrightarrow> y \<in> set xs \<Longrightarrow> key y \<le> key m"
  by (auto simp: first_max_def less_imp_le)

lemma first_max_skip:
  assumes "first_max key (x # ys) m" and "\<not> key x < key y"
  shows "first_max key (x # y # ys) m"
proof -
  obtain us vs where u: "x # ys = us @ m # vs" "\<forall>z \<in> set us. key z < key m" "\<forall>z \<in> set vs. key z \<le> key m"
    using assms(1) unfolding first_max_def by blast
  show ?thesis
  proof (cases us)
    case Nil
    then have "x # y # ys = [] @ m # y # vs" "\<forall>z \<in> set (y # vs). key z \<le> key m" using u assms(2) by auto
    then show ?thesis unfolding first_max_def by (metis empty_iff empty_set)
  next
    case (Cons z us')
    then have "x # y # ys = (x # y # us') @ m # vs" "\<forall>z \<in> set (x # y # us'). key z < key m" using u assms(2) by auto
    then show ?thesis using u(3) unfolding first_max_def by blast
  qed
qed

lemma fold_max: "first_max key (x # xs) (fold (\<lambda>e b. if key b < key e then e else b) xs x)"
proof (induction xs arbitrary: x)
  case Nil
  have "[x] = [] @ x # []" by simp
  then show ?case unfolding first_max_def by force
next
  case (Cons y ys)
  show ?case
  proof (cases "key x < key y")
    case True
    let ?m = "fold (\<lambda>e b. if key b < key e then e else b) ys y"
    have m: "first_max key (y # ys) ?m" by (rule Cons.IH)
    from first_max_le [OF m, of y] True have "key x < key ?m" by simp
    from first_max_Cons [OF m this] show ?thesis using True by simp
  next
    case False
    from first_max_skip [OF Cons.IH False] show ?thesis using False by simp
  qed
qed

text \<open>The same with the order reversed.\<close>

lemma first_min_Cons: "first_min key xs m \<Longrightarrow> key m < key x \<Longrightarrow> first_min key (x # xs) m"
  unfolding first_min_def by (metis append_Cons set_ConsD)

lemma first_min_le: "first_min key xs m \<Longrightarrow> y \<in> set xs \<Longrightarrow> key m \<le> key y"
  by (auto simp: first_min_def less_imp_le)

lemma first_min_skip:
  assumes "first_min key (x # ys) m" and "\<not> key y < key x"
  shows "first_min key (x # y # ys) m"
proof -
  obtain us vs where u: "x # ys = us @ m # vs" "\<forall>z \<in> set us. key m < key z" "\<forall>z \<in> set vs. key m \<le> key z"
    using assms(1) unfolding first_min_def by blast
  show ?thesis
  proof (cases us)
    case Nil
    then have "x # y # ys = [] @ m # y # vs" "\<forall>z \<in> set (y # vs). key m \<le> key z" using u assms(2) by auto
    then show ?thesis unfolding first_min_def by (metis empty_iff empty_set)
  next
    case (Cons z us')
    then have "x # y # ys = (x # y # us') @ m # vs" "\<forall>z \<in> set (x # y # us'). key m < key z" using u assms(2) by auto
    then show ?thesis using u(3) unfolding first_min_def by blast
  qed
qed

lemma fold_min: "first_min key (x # xs) (fold (\<lambda>e b. if key e < key b then e else b) xs x)"
proof (induction xs arbitrary: x)
  case Nil
  have "[x] = [] @ x # []" by simp
  then show ?case unfolding first_min_def by force
next
  case (Cons y ys)
  show ?case
  proof (cases "key y < key x")
    case True
    let ?m = "fold (\<lambda>e b. if key e < key b then e else b) ys y"
    have m: "first_min key (y # ys) ?m" by (rule Cons.IH)
    from first_min_le [OF m, of y] True have "key ?m < key x" by simp
    from first_min_Cons [OF m this] show ?thesis using True by simp
  next
    case False
    from first_min_skip [OF Cons.IH False] show ?thesis using False by simp
  qed
qed

text \<open>What \<open>list_unique\<close> keeps, and what it removes.\<close>

fun uniq :: "less_func \<Rightarrow> nat list \<Rightarrow> nat list \<times> nat list" where
  "uniq lt (x # y # ys) =
    (if \<not> lt x y \<and> \<not> lt y x then let (k, d) = uniq lt (x # ys) in (k, y # d)
     else let (k, d) = uniq lt (y # ys) in (x # k, d))"
| "uniq lt [] = ([], [])"
| "uniq lt [x] = ([x], [])"

lemma uniq_hd: "\<exists>k d. uniq lt (x # xs) = (x # k, d)"
proof (induction lt "x # xs" arbitrary: x xs rule: uniq.induct)
  case (1 lt x y ys)
  then show ?case by (auto split: prod.splits)
qed auto

lemma unique_loop_ring:
  assumes "ring l h (us @ x # vs)"
  shows "\<exists>h'. unique_loop l None x lt h = Some h' \<and> ring l h' (us @ fst (uniq lt (x # vs))) \<and> failed_asserts h' = failed_asserts h"
  using assms
proof (induction lt "x # vs" arbitrary: h us x vs rule: uniq.induct)
  case (1 lt x y ys)
  have r: "ring l h ((us @ [x]) @ y # ys)" using "1.prems" by simp
  have nx: "list_next x h = Some (Some y, h)" "y \<noteq> tail_elem l"
    using ring_next [OF "1.prems"] ring_not_tail [OF r] by simp_all
  show ?case
  proof (cases "\<not> lt x y \<and> \<not> lt y x")
    case True
    from list_remove_ring [OF r] obtain h1 where h1: "list_remove y h = Some (Some (end_at l ys), h1)"
      "ring l h1 ((us @ [x]) @ ys)" "failed_asserts h1 = failed_asserts h" by blast
    have "ring l h1 (us @ x # ys)" using h1(2) by simp
    from "1.hyps"(1) [OF True this] h1(3) obtain h2 where
      "unique_loop l None x lt h1 = Some h2" "ring l h2 (us @ fst (uniq lt (x # ys)))" "failed_asserts h2 = failed_asserts h" by auto
    then show ?thesis
      using True nx h1(1) by (subst unique_loop.simps) (auto simp: list_end_def split: prod.splits)
  next
    case False
    from "1.hyps"(2) [OF False r] obtain h2 where
      "unique_loop l None y lt h = Some h2" "ring l h2 ((us @ [x]) @ fst (uniq lt (y # ys)))" "failed_asserts h2 = failed_asserts h" by blast
    then show ?thesis
      using False nx by (subst unique_loop.simps) (auto simp: list_end_def split: prod.splits)
  qed
next
  case (3 lt v)
  then show ?case
    using ring_next [of l h us v "[]"] by (subst unique_loop.simps) (auto simp: list_end_def)
qed

text \<open>With a second list for the elements removed.\<close>

lemma unique_loop_dups:
  assumes "ring l h (us @ x # vs)" and "ring d h ds" and "set (cells_of l (us @ x # vs)) \<inter> set (cells_of d ds) = {}"
  shows "\<exists>h'. unique_loop l (Some d) x lt h = Some h' \<and> ring l h' (us @ fst (uniq lt (x # vs))) \<and>
    ring d h' (ds @ snd (uniq lt (x # vs))) \<and> failed_asserts h' = failed_asserts h"
  using assms
proof (induction lt "x # vs" arbitrary: h us x vs ds rule: uniq.induct)
  case (1 lt x y ys)
  have r: "ring l h ((us @ [x]) @ y # ys)" using "1.prems"(1) by simp
  have nx: "list_next x h = Some (Some y, h)" "y \<noteq> tail_elem l"
    using ring_next [OF "1.prems"(1)] ring_not_tail [OF r] by simp_all
  show ?case
  proof (cases "\<not> lt x y \<and> \<not> lt y x")
    case True
    from list_remove_ring [OF r] obtain h1 where h1: "list_remove y h = Some (Some (end_at l ys), h1)"
      "ring l h1 ((us @ [x]) @ ys)" "failed_asserts h1 = failed_asserts h" "dom (elems h1) = dom (elems h)"
      "\<forall>z. z \<notin> set (cells_of l ((us @ [x]) @ ys)) \<longrightarrow> nx (elems h1) z = nx (elems h) z \<and> pv (elems h1) z = pv (elems h) z" by blast
    have "ring d h1 ds"
    proof (rule ring_cong [OF "1.prems"(2)])
      have "set (cells_of l ((us @ [x]) @ ys)) \<inter> set (cells_of d ds) = {}" using "1.prems"(3) by auto
      then show "\<forall>z \<in> set (cells_of d ds). z \<in> dom (elems h1) \<and> nx (elems h1) z = nx (elems h) z \<and> pv (elems h1) z = pv (elems h) z"
        using h1(4,5) ring_in_dom [OF "1.prems"(2)] by blast
    qed
    moreover have "y \<in> dom (elems h1)" using ring_in_dom [OF r] h1(4) by auto
    moreover have "y \<notin> set (cells_of d ds)" using "1.prems"(3) by auto
    ultimately obtain h2 where h2: "list_push_back d y h1 = Some h2" "ring d h2 (ds @ [y])" "dom (elems h2) = dom (elems h1)"
      "failed_asserts h2 = failed_asserts h1"
      "\<forall>z. z \<notin> set (cells_of d (ds @ [y])) \<longrightarrow> nx (elems h2) z = nx (elems h1) z \<and> pv (elems h2) z = pv (elems h1) z"
      using push_back_ring [of d h1 ds y] by blast
    have off: "set (cells_of l (us @ x # ys)) \<inter> set (cells_of d (ds @ [y])) = {}"
      using "1.prems"(3) ring_tail_notin [OF r] by auto
    have "ring l h2 (us @ x # ys)"
    proof (rule ring_cong)
      show "ring l h1 (us @ x # ys)" using h1(2) by simp
      then show "\<forall>z \<in> set (cells_of l (us @ x # ys)). z \<in> dom (elems h2) \<and> nx (elems h2) z = nx (elems h1) z \<and> pv (elems h2) z = pv (elems h1) z"
        using off h2(3,5) ring_in_dom by blast
    qed
    from "1.hyps"(1) [OF True this h2(2) off] obtain h3 where
      "unique_loop l (Some d) x lt h2 = Some h3" "ring l h3 (us @ fst (uniq lt (x # ys)))"
      "ring d h3 (ds @ [y] @ snd (uniq lt (x # ys)))" "failed_asserts h3 = failed_asserts h2" by auto
    then show ?thesis
      using True nx h1(1,3) h2(1,4) by (subst unique_loop.simps) (auto simp: list_end_def split: prod.splits)
  next
    case False
    have "set (cells_of l ((us @ [x]) @ y # ys)) \<inter> set (cells_of d ds) = {}" using "1.prems"(3) by auto
    from "1.hyps"(2) [OF False r "1.prems"(2) this] obtain h2 where
      "unique_loop l (Some d) y lt h = Some h2" "ring l h2 ((us @ [x]) @ fst (uniq lt (y # ys)))"
      "ring d h2 (ds @ snd (uniq lt (y # ys)))" "failed_asserts h2 = failed_asserts h" by blast
    then show ?thesis
      using False nx by (subst unique_loop.simps) (auto simp: list_end_def split: prod.splits)
  qed
next
  case (3 lt v)
  then show ?case
    using ring_next [of l h us v "[]"] by (subst unique_loop.simps) (auto simp: list_end_def)
qed

subsection \<open>Sorting\<close>

text \<open>The functions on sequences that the loops of \<open>list_sort\<close> compute.\<close>

fun run_of :: "less_func \<Rightarrow> nat list \<Rightarrow> nat list \<times> nat list" where
  "run_of lt (x # y # ys) = (if lt y x then ([x], y # ys) else let (a, b) = run_of lt (y # ys) in (x # a, b))"
| "run_of lt [] = ([], [])"
| "run_of lt [x] = ([x], [])"

fun merge :: "less_func \<Rightarrow> nat list \<Rightarrow> nat list \<Rightarrow> nat list" where
  "merge lt (a # as) (b # bs) = (if \<not> lt b a then a # merge lt as (b # bs) else b # merge lt (a # as) bs)"
| "merge lt as bs = as @ bs"

abbreviation ascending :: "less_func \<Rightarrow> nat list \<Rightarrow> bool" where
  "ascending lt \<equiv> successively (\<lambda>x y. \<not> lt y x)"

lemma run_of_append: "run_of lt xs = (a, b) \<Longrightarrow> xs = a @ b"
  by (induction lt xs arbitrary: a b rule: run_of.induct) (auto split: if_splits prod.splits)

lemma run_of_Cons: "\<exists>a b. run_of lt (x # xs) = (x # a, b)"
  by (cases xs) (auto split: prod.splits)

lemma run_of_ascending: "run_of lt xs = (a, b) \<Longrightarrow> ascending lt a"
proof (induction lt xs arbitrary: a b rule: run_of.induct)
  case (1 lt x y ys)
  obtain a' b' where r: "run_of lt (y # ys) = (y # a', b')" using run_of_Cons by blast
  show ?case using 1 r by (auto split: if_splits)
qed auto

lemma run_loop_ring:
  "ring l h (us @ x # vs) \<Longrightarrow> run_of lt (x # vs) = (a, b) \<Longrightarrow>
   run_loop x (tail_elem l) lt h = Some (end_at l b, h)"
proof (induction lt "x # vs" arbitrary: us x vs a b rule: run_of.induct)
  case (1 lt x y ys)
  have r: "ring l h ((us @ [x]) @ y # ys)" using "1.prems"(1) by simp
  have nx: "list_next x h = Some (Some y, h)" "list_prev y h = Some (Some x, h)" "y \<noteq> tail_elem l"
    using ring_next [OF "1.prems"(1)] ring_prev [OF "1.prems"(1)] ring_not_tail [OF r] by simp_all
  obtain a' b' where r': "run_of lt (y # ys) = (a', b')" by fastforce
  show ?case
    using "1.hyps" [OF _ r r'] "1.prems"(2) nx r' by (subst run_loop.simps) (auto split: if_splits)
next
  case (3 lt v)
  then show ?case
    using ring_next [of l h us v "[]"] by (subst run_loop.simps) auto
qed

lemma find_end_of_run_ring:
  assumes "ring l h (us @ vs)" and "vs \<noteq> []" and "run_of lt vs = (a, b)"
  shows "find_end_of_run (end_at l vs) (list_end l) lt h = Some (end_at l b, h)"
proof -
  obtain x vs' where vs: "vs = x # vs'" using assms(2) by (cases vs) auto
  then have "x \<noteq> tail_elem l" using ring_not_tail assms(1) by blast
  then show ?thesis using run_loop_ring [of l h us x vs' lt a b] assms vs by (simp add: find_end_of_run_def list_end_def)
qed

lemma sorted_loop_ring:
  "ring l h (us @ x # S @ ws) \<Longrightarrow> sorted_loop x (end_at l ws) lt h = Some (ascending lt (x # S), h)"
proof (induction S arbitrary: us x)
  case Nil
  then show ?case using ring_next [of l h us x ws] by (subst sorted_loop.simps) simp
next
  case (Cons y S)
  have r: "ring l h ((us @ [x]) @ y # S @ ws)" using Cons.prems by simp
  have "y \<noteq> end_at l ws" using ring_tail_notin [OF r] ring_not_tail [OF r] by (cases ws) auto
  moreover have "list_next x h = Some (Some y, h)" "list_prev y h = Some (Some x, h)"
    using ring_next [of l h us x "y # S @ ws"] ring_prev [of l h us x "y # S @ ws"] Cons.prems by simp_all
  ultimately show ?case using Cons.IH [OF r] by (subst sorted_loop.simps) simp
qed

lemma is_sorted_ring:
  assumes "ring l h (us @ S @ ws)"
  shows "is_sorted (end_at l (S @ ws)) (end_at l ws) lt h = Some (ascending lt S, h)"
proof (cases S)
  case Nil
  then show ?thesis by (simp add: is_sorted_def)
next
  case (Cons x S')
  have "x \<noteq> end_at l ws" using assms Cons ring_tail_notin [OF assms] by (cases ws) auto
  then show ?thesis using sorted_loop_ring [of l h us x S' ws lt] assms Cons by (simp add: is_sorted_def)
qed

lemma merge_loop_ring:
  "ring l h (us @ as @ bs @ ws) \<Longrightarrow>
   \<exists>h'. merge_loop (end_at l (as @ bs @ ws)) (end_at l (bs @ ws)) (end_at l ws) lt h = Some h' \<and>
     ring l h' (us @ merge lt as bs @ ws) \<and> failed_asserts h' = failed_asserts h"
proof (induction lt as bs arbitrary: us h rule: merge.induct)
  case (1 lt a as b bs)
  have r: "ring l h (us @ a # as @ b # bs @ ws)" using "1.prems" by simp
  have "b \<noteq> end_at l ws" using ring_tail_notin [OF r] by (cases ws) auto
  moreover have "a \<noteq> b" using ring_tail_notin [OF r] by auto
  ultimately have step: "merge_loop a b (end_at l ws) lt h =
      (if \<not> lt b a then do { (q, h) \<leftarrow> list_next a h; a0 \<leftarrow> q; merge_loop a0 b (end_at l ws) lt h }
       else do { (q, h) \<leftarrow> list_next b h; a1b0 \<leftarrow> q; (q, h) \<leftarrow> list_prev a1b0 h; p \<leftarrow> q; h \<leftarrow> list_splice a p a1b0 h;
         merge_loop a a1b0 (end_at l ws) lt h })"
    by (subst merge_loop.simps) simp
  show ?case
  proof (cases "lt b a")
    case False
    from "1.IH"(1) [OF False, of h "us @ [a]"] "1.prems" obtain h' where
      "merge_loop (end_at l (as @ (b # bs) @ ws)) b (end_at l ws) lt h = Some h'"
      "ring l h' (us @ a # merge lt as (b # bs) @ ws)" "failed_asserts h' = failed_asserts h" by auto
    then show ?thesis using step False ring_next [OF r] by auto
  next
    case True
    have rb: "ring l h ((us @ a # as) @ b # bs @ ws)" using r by simp
    from list_splice_ring [of l h us "a # as" "[b]" "bs @ ws"] r obtain h1 where h1:
      "list_splice a b (end_at l (bs @ ws)) h = Some h1" "ring l h1 ((us @ [b]) @ (a # as) @ bs @ ws)"
      "failed_asserts h1 = failed_asserts h" by auto
    from "1.IH"(2) [OF _ h1(2)] True obtain h' where
      "merge_loop a (end_at l (bs @ ws)) (end_at l ws) lt h1 = Some h'"
      "ring l h' (us @ b # merge lt (a # as) bs @ ws)" "failed_asserts h' = failed_asserts h1" by auto
    then show ?thesis using step True ring_next [OF rb] ring_prev [OF rb] h1(1,3) by auto
  qed
qed (subst merge_loop.simps, simp)+

lemma inplace_merge_ring:
  assumes "ring l h (us @ as @ bs @ ws)" and "ascending lt as" and "ascending lt bs"
  shows "\<exists>h'. inplace_merge (end_at l (as @ bs @ ws)) (end_at l (bs @ ws)) (end_at l ws) lt h = Some h' \<and>
     ring l h' (us @ merge lt as bs @ ws) \<and> failed_asserts h' = failed_asserts h"
  using merge_loop_ring [OF assms(1), of lt] is_sorted_ring [OF assms(1), of lt] is_sorted_ring [of l h "us @ as" bs ws lt] assms
  by (simp add: inplace_merge_def)

function pass :: "less_func \<Rightarrow> nat list \<Rightarrow> nat \<times> nat list" where
  "pass lt xs =
    (if xs = [] then (0, [])
     else let (as, rest) = run_of lt xs in
       if rest = [] then (1, as)
       else let (bs, ws) = run_of lt rest; (n, ys) = pass lt ws in (Suc n, merge lt as bs @ ys))"
  by pat_completeness auto
termination
proof (relation "measure (\<lambda>(lt, xs). length xs)", goal_cases)
  case 1
  show ?case by simp
next
  case (2 lt xs p as rest q bs ws)
  then have "xs = as @ rest" "rest = bs @ ws" "as \<noteq> []"
    using run_of_append run_of_Cons by (metis, metis, metis list.distinct(1) list.exhaust prod.inject)
  then show ?case by auto
qed

declare pass.simps [simp del]

lemma sort_pass_ring:
  "ring l h (us @ xs) \<Longrightarrow> pass lt xs = (n, ys) \<Longrightarrow>
   \<exists>h'. sort_pass l (end_at l xs) k lt h = Some (k + n, h') \<and> ring l h' (us @ ys) \<and> failed_asserts h' = failed_asserts h"
proof (induction lt xs arbitrary: us h k n ys rule: pass.induct)
  case (1 lt xs)
  show ?case
  proof (cases "xs = []")
    case True
    then show ?thesis using "1.prems" by (subst sort_pass.simps) (simp add: list_end_def pass.simps)
  next
    case False
    obtain as rest where r: "run_of lt xs = (as, rest)" by fastforce
    then have xs: "xs = as @ rest" by (rule run_of_append)
    obtain x xs' where x: "xs = x # xs'" using False by (cases xs) auto
    have hd: "end_at l xs \<noteq> list_end l" using ring_not_tail [of l h us x xs'] "1.prems"(1) x by (simp add: list_end_def)
    have f: "find_end_of_run (end_at l xs) (list_end l) lt h = Some (end_at l rest, h)"
      by (rule find_end_of_run_ring [OF "1.prems"(1) False r])
    show ?thesis
    proof (cases "rest = []")
      case True
      then show ?thesis
        using "1.prems" False r hd f xs by (subst sort_pass.simps) (simp add: list_end_def pass.simps)
    next
      case rest: False
      obtain bs ws where q: "run_of lt rest = (bs, ws)" by fastforce
      then have bs: "rest = bs @ ws" by (rule run_of_append)
      obtain m zs where p: "pass lt ws = (m, zs)" by fastforce
      have res: "n = Suc m" "ys = merge lt as bs @ zs" using "1.prems"(2) False rest r q p by (simp_all add: pass.simps)
      have ring: "ring l h (us @ as @ bs @ ws)" "ring l h ((us @ as) @ rest)" using "1.prems"(1) xs bs by simp_all
      obtain y rest' where y: "rest = y # rest'" using rest by (cases rest) auto
      have hd': "end_at l rest \<noteq> list_end l" using ring_not_tail [of l h "us @ as" y rest'] ring(2) y by (simp add: list_end_def)
      have f': "find_end_of_run (end_at l rest) (list_end l) lt h = Some (end_at l ws, h)"
        by (rule find_end_of_run_ring [OF ring(2) rest q])
      from inplace_merge_ring [OF ring(1) run_of_ascending [OF r] run_of_ascending [OF q]] obtain h1 where h1:
        "inplace_merge (end_at l xs) (end_at l rest) (end_at l ws) lt h = Some h1" "ring l h1 ((us @ merge lt as bs) @ ws)"
        "failed_asserts h1 = failed_asserts h" using xs bs by auto
      from "1.IH" [OF False r [symmetric] refl rest q [symmetric] refl h1(2) p, of "Suc k"] obtain h2 where
        "sort_pass l (end_at l ws) (Suc k) lt h1 = Some (Suc k + m, h2)" "ring l h2 ((us @ merge lt as bs) @ zs)"
        "failed_asserts h2 = failed_asserts h1" by blast
      then show ?thesis
        using hd hd' f f' h1(1,3) res by (subst sort_pass.simps) simp
    qed
  qed
qed

text \<open>A comparison of keys, and what merging does then.\<close>

abbreviation by_key :: "(nat \<Rightarrow> 'k::linorder) \<Rightarrow> less_func" where
  "by_key key \<equiv> \<lambda>a b. key a < key b"

lemma ascending_sorted: "ascending (by_key key) xs \<longleftrightarrow> sorted (map key xs)"
  by (induction xs rule: induct_list012) (auto simp: not_less intro: order_trans)

lemma set_merge: "set (merge lt as bs) = set as \<union> set bs"
  by (induction lt as bs rule: merge.induct) auto

lemma sorted_merge:
  "sorted (map key as) \<Longrightarrow> sorted (map key bs) \<Longrightarrow> sorted (map key (merge (by_key key) as bs))"
  by (induction "by_key key" as bs rule: merge.induct) (auto simp: set_merge not_less)

lemma filter_merge:
  "sorted (map key as) \<Longrightarrow> sorted (map key bs) \<Longrightarrow>
   filter (\<lambda>x. key x = k) (merge (by_key key) as bs) = filter (\<lambda>x. key x = k) as @ filter (\<lambda>x. key x = k) bs"
proof (induction "by_key key" as bs rule: merge.induct)
  case (1 a as b bs)
  show ?case
  proof (cases "key b < key a")
    case True
    have "key b \<noteq> key x" if "x \<in> set (a # as)" for x using 1 True that by auto
    then have "filter (\<lambda>x. key x = k) (a # as) = []" if "key b = k" using that by (simp add: filter_empty_conv) metis
    then show ?thesis using 1 True by auto
  qed (use 1 in auto)
qed auto

text \<open>The number of places where a sequence descends.\<close>

fun descents :: "(nat \<Rightarrow> 'k::linorder) \<Rightarrow> nat list \<Rightarrow> nat" where
  "descents key (x # y # ys) = (if key y < key x then 1 else 0) + descents key (y # ys)"
| "descents key [] = 0"
| "descents key [x] = 0"

lemma descents_0: "descents key xs = 0 \<longleftrightarrow> sorted (map key xs)"
  by (induction key xs rule: descents.induct) (auto simp: not_less intro: order_trans)

lemma descents_append: "descents key (xs @ ys) \<le> descents key xs + descents key ys + 1"
proof (induction key xs rule: descents.induct)
  case (3 key v)
  then show ?case by (cases ys) auto
qed auto

lemma run_of_descents:
  "run_of (by_key key) xs = (a, b) \<Longrightarrow> descents key xs = (if b = [] then 0 else Suc (descents key b))"
proof (induction "by_key key" xs arbitrary: a b rule: run_of.induct)
  case (1 x y ys)
  obtain a' b' where "run_of (by_key key) (y # ys) = (a', b')" by fastforce
  with 1 show ?case by (auto split: if_splits)
qed auto

lemma pass_count:
  "pass (by_key key) xs = (n, ys) \<Longrightarrow> xs \<noteq> [] \<Longrightarrow> n = descents key xs div 2 + 1 \<and> descents key ys \<le> descents key xs div 2"
proof (induction "by_key key" xs arbitrary: n ys rule: pass.induct)
  case (1 xs)
  obtain as rest where r: "run_of (by_key key) xs = (as, rest)" by fastforce
  then have d: "descents key xs = (if rest = [] then 0 else Suc (descents key rest))" by (rule run_of_descents)
  have as: "sorted (map key as)" using run_of_ascending [OF r] by (simp add: ascending_sorted)
  show ?case
  proof (cases "rest = []")
    case True
    then have "n = 1" "ys = as" "descents key as = 0" using 1 r as by (simp_all add: pass.simps descents_0)
    then show ?thesis using d True by simp
  next
    case rest: False
    obtain bs ws where q: "run_of (by_key key) rest = (bs, ws)" by fastforce
    then have d': "descents key rest = (if ws = [] then 0 else Suc (descents key ws))" by (rule run_of_descents)
    have bs: "sorted (map key bs)" using run_of_ascending [OF q] by (simp add: ascending_sorted)
    obtain m zs where p: "pass (by_key key) ws = (m, zs)" by fastforce
    have res: "n = Suc m" "ys = merge (by_key key) as bs @ zs" using "1.prems" rest r q p by (simp_all add: pass.simps)
    have m0: "descents key (merge (by_key key) as bs) = 0" using sorted_merge [OF as bs] by (simp add: descents_0)
    show ?thesis
    proof (cases "ws = []")
      case True
      then show ?thesis using p res d d' rest m0 by (auto simp: pass.simps)
    next
      case False
      from "1.hyps" [OF "1.prems"(2) r [symmetric] refl rest q [symmetric] refl p False] have
        "m = descents key ws div 2 + 1" "descents key zs \<le> descents key ws div 2" by simp_all
      then show ?thesis using res d d' rest False m0 descents_append [of key "merge (by_key key) as bs" zs] by simp
    qed
  qed
qed

lemma pass_filter:
  "pass (by_key key) xs = (n, ys) \<Longrightarrow> filter (\<lambda>x. key x = k) ys = filter (\<lambda>x. key x = k) xs"
proof (induction "by_key key" xs arbitrary: n ys rule: pass.induct)
  case (1 xs)
  show ?case
  proof (cases "xs = []")
    case True
    then show ?thesis using 1 by (simp add: pass.simps)
  next
    case ne: False
    obtain as rest where r: "run_of (by_key key) xs = (as, rest)" by fastforce
    note xs = run_of_append [OF r]
    have as: "sorted (map key as)" using run_of_ascending [OF r] by (simp add: ascending_sorted)
    show ?thesis
    proof (cases "rest = []")
      case True
      then show ?thesis using 1 r xs ne by (simp add: pass.simps)
    next
      case rest: False
      obtain bs ws where q: "run_of (by_key key) rest = (bs, ws)" by fastforce
      have bs: "sorted (map key bs)" using run_of_ascending [OF q] by (simp add: ascending_sorted)
      obtain m zs where p: "pass (by_key key) ws = (m, zs)" by fastforce
      have "ys = merge (by_key key) as bs @ zs" using "1.prems" rest ne r q p by (simp add: pass.simps)
      then show ?thesis
        using "1.hyps" [OF ne r [symmetric] refl rest q [symmetric] refl p] xs run_of_append [OF q] filter_merge [OF as bs, of k] by simp
    qed
  qed
qed

lemma sort_key_filter:
  assumes "\<And>k. filter (\<lambda>x. key x = k) ys = filter (\<lambda>x. key x = k) xs" and "sorted (map key ys)"
  shows "sort_key key xs = ys"
proof (rule properties_for_sort_key [OF _ _ assms(2)])
  show "mset ys = mset xs"
  proof (rule multiset_eqI)
    fix x
    have "count (mset zs) x = count (mset (filter (\<lambda>y. key y = key x) zs)) x" for zs by (induction zs) auto
    then show "count (mset ys) x = count (mset xs) x" using assms(1) [of "key x"] by metis
  qed
  show "filter (\<lambda>x. key k = key x) ys = filter (\<lambda>x. key k = key x) xs" if "k \<in> set ys" for k
    using assms(1) [of "key k"] by (simp add: eq_commute)
qed

lemma sort_loop_ring:
  "ring l h xs \<Longrightarrow> \<exists>h'. sort_loop l (by_key key) h = Some h' \<and> ring l h' (sort_key key xs) \<and> failed_asserts h' = failed_asserts h"
proof (induction "descents key xs" arbitrary: xs h rule: less_induct)
  case less
  obtain n ys where p: "pass (by_key key) xs = (n, ys)" by fastforce
  from sort_pass_ring [of l h "[]" xs "by_key key" n ys 0] p less.prems obtain h1 where h1:
    "sort_pass l (end_at l xs) 0 (by_key key) h = Some (n, h1)" "ring l h1 ys" "failed_asserts h1 = failed_asserts h" by auto
  have b: "list_begin l h = Some (Some (end_at l xs))" by (rule ring_begin [OF less.prems])
  have keep: "sort_key key ys = sort_key key xs"
  proof (rule sort_key_filter [symmetric])
    show "filter (\<lambda>x. key x = k) (sort_key key ys) = filter (\<lambda>x. key x = k) xs" for k
      using pass_filter [OF p, of k] sort_key_stable [of key k ys] by simp
  qed simp
  show ?case
  proof (cases "n > 1")
    case True
    then have ne: "xs \<noteq> []" using p by (auto simp: pass.simps)
    have "d div 2 < d" if "0 < d div 2" for d :: nat using that by linarith
    from this [of "descents key xs"] have "descents key ys < descents key xs" using pass_count [OF p ne] True by linarith
    from less.hyps [OF this h1(2)] obtain h2 where
      "sort_loop l (by_key key) h1 = Some h2" "ring l h2 (sort_key key ys)" "failed_asserts h2 = failed_asserts h1" by blast
    then show ?thesis using b h1 True keep by (subst sort_loop.simps) simp
  next
    case False
    have "sorted (map key ys)"
    proof (cases "xs = []")
      case True
      then show ?thesis using p by (simp add: pass.simps)
    next
      case ne: False
      then show ?thesis using pass_count [OF p ne] False by (simp flip: descents_0)
    qed
    then have "sort_key key xs = ys" using pass_filter [OF p] by (intro sort_key_filter) auto
    then show ?thesis using b h1 False by (subst sort_loop.simps) simp
  qed
qed

lemma list_sort_ring:
  assumes "ring l h xs"
  shows "\<exists>h'. list_sort l (by_key key) h = Some h' \<and> ring l h' (sort_key key xs) \<and> failed_asserts h' = failed_asserts h"
proof -
  obtain h1 where h1: "sort_loop l (by_key key) h = Some h1" "ring l h1 (sort_key key xs)" "failed_asserts h1 = failed_asserts h"
    using sort_loop_ring [OF assms] by blast
  have "is_sorted (end_at l (sort_key key xs)) (tail_elem l) (by_key key) h1 = Some (True, h1)"
    using is_sorted_ring [of l h1 "[]" "sort_key key xs" "[]" "by_key key"] h1(2) by (simp add: ascending_sorted)
  then show ?thesis using h1 ring_begin [OF h1(2)] by (simp add: list_sort_def list_end_def)
qed

subsection \<open>Reversing\<close>

lemma swap_links_ok:
  assumes "p \<in> dom (elems h)"
  obtains h' where "upd_elems (swap_links p) h = Some h'" and "dom (elems h') = dom (elems h)"
    and "nx (elems h') = (nx (elems h))(p := pv (elems h) p)" and "pv (elems h') = (pv (elems h))(p := nx (elems h) p)"
    and "failed_asserts h' = failed_asserts h"
proof -
  obtain n where n: "elems h p = Some n" using assms by auto
  show thesis
    by (rule that [of "h\<lparr>elems := (elems h)(p \<mapsto> n\<lparr>nprev := nnext n, nnext := nprev n\<rparr>)\<rparr>"])
      (use n in \<open>auto simp: upd_elems_def swap_links_def nx_def pv_def fun_eq_iff\<close>)
qed

lemma reverse_from_links:
  assumes "chain (elems h) (vs @ [tail_elem l])" and "distinct (vs @ [tail_elem l])"
  shows "\<exists>h'. reverse_from l (Some (end_at l vs)) h = Some h' \<and> dom (elems h') = dom (elems h) \<and> failed_asserts h' = failed_asserts h \<and>
    nx (elems h') = (\<lambda>x. if x \<in> set vs then pv (elems h) x else nx (elems h) x) \<and>
    pv (elems h') = (\<lambda>x. if x \<in> set vs then nx (elems h) x else pv (elems h) x)"
  using assms
proof (induction vs arbitrary: h)
  case Nil
  then show ?case by (subst reverse_from.simps) (simp add: list_end_def)
next
  case (Cons v vs)
  have d: "v \<in> dom (elems h)" "nx (elems h) v = Some (end_at l vs)" "v \<noteq> tail_elem l"
    using Cons.prems by (cases vs; auto)+
  obtain h1 where h1: "upd_elems (swap_links v) h = Some h1" "dom (elems h1) = dom (elems h)"
      "nx (elems h1) = (nx (elems h))(v := pv (elems h) v)" "pv (elems h1) = (pv (elems h))(v := nx (elems h) v)"
      "failed_asserts h1 = failed_asserts h"
    using swap_links_ok [OF d(1)] .
  have rest: "chain (elems h) (vs @ [tail_elem l])" using Cons.prems(1) by (cases vs) auto
  have "chain (elems h1) (vs @ [tail_elem l])"
  proof (rule chain_same [OF _ rest])
    show "\<forall>p \<in> set (vs @ [tail_elem l]). p \<in> dom (elems h1) \<and> nx (elems h1) p = nx (elems h) p \<and> pv (elems h1) p = pv (elems h) p"
      using Cons.prems(2) h1(2-4) chain_dom [OF rest] by auto
  qed
  with Cons.IH [of h1] Cons.prems(2) obtain h2 where h2: "reverse_from l (Some (end_at l vs)) h1 = Some h2"
      "dom (elems h2) = dom (elems h1)" "failed_asserts h2 = failed_asserts h1"
      "nx (elems h2) = (\<lambda>x. if x \<in> set vs then pv (elems h1) x else nx (elems h1) x)"
      "pv (elems h2) = (\<lambda>x. if x \<in> set vs then nx (elems h1) x else pv (elems h1) x)" by auto
  have "pv (elems h1) v = Some (end_at l vs)" using h1(4) d(2) by simp
  then obtain n where "elems h1 v = Some n" "nprev n = Some (end_at l vs)" by (auto simp: pv_Some)
  then have "reverse_from l (Some (end_at l (v # vs))) h = Some h2"
    using d(3) h1(1) h2(1) by (subst reverse_from.simps) (simp add: list_end_def)
  moreover have "v \<notin> set vs" using Cons.prems(2) by simp
  ultimately show ?case using h1(2-5) h2(2-5) by (auto simp: fun_eq_iff)
qed

lemma chain_rev:
  "chain c ys \<Longrightarrow> set ys \<subseteq> dom d \<Longrightarrow> \<forall>p \<in> set (tl ys). nx d p = pv c p \<Longrightarrow> \<forall>p \<in> set (butlast ys). pv d p = nx c p \<Longrightarrow> chain d (rev ys)"
proof (induction ys rule: induct_list012)
  case (3 x y zs)
  have "chain d (rev (y # zs))" using 3 by (intro "3.IH"(2)) (auto split: if_splits dest: list.set_sel(2))
  moreover have "chain d [y, x]" using "3.prems" by auto
  ultimately show ?case using chain_append [of d "rev zs" y "[x]"] by simp
qed auto

lemma list_reverse_ring:
  assumes "ring l h xs"
  shows "\<exists>h'. list_reverse l h = Some h' \<and> ring l h' (rev xs) \<and> dom (elems h') = dom (elems h) \<and> failed_asserts h' = failed_asserts h"
proof (cases "xs = []")
  case True
  then show ?thesis using ring_empty [OF assms] assms by (simp add: list_reverse_def)
next
  case False
  let ?hd = "head_elem l" and ?tl = "tail_elem l" and ?b = "hd xs" and ?a = "last xs"
  have c: "chain (elems h) (?hd # xs @ [?tl])" "distinct (?hd # xs @ [?tl])" "pv (elems h) ?hd = None" "nx (elems h) ?tl = None"
    using assms by (simp_all add: ring_def)
  have cx: "chain (elems h) xs" "chain (elems h) (xs @ [?tl])"
    using c(1) chain_join [of "elems h" "[?hd]" "xs @ [?tl]"] chain_join [of "elems h" xs "[?tl]"] by simp_all
  have dom: "set (?hd # xs @ [?tl]) \<subseteq> dom (elems h)" using c(1) chain_dom by blast
  have mem: "?a \<in> set xs" "?b \<in> set xs" using False by simp_all
  have ends: "nx (elems h) ?hd = Some ?b" "pv (elems h) ?b = Some ?hd" "nx (elems h) ?a = Some ?tl" "pv (elems h) ?tl = Some ?a"
    using ring_links [of l h "[]" xs] ring_links [of l h xs "[]"] assms False by simp_all
  from reverse_from_links [OF cx(2)] c(2) obtain h1 where h1: "reverse_from l (Some ?b) h = Some h1"
      "dom (elems h1) = dom (elems h)" "failed_asserts h1 = failed_asserts h"
      "nx (elems h1) = (\<lambda>x. if x \<in> set xs then pv (elems h) x else nx (elems h) x)"
      "pv (elems h1) = (\<lambda>x. if x \<in> set xs then nx (elems h) x else pv (elems h) x)"
    using False by auto
  have out: "?hd \<notin> set xs" "?tl \<notin> set xs" "?hd \<noteq> ?tl" using c(2) by auto
  then have "nx (elems h1) ?hd = Some ?b" "pv (elems h1) ?tl = Some ?a" using h1(4,5) ends by simp_all
  then obtain n m where n: "elems h1 ?hd = Some n" "nnext n = Some ?b" and m: "elems h1 ?tl = Some m" "nprev m = Some ?a"
    by (auto simp: nx_Some pv_Some)
  obtain h2 where h2: "upd_elems (set_next ?hd (Some ?a)) h1 = Some h2" "dom (elems h2) = dom (elems h1)"
      "nx (elems h2) = (nx (elems h1))(?hd := Some ?a)" "pv (elems h2) = pv (elems h1)" "failed_asserts h2 = failed_asserts h1"
    using upd_elems_next n(1) by (metis domI)
  have "?tl \<in> dom (elems h2)" using h2(2) m(1) by auto
  then obtain h3 where h3: "upd_elems (set_prev ?tl (Some ?b)) h2 = Some h3" "dom (elems h3) = dom (elems h2)"
      "pv (elems h3) = (pv (elems h2))(?tl := Some ?b)" "nx (elems h3) = nx (elems h2)" "failed_asserts h3 = failed_asserts h2"
    using upd_elems_prev by metis
  have neq: "?a \<noteq> ?hd" "?a \<noteq> ?tl" "?b \<noteq> ?hd" "?b \<noteq> ?tl" using mem out by metis+
  have "pv (elems h3) ?a = Some ?tl" "nx (elems h3) ?b = Some ?hd"
    using h1(4,5) h2(3,4) h3(3,4) mem ends neq by simp_all
  then obtain na nb where na: "elems h3 ?a = Some na" "nprev na = Some ?tl" and nb: "elems h3 ?b = Some nb" "nnext nb = Some ?hd"
    by (auto simp: nx_Some pv_Some)
  obtain h4 where h4: "upd_elems (set_prev ?a (Some ?hd)) h3 = Some h4" "dom (elems h4) = dom (elems h3)"
      "pv (elems h4) = (pv (elems h3))(?a := Some ?hd)" "nx (elems h4) = nx (elems h3)" "failed_asserts h4 = failed_asserts h3"
    using upd_elems_prev na(1) by (metis domI)
  have "?b \<in> dom (elems h4)" using h4(2) nb(1) by auto
  then obtain h5 where h5: "upd_elems (set_next ?b (Some ?tl)) h4 = Some h5" "dom (elems h5) = dom (elems h4)"
      "nx (elems h5) = (nx (elems h4))(?b := Some ?tl)" "pv (elems h5) = pv (elems h4)" "failed_asserts h5 = failed_asserts h4"
    using upd_elems_next by metis
  have run: "list_reverse l h = Some h5"
    using ring_empty [OF assms] ring_begin [OF assms] False h1(1) n m h2(1) h3(1) na nb h4(1) h5(1)
    by (simp add: list_reverse_def)
  have nx: "nx (elems h5) = (\<lambda>x. if x \<in> set xs then pv (elems h) x else nx (elems h) x)(?hd := Some ?a, ?b := Some ?tl)"
    using h1(4) h2(3) h3(4) h4(4) h5(3) by simp
  have pv: "pv (elems h5) = (\<lambda>x. if x \<in> set xs then nx (elems h) x else pv (elems h) x)(?tl := Some ?b, ?a := Some ?hd)"
    using h1(5) h2(4) h3(3) h4(3) h5(4) by simp
  have dom5: "dom (elems h5) = dom (elems h)" using h1(2) h2(2) h3(2) h4(2) h5(2) by simp
  have dis: "distinct xs" using c(2) by simp
  have "chain (elems h5) (rev xs)"
  proof (rule chain_rev [OF cx(1)])
    show "set xs \<subseteq> dom (elems h5)" using dom dom5 by auto
    show "\<forall>p \<in> set (tl xs). nx (elems h5) p = pv (elems h) p"
      using nx out dis False by (cases xs) auto
    show "\<forall>p \<in> set (butlast xs). pv (elems h5) p = nx (elems h) p"
      using pv out dis False by (cases xs rule: rev_cases) auto
  qed
  moreover have "nx (elems h5) ?hd = Some ?a" "pv (elems h5) ?a = Some ?hd" "nx (elems h5) ?b = Some ?tl" "pv (elems h5) ?tl = Some ?b"
    using nx pv neq by simp_all
  moreover have "hd (rev xs) = ?a" "last (rev xs) = ?b" using False by (simp_all add: hd_rev last_rev)
  moreover have "{?hd, ?tl} \<subseteq> dom (elems h5)" using dom dom5 by simp
  ultimately have "chain (elems h5) ([?hd] @ rev xs @ [?tl])" using False by (simp add: chain_join del: append_Cons)
  moreover have "pv (elems h5) ?hd = None" "nx (elems h5) ?tl = None" using nx pv out c(3,4) neq by auto
  ultimately have "ring l h5 (rev xs)" using c(2) by (simp add: ring_def)
  then show ?thesis using run dom5 h1(3) h2(5) h3(5) h4(5) h5(5) by simp
qed

section \<open>Properties\<close>

text \<open>A list of three elements, to apply the theorems to.\<close>

definition demo_llist :: llist where "demo_llist = \<lparr>head_elem = 0, tail_elem = 1\<rparr>"

definition demo_links :: list_heap where
  "demo_links = \<lparr>elems = [0 \<mapsto> \<lparr>nnext = Some 2, nprev = None\<rparr>, 2 \<mapsto> \<lparr>nnext = Some 3, nprev = Some 0\<rparr>,
     3 \<mapsto> \<lparr>nnext = Some 4, nprev = Some 2\<rparr>, 4 \<mapsto> \<lparr>nnext = Some 1, nprev = Some 3\<rparr>, 1 \<mapsto> \<lparr>nnext = None, nprev = Some 4\<rparr>,
     5 \<mapsto> \<lparr>nnext = None, nprev = None\<rparr>], failed_asserts = 0\<rparr>"

lemma demo_ring: "ring demo_llist demo_links [2, 3, 4]"
  by (simp add: ring_def demo_llist_def demo_links_def nx_def pv_def)

text \<open>
  C16: \<open>list_sort\<close> ends, and sorts a list by the key of its elements; elements of equal keys
  stay in their order (\<open>sort_key\<close> is the stable sort of the library). No element is lost, and no
  assertion fails.
\<close>

theorem list_sort_stable:
  assumes "ring l h xs"
  shows "\<exists>h'. list_sort l (\<lambda>a b. key a < key b) h = Some h' \<and> ring l h' (sort_key key xs) \<and> failed_asserts h' = failed_asserts h"
  by (rule list_sort_ring [OF assms])

theorem list_sort_stable_witness:
  "\<exists>h'. list_sort demo_llist (\<lambda>a b. (a + 1) mod 3 < (b + 1) mod 3) demo_links = Some h' \<and> ring demo_llist h' [2, 3, 4]"
proof -
  have "sort_key (\<lambda>a. (a + 1) mod 3) [2, 3, 4::nat] = [2, 3, 4]" by (simp add: sort_key_def)
  then show ?thesis
    using list_sort_stable [OF demo_ring, of "\<lambda>a. (a + 1) mod 3"] by auto
qed

text \<open>\<open>list_reverse\<close> reverses a list, with all pointers in both directions.\<close>

theorem list_reverse_rev:
  assumes "ring l h xs"
  shows "\<exists>h'. list_reverse l h = Some h' \<and> ring l h' (rev xs) \<and> failed_asserts h' = failed_asserts h"
  using list_reverse_ring [OF assms] by blast

theorem list_reverse_rev_witness:
  "\<exists>h'. list_reverse demo_llist demo_links = Some h' \<and> ring demo_llist h' [4, 3, 2]"
  using list_reverse_rev [OF demo_ring] by auto

text \<open>
  C20: \<open>list_splice\<close> moves a stretch of elements in front of a stretch before it, and leaves
  everything else in place.
\<close>

theorem list_splice_moves:
  assumes "ring l h (us @ as @ bs @ ws)" and "as \<noteq> []" and "bs \<noteq> []"
  shows "\<exists>h'. list_splice (hd as) (hd bs) (hd (ws @ [tail_elem l])) h = Some h' \<and> ring l h' (us @ bs @ as @ ws) \<and>
    failed_asserts h' = failed_asserts h"
  using list_splice_ring [OF assms] by blast

theorem list_splice_moves_witness:
  "\<exists>h'. list_splice 2 3 1 demo_links = Some h' \<and> ring demo_llist h' [3, 4, 2]"
  using list_splice_moves [of demo_llist demo_links "[]" "[2]" "[3, 4]" "[]"] demo_ring by (auto simp: demo_llist_def)

text \<open>
  C21: Into a sorted list, \<open>list_insert_ordered\<close> inserts an element so that the list is still
  sorted, behind the elements with the same key.
\<close>

theorem list_insert_ordered_sorted:
  assumes "ring l h xs" and "sorted (map key xs)" and "e \<in> dom (elems h)" and "e \<notin> set (head_elem l # xs @ [tail_elem l])"
  shows "\<exists>h'. list_insert_ordered l e (\<lambda>a b. key a < key b) h = Some h' \<and> ring l h' (sort_key key (xs @ [e])) \<and>
    failed_asserts h' = failed_asserts h"
proof -
  let ?P = "\<lambda>y. \<not> key e < key y"
  define T D where "T = takeWhile ?P xs" and "D = dropWhile ?P xs"
  have xs: "xs = T @ D" by (simp add: T_def D_def)
  have s: "sorted (map key T)" "sorted (map key D)" using assms(2) by (simp_all add: xs sorted_append)
  have le: "\<forall>y \<in> set T. key y \<le> key e" by (auto simp: T_def dest: set_takeWhileD)
  have gt: "\<forall>y \<in> set D. key e < key y"
  proof (cases D)
    case (Cons d D')
    then have "key e < key d" using hd_dropWhile [of ?P xs] by (simp add: D_def)
    then show ?thesis using s(2) Cons by auto
  qed simp
  have "sort_key key (xs @ [e]) = T @ e # D"
  proof (rule sort_key_filter)
    show "sorted (map key (T @ e # D))" using s le gt by (fastforce simp: sorted_append intro: less_imp_le)
    show "filter (\<lambda>x. key x = k) (T @ e # D) = filter (\<lambda>x. key x = k) (xs @ [e])" for k
    proof -
      have "filter (\<lambda>x. key x = k) D = []" if "key e = k" using gt that by (force simp: filter_empty_conv)
      then show ?thesis by (auto simp: xs)
    qed
  qed
  then show ?thesis using insert_ordered_ring [OF assms(1,3,4), of "\<lambda>a b. key a < key b"] by (simp add: T_def D_def)
qed

theorem list_insert_ordered_sorted_witness:
  "\<exists>h'. list_insert_ordered demo_llist 5 (\<lambda>a b. a div 3 < b div 3) demo_links = Some h' \<and> ring demo_llist h' [2, 3, 4, 5]"
proof -
  have "sort_key (\<lambda>a. a div 3) ([2, 3, 4] @ [5::nat]) = [2, 3, 4, 5]" by (simp add: sort_key_def)
  then show ?thesis
    using list_insert_ordered_sorted [OF demo_ring, of "\<lambda>a. a div 3" 5] by (auto simp: demo_links_def demo_llist_def)
qed

text \<open>
  C19: Of every group of neighbours with equal keys, \<open>list_unique\<close> keeps the first and moves the
  others to the end of the second list, in their order.
\<close>

theorem list_unique_groups:
  fixes key :: "nat \<Rightarrow> 'k::linorder"
  assumes "ring l h xs" and "ring d h ds" and "set (head_elem l # xs @ [tail_elem l]) \<inter> set (head_elem d # ds @ [tail_elem d]) = {}"
  shows "\<exists>h' kept dups. list_unique l (Some d) (\<lambda>a b. key a < key b) h = Some h' \<and> ring l h' kept \<and> ring d h' (ds @ dups) \<and>
    map key kept = remdups_adj (map key xs) \<and> mset kept + mset dups = mset xs \<and> failed_asserts h' = failed_asserts h"
proof -
  let ?lt = "\<lambda>a b. key a < key b"
  have spec: "map key (fst (uniq ?lt ys)) = remdups_adj (map key ys) \<and> mset (fst (uniq ?lt ys)) + mset (snd (uniq ?lt ys)) = mset ys" for ys
  proof (induction ?lt ys rule: uniq.induct)
    case (1 x y ys)
    show ?case
    proof (cases "key x = key y")
      case True
      then show ?thesis using 1(1) by (simp add: case_prod_beta)
    next
      case False
      then have "\<not> (\<not> key x < key y \<and> \<not> key y < key x)" by auto
      from 1(2) [OF this] False show ?thesis by (auto split: prod.splits)
    qed
  qed auto
  show ?thesis
  proof (cases xs)
    case Nil
    then show ?thesis using assms ring_empty [OF assms(1)] by (intro exI [of _ h] exI [of _ "[]"]) (simp add: list_unique_def)
  next
    case (Cons x xs')
    then have "ring l h ([] @ x # xs')" "set (cells_of l ([] @ x # xs')) \<inter> set (cells_of d ds) = {}" using assms by simp_all
    from unique_loop_dups [OF this(1) assms(2) this(2), of ?lt] obtain h' where
      "unique_loop l (Some d) x ?lt h = Some h'" "ring l h' (fst (uniq ?lt xs))" "ring d h' (ds @ snd (uniq ?lt xs))"
      "failed_asserts h' = failed_asserts h" using Cons by auto
    then show ?thesis
      using spec [of xs] ring_empty [OF assms(1)] ring_begin [OF assms(1)] Cons by (auto simp: list_unique_def)
  qed
qed

text \<open>A second list, which is empty.\<close>

definition demo_two :: list_heap where
  "demo_two = demo_links\<lparr>elems := (elems demo_links)(6 \<mapsto> \<lparr>nnext = Some 7, nprev = None\<rparr>, 7 \<mapsto> \<lparr>nnext = None, nprev = Some 6\<rparr>)\<rparr>"

theorem list_unique_groups_witness:
  "\<exists>h' kept dups. list_unique demo_llist (Some \<lparr>head_elem = 6, tail_elem = 7\<rparr>) (\<lambda>a b. a div 3 < b div 3) demo_two = Some h' \<and>
     ring demo_llist h' kept \<and> ring \<lparr>head_elem = 6, tail_elem = 7\<rparr> h' dups \<and> map (\<lambda>a. a div 3) kept = [0, 1] \<and> length dups = 1"
proof -
  have "ring demo_llist demo_two [2, 3, 4]" "ring \<lparr>head_elem = 6, tail_elem = 7\<rparr> demo_two []"
    by (simp_all add: ring_def demo_two_def demo_llist_def demo_links_def nx_def pv_def)
  from list_unique_groups [OF this, of "\<lambda>a. a div 3"] obtain h' kept dups where r:
    "list_unique demo_llist (Some \<lparr>head_elem = 6, tail_elem = 7\<rparr>) (\<lambda>a b. a div 3 < b div 3) demo_two = Some h'"
    "ring demo_llist h' kept" "ring \<lparr>head_elem = 6, tail_elem = 7\<rparr> h' dups" "map (\<lambda>a. a div 3) kept = [0, 1]"
    "mset kept + mset dups = mset [2, 3, 4]" by (auto simp: demo_llist_def)
  have "size (mset kept + mset dups) = 3" using r(5) by simp
  moreover have "length kept = 2" using r(4) by (metis length_map length_Cons list.size(3) One_nat_def Suc_1)
  ultimately have "length dups = 1" by simp
  with r(1-4) show ?thesis by (intro exI [of _ h'] exI [of _ kept] exI [of _ dups] conjI)
qed

text \<open>
  \<open>list_max\<close> and \<open>list_min\<close> return the first of the elements with the largest and with the
  smallest key, and the tail of an empty list.
\<close>

theorem list_max_min_first:
  assumes "ring l h xs"
  shows "case xs of
      [] \<Rightarrow> list_max l (\<lambda>a b. key a < key b) h = Some (tail_elem l, h) \<and> list_min l (\<lambda>a b. key a < key b) h = Some (tail_elem l, h)
    | x # ys \<Rightarrow> (\<exists>a b. list_max l (\<lambda>a b. key a < key b) h = Some (a, h) \<and> first_max key xs a \<and>
        list_min l (\<lambda>a b. key a < key b) h = Some (b, h) \<and> first_min key xs b)"
proof (cases xs)
  case Nil
  then show ?thesis using max_min_empty assms by simp
next
  case (Cons x ys)
  then show ?thesis
    using list_max_ring [of l h x ys "\<lambda>a b. key a < key b"] list_min_ring [of l h x ys "\<lambda>a b. key a < key b"]
      fold_max [of key x ys] fold_min [of key x ys] assms by simp
qed

theorem list_max_min_first_witness:
  "\<exists>a b. list_max demo_llist (\<lambda>a b. a < b) demo_links = Some (a, demo_links) \<and> first_max id [2, 3, 4] a \<and>
     list_min demo_llist (\<lambda>a b. a < b) demo_links = Some (b, demo_links) \<and> first_min id [2, 3, 4] b"
  using list_max_min_first [OF demo_ring, of id] by simp

end
