(* ===== verification/Shell_Store.thy ===== *)
theory Shell_Store
  imports Prelude
begin

text \<open>
  What the three shells share: variable stores kept in an array of slots, reading lines
  with \<open>fgets\<close>, and words between separators.

  A slot is free when its variable is the string \<open>none\<close>. The locale \<open>var_store\<close> is the
  contract of a variable store; each shell interprets it with its own store.
\<close>

abbreviation newline :: char where "newline \<equiv> CHR 0x0A"
abbreviation carriage_return :: char where "carriage_return \<equiv> CHR 0x0D"
abbreviation space :: char where "space \<equiv> CHR 0x20"
abbreviation semicolon :: char where "semicolon \<equiv> CHR 0x3B"
abbreviation dollar :: char where "dollar \<equiv> CHR 0x24"

record memory_struct =
  var :: string
  val :: string

abbreviation free_slot :: memory_struct where
  "free_slot \<equiv> \<lparr>var = ''none'', val = ''none''\<rparr>"

section \<open>Arrays of slots\<close>

fun find_slot :: "memory_struct list \<Rightarrow> string \<Rightarrow> nat option" where
  "find_slot [] k = None"
| "find_slot (m # ms) k = (if var m = k then Some 0 else map_option Suc (find_slot ms k))"

definition get_slot :: "memory_struct list \<Rightarrow> string \<Rightarrow> string option" where
  "get_slot ms k = map_option (\<lambda>i. val (ms ! i)) (find_slot ms k)"

definition set_slot :: "memory_struct list \<Rightarrow> string \<Rightarrow> string \<Rightarrow> memory_struct list" where
  "set_slot ms k v =
    (case find_slot ms k of
       Some i \<Rightarrow> ms[i := (ms ! i)\<lparr>val := v\<rparr>]
     | None \<Rightarrow> (case find_slot ms ''none'' of
         Some i \<Rightarrow> ms[i := \<lparr>var = k, val = v\<rparr>]
       | None \<Rightarrow> ms))"

definition has_room :: "memory_struct list \<Rightarrow> bool" where
  "has_room ms \<longleftrightarrow> (\<exists>m \<in> set ms. var m = ''none'')"

lemma find_slot_Some:
  "find_slot ms k = Some i \<longleftrightarrow> i < length ms \<and> var (ms ! i) = k \<and> (\<forall>j < i. var (ms ! j) \<noteq> k)"
proof (induction ms arbitrary: i)
  case Nil
  then show ?case by simp
next
  case (Cons m ms)
  show ?case
  proof (cases i)
    case 0
    then show ?thesis by (auto simp: map_option_case split: option.splits)
  next
    case (Suc j)
    have "(\<forall>j' < Suc j. var ((m # ms) ! j') \<noteq> k) \<longleftrightarrow> var m \<noteq> k \<and> (\<forall>j' < j. var (ms ! j') \<noteq> k)"
      by (auto simp: less_Suc_eq_0_disj)
    with Suc Cons.IH [of j] show ?thesis by (auto simp: map_option_case split: option.splits)
  qed
qed

lemma find_slot_None: "find_slot ms k = None \<longleftrightarrow> (\<forall>m \<in> set ms. var m \<noteq> k)"
  by (induction ms) auto

lemma length_set_slot [simp]: "length (set_slot ms k v) = length ms"
  by (simp add: set_slot_def split: option.split)

lemma has_room_iff: "has_room ms \<longleftrightarrow> find_slot ms ''none'' \<noteq> None"
  by (auto simp: has_room_def find_slot_None)

text \<open>A slot whose variable is changed between two other names does not matter to a search.\<close>

lemma find_slot_update:
  assumes "i < length ms" and "var m \<noteq> k" and "var (ms ! i) \<noteq> k"
  shows "find_slot (ms[i := m]) k = find_slot ms k"
  using assms
proof (induction ms arbitrary: i)
  case Nil
  then show ?case by simp
next
  case (Cons m' ms)
  then show ?case by (cases i) auto
qed

lemma find_slot_update_same:
  assumes "i < length ms" and "var m = k" and "\<forall>j < i. var (ms ! j) \<noteq> k"
  shows "find_slot (ms[i := m]) k = Some i"
  using assms by (auto simp: find_slot_Some)

lemma get_set_slot_other:
  assumes "k \<noteq> ''none''" and "k' \<noteq> ''none''" and "k' \<noteq> k"
  shows "get_slot (set_slot ms k v) k' = get_slot ms k'"
proof -
  have "get_slot (ms[i := m]) k' = get_slot ms k'"
    if "i < length ms" "var m \<noteq> k'" "var (ms ! i) \<noteq> k'" for i m
  proof -
    have "i \<noteq> j" if "find_slot ms k' = Some j" for j
      using that \<open>var (ms ! i) \<noteq> k'\<close> by (auto simp: find_slot_Some)
    with find_slot_update [OF that] show ?thesis by (auto simp: get_slot_def map_option_case split: option.split)
  qed
  with assms show ?thesis by (auto simp: set_slot_def find_slot_Some split: option.split)
qed

lemma get_set_slot_same:
  assumes "k \<noteq> ''none''" and "get_slot ms k \<noteq> None \<or> has_room ms"
  shows "get_slot (set_slot ms k v) k = Some v"
proof (cases "find_slot ms k")
  case (Some i)
  then have "find_slot (ms[i := (ms ! i)\<lparr>val := v\<rparr>]) k = Some i"
    by (intro find_slot_update_same) (auto simp: find_slot_Some)
  moreover have "i < length ms" using Some by (simp add: find_slot_Some)
  ultimately show ?thesis using Some by (simp add: set_slot_def get_slot_def)
next
  case None
  with assms(2) obtain i where i: "find_slot ms ''none'' = Some i"
    by (auto simp: get_slot_def has_room_iff)
  then have "find_slot (ms[i := \<lparr>var = k, val = v\<rparr>]) k = Some i"
    using None by (intro find_slot_update_same) (auto simp: find_slot_Some find_slot_None)
  moreover have "i < length ms" using i by (simp add: find_slot_Some)
  ultimately show ?thesis using None i by (simp add: set_slot_def get_slot_def)
qed

lemma set_slot_full: "get_slot ms k = None \<Longrightarrow> \<not> has_room ms \<Longrightarrow> set_slot ms k v = ms"
  by (auto simp: set_slot_def get_slot_def has_room_iff split: option.split)

section \<open>The contract of a variable store\<close>

text \<open>
  \<open>room\<close> tells whether a new variable fits. A store is a partial map as far as names other
  than \<open>none\<close> are concerned; an assignment to a new name is lost when there is no room.
\<close>

locale var_store =
  fixes get :: "'s \<Rightarrow> string \<Rightarrow> string option"
    and put :: "'s \<Rightarrow> string \<Rightarrow> string \<Rightarrow> 's"
    and room :: "'s \<Rightarrow> bool"
  assumes get_put_same: "k \<noteq> ''none'' \<Longrightarrow> get s k \<noteq> None \<or> room s \<Longrightarrow> get (put s k v) k = Some v"
    and get_put_other: "k \<noteq> ''none'' \<Longrightarrow> k' \<noteq> ''none'' \<Longrightarrow> k' \<noteq> k \<Longrightarrow> get (put s k v) k' = get s k'"
    and put_full: "get s k = None \<Longrightarrow> \<not> room s \<Longrightarrow> put s k v = s"
begin

lemma get_put:
  assumes "k \<noteq> ''none''" and "k' \<noteq> ''none''"
  shows "get (put s k v) k' =
    (if k' = k then if get s k = None \<and> \<not> room s then None else Some v else get s k')"
  using assms get_put_same [of k s v] get_put_other [of k k' s v] put_full [of s k v] by auto

text \<open>Assignments to known variables: the last one wins and all others stay.\<close>

lemma get_puts:
  assumes "\<forall>(k, v) \<in> set ops. k \<noteq> ''none'' \<and> get s k \<noteq> None" and "x \<noteq> ''none''"
  shows "get (fold (\<lambda>(k, v) s. put s k v) ops s) x = (case map_of (rev ops) x of None \<Rightarrow> get s x | Some v \<Rightarrow> Some v)"
  using assms(1)
proof (induction ops arbitrary: s)
  case Nil
  then show ?case by simp
next
  case (Cons p ops)
  obtain k v where p: "p = (k, v)" by (cases p)
  have kv: "k \<noteq> ''none''" "get s k \<noteq> None" using Cons.prems p by auto
  have "\<forall>(k', v') \<in> set ops. k' \<noteq> ''none'' \<and> get (put s k v) k' \<noteq> None"
    using Cons.prems kv p by (auto simp: get_put)
  from Cons.IH [OF this] show ?case
    using kv assms(2) p by (auto simp: get_put map_add_def split: option.split)
qed

end

interpretation slots: var_store get_slot set_slot has_room
  by unfold_locales (auto simp: get_set_slot_same get_set_slot_other set_slot_full)

section \<open>Reading lines\<close>

text \<open>
  \<open>fgets (line, n + 1, p)\<close> on the rest of a file: the characters read, what is left, and
  whether the end of the file was hit (\<open>feof\<close>).
\<close>

fun fgets :: "nat \<Rightarrow> string \<Rightarrow> string \<times> string \<times> bool" where
  "fgets 0 cs = ([], cs, False)"
| "fgets (Suc n) [] = ([], [], True)"
| "fgets (Suc n) (c # cs) =
    (if c = newline then ([c], cs, False)
     else let (l, rest, eof) = fgets n cs in (c # l, rest, eof))"

lemma fgets_length: "fgets n cs = (l, rest, eof) \<Longrightarrow> length rest + length l = length cs"
  by (induction n cs arbitrary: l rest eof rule: fgets.induct) (auto split: if_splits prod.splits)

lemma fgets_progress: "fgets (Suc n) cs = (l, rest, False) \<Longrightarrow> length rest < length cs"
  using fgets_length [of "Suc n" cs l rest False] by (cases cs) (auto split: if_splits prod.splits)

lemma fgets_line:
  "newline \<notin> set l \<Longrightarrow> length l < n \<Longrightarrow> fgets n (l @ newline # cs) = (l @ [newline], cs, False)"
proof (induction l arbitrary: n)
  case Nil
  then show ?case by (cases n) auto
next
  case (Cons c l)
  then show ?case by (cases n) auto
qed

lemma fgets_last: "newline \<notin> set l \<Longrightarrow> length l < n \<Longrightarrow> fgets n l = (l, [], True)"
proof (induction l arbitrary: n)
  case Nil
  then show ?case by (cases n) auto
next
  case (Cons c l)
  then show ?case by (cases n) auto
qed

end
