(* ===== verification/A1_Shell.thy ===== *)
theory A1_Shell
  imports Shell_Store
begin

text \<open>
  The first shell: \<open>a1/shellmemory.c\<close>, \<open>a1/interpreter.c\<close> and \<open>a1/shell.c\<close>.

  The state is the array of 1000 variable slots and the trace of what the shell did so far:
  the lines it printed and its calls to the host (\<open>system\<close>, \<open>chdir\<close>, creating a file). How
  the host answers is a parameter, the record \<open>host\<close>, and may depend on the trace. \<open>exit\<close>
  is the outcome \<open>Exited\<close>. Words that do not fit the fixed buffers are \<open>None\<close>.

  Scripts can run scripts. The number of nested scripts is bounded by a fuel argument, and
  \<open>None\<close> is also the result when it is used up: a script that runs itself overflows the
  stack.

  The words of \<open>set\<close> are joined with \<open>strcat\<close> into the block that \<open>strdup\<close> made for the
  third word alone. When the joined string is longer than that word was, \<open>strcat\<close> writes
  outside of the block and the result is \<open>None\<close>.
\<close>

record shell_a1 =
  shellmemory :: "memory_struct list"
  trace :: "event list"

section \<open>Shell memory\<close>

text \<open>Two helpers that the shell does not use. \<open>match\<close> reads \<open>strlen (var)\<close> characters of
  \<open>model\<close>, of which the last may be its terminator.\<close>

definition match_a1 :: "string \<Rightarrow> string \<Rightarrow> bool option" where
  "match_a1 model v =
    (if length model + 1 < length v then None
     else Some (length (filter (\<lambda>i. (model @ [CHR 0x00]) ! i = v ! i) [0..<length v]) = length v))"

definition extract_a1 :: "string \<Rightarrow> string option" where
  "extract_a1 model =
    (let value = drop 1 (dropWhile (\<lambda>c. c \<noteq> CHR ''='') model)
     in if length value < 1000 then Some value else None)"

definition mem_init_a1 :: "shell_a1 \<Rightarrow> shell_a1" where
  "mem_init_a1 s = s\<lparr>shellmemory := replicate 1000 free_slot\<rparr>"

definition mem_set_value_a1 :: "string \<Rightarrow> string \<Rightarrow> shell_a1 \<Rightarrow> shell_a1" where
  "mem_set_value_a1 v x s = s\<lparr>shellmemory := set_slot (shellmemory s) v x\<rparr>"

definition mem_get_value_a1 :: "string \<Rightarrow> shell_a1 \<Rightarrow> string" where
  "mem_get_value_a1 v s =
    (case get_slot (shellmemory s) v of Some x \<Rightarrow> x | None \<Rightarrow> ''Variable does not exist'')"

section \<open>Commands\<close>

definition emit :: "event \<Rightarrow> shell_a1 \<Rightarrow> shell_a1" where
  "emit e s = s\<lparr>trace := trace s @ [e]\<rparr>"

definition badcommand_a1 :: "shell_a1 \<Rightarrow> outcome \<times> shell_a1" where
  "badcommand_a1 s = (Returned 1, emit (Out ''Unknown Command'') s)"

definition badsetcommand_a1 :: "shell_a1 \<Rightarrow> outcome \<times> shell_a1" where
  "badsetcommand_a1 s = (Returned 1, emit (Out ''Bad command: set'') s)"

definition badcommandFileDoesNotExist_a1 :: "shell_a1 \<Rightarrow> outcome \<times> shell_a1" where
  "badcommandFileDoesNotExist_a1 s = (Returned 3, emit (Out ''Bad command: File not found'') s)"

abbreviation tabs :: "nat \<Rightarrow> string" where "tabs n \<equiv> replicate n (CHR 0x09)"

definition help_string :: string where
  "help_string = concat [
     ''COMMAND'', tabs 3, ''DESCRIPTION'', [newline],
     '' help'', tabs 3, ''Displays all the commands'', [newline],
     '' quit'', tabs 3, ''Exits / terminates the shell with '', [CHR 0xE2, CHR 0x80, CHR 0x9C],
     ''Bye!'', [CHR 0xE2, CHR 0x80, CHR 0x9D], [newline],
     '' set VAR STRING'', tabs 2, ''Assigns a value to shell memory'', [newline],
     '' print VAR'', tabs 2, ''Displays the STRING assigned to VAR'', [newline],
     '' run SCRIPT.TXT'', tabs 2, ''Executes the file SCRIPT.TXT'', [newline], '' '']"

definition help_a1 :: "shell_a1 \<Rightarrow> outcome \<times> shell_a1" where
  "help_a1 s = (Returned 0, emit (Out help_string) s)"

definition quit_a1 :: "shell_a1 \<Rightarrow> outcome \<times> shell_a1" where
  "quit_a1 s = (Exited 0, emit (Out ''Bye!'') s)"

text \<open>\<open>set\<close> also builds the string \<open>var=value\<close> in a buffer of 1000 characters and forgets it.\<close>

definition set_a1 :: "string \<Rightarrow> string \<Rightarrow> shell_a1 \<Rightarrow> (outcome \<times> shell_a1) option" where
  "set_a1 v x s =
    (if length (v @ ''='' @ x) < 1000 then Some (Returned 0, mem_set_value_a1 v x s) else None)"

definition print_a1 :: "string \<Rightarrow> shell_a1 \<Rightarrow> outcome \<times> shell_a1" where
  "print_a1 v s = (Returned 0, emit (Out (mem_get_value_a1 v s)) s)"

definition echo_a1 :: "string \<Rightarrow> shell_a1 \<Rightarrow> (outcome \<times> shell_a1) option" where
  "echo_a1 v s =
    (if take 1 v = [dollar] then
       let tmp = drop 1 v; result = mem_get_value_a1 tmp s in
       if 100 \<le> length tmp \<or> 100 \<le> length result then None
       else if result = ''Variable does not exist'' then Some (Returned 0, emit (Out []) s)
       else Some (Returned 0, emit (Out result) s)
     else Some (Returned 0, emit (Out v) s))"

definition touch_a1 :: "host \<Rightarrow> string \<Rightarrow> shell_a1 \<Rightarrow> (outcome \<times> shell_a1) option" where
  "touch_a1 h name s =
    (if create_ok h (trace s) name then Some (Returned 0, emit (Touch name) s) else None)"

definition cd_a1 :: "host \<Rightarrow> string \<Rightarrow> shell_a1 \<Rightarrow> outcome \<times> shell_a1" where
  "cd_a1 h dir s =
    (if chdir_ok h (trace s) dir then (Returned 0, emit (Chdir dir) s)
     else (Returned 3, emit (Out ''Bad command: my_cd'') s))"

definition cat_a1 :: "host \<Rightarrow> string \<Rightarrow> shell_a1 \<Rightarrow> int \<times> shell_a1" where
  "cat_a1 h name s =
    (if open_read h (trace s) name \<noteq> None then (0, s) else (3, emit (Out ''Bad command: my_cat'') s))"

definition system_a1 :: "host \<Rightarrow> string \<Rightarrow> shell_a1 \<Rightarrow> outcome \<times> shell_a1" where
  "system_a1 h cmd s = (Returned (system_code h (trace s) cmd), emit (System cmd) s)"

section \<open>The interpreter\<close>

abbreviation MAX_ARGS_SIZE_a1 :: nat where "MAX_ARGS_SIZE_a1 \<equiv> 7"

definition strip_eol :: "string \<Rightarrow> string" where
  "strip_eol w = takeWhile (\<lambda>c. c \<noteq> carriage_return \<and> c \<noteq> newline) w"

fun join_words :: "string list \<Rightarrow> string" where
  "join_words [] = []"
| "join_words [w] = w"
| "join_words (w # ws) = w @ space # join_words ws"

definition interpreter_a1 ::
  "(string \<Rightarrow> shell_a1 \<Rightarrow> (outcome \<times> shell_a1) option) \<Rightarrow> host \<Rightarrow> string list \<Rightarrow> shell_a1 \<Rightarrow>
    (outcome \<times> shell_a1) option" where
  "interpreter_a1 run h args0 s =
    (if length args0 < 1 then Some (badcommand_a1 s)
     else if MAX_ARGS_SIZE_a1 < length args0 then
       Some (if args0 ! 0 = ''set'' then badsetcommand_a1 s else badcommand_a1 s)
     else
       let args = map strip_eol args0; n = length args; cmd = args ! 0 in
       if cmd = ''help'' then Some (if n \<noteq> 1 then badcommand_a1 s else help_a1 s)
       else if cmd = ''quit'' then Some (if n \<noteq> 1 then badcommand_a1 s else quit_a1 s)
       else if cmd = ''set'' then
         if n < 3 then Some (badsetcommand_a1 s)
         else let joined = join_words (drop 2 args) in
           if length (args0 ! 2) < length joined then None else set_a1 (args ! 1) joined s
       else if cmd = ''print'' then Some (if n \<noteq> 2 then badcommand_a1 s else print_a1 (args ! 1) s)
       else if cmd = ''run'' then if n \<noteq> 2 then Some (badcommand_a1 s) else run (args ! 1) s
       else if cmd = ''my_ls'' then Some (if n \<noteq> 1 then badcommand_a1 s else system_a1 h ''ls'' s)
       else if cmd = ''echo'' then if n \<noteq> 2 then Some (badcommand_a1 s) else echo_a1 (args ! 1) s
       else if cmd = ''my_touch'' then if n \<noteq> 2 then Some (badcommand_a1 s) else touch_a1 h (args ! 1) s
       else if cmd = ''my_cd'' then Some (if n \<noteq> 2 then badcommand_a1 s else cd_a1 h (args ! 1) s)
       else if cmd = ''my_mkdir'' then
         if n \<noteq> 2 then Some (badcommand_a1 s)
         else if 100 \<le> length (''mkdir '' @ args ! 1) then None
         else Some (system_a1 h (''mkdir '' @ args ! 1) s)
       else if cmd = ''my_cat'' then
         if n \<noteq> 2 then Some (badcommand_a1 s)
         else let (r, s) = cat_a1 h (args ! 1) s in
           if r = 0 then
             if 100 \<le> length (''cat '' @ args ! 1) then None else Some (system_a1 h (''cat '' @ args ! 1) s)
           else Some (Returned 3, s)
       else Some (badcommand_a1 s))"

section \<open>Splitting a line into words\<close>

text \<open>The outer loop of \<open>parseInput\<close>: a word ends before a space, a semicolon or the end of
  the line, and one character is skipped behind it.\<close>

definition word_char :: "char \<Rightarrow> bool" where
  "word_char c \<longleftrightarrow> c \<noteq> semicolon \<and> c \<noteq> newline \<and> c \<noteq> space"

function words_a1 :: "string \<Rightarrow> string list" where
  "words_a1 cs =
    (if cs = [] \<or> hd cs = newline then []
     else let w = takeWhile word_char cs; rest = dropWhile word_char cs in
       w # (if rest = [] then [] else words_a1 (tl rest)))"
  by pat_completeness auto
termination
proof (relation "measure length", goal_cases)
  case (2 cs w rest)
  then have "length rest \<le> length cs" by (simp add: length_dropWhile_le)
  moreover have "length (tl rest) < length rest" using 2 by simp
  ultimately show ?case by simp
qed simp

declare words_a1.simps [simp del]

definition parseInput_a1 ::
  "(string \<Rightarrow> shell_a1 \<Rightarrow> (outcome \<times> shell_a1) option) \<Rightarrow> host \<Rightarrow> string \<Rightarrow> shell_a1 \<Rightarrow>
    (outcome \<times> shell_a1) option" where
  "parseInput_a1 run h ui s =
    (let ws = words_a1 (dropWhile (\<lambda>c. c = space) ui) in
     if 1000 \<le> length ui \<or> 100 < length ws \<or> (\<exists>w \<in> set ws. 200 \<le> length w) then None
     else interpreter_a1 run h ws s)"

section \<open>Scripts\<close>

text \<open>
  The lines \<open>run\<close> hands to \<open>parseInput\<close>. The loop tests \<open>feof\<close> after a line has been
  executed; when the file ends with a newline the last \<open>fgets\<close> fails and the line is the
  empty string the buffer was cleared to.
\<close>

function script_lines :: "string \<Rightarrow> string list" where
  "script_lines cs =
    (let (l, rest, eof) = fgets 998 cs in if eof then [l] else l # script_lines rest)"
  by pat_completeness auto
termination
proof (relation "measure length", goal_cases)
  case (2 cs x l y rest eof)
  then have "fgets (Suc 997) cs = (l, rest, False)" by simp
  from fgets_progress [OF this] show ?case by simp
qed simp

declare script_lines.simps [simp del]

fun run_lines_a1 ::
  "(string \<Rightarrow> shell_a1 \<Rightarrow> (outcome \<times> shell_a1) option) \<Rightarrow> string list \<Rightarrow> outcome \<Rightarrow> shell_a1 \<Rightarrow>
    (outcome \<times> shell_a1) option" where
  "run_lines_a1 p [] r s = Some (r, s)"
| "run_lines_a1 p (l # ls) r s = do {
     (r, s) \<leftarrow> p l s;
     case r of Exited c \<Rightarrow> Some (r, s) | Returned c \<Rightarrow> run_lines_a1 p ls r s }"

primrec run_a1 :: "nat \<Rightarrow> host \<Rightarrow> string \<Rightarrow> shell_a1 \<Rightarrow> (outcome \<times> shell_a1) option" where
  "run_a1 0 h script s = None"
| "run_a1 (Suc n) h script s =
    (case open_read h (trace s) script of
       None \<Rightarrow> Some (badcommandFileDoesNotExist_a1 s)
     | Some content \<Rightarrow>
         if content = [] then None
         else run_lines_a1 (parseInput_a1 (run_a1 n h) h) (script_lines content) (Returned 0) s)"

text \<open>\<open>main\<close>, on the lines of its input; \<open>tty\<close> tells whether the input is a terminal. After
  the last line the program waits for more.\<close>

definition exec_a1 :: "nat \<Rightarrow> host \<Rightarrow> string \<Rightarrow> shell_a1 \<Rightarrow> (outcome \<times> shell_a1) option" where
  "exec_a1 n h = parseInput_a1 (run_a1 n h) h"

fun main_loop_a1 :: "nat \<Rightarrow> host \<Rightarrow> bool \<Rightarrow> string list \<Rightarrow> shell_a1 \<Rightarrow> (outcome \<times> shell_a1) option" where
  "main_loop_a1 n h tty [] s = Some (Returned 0, s)"
| "main_loop_a1 n h tty (l # ls) s = do {
     (r, s) \<leftarrow> exec_a1 n h l (if tty then emit (Raw ''$ '') s else s);
     case r of
       Exited c \<Rightarrow> Some (Exited c, s)
     | Returned c \<Rightarrow> if c = - 1 then Some (Exited 99, s) else main_loop_a1 n h tty ls s }"

definition main_a1 :: "nat \<Rightarrow> host \<Rightarrow> bool \<Rightarrow> string list \<Rightarrow> shell_a1 \<Rightarrow> (outcome \<times> shell_a1) option" where
  "main_a1 n h tty ls s =
    main_loop_a1 n h tty ls (mem_init_a1 (snd (help_a1 (emit (Out ''Shell v1.0'') s))))"

section \<open>Lemmas\<close>

text \<open>The variables of the shell are a variable store.\<close>

definition lookup_a1 :: "shell_a1 \<Rightarrow> string \<Rightarrow> string option" where
  "lookup_a1 s v = get_slot (shellmemory s) v"

interpretation a1: var_store lookup_a1 "\<lambda>s v x. mem_set_value_a1 v x s" "\<lambda>s. has_room (shellmemory s)"
  by unfold_locales
    (auto simp: lookup_a1_def mem_set_value_a1_def get_set_slot_same get_set_slot_other set_slot_full)

lemma mem_get_value_lookup:
  "mem_get_value_a1 v s = (case lookup_a1 s v of Some x \<Rightarrow> x | None \<Rightarrow> ''Variable does not exist'')"
  by (simp add: mem_get_value_a1_def lookup_a1_def)

definition word_ok :: "string \<Rightarrow> bool" where
  "word_ok w \<longleftrightarrow> w \<noteq> [] \<and> (\<forall>c \<in> set w. word_char c)"

lemma words_sep:
  assumes "\<forall>c \<in> set w. word_char c" and "c = space \<or> c = semicolon"
  shows "words_a1 (w @ c # cs) = w # words_a1 cs"
proof -
  have c: "\<not> word_char c" "c \<noteq> newline" using assms(2) by (auto simp: word_char_def)
  have "hd (w @ c # cs) \<noteq> newline" using assms c by (cases w) (auto simp: word_char_def)
  then show ?thesis
    using assms(1) c by (subst words_a1.simps) (simp add: Let_def takeWhile_append dropWhile_append)
qed

lemma words_end: "word_ok w \<Longrightarrow> words_a1 (w @ [newline]) = [w]"
proof -
  assume w: "word_ok w"
  then have "hd (w @ [newline]) \<noteq> newline" by (cases w) (auto simp: word_ok_def word_char_def)
  moreover have "words_a1 [] = []" by (subst words_a1.simps) simp
  ultimately show ?thesis
    using w by (subst words_a1.simps) (simp add: Let_def takeWhile_append dropWhile_append word_ok_def word_char_def)
qed

lemma words_join:
  assumes "ws \<noteq> []" and "\<forall>w \<in> set ws. word_ok w"
  shows "words_a1 (join_words ws @ [newline]) = ws"
  using assms
proof (induction ws rule: join_words.induct)
  case (2 w)
  then show ?case by (simp add: words_end)
next
  case (3 w v vs)
  then show ?case by (simp add: words_sep word_ok_def)
qed simp

lemma join_words_hd: "ws \<noteq> [] \<Longrightarrow> \<forall>w \<in> set ws. word_ok w \<Longrightarrow> dropWhile (\<lambda>c. c = space) (join_words ws @ cs) = join_words ws @ cs"
proof -
  assume ws: "ws \<noteq> []" "\<forall>w \<in> set ws. word_ok w"
  then obtain c w where "join_words ws = c # w" "word_char c"
    by (cases ws rule: join_words.cases; cases "hd ws") (auto simp: word_ok_def)
  then show ?thesis by (simp add: word_char_def)
qed

lemma strip_word: "word_ok w \<Longrightarrow> carriage_return \<notin> set w \<Longrightarrow> strip_eol w = w"
  unfolding strip_eol_def by (rule takeWhile_eq_all_conv [THEN iffD2]) (auto simp: word_ok_def word_char_def)

text \<open>A line of plain words, as the interpreter sees it.\<close>

definition line_ok :: "string list \<Rightarrow> bool" where
  "line_ok ws \<longleftrightarrow> ws \<noteq> [] \<and> length ws \<le> 100 \<and> length (join_words ws) < 999 \<and>
     (\<forall>w \<in> set ws. word_ok w \<and> carriage_return \<notin> set w \<and> length w < 200)"

lemma parse_line:
  assumes "line_ok ws"
  shows "parseInput_a1 run h (join_words ws @ [newline]) s = interpreter_a1 run h ws s"
  using assms by (auto simp: parseInput_a1_def line_ok_def words_join join_words_hd)

lemma strip_words: "line_ok ws \<Longrightarrow> map strip_eol ws = ws"
  by (intro map_idI strip_word) (auto simp: line_ok_def)

lemma words_semicolon: "words_a1 (u @ semicolon # v) = words_a1 (u @ space # v)"
proof (induction u rule: words_a1.induct)
  case (1 u)
  show ?case
  proof (cases "u \<noteq> [] \<and> hd u = newline")
    case True
    then show ?thesis by (subst (1 2) words_a1.simps) simp
  next
    case False
    then have h: "hd (u @ semicolon # v) \<noteq> newline" "hd (u @ space # v) \<noteq> newline" by (cases u; simp)+
    show ?thesis
    proof (cases "dropWhile word_char u = []")
      case True
      then have "\<forall>c \<in> set u. word_char c" by (simp add: dropWhile_eq_Nil_conv)
      then show ?thesis using words_sep [of u semicolon v] words_sep [of u space v] by simp
    next
      case rest: False
      then have t: "takeWhile word_char (u @ cs) = takeWhile word_char u"
          "dropWhile word_char (u @ cs) = dropWhile word_char u @ cs" for cs
        by (auto simp: dropWhile_eq_Nil_conv)
      from False rest have "\<not> (u = [] \<or> hd u = newline)" by auto
      from 1 [OF this refl refl rest] show ?thesis
        using h rest by (subst (1 2) words_a1.simps) (simp add: Let_def t)
    qed
  qed
qed

lemma script_lines_end: "script_lines [] = [[]]"
  by (subst script_lines.simps) (simp add: numeral_eq_Suc)

lemma script_lines_newline:
  assumes "\<forall>l \<in> set ls. newline \<notin> set l \<and> length l < 998"
  shows "script_lines (concat (map (\<lambda>l. l @ [newline]) ls)) = map (\<lambda>l. l @ [newline]) ls @ [[]]"
  using assms
proof (induction ls)
  case Nil
  then show ?case by (simp add: script_lines_end)
next
  case (Cons l ls)
  then have "fgets 998 (l @ newline # concat (map (\<lambda>l. l @ [newline]) ls)) =
      (l @ [newline], concat (map (\<lambda>l. l @ [newline]) ls), False)"
    by (intro fgets_line) simp_all
  with Cons show ?case by (subst script_lines.simps) simp
qed

lemma run_lines_append:
  "run_lines_a1 p ls r s = Some (Returned c, t) \<Longrightarrow>
   run_lines_a1 p (ls @ ms) r s = run_lines_a1 p ms (Returned c) t"
  by (induction ls arbitrary: r s) (auto elim!: bind_SomeE split: outcome.splits)

lemma parse_empty: "parseInput_a1 run h [] s = Some (badcommand_a1 s)"
proof -
  have "words_a1 [] = []" by (subst words_a1.simps) simp
  then show ?thesis by (simp add: parseInput_a1_def interpreter_a1_def)
qed

section \<open>Properties\<close>

definition demo_host :: host where
  "demo_host = \<lparr>open_read = (\<lambda>t f. if f = ''loop'' then Some (''run loop'' @ [newline])
       else if f = ''p'' then Some (''set a 1'' @ [newline] @ ''print a'' @ [newline]) else None),
     create_ok = (\<lambda>t f. True), system_code = (\<lambda>t c. 0), chdir_ok = (\<lambda>t d. False),
     path_exists = (\<lambda>t f. False), is_directory = (\<lambda>t d. False)\<rparr>"

definition demo_a1 :: shell_a1 where
  "demo_a1 = mem_init_a1 \<lparr>shellmemory = [], trace = []\<rparr>"

lemma demo_a1_room: "has_room (shellmemory demo_a1)"
  by (simp add: demo_a1_def mem_init_a1_def has_room_def)

text \<open>
  \<open>parseInput\<close> recovers the words of a line. Words that contain no space, semicolon
  or newline, joined with single spaces, are split into exactly these words.
\<close>

theorem words_roundtrip:
  assumes "ws \<noteq> []" and "\<forall>w \<in> set ws. word_ok w"
  shows "words_a1 (join_words ws @ [newline]) = ws \<and>
    words_a1 (dropWhile (\<lambda>c. c = space) (replicate n space @ join_words ws @ [newline])) = ws"
  using words_join [OF assms] join_words_hd [OF assms, of "[newline]"]
  by (simp add: dropWhile_append)

theorem words_roundtrip_witness:
  "words_a1 (join_words [''set'', ''x'', ''10''] @ [newline]) = [''set'', ''x'', ''10'']"
  using words_roundtrip [of "[''set'', ''x'', ''10'']" 0] by (simp add: word_ok_def word_char_def)

text \<open>
  A semicolon does not separate commands in this shell. Once a line has begun with
  something else than spaces, a semicolon anywhere in it means what a space means, so
  \<open>set x 1;print x\<close> is one command with five words.
\<close>

theorem semicolon_is_space:
  assumes "c \<in> set u" and "c \<noteq> space"
  shows "exec_a1 n h (u @ [semicolon] @ v) s = exec_a1 n h (u @ [space] @ v) s"
proof -
  have "dropWhile (\<lambda>c. c = space) (u @ cs) = dropWhile (\<lambda>c. c = space) u @ cs" for cs
    using assms by (auto simp: dropWhile_append1)
  then show ?thesis
    by (simp add: exec_a1_def parseInput_a1_def words_semicolon)
qed

theorem semicolon_is_space_witness:
  "exec_a1 0 demo_host (''set x 1'' @ [semicolon] @ ''print x'') demo_a1 =
   exec_a1 0 demo_host (''set x 1'' @ [space] @ ''print x'') demo_a1"
  by (rule semicolon_is_space [of "CHR ''s''"]) simp_all

text \<open>
  C32: What is set can be printed, when it is one word. The command line \<open>set x v\<close> returns 0, and
  \<open>print x\<close> after it prints \<open>v\<close>, if \<open>x\<close> was known or the memory has a free slot, and leaves the
  other variables alone. With two to five words for the value, \<open>strcat\<close> writes behind the block of
  the first of them.
\<close>

theorem set_then_print:
  assumes "line_ok (''set'' # x # v # ws)" and "length ws \<le> 4" and "x \<noteq> ''none''"
    and "lookup_a1 s x \<noteq> None \<or> has_room (shellmemory s)"
  shows "if ws = [] then
      \<exists>t. exec_a1 n h (join_words [''set'', x, v] @ [newline]) s = Some (Returned 0, t) \<and>
        exec_a1 n h (join_words [''print'', x] @ [newline]) t = Some (Returned 0, t\<lparr>trace := trace t @ [Out v]\<rparr>) \<and>
        (\<forall>y. y \<noteq> ''none'' \<and> y \<noteq> x \<longrightarrow> mem_get_value_a1 y t = mem_get_value_a1 y s)
    else exec_a1 n h (join_words (''set'' # x # v # ws) @ [newline]) s = None"
proof -
  have e: "exec_a1 n h (join_words (''set'' # x # v # ws) @ [newline]) s = interpreter_a1 (run_a1 n h) h (''set'' # x # v # ws) s"
    unfolding exec_a1_def by (rule parse_line [OF assms(1)])
  note st = strip_words [OF assms(1)]
  show ?thesis
  proof (cases ws)
    case Nil
    let ?t = "mem_set_value_a1 x v s"
    have "length x + length v < 999" using assms(1) by (simp add: line_ok_def Nil)
    then have 1: "exec_a1 n h (join_words [''set'', x, v] @ [newline]) s = Some (Returned 0, ?t)"
      using e st by (simp add: Nil interpreter_a1_def set_a1_def)
    have p: "line_ok [''print'', x]"
      using assms(1) by (auto simp: line_ok_def word_ok_def word_char_def)
    have get: "mem_get_value_a1 x ?t = v"
      using a1.get_put [where k = x and k' = x and s = s and v = v] assms(3,4) by (auto simp: mem_get_value_lookup)
    have "exec_a1 n h (join_words [''print'', x] @ [newline]) ?t = interpreter_a1 (run_a1 n h) h [''print'', x] ?t"
      unfolding exec_a1_def by (rule parse_line [OF p])
    also have "\<dots> = Some (Returned 0, ?t\<lparr>trace := trace ?t @ [Out v]\<rparr>)"
      using strip_words [OF p] get by (simp add: interpreter_a1_def print_a1_def emit_def)
    finally have 2: "exec_a1 n h (join_words [''print'', x] @ [newline]) ?t = Some (Returned 0, ?t\<lparr>trace := trace ?t @ [Out v]\<rparr>)" .
    have "mem_get_value_a1 y ?t = mem_get_value_a1 y s" if "y \<noteq> ''none''" "y \<noteq> x" for y
      using a1.get_put_other [OF assms(3) that] by (simp add: mem_get_value_lookup)
    with 1 2 show ?thesis by (auto simp: Nil)
  next
    case (Cons w us)
    then have "length v < length (join_words (v # ws))" by simp
    then show ?thesis using e st assms(2) by (simp add: Cons interpreter_a1_def)
  qed
qed

theorem set_then_print_witness:
  "\<exists>t. exec_a1 0 demo_host (''set x hello'' @ [newline]) demo_a1 = Some (Returned 0, t) \<and>
     exec_a1 0 demo_host (''print x'' @ [newline]) t = Some (Returned 0, t\<lparr>trace := trace t @ [Out ''hello'']\<rparr>)"
  using set_then_print [of "''x''" "''hello''" "[]" demo_a1 0 demo_host] demo_a1_room
  by (auto simp: line_ok_def word_ok_def word_char_def)

text \<open>
  A script whose last line ends with a newline executes one more, empty, command than it
  has lines: whatever its own lines do, \<open>run\<close> prints \<open>Unknown Command\<close> at the end and
  returns 1.
\<close>

theorem run_extra_command:
  assumes "open_read h (trace s) f = Some (concat (map (\<lambda>l. l @ [newline]) ls))" and "ls \<noteq> []"
    and "\<forall>l \<in> set ls. newline \<notin> set l \<and> length l < 998"
    and "run_lines_a1 (parseInput_a1 (run_a1 n h) h) (map (\<lambda>l. l @ [newline]) ls) (Returned 0) s = Some (Returned c, t)"
  shows "run_a1 (Suc n) h f s = Some (Returned 1, t\<lparr>trace := trace t @ [Out ''Unknown Command'']\<rparr>)"
proof -
  have "concat (map (\<lambda>l. l @ [newline]) ls) \<noteq> []" using assms(2) by (cases ls) simp_all
  then show ?thesis
    using assms(1,4) script_lines_newline [OF assms(3)]
    by (simp add: run_lines_append parse_empty badcommand_a1_def emit_def)
qed

definition small_a1 :: shell_a1 where
  "small_a1 = \<lparr>shellmemory = [free_slot, free_slot], trace = []\<rparr>"

theorem run_extra_command_witness:
  "run_a1 1 demo_host ''p'' small_a1 = Some (Returned 1,
     \<lparr>shellmemory = [\<lparr>var = ''a'', val = ''1''\<rparr>, free_slot], trace = [Out ''1'', Out ''Unknown Command'']\<rparr>)"
proof -
  have "run_lines_a1 (parseInput_a1 (run_a1 0 demo_host) demo_host)
      (map (\<lambda>l. l @ [newline]) [''set a 1'', ''print a'']) (Returned 0) small_a1 =
    Some (Returned 0, \<lparr>shellmemory = [\<lparr>var = ''a'', val = ''1''\<rparr>, free_slot], trace = [Out ''1'']\<rparr>)"
    by code_simp
  from run_extra_command [OF _ _ _ this, of "''p''"] show ?thesis
    by (simp add: demo_host_def)
qed

text \<open>
  A script that runs itself never comes to an end, whatever bound is put on the number
  of nested scripts.
\<close>

theorem run_self_diverges:
  assumes "line_ok [''run'', f]" and "\<And>t. open_read h t f = Some (join_words [''run'', f] @ [newline])"
  shows "run_a1 n h f s = None"
proof (induction n arbitrary: s)
  case 0
  then show ?case by simp
next
  case (Suc n)
  have "script_lines (join_words [''run'', f] @ [newline]) = [join_words [''run'', f] @ [newline], []]"
    using script_lines_newline [of "[join_words [''run'', f]]"] assms(1)
    by (auto simp: line_ok_def word_ok_def word_char_def)
  moreover have "parseInput_a1 (run_a1 n h) h (join_words [''run'', f] @ [newline]) s = None"
    using parse_line [OF assms(1)] strip_words [OF assms(1)] Suc.IH by (simp add: interpreter_a1_def)
  ultimately show ?case using assms(2) by simp
qed

theorem run_self_diverges_witness: "run_a1 1000 demo_host ''loop'' demo_a1 = None"
  by (rule run_self_diverges) (simp_all add: line_ok_def word_ok_def word_char_def demo_host_def)

end
