(* ===== verification/A2_Memory.thy ===== *)
theory A2_Memory
  imports Shell_Store
begin

text \<open>
  The second shell, memory: \<open>a2/shellmemory.c\<close> and \<open>a2/pcb.c\<close>. The shell memory is one
  array of slots, a variable store of \<open>VAR_MEM_SIZE\<close> slots followed by a frame store of
  \<open>FRAME_SIZE\<close> slots; both sizes are set when the program is compiled and are constant
  fields of the state. Programs are loaded into the frame store by pages of three lines, and the
  least recently used page is replaced when there is no free one.

  Process control blocks live in a map from addresses. Memory from \<open>malloc\<close> that the code
  does not initialise holds the value of the field \<open>junk\<close>. A \<open>FILE\<close> opened on the copy in the
  backing store is the content of that copy, for the copy does not change while it is open.
  The sequence of assignments to \<open>age\<close> is kept as it is in the code.
\<close>

record pcb =
  priority :: bool
  pid :: nat
  PC :: nat
  page_count :: nat
  offset_end :: nat
  page_table :: "int list"
  line_offset :: nat
  valid_page :: "bool list"
  job_length_score :: int
  filename :: string
  fp :: string

record a2_state =
  var_mem_size :: nat
  frame_size :: nat
  shellmem :: "memory_struct list"
  age :: "int list"
  currentAge :: int
  pcbs :: "nat \<Rightarrow> pcb option"
  next_pcb :: nat
  ready :: "nat list"
  dangling :: bool
  pid_counter :: nat
  active :: bool
  in_background :: bool
  junk :: int
  trace_a2 :: "event list"

definition emit_a2 :: "event \<Rightarrow> a2_state \<Rightarrow> a2_state" where
  "emit_a2 e s = s\<lparr>trace_a2 := trace_a2 s @ [e]\<rparr>"

definition mem_length :: "a2_state \<Rightarrow> nat" where
  "mem_length s = var_mem_size s + frame_size s"

section \<open>Ages\<close>

definition increaseAge :: "a2_state \<Rightarrow> a2_state" where
  "increaseAge s = s\<lparr>currentAge := currentAge s + 1\<rparr>"

text \<open>The loop \<open>for (i = 0; i < FRAME_SIZE; i += 3)\<close>; \<open>n\<close> counts the pages left.\<close>

fun getOldest_from :: "nat \<Rightarrow> int list \<Rightarrow> nat \<Rightarrow> int \<Rightarrow> nat \<Rightarrow> nat" where
  "getOldest_from 0 ages i oldest frame = frame"
| "getOldest_from (Suc n) ages i oldest frame =
    (if ages ! i < oldest then getOldest_from n ages (i + 3) (ages ! i) i
     else getOldest_from n ages (i + 3) oldest frame)"

definition getOldest :: "a2_state \<Rightarrow> nat" where
  "getOldest s = getOldest_from (DIV_ROUND_UP (frame_size s) 3) (age s) 0 (age s ! 0) 0"

definition setAge :: "a2_state \<Rightarrow> a2_state" where
  "setAge s = s\<lparr>age := replicate (frame_size s) 0\<rparr>"

section \<open>The variable store\<close>

definition mem_init_a2 :: "a2_state \<Rightarrow> a2_state" where
  "mem_init_a2 s = setAge (s\<lparr>shellmem := replicate (mem_length s) free_slot\<rparr>)"

definition mem_reset_a2 :: "a2_state \<Rightarrow> a2_state" where
  "mem_reset_a2 s = s\<lparr>shellmem := replicate (var_mem_size s) free_slot @ drop (var_mem_size s) (shellmem s)\<rparr>"

definition mem_set_value_a2 :: "string \<Rightarrow> string \<Rightarrow> a2_state \<Rightarrow> a2_state" where
  "mem_set_value_a2 v x s =
    s\<lparr>shellmem := set_slot (take (var_mem_size s) (shellmem s)) v x @ drop (var_mem_size s) (shellmem s)\<rparr>"

definition mem_get_value_a2 :: "string \<Rightarrow> a2_state \<Rightarrow> string option" where
  "mem_get_value_a2 v s = get_slot (take (var_mem_size s) (shellmem s)) v"

section \<open>The frame store\<close>

text \<open>\<open>fgets (line, 100, fp)\<close> called \<open>n\<close> times, as far as what is left of the file and the
  end-of-file mark are concerned.\<close>

fun skip_lines :: "nat \<Rightarrow> string \<times> bool \<Rightarrow> string \<times> bool" where
  "skip_lines 0 f = f"
| "skip_lines (Suc n) (cs, eof) =
    (let (l, rest, eof') = fgets 99 cs in skip_lines n (rest, eof \<or> eof'))"

fun copy_lines :: "nat \<Rightarrow> nat \<Rightarrow> string \<Rightarrow> string \<times> bool \<Rightarrow> a2_state \<Rightarrow> ((string \<times> bool) \<times> a2_state) option" where
  "copy_lines 0 j name f s = Some (f, s)"
| "copy_lines (Suc n) j name (cs, eof) s = do {
     guard_opt (var_mem_size s \<le> j \<and> j < mem_length s);
     let s = s\<lparr>age := (age s)[j - var_mem_size s := currentAge s]\<rparr>;
     if \<not> eof then
       let (l, rest, eof) = fgets 99 cs in
       if l = [] then copy_lines n (Suc j) name (rest, eof) s
       else copy_lines n (Suc j) name (rest, eof) (s\<lparr>shellmem := (shellmem s)[j := \<lparr>var = name, val = l\<rparr>]\<rparr>)
     else copy_lines n (Suc j) name (cs, eof) s }"

definition copy_to_mem :: "nat \<Rightarrow> string \<Rightarrow> string \<Rightarrow> nat \<Rightarrow> a2_state \<Rightarrow> (bool \<times> a2_state) option" where
  "copy_to_mem index content name i s = do {
     (f, s) \<leftarrow> copy_lines 3 i name (skip_lines index (content, False)) s;
     Some (\<not> snd f, s) }"

text \<open>Freeing a slot whose strings are the literal \<open>none\<close> is not allowed.\<close>

fun mem_free_lines :: "nat \<Rightarrow> nat \<Rightarrow> a2_state \<Rightarrow> a2_state option" where
  "mem_free_lines 0 i s = Some s"
| "mem_free_lines (Suc n) i s =
    (if i < mem_length s then do {
       guard_opt (var (shellmem s ! i) \<noteq> ''none'');
       mem_free_lines n (Suc i) (s\<lparr>shellmem := (shellmem s)[i := free_slot]\<rparr>) }
     else Some s)"

definition mem_free_lines_between :: "nat \<Rightarrow> nat \<Rightarrow> a2_state \<Rightarrow> a2_state option" where
  "mem_free_lines_between start last_line s = mem_free_lines (Suc last_line - start) start s"

definition find_process :: "string \<Rightarrow> a2_state \<Rightarrow> nat option" where
  "find_process file s =
    List.find (\<lambda>a. case pcbs s a of None \<Rightarrow> False | Some p \<Rightarrow> filename p = file) (ready s)"

text \<open>The search for a free page, at every third slot of the frame store.\<close>

fun find_space :: "nat \<Rightarrow> nat \<Rightarrow> memory_struct list \<Rightarrow> nat option" where
  "find_space 0 i ms = None"
| "find_space (Suc n) i ms = (if var (ms ! i) = ''none'' then Some i else find_space n (i + 3) ms)"

fun print_victim :: "nat \<Rightarrow> nat \<Rightarrow> int \<Rightarrow> a2_state \<Rightarrow> (int \<times> a2_state) option" where
  "print_victim 0 i ub s = Some (ub, s)"
| "print_victim (Suc n) i ub s = do {
     guard_opt (i < mem_length s);
     if var (shellmem s ! i) = ''none'' then print_victim n (Suc i) (ub - 1) s
     else print_victim n (Suc i) ub (emit_a2 (Raw (val (shellmem s ! i))) s) }"

text \<open>The loop that clears the valid bit of the first page of a process that is at a frame.\<close>

definition clear_valid :: "pcb \<Rightarrow> int \<Rightarrow> pcb" where
  "clear_valid p lru =
    (case List.find (\<lambda>i. page_table p ! i = lru) [0..<page_count p] of
       None \<Rightarrow> p
     | Some i \<Rightarrow> p\<lparr>valid_page := (valid_page p)[i := False]\<rparr>)"

definition update_pcb :: "nat \<Rightarrow> (pcb \<Rightarrow> pcb) \<Rightarrow> a2_state \<Rightarrow> a2_state" where
  "update_pcb a f s = s\<lparr>pcbs := (pcbs s)(a := map_option f (pcbs s a))\<rparr>"

definition replace_page :: "nat \<Rightarrow> nat \<Rightarrow> a2_state \<Rightarrow> a2_state option" where
  "replace_page a page s = do {
     p \<leftarrow> pcbs s a;
     guard_opt (page < length (page_table p));
     s \<leftarrow> (case find_space (DIV_ROUND_UP (frame_size s) 3) (var_mem_size s) (shellmem s) of
       Some i \<Rightarrow> do {
         let s = update_pcb a (\<lambda>p. p\<lparr>page_table := (page_table p)[page := int i]\<rparr>) s;
         (more, s) \<leftarrow> copy_to_mem (PC p * 3) (fp p) (filename p) i s;
         Some s }
     | None \<Rightarrow> do {
         let lru = getOldest s + var_mem_size s;
         let s = emit_a2 (Out ''Page fault! Victim page contents: '') s;
         (ub, s) \<leftarrow> print_victim 3 lru 2 s;
         let s = emit_a2 (Out ''End of victim page contents.'') s;
         s \<leftarrow> mem_free_lines_between lru (nat (int lru + ub)) s;
         let owner = var (shellmem s ! lru);
         guard_opt (\<not> dangling s);
         let prev = (if owner = filename p then Some a else find_process owner s);
         let s = (case prev of None \<Rightarrow> s | Some b \<Rightarrow> update_pcb b (\<lambda>q. clear_valid q (int lru)) s);
         let s = update_pcb a (\<lambda>p. p\<lparr>page_table := (page_table p)[page := int lru]\<rparr>) s;
         (more, s) \<leftarrow> copy_to_mem (PC p * 3) (fp p) (filename p) lru s;
         Some s });
     Some (update_pcb a (\<lambda>p. p\<lparr>valid_page := (valid_page p)[page := True]\<rparr>) s) }"

definition load_file :: "nat \<Rightarrow> a2_state \<Rightarrow> (int \<times> a2_state) option" where
  "load_file a s = do {
     s \<leftarrow> replace_page a 0 s;
     p \<leftarrow> pcbs s a;
     if page_count p > 1 then do {
       s \<leftarrow> replace_page a 1 (update_pcb a (\<lambda>p. p\<lparr>PC := 1\<rparr>) s);
       Some (0, update_pcb a (\<lambda>p. p\<lparr>PC := 0\<rparr>) s) }
     else Some (0, s) }"

text \<open>
  \<open>mem_get_value_at_line\<close> makes the page of the line the youngest; its test is always true,
  and an index inside the variable store is an access outside \<open>age\<close>.
\<close>

definition touch_age :: "nat \<Rightarrow> a2_state \<Rightarrow> a2_state" where
  "touch_age i s = (let s = increaseAge s in s\<lparr>age := (age s)[i := currentAge s]\<rparr>)"

definition mem_get_value_at_line :: "int \<Rightarrow> a2_state \<Rightarrow> (string option \<times> a2_state) option" where
  "mem_get_value_at_line index s =
    (if index < 0 \<or> int (mem_length s) < index then Some (None, s) else do {
       guard_opt (int (var_mem_size s) \<le> index \<and> index < int (mem_length s));
       let i = nat index - var_mem_size s;
       let i = i - i mod 3;
       guard_opt (i + 2 < frame_size s);
       let s = touch_age (i + 2) (touch_age (i + 1) (touch_age i s));
       Some (Some (val (shellmem s ! nat index)), s) })"

section \<open>Process control blocks\<close>

definition generatePID :: "a2_state \<Rightarrow> nat \<times> a2_state" where
  "generatePID s = (pid_counter s, s\<lparr>pid_counter := pid_counter s + 1\<rparr>)"

definition getPID :: "a2_state \<Rightarrow> nat" where
  "getPID s = pid_counter s"

definition makePCB :: "nat \<Rightarrow> nat \<Rightarrow> int list \<Rightarrow> bool list \<Rightarrow> string \<Rightarrow> string \<Rightarrow> a2_state \<Rightarrow> nat \<times> a2_state" where
  "makePCB pages oend table valid name content s =
    (let (n, s) = generatePID s; a = next_pcb s in
     (a, s\<lparr>next_pcb := Suc a, pcbs := (pcbs s)(a \<mapsto>
       \<lparr>priority = False, pid = n, PC = 0, page_count = pages, offset_end = oend, page_table = table,
        line_offset = 0, valid_page = valid, job_length_score = junk s, filename = name, fp = content\<rparr>)\<rparr>))"

section \<open>Lemmas\<close>

lemma getOldest_from_ok:
  assumes "i = 3 * k" and "oldest = ages ! frame" and "\<exists>m < k. frame = 3 * m" and "0 < k"
    and "\<forall>m < k. oldest \<le> ages ! (3 * m)" and "\<forall>m < k. 3 * m < frame \<longrightarrow> oldest < ages ! (3 * m)"
  shows "(\<exists>m < k + n. getOldest_from n ages i oldest frame = 3 * m) \<and>
    (\<forall>m < k + n. ages ! getOldest_from n ages i oldest frame \<le> ages ! (3 * m)) \<and>
    (\<forall>m < k + n. 3 * m < getOldest_from n ages i oldest frame \<longrightarrow>
       ages ! getOldest_from n ages i oldest frame < ages ! (3 * m))"
  using assms
proof (induction n arbitrary: i k oldest frame)
  case 0
  then show ?case by auto
next
  case (Suc n)
  show ?case
  proof (cases "ages ! i < oldest")
    case True
    have "(\<exists>m < Suc k + n. getOldest_from n ages (i + 3) (ages ! i) i = 3 * m) \<and>
        (\<forall>m < Suc k + n. ages ! getOldest_from n ages (i + 3) (ages ! i) i \<le> ages ! (3 * m)) \<and>
        (\<forall>m < Suc k + n. 3 * m < getOldest_from n ages (i + 3) (ages ! i) i \<longrightarrow>
          ages ! getOldest_from n ages (i + 3) (ages ! i) i < ages ! (3 * m))"
      using Suc.prems True by (intro Suc.IH) (force simp: less_Suc_eq)+
    then show ?thesis using True by simp
  next
    case False
    have "(\<exists>m < Suc k + n. getOldest_from n ages (i + 3) oldest frame = 3 * m) \<and>
        (\<forall>m < Suc k + n. ages ! getOldest_from n ages (i + 3) oldest frame \<le> ages ! (3 * m)) \<and>
        (\<forall>m < Suc k + n. 3 * m < getOldest_from n ages (i + 3) oldest frame \<longrightarrow>
          ages ! getOldest_from n ages (i + 3) oldest frame < ages ! (3 * m))"
      using Suc.prems False by (intro Suc.IH) (force simp: less_Suc_eq)+
    then show ?thesis using False by simp
  qed
qed

text \<open>The variable store of the second shell is a variable store.\<close>

definition vars_a2 :: "a2_state \<Rightarrow> memory_struct list" where
  "vars_a2 s = take (var_mem_size s) (shellmem s)"

lemma vars_set: "vars_a2 (mem_set_value_a2 v x s) = set_slot (vars_a2 s) v x"
proof (cases "var_mem_size s \<le> length (shellmem s)")
  case True
  then show ?thesis by (simp add: vars_a2_def mem_set_value_a2_def)
next
  case False
  then show ?thesis by (simp add: vars_a2_def mem_set_value_a2_def)
qed

lemma get_vars: "mem_get_value_a2 v s = get_slot (vars_a2 s) v"
  by (simp add: mem_get_value_a2_def vars_a2_def)

lemma mem_set_full: "set_slot (vars_a2 s) v x = vars_a2 s \<Longrightarrow> mem_set_value_a2 v x s = s"
  by (simp add: mem_set_value_a2_def vars_a2_def)

interpretation a2: var_store "\<lambda>s v. mem_get_value_a2 v s" "\<lambda>s v x. mem_set_value_a2 v x s"
    "\<lambda>s. has_room (vars_a2 s)"
  by unfold_locales
    (auto simp: get_vars vars_set get_set_slot_same get_set_slot_other set_slot_full intro!: mem_set_full)

text \<open>The operations on frames keep the sizes and the variables.\<close>

definition frames_only :: "a2_state \<Rightarrow> a2_state \<Rightarrow> bool" where
  "frames_only s t \<longleftrightarrow> var_mem_size t = var_mem_size s \<and> frame_size t = frame_size s \<and>
     length (shellmem t) = length (shellmem s) \<and> vars_a2 t = vars_a2 s"

lemma frames_only_refl [simp]: "frames_only s s"
  by (simp add: frames_only_def)

lemma frames_only_trans: "frames_only s t \<Longrightarrow> frames_only t u \<Longrightarrow> frames_only s u"
  by (simp add: frames_only_def)

lemma frames_only_update [simp]:
  "var_mem_size s \<le> j \<Longrightarrow> frames_only s (s\<lparr>shellmem := (shellmem s)[j := m]\<rparr>)"
  "frames_only s (s\<lparr>age := as\<rparr>)" "frames_only s (emit_a2 e s)" "frames_only s (update_pcb a f s)"
  by (simp_all add: frames_only_def vars_a2_def emit_a2_def update_pcb_def)

lemma copy_lines_frames:
  "copy_lines n j name f s = Some (g, t) \<Longrightarrow> frames_only s t \<and> pcbs t = pcbs s \<and> ready t = ready s"
proof (induction n arbitrary: j f s)
  case 0
  then show ?case by simp
next
  case (Suc n)
  obtain cs eof where f: "f = (cs, eof)" by (cases f)
  let ?s = "s\<lparr>age := (age s)[j - var_mem_size s := currentAge s]\<rparr>"
  let ?u = "\<lambda>l. ?s\<lparr>shellmem := (shellmem ?s)[j := \<lparr>var = name, val = l\<rparr>]\<rparr>"
  obtain l rest eof' where l: "fgets 99 cs = (l, rest, eof')" by (cases "fgets 99 cs") auto
  have j: "var_mem_size s \<le> j" using Suc.prems f by (simp split: if_splits)
  have "\<exists>f' s'. copy_lines n (Suc j) name f' s' = Some (g, t) \<and> (s' = ?s \<or> s' = ?u l)"
    using Suc.prems f l by (auto simp: Let_def split: if_splits)
  then obtain f' s' where c: "copy_lines n (Suc j) name f' s' = Some (g, t)" and s': "s' = ?s \<or> s' = ?u l"
    by blast
  from s' have "frames_only s s'" "pcbs s' = pcbs s" "ready s' = ready s"
    using j by (auto simp: frames_only_def vars_a2_def)
  with Suc.IH [OF c] show ?case using frames_only_trans by metis
qed

lemma print_victim_frames:
  "print_victim n i ub s = Some (v, t) \<Longrightarrow> frames_only s t \<and> pcbs t = pcbs s \<and> shellmem t = shellmem s \<and>
     ready t = ready s"
proof (induction n arbitrary: i ub s)
  case (Suc n)
  let ?s = "emit_a2 (Raw (val (shellmem s ! i))) s"
  have s: "frames_only s ?s" "pcbs ?s = pcbs s" "shellmem ?s = shellmem s" "ready ?s = ready s"
    by (simp_all add: emit_a2_def frames_only_def vars_a2_def)
  consider ub' where "print_victim n (Suc i) ub' s = Some (v, t)"
    | ub' where "print_victim n (Suc i) ub' ?s = Some (v, t)"
    using Suc.prems by (auto split: if_splits)
  then show ?case
  proof cases
    case 1
    then show ?thesis by (rule Suc.IH)
  next
    case 2
    from Suc.IH [OF this] s show ?thesis using frames_only_trans [OF s(1)] by auto
  qed
qed simp

lemma mem_free_frames:
  "mem_free_lines n i s = Some t \<Longrightarrow> var_mem_size s \<le> i \<Longrightarrow>
     frames_only s t \<and> pcbs t = pcbs s \<and> ready t = ready s"
proof (induction n arbitrary: i s)
  case (Suc n)
  let ?s = "s\<lparr>shellmem := (shellmem s)[i := free_slot]\<rparr>"
  have s: "frames_only s ?s" "var_mem_size ?s \<le> Suc i" using Suc.prems(2) by simp_all
  show ?case
  proof (cases "i < mem_length s")
    case True
    then have "mem_free_lines n (Suc i) ?s = Some t"
      using Suc.prems(1) by (simp split: if_split_asm)
    from Suc.IH [OF this s(2)] show ?thesis using frames_only_trans [OF s(1)] by simp
  next
    case False
    then show ?thesis using Suc.prems(1) by simp
  qed
qed simp

text \<open>A freed page does not name its owner any more.\<close>

lemma mem_free_first:
  "mem_free_lines n i s = Some t \<Longrightarrow> j < i \<Longrightarrow> shellmem t ! j = shellmem s ! j"
  "mem_free_lines (Suc n) i s = Some t \<Longrightarrow> i < mem_length s \<Longrightarrow> i < length (shellmem s) \<Longrightarrow>
     var (shellmem t ! i) = ''none''"
proof -
  show eq: "mem_free_lines n i s = Some t \<Longrightarrow> j < i \<Longrightarrow> shellmem t ! j = shellmem s ! j" for n i s t j
    by (induction n arbitrary: i s) (fastforce split: if_splits)+
  show "mem_free_lines (Suc n) i s = Some t \<Longrightarrow> i < mem_length s \<Longrightarrow> i < length (shellmem s) \<Longrightarrow>
     var (shellmem t ! i) = ''none''"
    by (auto dest!: eq [where j = i] split: if_splits)
qed

lemma copy_to_mem_frames:
  "copy_to_mem k cs name i s = Some (b, t) \<Longrightarrow> frames_only s t \<and> pcbs t = pcbs s \<and> ready t = ready s"
  by (auto simp: copy_to_mem_def elim!: bind_SomeE dest: copy_lines_frames)

lemma find_space_ge: "find_space n i ms = Some j \<Longrightarrow> i \<le> j"
  by (induction n arbitrary: i) (fastforce split: if_splits)+

text \<open>The lines of a file, as \<open>fgets\<close> with a buffer of 100 characters cuts them.\<close>

function page_lines :: "string \<Rightarrow> string list" where
  "page_lines cs =
    (let (l, rest, eof) = fgets 99 cs in
     if l = [] then [] else l # (if eof then [] else page_lines rest))"
  by pat_completeness auto
termination
proof (relation "measure length", goal_cases)
  case (2 cs x l y rest eof)
  then have "fgets (Suc 98) cs = (l, rest, False)" by simp
  from fgets_progress [OF this] show ?case by simp
qed simp

declare page_lines.simps [simp del]

definition lines_left :: "string \<times> bool \<Rightarrow> string list" where
  "lines_left f = (if snd f then [] else page_lines (fst f))"

lemma lines_left_step:
  assumes "fgets 99 cs = (l, rest, eof)"
  shows "lines_left (cs, False) = (if l = [] then [] else l # lines_left (rest, eof))"
  using assms by (subst lines_left_def, subst page_lines.simps) (simp add: lines_left_def)

lemma fgets_Nil: "fgets 99 cs = ([], rest, eof) \<Longrightarrow> eof \<and> rest = []"
proof -
  have "fgets (Suc n) cs = ([], rest, eof) \<Longrightarrow> eof \<and> rest = []" for n
    by (cases cs) (auto split: if_splits prod.splits)
  from this [of 98] show "fgets 99 cs = ([], rest, eof) \<Longrightarrow> eof \<and> rest = []" by simp
qed

lemma skip_lines_ok: "lines_left (skip_lines k f) = drop k (lines_left f)"
proof (induction k arbitrary: f)
  case (Suc k)
  obtain cs e where f: "f = (cs, e)" by (cases f)
  obtain l rest eof where l: "fgets 99 cs = (l, rest, eof)" by (cases "fgets 99 cs") auto
  show ?case
  proof (cases e)
    case True
    then show ?thesis using Suc f l by (simp add: lines_left_def)
  next
    case False
    then show ?thesis
      using Suc f l lines_left_step [OF l] fgets_Nil [of cs rest eof] by (auto simp: lines_left_def)
  qed
qed simp

lemma copy_lines_ok:
  assumes "copy_lines n j name f s = Some (g, t)" and "length (shellmem s) = mem_length s"
  shows "\<forall>i < mem_length s. shellmem t ! i =
    (if j \<le> i \<and> i < j + n \<and> i - j < length (lines_left f)
     then \<lparr>var = name, val = lines_left f ! (i - j)\<rparr> else shellmem s ! i)"
  using assms
proof (induction n arbitrary: j f s)
  case 0
  then show ?case by auto
next
  case (Suc n)
  obtain cs e where f: "f = (cs, e)" by (cases f)
  obtain l rest eof where l: "fgets 99 cs = (l, rest, eof)" by (cases "fgets 99 cs") auto
  let ?s = "s\<lparr>age := (age s)[j - var_mem_size s := currentAge s]\<rparr>"
  let ?u = "?s\<lparr>shellmem := (shellmem ?s)[j := \<lparr>var = name, val = l\<rparr>]\<rparr>"
  have j: "var_mem_size s \<le> j" "j < mem_length s" using Suc.prems(1) f by (simp_all split: if_splits)
  have sizes: "mem_length ?s = mem_length s" "mem_length ?u = mem_length s" by (simp_all add: mem_length_def)
  consider "e" | "\<not> e" "l = []" | "\<not> e" "l \<noteq> []" by blast
  then show ?case
  proof cases
    case 1
    then have c: "copy_lines n (Suc j) name (cs, e) ?s = Some (g, t)" using Suc.prems(1) f j by (simp add: Let_def)
    from Suc.IH [OF c] Suc.prems(2) sizes 1 f show ?thesis by (simp add: lines_left_def)
  next
    case 2
    then have c: "copy_lines n (Suc j) name (rest, eof) ?s = Some (g, t)" using Suc.prems(1) f j l by (simp add: Let_def)
    have "lines_left (rest, eof) = []" using fgets_Nil [of cs rest eof] l 2 by (simp add: lines_left_def)
    moreover have "lines_left f = []" using lines_left_step [OF l] 2 f by simp
    ultimately show ?thesis using Suc.IH [OF c] Suc.prems(2) sizes by simp
  next
    case 3
    then have c: "copy_lines n (Suc j) name (rest, eof) ?u = Some (g, t)" using Suc.prems(1) f j l by (simp add: Let_def)
    have L: "lines_left f = l # lines_left (rest, eof)" using lines_left_step [OF l] 3 f by simp
    show ?thesis
    proof (intro allI impI)
      fix i assume i: "i < mem_length s"
      consider "i < j" | "i = j" | "Suc j \<le> i" by linarith
      then show "shellmem t ! i = (if j \<le> i \<and> i < j + Suc n \<and> i - j < length (lines_left f)
          then \<lparr>var = name, val = lines_left f ! (i - j)\<rparr> else shellmem s ! i)"
      proof cases
        case 1
        then show ?thesis using Suc.IH [OF c] Suc.prems(2) sizes i by simp
      next
        case 2
        then show ?thesis using Suc.IH [OF c] Suc.prems(2) sizes i L by simp
      next
        case 3
        then have "i - j = Suc (i - Suc j)" by simp
        with 3 show ?thesis using Suc.IH [OF c] Suc.prems(2) sizes i L by simp
      qed
    qed
  qed
qed

lemma copy_to_mem_ok:
  assumes "copy_to_mem k cs name i s = Some (b, t)" and "length (shellmem s) = mem_length s"
  shows "\<forall>j < mem_length s. shellmem t ! j =
    (if i \<le> j \<and> j < i + 3 \<and> k + (j - i) < length (page_lines cs)
     then \<lparr>var = name, val = page_lines cs ! (k + (j - i))\<rparr> else shellmem s ! j)"
proof -
  let ?f = "skip_lines k (cs, False)"
  have L: "lines_left ?f = drop k (page_lines cs)"
    using skip_lines_ok [of k "(cs, False)"] by (simp add: lines_left_def)
  from assms(1) obtain g where c: "copy_lines 3 i name ?f s = Some (g, t)"
    by (auto simp: copy_to_mem_def elim!: bind_SomeE)
  show ?thesis using copy_lines_ok [OF c assms(2)] unfolding L
    by (auto simp: less_diff_conv add.commute)
qed

lemma update_pcb_sizes [simp]:
  "mem_length (update_pcb a f s) = mem_length s" "shellmem (update_pcb a f s) = shellmem s"
  "var_mem_size (update_pcb a f s) = var_mem_size s" "frame_size (update_pcb a f s) = frame_size s"
  "vars_a2 (update_pcb a f s) = vars_a2 s"
  by (simp_all add: update_pcb_def mem_length_def vars_a2_def)

lemma emit_sizes [simp]:
  "mem_length (emit_a2 e s) = mem_length s" "shellmem (emit_a2 e s) = shellmem s"
  "var_mem_size (emit_a2 e s) = var_mem_size s" "frame_size (emit_a2 e s) = frame_size s"
  "vars_a2 (emit_a2 e s) = vars_a2 s" "pcbs (emit_a2 e s) = pcbs s"
  by (simp_all add: emit_a2_def mem_length_def vars_a2_def)

lemma frames_only_eqs:
  "frames_only s t \<Longrightarrow> vars_a2 t = vars_a2 s" "frames_only s t \<Longrightarrow> var_mem_size t = var_mem_size s"
  "frames_only s t \<Longrightarrow> frame_size t = frame_size s" "frames_only s t \<Longrightarrow> mem_length t = mem_length s"
  "frames_only s t \<Longrightarrow> length (shellmem t) = length (shellmem s)"
  by (simp_all add: frames_only_def mem_length_def)

text \<open>The two ways a page gets a frame.\<close>

lemma replace_page_cases:
  assumes "replace_page a page s = Some t" and "pcbs s a = Some p"
  obtains (free) i b u where
      "find_space (DIV_ROUND_UP (frame_size s) 3) (var_mem_size s) (shellmem s) = Some i"
      "copy_to_mem (PC p * 3) (fp p) (filename p) i (update_pcb a (\<lambda>p. p\<lparr>page_table := (page_table p)[page := int i]\<rparr>) s) = Some (b, u)"
      "t = update_pcb a (\<lambda>p. p\<lparr>valid_page := (valid_page p)[page := True]\<rparr>) u"
    | (evict) ub v w b u where
      "find_space (DIV_ROUND_UP (frame_size s) 3) (var_mem_size s) (shellmem s) = None"
      "print_victim 3 (getOldest s + var_mem_size s) 2 (emit_a2 (Out ''Page fault! Victim page contents: '') s) = Some (ub, v)"
      "mem_free_lines_between (getOldest s + var_mem_size s) (nat (int (getOldest s + var_mem_size s) + ub))
         (emit_a2 (Out ''End of victim page contents.'') v) = Some w"
      "copy_to_mem (PC p * 3) (fp p) (filename p) (getOldest s + var_mem_size s)
         (update_pcb a (\<lambda>p. p\<lparr>page_table := (page_table p)[page := int (getOldest s + var_mem_size s)]\<rparr>)
           (case (if var (shellmem w ! (getOldest s + var_mem_size s)) = filename p then Some a
                  else find_process (var (shellmem w ! (getOldest s + var_mem_size s))) w)
            of None \<Rightarrow> w | Some b \<Rightarrow> update_pcb b (\<lambda>q. clear_valid q (int (getOldest s + var_mem_size s))) w)) = Some (b, u)"
      "t = update_pcb a (\<lambda>p. p\<lparr>valid_page := (valid_page p)[page := True]\<rparr>) u"
proof (cases "find_space (DIV_ROUND_UP (frame_size s) 3) (var_mem_size s) (shellmem s)")
  case (Some i)
  then show thesis using assms free by (auto simp: replace_page_def Let_def elim!: bind_SomeE split: if_splits)
next
  case None
  then show thesis using assms evict by (auto simp: replace_page_def Let_def elim!: bind_SomeE split: if_splits)
qed

lemma replace_page_frames:
  assumes "replace_page a page s = Some t"
  shows "frames_only s t"
proof -
  obtain p where p: "pcbs s a = Some p" using assms by (auto simp: replace_page_def elim!: bind_SomeE)
  show ?thesis using assms p
  proof (cases rule: replace_page_cases)
    case (free i b u)
    from copy_to_mem_frames [OF free(2)] have "frames_only s u" by (auto simp: frames_only_def)
    then show ?thesis using free(3) by (simp add: frames_only_def)
  next
    case (evict ub v w b u)
    from print_victim_frames [OF evict(2)] have v: "frames_only s v" by (auto simp: frames_only_def)
    then have "var_mem_size v = var_mem_size s" by (simp add: frames_only_def)
    with mem_free_frames [OF evict(3) [unfolded mem_free_lines_between_def]] v have w: "frames_only s w"
      by (auto simp: frames_only_def)
    from copy_to_mem_frames [OF evict(4)] have "frames_only w u"
      by (auto simp: frames_only_def split: option.splits)
    then show ?thesis using evict(5) w by (simp add: frames_only_def)
  qed
qed

lemma getOldest_less: "0 < frame_size s \<Longrightarrow> getOldest s < frame_size s"
proof -
  assume n: "0 < frame_size s"
  let ?n = "DIV_ROUND_UP (frame_size s) 3"
  obtain k where k: "?n = Suc k" using n less_DIV_ROUND_UP_iff [of 3 0 "frame_size s"] by (cases ?n) auto
  have "\<exists>m < 1 + k. getOldest_from k (age s) 3 (age s ! 0) 0 = 3 * m"
    by (rule getOldest_from_ok [THEN conjunct1]) (auto simp: less_Suc_eq)
  then obtain m where "m < ?n" "getOldest s = 3 * m"
    by (auto simp: getOldest_def k)
  then show ?thesis using less_DIV_ROUND_UP_iff [of 3 m "frame_size s"] by (simp add: mult.commute)
qed

lemma find_space_None:
  "find_space n i ms = None \<Longrightarrow> k < n \<Longrightarrow> var (ms ! (i + 3 * k)) \<noteq> ''none''"
proof (induction n arbitrary: i k)
  case (Suc n)
  show ?case
  proof (cases k)
    case 0
    then show ?thesis using Suc.prems by (simp split: if_splits)
  next
    case (Suc m)
    with Suc.prems Suc.IH [of "i + 3" m] show ?thesis by (simp add: add.assoc split: if_splits)
  qed
qed simp

lemma find_space_Some: "find_space n i ms = Some j \<Longrightarrow> \<exists>k < n. j = i + 3 * k"
proof (induction n arbitrary: i)
  case (Suc n)
  show ?case
  proof (cases "j = i")
    case False
    with Suc.prems Suc.IH [of "i + 3"] obtain k where "k < n" "j = i + 3 + 3 * k" by (auto split: if_splits)
    then show ?thesis by (intro exI [of _ "Suc k"]) simp
  qed auto
qed simp

lemma getOldest_dvd: "3 dvd getOldest s"
proof (cases "DIV_ROUND_UP (frame_size s) 3")
  case 0
  then show ?thesis by (simp add: getOldest_def)
next
  case (Suc k)
  have "\<exists>m < 1 + k. getOldest_from k (age s) 3 (age s ! 0) 0 = 3 * m"
    by (rule getOldest_from_ok [THEN conjunct1]) (auto simp: less_Suc_eq)
  then show ?thesis by (auto simp: getOldest_def Suc)
qed

lemma clear_valid_fields [simp]:
  "page_table (clear_valid p l) = page_table p" "length (valid_page (clear_valid p l)) = length (valid_page p)"
  "PC (clear_valid p l) = PC p" "fp (clear_valid p l) = fp p" "filename (clear_valid p l) = filename p"
  by (simp_all add: clear_valid_def split: option.split)

lemma pcb_after_clear:
  "pcbs w a = Some p \<Longrightarrow> \<exists>q. pcbs (case r of None \<Rightarrow> w | Some b \<Rightarrow> update_pcb b (\<lambda>q. clear_valid q l) w) a = Some q \<and>
     page_table q = page_table p \<and> length (valid_page q) = length (valid_page p)"
  by (cases r) (auto simp: update_pcb_def)

lemma print_victim_bound: "print_victim n i ub s = Some (v, t) \<Longrightarrow> ub - int n \<le> v"
proof (induction n arbitrary: i ub s)
  case (Suc n)
  then show ?case by (fastforce split: if_splits)
qed simp

section \<open>Properties\<close>

text \<open>
  \<open>getOldest\<close> finds the least recently used page: the result is the first slot of a page,
  its age is the least of all pages, and of several such pages it is the first.
\<close>

theorem getOldest_least:
  assumes "0 < frame_size s"
  shows "getOldest s < frame_size s \<and> 3 dvd getOldest s \<and>
    (\<forall>i < frame_size s. 3 dvd i \<longrightarrow> age s ! getOldest s \<le> age s ! i) \<and>
    (\<forall>i < getOldest s. 3 dvd i \<longrightarrow> age s ! getOldest s < age s ! i)"
proof -
  let ?n = "DIV_ROUND_UP (frame_size s) 3"
  obtain k where k: "?n = Suc k" using assms less_DIV_ROUND_UP_iff [of 3 0 "frame_size s"] by (cases ?n) auto
  have "(\<exists>m < 1 + k. getOldest_from k (age s) 3 (age s ! 0) 0 = 3 * m) \<and>
    (\<forall>m < 1 + k. age s ! getOldest_from k (age s) 3 (age s ! 0) 0 \<le> age s ! (3 * m)) \<and>
    (\<forall>m < 1 + k. 3 * m < getOldest_from k (age s) 3 (age s ! 0) 0 \<longrightarrow>
       age s ! getOldest_from k (age s) 3 (age s ! 0) 0 < age s ! (3 * m))"
    by (rule getOldest_from_ok) (auto simp: less_Suc_eq)
  then have o: "\<exists>m < ?n. getOldest s = 3 * m" "\<forall>m < ?n. age s ! getOldest s \<le> age s ! (3 * m)"
    "\<forall>m < ?n. 3 * m < getOldest s \<longrightarrow> age s ! getOldest s < age s ! (3 * m)"
    by (simp_all add: getOldest_def k)
  have lt: "m < ?n" if "3 * m < frame_size s" for m
    using that less_DIV_ROUND_UP_iff [of 3 m "frame_size s"] by (simp add: mult.commute)
  have "getOldest s < frame_size s" by (rule getOldest_less [OF assms])
  with o lt show ?thesis by (auto simp: dvd_def)
qed

definition demo_pcb :: "string \<Rightarrow> string \<Rightarrow> int \<Rightarrow> pcb" where
  "demo_pcb name content frame = \<lparr>priority = False, pid = 1, PC = 0, page_count = 1, offset_end = 3,
     page_table = [frame], line_offset = 0, valid_page = [True], job_length_score = 0,
     filename = name, fp = content\<rparr>"

text \<open>Two variables, two pages of frames, both occupied by process 1 and a process that is gone.\<close>

definition demo_a2 :: a2_state where
  "demo_a2 = \<lparr>var_mem_size = 2, frame_size = 6,
     shellmem = [\<lparr>var = ''x'', val = ''1''\<rparr>, free_slot] @ replicate 3 \<lparr>var = ''f1'', val = ''old''\<rparr> @
       replicate 3 \<lparr>var = ''f2'', val = ''gone''\<rparr>,
     age = [1, 2, 3, 7, 8, 9], currentAge = 9,
     pcbs = [1 \<mapsto> demo_pcb ''f1'' ''old'' 2,
             2 \<mapsto> (demo_pcb ''f3'' (''p'' @ [newline] @ ''q'') 0)\<lparr>valid_page := [False]\<rparr>],
     next_pcb = 3, ready = [1], dangling = False, pid_counter = 4, active = False, in_background = False,
     junk = 0, trace_a2 = []\<rparr>"

theorem getOldest_least_witness: "getOldest demo_a2 = 0 \<and> age demo_a2 ! 0 < age demo_a2 ! 3"
proof -
  have "getOldest demo_a2 = 0" by code_simp
  moreover have "frame_size demo_a2 = 6" by (simp add: demo_a2_def)
  then have "age demo_a2 ! getOldest demo_a2 \<le> age demo_a2 ! 3"
    using getOldest_least [of demo_a2] by simp
  ultimately show ?thesis by (simp add: demo_a2_def)
qed

text \<open>
  C31: Loading a page does not touch the variables: whatever frame it takes and whatever it
  evicts, every variable keeps its value, and so does the next variable that is set.
\<close>

theorem replace_page_keeps_variables:
  assumes "replace_page a page s = Some t"
  shows "mem_get_value_a2 x t = mem_get_value_a2 x s \<and>
    mem_get_value_a2 x (mem_set_value_a2 y v t) = mem_get_value_a2 x (mem_set_value_a2 y v s)"
  using replace_page_frames [OF assms] by (simp add: get_vars vars_set frames_only_def)

theorem replace_page_keeps_variables_witness:
  "\<exists>t. replace_page 2 0 demo_a2 = Some t \<and> mem_get_value_a2 ''x'' t = Some ''1''"
proof -
  have "replace_page 2 0 demo_a2 \<noteq> None" by code_simp
  then obtain t where t: "replace_page 2 0 demo_a2 = Some t" by blast
  have "mem_get_value_a2 ''x'' demo_a2 = Some ''1''" by code_simp
  with t replace_page_keeps_variables [OF t, of "''x''"] show ?thesis by simp
qed

text \<open>
  C28: Paging loads the right lines. After \<open>replace_page\<close> the page table of the process points
  to a frame, its valid bit is set, and the slots of this frame hold the lines of the program
  from line \<open>3 * PC\<close> on, as far as the program has them, under the name of its file.
\<close>

theorem replace_page_loads:
  assumes "replace_page a page s = Some t" and "pcbs s a = Some p" and "page < length (page_table p)"
    and "page < length (valid_page p)" and "length (shellmem s) = mem_length s" and "3 dvd frame_size s"
  shows "\<exists>q i. pcbs t a = Some q \<and> valid_page q ! page \<and> page_table q ! page = int i \<and>
    var_mem_size s \<le> i \<and> i + 3 \<le> mem_length s \<and>
    (\<forall>j < 3. 3 * PC p + j < length (page_lines (fp p)) \<longrightarrow>
       shellmem t ! (i + j) = \<lparr>var = filename p, val = page_lines (fp p) ! (3 * PC p + j)\<rparr>)"
  using assms(1,2)
proof (cases rule: replace_page_cases)
  case (free i b u)
  let ?s = "update_pcb a (\<lambda>p. p\<lparr>page_table := (page_table p)[page := int i]\<rparr>) s"
  obtain k where k: "i = var_mem_size s + 3 * k" "3 * k < frame_size s"
    using find_space_Some [OF free(1)] less_DIV_ROUND_UP_iff [of 3 _ "frame_size s"] by (auto simp: mult.commute)
  with assms(6) have i: "i + 3 \<le> mem_length s" by (auto simp: mem_length_def dvd_def)
  have "pcbs u = pcbs ?s" using copy_to_mem_frames [OF free(2)] by simp
  then have "pcbs t a = Some (p\<lparr>page_table := (page_table p)[page := int i], valid_page := (valid_page p)[page := True]\<rparr>)"
    using assms(2) free(3) by (simp add: update_pcb_def)
  moreover have "shellmem t = shellmem u" using free(3) by simp
  ultimately show ?thesis
    using copy_to_mem_ok [OF free(2)] assms(3-5) k(1) i
    by (intro exI conjI) (auto simp: mult.commute)
next
  case (evict ub v w b u)
  let ?l = "getOldest s + var_mem_size s"
  let ?w = "case (if var (shellmem w ! ?l) = filename p then Some a else find_process (var (shellmem w ! ?l)) w)
     of None \<Rightarrow> w | Some b \<Rightarrow> update_pcb b (\<lambda>q. clear_valid q (int ?l)) w"
  let ?s = "update_pcb a (\<lambda>p. p\<lparr>page_table := (page_table p)[page := int ?l]\<rparr>) ?w"
  have v: "frames_only s v \<and> pcbs v = pcbs s" using print_victim_frames [OF evict(2)] by (auto simp: frames_only_def)
  then have "var_mem_size v = var_mem_size s" by (simp add: frames_only_def)
  with mem_free_frames [OF evict(3) [unfolded mem_free_lines_between_def]] v
  have w: "frames_only s w" "pcbs w = pcbs s" by (auto simp: frames_only_def)
  have sizes: "mem_length ?s = mem_length s" "length (shellmem ?s) = mem_length s"
    using frames_only_eqs(4,5) [OF w(1)] assms(5) by (auto split: option.split)
  have "0 < frame_size s"
  proof (rule ccontr)
    assume "\<not> 0 < frame_size s"
    then have "mem_length s \<le> ?l" by (simp add: mem_length_def)
    then show False using evict(2) by (simp add: numeral_3_eq_3)
  qed
  then have "?l + 3 \<le> mem_length s"
    using getOldest_less [of s] getOldest_dvd [of s] assms(6) by (auto simp: mem_length_def dvd_def)
  moreover obtain q where q: "pcbs ?w a = Some q" "page_table q = page_table p" "length (valid_page q) = length (valid_page p)"
    using pcb_after_clear [of w a p] w(2) assms(2) by metis
  have "pcbs u = pcbs ?s" using copy_to_mem_frames [OF evict(4)] by simp
  then have "pcbs t a = Some (q\<lparr>page_table := (page_table q)[page := int ?l], valid_page := (valid_page q)[page := True]\<rparr>)"
    using q(1) evict(5) by (simp add: update_pcb_def)
  moreover have "shellmem t = shellmem u" using evict(5) by simp
  ultimately show ?thesis
    using copy_to_mem_ok [OF evict(4)] sizes assms(3-5) q(2,3)
    by (intro exI conjI) (auto simp: mult.commute)
qed

lemma demo_a2_facts: "pcbs demo_a2 1 = Some (demo_pcb ''f1'' ''old'' 2)"
    "pcbs demo_a2 2 = Some ((demo_pcb ''f3'' (''p'' @ [newline] @ ''q'') 0)\<lparr>valid_page := [False]\<rparr>)"
    "length (shellmem demo_a2) = mem_length demo_a2" "frame_size demo_a2 = 6" "var_mem_size demo_a2 = 2"
    "ready demo_a2 = [1]"
  by (simp_all add: demo_a2_def mem_length_def)

lemma demo_a2_replace: "replace_page 2 0 demo_a2 \<noteq> None"
  by code_simp

theorem replace_page_loads_witness:
  "\<exists>t i. replace_page 2 0 demo_a2 = Some t \<and> shellmem t ! (i + 1) = \<lparr>var = ''f3'', val = ''q''\<rparr> \<and> 2 \<le> i"
proof -
  obtain t where t: "replace_page 2 0 demo_a2 = Some t" using demo_a2_replace by blast
  let ?p = "(demo_pcb ''f3'' (''p'' @ [newline] @ ''q'') 0)\<lparr>valid_page := [False]\<rparr>"
  have L: "page_lines (''p'' @ [newline] @ ''q'') = [''p'' @ [newline], ''q'']" by code_simp
  obtain q i where i: "var_mem_size demo_a2 \<le> i"
      "\<forall>j < 3. 3 * PC ?p + j < length (page_lines (fp ?p)) \<longrightarrow>
        shellmem t ! (i + j) = \<lparr>var = filename ?p, val = page_lines (fp ?p) ! (3 * PC ?p + j)\<rparr>"
    using replace_page_loads [OF t demo_a2_facts(2) _ _ demo_a2_facts(3)]
    by (auto simp: demo_a2_facts(4) demo_pcb_def)
  from i(2) have "shellmem t ! (i + 1) = \<lparr>var = ''f3'', val = ''q''\<rparr>"
    using L by (auto simp: demo_pcb_def dest: spec [of _ 1])
  with t i(1) demo_a2_facts(5) show ?thesis by auto
qed

text \<open>
  C35: A process is never told that its page was evicted. When there is no free page the code
  frees the lines of the victim before it looks for the file name in them, finds \<open>none\<close>, and
  so no owner: every other process keeps all its valid bits and page table entries,
  although one frame now holds lines of the process that is loading.
\<close>

theorem eviction_keeps_valid_bits:
  assumes "replace_page a page s = Some t" and "find_space (DIV_ROUND_UP (frame_size s) 3) (var_mem_size s) (shellmem s) = None"
    and "0 < frame_size s" and "length (shellmem s) = mem_length s"
    and "\<forall>c q. pcbs s c = Some q \<longrightarrow> filename q \<noteq> ''none''" and "c \<noteq> a"
  shows "pcbs t c = pcbs s c"
proof -
  obtain p where p: "pcbs s a = Some p" using assms(1) by (auto simp: replace_page_def elim!: bind_SomeE)
  show ?thesis using assms(1) p
  proof (cases rule: replace_page_cases)
    case (free i b u)
    with assms(2) show ?thesis by simp
  next
    case (evict ub v w b u)
    let ?l = "getOldest s + var_mem_size s"
    have v: "frames_only s v" "pcbs v = pcbs s" "shellmem v = shellmem s"
      using print_victim_frames [OF evict(2)] by (auto simp: frames_only_def)
    have l: "?l < mem_length s" using getOldest_less [OF assms(3)] by (simp add: mem_length_def)
    obtain k where k: "getOldest s = 3 * k" using getOldest_dvd by (auto simp: dvd_def)
    then have "k < DIV_ROUND_UP (frame_size s) 3"
      using getOldest_less [OF assms(3)] less_DIV_ROUND_UP_iff [of 3 k "frame_size s"] by (simp add: mult.commute)
    from find_space_None [OF assms(2) this] have used: "var (shellmem s ! ?l) \<noteq> ''none''"
      using k by (simp add: add.commute)
    have "0 \<le> ub"
    proof -
      let ?s = "emit_a2 (Out ''Page fault! Victim page contents: '') s"
      have 3: "(3::nat) = Suc 2" by simp
      have "print_victim 2 (Suc ?l) 2 (emit_a2 (Raw (val (shellmem s ! ?l))) ?s) = Some (ub, v)"
        using evict(2) used l unfolding 3 print_victim.simps by simp
      from print_victim_bound [OF this] show ?thesis by simp
    qed
    then have "Suc (nat (int ?l + ub)) - ?l = Suc (nat ub)" by (simp add: nat_add_distrib)
    with evict(3) have fr: "mem_free_lines (Suc (nat ub)) ?l (emit_a2 (Out ''End of victim page contents.'') v) = Some w"
      by (simp add: mem_free_lines_between_def)
    have "var (shellmem w ! ?l) = ''none''"
      by (rule mem_free_first(2) [OF fr]) (use l v(3) assms(4) frames_only_eqs(4) [OF v(1)] in simp_all)
    moreover have w: "pcbs w = pcbs s"
      using mem_free_frames [OF fr] v(2) frames_only_eqs(2) [OF v(1)] by simp
    moreover have "find_process ''none'' w = None"
      using assms(5) w by (auto simp: find_process_def find_None_iff split: option.splits)
    moreover have "filename p \<noteq> ''none''" using assms(5) p by blast
    ultimately have "pcbs u = pcbs (update_pcb a (\<lambda>p. p\<lparr>page_table := (page_table p)[page := int ?l]\<rparr>) w)"
      using copy_to_mem_frames [OF evict(4)] by auto
    then show ?thesis using evict(5) w assms(6) by (simp add: update_pcb_def)
  qed
qed

text \<open>Process 1 still believes its page is in frame 2, where the lines of process 2 are now.\<close>

theorem eviction_keeps_valid_bits_witness:
  "\<exists>t. replace_page 2 0 demo_a2 = Some t \<and> pcbs t 1 = Some (demo_pcb ''f1'' ''old'' 2) \<and>
     var (shellmem t ! 2) = ''f3''"
proof -
  obtain t where t: "replace_page 2 0 demo_a2 = Some t" using demo_a2_replace by blast
  have "find_space (DIV_ROUND_UP (frame_size demo_a2) 3) (var_mem_size demo_a2) (shellmem demo_a2) = None" by code_simp
  moreover have "\<forall>c q. pcbs demo_a2 c = Some q \<longrightarrow> filename q \<noteq> ''none''"
    by (auto simp: demo_a2_def demo_pcb_def)
  moreover have "0 < frame_size demo_a2" "(1::nat) \<noteq> 2" by (simp_all add: demo_a2_facts(4))
  ultimately have "pcbs t 1 = pcbs demo_a2 1"
    using eviction_keeps_valid_bits [OF t _ _ demo_a2_facts(3)] by blast
  moreover have "map_option (\<lambda>t. var (shellmem t ! 2)) (replace_page 2 0 demo_a2) = Some ''f3''" by code_simp
  ultimately show ?thesis using t demo_a2_facts(1) by auto
qed

end
