(* ===== verification/A2_Queue.thy ===== *)
theory A2_Queue
  imports A2_Memory
begin

text \<open>
  The ready queue of the second shell, \<open>a2/ready_queue.c\<close>. The queue is the list \<open>ready\<close>
  of the addresses of its process control blocks, from \<open>head\<close> on; every node of the linked
  list holds one of them. \<open>ready_queue_destory\<close> frees the nodes and leaves \<open>head\<close> as it is:
  the flag \<open>dangling\<close> records this, and the use of the queue after it is \<open>None\<close>.
\<close>

abbreviation MAX_INT :: int where "MAX_INT \<equiv> 2147483646"

definition the_pcb :: "a2_state \<Rightarrow> nat \<Rightarrow> pcb" where
  "the_pcb s a = the (pcbs s a)"

text \<open>The queue can be walked through: its nodes and their blocks exist.\<close>

definition queue_ok :: "a2_state \<Rightarrow> bool" where
  "queue_ok s \<longleftrightarrow> \<not> dangling s \<and> (\<forall>a \<in> set (ready s). pcbs s a \<noteq> None)"

section \<open>Operations\<close>

definition ready_queue_destory :: "a2_state \<Rightarrow> a2_state option" where
  "ready_queue_destory s =
    (if dangling s then None else Some (if ready s = [] then s else s\<lparr>dangling := True\<rparr>))"

definition ready_queue_add_to_tail :: "nat \<Rightarrow> a2_state \<Rightarrow> a2_state option" where
  "ready_queue_add_to_tail a s = do { guard_opt (\<not> dangling s); Some (s\<lparr>ready := ready s @ [a]\<rparr>) }"

definition ready_queue_add_to_head :: "nat \<Rightarrow> a2_state \<Rightarrow> a2_state option" where
  "ready_queue_add_to_head a s = do { guard_opt (\<not> dangling s); Some (s\<lparr>ready := a # ready s\<rparr>) }"

definition print_ready_queue :: "a2_state \<Rightarrow> a2_state option" where
  "print_ready_queue s = do {
     guard_opt (queue_ok s);
     Some (if ready s = [] then emit_a2 (Out ''ready queue is empty'') s
       else fold (\<lambda>a. emit_a2 (Out ([CHR 0x09] @ ''PID: '' @ show_nat (pid (the_pcb s a)) @ '', length: '' @
                show_int (job_length_score (the_pcb s a)) @ '', priority: '' @
                show_nat (if priority (the_pcb s a) then 1 else 0))))
              (ready s) (emit_a2 (Out ''Ready queue: '') s)) }"

definition terminate_process :: "nat \<Rightarrow> a2_state \<Rightarrow> a2_state option" where
  "terminate_process a s = do { guard_opt (pcbs s a \<noteq> None); Some (s\<lparr>pcbs := (pcbs s)(a := None)\<rparr>) }"

definition is_ready_empty :: "a2_state \<Rightarrow> bool" where
  "is_ready_empty s \<longleftrightarrow> ready s = []"

definition ready_queue_pop_head :: "a2_state \<Rightarrow> (nat option \<times> a2_state) option" where
  "ready_queue_pop_head s = do {
     guard_opt (\<not> dangling s);
     Some (case ready s of [] \<Rightarrow> (None, s) | a # as \<Rightarrow> (Some a, s\<lparr>ready := as\<rparr>)) }"

definition decrement_score :: "pcb \<Rightarrow> pcb" where
  "decrement_score p =
    (if job_length_score p > 0 then p\<lparr>job_length_score := job_length_score p - 1\<rparr> else p)"

definition ready_queue_decrement_job_length_score :: "a2_state \<Rightarrow> a2_state option" where
  "ready_queue_decrement_job_length_score s = do {
     guard_opt (queue_ok s);
     Some (fold (\<lambda>a. update_pcb a decrement_score) (ready s) s) }"

text \<open>A node that is not in the queue changes nothing; the last node has no successor to swap with.\<close>

fun swap_with_next :: "nat list \<Rightarrow> nat \<Rightarrow> nat list option" where
  "swap_with_next [] a = Some []"
| "swap_with_next [b] a = (if b = a then None else Some [b])"
| "swap_with_next (b # c # cs) a =
    (if b = a then Some (c # b # cs) else map_option (Cons b) (swap_with_next (c # cs) a))"

definition ready_queue_swap_with_next :: "nat \<Rightarrow> a2_state \<Rightarrow> a2_state option" where
  "ready_queue_swap_with_next a s = do {
     guard_opt (\<not> dangling s);
     q \<leftarrow> swap_with_next (ready s) a;
     Some (s\<lparr>ready := q\<rparr>) }"

definition swap_needed :: "pcb \<Rightarrow> pcb option \<Rightarrow> bool" where
  "swap_needed p nxt =
    (case nxt of
       None \<Rightarrow> False
     | Some q \<Rightarrow>
         if priority p \<and> priority q then job_length_score p > job_length_score q
         else if priority p \<and> \<not> priority q then False
         else if \<not> priority p \<and> priority q then True
         else job_length_score p > job_length_score q)"

text \<open>
  The two loops of \<open>sort_ready_queue\<close>. The inner one walks with \<open>cur\<close> to the end of the
  queue; \<open>pre\<close> are the nodes before \<open>cur\<close> (reversed) and \<open>suf\<close> those behind it. The outer
  loop goes on with the same \<open>cur\<close>.
\<close>

fun sort_inner :: "(nat \<Rightarrow> pcb) \<Rightarrow> nat list \<Rightarrow> nat \<Rightarrow> nat list \<Rightarrow> bool \<Rightarrow> nat list \<times> nat \<times> bool" where
  "sort_inner P pre cur [] is_sorted = (pre, cur, is_sorted)"
| "sort_inner P pre cur (n # suf) is_sorted =
    (if swap_needed (P cur) (Some (P n)) then sort_inner P (n # pre) cur suf False
     else sort_inner P (cur # pre) n suf is_sorted)"

function sort_outer :: "(nat \<Rightarrow> pcb) \<Rightarrow> nat list \<Rightarrow> nat \<Rightarrow> nat list \<Rightarrow> nat list" where
  "sort_outer P pre cur suf =
    (let (pre, cur, is_sorted) = sort_inner P pre cur suf True in
     if is_sorted then rev pre @ [cur] else sort_outer P pre cur [])"
  by pat_completeness auto
termination
proof (relation "measure (\<lambda>(P, pre, cur, suf). length suf)", goal_cases)
  case (2 P pre cur suf x pre' y cur' is_sorted)
  then show ?case by (cases suf) auto
qed simp

declare sort_outer.simps [simp del]

definition sort_ready_queue :: "a2_state \<Rightarrow> a2_state option" where
  "sort_ready_queue s = do {
     guard_opt (queue_ok s);
     Some (case ready s of [] \<Rightarrow> s | a # as \<Rightarrow> s\<lparr>ready := sort_outer (the_pcb s) [] a as\<rparr>) }"

definition ready_queue_pop_shortest_job :: "a2_state \<Rightarrow> (nat option \<times> a2_state) option" where
  "ready_queue_pop_shortest_job s = do { s \<leftarrow> sort_ready_queue s; ready_queue_pop_head s }"

fun shortest_score :: "(nat \<Rightarrow> pcb) \<Rightarrow> nat list \<Rightarrow> int \<Rightarrow> int" where
  "shortest_score P [] m = m"
| "shortest_score P (a # as) m =
    shortest_score P as (if job_length_score (P a) < m then job_length_score (P a) else m)"

definition ready_queue_get_shortest_job_score :: "a2_state \<Rightarrow> int option" where
  "ready_queue_get_shortest_job_score s = do {
     guard_opt (queue_ok s);
     Some (shortest_score (the_pcb s) (ready s) MAX_INT) }"

text \<open>The search of \<open>ready_queue_promote\<close> behind the head; an empty queue is a null pointer.\<close>

fun promote_from :: "(nat \<Rightarrow> bool) \<Rightarrow> nat list \<Rightarrow> nat list \<Rightarrow> nat list" where
  "promote_from f pre [] = rev pre"
| "promote_from f pre (a # as) = (if f a then a # rev pre @ as else promote_from f (a # pre) as)"

definition ready_queue_promote :: "int \<Rightarrow> a2_state \<Rightarrow> a2_state option" where
  "ready_queue_promote score s = do {
     guard_opt (queue_ok s \<and> ready s \<noteq> []);
     let f = (\<lambda>a. job_length_score (the_pcb s a) = score);
     Some (if f (hd (ready s)) then s
       else s\<lparr>ready := promote_from f [hd (ready s)] (tl (ready s))\<rparr>) }"

section \<open>Lemmas\<close>

lemma swap_with_next_at: "c \<notin> set pre \<Longrightarrow> swap_with_next (pre @ c # n # suf) c = Some (pre @ n # c # suf)"
proof (induction pre)
  case (Cons b pre)
  then obtain d ds where "pre @ c # n # suf = d # ds" by (cases pre) auto
  with Cons show ?case by simp
qed simp

text \<open>One pass of bubble sort.\<close>

fun bubble :: "(nat \<Rightarrow> pcb) \<Rightarrow> nat \<Rightarrow> nat list \<Rightarrow> nat list" where
  "bubble P cur [] = [cur]"
| "bubble P cur (n # suf) =
    (if swap_needed (P cur) (Some (P n)) then n # bubble P cur suf else cur # bubble P n suf)"

lemma sort_inner_bubble: "sort_inner P pre cur suf b = (pre', cur', b') \<Longrightarrow> rev pre' @ [cur'] = rev pre @ bubble P cur suf"
  by (induction P pre cur suf b rule: sort_inner.induct) (auto split: if_splits)

lemma sort_outer_bubble: "sort_outer P pre cur suf = rev pre @ bubble P cur suf"
proof -
  obtain pre' cur' b where i: "sort_inner P pre cur suf True = (pre', cur', b)" by (cases "sort_inner P pre cur suf True") auto
  have "sort_outer P pre' cur' [] = rev pre' @ [cur']" by (subst sort_outer.simps) simp
  with sort_inner_bubble [OF i] show ?thesis by (subst sort_outer.simps) (simp add: i)
qed

lemma mset_bubble: "mset (bubble P cur suf) = mset (cur # suf)"
  by (induction P cur suf rule: bubble.induct) auto

text \<open>The order of the queue: a process with priority comes first, then the lower score.\<close>

definition before :: "pcb \<Rightarrow> pcb \<Rightarrow> bool" where
  "before p q \<longleftrightarrow> (if priority p = priority q then job_length_score p \<le> job_length_score q else priority p)"

lemma swap_needed_before: "swap_needed p (Some q) \<longleftrightarrow> \<not> before p q"
  by (auto simp: swap_needed_def before_def)

lemma before_total: "before p q \<or> before q p"
  by (auto simp: before_def)

lemma before_trans: "before p q \<Longrightarrow> before q r \<Longrightarrow> before p r"
  by (auto simp: before_def split: if_splits)

lemma bubble_last: "\<forall>a \<in> set (cur # suf). before (P a) (P (last (bubble P cur suf)))"
proof (induction P cur suf rule: bubble.induct)
  case (1 P cur)
  then show ?case using before_total [of "P cur" "P cur"] by simp
next
  case (2 P cur n suf)
  have ne: "bubble P c suf \<noteq> []" for c by (cases suf) auto
  show ?case
  proof (cases "swap_needed (P cur) (Some (P n))")
    case True
    then have "before (P n) (P cur)" using before_total swap_needed_before by blast
    with True 2 ne before_trans show ?thesis by fastforce
  next
    case False
    then have "before (P cur) (P n)" using swap_needed_before by blast
    with False 2 ne before_trans show ?thesis by fastforce
  qed
qed

lemma promote_from_mset: "mset (promote_from f pre as) = mset pre + mset as"
  by (induction f pre as rule: promote_from.induct) auto

lemma promote_from_none: "\<forall>a \<in> set as. \<not> f a \<Longrightarrow> promote_from f pre as = rev pre @ as"
  by (induction f pre as rule: promote_from.induct) auto

lemma promote_from_split:
  "\<forall>b \<in> set as. \<not> f b \<Longrightarrow> f a \<Longrightarrow> promote_from f pre (as @ a # bs) = a # rev pre @ as @ bs"
  by (induction as arbitrary: pre) auto

lemma shortest_score_ok:
  "shortest_score P as m \<le> m \<and> (\<forall>a \<in> set as. shortest_score P as m \<le> job_length_score (P a)) \<and>
   (shortest_score P as m = m \<or> (\<exists>a \<in> set as. shortest_score P as m = job_length_score (P a)))"
  by (induction P as m rule: shortest_score.induct) auto

section \<open>Properties\<close>

text \<open>A queue of jobs with the given scores.\<close>

definition score_pcb :: "int \<Rightarrow> pcb" where
  "score_pcb n = (demo_pcb ''j'' ''x'' 0)\<lparr>job_length_score := n\<rparr>"

definition demo_queue :: "int list \<Rightarrow> a2_state" where
  "demo_queue ns = demo_a2\<lparr>ready := [0..<length ns], pcbs := (\<lambda>a. Some (score_pcb (ns ! a)))\<rparr>"

lemma demo_queue_ok: "queue_ok (demo_queue ns)"
  by (simp add: queue_ok_def demo_queue_def demo_a2_def)

lemma demo_queue_simps [simp]: "ready (demo_queue ns) = [0..<length ns]" "the_pcb (demo_queue ns) a = score_pcb (ns ! a)"
  by (simp_all add: demo_queue_def the_pcb_def)

text \<open>
  C34: What \<open>sort_ready_queue\<close> does: it rearranges the queue and changes nothing else, and it
  moves a job that comes last in the order (priority first, then score) to the end. This
  is a single pass of bubble sort: the outer loop does not start again at the head.
\<close>

theorem sort_ready_queue_one_pass:
  assumes "queue_ok s" and "ready s = a # as"
  shows "\<exists>q. sort_ready_queue s = Some (s\<lparr>ready := q\<rparr>) \<and> mset q = mset (ready s) \<and>
    q = bubble (the_pcb s) a as \<and> (\<forall>b \<in> set (ready s). before (the_pcb s b) (the_pcb s (last q)))"
  using assms bubble_last [of a as "the_pcb s"]
  by (simp add: sort_ready_queue_def sort_outer_bubble mset_bubble)

theorem sort_ready_queue_one_pass_witness:
  "\<exists>q. sort_ready_queue (demo_queue [3, 2, 1]) = Some ((demo_queue [3, 2, 1])\<lparr>ready := q\<rparr>) \<and> q = [1, 2, 0]"
proof -
  have "ready (demo_queue [3, 2, 1]) = 0 # [1, 2]" by (simp add: upt_rec)
  from sort_ready_queue_one_pass [OF demo_queue_ok this] show ?thesis
    by (auto simp: swap_needed_def score_pcb_def demo_pcb_def numeral_2_eq_2)
qed

text \<open>
  So the policy that takes the shortest job does not: for three jobs in decreasing
  order of length, without priority, \<open>ready_queue_pop_shortest_job\<close> takes the second one and
  leaves a shorter one waiting.
\<close>

theorem pop_shortest_not_shortest:
  assumes "queue_ok s" and "ready s = [a, b, c]"
    and "\<forall>x \<in> {a, b, c}. \<not> priority (the_pcb s x)"
    and "job_length_score (the_pcb s a) > job_length_score (the_pcb s b)"
    and "job_length_score (the_pcb s b) > job_length_score (the_pcb s c)"
  shows "\<exists>t. ready_queue_pop_shortest_job s = Some (Some b, t) \<and> ready t = [c, a] \<and>
    job_length_score (the_pcb t c) < job_length_score (the_pcb s b)"
proof -
  have "bubble (the_pcb s) a [b, c] = [b, c, a]" using assms(3-5) by (auto simp: swap_needed_def)
  then have "sort_ready_queue s = Some (s\<lparr>ready := [b, c, a]\<rparr>)"
    using assms(1,2) by (simp add: sort_ready_queue_def sort_outer_bubble)
  moreover have "\<not> dangling s" using assms(1) by (simp add: queue_ok_def)
  ultimately show ?thesis
    using assms(5) by (simp add: ready_queue_pop_shortest_job_def ready_queue_pop_head_def the_pcb_def)
qed

theorem pop_shortest_not_shortest_witness:
  "\<exists>t. ready_queue_pop_shortest_job (demo_queue [3, 2, 1]) = Some (Some 1, t) \<and> ready t = [2, 0]"
proof -
  have "ready (demo_queue [3, 2, 1]) = [0, 1, 2]" by (simp add: upt_rec)
  from pop_shortest_not_shortest [OF demo_queue_ok this] show ?thesis
    by (auto simp: score_pcb_def demo_pcb_def)
qed

text \<open>
  \<open>ready_queue_get_shortest_job_score\<close> returns the least score in the queue, and
  \<open>ready_queue_promote\<close> with this score moves the first job that has it to the head and keeps
  the order of the others.
\<close>

theorem promote_shortest:
  assumes "queue_ok s" and "ready s \<noteq> []"
    and "\<forall>a \<in> set (ready s). job_length_score (the_pcb s a) < MAX_INT"
  shows "\<exists>m pre a suf. ready_queue_get_shortest_job_score s = Some m \<and>
    (\<forall>b \<in> set (ready s). m \<le> job_length_score (the_pcb s b)) \<and>
    ready s = pre @ a # suf \<and> job_length_score (the_pcb s a) = m \<and>
    (\<forall>b \<in> set pre. m < job_length_score (the_pcb s b)) \<and>
    ready_queue_promote m s = Some (s\<lparr>ready := a # pre @ suf\<rparr>)"
proof -
  let ?P = "the_pcb s" and ?m = "shortest_score (the_pcb s) (ready s) MAX_INT"
  let ?f = "\<lambda>a. job_length_score (?P a) = ?m"
  note m = shortest_score_ok [of ?P "ready s" MAX_INT]
  have "\<exists>a \<in> set (ready s). ?f a"
  proof -
    obtain b where b: "b \<in> set (ready s)" using assms(2) by (cases "ready s") auto
    with assms(3) m have "?m \<noteq> MAX_INT" by force
    with m show ?thesis by auto
  qed
  then obtain pre a suf where sp: "ready s = pre @ a # suf" "?f a" "\<forall>b \<in> set pre. \<not> ?f b"
    using split_list_first_prop [of "ready s" ?f] by auto
  have "ready_queue_promote ?m s = Some (s\<lparr>ready := a # pre @ suf\<rparr>)"
  proof (cases pre)
    case Nil
    then show ?thesis using assms(1) sp by (simp add: ready_queue_promote_def)
  next
    case (Cons b bs)
    then have "promote_from ?f [b] (bs @ a # suf) = a # pre @ suf"
      using sp by (subst promote_from_split) auto
    then show ?thesis using assms(1) sp Cons by (simp add: ready_queue_promote_def)
  qed
  moreover have "\<forall>b \<in> set pre. ?m < job_length_score (?P b)"
    using sp m by (metis Un_iff order_le_less set_append)
  moreover have "ready_queue_get_shortest_job_score s = Some ?m"
    using assms(1) by (simp add: ready_queue_get_shortest_job_score_def)
  ultimately show ?thesis using m sp by blast
qed

theorem promote_shortest_witness:
  "ready_queue_promote 1 (demo_queue [5, 1, 7]) = Some ((demo_queue [5, 1, 7])\<lparr>ready := [1, 0, 2]\<rparr>)"
proof -
  let ?s = "demo_queue [5, 1, 7]"
  have r: "ready ?s = [0, 1, 2]" by (simp add: upt_rec)
  have "\<exists>m pre a suf. ready_queue_get_shortest_job_score ?s = Some m \<and>
      ready ?s = pre @ a # suf \<and> job_length_score (the_pcb ?s a) = m \<and>
      ready_queue_promote m ?s = Some (?s\<lparr>ready := a # pre @ suf\<rparr>)"
    using promote_shortest [OF demo_queue_ok, of "[5, 1, 7]"] r
    by (fastforce simp: score_pcb_def demo_pcb_def)
  moreover have "ready_queue_get_shortest_job_score ?s = Some 1"
    using demo_queue_ok r
    by (simp add: ready_queue_get_shortest_job_score_def score_pcb_def demo_pcb_def del: demo_queue_simps(1))
  ultimately obtain pre a suf where p: "[0, 1, 2] = pre @ a # suf" "job_length_score (the_pcb ?s a) = 1"
      "ready_queue_promote 1 ?s = Some (?s\<lparr>ready := a # pre @ suf\<rparr>)"
    unfolding r by auto
  from p(1,2) have "pre = [0] \<and> a = 1 \<and> suf = [2]"
    by (cases pre; cases "tl pre"; cases "tl (tl pre)") (auto simp: score_pcb_def demo_pcb_def)
  with p(3) show ?thesis by simp
qed

end
