(* ===== verification/A2_Kernel.thy ===== *)
theory A2_Kernel
  imports A2_Queue A1_Shell
begin

text \<open>
  The second shell: processes and schedulers (\<open>a2/kernel.c\<close>), the command interpreter
  (\<open>a2/interpreter.c\<close>) and the parser of command lines (\<open>a2/shell.c\<close>).

  A scheduler runs the lines of programs through the parser, and the parser runs commands
  that start schedulers. The definitions of each part take the part they call back as an
  argument; \<open>parseInput_a2\<close> closes the circle, with a fuel argument that bounds the nesting
  of schedulers in commands and the number of rounds of each scheduler. \<open>None\<close> is a program
  that crashes, or does not end within the bound. A loop of the parser that does not end is
  also \<open>None\<close>.
\<close>

type_synonym 's step = "(outcome \<times> 's) option"

section \<open>Errors\<close>

datatype error = NO_ERROR | FILE_DOES_NOT_EXIST | FILE_ERROR | NO_MEM_SPACE | READY_QUEUE_FULL |
  SCHEDULING_ERROR | TOO_MANY_TOKENS | TOO_FEW_TOKENS | NON_ALPHANUMERIC_TOKEN | BAD_COMMAND |
  ERROR_CD | ERROR_MKDIR

fun error_code :: "error \<Rightarrow> int" where
  "error_code NO_ERROR = 0"
| "error_code FILE_DOES_NOT_EXIST = 1"
| "error_code FILE_ERROR = 2"
| "error_code NO_MEM_SPACE = 3"
| "error_code READY_QUEUE_FULL = 4"
| "error_code SCHEDULING_ERROR = 5"
| "error_code TOO_MANY_TOKENS = 6"
| "error_code TOO_FEW_TOKENS = 7"
| "error_code NON_ALPHANUMERIC_TOKEN = 8"
| "error_code BAD_COMMAND = 9"
| "error_code ERROR_CD = 10"
| "error_code ERROR_MKDIR = 11"

fun error_msg :: "error \<Rightarrow> string" where
  "error_msg NO_ERROR = ''no error''"
| "error_msg FILE_DOES_NOT_EXIST = ''file does not exist''"
| "error_msg FILE_ERROR = ''file could not be loaded''"
| "error_msg NO_MEM_SPACE = ''no space left in shell memory''"
| "error_msg READY_QUEUE_FULL = ''ready queue is full''"
| "error_msg SCHEDULING_ERROR = ''scheduling policy error''"
| "error_msg TOO_MANY_TOKENS = ''too many tokens''"
| "error_msg TOO_FEW_TOKENS = ''too few tokens''"
| "error_msg NON_ALPHANUMERIC_TOKEN = ''non-alphanumeric token''"
| "error_msg BAD_COMMAND = ''unknown name''"
| "error_msg ERROR_CD = ''cd''"
| "error_msg ERROR_MKDIR = ''mkdir''"

definition handle_error :: "error \<Rightarrow> a2_state \<Rightarrow> outcome \<times> a2_state" where
  "handle_error e s = (Returned (error_code e), emit_a2 (Out (''Bad command: '' @ error_msg e)) s)"

section \<open>Processes\<close>

text \<open>The number of lines the loader counts: one more than there are newlines, up to the first
  byte that a signed \<open>char\<close> cannot tell from \<open>EOF\<close>.\<close>

definition backing_copy :: "string \<Rightarrow> string" where
  "backing_copy content = takeWhile (\<lambda>c. c \<noteq> CHR 0xFF) content"

definition line_count :: "string \<Rightarrow> nat" where
  "line_count content = 1 + length (filter (\<lambda>c. c = newline) (backing_copy content))"

definition offset_end_of :: "nat \<Rightarrow> nat" where
  "offset_end_of n = (if n mod 3 = 0 then 3 else n mod 3)"

definition page_count_of :: "nat \<Rightarrow> nat" where
  "page_count_of n = (if offset_end_of n \<noteq> 3 then n div 3 + 1 else n div 3)"

text \<open>The buffer for the process number has room for two digits.\<close>

definition process_initialize :: "host \<Rightarrow> string \<Rightarrow> a2_state \<Rightarrow> (error \<times> a2_state) option" where
  "process_initialize h name s =
    (case open_read h (trace_a2 s) name of
       None \<Rightarrow> Some (FILE_DOES_NOT_EXIST, s)
     | Some content \<Rightarrow> do {
         let pid = show_nat (getPID s);
         guard_opt (length pid < 3);
         let newfile = ''./backing_store/'' @ name @ pid;
         guard_opt (create_ok h (trace_a2 s) newfile);
         let s = emit_a2 (Touch newfile) s;
         let n = line_count content;
         let pages = page_count_of n;
         let (a, s) = makePCB pages (offset_end_of n) (replicate pages (junk s)) (replicate pages False)
                        newfile (backing_copy content) s;
         (r, s) \<leftarrow> load_file a s;
         if r \<noteq> 0 then Some (FILE_ERROR, s)
         else do { s \<leftarrow> ready_queue_add_to_tail a s; Some (NO_ERROR, s) } })"

text \<open>
  \<open>execute_process\<close>, for at most \<open>quanta\<close> lines. The result is \<open>Inr\<close> the return value of the
  function, or \<open>Inl\<close> the exit code of the program when a line is \<open>quit\<close>.
\<close>

fun execute_process ::
  "(string \<Rightarrow> a2_state \<Rightarrow> a2_state step) \<Rightarrow> nat \<Rightarrow> nat \<Rightarrow> a2_state \<Rightarrow> ((int + bool) \<times> a2_state) option" where
  "execute_process parse a 0 s = Some (Inr False, s)"
| "execute_process parse a (Suc quanta) s = do {
     p \<leftarrow> pcbs s a;
     guard_opt (PC p < length (valid_page p));
     if \<not> valid_page p ! PC p then do {
       s \<leftarrow> replace_page a (PC p) s;
       s \<leftarrow> ready_queue_add_to_tail a s;
       Some (Inr True, s) }
     else do {
       (line, s) \<leftarrow> mem_get_value_at_line (page_table p ! PC p + int (line_offset p)) s;
       let p = p\<lparr>line_offset := line_offset p + 1\<rparr>;
       let s = update_pcb a (\<lambda>_. p) s;
       line \<leftarrow> line;
       if PC p = page_count p - 1 \<and> line_offset p = offset_end p then do {
         (r, s) \<leftarrow> parse line s;
         case r of
           Exited c \<Rightarrow> Some (Inl c, s)
         | Returned c \<Rightarrow> do {
             s \<leftarrow> terminate_process a s;
             Some (Inr True, s\<lparr>in_background := False\<rparr>) } }
       else do {
         let p = (if line_offset p = 3 then p\<lparr>line_offset := 0, PC := PC p + 1\<rparr> else p);
         let s = (update_pcb a (\<lambda>_. p\<lparr>priority := False\<rparr>) s)\<lparr>in_background := True\<rparr>;
         (r, s) \<leftarrow> parse line s;
         case r of
           Exited c \<Rightarrow> Some (Inl c, s)
         | Returned c \<Rightarrow> execute_process parse a quanta (s\<lparr>in_background := False\<rparr>) } } }"

section \<open>Schedulers\<close>

text \<open>
  The loop all schedulers share: it ends when the queue is empty (it spins for ever when
  \<open>active\<close> is set), and otherwise makes a round. \<open>fuel\<close> bounds the rounds.
\<close>

fun sched_loop :: "nat \<Rightarrow> (a2_state \<Rightarrow> ((int + bool) \<times> a2_state) option) \<Rightarrow> a2_state \<Rightarrow> ((int + bool) \<times> a2_state) option"
where
  "sched_loop 0 rnd s = None"
| "sched_loop (Suc fuel) rnd s =
    (if is_ready_empty s then if active s then None else Some (Inr True, s)
     else do {
       (r, s) \<leftarrow> rnd s;
       case r of Inl c \<Rightarrow> Some (Inl c, s) | Inr b \<Rightarrow> sched_loop fuel rnd s })"

definition round_FCFS :: "(string \<Rightarrow> a2_state \<Rightarrow> a2_state step) \<Rightarrow> a2_state \<Rightarrow> ((int + bool) \<times> a2_state) option" where
  "round_FCFS parse s = do {
     (cur, s) \<leftarrow> ready_queue_pop_head s;
     a \<leftarrow> cur;
     execute_process parse a (nat MAX_INT) s }"

definition round_SJF :: "(string \<Rightarrow> a2_state \<Rightarrow> a2_state step) \<Rightarrow> a2_state \<Rightarrow> ((int + bool) \<times> a2_state) option" where
  "round_SJF parse s = do {
     (cur, s) \<leftarrow> ready_queue_pop_shortest_job s;
     a \<leftarrow> cur;
     execute_process parse a (nat MAX_INT) s }"

definition requeue ::
  "(nat \<Rightarrow> a2_state \<Rightarrow> a2_state option) \<Rightarrow> nat \<Rightarrow> (int + bool) \<times> a2_state \<Rightarrow> ((int + bool) \<times> a2_state) option" where
  "requeue add a rs =
    (case rs of
       (Inr False, s) \<Rightarrow> do { s \<leftarrow> add a s; Some (Inr False, s) }
     | (r, s) \<Rightarrow> Some (r, s))"

definition round_AGING_alternative ::
  "(string \<Rightarrow> a2_state \<Rightarrow> a2_state step) \<Rightarrow> a2_state \<Rightarrow> ((int + bool) \<times> a2_state) option" where
  "round_AGING_alternative parse s = do {
     (cur, s) \<leftarrow> ready_queue_pop_shortest_job s;
     a \<leftarrow> cur;
     s \<leftarrow> ready_queue_decrement_job_length_score s;
     rs \<leftarrow> execute_process parse a 1 s;
     requeue ready_queue_add_to_head a rs }"

definition round_AGING :: "(string \<Rightarrow> a2_state \<Rightarrow> a2_state step) \<Rightarrow> a2_state \<Rightarrow> ((int + bool) \<times> a2_state) option" where
  "round_AGING parse s = do {
     (cur, s) \<leftarrow> ready_queue_pop_head s;
     a \<leftarrow> cur;
     shortest \<leftarrow> ready_queue_get_shortest_job_score s;
     p \<leftarrow> pcbs s a;
     (cur, s) \<leftarrow> (if shortest < job_length_score p then do {
         s \<leftarrow> ready_queue_promote shortest s;
         s \<leftarrow> ready_queue_add_to_tail a s;
         ready_queue_pop_head s } else Some (Some a, s));
     a \<leftarrow> cur;
     s \<leftarrow> ready_queue_decrement_job_length_score s;
     rs \<leftarrow> execute_process parse a 1 s;
     requeue ready_queue_add_to_head a rs }"

definition round_RR :: "nat \<Rightarrow> (string \<Rightarrow> a2_state \<Rightarrow> a2_state step) \<Rightarrow> a2_state \<Rightarrow> ((int + bool) \<times> a2_state) option" where
  "round_RR quanta parse s = do {
     (cur, s) \<leftarrow> ready_queue_pop_head s;
     a \<leftarrow> cur;
     rs \<leftarrow> execute_process parse a quanta s;
     requeue ready_queue_add_to_tail a rs }"

definition schedule_by_policy ::
  "nat \<Rightarrow> (string \<Rightarrow> a2_state \<Rightarrow> a2_state step) \<Rightarrow> string \<Rightarrow> a2_state \<Rightarrow> ((int + error) \<times> a2_state) option" where
  "schedule_by_policy fuel parse policy s =
    (if policy \<notin> {''FCFS'', ''SJF'', ''RR'', ''AGING'', ''RR30''} then Some (Inr SCHEDULING_ERROR, s)
     else if active s \<or> in_background s then Some (Inr NO_ERROR, s)
     else do {
       (r, s) \<leftarrow>
         (if policy = ''FCFS'' then sched_loop fuel (round_FCFS parse) s
          else if policy = ''SJF'' then sched_loop fuel (round_SJF parse) s
          else if policy = ''RR'' then sched_loop fuel (round_RR 2 parse) s
          else if policy = ''AGING'' then do { s \<leftarrow> sort_ready_queue s; sched_loop fuel (round_AGING parse) s }
          else sched_loop fuel (round_RR 30 parse) s);
       Some (case r of Inl c \<Rightarrow> (Inl c, s) | Inr b \<Rightarrow> (Inr NO_ERROR, s)) })"

section \<open>The store of program copies\<close>

definition system_a2 :: "host \<Rightarrow> string \<Rightarrow> a2_state \<Rightarrow> int \<times> a2_state" where
  "system_a2 h cmd s = (system_code h (trace_a2 s) cmd, emit_a2 (System cmd) s)"

definition init_store :: "host \<Rightarrow> a2_state \<Rightarrow> a2_state" where
  "init_store h s =
    (if \<not> path_exists h (trace_a2 s) ''backing_store'' then emit_a2 (System ''mkdir backing_store'') s
     else emit_a2 (System ''rm -f backing_store/*'') s)"

definition remove_store :: "a2_state \<Rightarrow> a2_state" where
  "remove_store s = emit_a2 (Rmdir ''backing_store'') (emit_a2 (System ''rm -f backing_store/*'') s)"

section \<open>Commands\<close>

text \<open>A command whose argument was not given gets the null pointer, \<open>None\<close>.\<close>

definition help_a2 :: "a2_state \<Rightarrow> outcome \<times> a2_state" where
  "help_a2 s = (Returned 0, emit_a2 (Out help_string) s)"

definition quit_a2 :: "a2_state \<Rightarrow> a2_state step" where
  "quit_a2 s = do {
     s \<leftarrow> ready_queue_destory (emit_a2 (Out ''Bye!'') s);
     Some (Exited 0, remove_store s) }"

definition set_a2 :: "string \<Rightarrow> string \<Rightarrow> a2_state \<Rightarrow> a2_state step" where
  "set_a2 v x s =
    (if length (v @ ''='' @ x) < 1000 then Some (Returned 0, mem_set_value_a2 v x s) else None)"

definition print_a2 :: "string \<Rightarrow> a2_state \<Rightarrow> outcome \<times> a2_state" where
  "print_a2 v s =
    (let value = (case mem_get_value_a2 v s of None \<Rightarrow> [newline] | Some x \<Rightarrow> x)
     in (Returned 0, emit_a2 (Out value) s))"

definition echo_a2 :: "string option \<Rightarrow> a2_state \<Rightarrow> a2_state step" where
  "echo_a2 arg s = do {
     v \<leftarrow> arg;
     if take 1 v = [dollar] then Some (Returned 0, snd (print_a2 (drop 1 v) s))
     else Some (Returned 0, emit_a2 (Out v) s) }"

definition my_ls_a2 :: "host \<Rightarrow> a2_state \<Rightarrow> outcome \<times> a2_state" where
  "my_ls_a2 h s = (let (r, s) = system_a2 h ''ls | sort'' s in (Returned r, s))"

definition my_mkdir_a2 :: "host \<Rightarrow> string option \<Rightarrow> a2_state \<Rightarrow> a2_state step" where
  "my_mkdir_a2 h arg s = do {
     dirname \<leftarrow> arg;
     case (if take 1 dirname = [dollar] then
             case mem_get_value_a2 (drop 1 dirname) s of
               None \<Rightarrow> None
             | Some value \<Rightarrow> if space \<in> set value then None else Some value
           else Some dirname) of
       None \<Rightarrow> Some (handle_error ERROR_MKDIR s)
     | Some dir \<Rightarrow> (let (r, s) = system_a2 h (''mkdir '' @ dir) s in Some (Returned r, s)) }"

definition my_touch_a2 :: "host \<Rightarrow> string option \<Rightarrow> a2_state \<Rightarrow> a2_state step" where
  "my_touch_a2 h arg s = do {
     name \<leftarrow> arg;
     let (r, s) = system_a2 h (''touch '' @ name) s;
     Some (Returned r, s) }"

text \<open>\<open>stat\<close> of the null pointer fails like \<open>stat\<close> of a name that does not exist.\<close>

definition my_cd_a2 :: "host \<Rightarrow> string option \<Rightarrow> a2_state \<Rightarrow> outcome \<times> a2_state" where
  "my_cd_a2 h arg s =
    (case arg of
       None \<Rightarrow> handle_error ERROR_CD s
     | Some dir \<Rightarrow>
         if is_directory h (trace_a2 s) dir then
           if chdir_ok h (trace_a2 s) dir then (Returned 0, emit_a2 (Chdir dir) s) else (Returned (- 1), s)
         else handle_error ERROR_CD s)"

definition run_a2 ::
  "host \<Rightarrow> (string \<Rightarrow> a2_state \<Rightarrow> ((int + error) \<times> a2_state) option) \<Rightarrow> string \<Rightarrow> a2_state \<Rightarrow> a2_state step" where
  "run_a2 h sched script s = do {
     (e, s) \<leftarrow> process_initialize h script s;
     if error_code e = 11 then Some (handle_error e s)
     else do {
       (r, s) \<leftarrow> sched ''FCFS'' s;
       Some (case r of Inl c \<Rightarrow> (Exited c, s) | Inr e' \<Rightarrow> (Returned (error_code e), s)) } }"

text \<open>
  The programs \<open>exec\<close> is given are initialised in order, up to the first that fails. When all
  went well \<open>exec\<close> ends without a value: its caller gets what is left in the register, which
  is \<open>junk\<close> here.
\<close>

fun exec_load :: "host \<Rightarrow> string list \<Rightarrow> a2_state \<Rightarrow> (error \<times> a2_state) option" where
  "exec_load h [] s = Some (NO_ERROR, s)"
| "exec_load h (f # fs) s = do {
     (e, s) \<leftarrow> process_initialize h f s;
     if e \<noteq> NO_ERROR then Some (e, s) else exec_load h fs s }"

definition exec_a2 ::
  "host \<Rightarrow> (string \<Rightarrow> a2_state \<Rightarrow> ((int + error) \<times> a2_state) option) \<Rightarrow> string list \<Rightarrow> a2_state \<Rightarrow> a2_state step" where
  "exec_a2 h sched fs s = do {
     (e, s) \<leftarrow> exec_load h fs s;
     if e \<noteq> NO_ERROR then Some (handle_error e s)
     else do {
       (r, s) \<leftarrow> sched ''RR'' s;
       Some (case r of
           Inl c \<Rightarrow> (Exited c, s)
         | Inr e \<Rightarrow> if e \<noteq> NO_ERROR then handle_error e s else (Returned (junk s), s)) } }"

definition resetmem :: "a2_state \<Rightarrow> a2_state step" where
  "resetmem s = do { s \<leftarrow> ready_queue_destory (mem_init_a2 s); Some (Returned 0, s) }"

section \<open>The interpreter\<close>

text \<open>
  The parser keeps the words of the line in an array that is not cleared between the commands
  of the line. \<open>words\<close> is the part of the array that has been written; \<open>n\<close> is the
  number of words of this command, and the words behind them are those of earlier commands.
  \<open>strip_args\<close> is what the interpreter does to the array.
\<close>

abbreviation MAX_ARGS_SIZE_a2 :: nat where "MAX_ARGS_SIZE_a2 \<equiv> 7"

definition strip_args :: "string list \<Rightarrow> nat \<Rightarrow> string list" where
  "strip_args words n =
    (if n < 1 \<or> MAX_ARGS_SIZE_a2 < n then words else map strip_eol (take n words) @ drop n words)"

definition word_at :: "string list \<Rightarrow> nat \<Rightarrow> string option" where
  "word_at words i = (if i < length words then Some (words ! i) else None)"

definition interpreter_a2 ::
  "host \<Rightarrow> (string \<Rightarrow> a2_state \<Rightarrow> ((int + error) \<times> a2_state) option) \<Rightarrow> string list \<Rightarrow> nat \<Rightarrow> a2_state \<Rightarrow>
    a2_state step" where
  "interpreter_a2 h sched words n s =
    (if n < 1 then Some (handle_error TOO_FEW_TOKENS s)
     else if MAX_ARGS_SIZE_a2 < n then Some (handle_error TOO_MANY_TOKENS s)
     else
       let args = strip_args words n; cmd = args ! 0; few = Some (handle_error TOO_FEW_TOKENS s);
           many = Some (handle_error TOO_MANY_TOKENS s) in
       if cmd = ''help'' then if n > 1 then many else Some (help_a2 s)
       else if cmd = ''quit'' \<or> cmd = ''exit'' then if n > 1 then many else quit_a2 s
       else if cmd = ''set'' then
         if n < 3 then few else set_a2 (args ! 1) (join_words (drop 2 (take n args))) s
       else if cmd = ''print'' then
         if n < 2 then few else if n > 2 then many else Some (print_a2 (args ! 1) s)
       else if cmd = ''run'' then
         if n < 2 then few else if n > 2 then many else run_a2 h sched (args ! 1) s
       else if cmd = ''echo'' then if n > 2 then many else echo_a2 (word_at args 1) s
       else if cmd = ''my_ls'' then if n > 1 then many else Some (my_ls_a2 h s)
       else if cmd = ''my_mkdir'' then if n > 2 then many else my_mkdir_a2 h (word_at args 1) s
       else if cmd = ''my_touch'' then if n > 2 then many else my_touch_a2 h (word_at args 1) s
       else if cmd = ''my_cd'' then if n > 2 then many else Some (my_cd_a2 h (word_at args 1) s)
       else if cmd = ''exec'' then
         if n \<le> 1 then few else if n > 5 then many
         else if n = 2 \<or> n = 3 \<or> n = 4 then exec_a2 h sched (drop 1 (take n args)) s
         else Some (handle_error BAD_COMMAND s)
       else if cmd = ''resetmem'' then if n > 1 then many else resetmem s
       else Some (handle_error BAD_COMMAND s))"

section \<open>Splitting a line into commands\<close>

text \<open>After these outcomes of a command the rest of the line is not executed.\<close>

fun stops :: "outcome \<Rightarrow> bool" where
  "stops (Returned c) \<longleftrightarrow> c = - 1"
| "stops (Exited c) \<longleftrightarrow> True"

text \<open>
  The loop of \<open>parseInput\<close>, on the rest of the line. When the next word is empty the loop goes
  on without having moved: that ends it at the end of the line, and never at a semicolon.
\<close>

partial_function (option) parse_loop_a2 ::
  "(string list \<Rightarrow> nat \<Rightarrow> a2_state \<Rightarrow> a2_state step) \<Rightarrow> string \<Rightarrow> string list \<Rightarrow> nat \<Rightarrow> a2_state \<Rightarrow> a2_state step"
where
  "parse_loop_a2 interp ui words w s =
    (if ui = [] \<or> hd ui = newline then interp words w s
     else
       let ui = dropWhile (\<lambda>c. c = space) ui in
       if ui = [] then interp words w s
       else
         let tmp = takeWhile word_char ui; rest = dropWhile word_char ui in
         if 200 \<le> length tmp then None
         else if tmp = [] then parse_loop_a2 interp ui words w s
         else if 100 \<le> w then None
         else
           let words = take w words @ tmp # drop (Suc w) words in
           if rest \<noteq> [] \<and> hd rest = semicolon then do {
             (r, s) \<leftarrow> interp words (Suc w) s;
             if stops r then Some (r, s)
             else parse_loop_a2 interp (dropWhile (\<lambda>c. c = space) (tl rest)) (strip_args words (Suc w)) 0 s }
           else parse_loop_a2 interp (tl rest) words (Suc w) s)"

primrec parseInput_a2 :: "nat \<Rightarrow> host \<Rightarrow> string \<Rightarrow> a2_state \<Rightarrow> a2_state step" where
  "parseInput_a2 0 h ui s = None"
| "parseInput_a2 (Suc n) h ui s =
    (if 1000 \<le> length ui then None
     else parse_loop_a2 (interpreter_a2 h (schedule_by_policy n (parseInput_a2 n h)))
            (dropWhile (\<lambda>c. c = space) ui) [] 0 s)"

section \<open>The main loop\<close>

text \<open>\<open>main\<close>, on the lines of its input; \<open>tty\<close> tells whether the input is a terminal. After
  the last line the program waits for more.\<close>

fun main_loop_a2 :: "nat \<Rightarrow> host \<Rightarrow> bool \<Rightarrow> string list \<Rightarrow> a2_state \<Rightarrow> a2_state step" where
  "main_loop_a2 n h tty [] s = Some (Returned 0, s)"
| "main_loop_a2 n h tty (l # ls) s = do {
     let s = (if tty then emit_a2 (Raw ''$ '') s else s);
     if l = [] then main_loop_a2 n h tty ls s
     else do {
       (r, s) \<leftarrow> parseInput_a2 n h l s;
       case r of
         Exited c \<Rightarrow> Some (Exited c, s)
       | Returned c \<Rightarrow> if c = - 1 then Some (Exited 99, s) else main_loop_a2 n h tty ls s } }"

definition main_a2 :: "nat \<Rightarrow> host \<Rightarrow> bool \<Rightarrow> string list \<Rightarrow> a2_state \<Rightarrow> a2_state step" where
  "main_a2 n h tty ls s =
    (let s = init_store h s;
         s = emit_a2 (Out ''Shell v2.0'') s;
         s = emit_a2 (Out (''Frame Store Size = '' @ show_nat (frame_size s) @ ''; Variable Store Size = '' @
                show_nat (var_mem_size s))) s
     in main_loop_a2 n h tty ls (mem_init_a2 s))"

section \<open>Lemmas\<close>

text \<open>The parser, word by word.\<close>

lemma parse_word:
  assumes "word_ok w" and "length w < 200" and "k < 100" and "c = space \<or> c = newline"
  shows "parse_loop_a2 interp (w @ c # cs) words k s =
    parse_loop_a2 interp cs (take k words @ w # drop (Suc k) words) (Suc k) s"
proof -
  have w: "w \<noteq> []" "\<forall>x \<in> set w. word_char x" "hd w \<noteq> newline" "hd w \<noteq> space"
    using assms(1) by (cases w; auto simp: word_ok_def word_char_def)+
  have "dropWhile (\<lambda>c. c = space) (w @ c # cs) = w @ c # cs"
    using w by (cases w) auto
  moreover have "takeWhile word_char (w @ c # cs) = w" "dropWhile word_char (w @ c # cs) = c # cs"
    using w(2) assms(4) by (auto simp: takeWhile_append dropWhile_append word_char_def)
  ultimately show ?thesis
    using w assms by (subst parse_loop_a2.simps) (auto simp: Let_def hd_append)
qed

lemma parse_command:
  assumes "word_ok w" and "length w < 200" and "k < 100"
  shows "parse_loop_a2 interp (w @ semicolon # cs) words k s = do {
     (r, t) \<leftarrow> interp (take k words @ w # drop (Suc k) words) (Suc k) s;
     if stops r then Some (r, t)
     else parse_loop_a2 interp (dropWhile (\<lambda>c. c = space) cs)
            (strip_args (take k words @ w # drop (Suc k) words) (Suc k)) 0 t }"
proof -
  have w: "w \<noteq> []" "\<forall>x \<in> set w. word_char x" "hd w \<noteq> newline" "hd w \<noteq> space"
    using assms(1) by (cases w; auto simp: word_ok_def word_char_def)+
  have "dropWhile (\<lambda>c. c = space) (w @ semicolon # cs) = w @ semicolon # cs"
    using w by (cases w) auto
  moreover have "takeWhile word_char (w @ semicolon # cs) = w"
      "dropWhile word_char (w @ semicolon # cs) = semicolon # cs"
    using w(2) by (auto simp: takeWhile_append dropWhile_append word_char_def)
  ultimately show ?thesis
    using w assms by (subst parse_loop_a2.simps) (simp add: Let_def hd_append word_char_def cong: if_cong)
qed

lemma parse_end: "ui = [] \<or> hd ui = newline \<Longrightarrow> parse_loop_a2 interp ui words k s = interp words k s"
  by (subst parse_loop_a2.simps) simp

text \<open>All words of a command but the last.\<close>

lemma parse_words:
  assumes "\<forall>w \<in> set ws. word_ok w \<and> length w < 200" and "k + length ws < 100" and "k \<le> length words"
    and "v \<noteq> []"
  shows "parse_loop_a2 interp (join_words (ws @ [v]) @ cs) words k s =
    parse_loop_a2 interp (v @ cs) (take k words @ ws @ drop (k + length ws) words) (k + length ws) s"
  using assms(1-3)
proof (induction ws arbitrary: k words)
  case Nil
  then show ?case by simp
next
  case (Cons w ws)
  have "join_words ((w # ws) @ [v]) @ cs = w @ space # (join_words (ws @ [v]) @ cs)"
    by (cases ws) simp_all
  then show ?case
    using Cons.prems Cons.IH [of "Suc k" "take k words @ w # drop (Suc k) words"] by (simp add: parse_word ac_simps)
qed

text \<open>A command of plain words.\<close>

definition command_ok :: "string list \<Rightarrow> bool" where
  "command_ok ws \<longleftrightarrow> ws \<noteq> [] \<and> length ws \<le> 100 \<and>
     (\<forall>w \<in> set ws. word_ok w \<and> carriage_return \<notin> set w \<and> length w < 200)"

lemma command_snoc:
  assumes "command_ok ws"
  obtains us v where "ws = us @ [v]" "\<forall>w \<in> set us. word_ok w \<and> length w < 200" "length us < 100"
    "word_ok v" "length v < 200" "v \<noteq> []"
  using assms by (cases ws rule: rev_cases) (auto simp: command_ok_def word_ok_def)

lemma strip_command:
  assumes "command_ok ws"
  shows "strip_args (ws @ st) (length ws) = ws @ st"
proof -
  have "map strip_eol ws = ws"
    using assms by (intro map_idI strip_word) (auto simp: command_ok_def)
  then show ?thesis by (simp add: strip_args_def)
qed

lemma parse_command_line:
  assumes "command_ok ws" and "c = newline"
  shows "parse_loop_a2 interp (join_words ws @ [c]) words 0 s = interp (ws @ drop (length ws) words) (length ws) s"
proof -
  obtain us v where ws: "ws = us @ [v]" "\<forall>w \<in> set us. word_ok w \<and> length w < 200" "length us < 100"
    "word_ok v" "length v < 200" "v \<noteq> []" using command_snoc [OF assms(1)] .
  from ws assms(2) show ?thesis
    using parse_word [of v "length us" c interp "[]"] parse_words [of us 0 words v interp "[c]" s]
    by (simp add: parse_end)
qed

lemma parse_command_semicolon:
  assumes "command_ok ws"
  shows "parse_loop_a2 interp (join_words ws @ semicolon # cs) [] 0 s = do {
     (r, t) \<leftarrow> interp ws (length ws) s;
     if stops r then Some (r, t)
     else parse_loop_a2 interp (dropWhile (\<lambda>c. c = space) cs) ws 0 t }"
proof -
  obtain us v where ws: "ws = us @ [v]" "\<forall>w \<in> set us. word_ok w \<and> length w < 200" "length us < 100"
    "word_ok v" "length v < 200" "v \<noteq> []" using command_snoc [OF assms] .
  from ws show ?thesis
    using parse_command [of v "length us" interp cs us s] parse_words [of us 0 "[]" v interp "semicolon # cs" s]
      strip_command [OF assms, of "[]"]
    by (simp cong: if_cong)
qed

lemma command_start:
  assumes "command_ok ws"
  shows "dropWhile (\<lambda>c. c = space) (join_words ws @ cs) = join_words ws @ cs"
  using assms by (intro join_words_hd) (auto simp: command_ok_def)

text \<open>The words of earlier commands are not seen by a command that has two words or more.\<close>

lemma interpreter_stale:
  assumes "2 \<le> length vs \<or> st = []"
  shows "interpreter_a2 h sched (vs @ st) (length vs) s = interpreter_a2 h sched vs (length vs) s"
proof (cases "length vs < 1 \<or> MAX_ARGS_SIZE_a2 < length vs")
  case True
  then show ?thesis by (auto simp: interpreter_a2_def)
next
  case False
  have a: "strip_args (vs @ st) (length vs) = map strip_eol vs @ st" "strip_args vs (length vs) = map strip_eol vs"
    using False by (auto simp: strip_args_def)
  have w: "word_at (map strip_eol vs @ st) 1 = word_at (map strip_eol vs) 1"
    using assms by (auto simp: word_at_def nth_append)
  have n: "(map strip_eol vs @ st) ! 0 = map strip_eol vs ! 0"
    using False by (simp add: nth_append)
  have m: "(map strip_eol vs @ st) ! 1 = map strip_eol vs ! 1" if "2 \<le> length vs"
    using that by (simp add: nth_append)
  have t: "take (length vs) (map strip_eol vs @ st) = map strip_eol vs" "take (length vs) (map strip_eol vs) = map strip_eol vs"
    by simp_all
  show ?thesis
    unfolding interpreter_a2_def a Let_def t n w using m by (cases "2 \<le> length vs") (simp_all only: if_cancel, auto)
qed

lemma parse_semicolon_hangs: "parse_loop_a2 interp (semicolon # cs) words k s = None"
proof (rule ccontr)
  assume "parse_loop_a2 interp (semicolon # cs) words k s \<noteq> None"
  then obtain r where r: "parse_loop_a2 interp (semicolon # cs) words k s = Some r" by auto
  have "ui \<noteq> semicolon # cs" if "parse_loop_a2 interp ui words k s = Some r" for ui words k s r
    using that
    by (rule parse_loop_a2.raw_induct [where P = "\<lambda>interp ui words k s r. ui \<noteq> semicolon # cs", rotated])
      (rule notI, simp add: Let_def word_char_def, metis)
  from this [OF r] show False by simp
qed

text \<open>What paging leaves alone in the block of the process itself.\<close>

definition layout :: "pcb \<Rightarrow> nat \<times> nat \<times> nat \<times> nat \<times> string \<times> string" where
  "layout p = (PC p, line_offset p, page_count p, offset_end p, filename p, fp p)"

lemma layout_updates [simp]:
  "layout (p\<lparr>page_table := x\<rparr>) = layout p" "layout (p\<lparr>valid_page := v\<rparr>) = layout p"
  "layout (clear_valid p l) = layout p"
  by (simp_all add: layout_def clear_valid_def split: option.split)

lemma layout_after_clear:
  assumes "pcbs w a = Some p"
  shows "\<exists>q. pcbs (case r of None \<Rightarrow> w | Some b \<Rightarrow> update_pcb b (\<lambda>q. clear_valid q l) w) a = Some q \<and> layout q = layout p"
  using assms by (cases r) (auto simp: update_pcb_def)

lemma ready_update_pcb [simp]: "ready (update_pcb a f s) = ready s" "ready (emit_a2 e s) = ready s"
  by (simp_all add: update_pcb_def emit_a2_def)

lemma replace_page_layout:
  assumes "replace_page a page s = Some t" and "pcbs s a = Some p"
  shows "(\<exists>q. pcbs t a = Some q \<and> layout q = layout p) \<and> ready t = ready s"
  using assms
proof (cases rule: replace_page_cases)
  case (free i b u)
  with copy_to_mem_frames [OF free(2)] assms(2) show ?thesis by (simp add: update_pcb_def)
next
  case (evict ub v w b u)
  let ?l = "getOldest s + var_mem_size s"
  let ?r = "if var (shellmem w ! ?l) = filename p then Some a else find_process (var (shellmem w ! ?l)) w"
  let ?w = "case ?r of None \<Rightarrow> w | Some b \<Rightarrow> update_pcb b (\<lambda>q. clear_valid q (int ?l)) w"
  have v: "frames_only s v" "pcbs v = pcbs s" "ready v = ready s"
    using print_victim_frames [OF evict(2)] by (auto simp: frames_only_def)
  have w: "pcbs w = pcbs s" "ready w = ready s"
    using mem_free_frames [OF evict(3) [unfolded mem_free_lines_between_def]] v frames_only_eqs(2) [OF v(1)] by simp_all
  obtain q where q: "pcbs ?w a = Some q" "layout q = layout p"
    using layout_after_clear [of w a p] w(1) assms(2) by metis
  have "ready ?w = ready s" using w(2) by (simp split: option.split)
  with q copy_to_mem_frames [OF evict(4)] evict(5) show ?thesis by (simp add: update_pcb_def)
qed

lemma load_file_layout:
  assumes "load_file a s = Some (r, t)" and "pcbs s a = Some p" and "PC p = 0"
  shows "(\<exists>q. pcbs t a = Some q \<and> layout q = layout p) \<and> ready t = ready s \<and> frames_only s t"
proof -
  obtain u where u: "replace_page a 0 s = Some u" using assms(1) by (auto simp: load_file_def elim!: bind_SomeE)
  obtain q where q: "pcbs u a = Some q" "layout q = layout p" "ready u = ready s"
    using replace_page_layout [OF u assms(2)] by blast
  have f: "frames_only s u" by (rule replace_page_frames [OF u])
  show ?thesis
  proof (cases "page_count q > 1")
    case False
    then show ?thesis using assms(1) u q f by (simp add: load_file_def)
  next
    case True
    let ?u = "update_pcb a (\<lambda>p. p\<lparr>PC := 1\<rparr>) u"
    obtain v where v: "replace_page a 1 ?u = Some v" and t: "t = update_pcb a (\<lambda>p. p\<lparr>PC := 0\<rparr>) v"
      using True assms(1) u q(1) by (auto simp: load_file_def elim!: bind_SomeE)
    have "pcbs ?u a = Some (q\<lparr>PC := 1\<rparr>)" using q(1) by (simp add: update_pcb_def)
    from replace_page_layout [OF v this] obtain q' where
      q': "pcbs v a = Some q'" "layout q' = layout (q\<lparr>PC := 1\<rparr>)" "ready v = ready s" using q(3) by auto
    have "pcbs t a = Some (q'\<lparr>PC := 0\<rparr>)" using t q'(1) by (simp add: update_pcb_def)
    moreover have "layout (q'\<lparr>PC := 0\<rparr>) = layout p" using q(2) q'(2) assms(3) by (simp add: layout_def)
    moreover have "frames_only s t"
      using frames_only_trans [OF f] frames_only_trans [OF frames_only_update(4) replace_page_frames [OF v]]
        frames_only_update(4) t frames_only_trans by blast
    ultimately show ?thesis using t q'(3) by simp
  qed
qed

lemma page_arithmetic:
  assumes "0 < n"
  shows "3 * (page_count_of n - 1) + offset_end_of n = n" and "1 \<le> offset_end_of n" and "offset_end_of n \<le> 3"
    and "page_count_of n = DIV_ROUND_UP n 3"
  using assms unfolding page_count_of_def offset_end_of_def DIV_ROUND_UP_def by (simp_all, presburger+)

section \<open>Properties\<close>

definition demo_shell :: a2_state where
  "demo_shell = mem_init_a2 (demo_a2\<lparr>var_mem_size := 3, frame_size := 9, pcbs := Map.empty, next_pcb := 0, ready := []\<rparr>)"

text \<open>
  C30: A new process is laid out over pages of three lines so that its end mark is right. The
  block \<open>process_initialize\<close> makes starts at the first line; its last page and the offset in
  it together address exactly as many lines as were counted in the program, one more than it
  has newlines; the process becomes the last of the ready queue; no variable changes.
\<close>

theorem process_initialize_layout:
  assumes "process_initialize h name s = Some (NO_ERROR, t)" and "open_read h (trace_a2 s) name = Some content"
  shows "\<exists>p. pcbs t (next_pcb s) = Some p \<and> PC p = 0 \<and> line_offset p = 0 \<and> fp p = backing_copy content \<and>
    3 * (page_count p - 1) + offset_end p = line_count content \<and> 1 \<le> offset_end p \<and> offset_end p \<le> 3 \<and>
    ready t = ready s @ [next_pcb s] \<and> mem_get_value_a2 x t = mem_get_value_a2 x s"
proof -
  let ?f = "''./backing_store/'' @ name @ show_nat (getPID s)"
  let ?s = "emit_a2 (Touch ?f) s"
  let ?n = "line_count content"
  define m where "m = makePCB (page_count_of ?n) (offset_end_of ?n) (replicate (page_count_of ?n) (junk ?s))
    (replicate (page_count_of ?n) False) ?f (backing_copy content) ?s"
  obtain a u where m: "m = (a, u)" by (cases m)
  from m have a: "a = next_pcb s" and u: "frames_only s u" "ready u = ready s"
    by (auto simp: m_def makePCB_def generatePID_def emit_a2_def frames_only_def vars_a2_def Let_def)
  from m obtain p where p: "pcbs u a = Some p" "PC p = 0" "line_offset p = 0" "page_count p = page_count_of ?n"
      "offset_end p = offset_end_of ?n" "fp p = backing_copy content"
    by (auto simp: m_def makePCB_def generatePID_def emit_a2_def Let_def)
  obtain v where v: "load_file a u = Some (0, v)" "ready_queue_add_to_tail a v = Some t"
    using assms m unfolding m_def process_initialize_def
    by (auto simp: Let_def elim!: bind_SomeE split: if_splits)
  obtain q where q: "pcbs v a = Some q" "layout q = layout p" "ready v = ready u" "frames_only u v"
    using load_file_layout [OF v(1) p(1) p(2)] by blast
  have t: "t = v\<lparr>ready := ready v @ [a]\<rparr>"
    using v(2) by (auto simp: ready_queue_add_to_tail_def elim!: bind_SomeE split: if_splits)
  have "vars_a2 t = vars_a2 v" using t by (simp add: vars_a2_def)
  then have "vars_a2 t = vars_a2 s" using frames_only_eqs(1) [OF q(4)] frames_only_eqs(1) [OF u(1)] by simp
  moreover have "0 < ?n" by (simp add: line_count_def)
  ultimately show ?thesis
    using page_arithmetic [of ?n] a t q p u(2) by (auto simp: layout_def get_vars)
qed

theorem process_initialize_layout_witness:
  "\<exists>t p. process_initialize demo_host ''p'' demo_shell = Some (NO_ERROR, t) \<and> pcbs t 0 = Some p \<and>
     3 * (page_count p - 1) + offset_end p = 3 \<and> ready t = [0]"
proof -
  have "map_option fst (process_initialize demo_host ''p'' demo_shell) = Some NO_ERROR" by code_simp
  then obtain t where t: "process_initialize demo_host ''p'' demo_shell = Some (NO_ERROR, t)" by auto
  have o: "open_read demo_host (trace_a2 demo_shell) ''p'' = Some (''set a 1'' @ [newline] @ ''print a'' @ [newline])"
    by (simp add: demo_host_def)
  have "line_count (''set a 1'' @ [newline] @ ''print a'' @ [newline]) = 3" "next_pcb demo_shell = 0" "ready demo_shell = []"
    by code_simp+
  with process_initialize_layout [OF t o] t show ?thesis by auto
qed

text \<open>
  C29: A semicolon separates commands: a line with two commands does what the two lines do one
  after the other, unless the first ends the program or returns -1. The second command has to
  have at least two words when the first had more than one, the words are plain and shorter than 200
  characters, at most 100 in each command, and the line is shorter than 990 characters.
\<close>

theorem semicolon_separates:
  assumes "command_ok ws" and "command_ok vs" and "length (join_words ws) + k + length (join_words vs) < 990"
    and "2 \<le> length vs \<or> length ws = 1"
  shows "parseInput_a2 (Suc n) h (join_words ws @ [semicolon] @ replicate k space @ join_words vs @ [newline]) s =
    do {
      (r, t) \<leftarrow> parseInput_a2 (Suc n) h (join_words ws @ [newline]) s;
      if stops r then Some (r, t) else parseInput_a2 (Suc n) h (join_words vs @ [newline]) t }"
proof -
  let ?i = "interpreter_a2 h (schedule_by_policy n (parseInput_a2 n h))"
  have d: "drop (length vs) ws = [] \<or> 2 \<le> length vs" using assms(2,4) by (cases vs) (auto simp: command_ok_def)
  have sp: "dropWhile (\<lambda>c. c = space) (replicate k space @ join_words vs @ [newline]) = join_words vs @ [newline]"
    using command_start [OF assms(2)] by (simp add: dropWhile_append)
  have one: "parseInput_a2 (Suc n) h (join_words us @ [newline]) t = ?i us (length us) t"
    if "command_ok us" "length (join_words us) < 990" for us t
    using that by (simp add: command_start parse_command_line)
  have st: "?i (vs @ drop (length vs) ws) (length vs) t = ?i vs (length vs) t" for t
    by (rule interpreter_stale) (use d in auto)
  have "parseInput_a2 (Suc n) h (join_words ws @ [semicolon] @ replicate k space @ join_words vs @ [newline]) s =
      parse_loop_a2 ?i (join_words ws @ semicolon # replicate k space @ join_words vs @ [newline]) [] 0 s"
    using assms(3) by (simp add: command_start [OF assms(1)])
  also have "\<dots> = do {
      (r, t) \<leftarrow> ?i ws (length ws) s; if stops r then Some (r, t) else ?i vs (length vs) t }"
    unfolding parse_command_semicolon [OF assms(1)] sp parse_command_line [OF assms(2) refl] st ..
  finally show ?thesis using assms(3) one [OF assms(1)] one [OF assms(2)] by (simp cong: if_cong)
qed

theorem semicolon_separates_witness:
  "parseInput_a2 3 demo_host (''set x 5; print x'' @ [newline]) demo_shell =
     do {
       (r, t) \<leftarrow> parseInput_a2 3 demo_host (''set x 5'' @ [newline]) demo_shell;
       if stops r then Some (r, t) else parseInput_a2 3 demo_host (''print x'' @ [newline]) t }"
  using semicolon_separates [of "[''set'', ''x'', ''5'']" "[''print'', ''x'']" 1 2 demo_host demo_shell]
  by (simp add: command_ok_def word_ok_def word_char_def numeral_3_eq_3 numeral_2_eq_2 cong: if_cong del: parseInput_a2.simps)

text \<open>
  A semicolon after a space hangs the shell: the parser reads an empty word before the
  semicolon, starts over without having moved, and does so for ever. Whatever the commands
  are, and whatever follows, no result is ever returned.
\<close>

theorem space_before_semicolon_hangs:
  assumes "command_ok ws" and "length ws < 100"
  shows "parseInput_a2 n h (join_words ws @ [space, semicolon] @ cs) s = None"
proof (cases n)
  case 0
  then show ?thesis by simp
next
  case (Suc m)
  obtain us v where ws: "ws = us @ [v]" "\<forall>w \<in> set us. word_ok w \<and> length w < 200" "length us < 100"
    "word_ok v" "length v < 200" "v \<noteq> []" using command_snoc [OF assms(1)] .
  have "parse_loop_a2 f (join_words ws @ space # semicolon # cs) [] 0 s = None" for f
    using ws parse_words [of us 0 "[]" v f "space # semicolon # cs" s] by (simp add: parse_word parse_semicolon_hangs)
  then show ?thesis using Suc by (simp add: command_start [OF assms(1)])
qed

theorem space_before_semicolon_hangs_witness:
  "parseInput_a2 100 demo_host (''print x ; print y'' @ [newline]) demo_shell = None"
  using space_before_semicolon_hangs [of "[''print'', ''x'']" 100 demo_host "'' print y'' @ [newline]" demo_shell]
  by (simp add: command_ok_def word_ok_def word_char_def del: parseInput_a2.simps)

text \<open>
  A command sees the words of the command before it on the line: \<open>echo\<close> without an
  argument, after \<open>set x v\<close> and a semicolon, prints the name \<open>x\<close>.
\<close>

theorem echo_stale_word:
  assumes "command_ok [''set'', x, v]" and "length x + length v < 900" and "take 1 x \<noteq> [dollar]"
  shows "parseInput_a2 (Suc n) h (join_words [''set'', x, v] @ [semicolon] @ ''echo'' @ [newline]) s =
    Some (Returned 0, emit_a2 (Out x) (mem_set_value_a2 x v s))"
proof -
  let ?i = "interpreter_a2 h (schedule_by_policy n (parseInput_a2 n h))"
  have e: "command_ok [''echo'']" by (simp add: command_ok_def word_ok_def word_char_def)
  have c: "map strip_eol [''set'', x, v] = [''set'', x, v]" "map strip_eol [''echo''] = [''echo'']"
    using strip_command [OF assms(1), of "[]"] strip_command [OF e, of "[]"] by (simp_all add: strip_args_def)
  have 1: "?i [''set'', x, v] 3 s = Some (Returned 0, mem_set_value_a2 x v s)"
    using c(1) assms(2) by (simp add: interpreter_a2_def strip_args_def set_a2_def Let_def)
  have 2: "?i [''echo'', x, v] 1 t = Some (Returned 0, emit_a2 (Out x) t)" for t
    using c(2) assms(3) by (simp add: interpreter_a2_def strip_args_def word_at_def echo_a2_def Let_def)
  have p: "parseInput_a2 (Suc n) h (join_words [''set'', x, v] @ [semicolon] @ ''echo'' @ [newline]) s =
      parse_loop_a2 ?i (join_words [''set'', x, v] @ semicolon # join_words [''echo''] @ [newline]) [] 0 s"
    using assms(2) command_start [OF assms(1)] by simp
  have 1: "?i [''set'', x, v] (length [''set'', x, v]) s = Some (Returned 0, mem_set_value_a2 x v s)"
    using 1 by (simp add: numeral_3_eq_3)
  show ?thesis
    unfolding p parse_command_semicolon [OF assms(1)] 1 command_start [OF e] parse_command_line [OF e refl]
    using 2 by simp
qed

theorem echo_stale_word_witness:
  "\<exists>t. parseInput_a2 1 demo_host (''set x 5;echo'' @ [newline]) demo_shell = Some (Returned 0, t) \<and>
     trace_a2 t = trace_a2 demo_shell @ [Out ''x'']"
  using echo_stale_word [of "''x''" "''5''" 0 demo_host demo_shell]
  by (simp add: command_ok_def word_ok_def word_char_def emit_a2_def mem_set_value_a2_def del: parseInput_a2.simps)

text \<open>
  A script that does not exist is not reported: \<open>run\<close> compares the error of
  \<open>process_initialize\<close> with 11, but a missing file is error 1. The command returns 1 and prints
  nothing; if programs wait in the ready queue it runs them.
\<close>

theorem run_missing_file_silent:
  assumes "open_read h (trace_a2 s) f = None"
  shows "run_a2 h sched f s = do {
      (r, t) \<leftarrow> sched ''FCFS'' s;
      Some (case r of Inl c \<Rightarrow> (Exited c, t) | Inr e \<Rightarrow> (Returned 1, t)) } \<and>
    (0 < n \<and> ready s = [] \<and> \<not> active s \<longrightarrow>
      run_a2 h (schedule_by_policy n parse) f s = Some (Returned 1, s))"
proof -
  have e: "error_code FILE_DOES_NOT_EXIST = 1" by simp
  have r: "run_a2 h sched f s = do {
      (r, t) \<leftarrow> sched ''FCFS'' s;
      Some (case r of Inl c \<Rightarrow> (Exited c, t) | Inr e \<Rightarrow> (Returned 1, t)) }" for sched
    unfolding run_a2_def process_initialize_def assms option.case bind.bind_lunit prod.case e by simp
  then show ?thesis
    by (cases n) (simp_all add: schedule_by_policy_def is_ready_empty_def)
qed

theorem run_missing_file_silent_witness:
  "run_a2 demo_host (schedule_by_policy 1 (\<lambda>l s. None)) ''nofile'' demo_shell = Some (Returned 1, demo_shell)"
proof -
  have "open_read demo_host (trace_a2 demo_shell) ''nofile'' = None" by (simp add: demo_host_def)
  moreover have "ready demo_shell = []" "\<not> active demo_shell" by code_simp+
  ultimately show ?thesis using run_missing_file_silent [THEN conjunct2, of demo_host demo_shell "''nofile''" 1] by blast
qed

end
