(* ===== verification/A3_List.thy ===== *)
theory A3_List
  imports Links
begin

text \<open>
  The doubly linked lists of the third shell: \<open>a3/linked_list.c\<close>. A list has two dummy
  nodes and a size; its nodes are cells with data. Nodes are never freed. The comparison
  function of a list is an argument of the functions that use it; it may fail.

  \<open>linked l h xs\<close> says that the list \<open>l\<close> holds the data \<open>xs\<close>; with it the lists are shown to
  be double-ended queues (the interpretation \<open>ll\<close>).
\<close>

section \<open>Nodes and lists\<close>

record 'd node = link +
  ndata :: "'d option"

record 'd node_heap =
  cells :: "nat \<Rightarrow> 'd node option"
  fresh :: nat

record linked_list =
  lsize :: int
  dummy_head :: nat
  dummy_tail :: nat

definition malloc_node :: "'d node_heap \<Rightarrow> nat \<times> 'd node_heap" where
  "malloc_node h = (let a = fresh h in
     (a, h\<lparr>fresh := Suc a, cells := (cells h)(a \<mapsto> \<lparr>nnext = None, nprev = None, ndata = None\<rparr>)\<rparr>))"

definition upd_cells :: "((nat \<Rightarrow> 'd node option) \<Rightarrow> (nat \<Rightarrow> 'd node option) option) \<Rightarrow> 'd node_heap \<Rightarrow> 'd node_heap option" where
  "upd_cells f h = map_option (\<lambda>c. h\<lparr>cells := c\<rparr>) (f (cells h))"

definition set_data :: "nat \<Rightarrow> 'd \<Rightarrow> (nat \<Rightarrow> 'd node option) \<Rightarrow> (nat \<Rightarrow> 'd node option) option" where
  "set_data p d c = map_option (\<lambda>n. c(p \<mapsto> n\<lparr>ndata := Some d\<rparr>)) (c p)"

definition node_data :: "nat \<Rightarrow> 'd node_heap \<Rightarrow> 'd option" where
  "node_data p h = Option.bind (cells h p) ndata"

section \<open>Operations\<close>

definition has_next :: "nat \<Rightarrow> 'd node_heap \<Rightarrow> bool option" where
  "has_next p h = map_option (\<lambda>n. nnext n \<noteq> None) (cells h p)"

definition next_node :: "nat \<Rightarrow> 'd node_heap \<Rightarrow> (nat \<times> nat option) option" where
  "next_node p h = map_option (\<lambda>n. (p, nnext n)) (cells h p)"

definition next_a3 :: "nat \<Rightarrow> 'd node_heap \<Rightarrow> ('d \<times> nat option) option" where
  "next_a3 p h = do { (r, q) \<leftarrow> next_node p h; d \<leftarrow> node_data r h; Some (d, q) }"

definition list_clear :: "linked_list \<Rightarrow> 'd node_heap \<Rightarrow> (linked_list \<times> 'd node_heap) option" where
  "list_clear l h = do {
     let l = l\<lparr>lsize := 0\<rparr>;
     h \<leftarrow> upd_cells (set_next (dummy_head l) (Some (dummy_tail l))) h;
     h \<leftarrow> upd_cells (set_prev (dummy_tail l) (Some (dummy_head l))) h;
     Some (l, h) }"

definition add_tail :: "'d \<Rightarrow> linked_list \<times> 'd node_heap \<Rightarrow> (linked_list \<times> 'd node_heap) option" where
  "add_tail d lh = do {
     let (l, h) = lh;
     let (new_node, h) = malloc_node h;
     t \<leftarrow> cells h (dummy_tail l);
     old_tail \<leftarrow> nprev t;
     h \<leftarrow> upd_cells (set_data new_node d) h;
     h \<leftarrow> upd_cells (set_next old_tail (Some new_node)) h;
     h \<leftarrow> upd_cells (set_prev new_node (Some old_tail)) h;
     h \<leftarrow> upd_cells (set_next new_node (Some (dummy_tail l))) h;
     h \<leftarrow> upd_cells (set_prev (dummy_tail l) (Some new_node)) h;
     Some (l\<lparr>lsize := lsize l + 1\<rparr>, h) }"

definition add_head :: "'d \<Rightarrow> linked_list \<times> 'd node_heap \<Rightarrow> (linked_list \<times> 'd node_heap) option" where
  "add_head d lh = do {
     let (l, h) = lh;
     let (new_node, h) = malloc_node h;
     t \<leftarrow> cells h (dummy_head l);
     old_head \<leftarrow> nnext t;
     h \<leftarrow> upd_cells (set_data new_node d) h;
     h \<leftarrow> upd_cells (set_prev old_head (Some new_node)) h;
     h \<leftarrow> upd_cells (set_next new_node (Some old_head)) h;
     h \<leftarrow> upd_cells (set_prev new_node (Some (dummy_head l))) h;
     h \<leftarrow> upd_cells (set_next (dummy_head l) (Some new_node)) h;
     Some (l\<lparr>lsize := lsize l + 1\<rparr>, h) }"

text \<open>Taking a node out of its list, and its data.\<close>

definition take_out :: "nat \<Rightarrow> linked_list \<times> 'd node_heap \<Rightarrow> ('d \<times> linked_list \<times> 'd node_heap) option" where
  "take_out p lh = do {
     let (l, h) = lh;
     h \<leftarrow> upd_cells (unlink p) h;
     d \<leftarrow> node_data p h;
     Some (d, l\<lparr>lsize := lsize l - 1\<rparr>, h) }"

text \<open>The result is \<open>Inl\<close> the message, and then the program exits, when the list is empty.\<close>

definition pop_head :: "linked_list \<times> 'd node_heap \<Rightarrow> ((string + 'd) \<times> linked_list \<times> 'd node_heap) option" where
  "pop_head lh =
    (if lsize (fst lh) \<le> 0 then Some (Inl ''Trying to pop head element from an empty linked list'', lh)
     else do {
       t \<leftarrow> cells (snd lh) (dummy_head (fst lh));
       to_be_deleted \<leftarrow> nnext t;
       (d, lh) \<leftarrow> take_out to_be_deleted lh;
       Some (Inr d, lh) })"

definition pop_tail :: "linked_list \<times> 'd node_heap \<Rightarrow> ((string + 'd) \<times> linked_list \<times> 'd node_heap) option" where
  "pop_tail lh =
    (if lsize (fst lh) \<le> 0 then Some (Inl ''Trying to pop tail element from an empty linked list'', lh)
     else do {
       t \<leftarrow> cells (snd lh) (dummy_tail (fst lh));
       to_be_deleted \<leftarrow> nprev t;
       (d, lh) \<leftarrow> take_out to_be_deleted lh;
       Some (Inr d, lh) })"

text \<open>\<open>i\<close> steps along the list.\<close>

fun walk :: "nat \<Rightarrow> nat \<Rightarrow> 'd node_heap \<Rightarrow> nat option" where
  "walk 0 p h = Some p"
| "walk (Suc i) p h = do { n \<leftarrow> cells h p; q \<leftarrow> nnext n; walk i q h }"

text \<open>The result is \<open>None\<close>, the null pointer, and a message is printed, when the index is not valid.\<close>

definition get_node_by_index :: "linked_list \<times> 'd node_heap \<Rightarrow> int \<Rightarrow> nat option option" where
  "get_node_by_index lh index =
    (if lsize (fst lh) \<le> index \<or> index < 0 then Some None
     else do {
       t \<leftarrow> cells (snd lh) (dummy_head (fst lh));
       p \<leftarrow> nnext t;
       map_option Some (walk (nat index) p (snd lh)) })"

text \<open>
  The search ends only at the null pointer behind \<open>dummy_tail\<close>, and so asks for the data of
  \<open>dummy_tail\<close> when nothing is found; that is \<open>None\<close> here, since it was never written.
\<close>

partial_function (option) find_node ::
  "('d \<Rightarrow> 'd \<Rightarrow> bool option) \<Rightarrow> 'd \<Rightarrow> nat option \<Rightarrow> 'd node_heap \<Rightarrow> nat option option" where
  "find_node equal target cur h =
    (case cur of
       None \<Rightarrow> Some None
     | Some p \<Rightarrow> do {
         n \<leftarrow> cells h p;
         d \<leftarrow> ndata n;
         found \<leftarrow> equal target d;
         if found then Some (Some p) else find_node equal target (nnext n) h })"

definition get_node_by_value ::
  "('d \<Rightarrow> 'd \<Rightarrow> bool option) \<Rightarrow> linked_list \<times> 'd node_heap \<Rightarrow> 'd \<Rightarrow> nat option option" where
  "get_node_by_value equal lh target = do {
     t \<leftarrow> cells (snd lh) (dummy_head (fst lh));
     find_node equal target (nnext t) (snd lh) }"

definition get_by_index :: "linked_list \<times> 'd node_heap \<Rightarrow> int \<Rightarrow> 'd option" where
  "get_by_index lh index = do { q \<leftarrow> get_node_by_index lh index; p \<leftarrow> q; node_data p (snd lh) }"

definition get_by_value ::
  "('d \<Rightarrow> 'd \<Rightarrow> bool option) \<Rightarrow> linked_list \<times> 'd node_heap \<Rightarrow> 'd \<Rightarrow> 'd option" where
  "get_by_value equal lh elem = do { q \<leftarrow> get_node_by_value equal lh elem; p \<leftarrow> q; node_data p (snd lh) }"

definition remove_elem ::
  "('d \<Rightarrow> 'd \<Rightarrow> bool option) \<Rightarrow> 'd \<Rightarrow> linked_list \<times> 'd node_heap \<Rightarrow> ('d \<times> linked_list \<times> 'd node_heap) option" where
  "remove_elem equal d lh = do { q \<leftarrow> get_node_by_value equal lh d; p \<leftarrow> q; take_out p lh }"

definition swap :: "nat \<Rightarrow> nat \<Rightarrow> 'd node_heap \<Rightarrow> 'd node_heap option" where
  "swap node1 node2 h = do {
     n1 \<leftarrow> cells h node1;
     n2 \<leftarrow> cells h node2;
     let h = h\<lparr>cells := (cells h)(node1 \<mapsto> n1\<lparr>ndata := ndata n2\<rparr>)\<rparr>;
     n2 \<leftarrow> cells h node2;
     Some (h\<lparr>cells := (cells h)(node2 \<mapsto> n2\<lparr>ndata := ndata n1\<rparr>)\<rparr>) }"

definition list_init :: "'d node_heap \<Rightarrow> (linked_list \<times> 'd node_heap) option" where
  "list_init h = do {
     let (hd, h) = malloc_node h;
     let (tl, h) = malloc_node h;
     h \<leftarrow> upd_cells (set_next tl None) h;
     h \<leftarrow> upd_cells (set_next hd (Some tl)) h;
     h \<leftarrow> upd_cells (set_prev tl (Some hd)) h;
     Some (\<lparr>lsize = 0, dummy_head = hd, dummy_tail = tl\<rparr>, h) }"

section \<open>The lists as sequences\<close>

definition linked_at :: "nat list \<Rightarrow> linked_list \<times> 'd node_heap \<Rightarrow> 'd list \<Rightarrow> bool" where
  "linked_at ps lh xs \<longleftrightarrow> (case lh of (l, h) \<Rightarrow>
     chain (cells h) (dummy_head l # ps @ [dummy_tail l]) \<and> distinct (dummy_head l # ps @ [dummy_tail l]) \<and>
     map (\<lambda>p. node_data p h) ps = map Some xs \<and> lsize l = int (length xs) \<and>
     nx (cells h) (dummy_tail l) = None \<and> node_data (dummy_tail l) h = None \<and> (\<forall>p \<in> dom (cells h). p < fresh h))"

definition linked :: "linked_list \<times> 'd node_heap \<Rightarrow> 'd list \<Rightarrow> bool" where
  "linked lh xs \<longleftrightarrow> (\<exists>ps. linked_at ps lh xs)"

text \<open>The nodes of a list, and heaps that agree on the nodes that are not in a set.\<close>

definition own :: "nat list \<Rightarrow> linked_list \<Rightarrow> nat set" where
  "own ps l = set (dummy_head l # ps @ [dummy_tail l])"

definition frame_off :: "nat set \<Rightarrow> 'd node_heap \<Rightarrow> 'd node_heap \<Rightarrow> bool" where
  "frame_off W h h' \<longleftrightarrow> (\<forall>x \<in> dom (cells h) - W. x \<in> dom (cells h') \<and> nx (cells h') x = nx (cells h) x \<and>
     pv (cells h') x = pv (cells h) x \<and> node_data x h' = node_data x h)"

lemma upd_next_ok:
  assumes "p \<in> dom (cells h)"
  obtains h' where "upd_cells (set_next p q) h = Some h'" and "dom (cells h') = dom (cells h)"
    and "nx (cells h') = (nx (cells h))(p := q)" and "pv (cells h') = pv (cells h)" and "fresh h' = fresh h"
    and "(\<lambda>x. node_data x h') = (\<lambda>x. node_data x h)"
proof -
  obtain n where n: "cells h p = Some n" using assms by auto
  show thesis
    by (rule that [of "h\<lparr>cells := (cells h)(p \<mapsto> n\<lparr>nnext := q\<rparr>)\<rparr>"])
      (use n in \<open>auto simp: upd_cells_def set_next_def nx_def pv_def node_data_def fun_eq_iff\<close>)
qed

lemma upd_prev_ok:
  assumes "p \<in> dom (cells h)"
  obtains h' where "upd_cells (set_prev p q) h = Some h'" and "dom (cells h') = dom (cells h)"
    and "pv (cells h') = (pv (cells h))(p := q)" and "nx (cells h') = nx (cells h)" and "fresh h' = fresh h"
    and "(\<lambda>x. node_data x h') = (\<lambda>x. node_data x h)"
proof -
  obtain n where n: "cells h p = Some n" using assms by auto
  show thesis
    by (rule that [of "h\<lparr>cells := (cells h)(p \<mapsto> n\<lparr>nprev := q\<rparr>)\<rparr>"])
      (use n in \<open>auto simp: upd_cells_def set_prev_def nx_def pv_def node_data_def fun_eq_iff\<close>)
qed

lemma upd_data_ok:
  assumes "p \<in> dom (cells h)"
  obtains h' where "upd_cells (set_data p d) h = Some h'" and "dom (cells h') = dom (cells h)"
    and "pv (cells h') = pv (cells h)" and "nx (cells h') = nx (cells h)" and "fresh h' = fresh h"
    and "(\<lambda>x. node_data x h') = (\<lambda>x. node_data x h)(p := Some d)"
proof -
  obtain n where n: "cells h p = Some n" using assms by auto
  show thesis
    by (rule that [of "h\<lparr>cells := (cells h)(p \<mapsto> n\<lparr>ndata := Some d\<rparr>)\<rparr>"])
      (use n in \<open>auto simp: upd_cells_def set_data_def nx_def pv_def node_data_def fun_eq_iff\<close>)
qed

lemma malloc_node_ok:
  assumes "\<forall>p \<in> dom (cells h). p < fresh h"
  obtains h' where "malloc_node h = (fresh h, h')" and "dom (cells h') = insert (fresh h) (dom (cells h))"
    and "\<forall>p \<in> dom (cells h). nx (cells h') p = nx (cells h) p" and "\<forall>p \<in> dom (cells h). pv (cells h') p = pv (cells h) p"
    and "\<forall>p \<in> dom (cells h). node_data p h' = node_data p h"
    and "fresh h' = Suc (fresh h)" and "fresh h \<notin> dom (cells h)"
proof -
  have "fresh h \<notin> dom (cells h)" using assms by blast
  then show thesis
    by (intro that [of "snd (malloc_node h)"])
      (auto simp: malloc_node_def Let_def nx_def pv_def node_data_def)
qed

text \<open>The node behind and before a node of a chain.\<close>

lemma chain_ends:
  assumes "chain c (a # xs @ [b])"
  shows "\<exists>n. c a = Some n \<and> nnext n = Some (hd (xs @ [b]))" and "\<exists>n. c b = Some n \<and> nprev n = Some (last (a # xs))"
proof -
  show "\<exists>n. c a = Some n \<and> nnext n = Some (hd (xs @ [b]))"
    using assms by (cases xs) (auto simp: nx_def)
  have "chain c ((butlast (a # xs)) @ last (a # xs) # [b])"
    using assms by (metis append_butlast_last_id append_Cons append_assoc append_Nil list.distinct(1))
  then have "chain c [last (a # xs), b]" using chain_append by blast
  then show "\<exists>n. c b = Some n \<and> nprev n = Some (last (a # xs))" by (auto simp: pv_def)
qed

text \<open>A list whose heap got one more node, linked in between two nodes that were neighbours.\<close>

lemma linked_insert:
  assumes "linked_at (us @ vs) (l, h) (xs @ ys)" and "length us = length xs"
    and "dom (cells h') = insert p (dom (cells h))" and "p \<notin> dom (cells h)"
    and "nx (cells h') = (nx c)(last (dummy_head l # us) := Some p, p := Some (hd (vs @ [dummy_tail l])))"
    and "pv (cells h') = (pv c)(p := Some (last (dummy_head l # us)), hd (vs @ [dummy_tail l]) := Some p)"
    and "(\<lambda>x. node_data x h') = f(p := Some d)" and "\<forall>x \<in> dom (cells h). f x = node_data x h"
    and "\<forall>x \<in> dom (cells h). nx c x = nx (cells h) x" and "\<forall>x \<in> dom (cells h). pv c x = pv (cells h) x"
    and "\<forall>x \<in> dom (cells h'). x < fresh h'" and "dom c = dom (cells h')"
  shows "linked_at (us @ p # vs) (l\<lparr>lsize := lsize l + 1\<rparr>, h') (xs @ d # ys)"
proof -
  let ?hd = "dummy_head l" and ?tl = "dummy_tail l"
  note a = assms(1) [unfolded linked_at_def, simplified]
  obtain us' a where us: "?hd # us = us' @ [a]" by (cases "?hd # us" rule: rev_cases) auto
  obtain b vs' where vs: "vs @ [?tl] = b # vs'" by (cases "vs @ [?tl]") auto
  have ends: "last (?hd # us) = a" "hd (vs @ [?tl]) = b" by (simp only: us last_snoc, simp only: vs list.sel)
  have full: "?hd # (us @ vs) @ [?tl] = us' @ a # b # vs'" using us vs by (metis append_Cons append_assoc append_Nil)
  have full': "?hd # (us @ p # vs) @ [?tl] = us' @ a # p # b # vs'" using us vs by (metis append_Cons append_assoc append_Nil)
  have ch: "chain (cells h) (us' @ a # b # vs')" "distinct (us' @ a # b # vs')"
    using a unfolding full [symmetric] by auto
  have dom: "set (us' @ a # b # vs') \<subseteq> dom (cells h)" by (rule chain_dom [OF ch(1)])
  have pn: "p \<notin> set (us' @ a # b # vs')" using dom assms(4) by blast
  then have dis: "distinct (us' @ a # p # b # vs')" "p \<notin> set (?hd # (us @ vs) @ [?tl])"
    using ch(2) unfolding full by auto
  have "chain c (us' @ a # b # vs')"
    by (rule chain_same [OF _ ch(1)]) (use dom assms(3,9,10,12) in blast)
  then have "chain (cells h') (us' @ a # p # b # vs')"
    using dis(1) assms(3,5,6,12) unfolding ends by (intro chain_insert) auto
  moreover have "map (\<lambda>x. node_data x h') (us @ p # vs) = map Some (xs @ d # ys)"
  proof -
    have in_h: "set (us @ vs) \<subseteq> dom (cells h)" using dom unfolding full [symmetric] by auto
    have "\<forall>x \<in> set (us @ vs). node_data x h' = node_data x h"
      using in_h assms(4,7,8) by (metis fun_upd_apply subsetD)
    then have "map (\<lambda>x. node_data x h') (us @ vs) = map (\<lambda>x. node_data x h) (us @ vs)" by (intro map_cong) auto
    then have "map (\<lambda>x. node_data x h') (us @ vs) = map Some (xs @ ys)" using a by simp
    moreover have "node_data p h' = Some d" using assms(7) by (metis fun_upd_same)
    ultimately show ?thesis using assms(2) by simp
  qed
  moreover have "nx (cells h') ?tl = None"
  proof -
    have "?tl \<in> dom (cells h)" using dom unfolding full [symmetric] by auto
    moreover have "?tl \<noteq> last (?hd # us)" using a by (cases us) auto
    ultimately show ?thesis using assms(4,5,9) a by (auto simp: fun_eq_iff)
  qed
  moreover have "node_data ?tl h' = None"
  proof -
    have "?tl \<in> dom (cells h)" using dom unfolding full [symmetric] by auto
    then have "node_data ?tl h' = f ?tl" using assms(4,7) by (metis fun_upd_other)
    then show ?thesis using assms(8) a \<open>?tl \<in> dom (cells h)\<close> by metis
  qed
  ultimately show ?thesis
    using a dis assms(11) unfolding linked_at_def by (simp add: full' [simplified])
qed

text \<open>A new node beside a list.\<close>

lemma malloc_linked:
  assumes "linked_at ps (l, h) xs"
  obtains h1 where "malloc_node h = (fresh h, h1)" and "dom (cells h1) = insert (fresh h) (dom (cells h))"
    and "\<forall>p \<in> dom (cells h). nx (cells h1) p = nx (cells h) p" and "\<forall>p \<in> dom (cells h). pv (cells h1) p = pv (cells h) p"
    and "\<forall>p \<in> dom (cells h). node_data p h1 = node_data p h" and "fresh h1 = Suc (fresh h)" and "fresh h \<notin> dom (cells h)"
    and "chain (cells h1) (dummy_head l # ps @ [dummy_tail l])" and "set (dummy_head l # ps @ [dummy_tail l]) \<subseteq> dom (cells h)"
proof -
  note a = assms [unfolded linked_at_def, simplified]
  obtain h1 where h1: "malloc_node h = (fresh h, h1)" "dom (cells h1) = insert (fresh h) (dom (cells h))"
    "\<forall>p \<in> dom (cells h). nx (cells h1) p = nx (cells h) p" "\<forall>p \<in> dom (cells h). pv (cells h1) p = pv (cells h) p"
    "\<forall>p \<in> dom (cells h). node_data p h1 = node_data p h" "fresh h1 = Suc (fresh h)" "fresh h \<notin> dom (cells h)"
    using malloc_node_ok a by blast
  have dom: "set (dummy_head l # ps @ [dummy_tail l]) \<subseteq> dom (cells h)" using a chain_dom by blast
  have "chain (cells h1) (dummy_head l # ps @ [dummy_tail l])"
    by (rule chain_same [OF _ a [THEN conjunct1]]) (use h1(2-4) dom in fastforce)
  with h1 dom show thesis using that by blast
qed

lemma add_tail_at:
  assumes "linked_at ps (l, h) xs"
  shows "\<exists>h'. add_tail d (l, h) = Some (l\<lparr>lsize := lsize l + 1\<rparr>, h') \<and>
    linked_at (ps @ [fresh h]) (l\<lparr>lsize := lsize l + 1\<rparr>, h') (xs @ [d]) \<and> frame_off (own ps l) h h'"
proof -
  let ?hd = "dummy_head l" and ?tl = "dummy_tail l" and ?p = "fresh h"
  note a = assms [unfolded linked_at_def, simplified]
  obtain h1 where h1: "malloc_node h = (?p, h1)" "dom (cells h1) = insert ?p (dom (cells h))"
    "\<forall>p \<in> dom (cells h). nx (cells h1) p = nx (cells h) p" "\<forall>p \<in> dom (cells h). pv (cells h1) p = pv (cells h) p"
    "\<forall>p \<in> dom (cells h). node_data p h1 = node_data p h" "fresh h1 = Suc ?p" "?p \<notin> dom (cells h)"
    "chain (cells h1) (?hd # ps @ [?tl])" "set (?hd # ps @ [?tl]) \<subseteq> dom (cells h)"
    using malloc_linked [OF assms] .
  from chain_ends(2) [OF h1(8)] obtain n where n: "cells h1 ?tl = Some n" "nprev n = Some (last (?hd # ps))" by blast
  have d: "?p \<in> dom (cells h1)" "last (?hd # ps) \<in> dom (cells h1)" "?tl \<in> dom (cells h1)"
    using h1(2,9) last_in_set [of "?hd # ps"] by auto
  obtain h2 where h2: "upd_cells (set_data ?p d) h1 = Some h2" "dom (cells h2) = dom (cells h1)" "pv (cells h2) = pv (cells h1)"
      "nx (cells h2) = nx (cells h1)" "fresh h2 = fresh h1" "(\<lambda>x. node_data x h2) = (\<lambda>x. node_data x h1)(?p := Some d)"
    using upd_data_ok [OF d(1)] .
  obtain h3 where h3: "upd_cells (set_next (last (?hd # ps)) (Some ?p)) h2 = Some h3" "dom (cells h3) = dom (cells h2)"
      "nx (cells h3) = (nx (cells h2))(last (?hd # ps) := Some ?p)" "pv (cells h3) = pv (cells h2)" "fresh h3 = fresh h2"
      "(\<lambda>x. node_data x h3) = (\<lambda>x. node_data x h2)"
    using upd_next_ok d(2) h2(2) by metis
  obtain h4 where h4: "upd_cells (set_prev ?p (Some (last (?hd # ps)))) h3 = Some h4" "dom (cells h4) = dom (cells h3)"
      "pv (cells h4) = (pv (cells h3))(?p := Some (last (?hd # ps)))" "nx (cells h4) = nx (cells h3)" "fresh h4 = fresh h3"
      "(\<lambda>x. node_data x h4) = (\<lambda>x. node_data x h3)"
    using upd_prev_ok d(1) h2(2) h3(2) by metis
  obtain h5 where h5: "upd_cells (set_next ?p (Some ?tl)) h4 = Some h5" "dom (cells h5) = dom (cells h4)"
      "nx (cells h5) = (nx (cells h4))(?p := Some ?tl)" "pv (cells h5) = pv (cells h4)" "fresh h5 = fresh h4"
      "(\<lambda>x. node_data x h5) = (\<lambda>x. node_data x h4)"
    using upd_next_ok d(1) h2(2) h3(2) h4(2) by metis
  obtain h6 where h6: "upd_cells (set_prev ?tl (Some ?p)) h5 = Some h6" "dom (cells h6) = dom (cells h5)"
      "pv (cells h6) = (pv (cells h5))(?tl := Some ?p)" "nx (cells h6) = nx (cells h5)" "fresh h6 = fresh h5"
      "(\<lambda>x. node_data x h6) = (\<lambda>x. node_data x h5)"
    using upd_prev_ok d(3) h2(2) h3(2) h4(2) h5(2) by metis
  have "add_tail d (l, h) = Some (l\<lparr>lsize := lsize l + 1\<rparr>, h6)"
    using h1(1) n h2(1) h3(1) h4(1) h5(1) h6(1) by (simp add: add_tail_def del: last.simps)
  moreover have "linked_at (ps @ ?p # []) (l\<lparr>lsize := lsize l + 1\<rparr>, h6) (xs @ d # [])"
  proof (rule linked_insert [where c = "cells h1" and f = "\<lambda>x. node_data x h1" and h = h])
    show "linked_at (ps @ []) (l, h) (xs @ [])" using assms by simp
    show "length ps = length xs" using a by (metis length_map)
    show "nx (cells h6) = (nx (cells h1))(last (?hd # ps) := Some ?p, ?p := Some (hd ([] @ [?tl])))"
      using h6(4) h5(3) h4(4) h3(3) h2(4) by simp
    show "pv (cells h6) = (pv (cells h1))(?p := Some (last (?hd # ps)), hd ([] @ [?tl]) := Some ?p)"
      using h6(3) h5(4) h4(3) h3(4) h2(3) by simp
    show "(\<lambda>x. node_data x h6) = (\<lambda>x. node_data x h1)(?p := Some d)"
      using h6(6) h5(6) h4(6) h3(6) h2(6) by simp
    show "\<forall>x \<in> dom (cells h6). x < fresh h6"
      using h6(2,5) h5(2,5) h4(2,5) h3(2,5) h2(2,5) h1(2,6) a by (auto simp: less_Suc_eq)
  qed (use h1(2-7) h2(2) h3(2) h4(2) h5(2) h6(2) in auto)
  moreover have "frame_off (own ps l) h h6"
  proof -
    have "last (?hd # ps) \<in> own ps l" "?tl \<in> own ps l" by (auto simp: own_def)
    moreover have "node_data x h6 = (if x = ?p then Some d else node_data x h1)" for x
      using fun_cong [OF h6(6), of x] fun_cong [OF h5(6), of x] fun_cong [OF h4(6), of x] fun_cong [OF h3(6), of x]
        fun_cong [OF h2(6), of x] by simp
    ultimately show ?thesis
      unfolding frame_off_def h6(3,4) h5(3,4) h4(3,4) h3(3,4) h2(3,4)
      using h1(2-5,7) h2(2) h3(2) h4(2) h5(2) h6(2) by auto
  qed
  ultimately show ?thesis by auto
qed

lemma add_head_at:
  assumes "linked_at ps (l, h) xs"
  shows "\<exists>h'. add_head d (l, h) = Some (l\<lparr>lsize := lsize l + 1\<rparr>, h') \<and>
    linked_at (fresh h # ps) (l\<lparr>lsize := lsize l + 1\<rparr>, h') (d # xs) \<and> frame_off (own ps l) h h'"
proof -
  let ?hd = "dummy_head l" and ?tl = "dummy_tail l" and ?p = "fresh h"
  note a = assms [unfolded linked_at_def, simplified]
  obtain h1 where h1: "malloc_node h = (?p, h1)" "dom (cells h1) = insert ?p (dom (cells h))"
    "\<forall>p \<in> dom (cells h). nx (cells h1) p = nx (cells h) p" "\<forall>p \<in> dom (cells h). pv (cells h1) p = pv (cells h) p"
    "\<forall>p \<in> dom (cells h). node_data p h1 = node_data p h" "fresh h1 = Suc ?p" "?p \<notin> dom (cells h)"
    "chain (cells h1) (?hd # ps @ [?tl])" "set (?hd # ps @ [?tl]) \<subseteq> dom (cells h)"
    using malloc_linked [OF assms] .
  let ?b = "hd (ps @ [?tl])"
  from chain_ends(1) [OF h1(8)] obtain n where n: "cells h1 ?hd = Some n" "nnext n = Some ?b" by blast
  have d: "?p \<in> dom (cells h1)" "?b \<in> dom (cells h1)" "?hd \<in> dom (cells h1)"
    using h1(2,9) by (cases ps; auto)+
  obtain h2 where h2: "upd_cells (set_data ?p d) h1 = Some h2" "dom (cells h2) = dom (cells h1)" "pv (cells h2) = pv (cells h1)"
      "nx (cells h2) = nx (cells h1)" "fresh h2 = fresh h1" "(\<lambda>x. node_data x h2) = (\<lambda>x. node_data x h1)(?p := Some d)"
    using upd_data_ok [OF d(1)] .
  obtain h3 where h3: "upd_cells (set_prev ?b (Some ?p)) h2 = Some h3" "dom (cells h3) = dom (cells h2)"
      "pv (cells h3) = (pv (cells h2))(?b := Some ?p)" "nx (cells h3) = nx (cells h2)" "fresh h3 = fresh h2"
      "(\<lambda>x. node_data x h3) = (\<lambda>x. node_data x h2)"
    using upd_prev_ok d(2) h2(2) by metis
  obtain h4 where h4: "upd_cells (set_next ?p (Some ?b)) h3 = Some h4" "dom (cells h4) = dom (cells h3)"
      "nx (cells h4) = (nx (cells h3))(?p := Some ?b)" "pv (cells h4) = pv (cells h3)" "fresh h4 = fresh h3"
      "(\<lambda>x. node_data x h4) = (\<lambda>x. node_data x h3)"
    using upd_next_ok d(1) h2(2) h3(2) by metis
  obtain h5 where h5: "upd_cells (set_prev ?p (Some ?hd)) h4 = Some h5" "dom (cells h5) = dom (cells h4)"
      "pv (cells h5) = (pv (cells h4))(?p := Some ?hd)" "nx (cells h5) = nx (cells h4)" "fresh h5 = fresh h4"
      "(\<lambda>x. node_data x h5) = (\<lambda>x. node_data x h4)"
    using upd_prev_ok d(1) h2(2) h3(2) h4(2) by metis
  obtain h6 where h6: "upd_cells (set_next ?hd (Some ?p)) h5 = Some h6" "dom (cells h6) = dom (cells h5)"
      "nx (cells h6) = (nx (cells h5))(?hd := Some ?p)" "pv (cells h6) = pv (cells h5)" "fresh h6 = fresh h5"
      "(\<lambda>x. node_data x h6) = (\<lambda>x. node_data x h5)"
    using upd_next_ok d(3) h2(2) h3(2) h4(2) h5(2) by metis
  have ne: "?p \<noteq> ?b" "?p \<noteq> ?hd" using h1(7,9) by (cases ps; auto)+
  have "add_head d (l, h) = Some (l\<lparr>lsize := lsize l + 1\<rparr>, h6)"
    using h1(1) n h2(1) h3(1) h4(1) h5(1) h6(1) by (simp add: add_head_def)
  moreover have "linked_at ([] @ ?p # ps) (l\<lparr>lsize := lsize l + 1\<rparr>, h6) ([] @ d # xs)"
  proof (rule linked_insert [where c = "cells h1" and f = "\<lambda>x. node_data x h1" and h = h])
    show "linked_at ([] @ ps) (l, h) ([] @ xs)" using assms by simp
    show "nx (cells h6) = (nx (cells h1))(last (?hd # []) := Some ?p, ?p := Some ?b)"
      using h6(3) h5(4) h4(3) h3(4) h2(4) ne by (simp add: fun_upd_twist)
    show "pv (cells h6) = (pv (cells h1))(?p := Some (last (?hd # [])), ?b := Some ?p)"
      using h6(4) h5(3) h4(4) h3(3) h2(3) ne by (simp add: fun_upd_twist)
    show "(\<lambda>x. node_data x h6) = (\<lambda>x. node_data x h1)(?p := Some d)"
      using h6(6) h5(6) h4(6) h3(6) h2(6) by simp
    show "\<forall>x \<in> dom (cells h6). x < fresh h6"
      using h6(2,5) h5(2,5) h4(2,5) h3(2,5) h2(2,5) h1(2,6) a by (auto simp: less_Suc_eq)
  qed (use h1(2-7) h2(2) h3(2) h4(2) h5(2) h6(2) in auto)
  moreover have "frame_off (own ps l) h h6"
  proof -
    have "?hd \<in> own ps l" "?b \<in> own ps l" by (cases ps; simp add: own_def)+
    moreover have "node_data x h6 = (if x = ?p then Some d else node_data x h1)" for x
      using fun_cong [OF h6(6), of x] fun_cong [OF h5(6), of x] fun_cong [OF h4(6), of x] fun_cong [OF h3(6), of x]
        fun_cong [OF h2(6), of x] by simp
    ultimately show ?thesis
      unfolding frame_off_def h6(3,4) h5(3,4) h4(3,4) h3(3,4) h2(3,4)
      using h1(2-5,7) h2(2) h3(2) h4(2) h5(2) h6(2) by auto
  qed
  ultimately show ?thesis by auto
qed

text \<open>Taking a node out.\<close>

lemma take_out_at:
  assumes "linked_at (us @ p # vs) (l, h) (xs @ d # ys)" and "length us = length xs"
  shows "\<exists>h'. take_out p (l, h) = Some (d, l\<lparr>lsize := lsize l - 1\<rparr>, h') \<and>
    linked_at (us @ vs) (l\<lparr>lsize := lsize l - 1\<rparr>, h') (xs @ ys) \<and> frame_off (own (us @ p # vs) l) h h'"
proof -
  let ?hd = "dummy_head l" and ?tl = "dummy_tail l"
  note a = assms(1) [unfolded linked_at_def, simplified]
  obtain us' a where us: "?hd # us = us' @ [a]" by (cases "?hd # us" rule: rev_cases) auto
  obtain b vs' where vs: "vs @ [?tl] = b # vs'" by (cases "vs @ [?tl]") auto
  have full: "?hd # (us @ p # vs) @ [?tl] = us' @ a # p # b # vs'" using us vs by (metis append_Cons append_assoc append_Nil)
  have full': "?hd # (us @ vs) @ [?tl] = us' @ a # b # vs'" using us vs by (metis append_Cons append_assoc append_Nil)
  have ch: "chain (cells h) (us' @ a # p # b # vs')" "distinct (us' @ a # p # b # vs')"
    using a unfolding full [symmetric] by auto
  obtain c where c: "unlink p (cells h) = Some c" "chain c (us' @ a # b # vs')" "dom c = dom (cells h)"
      "nx c = (nx (cells h))(a := Some b)" "pv c = (pv (cells h))(b := Some a)"
      "\<forall>x. map_option link.more (c x) = map_option link.more (cells h x)"
    using unlink_ok [OF ch] by blast
  have nd: "node_data x (h\<lparr>cells := c\<rparr>) = node_data x h" for x
  proof -
    have "map_option link.more (c x) = map_option link.more (cells h x)" using c(6) by blast
    then show ?thesis by (cases "c x"; cases "cells h x") (auto simp: node_data_def, (metis node.cases node.select_convs(1) link.select_convs(3))?)
  qed
  have m: "map (\<lambda>x. node_data x h) (us @ p # vs) = map Some (xs @ d # ys)" using a by simp
  then have us_eq: "map (\<lambda>x. node_data x h) us = map Some xs" "node_data p h = Some d" "map (\<lambda>x. node_data x h) vs = map Some ys"
    using assms(2) by simp_all
  have "?tl \<noteq> a" using us a by (metis Un_iff append_Nil distinct.simps(2) in_set_conv_decomp list.set_intros set_ConsD set_append)
  then have "nx c ?tl = None" using c(4) a by simp
  moreover have "distinct (?hd # (us @ vs) @ [?tl])" using a by auto
  ultimately have "linked_at (us @ vs) (l\<lparr>lsize := lsize l - 1\<rparr>, h\<lparr>cells := c\<rparr>) (xs @ ys)"
    using a c(2,3) us_eq unfolding linked_at_def full' [symmetric] by (simp add: nd)
  moreover have "frame_off (own (us @ p # vs) l) h (h\<lparr>cells := c\<rparr>)"
  proof -
    have "{a, b} \<subseteq> own (us @ p # vs) l" unfolding own_def full by simp
    then show ?thesis using c(3-5) by (auto simp: frame_off_def nd)
  qed
  ultimately show ?thesis using c(1) us_eq(2) by (simp add: take_out_def upd_cells_def nd)
qed

text \<open>The pointers of the dummy nodes.\<close>

lemma linked_first: "linked_at ps (l, h) xs \<Longrightarrow> \<exists>n. cells h (dummy_head l) = Some n \<and> nnext n = Some (hd (ps @ [dummy_tail l]))"
  by (rule chain_ends(1)) (simp add: linked_at_def)

lemma linked_last: "linked_at ps (l, h) xs \<Longrightarrow> \<exists>n. cells h (dummy_tail l) = Some n \<and> nprev n = Some (last (dummy_head l # ps))"
  by (rule chain_ends(2)) (simp add: linked_at_def)

lemma pop_head_at:
  assumes "linked_at (p # ps) (l, h) (d # xs)"
  shows "\<exists>h'. pop_head (l, h) = Some (Inr d, l\<lparr>lsize := lsize l - 1\<rparr>, h') \<and> linked_at ps (l\<lparr>lsize := lsize l - 1\<rparr>, h') xs \<and> frame_off (own (p # ps) l) h h'"
proof -
  note a = assms [unfolded linked_at_def, simplified]
  obtain n where n: "cells h (dummy_head l) = Some n" "nnext n = Some p" using linked_first [OF assms] by auto
  have "0 < lsize l" using a by simp
  then show ?thesis
    using n take_out_at [of "[]" p ps l h "[]" d xs] assms by (auto simp: pop_head_def)
qed

lemma pop_tail_at:
  assumes "linked_at (ps @ [p]) (l, h) (xs @ [d])"
  shows "\<exists>h'. pop_tail (l, h) = Some (Inr d, l\<lparr>lsize := lsize l - 1\<rparr>, h') \<and> linked_at ps (l\<lparr>lsize := lsize l - 1\<rparr>, h') xs \<and> frame_off (own (ps @ [p]) l) h h'"
proof -
  note a = assms [unfolded linked_at_def, simplified]
  obtain n where n: "cells h (dummy_tail l) = Some n" "nprev n = Some p" using linked_last [OF assms] by auto
  have "0 < lsize l" "length ps = length xs" using a by (simp, metis length_map)
  then show ?thesis
    using n take_out_at [of ps p "[]" l h xs d "[]"] assms by (auto simp: pop_tail_def)
qed

lemma pop_empty:
  assumes "linked lh []"
  shows "pop_head lh = Some (Inl ''Trying to pop head element from an empty linked list'', lh)"
    and "pop_tail lh = Some (Inl ''Trying to pop tail element from an empty linked list'', lh)"
  using assms by (cases lh; auto simp: linked_def linked_at_def pop_head_def pop_tail_def)+

text \<open>The double-ended queue. A pop that ends the program has no result.\<close>

definition popped :: "((string + 'd) \<times> 's) option \<Rightarrow> ('d \<times> 's) option" where
  "popped r = (case r of Some (Inr d, s) \<Rightarrow> Some (d, s) | _ \<Rightarrow> None)"

lemma linked_data: "linked_at ps lh xs \<Longrightarrow> length ps = length xs"
  by (cases lh) (auto simp: linked_at_def dest: map_eq_imp_length_eq)

interpretation ll: deque linked "\<lambda>_ _. True" add_head add_tail "\<lambda>s. popped (pop_head s)" "\<lambda>s. popped (pop_tail s)"
proof
  fix s :: "linked_list \<times> 'd node_heap" and xs d
  obtain l h where s: "s = (l, h)" by (cases s)
  { assume "linked s xs"
    then obtain ps where "linked_at ps (l, h) xs" by (auto simp: linked_def s)
    from add_head_at [OF this, of d] add_tail_at [OF this, of d]
    show "\<exists>t. add_head d s = Some t \<and> linked t (d # xs)" "\<exists>t. add_tail d s = Some t \<and> linked t (xs @ [d])"
      unfolding linked_def s by blast+ }
  { assume "linked s (d # xs)"
    then obtain ps where ps: "linked_at ps (l, h) (d # xs)" by (auto simp: linked_def s)
    then obtain p qs where "ps = p # qs" using linked_data [OF ps] by (cases ps) auto
    with pop_head_at [of p qs l h d xs] ps show "\<exists>t. popped (pop_head s) = Some (d, t) \<and> linked t xs \<and> True"
      unfolding s linked_def by (auto simp: popped_def) }
  { assume "linked s (xs @ [d])"
    then obtain ps where ps: "linked_at ps (l, h) (xs @ [d])" by (auto simp: linked_def s)
    then obtain p qs where "ps = qs @ [p]" using linked_data [OF ps] by (cases ps rule: rev_cases) auto
    with pop_tail_at [of qs p l h xs d] ps show "\<exists>t. popped (pop_tail s) = Some (d, t) \<and> linked t xs \<and> True"
      unfolding s linked_def by (auto simp: popped_def) }
qed

text \<open>Starting with an empty list, and emptying one.\<close>

lemma list_init_ok:
  assumes "\<forall>p \<in> dom (cells h). p < fresh h"
  shows "\<exists>lh. list_init h = Some lh \<and> linked lh []"
  using assms
  by (fastforce simp: list_init_def malloc_node_def Let_def upd_cells_def set_next_def set_prev_def linked_def linked_at_def
      nx_def pv_def node_data_def less_Suc_eq split: if_splits)

text \<open>Searching by value finds the first element that is equal.\<close>

lemma find_node_at:
  assumes "chain (cells h) (qs @ p # rs)" and "map (\<lambda>x. node_data x h) (qs @ [p]) = map Some (ys @ [d])"
    and "\<forall>y \<in> set ys. equal t y = Some False" and "equal t d = Some True"
  shows "find_node equal t (Some (hd (qs @ [p]))) h = Some (Some p)"
  using assms
proof (induction qs arbitrary: ys)
  case Nil
  then have "ys = []" by (cases ys) auto
  with Nil obtain n where "cells h p = Some n" "ndata n = Some d" by (auto simp: node_data_def bind_eq_Some_conv)
  with Nil show ?case by (subst find_node.simps) simp
next
  case (Cons q qs)
  then obtain y zs where ys: "ys = y # zs" by (cases ys) auto
  have "chain (cells h) (q # hd (qs @ [p]) # tl (qs @ [p]) @ rs)" using Cons.prems(1) by (cases qs) simp_all
  then have "nx (cells h) q = Some (hd (qs @ [p]))" "chain (cells h) (qs @ p # rs)" by (cases qs; simp)+
  moreover obtain n where n: "cells h q = Some n" "ndata n = Some y"
    using Cons.prems(2) ys by (auto simp: node_data_def bind_eq_Some_conv)
  ultimately show ?case
    using Cons.IH [of zs] Cons.prems ys by (subst find_node.simps) (simp add: nx_def)
qed

lemma remove_elem_at:
  assumes "linked_at ps (l, h) (ys @ d # zs)" and "\<forall>y \<in> set ys. equal t y = Some False" and "equal t d = Some True"
  shows "\<exists>h' qs. remove_elem equal t (l, h) = Some (d, l\<lparr>lsize := lsize l - 1\<rparr>, h') \<and>
    linked_at qs (l\<lparr>lsize := lsize l - 1\<rparr>, h') (ys @ zs) \<and> set qs \<subseteq> set ps \<and> frame_off (own ps l) h h'"
proof -
  define us p vs where "us = take (length ys) ps" and "p = ps ! length ys" and "vs = drop (Suc (length ys)) ps"
  have len: "length ps = length ys + 1 + length zs" using linked_data [OF assms(1)] by simp
  then have split: "ps = us @ p # vs" "length us = length ys"
    by (simp_all add: us_def p_def vs_def id_take_nth_drop)
  note a = assms(1) [unfolded linked_at_def split(1), simplified]
  have "chain (cells h) (us @ p # vs @ [dummy_tail l])"
    using a chain_append [of "cells h" "[dummy_head l]"] by (cases us) (auto)
  moreover have "map (\<lambda>x. node_data x h) (us @ [p]) = map Some (ys @ [d])" using a split(2) by simp
  ultimately have f: "find_node equal t (Some (hd (us @ [p]))) h = Some (Some p)"
    using assms(2,3) by (intro find_node_at [where rs = "vs @ [dummy_tail l]"]) simp_all
  have "\<exists>n. cells h (dummy_head l) = Some n \<and> nnext n = Some (hd (us @ [p]))"
    using linked_first [OF assms(1)] split(1) by (cases us) simp_all
  moreover obtain h' where h': "take_out p (l, h) = Some (d, l\<lparr>lsize := lsize l - 1\<rparr>, h')"
    "linked_at (us @ vs) (l\<lparr>lsize := lsize l - 1\<rparr>, h') (ys @ zs)" "frame_off (own ps l) h h'"
    using take_out_at [of us p vs l h ys d zs] assms(1) split by auto
  moreover have "set (us @ vs) \<subseteq> set ps" using split(1) by auto
  ultimately show ?thesis using f by (fastforce simp: remove_elem_def get_node_by_value_def)
qed

lemma remove_elem_ok:
  assumes "linked lh (ys @ d # zs)" and "\<forall>y \<in> set ys. equal t y = Some False" and "equal t d = Some True"
  shows "\<exists>lh'. remove_elem equal t lh = Some (d, lh') \<and> linked lh' (ys @ zs)"
proof -
  obtain l h ps where ps: "lh = (l, h)" "linked_at ps (l, h) (ys @ d # zs)" using assms(1) by (cases lh) (auto simp: linked_def)
  from remove_elem_at [OF ps(2), of equal t] assms(2,3) show ?thesis unfolding ps(1) linked_def by blast
qed

lemma find_node_none:
  assumes "chain (cells h) (qs @ [z])" and "map (\<lambda>x. node_data x h) qs = map Some ys" and "node_data z h = None"
    and "\<forall>y \<in> set ys. equal t y = Some False"
  shows "find_node equal t (Some (hd (qs @ [z]))) h = None"
  using assms
proof (induction qs arbitrary: ys)
  case Nil
  then obtain n where "cells h z = Some n" "ndata n = None" by (auto simp: node_data_def)
  then show ?case by (subst find_node.simps) simp
next
  case (Cons q qs)
  then obtain y zs where ys: "ys = y # zs" by (cases ys) auto
  have "nx (cells h) q = Some (hd (qs @ [z]))" "chain (cells h) (qs @ [z])" using Cons.prems(1) by (cases qs; simp)+
  moreover obtain n where n: "cells h q = Some n" "ndata n = Some y"
    using Cons.prems(2) ys by (auto simp: node_data_def bind_eq_Some_conv)
  ultimately show ?case
    using Cons.IH [of zs] Cons.prems ys by (subst find_node.simps) (simp add: nx_def)
qed

lemma list_clear_at:
  assumes "linked_at ps (l, h) xs"
  shows "\<exists>h'. list_clear l h = Some (l\<lparr>lsize := 0\<rparr>, h') \<and> linked_at [] (l\<lparr>lsize := 0\<rparr>, h') [] \<and> frame_off (own [] l) h h'"
proof -
  let ?hd = "dummy_head l" and ?tl = "dummy_tail l"
  note a = assms [unfolded linked_at_def, simplified]
  then have d: "?hd \<in> dom (cells h)" "?tl \<in> dom (cells h)" using chain_dom [of "cells h" "?hd # ps @ [?tl]"] by auto
  obtain h1 where h1: "upd_cells (set_next ?hd (Some ?tl)) h = Some h1" "dom (cells h1) = dom (cells h)"
      "nx (cells h1) = (nx (cells h))(?hd := Some ?tl)" "pv (cells h1) = pv (cells h)" "fresh h1 = fresh h"
      "(\<lambda>x. node_data x h1) = (\<lambda>x. node_data x h)"
    using upd_next_ok [OF d(1)] .
  have "?tl \<in> dom (cells h1)" using d(2) h1(2) by simp
  then obtain h2 where h2: "upd_cells (set_prev ?tl (Some ?hd)) h1 = Some h2" "dom (cells h2) = dom (cells h1)"
      "pv (cells h2) = (pv (cells h1))(?tl := Some ?hd)" "nx (cells h2) = nx (cells h1)" "fresh h2 = fresh h1"
      "(\<lambda>x. node_data x h2) = (\<lambda>x. node_data x h1)"
    using upd_prev_ok by blast
  have "node_data ?tl h2 = None" using a fun_cong [OF h2(6), of ?tl] fun_cong [OF h1(6), of ?tl] by simp
  then have "linked_at [] (l\<lparr>lsize := 0\<rparr>, h2) []"
    using a d h1 h2 unfolding linked_at_def by auto
  moreover have "frame_off (own [] l) h h2"
    unfolding frame_off_def h2(3,4) h1(3,4) using h1(2) h2(2) fun_cong [OF h2(6)] fun_cong [OF h1(6)] by (auto simp: own_def)
  ultimately show ?thesis using h1(1) h2(1) by (simp add: list_clear_def)
qed

lemma list_clear_ok:
  assumes "linked (l, h) xs"
  shows "\<exists>lh. list_clear l h = Some lh \<and> linked lh []"
  using list_clear_at assms unfolding linked_def by blast

text \<open>A list is not affected by what happens outside its nodes.\<close>

lemma linked_at_frame:
  assumes "linked_at ps (l, h) xs" and "frame_off W h h'" and "own ps l \<inter> W = {}" and "\<forall>p \<in> dom (cells h'). p < fresh h'"
  shows "linked_at ps (l, h') xs"
proof -
  note a = assms(1) [unfolded linked_at_def, simplified]
  have own: "own ps l \<subseteq> dom (cells h)" using a chain_dom [of "cells h" "dummy_head l # ps @ [dummy_tail l]"] by (simp add: own_def)
  then have same: "\<forall>x \<in> own ps l. x \<in> dom (cells h') \<and> nx (cells h') x = nx (cells h) x \<and> pv (cells h') x = pv (cells h) x \<and>
      node_data x h' = node_data x h" using assms(2,3) unfolding frame_off_def by blast
  have "chain (cells h') (dummy_head l # ps @ [dummy_tail l])"
    by (rule chain_same [of _ _ "cells h"]) (use a same in \<open>simp_all add: own_def\<close>)
  moreover have "map (\<lambda>p. node_data p h') ps = map (\<lambda>p. node_data p h) ps" using same by (simp add: own_def)
  ultimately show ?thesis using a same assms(4) by (simp add: linked_at_def own_def)
qed

lemma linked_at_own: "linked_at ps (l, h) xs \<Longrightarrow> own ps l \<subseteq> dom (cells h) \<and> (\<forall>p \<in> dom (cells h). p < fresh h)"
  unfolding linked_at_def own_def using chain_dom [of "cells h" "dummy_head l # ps @ [dummy_tail l]"] by auto

section \<open>Properties\<close>

text \<open>
  C22: The linked lists implement sequences: on a list that holds \<open>xs\<close>, adding at the tail or at
  the head appends or prepends the element, and popping takes the first or the last one
  off; popping from an empty list ends with the message and the exit.
\<close>

theorem linked_list_sequence:
  assumes "linked lh xs"
  shows "(\<exists>t. add_tail d lh = Some t \<and> linked t (xs @ [d])) \<and> (\<exists>t. add_head d lh = Some t \<and> linked t (d # xs)) \<and>
    (case xs of
       [] \<Rightarrow> pop_head lh = Some (Inl ''Trying to pop head element from an empty linked list'', lh) \<and>
         pop_tail lh = Some (Inl ''Trying to pop tail element from an empty linked list'', lh)
     | x # ys \<Rightarrow> (\<exists>t. popped (pop_head lh) = Some (x, t) \<and> linked t ys) \<and>
         (\<exists>t. popped (pop_tail lh) = Some (last xs, t) \<and> linked t (butlast xs)))"
proof (cases xs)
  case Nil
  then have "linked lh []" using assms by simp
  from pop_empty [OF this] Nil show ?thesis using ll.push_back [OF assms] ll.push_front [OF assms] by auto
next
  case (Cons x ys)
  then have "xs \<noteq> []" by simp
  then have "linked lh (butlast xs @ [last xs])" using assms by (subst append_butlast_last_id) auto
  moreover have "linked lh (x # ys)" using assms Cons by simp
  ultimately have "linked lh (butlast xs @ [last xs])" "linked lh (x # ys)" .
  from ll.pop_back [OF this(1)] ll.pop_front [OF this(2)] show ?thesis
    using Cons ll.push_back [OF assms] ll.push_front [OF assms] by simp
qed

definition demo_heap :: "nat node_heap" where "demo_heap = \<lparr>cells = Map.empty, fresh = 0\<rparr>"

theorem linked_list_sequence_witness:
  "\<exists>lh t u. list_init demo_heap = Some lh \<and> add_tail 5 lh = Some t \<and> popped (pop_head t) = Some (5, u) \<and> linked u []"
proof -
  obtain lh where lh: "list_init demo_heap = Some lh" "linked lh []"
    using list_init_ok [of demo_heap] by (auto simp: demo_heap_def)
  obtain t where t: "add_tail 5 lh = Some t" "linked t [5]"
    using linked_list_sequence [OF lh(2), of 5] unfolding append_Nil by blast
  obtain u where "popped (pop_head t) = Some (5, u)" "linked u []"
    using linked_list_sequence [OF t(2)] unfolding list.case by blast
  with lh(1) t(1) show ?thesis by blast
qed

text \<open>
  Removing an element takes the first one that the comparison calls equal out of the list
  and returns it; when there is none, \<open>remove_elem\<close> has no defined result, because the
  search runs into the dummy node at the tail.
\<close>

theorem remove_elem_first:
  assumes "linked lh xs" and "\<forall>x \<in> set xs. equal t x = Some (E x)"
  shows "case List.find E xs of
      Some d \<Rightarrow> \<exists>lh'. remove_elem equal t lh = Some (d, lh') \<and> linked lh' (takeWhile (\<lambda>x. \<not> E x) xs @ tl (dropWhile (\<lambda>x. \<not> E x) xs))
    | None \<Rightarrow> remove_elem equal t lh = None"
proof (cases "List.find E xs")
  case None
  obtain l h ps where ps: "lh = (l, h)" "linked_at ps (l, h) xs" using assms(1) by (cases lh) (auto simp: linked_def)
  note a = ps(2) [unfolded linked_at_def, simplified]
  have "chain (cells h) (ps @ [dummy_tail l])" using a by (cases ps) auto
  moreover have "\<forall>x \<in> set xs. equal t x = Some False" using None assms(2) by (auto simp: find_None_iff)
  ultimately have "find_node equal t (Some (hd (ps @ [dummy_tail l]))) h = None"
    using a by (intro find_node_none) auto
  then show ?thesis
    using linked_first [OF ps(2)] ps(1) None by (auto simp: remove_elem_def get_node_by_value_def)
next
  case (Some d)
  let ?us = "takeWhile (\<lambda>x. \<not> E x) xs" and ?vs = "dropWhile (\<lambda>x. \<not> E x) xs"
  have vs: "?vs = d # tl ?vs" "E d" using Some by (induction xs) (auto split: if_splits)
  then have xs: "xs = ?us @ d # tl ?vs" by (metis takeWhile_dropWhile_id)
  have "d \<in> set xs" by (subst xs) simp
  moreover have "\<forall>x \<in> set ?us. equal t x = Some False"
    using assms(2) by (auto dest: set_takeWhileD)
  ultimately show ?thesis
    using remove_elem_ok [of lh ?us d "tl ?vs" equal t] assms vs(2) xs Some by auto
qed

theorem remove_elem_first_witness:
  "\<exists>lh t u. list_init demo_heap = Some lh \<and> add_tail 5 lh = Some t \<and> remove_elem (\<lambda>a b. Some (a = b)) 5 t = Some (5, u) \<and>
     remove_elem (\<lambda>a b. Some (a = b)) 6 t = None"
proof -
  obtain lh where lh: "list_init demo_heap = Some lh" "linked lh []"
    using list_init_ok [of demo_heap] by (auto simp: demo_heap_def)
  obtain t where t: "add_tail 5 lh = Some t" "linked t [5]"
    using ll.push_back [OF lh(2), of 5] unfolding append_Nil by blast
  have "\<exists>u. remove_elem (\<lambda>a b. Some (a = b)) 5 t = Some (5, u)" "remove_elem (\<lambda>a b. Some (a = b)) 6 t = None"
    using remove_elem_first [OF t(2), of "\<lambda>a b. Some (a = b)" 5 "\<lambda>x. 5 = x"]
      remove_elem_first [OF t(2), of "\<lambda>a b. Some (a = b)" 6 "\<lambda>x. 6 = x"] by auto
  with lh(1) t(1) show ?thesis by blast
qed

end
