(* ===== verification/A3_Process.thy ===== *)
theory A3_Process
  imports A3_List Fs_Util2 A1_Shell
begin

text \<open>
  The third shell, memory and processes: \<open>a3/shellmemory.c\<close> and \<open>a3/pcb.c\<close>. The memory is one
  array of slots: \<open>frame_store_size\<close> slots for frames of three lines, and behind them the slots
  of the variables. Both sizes are set when the program is compiled.

  Process control blocks and pages are objects in two maps from addresses; the lists of the
  kernel hold their addresses. An open file is the rest of its content. The state of the file
  system is a part of the state, with the trace of all output in its field \<open>console\<close>.
  \<open>strtok_rest\<close> is what the function \<open>strtok\<close> of the C library has still to split.
\<close>

record page =
  frame_index :: "nat list"
  valid_bit :: "bool list"
  page_index :: nat
  page_pid :: nat

record process =
  proc_pid :: nat
  proc_size :: int
  program_counter :: "nat list"
  page_list :: "nat list"
  source_file :: string

record a3_state =
  fs :: fs_state
  frame_store_size :: nat
  store :: "memory_struct list"
  nodes :: "nat node_heap"
  QUEUE :: linked_list
  LRU_CACHE :: linked_list
  ALL_PCB :: linked_list
  procs :: "nat \<Rightarrow> process option"
  pages :: "nat \<Rightarrow> page option"
  next_obj :: nat
  PID_counter :: nat
  new_name_count :: nat
  strtok_rest :: string

definition events :: "a3_state \<Rightarrow> event list" where
  "events s = console (fs s)"

definition say_a3 :: "event \<Rightarrow> a3_state \<Rightarrow> a3_state" where
  "say_a3 e s = s\<lparr>fs := say e (fs s)\<rparr>"

section \<open>Memory\<close>

text \<open>Two helpers that the shell does not use.\<close>

definition match_a3 :: "string \<Rightarrow> string \<Rightarrow> bool option" where
  "match_a3 model v = match_a1 model v"

definition extract_a3 :: "string \<Rightarrow> string option" where
  "extract_a3 model = extract_a1 model"

definition mem_init_a3 :: "a3_state \<Rightarrow> a3_state" where
  "mem_init_a3 s = s\<lparr>store := replicate (length (store s)) free_slot\<rparr>"

definition mem_free_at :: "nat \<Rightarrow> a3_state \<Rightarrow> a3_state option" where
  "mem_free_at pos s = do {
     guard_opt (pos < length (store s));
     Some (s\<lparr>store := (store s)[pos := free_slot]\<rparr>) }"

text \<open>The first place in the frame store with three free slots in a row.\<close>

definition free_frame :: "a3_state \<Rightarrow> nat option" where
  "free_frame s = List.find (\<lambda>i. i + 3 \<le> frame_store_size s \<and> (\<forall>k \<in> set [i, i + 1, i + 2]. var (store s ! k) = ''none''))
     [0..<frame_store_size s]"

text \<open>The result tells whether a frame was found; the page gets its place.\<close>

definition frame_alloc :: "string \<Rightarrow> nat \<Rightarrow> a3_state \<Rightarrow> (bool \<times> a3_state) option" where
  "frame_alloc pid pa s =
    (case free_frame s of
       None \<Rightarrow> Some (False, s)
     | Some i \<Rightarrow> do {
         pg \<leftarrow> pages s pa;
         guard_opt (i + 3 \<le> length (store s));
         let ms = store s;
         let ms = ms[i := (ms ! i)\<lparr>var := pid\<rparr>, i + 1 := (ms ! (i + 1))\<lparr>var := pid\<rparr>, i + 2 := (ms ! (i + 2))\<lparr>var := pid\<rparr>];
         Some (True, s\<lparr>store := ms, pages := (pages s)(pa \<mapsto>
           pg\<lparr>frame_index := [i, i + 1, i + 2], valid_bit := [False, False, False]\<rparr>)\<rparr>) })"

definition mem_set_value_at :: "nat \<Rightarrow> string \<Rightarrow> string \<Rightarrow> a3_state \<Rightarrow> a3_state option" where
  "mem_set_value_at pos pid value_in s = do {
     guard_opt (pos < length (store s));
     Some (s\<lparr>store := (store s)[pos := \<lparr>var = pid, val = value_in\<rparr>]\<rparr>) }"

definition mem_get_value_at :: "nat \<Rightarrow> a3_state \<Rightarrow> string option" where
  "mem_get_value_at pos s = (if pos < length (store s) then Some (val (store s ! pos)) else None)"

definition mem_set_value_a3 :: "string \<Rightarrow> string \<Rightarrow> a3_state \<Rightarrow> a3_state" where
  "mem_set_value_a3 v x s = s\<lparr>store := take (frame_store_size s) (store s) @
     set_slot (drop (frame_store_size s) (store s)) v x\<rparr>"

definition mem_get_value_a3 :: "string \<Rightarrow> char \<Rightarrow> a3_state \<Rightarrow> string" where
  "mem_get_value_a3 v caller s =
    (case get_slot (drop (frame_store_size s) (store s)) v of
       Some x \<Rightarrow> x
     | None \<Rightarrow> if caller = CHR ''p'' then ''Variable does not exist'' else [])"

definition reset_var_zone :: "a3_state \<Rightarrow> a3_state" where
  "reset_var_zone s = s\<lparr>store := take (frame_store_size s) (store s) @
     replicate (length (store s) - frame_store_size s) free_slot\<rparr>"

definition clear_frame :: "nat \<Rightarrow> a3_state \<Rightarrow> a3_state option" where
  "clear_frame start_pos s = do {
     s \<leftarrow> mem_free_at start_pos s;
     s \<leftarrow> mem_free_at (start_pos + 1) s;
     mem_free_at (start_pos + 2) s }"

definition show_slot :: "nat \<Rightarrow> memory_struct \<Rightarrow> event list" where
  "show_slot i m =
    (if var m = ''none'' then []
     else [Out ([newline] @ ''line '' @ show_nat i @ '': key: '' @ var m @ tabs 2 @ ''value: '' @ val m)])"

definition printShellMemory :: "a3_state \<Rightarrow> a3_state" where
  "printShellMemory s =
    (let n = length (store s); free = length (filter (\<lambda>m. var m = ''none'') (store s));
         ls = concat (map (\<lambda>i. show_slot i (store s ! i)) [0..<n]);
         total = Out ([newline] @ tabs 1 @ show_nat n @ '' lines in total, '' @ show_nat (n - free) @ '' lines in use, '' @
           show_nat free @ '' lines free'' @ [newline])
     in fold say_a3 (ls @ [total]) s)"

section \<open>Process control blocks\<close>

definition upd_proc :: "nat \<Rightarrow> (process \<Rightarrow> process) \<Rightarrow> a3_state \<Rightarrow> a3_state" where
  "upd_proc a f s = s\<lparr>procs := (procs s)(a := map_option f (procs s a))\<rparr>"

definition upd_page :: "nat \<Rightarrow> (page \<Rightarrow> page) \<Rightarrow> a3_state \<Rightarrow> a3_state" where
  "upd_page a f s = s\<lparr>pages := (pages s)(a := map_option f (pages s a))\<rparr>"

text \<open>Newlines that do not follow another newline, or the start of the file.\<close>

fun count_newlines :: "char \<Rightarrow> string \<Rightarrow> nat" where
  "count_newlines last_char [] = 0"
| "count_newlines last_char (c # cs) =
    (if c = newline \<and> last_char \<noteq> newline then 1 else 0) + count_newlines c cs"

definition count_lines :: "string \<Rightarrow> nat" where
  "count_lines content = count_newlines newline content + 1"

definition PAGE_table_size :: "nat \<Rightarrow> nat" where
  "PAGE_table_size lns = (if lns mod 3 = 0 then lns div 3 else lns div 3 + 1)"

definition PAGE_init :: "nat \<Rightarrow> nat \<Rightarrow> page" where
  "PAGE_init pid i = \<lparr>frame_index = [1000, 1000, 1000], valid_bit = [False, False, False], page_index = i, page_pid = pid\<rparr>"

text \<open>Reading up to three lines of the program into the frame of a page.\<close>

fun fill_page :: "nat list \<Rightarrow> string \<Rightarrow> nat \<Rightarrow> nat \<Rightarrow> a3_state \<Rightarrow> a3_state option" where
  "fill_page [] pid a pa s = Some s"
| "fill_page (j # js) pid a pa s = do {
     p \<leftarrow> procs s a;
     let (l, rest, eof) = fgets 998 (source_file p);
     let s = upd_proc a (\<lambda>p. p\<lparr>source_file := rest\<rparr>) s;
     if l = [] then Some s
     else do {
       pg \<leftarrow> pages s pa;
       s \<leftarrow> mem_set_value_at (frame_index pg ! j) pid l s;
       fill_page js pid a pa (upd_page pa (\<lambda>pg. pg\<lparr>valid_bit := (valid_bit pg)[j := True]\<rparr>) s) } }"

definition page_at :: "nat \<Rightarrow> nat \<Rightarrow> a3_state \<Rightarrow> nat option" where
  "page_at a i s = do {
     p \<leftarrow> procs s a;
     if i < length (page_list p) then Some (page_list p ! i) else None }"

text \<open>\<open>load_PAGE\<close>; the result tells whether a frame was found.\<close>

definition load_PAGE :: "nat \<Rightarrow> nat \<Rightarrow> a3_state \<Rightarrow> (bool \<times> a3_state) option" where
  "load_PAGE a i s = do {
     p \<leftarrow> procs s a;
     pa \<leftarrow> page_at a i s;
     (ok, s) \<leftarrow> frame_alloc (show_nat (proc_pid p)) pa s;
     if \<not> ok then Some (False, s)
     else do { s \<leftarrow> fill_page [0, 1, 2] (show_nat (proc_pid p)) a pa s; Some (True, s) } }"

text \<open>The first two pages of a new process; without room the program exits.\<close>

fun load_first :: "nat list \<Rightarrow> nat \<Rightarrow> a3_state \<Rightarrow> ((int + unit) \<times> a3_state) option" where
  "load_first [] a s = Some (Inr (), s)"
| "load_first (i # is) a s = do {
     (ok, s) \<leftarrow> load_PAGE a i s;
     if ok then load_first is a s
     else Some (Inl 99, say_a3 (Out ''frame_alloc failed'') (printShellMemory s)) }"

definition PCB_init :: "fs_host \<Rightarrow> nat \<Rightarrow> string \<Rightarrow> a3_state \<Rightarrow> ((int + nat) \<times> a3_state) option" where
  "PCB_init h pid script s =
    (case open_read h (events s) script of
       None \<Rightarrow> Some (Inl 99, say_a3 (Out (''File not found: '' @ script)) s)
     | Some content \<Rightarrow> do {
         let lns = count_lines content;
         let n = PAGE_table_size lns;
         let a = next_obj s;
         let s = s\<lparr>next_obj := a + 1 + n,
           pages := (\<lambda>x. if a < x \<and> x \<le> a + n then Some (PAGE_init pid (x - a - 1)) else pages s x),
           procs := (procs s)(a \<mapsto> \<lparr>proc_pid = pid, proc_size = int lns, program_counter = replicate n 0,
             page_list = [a + 1..<a + 1 + n], source_file = content\<rparr>)\<rparr>;
         (r, s) \<leftarrow> load_first [0..<min 2 n] a s;
         Some (case r of Inl c \<Rightarrow> (Inl c, s) | Inr u \<Rightarrow> (Inr a, s)) })"

fun clear_frames :: "nat list \<Rightarrow> a3_state \<Rightarrow> a3_state option" where
  "clear_frames [] s = Some s"
| "clear_frames (i # is) s = do { s \<leftarrow> clear_frame i s; clear_frames is s }"

fun free_pages :: "nat list \<Rightarrow> a3_state \<Rightarrow> a3_state option" where
  "free_pages [] s = Some s"
| "free_pages (pa # pas) s = do {
     pg \<leftarrow> pages s pa;
     s \<leftarrow> clear_frames (frame_index pg) s;
     free_pages pas (s\<lparr>pages := (pages s)(pa := None)\<rparr>) }"

definition free_PCB :: "nat \<Rightarrow> a3_state \<Rightarrow> a3_state option" where
  "free_PCB a s = do {
     p \<leftarrow> procs s a;
     s \<leftarrow> free_pages (page_list p) s;
     Some (s\<lparr>procs := (procs s)(a := None)\<rparr>) }"

fun evict_lines :: "nat list \<Rightarrow> nat \<Rightarrow> a3_state \<Rightarrow> a3_state option" where
  "evict_lines [] pa s = Some s"
| "evict_lines (j # js) pa s = do {
     pg \<leftarrow> pages s pa;
     line \<leftarrow> mem_get_value_at (frame_index pg ! j) s;
     s \<leftarrow> mem_free_at (frame_index pg ! j) (say_a3 (Raw line) s);
     evict_lines js pa (upd_page pa (\<lambda>pg. pg\<lparr>frame_index := (frame_index pg)[j := 0],
       valid_bit := (valid_bit pg)[j := False]\<rparr>) s) }"

definition PAGE_evict :: "nat \<Rightarrow> nat \<Rightarrow> a3_state \<Rightarrow> a3_state option" where
  "PAGE_evict a i s = do {
     pa \<leftarrow> page_at a i s;
     s \<leftarrow> evict_lines [0, 1, 2] pa (say_a3 (Out ''Page fault! Victim page contents:'') s);
     Some (say_a3 (Out ''End of victim page contents.'') s) }"

definition PCB_equal :: "a3_state \<Rightarrow> nat \<Rightarrow> nat \<Rightarrow> bool option" where
  "PCB_equal s a b = do { p \<leftarrow> procs s a; q \<leftarrow> procs s b; Some (proc_pid p = proc_pid q) }"

definition PAGE_equal :: "a3_state \<Rightarrow> nat \<Rightarrow> nat \<Rightarrow> bool option" where
  "PAGE_equal s a b = do { p \<leftarrow> pages s a; q \<leftarrow> pages s b; Some (frame_index p ! 0 = frame_index q ! 0) }"

definition PCB_done :: "nat \<Rightarrow> a3_state \<Rightarrow> bool option" where
  "PCB_done a s = map_option (\<lambda>p. \<forall>c \<in> set (program_counter p). c = 3) (procs s a)"

end
