(* ===== verification/A3_Kernel.thy ===== *)
theory A3_Kernel
  imports A3_Process
begin

text \<open>
  The third shell: running processes (\<open>a3/cpu.c\<close>, \<open>a3/kernel.c\<close>), the command interpreter
  (\<open>a3/interpreter.c\<close>), and the parser and the main loop (\<open>a3/shell.c\<close>).

  A process runs its lines through the parser, and the parser runs commands that run
  processes; the functions of the kernel and of the interpreter take the parser as an
  argument, and \<open>parseInput_a3\<close> closes the circle. Its first argument bounds the nesting, the
  number of rounds of a scheduler and the number of commands in a line. The outcome of a
  step is \<open>Inl\<close> the exit code when the program ends, and \<open>Inr\<close> what is returned otherwise.
\<close>

type_synonym 'a step_a3 = "((int + 'a) \<times> a3_state) option"
type_synonym parser = "string \<Rightarrow> a3_state \<Rightarrow> int step_a3"

definition andthen :: "'a step_a3 \<Rightarrow> ('a \<Rightarrow> a3_state \<Rightarrow> 'b step_a3) \<Rightarrow> 'b step_a3" where
  "andthen m f = do { (r, s) \<leftarrow> m; case r of Inl c \<Rightarrow> Some (Inl c, s) | Inr x \<Rightarrow> f x s }"

lemma andthen_simps [simp]:
  "andthen None f = None" "andthen (Some (Inl c, s)) f = Some (Inl c, s)" "andthen (Some (Inr x, s)) f = f x s"
  by (simp_all add: andthen_def)

section \<open>The lists of the kernel\<close>

definition on_queue :: "(linked_list \<times> nat node_heap \<Rightarrow> (linked_list \<times> nat node_heap) option) \<Rightarrow> a3_state \<Rightarrow> a3_state option" where
  "on_queue f s = map_option (\<lambda>(l, h). s\<lparr>QUEUE := l, nodes := h\<rparr>) (f (QUEUE s, nodes s))"

definition on_lru :: "(linked_list \<times> nat node_heap \<Rightarrow> (linked_list \<times> nat node_heap) option) \<Rightarrow> a3_state \<Rightarrow> a3_state option" where
  "on_lru f s = map_option (\<lambda>(l, h). s\<lparr>LRU_CACHE := l, nodes := h\<rparr>) (f (LRU_CACHE s, nodes s))"

definition on_all :: "(linked_list \<times> nat node_heap \<Rightarrow> (linked_list \<times> nat node_heap) option) \<Rightarrow> a3_state \<Rightarrow> a3_state option" where
  "on_all f s = map_option (\<lambda>(l, h). s\<lparr>ALL_PCB := l, nodes := h\<rparr>) (f (ALL_PCB s, nodes s))"

text \<open>Popping from an empty list prints the message and ends the program.\<close>

definition or_exit :: "string + nat \<Rightarrow> a3_state \<Rightarrow> nat step_a3" where
  "or_exit r s = (case r of Inl msg \<Rightarrow> Some (Inl 99, say_a3 (Out msg) s) | Inr a \<Rightarrow> Some (Inr a, s))"

definition pop_queue :: "a3_state \<Rightarrow> nat step_a3" where
  "pop_queue s = do { (r, l, h) \<leftarrow> pop_head (QUEUE s, nodes s); or_exit r (s\<lparr>QUEUE := l, nodes := h\<rparr>) }"

definition pop_lru :: "a3_state \<Rightarrow> nat step_a3" where
  "pop_lru s = do { (r, l, h) \<leftarrow> pop_tail (LRU_CACHE s, nodes s); or_exit r (s\<lparr>LRU_CACHE := l, nodes := h\<rparr>) }"

definition kernel_setup :: "a3_state \<Rightarrow> a3_state option" where
  "kernel_setup s = do {
     s \<leftarrow> on_queue (\<lambda>(l, h). list_init h) s;
     s \<leftarrow> on_lru (\<lambda>(l, h). list_init h) s;
     on_all (\<lambda>(l, h). list_init h) s }"

section \<open>Running a line\<close>

text \<open>The line in slot \<open>j\<close> of page \<open>i\<close> of a process; the result 1 means a page fault.\<close>

definition cpu_run :: "parser \<Rightarrow> nat \<Rightarrow> nat \<Rightarrow> nat \<Rightarrow> a3_state \<Rightarrow> int step_a3" where
  "cpu_run parse a i j s = do {
     pa \<leftarrow> page_at a i s;
     pg \<leftarrow> pages s pa;
     guard_opt (j < length (valid_bit pg) \<and> j < length (frame_index pg));
     if \<not> valid_bit pg ! j then Some (Inr 1, s)
     else do {
       line \<leftarrow> mem_get_value_at (frame_index pg ! j) s;
       andthen (parse line s) (\<lambda>ret s. do {
         p \<leftarrow> procs s a;
         guard_opt (i < length (program_counter p));
         Some (Inr ret, upd_proc a (\<lambda>p. p\<lparr>program_counter := (program_counter p)[i := program_counter p ! i + 1],
           proc_size := proc_size p - 1\<rparr>) s) }) } }"

definition proc_done :: "nat \<Rightarrow> a3_state \<Rightarrow> bool option" where
  "proc_done a s = map_option (\<lambda>p. \<not> proc_size p > 0) (procs s a)"

text \<open>
  The search for the owner of a page among all processes. It compares with the tail of the
  ready queue, not with that of the list it walks along, so it has no defined end when the
  owner is missing.
\<close>

partial_function (option) find_owner :: "nat \<Rightarrow> nat option \<Rightarrow> a3_state \<Rightarrow> nat option" where
  "find_owner pid cur s = do {
     p \<leftarrow> cur;
     if p = dummy_tail (QUEUE s) then Some p
     else do {
       n \<leftarrow> cells (nodes s) p;
       d \<leftarrow> ndata n;
       pr \<leftarrow> procs s d;
       if proc_pid pr = pid then Some p else find_owner pid (nnext n) s } }"

text \<open>Making room: the page at the tail of the cache is evicted.\<close>

definition evict_victim :: "a3_state \<Rightarrow> unit step_a3" where
  "evict_victim s = andthen (pop_lru s) (\<lambda>victim_page s. do {
     pg \<leftarrow> pages s victim_page;
     t \<leftarrow> cells (nodes s) (dummy_head (ALL_PCB s));
     curr \<leftarrow> find_owner (page_pid pg) (nnext t) s;
     d \<leftarrow> node_data curr (nodes s);
     s \<leftarrow> PAGE_evict d (page_index pg) s;
     Some (Inr (), s) })"

definition handle_fault :: "nat \<Rightarrow> nat \<Rightarrow> a3_state \<Rightarrow> int step_a3" where
  "handle_fault a i s = do {
     (ok, s) \<leftarrow> load_PAGE a i s;
     andthen (if ok then Some (Inr (), s)
              else andthen (evict_victim s) (\<lambda>u s. do { (ok, s) \<leftarrow> load_PAGE a i s; Some (Inr (), s) }))
       (\<lambda>u s. do {
          pa \<leftarrow> page_at a i s;
          s \<leftarrow> on_lru (add_head pa) s;
          s \<leftarrow> on_queue (add_tail a) s;
          Some (Inr 1, s) }) }"

definition run_proc :: "parser \<Rightarrow> nat \<Rightarrow> nat \<Rightarrow> nat \<Rightarrow> a3_state \<Rightarrow> int step_a3" where
  "run_proc parse a i j s = andthen (cpu_run parse a i j s) (\<lambda>ret s.
     if ret = 1 then handle_fault a i s
     else do {
       pa \<leftarrow> page_at a i s;
       (x, l, h) \<leftarrow> remove_elem (PAGE_equal s) pa (LRU_CACHE s, nodes s);
       s \<leftarrow> on_lru (add_head x) (s\<lparr>LRU_CACHE := l, nodes := h\<rparr>);
       Some (Inr 0, s) })"

fun add_pages :: "nat list \<Rightarrow> a3_state \<Rightarrow> a3_state option" where
  "add_pages [] s = Some s"
| "add_pages (pa # pas) s = do { s \<leftarrow> on_lru (add_head pa) s; add_pages pas s }"

definition new_proc :: "fs_host \<Rightarrow> string \<Rightarrow> a3_state \<Rightarrow> int step_a3" where
  "new_proc h script s =
     andthen (PCB_init h (PID_counter s) script (s\<lparr>PID_counter := PID_counter s + 1\<rparr>)) (\<lambda>new_PCB s. do {
       s \<leftarrow> on_all (add_tail new_PCB) s;
       s \<leftarrow> on_queue (add_tail new_PCB) s;
       p \<leftarrow> procs s new_PCB;
       s \<leftarrow> add_pages (take 2 (page_list p)) s;
       Some (Inr 0, s) })"

section \<open>Schedulers\<close>

text \<open>First in, first out: the line that is run is the first valid one.\<close>

fun first_valid :: "nat \<Rightarrow> nat list \<Rightarrow> a3_state \<Rightarrow> (nat \<times> nat) option" where
  "first_valid i [] s = None"
| "first_valid i (pa # pas) s = do {
     pg \<leftarrow> pages s pa;
     case List.find (\<lambda>j. valid_bit pg ! j) [0, 1, 2] of
       Some j \<Rightarrow> Some (i, j)
     | None \<Rightarrow> first_valid (Suc i) pas s }"

fun fifo_lines :: "nat \<Rightarrow> parser \<Rightarrow> nat \<Rightarrow> a3_state \<Rightarrow> unit step_a3" where
  "fifo_lines 0 parse a s = None"
| "fifo_lines (Suc n) parse a s = do {
     finished \<leftarrow> proc_done a s;
     if finished then Some (Inr (), s)
     else do {
       p \<leftarrow> procs s a;
       (i, j) \<leftarrow> first_valid 0 (page_list p) s;
       andthen (run_proc parse a i j s) (\<lambda>ret s. fifo_lines n parse a s) } }"

fun fifo_loop :: "nat \<Rightarrow> parser \<Rightarrow> a3_state \<Rightarrow> unit step_a3" where
  "fifo_loop 0 parse s = None"
| "fifo_loop (Suc n) parse s =
    (if lsize (QUEUE s) \<le> 0 then Some (Inr (), s)
     else andthen (pop_queue s) (\<lambda>curr s.
       andthen (fifo_lines n parse curr s) (\<lambda>u s. do {
         s \<leftarrow> free_PCB curr s;
         fifo_loop n parse s })))"

definition run_proc_FIFO :: "nat \<Rightarrow> parser \<Rightarrow> a3_state \<Rightarrow> int step_a3" where
  "run_proc_FIFO n parse s = andthen (fifo_loop n parse s) (\<lambda>u s. Some (Inr 0, s))"

text \<open>Round robin: the page that is run is the first whose counter is not 3.\<close>

definition current_page :: "process \<Rightarrow> nat" where
  "current_page p = length (takeWhile (\<lambda>c. c = 3) (program_counter p))"

definition run_line :: "parser \<Rightarrow> nat \<Rightarrow> a3_state \<Rightarrow> int step_a3" where
  "run_line parse a s = do {
     p \<leftarrow> procs s a;
     let i = current_page p;
     guard_opt (i < length (program_counter p));
     run_proc parse a i (program_counter p ! i) s }"

definition round_RR_a3 :: "parser \<Rightarrow> a3_state \<Rightarrow> unit step_a3" where
  "round_RR_a3 parse s = andthen (pop_queue s) (\<lambda>curr s. do {
     p \<leftarrow> procs s curr;
     if proc_size p > 1 then
       andthen (run_line parse curr s) (\<lambda>ret s.
         if ret = 1 then Some (Inr (), s)
         else andthen (run_line parse curr s) (\<lambda>ret s.
           if ret = 1 then Some (Inr (), s)
           else do { s \<leftarrow> on_queue (add_tail curr) s; Some (Inr (), s) }))
     else if proc_size p = 1 then andthen (run_line parse curr s) (\<lambda>ret s. Some (Inr (), s))
     else Some (Inr (), s) })"

partial_function (option) all_done :: "nat option \<Rightarrow> a3_state \<Rightarrow> bool option" where
  "all_done cur s = do {
     p \<leftarrow> cur;
     more \<leftarrow> has_next p (nodes s);
     if \<not> more then Some True
     else do {
       (d, q) \<leftarrow> next_a3 p (nodes s);
       finished \<leftarrow> PCB_done d s;
       if \<not> finished then Some False else all_done q s } }"

definition queue_done :: "a3_state \<Rightarrow> bool option" where
  "queue_done s = do { t \<leftarrow> cells (nodes s) (dummy_head (QUEUE s)); all_done (nnext t) s }"

fun rr_loop :: "nat \<Rightarrow> parser \<Rightarrow> a3_state \<Rightarrow> unit step_a3" where
  "rr_loop 0 parse s = None"
| "rr_loop (Suc n) parse s = do {
     finished \<leftarrow> queue_done s;
     if finished then Some (Inr (), s)
     else andthen (round_RR_a3 parse s) (\<lambda>u s. rr_loop n parse s) }"

partial_function (option) free_all :: "nat option \<Rightarrow> a3_state \<Rightarrow> a3_state option" where
  "free_all cur s = do {
     p \<leftarrow> cur;
     more \<leftarrow> has_next p (nodes s);
     if \<not> more then Some s
     else do {
       (d, q) \<leftarrow> next_a3 p (nodes s);
       s \<leftarrow> free_PCB d s;
       free_all q s } }"

definition clear_kernel :: "a3_state \<Rightarrow> a3_state option" where
  "clear_kernel s = do {
     t \<leftarrow> cells (nodes s) (dummy_head (ALL_PCB s));
     s \<leftarrow> free_all (nnext t) s;
     s \<leftarrow> on_queue (\<lambda>(l, h). list_clear l h) s;
     s \<leftarrow> on_lru (\<lambda>(l, h). list_clear l h) s;
     on_all (\<lambda>(l, h). list_clear l h) s }"

definition run_proc_RR :: "nat \<Rightarrow> parser \<Rightarrow> a3_state \<Rightarrow> int step_a3" where
  "run_proc_RR n parse s = andthen (rr_loop n parse s) (\<lambda>u s. do { s \<leftarrow> clear_kernel s; Some (Inr 0, s) })"

end
