(* ===== verification/A3_Shell.thy ===== *)
theory A3_Shell
  imports A3_Kernel
begin

text \<open>
  The third shell: the command interpreter (\<open>a3/interpreter.c\<close>), and the parser and the main
  loop (\<open>a3/shell.c\<close>). Commands that run programs take the scheduler as an argument;
  \<open>parseInput_a3\<close> closes the circle.

  \<open>strtok\<close> keeps its place in a static variable, \<open>strtok_rest\<close>, which a nested call of the
  parser overwrites.
\<close>

section \<open>Errors\<close>

datatype error_a3 = FILE_DOES_NOT_EXIST_a3 | NO_MEM_SPACE_a3 | READY_QUEUE_FULL_a3 | SCHEDULING_ERROR_a3 |
  TOO_MANY_TOKENS_a3 | TOO_FEW_TOKENS_a3 | NON_ALPHANUMERIC_TOKEN_a3 | BAD_COMMAND_a3 | ERROR_RM_a3 |
  FILE_CREATION_ERROR_a3 | FILESYSTEM_ERROR_a3 | FILE_WRITE_ERROR_a3 | FILE_READ_ERROR_a3

definition errors_a3 :: "error_a3 list" where
  "errors_a3 = [FILE_DOES_NOT_EXIST_a3, NO_MEM_SPACE_a3, READY_QUEUE_FULL_a3, SCHEDULING_ERROR_a3,
     TOO_MANY_TOKENS_a3, TOO_FEW_TOKENS_a3, NON_ALPHANUMERIC_TOKEN_a3, BAD_COMMAND_a3, ERROR_RM_a3,
     FILE_CREATION_ERROR_a3, FILESYSTEM_ERROR_a3, FILE_WRITE_ERROR_a3, FILE_READ_ERROR_a3]"

fun error_code_a3 :: "error_a3 \<Rightarrow> int" where
  "error_code_a3 FILE_DOES_NOT_EXIST_a3 = 0"
| "error_code_a3 NO_MEM_SPACE_a3 = 1"
| "error_code_a3 READY_QUEUE_FULL_a3 = 2"
| "error_code_a3 SCHEDULING_ERROR_a3 = 3"
| "error_code_a3 TOO_MANY_TOKENS_a3 = 4"
| "error_code_a3 TOO_FEW_TOKENS_a3 = 5"
| "error_code_a3 NON_ALPHANUMERIC_TOKEN_a3 = 6"
| "error_code_a3 BAD_COMMAND_a3 = 7"
| "error_code_a3 ERROR_RM_a3 = 8"
| "error_code_a3 FILE_CREATION_ERROR_a3 = 9"
| "error_code_a3 FILESYSTEM_ERROR_a3 = 10"
| "error_code_a3 FILE_WRITE_ERROR_a3 = 11"
| "error_code_a3 FILE_READ_ERROR_a3 = 12"

fun error_msg_a3 :: "error_a3 \<Rightarrow> string" where
  "error_msg_a3 FILE_DOES_NOT_EXIST_a3 = ''file does not exist''"
| "error_msg_a3 NO_MEM_SPACE_a3 = ''no space left in shell memory''"
| "error_msg_a3 READY_QUEUE_FULL_a3 = ''ready queue is full''"
| "error_msg_a3 SCHEDULING_ERROR_a3 = ''scheduling policy error''"
| "error_msg_a3 TOO_MANY_TOKENS_a3 = ''too many tokens''"
| "error_msg_a3 TOO_FEW_TOKENS_a3 = ''too few tokens''"
| "error_msg_a3 NON_ALPHANUMERIC_TOKEN_a3 = ''non-alphanumeric token''"
| "error_msg_a3 BAD_COMMAND_a3 = ''unknown name''"
| "error_msg_a3 ERROR_RM_a3 = ''rm''"
| "error_msg_a3 FILE_CREATION_ERROR_a3 = ''file could not be created''"
| "error_msg_a3 FILESYSTEM_ERROR_a3 = ''bad filesystem''"
| "error_msg_a3 FILE_WRITE_ERROR_a3 = ''file could not be written (maybe no space?)''"
| "error_msg_a3 FILE_READ_ERROR_a3 = ''file could not be read''"

definition handle_error_a3 :: "error_a3 \<Rightarrow> a3_state \<Rightarrow> int step_a3" where
  "handle_error_a3 e s = Some (Inr (error_code_a3 e), say_a3 (Out (''Bad command: '' @ error_msg_a3 e)) s)"

text \<open>The status of \<open>copy_in\<close> and \<open>copy_out\<close> is one more than the code of an error.\<close>

definition status_error :: "int \<Rightarrow> a3_state \<Rightarrow> int step_a3" where
  "status_error status s =
    (if status = 0 then Some (Inr 0, s)
     else do {
       guard_opt (1 \<le> status \<and> nat (status - 1) < length errors_a3);
       handle_error_a3 (errors_a3 ! nat (status - 1)) s })"

section \<open>Strings\<close>

definition isalnum :: "char \<Rightarrow> bool" where
  "isalnum c \<longleftrightarrow> (let n = of_char c :: nat in 48 \<le> n \<and> n \<le> 57 \<or> 65 \<le> n \<and> n \<le> 90 \<or> 97 \<le> n \<and> n \<le> 122)"

definition isAlphaNumStr :: "string \<Rightarrow> bool" where
  "isAlphaNumStr str \<longleftrightarrow> str \<noteq> [] \<and> (\<forall>c \<in> set str. isalnum c)"

text \<open>\<open>atoi\<close> of the C library; a number that is no \<open>int\<close> has no defined result.\<close>

fun digits_value :: "int \<Rightarrow> string \<Rightarrow> int" where
  "digits_value v [] = v"
| "digits_value v (c # cs) =
    (let n = of_char c in if 48 \<le> n \<and> n \<le> 57 then digits_value (10 * v + (n - 48)) cs else v)"

definition atoi :: "string \<Rightarrow> int option" where
  "atoi cs =
    (let cs = dropWhile (\<lambda>c. c = space \<or> (9 \<le> (of_char c :: nat) \<and> of_char c \<le> (13 :: nat))) cs;
         v = (if take 1 cs = ''-'' then - digits_value 0 (tl cs)
              else if take 1 cs = ''+'' then digits_value 0 (tl cs)
              else digits_value 0 cs)
     in if - (2 ^ 31) \<le> v \<and> v < 2 ^ 31 then Some v else None)"

section \<open>Commands on variables\<close>

definition help_string_a3 :: string where
  "help_string_a3 = concat [
     ''COMMAND'', tabs 3, ''DESCRIPTION'', [newline],
     '' help'', tabs 3, ''      Displays all the commands'', [newline],
     '' quit'', tabs 3, ''      Exits / terminates the shell with '', [CHR 0xE2, CHR 0x80, CHR 0x9C],
     ''Bye!'', [CHR 0xE2, CHR 0x80, CHR 0x9D], [newline],
     '' set VAR STRING'', tabs 2, ''      Assigns a value to shell memory'', [newline],
     '' print VAR'', tabs 2, ''      Displays the STRING assigned to VAR'', [newline],
     '' echo VAR                     Displays VAR if VAR doesn'', [CHR 0x27], ''t begin with '', [CHR 0x27],
     ''$'', [CHR 0x27], '', otherwise displays the value assigned to VAR'', [newline],
     '' ls                        Displays the folders and files in the current directory in ascending order '',
     ''according to ASCII values '', [newline],
     '' run SCRIPT.TXT'', tabs 2, ''      Executes the file SCRIPT.TXT'', [newline],
     '' exec [SCRIPT.TXT]     Executes up to 3 files using the round-robin scheduling policy'', [newline],
     '' resetmem                     Deletes the content of the variable store'', [newline]]"

definition help_a3 :: "a3_state \<Rightarrow> int step_a3" where
  "help_a3 s = Some (Inr 0, say_a3 (Out help_string_a3) s)"

definition quit_a3 :: "a3_state \<Rightarrow> int step_a3" where
  "quit_a3 s = Some (Inr (- 1), say_a3 (Out ''Bye!'') s)"

text \<open>
  The words of a value are joined in a buffer of 505 characters. The result is \<open>None\<close> when the
  buffer overflows, and \<open>Some None\<close> when a word is not alphanumeric.
\<close>

fun set_buffer :: "string list \<Rightarrow> string \<Rightarrow> string option option" where
  "set_buffer [] buf = Some (Some buf)"
| "set_buffer (w # ws) buf =
    (if \<not> isAlphaNumStr w then Some None
     else let buf = buf @ w @ (if ws = [] then [] else [space])
          in if length buf < 505 then set_buffer ws buf else None)"

definition set_a3 :: "string \<Rightarrow> string \<Rightarrow> a3_state \<Rightarrow> int step_a3" where
  "set_a3 v x s =
    (if length (v @ ''='' @ x) < 1000 then Some (Inr 0, mem_set_value_a3 v x s) else None)"

definition print_a3 :: "string \<Rightarrow> a3_state \<Rightarrow> int step_a3" where
  "print_a3 v s = Some (Inr 0, say_a3 (Out (mem_get_value_a3 v CHR ''p'' s)) s)"

definition echo_a3 :: "string \<Rightarrow> a3_state \<Rightarrow> int step_a3" where
  "echo_a3 v s =
    (if take 1 v \<noteq> [dollar] then
       if \<not> isAlphaNumStr v then handle_error_a3 NON_ALPHANUMERIC_TOKEN_a3 s
       else Some (Inr 0, say_a3 (Out v) s)
     else if \<exists>k \<in> set [1..<length v]. \<not> isAlphaNumStr (drop k v) then handle_error_a3 NON_ALPHANUMERIC_TOKEN_a3 s
     else Some (Inr 0, say_a3 (Out (mem_get_value_a3 (tl v) CHR ''e'' s)) s))"

section \<open>Commands that run programs\<close>

text \<open>
  A program is copied to the backing store under a name made unique by letters at the end.
  The command line has room for 99 characters.
\<close>

definition backing_copy :: "string \<Rightarrow> a3_state \<Rightarrow> (string \<times> a3_state) option" where
  "backing_copy script s = do {
     let new_name = ''./backing_store/'' @ script @ replicate (new_name_count s) CHR ''a'';
     let cmd = ''cp ./'' @ script @ '' '' @ new_name;
     guard_opt (length cmd < 100);
     Some (new_name, say_a3 (System cmd) (s\<lparr>new_name_count := new_name_count s + 1\<rparr>)) }"

definition reset_backing :: "string \<Rightarrow> a3_state \<Rightarrow> a3_state" where
  "reset_backing wd s = say_a3 (System (''mkdir '' @ wd @ ''/backing_store''))
     (say_a3 (System (''rm -rf '' @ wd @ ''/backing_store'')) s)"

definition run_a3 :: "fs_host \<Rightarrow> (string \<Rightarrow> a3_state \<Rightarrow> int step_a3) \<Rightarrow> string \<Rightarrow> a3_state \<Rightarrow> int step_a3" where
  "run_a3 h sched script s = andthen (new_proc h script s) (\<lambda>r s.
     if r \<noteq> 0 then Some (Inr 1, s) else sched ''RR'' s)"

fun add_scripts :: "fs_host \<Rightarrow> string list \<Rightarrow> a3_state \<Rightarrow> int step_a3" where
  "add_scripts h [] s = Some (Inr 0, s)"
| "add_scripts h (f # gs) s = andthen (new_proc h f s) (\<lambda>r s. if r \<noteq> 0 then Some (Inr 1, s) else add_scripts h gs s)"

definition exec_a3 ::
  "fs_host \<Rightarrow> (string \<Rightarrow> a3_state \<Rightarrow> int step_a3) \<Rightarrow> string list \<Rightarrow> string \<Rightarrow> a3_state \<Rightarrow> int step_a3" where
  "exec_a3 h sched scripts policy s =
    (if length scripts > 3 then Some (Inr 1, say_a3 (Out ''exec can only take between 1 to 3 scripts'') s)
     else andthen (add_scripts h scripts s) (\<lambda>r s. if r \<noteq> 0 then Some (Inr 1, s) else sched policy s))"

definition run_policy :: "nat \<Rightarrow> parser \<Rightarrow> string \<Rightarrow> a3_state \<Rightarrow> int step_a3" where
  "run_policy n parse policy s =
    (if policy = ''FIFO'' then run_proc_FIFO n parse s
     else if policy = ''RR'' then run_proc_RR n parse s
     else Some (Inr 0, s))"

fun backing_copies :: "string list \<Rightarrow> a3_state \<Rightarrow> (string list \<times> a3_state) option" where
  "backing_copies [] s = Some ([], s)"
| "backing_copies (f # gs) s = do {
     (new_name, s) \<leftarrow> backing_copy f s;
     (names, s) \<leftarrow> backing_copies gs s;
     Some (new_name # names, s) }"

text \<open>\<open>run\<close> and \<open>exec\<close> with their arguments.\<close>

definition run_command :: "fs_host \<Rightarrow> (string \<Rightarrow> a3_state \<Rightarrow> int step_a3) \<Rightarrow> string \<Rightarrow> string \<Rightarrow> a3_state \<Rightarrow> int step_a3" where
  "run_command h sched wd script s = do {
     (new_name, s) \<leftarrow> backing_copy script s;
     andthen (run_a3 h sched new_name s) (\<lambda>ret s. Some (Inr ret, reset_backing wd s)) }"

definition exec_command :: "fs_host \<Rightarrow> (string \<Rightarrow> a3_state \<Rightarrow> int step_a3) \<Rightarrow> string \<Rightarrow> string list \<Rightarrow> a3_state \<Rightarrow> int step_a3" where
  "exec_command h sched wd scripts s = do {
     (names, s) \<leftarrow> backing_copies scripts s;
     andthen (exec_a3 h sched names ''RR'' s) (\<lambda>ret s. Some (Inr ret, reset_backing wd s)) }"

section \<open>Commands on files\<close>

text \<open>A command of the file system, as a step of the shell.\<close>

definition on_fs :: "('a \<times> fs_state) option \<Rightarrow> ('a \<Rightarrow> a3_state \<Rightarrow> int step_a3) \<Rightarrow> a3_state \<Rightarrow> int step_a3" where
  "on_fs m f s = do { (r, t) \<leftarrow> m; f r (s\<lparr>fs := t\<rparr>) }"

definition on_fs_unit :: "fs_state option \<Rightarrow> a3_state \<Rightarrow> int step_a3" where
  "on_fs_unit m s = on_fs (map_option (Pair ()) m) (\<lambda>u s. Some (Inr 0, s)) s"

text \<open>The buffer of \<open>write\<close> ends with two null characters: one replaces the last space, one more is counted.\<close>

definition write_command :: "string \<Rightarrow> string list \<Rightarrow> a3_state \<Rightarrow> int step_a3" where
  "write_command name ws s =
    (let buf = map char_byte (join_words ws) @ [0, 0]; sz = int (length buf) in
     on_fs (fsutil_write name buf sz (fs s)) (\<lambda>(bytes_written, b) s.
       if bytes_written = - 1 then handle_error_a3 FILE_WRITE_ERROR_a3 s
       else if bytes_written \<noteq> sz then
         Some (Inr 0, say_a3 (Out (''Warning: could only write '' @ show_int bytes_written @ '' out of '' @ show_int sz @
           '' bytes (reached end of file'')) s)
       else Some (Inr 0, s)) s)"

text \<open>\<open>read\<close> returns 1 when it has read as many bytes as were asked for.\<close>

definition read_command :: "string \<Rightarrow> string \<Rightarrow> a3_state \<Rightarrow> int step_a3" where
  "read_command name arg s = do {
     sz \<leftarrow> atoi arg;
     guard_opt (0 \<le> sz \<and> sz < 2 ^ 31 - 1);
     on_fs (fsutil_read name sz (fs s)) (\<lambda>r s.
       case r of
         None \<Rightarrow> handle_error_a3 FILE_READ_ERROR_a3 s
       | Some bs \<Rightarrow> Some (Inr (if int (length bs) = sz then 1 else 0), say_a3 (Out (bytes_name (zero_padded sz bs))) s)) s }"

definition create_command :: "string \<Rightarrow> string \<Rightarrow> a3_state \<Rightarrow> int step_a3" where
  "create_command name arg s = do {
     sz \<leftarrow> atoi arg;
     on_fs (fsutil_create name sz (fs s)) (\<lambda>ok s.
       if ok then Some (Inr 0, s) else handle_error_a3 FILE_CREATION_ERROR_a3 s) s }"

definition seek_command :: "string \<Rightarrow> string \<Rightarrow> a3_state \<Rightarrow> int step_a3" where
  "seek_command name arg s = do {
     offset \<leftarrow> atoi arg;
     on_fs (fsutil_seek name offset (fs s)) (\<lambda>status s.
       if status = - 1 then handle_error_a3 FILE_DOES_NOT_EXIST_a3 s else Some (Inr 0, s)) s }"

definition size_command :: "string \<Rightarrow> a3_state \<Rightarrow> int step_a3" where
  "size_command name s = on_fs (fsutil_size name (fs s)) (\<lambda>len s.
     if len = - 1 then handle_error_a3 FILE_DOES_NOT_EXIST_a3 s
     else Some (Inr 0, say_a3 (Out (''File length: '' @ show_int len)) s)) s"

definition freespace_command :: "a3_state \<Rightarrow> int step_a3" where
  "freespace_command s = do {
     free_space \<leftarrow> fsutil_freespace (fs s);
     guard_opt (free_space * BLOCK_SECTOR_SIZE < 2 ^ 31);
     Some (Inr 0, say_a3 (Out (''Num free sectors: '' @ show_nat free_space @ '' ('' @
       show_nat (free_space * BLOCK_SECTOR_SIZE) @ '' total bytes)'')) s) }"

text \<open>The command \<open>rm\<close> returns 1 when it has removed the file.\<close>

definition fs_command :: "fs_host \<Rightarrow> string \<Rightarrow> string list \<Rightarrow> a3_state \<Rightarrow> int step_a3" where
  "fs_command h cmd args s =
    (let too_many = handle_error_a3 TOO_MANY_TOKENS_a3 s; n = length args in
     if cmd = ''ls'' then
       if n > 0 then too_many
       else on_fs (fsutil_ls (fs s)) (\<lambda>status s. if status = 1 then handle_error_a3 FILESYSTEM_ERROR_a3 s else Some (Inr 0, s)) s
     else if cmd = ''cat'' then
       if n \<noteq> 1 then too_many
       else on_fs (fsutil_cat (args ! 0) (fs s)) (\<lambda>status s. if status = 1 then handle_error_a3 FILE_DOES_NOT_EXIST_a3 s else Some (Inr 0, s)) s
     else if cmd = ''rm'' then
       if n \<noteq> 1 then too_many
       else on_fs (fsutil_rm (args ! 0) (fs s)) (\<lambda>ok s. if ok then Some (Inr 1, s) else handle_error_a3 ERROR_RM_a3 s) s
     else if cmd = ''create'' then if n \<noteq> 2 then too_many else create_command (args ! 0) (args ! 1) s
     else if cmd = ''write'' then
       if n < 2 then handle_error_a3 TOO_FEW_TOKENS_a3 s else write_command (args ! 0) (tl args) s
     else if cmd = ''find_file'' then
       if n < 1 then handle_error_a3 TOO_FEW_TOKENS_a3 s else on_fs_unit (find_file (join_words args) (fs s)) s
     else if cmd = ''read'' then if n \<noteq> 2 then too_many else read_command (args ! 0) (args ! 1) s
     else if cmd = ''copy_in'' then if n \<noteq> 1 then too_many else on_fs (copy_in h (args ! 0) (fs s)) status_error s
     else if cmd = ''copy_out'' then if n \<noteq> 1 then too_many else on_fs (copy_out h (args ! 0) (fs s)) status_error s
     else if cmd = ''size'' then if n \<noteq> 1 then too_many else size_command (args ! 0) s
     else if cmd = ''seek'' then if n \<noteq> 2 then too_many else seek_command (args ! 0) (args ! 1) s
     else if cmd = ''freespace'' then if n \<noteq> 0 then too_many else freespace_command s
     else if cmd = ''fragmentation_degree'' then if n \<noteq> 0 then too_many else on_fs_unit (fragmentation_degree h (fs s)) s
     else if cmd = ''defragment'' then
       if n \<noteq> 0 then too_many else on_fs (defragment (fs s)) (\<lambda>status s. Some (Inr 0, s)) s
     else if cmd = ''recover'' then
       if n \<noteq> 1 then too_many else do { flag \<leftarrow> atoi (args ! 0); on_fs_unit (recover h flag (fs s)) s }
     else handle_error_a3 BAD_COMMAND_a3 s)"

section \<open>The interpreter\<close>

definition interpreter_a3 ::
  "fs_host \<Rightarrow> (string \<Rightarrow> a3_state \<Rightarrow> int step_a3) \<Rightarrow> string \<Rightarrow> string list \<Rightarrow> a3_state \<Rightarrow> int step_a3" where
  "interpreter_a3 h sched wd words s =
    (case map strip_eol words of
       [] \<Rightarrow> handle_error_a3 TOO_FEW_TOKENS_a3 s
     | cmd # args \<Rightarrow>
         let n = length args; too_many = handle_error_a3 TOO_MANY_TOKENS_a3 s; too_few = handle_error_a3 TOO_FEW_TOKENS_a3 s in
         if cmd = ''help'' then if n > 0 then too_many else help_a3 s
         else if cmd = ''quit'' \<or> cmd = ''exit'' then
           if n > 0 then too_many
           else do {
             t \<leftarrow> filesys_done (say (System (''rm -rf '' @ wd @ ''/backing_store'')) (fs s));
             quit_a3 (s\<lparr>fs := t\<rparr>) }
         else if cmd = ''set'' then
           if n < 2 then too_few
           else if \<not> isAlphaNumStr (args ! 0) then handle_error_a3 NON_ALPHANUMERIC_TOKEN_a3 s
           else do {
             buffer \<leftarrow> set_buffer (tl args) [];
             case buffer of
               None \<Rightarrow> handle_error_a3 NON_ALPHANUMERIC_TOKEN_a3 s
             | Some x \<Rightarrow> set_a3 (args ! 0) x s }
         else if cmd = ''print'' then
           if n < 1 then too_few else if n > 1 then too_many else print_a3 (args ! 0) s
         else if cmd = ''run'' then
           if n < 1 then too_few else if n > 1 then too_many else run_command h sched wd (args ! 0) s
         else if cmd = ''echo'' then
           if n > 1 then too_many else do { guard_opt (n = 1); echo_a3 (args ! 0) s }
         else if cmd = ''exec'' then
           if n < 1 then too_few else if n > 4 then too_many else exec_command h sched wd args s
         else if cmd = ''resetmem'' then Some (Inr 0, reset_var_zone s)
         else fs_command h cmd args s)"

section \<open>The parser\<close>

text \<open>\<open>strtok\<close> for semicolons: the next part, and what is left.\<close>

definition strtok :: "string \<Rightarrow> string option \<times> string" where
  "strtok cs =
    (let cs = dropWhile (\<lambda>c. c = semicolon) cs in
     if cs = [] then (None, [])
     else (Some (takeWhile (\<lambda>c. c \<noteq> semicolon) cs), tl (dropWhile (\<lambda>c. c \<noteq> semicolon) cs)))"

text \<open>The words of a part, after its leading spaces; between two spaces there is an empty word.\<close>

function words_a3 :: "string \<Rightarrow> string list" where
  "words_a3 cs =
    (if cs = [] then []
     else takeWhile (\<lambda>c. c \<noteq> space) cs # words_a3 (tl (dropWhile (\<lambda>c. c \<noteq> space) cs)))"
  by pat_completeness auto
termination
proof (relation "measure length", goal_cases)
  case 1
  show ?case by simp
next
  case (2 cs)
  then show ?case using length_dropWhile_le [of "\<lambda>c. c \<noteq> space" cs] by (cases cs) (auto simp: le_imp_less_Suc)
qed

declare words_a3.simps [simp del]

fun sections :: "nat \<Rightarrow> (string list \<Rightarrow> a3_state \<Rightarrow> int step_a3) \<Rightarrow> string option \<Rightarrow> int \<Rightarrow> a3_state \<Rightarrow> int step_a3" where
  "sections n interp None ret s = Some (Inr ret, s)"
| "sections 0 interp (Some token) ret s = None"
| "sections (Suc n) interp (Some token) ret s = do {
     let ws = words_a3 (dropWhile (\<lambda>c. c = space) token);
     guard_opt (length ws \<le> 100);
     andthen (interp ws s) (\<lambda>ret s.
       let (tokens, rest) = strtok (strtok_rest s); s = s\<lparr>strtok_rest := rest\<rparr> in
       if ret = - 1 then Some (Inr ret, s) else sections n interp tokens ret s) }"

primrec parseInput_a3 :: "nat \<Rightarrow> fs_host \<Rightarrow> string \<Rightarrow> string \<Rightarrow> a3_state \<Rightarrow> int step_a3" where
  "parseInput_a3 0 h wd ui s = None"
| "parseInput_a3 (Suc n) h wd ui s =
    (if 1000 \<le> length ui then None
     else let (tokens, rest) = strtok ui in
       sections n (interpreter_a3 h (run_policy n (parseInput_a3 n h wd)) wd) tokens 0 (s\<lparr>strtok_rest := rest\<rparr>))"

section \<open>The main loop\<close>

text \<open>\<open>main\<close>, on the lines of its input; \<open>tty\<close> tells whether the input is a terminal. After
  the last line the program waits for more.\<close>

fun main_loop_a3 :: "nat \<Rightarrow> fs_host \<Rightarrow> string \<Rightarrow> bool \<Rightarrow> string list \<Rightarrow> a3_state \<Rightarrow> int step_a3" where
  "main_loop_a3 n h wd tty [] s = Some (Inr 0, s)"
| "main_loop_a3 n h wd tty (l # ls) s =
    andthen (parseInput_a3 n h wd l (if tty then say_a3 (Raw ''$ '') s else s)) (\<lambda>errorCode s.
      if errorCode = - 1 then Some (Inl 99, s) else main_loop_a3 n h wd tty ls s)"

text \<open>
  The arguments of the program after its name, the partition table of the disk as the
  driver finds it, and the number of the open disk file.
\<close>

definition main_a3 ::
  "nat \<Rightarrow> fs_host \<Rightarrow> string \<Rightarrow> bool \<Rightarrow> string list \<Rightarrow> u8 list \<Rightarrow> int \<Rightarrow> string list \<Rightarrow> a3_state \<Rightarrow> int step_a3" where
  "main_a3 n h wd tty argv pt0 fdno ls s =
    (case argv of
       [] \<Rightarrow> Some (Inr 1, say_a3 (Out (''Error: myshell must be called with the hard drive as argument. '' @
         ''E.g., ./myshell myhd.dsk'')) s)
     | hd_name # opts \<Rightarrow> do {
         guard_opt (length wd < 1024);
         let s = say_a3 (System ''mkdir backing_store'') (say_a3 (System ''rm -rf backing_store'') s);
         let s = say_a3 (Out ''Shell v2.1'') s;
         let s = say_a3 (Out (''Frame Store Size = '' @ show_nat (frame_store_size s) @ ''; Variable Store Size = '' @
           show_nat (length (store s) - frame_store_size s))) s;
         s \<leftarrow> kernel_setup (mem_init_a3 s);
         t \<leftarrow> ide_init n pt0 hd_name fdno (fs s);
         t \<leftarrow> filesys_init (opts = [''-f'']) t;
         main_loop_a3 n h wd tty ls (s\<lparr>fs := t\<rparr>) })"

end
