(* ===== verification/A3_Frames.thy ===== *)
theory A3_Frames
  imports A3_Kernel
begin

text \<open>
  Facts about the lists and the frames of the kernel of the third shell (\<open>a3/kernel.c\<close>,
  \<open>a3/pcb.c\<close>, \<open>a3/shellmemory.c\<close>). \<open>klists\<close> describes the three lists of the kernel, which live on
  one heap; \<open>frames_ok\<close> describes a frame store that was filled from its start; \<open>program\<close> are the
  scripts that \<open>fgets\<close> reads line by line.
\<close>

section \<open>Three lists on one heap\<close>

definition klists :: "a3_state \<Rightarrow> nat list \<Rightarrow> nat list \<Rightarrow> nat list \<Rightarrow> bool" where
  "klists s q c al \<longleftrightarrow> (\<exists>ps qs rs. linked_at ps (QUEUE s, nodes s) q \<and> linked_at qs (LRU_CACHE s, nodes s) c \<and>
     linked_at rs (ALL_PCB s, nodes s) al \<and> own ps (QUEUE s) \<inter> own qs (LRU_CACHE s) = {} \<and>
     own ps (QUEUE s) \<inter> own rs (ALL_PCB s) = {} \<and> own qs (LRU_CACHE s) \<inter> own rs (ALL_PCB s) = {})"

lemma klists_cong:
  "QUEUE s' = QUEUE s \<Longrightarrow> LRU_CACHE s' = LRU_CACHE s \<Longrightarrow> ALL_PCB s' = ALL_PCB s \<Longrightarrow> nodes s' = nodes s \<Longrightarrow>
   klists s' q c al = klists s q c al"
  by (simp add: klists_def)

text \<open>A change of one list, and what it means for another.\<close>

lemma neighbour:
  assumes "linked_at qs (k, h) ys" and "own ps l \<inter> own qs k = {}" and "frame_off (own ps l) h h'"
    and "linked_at ps' (l', h') xs'" and "own ps' l' \<subseteq> insert (fresh h) (own ps l)"
  shows "linked_at qs (k, h') ys" and "own ps' l' \<inter> own qs k = {}"
proof -
  show "linked_at qs (k, h') ys"
    by (rule linked_at_frame [OF assms(1,3)]) (use assms(2) linked_at_own [OF assms(4)] in auto)
  have "fresh h \<notin> own qs k" using linked_at_own [OF assms(1)] by fastforce
  then show "own ps' l' \<inter> own qs k = {}" using assms(2,5) by blast
qed

lemma own_lsize [simp]: "own ps (l\<lparr>lsize := n\<rparr>) = own ps l"
  by (simp add: own_def)

lemma own_grow: "own (ps @ [x]) l \<subseteq> insert x (own ps l)" "own (x # ps) l \<subseteq> insert x (own ps l)"
  by (auto simp: own_def)

lemma own_shrink: "set qs \<subseteq> set ps \<Longrightarrow> own qs l \<subseteq> insert x (own ps l)"
  by (auto simp: own_def)

lemma queue_step:
  assumes "klists s q c al"
    and "\<And>ps. linked_at ps (QUEUE s, nodes s) q \<Longrightarrow> \<exists>h' ps'. f (QUEUE s, nodes s) = Some (r, (QUEUE s)\<lparr>lsize := n\<rparr>, h') \<and>
      linked_at ps' ((QUEUE s)\<lparr>lsize := n\<rparr>, h') q' \<and> own ps' (QUEUE s) \<subseteq> insert (fresh (nodes s)) (own ps (QUEUE s)) \<and>
      frame_off (own ps (QUEUE s)) (nodes s) h'"
  shows "\<exists>h'. f (QUEUE s, nodes s) = Some (r, (QUEUE s)\<lparr>lsize := n\<rparr>, h') \<and> klists (s\<lparr>QUEUE := (QUEUE s)\<lparr>lsize := n\<rparr>, nodes := h'\<rparr>) q' c al"
proof -
  obtain ps qs rs where k: "linked_at ps (QUEUE s, nodes s) q" "linked_at qs (LRU_CACHE s, nodes s) c"
    "linked_at rs (ALL_PCB s, nodes s) al" "own ps (QUEUE s) \<inter> own qs (LRU_CACHE s) = {}"
    "own ps (QUEUE s) \<inter> own rs (ALL_PCB s) = {}" "own qs (LRU_CACHE s) \<inter> own rs (ALL_PCB s) = {}"
    using assms(1) by (auto simp: klists_def)
  from assms(2) [OF k(1)] obtain h' ps' where h': "f (QUEUE s, nodes s) = Some (r, (QUEUE s)\<lparr>lsize := n\<rparr>, h')"
      "linked_at ps' ((QUEUE s)\<lparr>lsize := n\<rparr>, h') q'" "own ps' ((QUEUE s)\<lparr>lsize := n\<rparr>) \<subseteq> insert (fresh (nodes s)) (own ps (QUEUE s))"
      "frame_off (own ps (QUEUE s)) (nodes s) h'" by auto
  note n1 = neighbour [OF k(2,4) h'(4,2,3)] and n2 = neighbour [OF k(3,5) h'(4,2,3)]
  have "klists (s\<lparr>QUEUE := (QUEUE s)\<lparr>lsize := n\<rparr>, nodes := h'\<rparr>) q' c al"
    using h'(2) n1 n2 k(6) by (fastforce simp: klists_def)
  with h'(1) show ?thesis by blast
qed

lemma lru_step:
  assumes "klists s q c al"
    and "\<And>ps. linked_at ps (LRU_CACHE s, nodes s) c \<Longrightarrow> \<exists>h' ps'. f (LRU_CACHE s, nodes s) = Some (r, (LRU_CACHE s)\<lparr>lsize := n\<rparr>, h') \<and>
      linked_at ps' ((LRU_CACHE s)\<lparr>lsize := n\<rparr>, h') c' \<and> own ps' (LRU_CACHE s) \<subseteq> insert (fresh (nodes s)) (own ps (LRU_CACHE s)) \<and>
      frame_off (own ps (LRU_CACHE s)) (nodes s) h'"
  shows "\<exists>h'. f (LRU_CACHE s, nodes s) = Some (r, (LRU_CACHE s)\<lparr>lsize := n\<rparr>, h') \<and> klists (s\<lparr>LRU_CACHE := (LRU_CACHE s)\<lparr>lsize := n\<rparr>, nodes := h'\<rparr>) q c' al"
proof -
  obtain ps qs rs where k: "linked_at ps (QUEUE s, nodes s) q" "linked_at qs (LRU_CACHE s, nodes s) c"
    "linked_at rs (ALL_PCB s, nodes s) al" "own ps (QUEUE s) \<inter> own qs (LRU_CACHE s) = {}"
    "own ps (QUEUE s) \<inter> own rs (ALL_PCB s) = {}" "own qs (LRU_CACHE s) \<inter> own rs (ALL_PCB s) = {}"
    using assms(1) by (auto simp: klists_def)
  from assms(2) [OF k(2)] obtain h' qs' where h': "f (LRU_CACHE s, nodes s) = Some (r, (LRU_CACHE s)\<lparr>lsize := n\<rparr>, h')"
      "linked_at qs' ((LRU_CACHE s)\<lparr>lsize := n\<rparr>, h') c'" "own qs' ((LRU_CACHE s)\<lparr>lsize := n\<rparr>) \<subseteq> insert (fresh (nodes s)) (own qs (LRU_CACHE s))"
      "frame_off (own qs (LRU_CACHE s)) (nodes s) h'" by auto
  have dis: "own qs (LRU_CACHE s) \<inter> own ps (QUEUE s) = {}" using k(4) by blast
  note n1 = neighbour [OF k(1) dis h'(4,2,3)] and n2 = neighbour [OF k(3,6) h'(4,2,3)]
  have "own ps (QUEUE s) \<inter> own qs' ((LRU_CACHE s)\<lparr>lsize := n\<rparr>) = {}" using n1(2) by blast
  then have "klists (s\<lparr>LRU_CACHE := (LRU_CACHE s)\<lparr>lsize := n\<rparr>, nodes := h'\<rparr>) q c' al"
    using h'(2) n1 n2 k(5) by (fastforce simp: klists_def)
  with h'(1) show ?thesis by blast
qed

lemma all_step:
  assumes "klists s q c al"
    and "\<And>ps. linked_at ps (ALL_PCB s, nodes s) al \<Longrightarrow> \<exists>h' ps'. f (ALL_PCB s, nodes s) = Some (r, (ALL_PCB s)\<lparr>lsize := n\<rparr>, h') \<and>
      linked_at ps' ((ALL_PCB s)\<lparr>lsize := n\<rparr>, h') al' \<and> own ps' (ALL_PCB s) \<subseteq> insert (fresh (nodes s)) (own ps (ALL_PCB s)) \<and>
      frame_off (own ps (ALL_PCB s)) (nodes s) h'"
  shows "\<exists>h'. f (ALL_PCB s, nodes s) = Some (r, (ALL_PCB s)\<lparr>lsize := n\<rparr>, h') \<and> klists (s\<lparr>ALL_PCB := (ALL_PCB s)\<lparr>lsize := n\<rparr>, nodes := h'\<rparr>) q c al'"
proof -
  obtain ps qs rs where k: "linked_at ps (QUEUE s, nodes s) q" "linked_at qs (LRU_CACHE s, nodes s) c"
    "linked_at rs (ALL_PCB s, nodes s) al" "own ps (QUEUE s) \<inter> own qs (LRU_CACHE s) = {}"
    "own ps (QUEUE s) \<inter> own rs (ALL_PCB s) = {}" "own qs (LRU_CACHE s) \<inter> own rs (ALL_PCB s) = {}"
    using assms(1) by (auto simp: klists_def)
  from assms(2) [OF k(3)] obtain h' rs' where h': "f (ALL_PCB s, nodes s) = Some (r, (ALL_PCB s)\<lparr>lsize := n\<rparr>, h')"
      "linked_at rs' ((ALL_PCB s)\<lparr>lsize := n\<rparr>, h') al'" "own rs' ((ALL_PCB s)\<lparr>lsize := n\<rparr>) \<subseteq> insert (fresh (nodes s)) (own rs (ALL_PCB s))"
      "frame_off (own rs (ALL_PCB s)) (nodes s) h'" by auto
  have dis: "own rs (ALL_PCB s) \<inter> own ps (QUEUE s) = {}" "own rs (ALL_PCB s) \<inter> own qs (LRU_CACHE s) = {}" using k(5,6) by blast+
  note n1 = neighbour [OF k(1) dis(1) h'(4,2,3)] and n2 = neighbour [OF k(2) dis(2) h'(4,2,3)]
  have "own ps (QUEUE s) \<inter> own rs' ((ALL_PCB s)\<lparr>lsize := n\<rparr>) = {}" "own qs (LRU_CACHE s) \<inter> own rs' ((ALL_PCB s)\<lparr>lsize := n\<rparr>) = {}"
    using n1(2) n2(2) by blast+
  then have "klists (s\<lparr>ALL_PCB := (ALL_PCB s)\<lparr>lsize := n\<rparr>, nodes := h'\<rparr>) q c al'"
    using h'(2) n1 n2 k(4) by (fastforce simp: klists_def)
  with h'(1) show ?thesis by blast
qed

text \<open>The operations of the kernel on its lists.\<close>

lemma queue_add:
  assumes "klists s q c al"
  shows "\<exists>l h. on_queue (add_tail d) s = Some (s\<lparr>QUEUE := l, nodes := h\<rparr>) \<and> klists (s\<lparr>QUEUE := l, nodes := h\<rparr>) (q @ [d]) c al"
proof -
  have "\<exists>h'. (\<lambda>lh. map_option (Pair ()) (add_tail d lh)) (QUEUE s, nodes s) = Some ((), (QUEUE s)\<lparr>lsize := lsize (QUEUE s) + 1\<rparr>, h') \<and>
      klists (s\<lparr>QUEUE := (QUEUE s)\<lparr>lsize := lsize (QUEUE s) + 1\<rparr>, nodes := h'\<rparr>) (q @ [d]) c al"
    by (rule queue_step [OF assms]) (use add_tail_at own_grow(1) in fastforce)
  then show ?thesis by (auto simp: on_queue_def)
qed

lemma lru_add:
  assumes "klists s q c al"
  shows "\<exists>l h. on_lru (add_head d) s = Some (s\<lparr>LRU_CACHE := l, nodes := h\<rparr>) \<and> klists (s\<lparr>LRU_CACHE := l, nodes := h\<rparr>) q (d # c) al"
proof -
  have "\<exists>h'. (\<lambda>lh. map_option (Pair ()) (add_head d lh)) (LRU_CACHE s, nodes s) = Some ((), (LRU_CACHE s)\<lparr>lsize := lsize (LRU_CACHE s) + 1\<rparr>, h') \<and>
      klists (s\<lparr>LRU_CACHE := (LRU_CACHE s)\<lparr>lsize := lsize (LRU_CACHE s) + 1\<rparr>, nodes := h'\<rparr>) q (d # c) al"
    by (rule lru_step [OF assms]) (use add_head_at own_grow(2) in fastforce)
  then show ?thesis by (auto simp: on_lru_def)
qed

lemma all_add:
  assumes "klists s q c al"
  shows "\<exists>l h. on_all (add_tail d) s = Some (s\<lparr>ALL_PCB := l, nodes := h\<rparr>) \<and> klists (s\<lparr>ALL_PCB := l, nodes := h\<rparr>) q c (al @ [d])"
proof -
  have "\<exists>h'. (\<lambda>lh. map_option (Pair ()) (add_tail d lh)) (ALL_PCB s, nodes s) = Some ((), (ALL_PCB s)\<lparr>lsize := lsize (ALL_PCB s) + 1\<rparr>, h') \<and>
      klists (s\<lparr>ALL_PCB := (ALL_PCB s)\<lparr>lsize := lsize (ALL_PCB s) + 1\<rparr>, nodes := h'\<rparr>) q c (al @ [d])"
    by (rule all_step [OF assms]) (use add_tail_at own_grow(1) in fastforce)
  then show ?thesis by (auto simp: on_all_def)
qed

lemma queue_pop:
  assumes "klists s (a # q) c al"
  shows "\<exists>l h. pop_queue s = Some (Inr a, s\<lparr>QUEUE := l, nodes := h\<rparr>) \<and> klists (s\<lparr>QUEUE := l, nodes := h\<rparr>) q c al"
proof -
  have "\<exists>h'. pop_head (QUEUE s, nodes s) = Some (Inr a, (QUEUE s)\<lparr>lsize := lsize (QUEUE s) - 1\<rparr>, h') \<and>
      klists (s\<lparr>QUEUE := (QUEUE s)\<lparr>lsize := lsize (QUEUE s) - 1\<rparr>, nodes := h'\<rparr>) q c al"
  proof (rule queue_step [OF assms])
    fix ps assume l: "linked_at ps (QUEUE s, nodes s) (a # q)"
    then obtain p ps' where "ps = p # ps'" using linked_data [OF l] by (cases ps) auto
    with pop_head_at [of p ps' "QUEUE s" "nodes s" a q] l own_shrink [of ps' ps "QUEUE s" "fresh (nodes s)"]
    show "\<exists>h' ps'. pop_head (QUEUE s, nodes s) = Some (Inr a, (QUEUE s)\<lparr>lsize := lsize (QUEUE s) - 1\<rparr>, h') \<and>
      linked_at ps' ((QUEUE s)\<lparr>lsize := lsize (QUEUE s) - 1\<rparr>, h') q \<and> own ps' (QUEUE s) \<subseteq> insert (fresh (nodes s)) (own ps (QUEUE s)) \<and>
      frame_off (own ps (QUEUE s)) (nodes s) h'" by auto
  qed
  then obtain h' where "pop_queue s = Some (Inr a, s\<lparr>QUEUE := (QUEUE s)\<lparr>lsize := lsize (QUEUE s) - 1\<rparr>, nodes := h'\<rparr>)"
    "klists (s\<lparr>QUEUE := (QUEUE s)\<lparr>lsize := lsize (QUEUE s) - 1\<rparr>, nodes := h'\<rparr>) q c al"
    by (auto simp: pop_queue_def or_exit_def)
  then show ?thesis by blast
qed

text \<open>Moving a page to the head of the cache.\<close>

lemma lru_touch:
  assumes "klists s q c al" and "pa \<in> set c" and "distinct c" and "\<forall>x \<in> set c. PAGE_equal s pa x = Some (x = pa)"
  shows "\<exists>l h l' h'. remove_elem (PAGE_equal s) pa (LRU_CACHE s, nodes s) = Some (pa, l, h) \<and>
    on_lru (add_head pa) (s\<lparr>LRU_CACHE := l, nodes := h\<rparr>) = Some (s\<lparr>LRU_CACHE := l', nodes := h'\<rparr>) \<and>
    klists (s\<lparr>LRU_CACHE := l', nodes := h'\<rparr>) q (pa # remove1 pa c) al"
proof -
  obtain us vs where c: "c = us @ pa # vs" "pa \<notin> set us" using split_list_first [OF assms(2)] by blast
  have rem: "remove1 pa c = us @ vs" using c by (simp add: remove1_append)
  have us: "\<forall>y \<in> set us. PAGE_equal s pa y = Some False" "PAGE_equal s pa pa = Some True"
    using assms(4) c by auto
  have "\<exists>h'. remove_elem (PAGE_equal s) pa (LRU_CACHE s, nodes s) = Some (pa, (LRU_CACHE s)\<lparr>lsize := lsize (LRU_CACHE s) - 1\<rparr>, h') \<and>
      klists (s\<lparr>LRU_CACHE := (LRU_CACHE s)\<lparr>lsize := lsize (LRU_CACHE s) - 1\<rparr>, nodes := h'\<rparr>) q (us @ vs) al"
  proof (rule lru_step [OF assms(1)])
    fix ps assume "linked_at ps (LRU_CACHE s, nodes s) c"
    then have l: "linked_at ps (LRU_CACHE s, nodes s) (us @ pa # vs)" using c(1) by simp
    from remove_elem_at [of ps "LRU_CACHE s" "nodes s" us pa vs "PAGE_equal s" pa] l us
    show "\<exists>h' ps'. remove_elem (PAGE_equal s) pa (LRU_CACHE s, nodes s) = Some (pa, (LRU_CACHE s)\<lparr>lsize := lsize (LRU_CACHE s) - 1\<rparr>, h') \<and>
      linked_at ps' ((LRU_CACHE s)\<lparr>lsize := lsize (LRU_CACHE s) - 1\<rparr>, h') (us @ vs) \<and>
      own ps' (LRU_CACHE s) \<subseteq> insert (fresh (nodes s)) (own ps (LRU_CACHE s)) \<and> frame_off (own ps (LRU_CACHE s)) (nodes s) h'"
      using own_shrink by blast
  qed
  then obtain h where h: "remove_elem (PAGE_equal s) pa (LRU_CACHE s, nodes s) = Some (pa, (LRU_CACHE s)\<lparr>lsize := lsize (LRU_CACHE s) - 1\<rparr>, h)"
    "klists (s\<lparr>LRU_CACHE := (LRU_CACHE s)\<lparr>lsize := lsize (LRU_CACHE s) - 1\<rparr>, nodes := h\<rparr>) q (us @ vs) al" by blast
  from lru_add [OF h(2), of pa] obtain l' h' where
    "on_lru (add_head pa) (s\<lparr>LRU_CACHE := (LRU_CACHE s)\<lparr>lsize := lsize (LRU_CACHE s) - 1\<rparr>, nodes := h\<rparr>) = Some (s\<lparr>LRU_CACHE := l', nodes := h'\<rparr>)"
    "klists (s\<lparr>LRU_CACHE := l', nodes := h'\<rparr>) q (pa # us @ vs) al" by auto
  with h(1) rem show ?thesis by auto
qed

text \<open>Emptying the lists.\<close>

lemma clear_lists:
  assumes "klists s q c al"
  shows "\<exists>lq lc la h. (do {
      s \<leftarrow> on_queue (\<lambda>(l, h). list_clear l h) s;
      s \<leftarrow> on_lru (\<lambda>(l, h). list_clear l h) s;
      on_all (\<lambda>(l, h). list_clear l h) s }) = Some (s\<lparr>QUEUE := lq, LRU_CACHE := lc, ALL_PCB := la, nodes := h\<rparr>) \<and>
    klists (s\<lparr>QUEUE := lq, LRU_CACHE := lc, ALL_PCB := la, nodes := h\<rparr>) [] [] []"
proof -
  have clear: "\<exists>h' ps'. (\<lambda>lh. map_option (Pair ()) ((\<lambda>(l, h). list_clear l h) lh)) (l, h) = Some ((), l\<lparr>lsize := 0\<rparr>, h') \<and>
      linked_at ps' (l\<lparr>lsize := 0\<rparr>, h') [] \<and> own ps' l \<subseteq> insert (fresh h) (own ps l) \<and> frame_off (own ps l) h h'"
    if l: "linked_at ps (l, h) xs" for ps and l :: linked_list and h :: "nat node_heap" and xs
  proof -
    from list_clear_at [OF l] obtain h' where h': "list_clear l h = Some (l\<lparr>lsize := 0\<rparr>, h')" "linked_at [] (l\<lparr>lsize := 0\<rparr>, h') []"
      "frame_off (own [] l) h h'" by blast
    have "own [] l \<subseteq> own ps l" by (auto simp: own_def)
    with h' have "frame_off (own ps l) h h'" "own [] l \<subseteq> insert (fresh h) (own ps l)" by (auto simp: frame_off_def)
    with h'(1,2) show ?thesis by auto
  qed
  have "\<exists>h. (\<lambda>lh. map_option (Pair ()) ((\<lambda>(l, h). list_clear l h) lh)) (QUEUE s, nodes s) = Some ((), (QUEUE s)\<lparr>lsize := 0\<rparr>, h) \<and>
      klists (s\<lparr>QUEUE := (QUEUE s)\<lparr>lsize := 0\<rparr>, nodes := h\<rparr>) [] c al"
    by (rule queue_step [OF assms], rule clear)
  then obtain h1 where h1: "list_clear (QUEUE s) (nodes s) = Some ((QUEUE s)\<lparr>lsize := 0\<rparr>, h1)"
    and k1: "klists (s\<lparr>QUEUE := (QUEUE s)\<lparr>lsize := 0\<rparr>, nodes := h1\<rparr>) [] c al" by auto
  let ?s1 = "s\<lparr>QUEUE := (QUEUE s)\<lparr>lsize := 0\<rparr>, nodes := h1\<rparr>"
  have "\<exists>h. (\<lambda>lh. map_option (Pair ()) ((\<lambda>(l, h). list_clear l h) lh)) (LRU_CACHE ?s1, nodes ?s1) = Some ((), (LRU_CACHE ?s1)\<lparr>lsize := 0\<rparr>, h) \<and>
      klists (?s1\<lparr>LRU_CACHE := (LRU_CACHE ?s1)\<lparr>lsize := 0\<rparr>, nodes := h\<rparr>) [] [] al"
    by (rule lru_step [OF k1], rule clear)
  then obtain h2 where h2: "list_clear (LRU_CACHE s) h1 = Some ((LRU_CACHE s)\<lparr>lsize := 0\<rparr>, h2)"
    and k2: "klists (?s1\<lparr>LRU_CACHE := (LRU_CACHE s)\<lparr>lsize := 0\<rparr>, nodes := h2\<rparr>) [] [] al" by auto
  let ?s2 = "?s1\<lparr>LRU_CACHE := (LRU_CACHE s)\<lparr>lsize := 0\<rparr>, nodes := h2\<rparr>"
  have "\<exists>h. (\<lambda>lh. map_option (Pair ()) ((\<lambda>(l, h). list_clear l h) lh)) (ALL_PCB ?s2, nodes ?s2) = Some ((), (ALL_PCB ?s2)\<lparr>lsize := 0\<rparr>, h) \<and>
      klists (?s2\<lparr>ALL_PCB := (ALL_PCB ?s2)\<lparr>lsize := 0\<rparr>, nodes := h\<rparr>) [] [] []"
    by (rule all_step [OF k2], rule clear)
  then obtain h3 where h3: "list_clear (ALL_PCB s) h2 = Some ((ALL_PCB s)\<lparr>lsize := 0\<rparr>, h3)"
    and k3: "klists (?s2\<lparr>ALL_PCB := (ALL_PCB s)\<lparr>lsize := 0\<rparr>, nodes := h3\<rparr>) [] [] []" by auto
  show ?thesis
    by (intro exI [of _ "(QUEUE s)\<lparr>lsize := 0\<rparr>"] exI [of _ "(LRU_CACHE s)\<lparr>lsize := 0\<rparr>"] exI [of _ "(ALL_PCB s)\<lparr>lsize := 0\<rparr>"] exI [of _ h3])
      (use h1 h2 h3 k3 in \<open>simp add: on_queue_def on_lru_def on_all_def\<close>)
qed

text \<open>Walking along a list.\<close>

lemma all_done_walk:
  assumes "chain (cells (nodes s)) (ps @ [z])" and "map (\<lambda>x. node_data x (nodes s)) ps = map Some xs" and "nx (cells (nodes s)) z = None"
    and "\<forall>a \<in> set xs. PCB_done a s = Some (D a)"
  shows "all_done (Some (hd (ps @ [z]))) s = Some (\<forall>a \<in> set xs. D a)"
  using assms
proof (induction ps arbitrary: xs)
  case Nil
  then obtain n where "cells (nodes s) z = Some n" "nnext n = None" by (auto simp: nx_def)
  then show ?case using Nil by (subst all_done.simps) (simp add: has_next_def)
next
  case (Cons p ps)
  obtain x xs' where xs: "xs = x # xs'" using Cons.prems(2) by (cases xs) auto
  have "nx (cells (nodes s)) p = Some (hd (ps @ [z]))" "chain (cells (nodes s)) (ps @ [z])" using Cons.prems(1) by (cases ps; simp)+
  moreover obtain n where n: "cells (nodes s) p = Some n" "ndata n = Some x"
    using Cons.prems(2) xs by (auto simp: node_data_def bind_eq_Some_conv)
  ultimately show ?case
    using Cons.IH [of xs'] Cons.prems xs
    by (subst all_done.simps) (simp add: has_next_def next_a3_def next_node_def node_data_def nx_def)
qed

lemma queue_done_ok:
  assumes "klists s q c al" and "\<forall>a \<in> set q. PCB_done a s = Some (D a)"
  shows "queue_done s = Some (\<forall>a \<in> set q. D a)"
proof -
  obtain ps where l: "linked_at ps (QUEUE s, nodes s) q" using assms(1) by (auto simp: klists_def)
  note a = l [unfolded linked_at_def, simplified]
  have "chain (cells (nodes s)) (ps @ [dummy_tail (QUEUE s)])" using a by (cases ps) auto
  from all_done_walk [OF this _ _ assms(2)] a linked_first [OF l] show ?thesis by (auto simp: queue_done_def)
qed

section \<open>Frames\<close>

lemma clear_frame_ok:
  assumes "i + 2 < length (store s)"
  shows "clear_frame i s = Some (s\<lparr>store := (store s)[i := free_slot, i + 1 := free_slot, i + 2 := free_slot]\<rparr>)"
  using assms by (simp add: clear_frame_def mem_free_at_def guard_opt_def)

text \<open>Slots that are cleared, and slots that keep their content.\<close>

definition cleared :: "nat set \<Rightarrow> nat \<Rightarrow> memory_struct list \<Rightarrow> memory_struct list \<Rightarrow> bool" where
  "cleared X b st st' \<longleftrightarrow> length st' = length st \<and> (\<forall>y < length st. (y \<in> X \<longrightarrow> st' ! y = free_slot) \<and>
     (st' ! y = st ! y \<or> st' ! y = free_slot \<and> y < b))"

lemma cleared_refl: "cleared {} b st st"
  by (simp add: cleared_def)

lemma cleared_trans: "cleared X b st st' \<Longrightarrow> cleared Y b st' st'' \<Longrightarrow> cleared (X \<union> Y) b st st''"
  unfolding cleared_def by (metis Un_iff)

lemma clear_frames_ok:
  assumes "\<forall>i \<in> set is. i + 2 < b" and "b \<le> length (store s)"
  shows "\<exists>st. clear_frames is s = Some (s\<lparr>store := st\<rparr>) \<and> cleared (set is) b (store s) st"
  using assms
proof (induction "is" arbitrary: s)
  case Nil
  then show ?case by (auto intro!: exI [of _ "store s"] simp: cleared_refl)
next
  case (Cons i "is")
  let ?st = "(store s)[i := free_slot, i + 1 := free_slot, i + 2 := free_slot]"
  have "cleared {i} b (store s) ?st" using Cons.prems by (auto simp: cleared_def nth_list_update)
  moreover obtain st where st: "clear_frames is (s\<lparr>store := ?st\<rparr>) = Some (s\<lparr>store := st\<rparr>)" "cleared (set is) b ?st st"
    using Cons.IH [of "s\<lparr>store := ?st\<rparr>"] Cons.prems by auto
  ultimately have "cleared ({i} \<union> set is) b (store s) st" by (blast intro: cleared_trans)
  moreover have "clear_frames (i # is) s = Some (s\<lparr>store := st\<rparr>)" using st(1) Cons.prems by (simp add: clear_frame_ok)
  ultimately show ?case by auto
qed

lemma free_pages_ok:
  assumes "\<forall>pa \<in> set pas. \<exists>pg. pages s pa = Some pg \<and> F pa = set (frame_index pg) \<and> (\<forall>x \<in> set (frame_index pg). x + 2 < b)"
    and "b \<le> length (store s)" and "distinct pas"
  shows "\<exists>st. free_pages pas s = Some (s\<lparr>store := st, pages := (\<lambda>x. if x \<in> set pas then None else pages s x)\<rparr>) \<and>
    cleared (\<Union> (F ` set pas)) b (store s) st"
  using assms
proof (induction pas arbitrary: s)
  case Nil
  then show ?case by (auto intro!: exI [of _ "store s"] simp: cleared_refl)
next
  case (Cons pa pas)
  obtain pg where pg: "pages s pa = Some pg" "F pa = set (frame_index pg)" "\<forall>x \<in> set (frame_index pg). x + 2 < b" using Cons.prems(1) by auto
  obtain st where st: "clear_frames (frame_index pg) s = Some (s\<lparr>store := st\<rparr>)" "cleared (set (frame_index pg)) b (store s) st"
    using clear_frames_ok [OF pg(3) Cons.prems(2)] by blast
  let ?s = "s\<lparr>store := st, pages := (pages s)(pa := None)\<rparr>"
  have "pa \<notin> set pas" using Cons.prems(3) by simp
  then have "\<forall>pa' \<in> set pas. pages ?s pa' = pages s pa'" by auto
  then have "\<forall>pa' \<in> set pas. \<exists>pg. pages ?s pa' = Some pg \<and> F pa' = set (frame_index pg) \<and> (\<forall>x \<in> set (frame_index pg). x + 2 < b)"
    using Cons.prems(1) by simp
  moreover have "b \<le> length (store ?s)" using st(2) Cons.prems(2) by (simp add: cleared_def)
  moreover have "distinct pas" using Cons.prems(3) by simp
  ultimately obtain st' where "free_pages pas ?s = Some (?s\<lparr>store := st', pages := (\<lambda>x. if x \<in> set pas then None else pages ?s x)\<rparr>)"
    and c': "cleared (\<Union> (F ` set pas)) b (store ?s) st'" using Cons.IH by blast
  moreover have "(\<lambda>x. if x \<in> set pas then None else pages ?s x) = (\<lambda>x. if x \<in> set (pa # pas) then None else pages s x)"
    by auto
  ultimately have st': "free_pages pas ?s = Some (s\<lparr>store := st', pages := (\<lambda>x. if x \<in> set (pa # pas) then None else pages s x)\<rparr>)"
    by simp
  have "free_pages (pa # pas) s = Some (s\<lparr>store := st', pages := (\<lambda>x. if x \<in> set (pa # pas) then None else pages s x)\<rparr>)"
    using pg(1) st(1) st' by simp
  moreover have "cleared (\<Union> (F ` set (pa # pas))) b (store s) st'"
    using cleared_trans [OF st(2), of "\<Union> (F ` set pas)" st'] c' pg(2) by simp
  ultimately show ?case by blast
qed

lemma free_PCB_ok:
  assumes "procs s a = Some p"
    and "\<forall>pa \<in> set (page_list p). \<exists>pg. pages s pa = Some pg \<and> F pa = set (frame_index pg) \<and> (\<forall>x \<in> set (frame_index pg). x + 2 < b)"
    and "b \<le> length (store s)" and "distinct (page_list p)"
  shows "\<exists>st. free_PCB a s = Some (s\<lparr>procs := (procs s)(a := None), store := st,
      pages := (\<lambda>x. if x \<in> set (page_list p) then None else pages s x)\<rparr>) \<and> cleared (\<Union> (F ` set (page_list p))) b (store s) st"
proof -
  obtain st where "free_pages (page_list p) s = Some (s\<lparr>store := st, pages := (\<lambda>x. if x \<in> set (page_list p) then None else pages s x)\<rparr>)"
    and c: "cleared (\<Union> (F ` set (page_list p))) b (store s) st" using free_pages_ok [OF assms(2-4)] by blast
  then have "free_PCB a s = Some (s\<lparr>procs := (procs s)(a := None), store := st,
      pages := (\<lambda>x. if x \<in> set (page_list p) then None else pages s x)\<rparr>)" using assms(1) by (simp add: free_PCB_def)
  with c show ?thesis by blast
qed

lemma free_all_ok:
  assumes "chain (cells (nodes s)) (ps @ [z])" and "map (\<lambda>x. node_data x (nodes s)) ps = map Some as" and "nx (cells (nodes s)) z = None"
    and "\<forall>a \<in> set as. \<exists>p. procs s a = Some p \<and> page_list p = P a \<and> distinct (P a) \<and>
      (\<forall>pa \<in> set (P a). \<exists>pg. pages s pa = Some pg \<and> F pa = set (frame_index pg) \<and> (\<forall>x \<in> set (frame_index pg). x + 2 < b))"
    and "\<forall>a \<in> set as. \<forall>a' \<in> set as. a \<noteq> a' \<longrightarrow> set (P a) \<inter> set (P a') = {}" and "b \<le> length (store s)" and "distinct as"
  shows "\<exists>st pr pgs. free_all (Some (hd (ps @ [z]))) s = Some (s\<lparr>procs := pr, store := st, pages := pgs\<rparr>) \<and>
    cleared (\<Union>a \<in> set as. \<Union> (F ` set (P a))) b (store s) st"
  using assms
proof (induction ps arbitrary: as s)
  case Nil
  then obtain n where "cells (nodes s) z = Some n" "nnext n = None" by (auto simp: nx_def)
  moreover have "as = []" using Nil by (cases as) auto
  ultimately show ?case
    by (subst free_all.simps) (auto intro!: exI [of _ "store s"] exI [of _ "procs s"] exI [of _ "pages s"] simp: has_next_def cleared_refl)
next
  case (Cons q ps)
  obtain a as' where as: "as = a # as'" using Cons.prems(2) by (cases as) auto
  have nxt: "nx (cells (nodes s)) q = Some (hd (ps @ [z]))" "chain (cells (nodes s)) (ps @ [z])" using Cons.prems(1) by (cases ps; simp)+
  obtain n where n: "cells (nodes s) q = Some n" "ndata n = Some a"
    using Cons.prems(2) as by (auto simp: node_data_def bind_eq_Some_conv)
  obtain p where p: "procs s a = Some p" "page_list p = P a" "distinct (P a)"
    "\<forall>pa \<in> set (P a). \<exists>pg. pages s pa = Some pg \<and> F pa = set (frame_index pg) \<and> (\<forall>x \<in> set (frame_index pg). x + 2 < b)"
    using Cons.prems(4) as by auto
  let ?pgs = "\<lambda>x. if x \<in> set (P a) then None else pages s x"
  obtain st where st: "free_PCB a s = Some (s\<lparr>procs := (procs s)(a := None), store := st, pages := ?pgs\<rparr>)"
    "cleared (\<Union> (F ` set (P a))) b (store s) st"
    using free_PCB_ok [OF p(1), of F b] p Cons.prems(6) by auto
  let ?s = "s\<lparr>procs := (procs s)(a := None), store := st, pages := ?pgs\<rparr>"
  have "\<forall>a' \<in> set as'. \<exists>p. procs ?s a' = Some p \<and> page_list p = P a' \<and> distinct (P a') \<and>
      (\<forall>pa \<in> set (P a'). \<exists>pg. pages ?s pa = Some pg \<and> F pa = set (frame_index pg) \<and> (\<forall>x \<in> set (frame_index pg). x + 2 < b))"
  proof
    fix a' assume a': "a' \<in> set as'"
    then have "a' \<noteq> a" using Cons.prems(7) as by auto
    then have "set (P a) \<inter> set (P a') = {}" using Cons.prems(5) as a' by (metis list.set_intros)
    then have "\<forall>pa \<in> set (P a'). ?pgs pa = pages s pa" by auto
    then show "\<exists>p. procs ?s a' = Some p \<and> page_list p = P a' \<and> distinct (P a') \<and>
      (\<forall>pa \<in> set (P a'). \<exists>pg. pages ?s pa = Some pg \<and> F pa = set (frame_index pg) \<and> (\<forall>x \<in> set (frame_index pg). x + 2 < b))"
      using Cons.prems(4) as a' \<open>a' \<noteq> a\<close> by simp
  qed
  moreover have "b \<le> length (store ?s)" using st(2) Cons.prems(6) by (simp add: cleared_def)
  ultimately obtain st' pr pgs where r: "free_all (Some (hd (ps @ [z]))) ?s = Some (?s\<lparr>procs := pr, store := st', pages := pgs\<rparr>)"
    "cleared (\<Union>a \<in> set as'. \<Union> (F ` set (P a))) b st st'"
    using Cons.IH [of ?s as'] Cons.prems nxt(2) as by auto
  have "free_all (Some (hd ((q # ps) @ [z]))) s = Some (s\<lparr>procs := pr, store := st', pages := pgs\<rparr>)"
    using n nxt(1) st(1) r(1)
    by (subst free_all.simps) (simp add: has_next_def next_a3_def next_node_def node_data_def nx_def)
  moreover have "cleared (\<Union>a \<in> set as. \<Union> (F ` set (P a))) b (store s) st'"
    using cleared_trans [OF st(2) r(2)] as by simp
  ultimately show ?case by blast
qed

section \<open>Loading a page\<close>

text \<open>
  The lines of a program: all but the last end with a newline, none is blank, and each fits
  into the buffer of \<open>fgets\<close>.
\<close>

definition program :: "string list \<Rightarrow> bool" where
  "program L \<longleftrightarrow> L \<noteq> [] \<and>
     (\<forall>l \<in> set (butlast L). \<exists>w. l = w @ [newline] \<and> w \<noteq> [] \<and> newline \<notin> set w \<and> length w < 997) \<and>
     last L \<noteq> [] \<and> newline \<notin> set (last L) \<and> length (last L) < 998"

lemma program_Cons: "program (l # l' # L) \<longleftrightarrow> (\<exists>w. l = w @ [newline] \<and> w \<noteq> [] \<and> newline \<notin> set w \<and> length w < 997) \<and> program (l' # L)"
  by (auto simp: program_def)

lemma program_drop: "program L \<Longrightarrow> k < length L \<Longrightarrow> program (drop k L)"
proof (induction k arbitrary: L)
  case (Suc k)
  obtain l l' L' where "L = l # l' # L'" using Suc.prems by (cases L; cases "tl L") auto
  then show ?case using Suc.IH [of "l' # L'"] Suc.prems by (simp add: program_Cons)
qed simp

lemma fgets_program: "program (l # L) \<Longrightarrow> \<exists>eof. fgets 998 (concat (l # L)) = (l, concat L, eof) \<and> l \<noteq> []"
proof (cases L)
  case Nil
  assume "program (l # L)"
  then have "l \<noteq> []" "newline \<notin> set l" "length l < 998" using Nil by (auto simp: program_def)
  then show ?thesis using fgets_last [of l 998] Nil by auto
next
  case (Cons l' L')
  assume "program (l # L)"
  then obtain w where "l = w @ [newline]" "newline \<notin> set w" "length w < 998" using Cons by (auto simp: program_Cons)
  then show ?thesis using fgets_line [of w 998 "concat L"] by auto
qed

lemma count_newlines_append:
  "newline \<notin> set w \<Longrightarrow> w \<noteq> [] \<Longrightarrow> count_newlines c (w @ cs) = count_newlines (last w) cs"
proof (induction w arbitrary: c)
  case (Cons x w)
  then show ?case by (cases w) auto
qed simp

lemma count_lines_program: "program L \<Longrightarrow> count_lines (concat L) = length L"
proof -
  have "program L \<Longrightarrow> count_newlines newline (concat L) = length L - 1"
  proof (induction L rule: induct_list012)
    case (2 l)
    then have "newline \<notin> set l" "l \<noteq> []" by (auto simp: program_def)
    then show ?case using count_newlines_append [of l newline "[]"] by simp
  next
    case (3 l l' L)
    then obtain w where w: "l = w @ [newline]" "newline \<notin> set w" "w \<noteq> []" by (auto simp: program_Cons)
    moreover have "last w \<noteq> newline" using w by (metis last_in_set)
    ultimately show ?case using count_newlines_append [of w newline "newline # concat (l' # L)"] 3 by (simp add: program_Cons)
  qed (simp add: program_def)
  moreover assume "program L"
  moreover from this have "L \<noteq> []" by (simp add: program_def)
  ultimately show ?thesis by (cases L) (simp_all add: count_lines_def)
qed

text \<open>Reading lines into the frame of a page.\<close>

lemma fill_page_ok:
  assumes "procs s a = Some p" and "source_file p = concat R" and "R = [] \<or> program R" and "pages s pa = Some pg"
    and "\<forall>j \<in> set js. frame_index pg ! j < length (store s)"
  shows "fill_page js pid a pa s = Some (s\<lparr>procs := (procs s)(a \<mapsto> p\<lparr>source_file := concat (drop (length js) R)\<rparr>),
      pages := (pages s)(pa \<mapsto> pg\<lparr>valid_bit := fold (\<lambda>(j, l) v. v[j := True]) (zip js R) (valid_bit pg)\<rparr>),
      store := fold (\<lambda>(j, l) st. st[frame_index pg ! j := \<lparr>var = pid, val = l\<rparr>]) (zip js R) (store s)\<rparr>)"
  using assms
proof (induction js arbitrary: s R p pg)
  case Nil
  then have "(procs s)(a \<mapsto> p\<lparr>source_file := concat R\<rparr>) = procs s" "(pages s)(pa \<mapsto> pg) = pages s"
    by (auto simp: fun_eq_iff)
  then show ?case by simp
next
  case (Cons j js)
  show ?case
  proof (cases R)
    case Nil
    have "fgets 998 [] = ([], [], True)" using fgets.simps(2) [of 997] by (simp add: eval_nat_numeral)
    moreover have "(pages s)(pa \<mapsto> pg) = pages s" using Cons.prems(4) by auto
    ultimately show ?thesis using Cons.prems Nil by (simp add: upd_proc_def fun_upd_def)
  next
    case R: (Cons l R')
    then have "program (l # R')" using Cons.prems(3) by simp
    then obtain eof where f: "fgets 998 (concat (l # R')) = (l, concat R', eof)" "l \<noteq> []" using fgets_program by blast
    have pr: "R' = [] \<or> program R'" using program_drop [of "l # R'" 1] \<open>program (l # R')\<close> by (cases R') auto
    let ?p = "p\<lparr>source_file := concat R'\<rparr>" and ?pg = "pg\<lparr>valid_bit := (valid_bit pg)[j := True]\<rparr>"
      and ?st = "(store s)[frame_index pg ! j := \<lparr>var = pid, val = l\<rparr>]"
    let ?s = "s\<lparr>procs := (procs s)(a \<mapsto> ?p), store := ?st, pages := (pages s)(pa \<mapsto> ?pg)\<rparr>"
    have "fill_page (j # js) pid a pa s = fill_page js pid a pa ?s"
      using Cons.prems f R by (simp add: upd_proc_def upd_page_def mem_set_value_at_def guard_opt_def)
    also have "\<dots> = Some (?s\<lparr>procs := (procs ?s)(a \<mapsto> ?p\<lparr>source_file := concat (drop (length js) R')\<rparr>),
      pages := (pages ?s)(pa \<mapsto> ?pg\<lparr>valid_bit := fold (\<lambda>(j, l) v. v[j := True]) (zip js R') (valid_bit ?pg)\<rparr>),
      store := fold (\<lambda>(j, l) st. st[frame_index ?pg ! j := \<lparr>var = pid, val = l\<rparr>]) (zip js R') (store ?s)\<rparr>)"
      by (rule Cons.IH) (use Cons.prems pr in auto)
    finally show ?thesis using R by (simp del: fun_upd_apply fill_page.simps)
  qed
qed

text \<open>
  The frame store: the pages in \<open>ld\<close> have the frames from the first one on, and all slots behind
  them are free.
\<close>

definition frames_ok :: "a3_state \<Rightarrow> nat list \<Rightarrow> bool" where
  "frames_ok s ld \<longleftrightarrow> frame_store_size s \<le> length (store s) \<and> 3 * length ld \<le> frame_store_size s \<and> distinct ld \<and>
     (\<forall>t < length ld. \<exists>pg. pages s (ld ! t) = Some pg \<and> frame_index pg = [3 * t, 3 * t + 1, 3 * t + 2]) \<and>
     (\<forall>x < frame_store_size s. var (store s ! x) = ''none'' \<longleftrightarrow> 3 * length ld \<le> x)"

lemma free_frame_ok:
  assumes "frames_ok s ld" and "3 * length ld + 3 \<le> frame_store_size s"
  shows "free_frame s = Some (3 * length ld)"
proof -
  let ?P = "\<lambda>i. i + 3 \<le> frame_store_size s \<and> (\<forall>k \<in> set [i, i + 1, i + 2]. var (store s ! k) = ''none'')"
  have "\<not> ?P i" if "i < 3 * length ld" for i using assms that by (force simp: frames_ok_def)
  moreover have "?P (3 * length ld)" using assms by (simp add: frames_ok_def)
  ultimately have "List.find ?P [0..<frame_store_size s] = Some (3 * length ld)"
    using assms(2) by (intro iffD2 [OF find_Some_iff] exI [of _ "3 * length ld"]) auto
  then show ?thesis by (simp add: free_frame_def)
qed

lemma show_nat_digits: "c \<in> set (show_nat n) \<Longrightarrow> (of_char c :: nat) < 58"
proof (induction n rule: show_nat.induct)
  case (1 n)
  show ?case
  proof (cases "n < 10")
    case True
    then show ?thesis using 1(2) by (subst (asm) show_nat.simps) (simp add: of_char_of)
  next
    case False
    have "n mod 10 < 10" by simp
    then show ?thesis using 1(1) [OF False] 1(2) False by (subst (asm) show_nat.simps) (auto simp: of_char_of)
  qed
qed

lemma show_nat_none: "show_nat n \<noteq> ''none''"
proof
  assume "show_nat n = ''none''"
  then have "CHR ''n'' \<in> set (show_nat n)" by simp
  from show_nat_digits [OF this] show False by simp
qed

text \<open>The bits and the slots of a page whose lines from \<open>R\<close> on were read.\<close>

lemma fold_bits: "fold (\<lambda>(j, l) v. v[j := True]) (zip [0, 1, 2] R) [False, False, False] = map (\<lambda>j. j < length R) [0, 1, 2::nat]"
proof (cases R)
  case (Cons a R1)
  then show ?thesis by (cases R1; cases "tl R1") auto
qed simp

lemma fold_slots:
  fixes st :: "memory_struct list" and R :: "string list" and pid :: string and x :: nat
  assumes "x + 2 < length st"
  defines "st' \<equiv> fold (\<lambda>(j, l) st. st[[x, x + 1, x + 2] ! j := \<lparr>var = pid, val = l\<rparr>]) (zip [0, 1, 2::nat] R) st"
  shows "length st' = length st" and "\<forall>y. y < x \<or> x + 3 \<le> y \<longrightarrow> st' ! y = st ! y"
    and "\<forall>j < 3. j < length R \<longrightarrow> val (st' ! (x + j)) = R ! j"
    and "\<forall>j < 3. var (st ! (x + j)) = pid \<longrightarrow> var (st' ! (x + j)) = pid"
proof -
  have three: "(\<forall>j < 3. P j) \<longleftrightarrow> P 0 \<and> P 1 \<and> P (2::nat)" for P by (auto simp: less_Suc_eq numeral_3_eq_3 numeral_2_eq_2)
  have "length st' = length st \<and> (\<forall>y. y < x \<or> x + 3 \<le> y \<longrightarrow> st' ! y = st ! y) \<and> (\<forall>j < 3. j < length R \<longrightarrow> val (st' ! (x + j)) = R ! j) \<and>
    (\<forall>j < 3. var (st ! (x + j)) = pid \<longrightarrow> var (st' ! (x + j)) = pid)"
  proof (cases R)
    case Nil
    then show ?thesis by (simp add: st'_def)
  next
    case (Cons a R1)
    then show ?thesis using assms(1) unfolding three st'_def by (cases R1; cases "tl R1") auto
  qed
  then show "length st' = length st" and "\<forall>y. y < x \<or> x + 3 \<le> y \<longrightarrow> st' ! y = st ! y"
    and "\<forall>j < 3. j < length R \<longrightarrow> val (st' ! (x + j)) = R ! j"
    and "\<forall>j < 3. var (st ! (x + j)) = pid \<longrightarrow> var (st' ! (x + j)) = pid" by blast+
qed

lemma load_PAGE_ok:
  assumes "frames_ok s ld" and "3 * length ld + 3 \<le> frame_store_size s" and "procs s a = Some p" and "i < length (page_list p)"
    and "page_list p ! i = pa" and "pages s pa = Some pg" and "pa \<notin> set ld" and "source_file p = concat R" and "R = [] \<or> program R"
  shows "\<exists>st pg'. load_PAGE a i s = Some (True, s\<lparr>procs := (procs s)(a \<mapsto> p\<lparr>source_file := concat (drop 3 R)\<rparr>),
      pages := (pages s)(pa \<mapsto> pg'), store := st\<rparr>) \<and>
    pg' = pg\<lparr>frame_index := [3 * length ld, 3 * length ld + 1, 3 * length ld + 2], valid_bit := map (\<lambda>j. j < length R) [0, 1, 2]\<rparr> \<and>
    length st = length (store s) \<and> (\<forall>y. y < 3 * length ld \<or> 3 * length ld + 3 \<le> y \<longrightarrow> st ! y = store s ! y) \<and>
    (\<forall>j < 3. j < length R \<longrightarrow> val (st ! (3 * length ld + j)) = R ! j) \<and>
    frames_ok (s\<lparr>procs := (procs s)(a \<mapsto> p\<lparr>source_file := concat (drop 3 R)\<rparr>), pages := (pages s)(pa \<mapsto> pg'), store := st\<rparr>) (ld @ [pa])"
proof -
  let ?x = "3 * length ld" and ?pid = "show_nat (proc_pid p)"
  define st1 where "st1 = (store s)[?x := (store s ! ?x)\<lparr>var := ?pid\<rparr>, ?x + 1 := (store s ! (?x + 1))\<lparr>var := ?pid\<rparr>,
    ?x + 2 := (store s ! (?x + 2))\<lparr>var := ?pid\<rparr>]"
  define pg1 where "pg1 = pg\<lparr>frame_index := [?x, ?x + 1, ?x + 2], valid_bit := [False, False, False]\<rparr>"
  define s1 where "s1 = s\<lparr>store := st1, pages := (pages s)(pa \<mapsto> pg1)\<rparr>"
  have fits: "?x + 3 \<le> length (store s)" using assms(1,2) by (simp add: frames_ok_def)
  have alloc: "frame_alloc ?pid pa s = Some (True, s1)"
    using free_frame_ok [OF assms(1,2)] assms(6) fits by (simp add: frame_alloc_def guard_opt_def Let_def s1_def st1_def pg1_def)
  have len1: "length st1 = length (store s)" by (simp add: st1_def)
  have st1: "\<forall>y. y < ?x \<or> ?x + 3 \<le> y \<longrightarrow> st1 ! y = store s ! y" "\<forall>j < 3. var (st1 ! (?x + j)) = ?pid"
  proof -
    show "\<forall>y. y < ?x \<or> ?x + 3 \<le> y \<longrightarrow> st1 ! y = store s ! y" by (auto simp: st1_def)
    have three: "j = 0 \<or> j = 1 \<or> j = 2" if "j < 3" for j :: nat using that by linarith
    show "\<forall>j < 3. var (st1 ! (?x + j)) = ?pid" using fits by (auto simp: st1_def dest!: three)
  qed
  define st where "st = fold (\<lambda>(j, l) st. st[[?x, ?x + 1, ?x + 2] ! j := \<lparr>var = ?pid, val = l\<rparr>]) (zip [0, 1, 2] R) st1"
  define pg' where "pg' = pg\<lparr>frame_index := [?x, ?x + 1, ?x + 2], valid_bit := map (\<lambda>j. j < length R) [0, 1, 2]\<rparr>"
  define s2 where "s2 = s\<lparr>procs := (procs s)(a \<mapsto> p\<lparr>source_file := concat (drop 3 R)\<rparr>), pages := (pages s)(pa \<mapsto> pg'), store := st\<rparr>"
  have "fill_page [0, 1, 2] ?pid a pa s1 = Some (s1\<lparr>procs := (procs s1)(a \<mapsto> p\<lparr>source_file := concat (drop (length [0::nat, 1, 2]) R)\<rparr>),
      pages := (pages s1)(pa \<mapsto> pg1\<lparr>valid_bit := fold (\<lambda>(j, l) v. v[j := True]) (zip [0, 1, 2] R) (valid_bit pg1)\<rparr>),
      store := fold (\<lambda>(j, l) st. st[frame_index pg1 ! j := \<lparr>var = ?pid, val = l\<rparr>]) (zip [0, 1, 2] R) (store s1)\<rparr>)"
    by (rule fill_page_ok) (use assms(3,8,9) fits in \<open>auto simp: s1_def pg1_def len1\<close>)
  moreover have "pg1\<lparr>valid_bit := fold (\<lambda>(j, l) v. v[j := True]) (zip [0, 1, 2] R) (valid_bit pg1)\<rparr> = pg'"
    using fold_bits [of R] by (simp add: pg1_def pg'_def)
  moreover have "fold (\<lambda>(j, l) st. st[frame_index pg1 ! j := \<lparr>var = ?pid, val = l\<rparr>]) (zip [0, 1, 2] R) (store s1) = st"
    by (simp add: st_def s1_def pg1_def)
  ultimately have "fill_page [0, 1, 2] ?pid a pa s1 = Some s2" by (simp add: s2_def s1_def numeral_3_eq_3 del: fill_page.simps)
  then have load: "load_PAGE a i s = Some (True, s2)"
    using assms(3-5) alloc by (simp add: load_PAGE_def page_at_def del: fill_page.simps)
  have x2: "?x + 2 < length st1" using fits len1 by simp
  note fs = fold_slots [OF x2, where pid = ?pid and R = R, folded st_def]
  have keep: "\<forall>y. y < ?x \<or> ?x + 3 \<le> y \<longrightarrow> st ! y = store s ! y" using fs(2) st1(1) by metis
  have vars: "var (st ! (?x + j)) = ?pid" if "j < 3" for j using fs(4) st1(2) that by blast
  have "frames_ok s2 (ld @ [pa])"
    unfolding frames_ok_def
  proof (intro conjI allI impI)
    show "frame_store_size s2 \<le> length (store s2)" "3 * length (ld @ [pa]) \<le> frame_store_size s2" "distinct (ld @ [pa])"
      using assms(1,2,7) fs(1) len1 by (simp_all add: frames_ok_def s2_def)
    show "\<exists>pg. pages s2 ((ld @ [pa]) ! t) = Some pg \<and> frame_index pg = [3 * t, 3 * t + 1, 3 * t + 2]" if "t < length (ld @ [pa])" for t
    proof (cases "t < length ld")
      case True
      then have "ld ! t \<noteq> pa" using assms(7) by auto
      then show ?thesis using True assms(1) by (simp add: frames_ok_def s2_def nth_append)
    next
      case False
      then show ?thesis using that by (auto simp: s2_def nth_append pg'_def less_Suc_eq)
    qed
    show "(var (store s2 ! y) = ''none'') = (3 * length (ld @ [pa]) \<le> y)" if "y < frame_store_size s2" for y
    proof (cases "y < ?x \<or> ?x + 3 \<le> y")
      case True
      then show ?thesis using keep assms(1) that by (auto simp: frames_ok_def s2_def)
    next
      case False
      then obtain j where "y = ?x + j" "j < 3" using le_Suc_ex [of ?x y] by auto
      then show ?thesis using vars [of j] show_nat_none by (simp add: s2_def)
    qed
  qed
  then show ?thesis using load keep fs(1,3) len1 unfolding s2_def
    by (intro exI [of _ st] exI [of _ pg']) (simp add: pg'_def)
qed

end
