(* ===== verification/A3_Sched.thy ===== *)
theory A3_Sched
  imports A3_Frames
begin

text \<open>
  What the kernel of the third shell does, as long as every page finds a frame: the round
  robin of \<open>run_proc_RR\<close> (\<open>a3/kernel.c\<close>) implements the scheduler \<open>atrace\<close> on sequences of
  lines. \<open>proc_at\<close> describes a process, and \<open>sys\<close> the whole kernel. The interpreter is only known
  through the contract \<open>line_runner\<close>: a line changes the files and the variables and leaves the
  kernel alone.
\<close>

section \<open>A process\<close>

lemma PAGE_table_size_ceil: "PAGE_table_size n = (n + 2) div 3"
proof -
  define k r where "k = n div 3" and "r = n mod 3"
  have n: "n = 3 * k + r" "r = 0 \<or> r = 1 \<or> r = 2" by (auto simp: k_def r_def)
  have "(3 * k + r + 2) div 3 = (if r = 0 then k else k + 1)" using n(2) by auto
  moreover have "PAGE_table_size n = (if r = 0 then k else k + 1)" by (simp add: PAGE_table_size_def k_def r_def)
  ultimately show ?thesis using n(1) by simp
qed

text \<open>
  \<open>proc_at s ld a L e m\<close>: the process at \<open>a\<close> has the program \<open>L\<close>, of which \<open>e\<close> lines were run and
  \<open>m\<close> pages are loaded.
\<close>

definition proc_at :: "a3_state \<Rightarrow> nat list \<Rightarrow> nat \<Rightarrow> string list \<Rightarrow> nat \<Rightarrow> nat \<Rightarrow> bool" where
  "proc_at s ld a L e m \<longleftrightarrow> (\<exists>p. procs s a = Some p \<and> program L \<and> e \<le> length L \<and> e \<le> 3 * m \<and> m \<le> PAGE_table_size (length L) \<and>
     proc_size p = int (length L - e) \<and> length (page_list p) = PAGE_table_size (length L) \<and> distinct (page_list p) \<and>
     program_counter p = map (\<lambda>i. min 3 (e - 3 * i)) [0..<PAGE_table_size (length L)] \<and> source_file p = concat (drop (3 * m) L) \<and>
     (\<forall>i < PAGE_table_size (length L). (page_list p ! i \<in> set ld \<longleftrightarrow> i < m) \<and>
        (\<exists>pg. pages s (page_list p ! i) = Some pg \<and> length (valid_bit pg) = 3 \<and> length (frame_index pg) = 3 \<and>
           (\<forall>j < 3. valid_bit pg ! j \<longleftrightarrow> i < m \<and> 3 * i + j < length L) \<and>
           (\<forall>j < 3. i < m \<longrightarrow> 3 * i + j < length L \<longrightarrow> val (store s ! (frame_index pg ! j)) = L ! (3 * i + j)))))"

definition plist :: "a3_state \<Rightarrow> nat \<Rightarrow> nat set" where
  "plist s a = (case procs s a of None \<Rightarrow> {} | Some p \<Rightarrow> set (page_list p))"

lemma frames_index:
  assumes "frames_ok s ld" and "pa \<in> set ld"
  obtains t pg where "t < length ld" and "ld ! t = pa" and "pages s pa = Some pg" and "frame_index pg = [3 * t, 3 * t + 1, 3 * t + 2]"
  using assms unfolding frames_ok_def in_set_conv_nth by blast

lemma frames_less:
  assumes "frames_ok s ld" and "pa \<in> set ld" and "pages s pa = Some pg" and "j < 3"
  shows "frame_index pg ! j < 3 * length ld"
proof -
  obtain t where t: "t < length ld" "frame_index pg = [3 * t, 3 * t + 1, 3 * t + 2]"
    using frames_index [OF assms(1,2)] assms(3) by auto
  have "j = 0 \<or> j = 1 \<or> j = 2" using assms(4) by linarith
  then show ?thesis using t by auto
qed

lemma proc_at_cong:
  assumes "proc_at s ld a L e m" and "frames_ok s ld" and "procs s' a = procs s a"
    and "\<forall>pa \<in> plist s a. pages s' pa = pages s pa \<and> (pa \<in> set ld' \<longleftrightarrow> pa \<in> set ld)"
    and "\<forall>y < 3 * length ld. store s' ! y = store s ! y"
  shows "proc_at s' ld' a L e m"
proof -
  obtain p where p: "procs s a = Some p" "program L" "e \<le> length L" "e \<le> 3 * m" "m \<le> PAGE_table_size (length L)"
    "proc_size p = int (length L - e)" "length (page_list p) = PAGE_table_size (length L)" "distinct (page_list p)"
    "program_counter p = map (\<lambda>i. min 3 (e - 3 * i)) [0..<PAGE_table_size (length L)]" "source_file p = concat (drop (3 * m) L)"
    and pg: "\<forall>i < PAGE_table_size (length L). (page_list p ! i \<in> set ld \<longleftrightarrow> i < m) \<and>
        (\<exists>pg. pages s (page_list p ! i) = Some pg \<and> length (valid_bit pg) = 3 \<and> length (frame_index pg) = 3 \<and>
           (\<forall>j < 3. valid_bit pg ! j \<longleftrightarrow> i < m \<and> 3 * i + j < length L) \<and>
           (\<forall>j < 3. i < m \<longrightarrow> 3 * i + j < length L \<longrightarrow> val (store s ! (frame_index pg ! j)) = L ! (3 * i + j)))"
    using assms(1) unfolding proc_at_def by blast
  have "(page_list p ! i \<in> set ld' \<longleftrightarrow> i < m) \<and> (\<exists>pg. pages s' (page_list p ! i) = Some pg \<and> length (valid_bit pg) = 3 \<and> length (frame_index pg) = 3 \<and>
           (\<forall>j < 3. valid_bit pg ! j \<longleftrightarrow> i < m \<and> 3 * i + j < length L) \<and>
           (\<forall>j < 3. i < m \<longrightarrow> 3 * i + j < length L \<longrightarrow> val (store s' ! (frame_index pg ! j)) = L ! (3 * i + j)))"
    if i: "i < PAGE_table_size (length L)" for i
  proof -
    have mem: "page_list p ! i \<in> plist s a" using i p(1,7) by (simp add: plist_def)
    then have same: "pages s' (page_list p ! i) = pages s (page_list p ! i)" "page_list p ! i \<in> set ld' \<longleftrightarrow> page_list p ! i \<in> set ld"
      using assms(4) by auto
    obtain g where g: "pages s (page_list p ! i) = Some g" "length (valid_bit g) = 3" "length (frame_index g) = 3"
      "\<forall>j < 3. valid_bit g ! j \<longleftrightarrow> i < m \<and> 3 * i + j < length L"
      "\<forall>j < 3. i < m \<longrightarrow> 3 * i + j < length L \<longrightarrow> val (store s ! (frame_index g ! j)) = L ! (3 * i + j)" using pg i by blast
    have "store s' ! (frame_index g ! j) = store s ! (frame_index g ! j)" if "i < m" "j < 3" for j
      using frames_less [OF assms(2) _ g(1) that(2)] pg i that(1) assms(5) by blast
    then show ?thesis using same g pg i by auto
  qed
  then show ?thesis unfolding proc_at_def using p assms(3) by auto
qed

text \<open>The page and the slot of the next line.\<close>

lemma takeWhile_upt:
  "k \<le> n \<Longrightarrow> (\<forall>i < k. P i) \<Longrightarrow> (k < n \<longrightarrow> \<not> P k) \<Longrightarrow> takeWhile P [0..<n] = [0..<k]"
proof -
  assume a: "k \<le> n" "\<forall>i < k. P i" "k < n \<longrightarrow> \<not> P k"
  then have "[0..<n] = [0..<k] @ [k..<n]" by (metis le0 upt_add_eq_append le_add_diff_inverse)
  moreover have "takeWhile P ([0..<k] @ [k..<n]) = [0..<k]"
    using a takeWhile_append2 [of "[0..<k]" P "[k..<n]"] by (cases "k < n") (simp_all add: upt_conv_Cons)
  ultimately show ?thesis by simp
qed

lemma current_page_ok:
  assumes "program_counter p = map (\<lambda>i. min 3 (e - 3 * i)) [0..<n]" and "e < 3 * n"
  shows "current_page p = e div 3" and "e div 3 < n" and "program_counter p ! (e div 3) = e mod 3"
proof -
  show n: "e div 3 < n" using assms(2) by linarith
  have "takeWhile ((\<lambda>c. c = 3) \<circ> (\<lambda>i. min 3 (e - 3 * i))) [0..<n] = [0..<e div 3]"
    by (rule takeWhile_upt) (use n in \<open>auto simp: min_def\<close>)
  then show "current_page p = e div 3" by (simp add: current_page_def assms(1) takeWhile_map)
  have "e - 3 * (e div 3) = e mod 3" by (simp add: minus_mult_div_eq_mod)
  moreover have "e mod 3 < 3" by simp
  ultimately show "program_counter p ! (e div 3) = e mod 3" using n by (simp add: assms(1) min_def)
qed

lemma counter_step:
  assumes "e div 3 < n"
  shows "(map (\<lambda>i. min 3 (e - 3 * i)) [0..<n])[e div 3 := min 3 (e - 3 * (e div 3)) + 1] = map (\<lambda>i. min 3 (Suc e - 3 * i)) [0..<n]"
proof (rule nth_equalityI)
  show "(map (\<lambda>i. min 3 (e - 3 * i)) [0..<n])[e div 3 := min 3 (e - 3 * (e div 3)) + 1] ! i = map (\<lambda>i. min 3 (Suc e - 3 * i)) [0..<n] ! i"
    if "i < length ((map (\<lambda>i. min 3 (e - 3 * i)) [0..<n])[e div 3 := min 3 (e - 3 * (e div 3)) + 1])" for i
  proof -
    have "i < n" using that by simp
    show ?thesis
    proof (cases "i = e div 3")
      case True
      have "e - 3 * (e div 3) < 3" by (simp add: minus_mult_div_eq_mod)
      then show ?thesis using True \<open>i < n\<close> by (simp add: Suc_diff_le)
    next
      case False
      then have "3 * i + 3 \<le> e \<or> e < 3 * i" by linarith
      then have "min 3 (e - 3 * i) = min 3 (Suc e - 3 * i)" by (auto simp: min_def)
      then show ?thesis using False \<open>i < n\<close> by simp
    qed
  qed
qed simp

section \<open>Running a line\<close>

text \<open>What a command may change: the file system, the variables and the place of \<open>strtok\<close>.\<close>

type_synonym user_part = "fs_state \<times> memory_struct list \<times> string"

definition user :: "a3_state \<Rightarrow> user_part" where
  "user s = (fs s, drop (frame_store_size s) (store s), strtok_rest s)"

definition same_kernel :: "a3_state \<Rightarrow> a3_state \<Rightarrow> bool" where
  "same_kernel s s' \<longleftrightarrow> QUEUE s' = QUEUE s \<and> LRU_CACHE s' = LRU_CACHE s \<and> ALL_PCB s' = ALL_PCB s \<and> nodes s' = nodes s \<and>
     procs s' = procs s \<and> pages s' = pages s \<and> frame_store_size s' = frame_store_size s \<and>
     length (store s') = length (store s) \<and> (\<forall>y < frame_store_size s. store s' ! y = store s ! y)"

lemma frames_ok_cong:
  assumes "frames_ok s ld" and "pages s' = pages s" and "frame_store_size s' = frame_store_size s" and "length (store s') = length (store s)"
    and "\<forall>y < frame_store_size s. store s' ! y = store s ! y"
  shows "frames_ok s' ld"
  using assms by (simp add: frames_ok_def)

lemma PAGE_equal_ok:
  assumes "frames_ok s ld" and "pa \<in> set ld" and "x \<in> set ld"
  shows "PAGE_equal s pa x = Some (x = pa)"
proof -
  obtain t g where t: "t < length ld" "ld ! t = pa" "pages s pa = Some g" "frame_index g = [3 * t, 3 * t + 1, 3 * t + 2]"
    using frames_index [OF assms(1,2)] .
  obtain u g' where u: "u < length ld" "ld ! u = x" "pages s x = Some g'" "frame_index g' = [3 * u, 3 * u + 1, 3 * u + 2]"
    using frames_index [OF assms(1,3)] .
  have "t = u \<longleftrightarrow> x = pa" using assms(1) t(1,2) u(1,2) by (auto simp: frames_ok_def nth_eq_iff_index_eq)
  then show ?thesis using t u by (auto simp: PAGE_equal_def)
qed

lemma proc_atD:
  assumes "proc_at s ld a L e m"
  obtains p where "procs s a = Some p" and "program L" and "e \<le> length L" and "e \<le> 3 * m" and "m \<le> PAGE_table_size (length L)"
    and "proc_size p = int (length L - e)" and "length (page_list p) = PAGE_table_size (length L)" and "distinct (page_list p)"
    and "program_counter p = map (\<lambda>i. min 3 (e - 3 * i)) [0..<PAGE_table_size (length L)]" and "source_file p = concat (drop (3 * m) L)"
    and "\<forall>i < PAGE_table_size (length L). (page_list p ! i \<in> set ld \<longleftrightarrow> i < m) \<and>
        (\<exists>pg. pages s (page_list p ! i) = Some pg \<and> length (valid_bit pg) = 3 \<and> length (frame_index pg) = 3 \<and>
           (\<forall>j < 3. valid_bit pg ! j \<longleftrightarrow> i < m \<and> 3 * i + j < length L) \<and>
           (\<forall>j < 3. i < m \<longrightarrow> 3 * i + j < length L \<longrightarrow> val (store s ! (frame_index pg ! j)) = L ! (3 * i + j)))"
  using assms unfolding proc_at_def by blast

text \<open>
  The contract of the interpreter towards the kernel. \<open>simple\<close> are the lines it is about; the
  result is never 1, which the kernel would take for a page fault.
\<close>

locale line_runner =
  fixes parse :: parser
    and simple :: "string \<Rightarrow> bool"
    and meaning :: "string \<Rightarrow> user_part \<Rightarrow> user_part"
  assumes parse_simple: "simple l \<Longrightarrow> frame_store_size s \<le> length (store s) \<Longrightarrow>
    \<exists>r s'. parse l s = Some (Inr r, s') \<and> r \<noteq> 1 \<and> same_kernel s s' \<and> user s' = meaning l (user s)"
begin

lemma run_line_exec:
  assumes "klists s q c al" and "set c = set ld" and "distinct c" and "frames_ok s ld" and "proc_at s ld a L e m"
    and "e < length L" and "e < 3 * m" and "simple (L ! e)"
  shows "\<exists>s' c'. run_line parse a s = Some (Inr 0, s') \<and> klists s' q c' al \<and> set c' = set ld \<and> distinct c' \<and> frames_ok s' ld \<and>
    proc_at s' ld a L (Suc e) m \<and> (\<forall>b. b \<noteq> a \<longrightarrow> procs s' b = procs s b) \<and> plist s' a = plist s a \<and> pages s' = pages s \<and>
    frame_store_size s' = frame_store_size s \<and> (\<forall>y < frame_store_size s. store s' ! y = store s ! y) \<and> user s' = meaning (L ! e) (user s)"
proof -
  let ?n = "PAGE_table_size (length L)" and ?i = "e div 3" and ?j = "e mod 3"
  obtain p where p: "procs s a = Some p" "program L" "e \<le> length L" "e \<le> 3 * m" "m \<le> ?n" "proc_size p = int (length L - e)"
    "length (page_list p) = ?n" "distinct (page_list p)" "program_counter p = map (\<lambda>i. min 3 (e - 3 * i)) [0..<?n]"
    "source_file p = concat (drop (3 * m) L)"
    and pg: "\<forall>i < ?n. (page_list p ! i \<in> set ld \<longleftrightarrow> i < m) \<and>
        (\<exists>pg. pages s (page_list p ! i) = Some pg \<and> length (valid_bit pg) = 3 \<and> length (frame_index pg) = 3 \<and>
           (\<forall>j < 3. valid_bit pg ! j \<longleftrightarrow> i < m \<and> 3 * i + j < length L) \<and>
           (\<forall>j < 3. i < m \<longrightarrow> 3 * i + j < length L \<longrightarrow> val (store s ! (frame_index pg ! j)) = L ! (3 * i + j)))"
    using proc_atD [OF assms(5)] .
  have "e < 3 * ?n" using assms(7) p(5) by linarith
  note cur = current_page_ok [OF p(9) this]
  have i: "?i < m" using assms(7) by linarith
  define pa where "pa = page_list p ! ?i"
  have pa: "pa \<in> set ld" using pg cur(2) i by (simp add: pa_def)
  obtain g where g: "pages s pa = Some g" "length (valid_bit g) = 3" "length (frame_index g) = 3" "valid_bit g ! ?j"
    "val (store s ! (frame_index g ! ?j)) = L ! e"
    using pg cur(2) i assms(6) by (force simp: pa_def)
  have j: "?j < 3" by simp
  have "frame_index g ! ?j < 3 * length ld" by (rule frames_less [OF assms(4) pa g(1) j])
  then have idx: "frame_index g ! ?j < length (store s)" using assms(4) by (simp add: frames_ok_def)
  have "frame_store_size s \<le> length (store s)" using assms(4) by (simp add: frames_ok_def)
  then obtain r s1 where s1: "parse (L ! e) s = Some (Inr r, s1)" "r \<noteq> 1" "same_kernel s s1" "user s1 = meaning (L ! e) (user s)"
    using parse_simple [OF assms(8)] by blast
  note k = s1(3) [unfolded same_kernel_def]
  define p2 where "p2 = p\<lparr>program_counter := (program_counter p)[?i := program_counter p ! ?i + 1], proc_size := proc_size p - 1\<rparr>"
  define s2 where "s2 = s1\<lparr>procs := (procs s1)(a \<mapsto> p2)\<rparr>"
  have "cpu_run parse a ?i ?j s = Some (Inr r, s2)"
    using p(1,7,9) cur(2) g idx s1(1) k
    by (simp add: cpu_run_def page_at_def pa_def mem_get_value_at_def guard_opt_def upd_proc_def s2_def p2_def)
  moreover have "current_page p < length (program_counter p)" using cur p(9) by simp
  ultimately have run: "run_line parse a s = andthen (Some (Inr r, s2)) (\<lambda>ret s.
     if ret = 1 then handle_fault a ?i s
     else do {
       pa \<leftarrow> page_at a ?i s;
       (x, l, h) \<leftarrow> remove_elem (PAGE_equal s) pa (LRU_CACHE s, nodes s);
       s \<leftarrow> on_lru (add_head x) (s\<lparr>LRU_CACHE := l, nodes := h\<rparr>);
       Some (Inr 0, s) })"
    using p(1) cur by (simp add: run_line_def guard_opt_def run_proc_def)
  have k2: "klists s2 q c al" using assms(1) k by (simp add: s2_def klists_def)
  have f2: "frames_ok s2 ld" by (rule frames_ok_cong [OF assms(4)]) (use k in \<open>simp_all add: s2_def\<close>)
  have "\<forall>x \<in> set c. PAGE_equal s2 pa x = Some (x = pa)" using PAGE_equal_ok [OF f2 pa] assms(2) by simp
  then obtain l h l' h' where t: "remove_elem (PAGE_equal s2) pa (LRU_CACHE s2, nodes s2) = Some (pa, l, h)"
    "on_lru (add_head pa) (s2\<lparr>LRU_CACHE := l, nodes := h\<rparr>) = Some (s2\<lparr>LRU_CACHE := l', nodes := h'\<rparr>)"
    "klists (s2\<lparr>LRU_CACHE := l', nodes := h'\<rparr>) q (pa # remove1 pa c) al"
    using lru_touch [OF k2 _ assms(3)] pa assms(2) by blast
  define s3 where "s3 = s2\<lparr>LRU_CACHE := l', nodes := h'\<rparr>"
  have pl: "page_list p2 = page_list p" by (simp add: p2_def)
  have "page_at a ?i s2 = Some pa" using cur(2) p(7) pl by (simp add: page_at_def s2_def pa_def)
  then have "run_line parse a s = Some (Inr 0, s3)" using run s1(2) t(1,2) by (simp add: s3_def)
  moreover have "klists s3 q (pa # remove1 pa c) al" using t(3) by (simp add: s3_def)
  moreover have "set (pa # remove1 pa c) = set ld" "distinct (pa # remove1 pa c)" using assms(2,3) pa by (auto simp: set_remove1_eq)
  moreover have "frames_ok s3 ld" using f2 by (simp add: frames_ok_def s3_def)
  moreover have "proc_at s3 ld a L (Suc e) m"
  proof -
    have "procs s3 a = Some p2" "pages s3 = pages s" using k by (simp_all add: s3_def s2_def)
    moreover have "proc_size p2 = int (length L - Suc e)" using p(6) assms(6) by (simp add: p2_def)
    moreover have "program_counter p2 = map (\<lambda>i. min 3 (Suc e - 3 * i)) [0..<?n]"
      using counter_step [OF cur(2)] cur(2) p(9) by (simp add: p2_def)
    moreover have "source_file p2 = concat (drop (3 * m) L)" using p(10) by (simp add: p2_def)
    moreover have "(page_list p2 ! i \<in> set ld \<longleftrightarrow> i < m) \<and> (\<exists>pg. pages s3 (page_list p2 ! i) = Some pg \<and> length (valid_bit pg) = 3 \<and>
        length (frame_index pg) = 3 \<and> (\<forall>j < 3. valid_bit pg ! j \<longleftrightarrow> i < m \<and> 3 * i + j < length L) \<and>
        (\<forall>j < 3. i < m \<longrightarrow> 3 * i + j < length L \<longrightarrow> val (store s3 ! (frame_index pg ! j)) = L ! (3 * i + j)))" if i: "i < ?n" for i
    proof -
      obtain g where g: "pages s (page_list p ! i) = Some g" "length (valid_bit g) = 3" "length (frame_index g) = 3"
        "\<forall>j < 3. valid_bit g ! j \<longleftrightarrow> i < m \<and> 3 * i + j < length L"
        "\<forall>j < 3. i < m \<longrightarrow> 3 * i + j < length L \<longrightarrow> val (store s ! (frame_index g ! j)) = L ! (3 * i + j)" using pg i by blast
      have "store s3 ! (frame_index g ! j) = store s ! (frame_index g ! j)" if "i < m" "j < 3" for j
      proof -
        have "page_list p ! i \<in> set ld" using pg i that(1) by blast
        from frames_less [OF assms(4) this g(1) that(2)] have "frame_index g ! j < frame_store_size s"
          using assms(4) by (simp add: frames_ok_def)
        then show ?thesis using k by (simp add: s3_def s2_def)
      qed
      then show ?thesis using g pg i pl k by (simp add: s3_def s2_def)
    qed
    ultimately show ?thesis unfolding proc_at_def using p pl assms(6,7) by auto
  qed
  moreover have "\<forall>b. b \<noteq> a \<longrightarrow> procs s3 b = procs s b" "plist s3 a = plist s a" "pages s3 = pages s"
    "frame_store_size s3 = frame_store_size s" "\<forall>y < frame_store_size s. store s3 ! y = store s ! y"
    using k p(1) by (simp_all add: s3_def s2_def plist_def p2_def)
  moreover have "user s3 = meaning (L ! e) (user s)" using s1(4) by (simp add: s3_def s2_def user_def)
  ultimately show ?thesis by blast
qed

end

section \<open>Page faults\<close>

text \<open>The next page of a process is loaded: it gets the frame behind the frames in use.\<close>

lemma load_next:
  assumes "frames_ok s ld" and "proc_at s ld a L e m" and "m < PAGE_table_size (length L)" and "3 * length ld + 3 \<le> frame_store_size s"
  shows "\<exists>pr pgs st pa. load_PAGE a m s = Some (True, s\<lparr>procs := pr, pages := pgs, store := st\<rparr>) \<and>
    page_at a m s = Some pa \<and> pa \<in> plist s a \<and> pa \<notin> set ld \<and>
    frames_ok (s\<lparr>procs := pr, pages := pgs, store := st\<rparr>) (ld @ [pa]) \<and>
    proc_at (s\<lparr>procs := pr, pages := pgs, store := st\<rparr>) (ld @ [pa]) a L e (Suc m) \<and>
    (\<forall>b. b \<noteq> a \<longrightarrow> pr b = procs s b) \<and> map_option page_list (pr a) = map_option page_list (procs s a) \<and>
    (\<forall>x. x \<noteq> pa \<longrightarrow> pgs x = pages s x) \<and> (\<forall>y < 3 * length ld. st ! y = store s ! y) \<and>
    drop (frame_store_size s) st = drop (frame_store_size s) (store s)"
proof -
  let ?n = "PAGE_table_size (length L)"
  obtain p where p: "procs s a = Some p" "program L" "e \<le> length L" "e \<le> 3 * m" "m \<le> ?n" "proc_size p = int (length L - e)"
    "length (page_list p) = ?n" "distinct (page_list p)" "program_counter p = map (\<lambda>i. min 3 (e - 3 * i)) [0..<?n]"
    "source_file p = concat (drop (3 * m) L)"
    and pg: "\<forall>i < ?n. (page_list p ! i \<in> set ld \<longleftrightarrow> i < m) \<and>
        (\<exists>pg. pages s (page_list p ! i) = Some pg \<and> length (valid_bit pg) = 3 \<and> length (frame_index pg) = 3 \<and>
           (\<forall>j < 3. valid_bit pg ! j \<longleftrightarrow> i < m \<and> 3 * i + j < length L) \<and>
           (\<forall>j < 3. i < m \<longrightarrow> 3 * i + j < length L \<longrightarrow> val (store s ! (frame_index pg ! j)) = L ! (3 * i + j)))"
    using proc_atD [OF assms(2)] .
  define pa where "pa = page_list p ! m"
  have pa: "pa \<notin> set ld" using pg assms(3) by (simp add: pa_def)
  obtain g where g: "pages s pa = Some g" "length (valid_bit g) = 3" "length (frame_index g) = 3"
    using pg assms(3) unfolding pa_def by blast
  have less: "3 * m < length L" using assms(3) unfolding PAGE_table_size_ceil by linarith
  define R where "R = drop (3 * m) L"
  have R: "program R" using program_drop [OF p(2) less] by (simp add: R_def)
  let ?x = "3 * length ld"
  define p2 where "p2 = p\<lparr>source_file := concat (drop 3 R)\<rparr>"
  from load_PAGE_ok [OF assms(1,4) p(1), of m pa g R] p(7,10) assms(3) g(1) pa R obtain st pg' where ld:
    "load_PAGE a m s = Some (True, s\<lparr>procs := (procs s)(a \<mapsto> p2), pages := (pages s)(pa \<mapsto> pg'), store := st\<rparr>)"
    "pg' = g\<lparr>frame_index := [?x, ?x + 1, ?x + 2], valid_bit := map (\<lambda>j. j < length R) [0, 1, 2]\<rparr>"
    "length st = length (store s)" "\<forall>y. y < ?x \<or> ?x + 3 \<le> y \<longrightarrow> st ! y = store s ! y"
    "\<forall>j < 3. j < length R \<longrightarrow> val (st ! (?x + j)) = R ! j"
    "frames_ok (s\<lparr>procs := (procs s)(a \<mapsto> p2), pages := (pages s)(pa \<mapsto> pg'), store := st\<rparr>) (ld @ [pa])"
    unfolding pa_def R_def p2_def by auto
  define s1 where "s1 = s\<lparr>procs := (procs s)(a \<mapsto> p2), pages := (pages s)(pa \<mapsto> pg'), store := st\<rparr>"
  have pl: "page_list p2 = page_list p" by (simp add: p2_def)
  have "proc_at s1 (ld @ [pa]) a L e (Suc m)"
  proof -
    have "procs s1 a = Some p2" by (simp add: s1_def)
    moreover have "source_file p2 = concat (drop (3 * Suc m) L)" by (simp add: p2_def R_def add.commute)
    moreover have "(page_list p2 ! i \<in> set (ld @ [pa]) \<longleftrightarrow> i < Suc m) \<and> (\<exists>pg. pages s1 (page_list p2 ! i) = Some pg \<and> length (valid_bit pg) = 3 \<and>
        length (frame_index pg) = 3 \<and> (\<forall>j < 3. valid_bit pg ! j \<longleftrightarrow> i < Suc m \<and> 3 * i + j < length L) \<and>
        (\<forall>j < 3. i < Suc m \<longrightarrow> 3 * i + j < length L \<longrightarrow> val (store s1 ! (frame_index pg ! j)) = L ! (3 * i + j)))" if i: "i < ?n" for i
    proof (cases "i = m")
      case True
      have three: "j = 0 \<or> j = 1 \<or> j = 2" if "j < 3" for j :: nat using that by linarith
      have "valid_bit pg' ! j \<longleftrightarrow> 3 * m + j < length L" if "j < 3" for j
        using three [OF that] ld(2) by (auto simp: R_def less_diff_conv add.commute)
      moreover have "val (st ! (frame_index pg' ! j)) = L ! (3 * m + j)" if "j < 3" "3 * m + j < length L" for j
      proof -
        have "frame_index pg' ! j = ?x + j" using three [OF that(1)] ld(2) by auto
        moreover have "j < length R" "R ! j = L ! (3 * m + j)" using that(2) by (simp_all add: R_def)
        ultimately show ?thesis using ld(5) that(1) by simp
      qed
      ultimately show ?thesis using True pl ld(2) by (simp add: pa_def s1_def)
    next
      case False
      have ne: "page_list p ! i \<noteq> pa" using False i assms(3) p(7,8) by (simp add: pa_def nth_eq_iff_index_eq)
      obtain g where g: "pages s (page_list p ! i) = Some g" "length (valid_bit g) = 3" "length (frame_index g) = 3"
        "\<forall>j < 3. valid_bit g ! j \<longleftrightarrow> i < m \<and> 3 * i + j < length L"
        "\<forall>j < 3. i < m \<longrightarrow> 3 * i + j < length L \<longrightarrow> val (store s ! (frame_index g ! j)) = L ! (3 * i + j)" using pg i by blast
      have "st ! (frame_index g ! j) = store s ! (frame_index g ! j)" if "i < m" "j < 3" for j
        using frames_less [OF assms(1) _ g(1) that(2)] pg i that(1) ld(4) by blast
      then show ?thesis using g pg i pl ne False by (auto simp: s1_def less_Suc_eq)
    qed
    ultimately show ?thesis unfolding proc_at_def using p pl assms(3) by (auto simp: p2_def)
  qed
  moreover have "drop (frame_store_size s) st = drop (frame_store_size s) (store s)"
    by (rule nth_equalityI) (use ld(3,4) assms(4) in auto)
  moreover have "page_at a m s = Some pa" "pa \<in> plist s a"
    using p(1,7) assms(3) by (simp_all add: page_at_def plist_def pa_def)
  ultimately show ?thesis using ld(1,4,6) pa p(1) pl unfolding s1_def
    by (intro exI [of _ "(procs s)(a \<mapsto> p2)"] exI [of _ "(pages s)(pa \<mapsto> pg')"] exI [of _ st] exI [of _ pa]) simp
qed

text \<open>A line whose page is not loaded: the page is loaded, and the process goes back to the queue.\<close>

lemma run_line_fault:
  assumes "klists s q c al" and "frames_ok s ld" and "proc_at s ld a L e m" and "e < length L" and "e = 3 * m"
    and "3 * length ld + 3 \<le> frame_store_size s"
  shows "\<exists>s' pa. run_line parse a s = Some (Inr 1, s') \<and> klists s' (q @ [a]) (pa # c) al \<and> pa \<in> plist s a \<and> pa \<notin> set ld \<and>
    frames_ok s' (ld @ [pa]) \<and> proc_at s' (ld @ [pa]) a L e (Suc m) \<and> (\<forall>b. b \<noteq> a \<longrightarrow> procs s' b = procs s b) \<and>
    plist s' a = plist s a \<and> (\<forall>x. x \<noteq> pa \<longrightarrow> pages s' x = pages s x) \<and> frame_store_size s' = frame_store_size s \<and>
    (\<forall>y < 3 * length ld. store s' ! y = store s ! y) \<and> user s' = user s"
proof -
  let ?n = "PAGE_table_size (length L)"
  obtain p where p: "procs s a = Some p" "length (page_list p) = ?n" "program_counter p = map (\<lambda>i. min 3 (e - 3 * i)) [0..<?n]"
    and pg: "\<forall>i < ?n. \<exists>pg. pages s (page_list p ! i) = Some pg \<and> length (valid_bit pg) = 3 \<and> length (frame_index pg) = 3 \<and>
           (\<forall>j < 3. valid_bit pg ! j \<longleftrightarrow> i < m \<and> 3 * i + j < length L)"
    using assms(3) unfolding proc_at_def by blast
  have mn: "m < ?n" using assms(4,5) unfolding PAGE_table_size_ceil by linarith
  then have "e < 3 * ?n" using assms(5) by linarith
  note cur = current_page_ok [OF p(3) this]
  have im: "e div 3 = m" "e mod 3 = 0" using assms(5) by simp_all
  obtain g where g: "pages s (page_list p ! m) = Some g" "length (valid_bit g) = 3" "length (frame_index g) = 3" "\<not> valid_bit g ! 0"
    using pg mn by fastforce
  have "valid_bit g \<noteq> []" "frame_index g \<noteq> []" using g(2,3) by auto
  then have "cpu_run parse a m 0 s = Some (Inr 1, s)"
    using p(1,2) mn g by (simp add: cpu_run_def page_at_def guard_opt_def)
  then have run: "run_line parse a s = handle_fault a m s"
    using p(1,3) cur im by (simp add: run_line_def guard_opt_def run_proc_def)
  from load_next [OF assms(2,3) mn assms(6)] obtain pr pgs st pa where
    ld: "load_PAGE a m s = Some (True, s\<lparr>procs := pr, pages := pgs, store := st\<rparr>)" "page_at a m s = Some pa"
    "pa \<in> plist s a" "pa \<notin> set ld" "frames_ok (s\<lparr>procs := pr, pages := pgs, store := st\<rparr>) (ld @ [pa])"
    "proc_at (s\<lparr>procs := pr, pages := pgs, store := st\<rparr>) (ld @ [pa]) a L e (Suc m)"
    "\<forall>b. b \<noteq> a \<longrightarrow> pr b = procs s b" "map_option page_list (pr a) = map_option page_list (procs s a)"
    "\<forall>x. x \<noteq> pa \<longrightarrow> pgs x = pages s x" "\<forall>y < 3 * length ld. st ! y = store s ! y"
    "drop (frame_store_size s) st = drop (frame_store_size s) (store s)" by (elim exE conjE) (rule that)
  define s1 where "s1 = s\<lparr>procs := pr, pages := pgs, store := st\<rparr>"
  have k1: "klists s1 q c al" using assms(1) by (simp add: s1_def klists_def)
  obtain l h where h: "on_lru (add_head pa) s1 = Some (s1\<lparr>LRU_CACHE := l, nodes := h\<rparr>)" "klists (s1\<lparr>LRU_CACHE := l, nodes := h\<rparr>) q (pa # c) al"
    using lru_add [OF k1] by blast
  obtain l' h' where h': "on_queue (add_tail a) (s1\<lparr>LRU_CACHE := l, nodes := h\<rparr>) = Some (s1\<lparr>LRU_CACHE := l, nodes := h, QUEUE := l', nodes := h'\<rparr>)"
    "klists (s1\<lparr>LRU_CACHE := l, nodes := h, QUEUE := l', nodes := h'\<rparr>) (q @ [a]) (pa # c) al"
    using queue_add [OF h(2)] by blast
  define s2 where "s2 = s1\<lparr>LRU_CACHE := l, nodes := h, QUEUE := l', nodes := h'\<rparr>"
  obtain p' where p': "pr a = Some p'" "page_list p' = page_list p" using ld(8) p(1) by auto
  have "page_at a m s1 = Some pa" using ld(2) p(1) p' by (simp add: page_at_def s1_def split: if_splits)
  then have "run_line parse a s = Some (Inr 1, s2)"
    unfolding run using ld(1) h(1) h'(1) by (simp add: handle_fault_def s1_def s2_def)
  moreover have "klists s2 (q @ [a]) (pa # c) al" using h'(2) by (simp add: s2_def)
  moreover have "frames_ok s2 (ld @ [pa])" using ld(5) by (simp add: s2_def s1_def frames_ok_def)
  moreover have "proc_at s2 (ld @ [pa]) a L e (Suc m)" using ld(6) by (simp add: s2_def s1_def proc_at_def)
  moreover have "plist s2 a = plist s a" using p(1) p' by (simp add: s2_def s1_def plist_def)
  moreover have "user s2 = user s" using ld(11) by (simp add: user_def s2_def s1_def)
  moreover have "procs s2 = pr" "pages s2 = pgs" "store s2 = st" "frame_store_size s2 = frame_store_size s"
    by (simp_all add: s2_def s1_def)
  ultimately show ?thesis using ld(3,4,7,9,10) by (intro exI [of _ s2] exI [of _ pa]) simp
qed

end
