(* ===== verification/A3_Robin.thy ===== *)
theory A3_Robin
  imports A3_Sched "HOL-Library.Sublist"
begin

text \<open>
  The round robin of the third shell as a scheduler of sequences of lines. An entry of the
  abstract queue is what a process has still to run, with the number of these lines that are
  already loaded; \<open>turn\<close> is what one round does with the first entry.
\<close>

section \<open>The abstract scheduler\<close>

type_synonym entry = "string list \<times> nat"

definition turn :: "entry \<Rightarrow> string list \<times> entry option" where
  "turn x = (case x of (p, k) \<Rightarrow>
     if 1 < length p then
       if k = 0 then ([], Some (p, min 3 (length p)))
       else if k = 1 then ([hd p], Some (tl p, min 3 (length p - 1)))
       else (take 2 p, Some (drop 2 p, k - 2))
     else if k = 0 \<and> p \<noteq> [] then ([], Some (p, 1))
     else (p, None))"

lemma turn_one: "1 < length p \<Longrightarrow> k = 1 \<Longrightarrow> turn (p, k) = ([hd p], Some (tl p, min 3 (length p - 1)))"
  by (simp add: turn_def)

definition weight :: "entry \<Rightarrow> nat" where
  "weight x = 2 * length (fst x) + (if snd x = 0 then 2 else 1)"

lemma weight_turn:
  "snd (turn x) = Some y \<Longrightarrow> weight y < weight x"
  by (cases x) (auto simp: turn_def weight_def split: if_splits)

lemma weight_pos: "0 < weight x"
  by (simp add: weight_def)

definition requeue :: "entry \<Rightarrow> entry list" where
  "requeue x = (case snd (turn x) of None \<Rightarrow> [] | Some y \<Rightarrow> [y])"

lemma weight_requeue: "sum_list (map weight (requeue x)) < weight x"
  using weight_turn [of x] weight_pos [of x] by (simp add: requeue_def split: option.split)

function round_robin :: "entry list \<Rightarrow> string list" where
  "round_robin [] = []"
| "round_robin (x # Q) = fst (turn x) @ round_robin (Q @ requeue x)"
  by pat_completeness auto
termination
  by (relation "measure (\<lambda>Q. sum_list (map weight Q))") (auto simp: weight_requeue)

lemma round_robin_idle: "\<forall>x \<in> set Q. fst x = [] \<Longrightarrow> round_robin Q = []"
proof (induction Q rule: round_robin.induct)
  case (2 x Q)
  have "fst (turn x) = []" "requeue x = []" using "2.prems" by (auto simp: turn_def requeue_def split: prod.split)
  then show ?case using 2 by simp
qed simp

lemma turn_split: "fst (turn x) @ (case snd (turn x) of None \<Rightarrow> [] | Some y \<Rightarrow> fst y) = fst x"
  by (cases x; cases "fst x") (auto simp: turn_def split: if_splits)

text \<open>A single program runs from its first line to its last.\<close>

lemma round_robin_single: "round_robin [x] = fst x"
proof (induction "weight x" arbitrary: x rule: less_induct)
  case less
  show ?case
  proof (cases "snd (turn x)")
    case None
    then show ?thesis using turn_split [of x] by (simp add: requeue_def)
  next
    case (Some y)
    then show ?thesis using turn_split [of x] less [OF weight_turn [OF Some]] by (simp add: requeue_def)
  qed
qed

text \<open>All lines of all programs are run, and those of each program in their order.\<close>

lemma mset_round_robin: "mset (round_robin Q) = mset (concat (map fst Q))"
proof (induction Q rule: round_robin.induct)
  case (2 x Q)
  have "mset (fst x) = mset (fst (turn x)) + mset (concat (map fst (requeue x)))"
    using arg_cong [OF turn_split [of x], of mset] by (cases "snd (turn x)") (simp_all add: requeue_def)
  then show ?case using 2 by simp
qed simp

lemma subseq_round_robin: "x \<in> set Q \<Longrightarrow> subseq (fst x) (round_robin Q)"
proof (induction Q arbitrary: x rule: round_robin.induct)
  case (2 y Q)
  show ?case
  proof (cases "x \<in> set Q")
    case True
    then have "subseq (fst x) (round_robin (Q @ requeue y))" using "2.IH" by simp
    then show ?thesis by (simp add: list_emb_append2)
  next
    case False
    then have x: "x = y" using "2.prems" by simp
    show ?thesis
    proof (cases "snd (turn y)")
      case None
      then have "fst x = fst (turn y)" using turn_split [of y] x by simp
      then show ?thesis by (simp add: list_emb_prefix)
    next
      case (Some z)
      then have "subseq (fst z) (round_robin (Q @ requeue y))" using "2.IH" [of z] by (simp add: requeue_def)
      then show ?thesis using turn_split [of y] Some unfolding x
        by (metis list_emb_append_mono option.simps(5) round_robin.simps(2) subseq_order.refl)
    qed
  qed
qed simp

section \<open>The kernel\<close>

text \<open>
  \<open>sys s al q L e m\<close>: the processes in \<open>al\<close> have the programs \<open>L\<close>, of which \<open>e\<close> lines were run and
  \<open>m\<close> pages are loaded; those in \<open>q\<close> are ready. There are frames for all pages, and two slots
  behind them.
\<close>

definition sys :: "a3_state \<Rightarrow> nat list \<Rightarrow> nat list \<Rightarrow> (nat \<Rightarrow> string list) \<Rightarrow> (nat \<Rightarrow> nat) \<Rightarrow> (nat \<Rightarrow> nat) \<Rightarrow> bool" where
  "sys s al q L e m \<longleftrightarrow> (\<exists>c ld. klists s q c al \<and> set c = set ld \<and> distinct c \<and> frames_ok s ld \<and> distinct al \<and>
     (\<forall>a \<in> set al. proc_at s ld a (L a) (e a) (m a)) \<and> (\<forall>a \<in> set al. \<forall>b \<in> set al. a \<noteq> b \<longrightarrow> plist s a \<inter> plist s b = {}) \<and>
     set ld \<subseteq> (\<Union>a \<in> set al. plist s a) \<and> length ld = (\<Sum>a \<in> set al. m a) \<and>
     3 * (\<Sum>a \<in> set al. PAGE_table_size (length (L a))) + 2 \<le> frame_store_size s)"

definition entry_of :: "(nat \<Rightarrow> string list) \<Rightarrow> (nat \<Rightarrow> nat) \<Rightarrow> (nat \<Rightarrow> nat) \<Rightarrow> nat \<Rightarrow> entry" where
  "entry_of L e m a = (drop (e a) (L a), min (3 * m a) (length (L a)) - e a)"

lemma sys_proc:
  assumes "sys s al q L e m" and "a \<in> set al"
  obtains p where "procs s a = Some p" and "proc_size p = int (length (L a) - e a)" and "e a \<le> length (L a)" and "e a \<le> 3 * m a"
    and "m a \<le> PAGE_table_size (length (L a))" and "program (L a)"
    and "program_counter p = map (\<lambda>i. min 3 (e a - 3 * i)) [0..<PAGE_table_size (length (L a))]"
  using assms unfolding sys_def proc_at_def by blast

lemma PAGE_table_size_bound: "n \<le> 3 * PAGE_table_size n"
  unfolding PAGE_table_size_ceil by linarith

context line_runner begin

lemma sys_exec:
  assumes "sys s al q L e m" and "a \<in> set al" and "e a < length (L a)" and "e a < 3 * m a" and "simple (L a ! e a)"
  shows "\<exists>s'. run_line parse a s = Some (Inr 0, s') \<and> sys s' al q L (e(a := Suc (e a))) m \<and>
    frame_store_size s' = frame_store_size s \<and> user s' = meaning (L a ! e a) (user s)"
proof -
  obtain c ld where S: "klists s q c al" "set c = set ld" "distinct c" "frames_ok s ld" "distinct al"
    "\<forall>a \<in> set al. proc_at s ld a (L a) (e a) (m a)" "\<forall>a \<in> set al. \<forall>b \<in> set al. a \<noteq> b \<longrightarrow> plist s a \<inter> plist s b = {}"
    "set ld \<subseteq> (\<Union>a \<in> set al. plist s a)" "length ld = (\<Sum>a \<in> set al. m a)"
    "3 * (\<Sum>a \<in> set al. PAGE_table_size (length (L a))) + 2 \<le> frame_store_size s" using assms(1) unfolding sys_def by blast
  obtain s' c' where R: "run_line parse a s = Some (Inr 0, s')" "klists s' q c' al" "set c' = set ld" "distinct c'" "frames_ok s' ld"
    "proc_at s' ld a (L a) (Suc (e a)) (m a)" "\<forall>b. b \<noteq> a \<longrightarrow> procs s' b = procs s b" "plist s' a = plist s a" "pages s' = pages s"
    "frame_store_size s' = frame_store_size s" "\<forall>y < frame_store_size s. store s' ! y = store s ! y"
    "user s' = meaning (L a ! e a) (user s)"
    using run_line_exec [OF S(1-4) bspec [OF S(6) assms(2)] assms(3,4,5)] by (elim exE conjE) (rule that; assumption)
  have pl: "plist s' b = plist s b" for b using R(7,8) by (cases "b = a") (simp_all add: plist_def)
  have "proc_at s' ld b (L b) ((e(a := Suc (e a))) b) (m b)" if "b \<in> set al" for b
  proof (cases "b = a")
    case False
    have "\<forall>y < 3 * length ld. store s' ! y = store s ! y" using R(11) S(4) by (simp add: frames_ok_def)
    then show ?thesis using proc_at_cong [OF bspec [OF S(6) that] S(4), of s' ld] R(7,9) False by simp
  qed (use R(6) in simp)
  then have "\<forall>b \<in> set al. proc_at s' ld b (L b) ((e(a := Suc (e a))) b) (m b)" by blast
  then have "sys s' al q L (e(a := Suc (e a))) m"
    unfolding sys_def pl R(10) using R(2-5) S(5,7-10) by blast
  then show ?thesis using R(1,10,12) by blast
qed

end

lemma sys_fault:
  assumes "sys s al q L e m" and "a \<in> set al" and "e a < length (L a)" and "e a = 3 * m a"
  shows "\<exists>s'. run_line parse a s = Some (Inr 1, s') \<and> sys s' al (q @ [a]) L e (m(a := Suc (m a))) \<and>
    frame_store_size s' = frame_store_size s \<and> user s' = user s"
proof -
  obtain c ld where S: "klists s q c al" "set c = set ld" "distinct c" "frames_ok s ld" "distinct al"
    "\<forall>a \<in> set al. proc_at s ld a (L a) (e a) (m a)" "\<forall>a \<in> set al. \<forall>b \<in> set al. a \<noteq> b \<longrightarrow> plist s a \<inter> plist s b = {}"
    "set ld \<subseteq> (\<Union>a \<in> set al. plist s a)" "length ld = (\<Sum>a \<in> set al. m a)"
    "3 * (\<Sum>a \<in> set al. PAGE_table_size (length (L a))) + 2 \<le> frame_store_size s" using assms(1) unfolding sys_def by blast
  let ?m = "m(a := Suc (m a))"
  have le: "m b \<le> PAGE_table_size (length (L b))" if "b \<in> set al" for b using S(6) that unfolding proc_at_def by blast
  have "\<exists>b \<in> set al. m b < PAGE_table_size (length (L b))"
  proof (rule bexI [OF _ assms(2)])
    show "m a < PAGE_table_size (length (L a))" using assms(3,4) PAGE_table_size_bound [of "length (L a)"] by linarith
  qed
  then have "(\<Sum>b \<in> set al. m b) < (\<Sum>b \<in> set al. PAGE_table_size (length (L b)))"
    by (intro sum_strict_mono_ex1) (simp_all add: le)
  then have "3 * length ld + 3 \<le> frame_store_size s" using S(9,10) by linarith
  from run_line_fault [where parse = parse, OF S(1,4) bspec [OF S(6) assms(2)] assms(3,4) this] obtain s' pa where
    R: "run_line parse a s = Some (Inr 1, s')" "klists s' (q @ [a]) (pa # c) al" "pa \<in> plist s a" "pa \<notin> set ld"
    "frames_ok s' (ld @ [pa])" "proc_at s' (ld @ [pa]) a (L a) (e a) (Suc (m a))" "\<forall>b. b \<noteq> a \<longrightarrow> procs s' b = procs s b"
    "plist s' a = plist s a" "\<forall>x. x \<noteq> pa \<longrightarrow> pages s' x = pages s x" "frame_store_size s' = frame_store_size s"
    "\<forall>y < 3 * length ld. store s' ! y = store s ! y" "user s' = user s" by (elim exE conjE) (rule that; assumption)
  have pl: "plist s' b = plist s b" for b using R(7,8) by (cases "b = a") (simp_all add: plist_def)
  have "proc_at s' (ld @ [pa]) b (L b) (e b) (?m b)" if "b \<in> set al" for b
  proof (cases "b = a")
    case False
    have "pa \<notin> plist s b" using S(7) that assms(2) False R(3) by blast
    then have "\<forall>x \<in> plist s b. pages s' x = pages s x \<and> (x \<in> set (ld @ [pa]) \<longleftrightarrow> x \<in> set ld)" using R(9) by auto
    then show ?thesis using proc_at_cong [OF bspec [OF S(6) that] S(4), of s' "ld @ [pa]"] R(7,11) False by simp
  qed (use R(6) in simp)
  then have "\<forall>b \<in> set al. proc_at s' (ld @ [pa]) b (L b) (e b) (?m b)" by blast
  moreover have "length (ld @ [pa]) = (\<Sum>b \<in> set al. ?m b)"
  proof -
    have "(\<Sum>b \<in> set al. ?m b) = Suc (m a) + (\<Sum>b \<in> set al - {a}. ?m b)" using assms(2) by (simp add: sum.remove)
    also have "(\<Sum>b \<in> set al - {a}. ?m b) = (\<Sum>b \<in> set al - {a}. m b)" by (rule sum.cong) auto
    finally show ?thesis using assms(2) S(9) by (simp add: sum.remove)
  qed
  moreover have "set (ld @ [pa]) \<subseteq> (\<Union>b \<in> set al. plist s b)" using S(8) R(3) assms(2) by auto
  moreover have "set (pa # c) = set (ld @ [pa])" "distinct (pa # c)" using S(2,3) R(4) by auto
  ultimately have "sys s' al (q @ [a]) L e ?m"
    unfolding sys_def pl R(10) using R(2,5) S(5,7,10) by blast
  then show ?thesis using R(1,10,12) by blast
qed

section \<open>A round\<close>

lemma sys_queue:
  assumes "sys s al q L e m"
  obtains c where "klists s q c al"
    and "\<And>l h q'. klists (s\<lparr>QUEUE := l, nodes := h\<rparr>) q' c al \<Longrightarrow> sys (s\<lparr>QUEUE := l, nodes := h\<rparr>) al q' L e m"
proof -
  obtain c ld where k: "klists s q c al" and S: "set c = set ld" "distinct c" "frames_ok s ld" "distinct al"
    "\<forall>a \<in> set al. proc_at s ld a (L a) (e a) (m a)" "\<forall>a \<in> set al. \<forall>b \<in> set al. a \<noteq> b \<longrightarrow> plist s a \<inter> plist s b = {}"
    "set ld \<subseteq> (\<Union>a \<in> set al. plist s a)" "length ld = (\<Sum>a \<in> set al. m a)"
    "3 * (\<Sum>a \<in> set al. PAGE_table_size (length (L a))) + 2 \<le> frame_store_size s" using assms(1) unfolding sys_def by blast
  have "sys (s\<lparr>QUEUE := l, nodes := h\<rparr>) al q' L e m" if k': "klists (s\<lparr>QUEUE := l, nodes := h\<rparr>) q' c al" for l h q'
  proof -
    define s' where "s' = s\<lparr>QUEUE := l, nodes := h\<rparr>"
    have same: "plist s' = plist s" "proc_at s' = proc_at s" "frames_ok s' = frames_ok s" "frame_store_size s' = frame_store_size s"
      by (simp_all add: s'_def plist_def proc_at_def frames_ok_def fun_eq_iff)
    show ?thesis
      unfolding s'_def [symmetric] sys_def same using k' [folded s'_def] S by (intro exI [of _ c] exI [of _ ld] conjI)
  qed
  then show ?thesis using that k by blast
qed

lemma sys_pop:
  assumes "sys s al (a # q) L e m"
  shows "\<exists>s'. pop_queue s = Some (Inr a, s') \<and> sys s' al q L e m \<and> procs s' = procs s \<and>
    frame_store_size s' = frame_store_size s \<and> user s' = user s"
proof -
  obtain c where c: "klists s (a # q) c al"
    "\<And>l h q'. klists (s\<lparr>QUEUE := l, nodes := h\<rparr>) q' c al \<Longrightarrow> sys (s\<lparr>QUEUE := l, nodes := h\<rparr>) al q' L e m"
    using sys_queue [OF assms] by metis
  obtain l h where p: "pop_queue s = Some (Inr a, s\<lparr>QUEUE := l, nodes := h\<rparr>)" "klists (s\<lparr>QUEUE := l, nodes := h\<rparr>) q c al"
    using queue_pop [OF c(1)] by blast
  then show ?thesis using c(2) [OF p(2)] by (simp add: user_def)
qed

lemma sys_push:
  assumes "sys s al q L e m"
  shows "\<exists>s'. on_queue (add_tail a) s = Some s' \<and> sys s' al (q @ [a]) L e m \<and>
    frame_store_size s' = frame_store_size s \<and> user s' = user s"
proof -
  obtain c where c: "klists s q c al"
    "\<And>l h q'. klists (s\<lparr>QUEUE := l, nodes := h\<rparr>) q' c al \<Longrightarrow> sys (s\<lparr>QUEUE := l, nodes := h\<rparr>) al q' L e m"
    using sys_queue [OF assms] by metis
  obtain l h where p: "on_queue (add_tail a) s = Some (s\<lparr>QUEUE := l, nodes := h\<rparr>)" "klists (s\<lparr>QUEUE := l, nodes := h\<rparr>) (q @ [a]) c al"
    using queue_add [OF c(1)] by blast
  then show ?thesis using c(2) [OF p(2)] by (simp add: user_def)
qed

context line_runner begin

text \<open>The outcome of a round for the process at the head of the queue.\<close>

lemma round_ok:
  assumes "sys s al (a # q) L e m" and "a \<in> set al" and "\<forall>l \<in> set (L a). simple l"
  shows "\<exists>s' e' m'. round_RR_a3 parse s = Some (Inr (), s') \<and>
    sys s' al (case snd (turn (entry_of L e m a)) of None \<Rightarrow> q | Some y \<Rightarrow> q @ [a]) L e' m' \<and>
    (\<forall>b. b \<noteq> a \<longrightarrow> e' b = e b \<and> m' b = m b) \<and>
    (case snd (turn (entry_of L e m a)) of None \<Rightarrow> e' a = length (L a) | Some y \<Rightarrow> entry_of L e' m' a = y) \<and>
    frame_store_size s' = frame_store_size s \<and> user s' = fold meaning (fst (turn (entry_of L e m a))) (user s)"
proof -
  obtain s1 where s1: "pop_queue s = Some (Inr a, s1)" "sys s1 al q L e m" "procs s1 = procs s" "frame_store_size s1 = frame_store_size s"
    "user s1 = user s" using sys_pop [OF assms(1)] by blast
  obtain p where p: "procs s1 a = Some p" "proc_size p = int (length (L a) - e a)" "e a \<le> length (L a)" "e a \<le> 3 * m a"
    using sys_proc [OF s1(2) assms(2)] by metis
  have simple: "simple (L a ! i)" if "i < length (L a)" for i using assms(3) that by simp
  let ?P = "drop (e a) (L a)" and ?k = "min (3 * m a) (length (L a)) - e a"
  have ent: "entry_of L e m a = (?P, ?k)" by (simp add: entry_of_def)
  consider (none) "length ?P = 0" | (fault) "0 < length ?P" "?k = 0" | (last) "length ?P = 1" "0 < ?k" | (one) "1 < length ?P" "?k = 1"
    | (two) "1 < length ?P" "1 < ?k" by linarith
  then show ?thesis
  proof cases
    case none
    then have "round_RR_a3 parse s = Some (Inr (), s1)" using s1(1) p by (simp add: round_RR_a3_def)
    then show ?thesis using none s1 p(3) by (intro exI [of _ s1] exI [of _ e] exI [of _ m]) (simp add: ent turn_def)
  next
    case fault
    then have e: "e a < length (L a)" "e a = 3 * m a" using p(3,4) by (simp_all add: min_def split: if_splits)
    obtain s2 where s2: "run_line parse a s1 = Some (Inr 1, s2)" "sys s2 al (q @ [a]) L e (m(a := Suc (m a)))"
      "frame_store_size s2 = frame_store_size s1" "user s2 = user s1" using sys_fault [OF s1(2) assms(2) e] by blast
    have "round_RR_a3 parse s = Some (Inr (), s2)" using s1(1) s2(1) p e by (auto simp: round_RR_a3_def)
    moreover have "turn (entry_of L e m a) = ([], Some (?P, min 3 (length ?P)))" using fault by (auto simp: ent turn_def)
    moreover have "entry_of L e (m(a := Suc (m a))) a = (?P, min 3 (length ?P))" using e by (simp add: entry_of_def)
    ultimately show ?thesis using s2 s1 by (intro exI [of _ s2] exI [of _ e] exI [of _ "m(a := Suc (m a))"]) simp
  next
    case last
    then have e: "e a < length (L a)" "e a < 3 * m a" "Suc (e a) = length (L a)" by auto
    obtain s2 where s2: "run_line parse a s1 = Some (Inr 0, s2)" "sys s2 al q L (e(a := Suc (e a))) m"
      "frame_store_size s2 = frame_store_size s1" "user s2 = meaning (L a ! e a) (user s1)"
      using sys_exec [OF s1(2) assms(2) e(1,2) simple [OF e(1)]] by blast
    have "round_RR_a3 parse s = Some (Inr (), s2)" using s1(1) s2(1) p e by (auto simp: round_RR_a3_def)
    moreover have "turn (entry_of L e m a) = ([L a ! e a], None)"
    proof -
      have "?P = [L a ! e a]" using e Cons_nth_drop_Suc [of "e a" "L a"] by simp
      then show ?thesis using last(2) by (simp add: ent turn_def del: min_less_iff_conj zero_less_diff)
    qed
    ultimately show ?thesis using s2 s1 e(3) by (intro exI [of _ s2] exI [of _ "e(a := Suc (e a))"] exI [of _ m]) simp
  next
    case one
    then have e: "e a < length (L a)" "e a < 3 * m a" "Suc (e a) < length (L a)" "Suc (e a) = 3 * m a" by auto
    obtain s2 where s2: "run_line parse a s1 = Some (Inr 0, s2)" "sys s2 al q L (e(a := Suc (e a))) m"
      "frame_store_size s2 = frame_store_size s1" "user s2 = meaning (L a ! e a) (user s1)"
      using sys_exec [OF s1(2) assms(2) e(1,2) simple [OF e(1)]] by blast
    obtain s3 where s3: "run_line parse a s2 = Some (Inr 1, s3)" "sys s3 al (q @ [a]) L (e(a := Suc (e a))) (m(a := Suc (m a)))"
      "frame_store_size s3 = frame_store_size s2" "user s3 = user s2"
      using sys_fault [OF s2(2) assms(2)] e by auto
    have "round_RR_a3 parse s = Some (Inr (), s3)" using s1(1) s2(1) s3(1) p e by (auto simp: round_RR_a3_def)
    moreover have "turn (entry_of L e m a) = ([L a ! e a], Some (tl ?P, min 3 (length ?P - 1)))"
      unfolding ent turn_one [OF one] by (simp only: hd_drop_conv_nth [OF e(1)])
    moreover have "entry_of L (e(a := Suc (e a))) (m(a := Suc (m a))) a = (tl ?P, min 3 (length ?P - 1))"
    proof -
      have "min (3 * Suc (m a)) (length (L a)) - Suc (e a) = min 3 (length ?P - 1)" using e by simp
      then show ?thesis by (simp add: entry_of_def drop_Suc drop_tl)
    qed
    ultimately show ?thesis using s3 s2 s1
      by (intro exI [of _ s3] exI [of _ "e(a := Suc (e a))"] exI [of _ "m(a := Suc (m a))"]) simp
  next
    case two
    then have e: "e a < length (L a)" "e a < 3 * m a" "Suc (e a) < length (L a)" "Suc (e a) < 3 * m a" by auto
    obtain s2 where s2: "run_line parse a s1 = Some (Inr 0, s2)" "sys s2 al q L (e(a := Suc (e a))) m"
      "frame_store_size s2 = frame_store_size s1" "user s2 = meaning (L a ! e a) (user s1)"
      using sys_exec [OF s1(2) assms(2) e(1,2) simple [OF e(1)]] by blast
    obtain s3 where s3: "run_line parse a s2 = Some (Inr 0, s3)" "sys s3 al q L (e(a := Suc (Suc (e a)))) m"
      "frame_store_size s3 = frame_store_size s2" "user s3 = meaning (L a ! Suc (e a)) (user s2)"
      using sys_exec [OF s2(2) assms(2)] e simple by auto
    obtain s4 where s4: "on_queue (add_tail a) s3 = Some s4" "sys s4 al (q @ [a]) L (e(a := Suc (Suc (e a)))) m"
      "frame_store_size s4 = frame_store_size s3" "user s4 = user s3" using sys_push [OF s3(2)] by blast
    have "round_RR_a3 parse s = Some (Inr (), s4)" using s1(1) s2(1) s3(1) s4(1) p e by (auto simp: round_RR_a3_def)
    moreover have "turn (entry_of L e m a) = ([L a ! e a, L a ! Suc (e a)], Some (drop 2 ?P, ?k - 2))"
    proof -
      have "take 2 ?P = [L a ! e a, L a ! Suc (e a)]"
        using e Cons_nth_drop_Suc [of "e a" "L a"] Cons_nth_drop_Suc [of "Suc (e a)" "L a"]
        by (metis take_Suc_Cons take0 numeral_2_eq_2)
      then show ?thesis using two by (simp add: ent turn_def)
    qed
    moreover have "entry_of L (e(a := Suc (Suc (e a)))) m a = (drop 2 ?P, ?k - 2)" by (simp add: entry_of_def)
    ultimately show ?thesis using s4 s3 s2 s1
      by (intro exI [of _ s4] exI [of _ "e(a := Suc (Suc (e a)))"] exI [of _ m]) simp
  qed
qed

end

section \<open>The loop\<close>

lemma counters_full:
  assumes "e \<le> length L"
  shows "(\<forall>c \<in> set (map (\<lambda>i. min 3 (e - 3 * i)) [0..<PAGE_table_size (length L)]). c = 3) \<Longrightarrow> e = length L"
proof -
  assume a: "\<forall>c \<in> set (map (\<lambda>i. min 3 (e - 3 * i)) [0..<PAGE_table_size (length L)]). c = 3"
  show "e = length L"
  proof (cases "PAGE_table_size (length L)")
    case 0
    then show ?thesis using assms PAGE_table_size_bound [of "length L"] by simp
  next
    case (Suc n)
    then have "min 3 (e - 3 * n) = 3" using a by auto
    then have "3 * n + 3 \<le> e" by linarith
    then show ?thesis using assms PAGE_table_size_bound [of "length L"] Suc by linarith
  qed
qed

context line_runner begin

lemma rr_loop_ok:
  assumes "sys s al q L e m" and "distinct q" and "set q \<subseteq> set al" and "\<forall>a \<in> set al. \<forall>l \<in> set (L a). simple l"
    and "\<forall>a \<in> set al. a \<notin> set q \<longrightarrow> e a = length (L a)" and "sum_list (map (weight \<circ> entry_of L e m) q) < n"
  shows "\<exists>s' q' m'. rr_loop n parse s = Some (Inr (), s') \<and> sys s' al q' L (\<lambda>a. length (L a)) m' \<and>
    frame_store_size s' = frame_store_size s \<and> user s' = fold meaning (round_robin (map (entry_of L e m) q)) (user s)"
  using assms
proof (induction n arbitrary: s q e m)
  case 0
  then show ?case by simp
next
  case (Suc n)
  define D where "D a = (\<forall>c \<in> set (map (\<lambda>i. min 3 (e a - 3 * i)) [0..<PAGE_table_size (length (L a))]). c = 3)" for a
  have e: "e a \<le> length (L a)" if "a \<in> set al" for a using sys_proc [OF Suc.prems(1) that] by metis
  have fin: "PCB_done a s = Some (D a)" if a: "a \<in> set al" for a
  proof -
    obtain p where "procs s a = Some p" "program_counter p = map (\<lambda>i. min 3 (e a - 3 * i)) [0..<PAGE_table_size (length (L a))]"
      using sys_proc [OF Suc.prems(1) a] by metis
    then show ?thesis by (simp add: PCB_done_def D_def)
  qed
  obtain c where "klists s q c al" using Suc.prems(1) unfolding sys_def by blast
  then have qd: "queue_done s = Some (\<forall>a \<in> set q. D a)" by (rule queue_done_ok) (use fin Suc.prems(3) in blast)
  show ?case
  proof (cases "\<forall>a \<in> set q. D a")
    case True
    have full: "e a = length (L a)" if "a \<in> set al" for a
    proof (cases "a \<in> set q")
      case q: True
      show ?thesis by (rule counters_full [OF e [OF that]]) (use True q in \<open>simp add: D_def\<close>)
    qed (use Suc.prems(5) that in blast)
    have "sys s al q L (\<lambda>a. length (L a)) m" using Suc.prems(1) unfolding sys_def by (simp add: full cong: ball_cong)
    moreover have "round_robin (map (entry_of L e m) q) = []"
      by (rule round_robin_idle) (use full Suc.prems(3) in \<open>auto simp: entry_of_def\<close>)
    ultimately show ?thesis using qd True by (intro exI [of _ s] exI [of _ q] exI [of _ m]) simp
  next
    case False
    then obtain a r where q: "q = a # r" by (cases q) auto
    have a: "a \<in> set al" "a \<notin> set r" "distinct r" "set r \<subseteq> set al" using Suc.prems(2,3) q by auto
    define x where "x = entry_of L e m a"
    obtain s1 e1 m1 where r: "round_RR_a3 parse s = Some (Inr (), s1)"
      "sys s1 al (case snd (turn x) of None \<Rightarrow> r | Some y \<Rightarrow> r @ [a]) L e1 m1" "\<forall>b. b \<noteq> a \<longrightarrow> e1 b = e b \<and> m1 b = m b"
      "case snd (turn x) of None \<Rightarrow> e1 a = length (L a) | Some y \<Rightarrow> entry_of L e1 m1 a = y"
      "frame_store_size s1 = frame_store_size s" "user s1 = fold meaning (fst (turn x)) (user s)"
      using round_ok [OF Suc.prems(1) [unfolded q] a(1)] Suc.prems(4) a(1) unfolding x_def by blast
    define q1 where "q1 = (case snd (turn x) of None \<Rightarrow> r | Some y \<Rightarrow> r @ [a])"
    have "map (entry_of L e1 m1) r = map (entry_of L e m) r" using r(3) a(2) by (auto simp: entry_of_def)
    then have q1: "map (entry_of L e1 m1) q1 = map (entry_of L e m) r @ requeue x"
      using r(4) by (simp add: q1_def requeue_def split: option.splits)
    have "sum_list (map (weight \<circ> entry_of L e1 m1) q1) = sum_list (map weight (map (entry_of L e1 m1) q1))" by simp
    also have "\<dots> < sum_list (map (weight \<circ> entry_of L e m) q)"
      unfolding q1 using weight_requeue [of x] by (simp add: q x_def)
    finally have w: "sum_list (map (weight \<circ> entry_of L e1 m1) q1) < n" using Suc.prems(6) by linarith
    have d: "distinct q1" "set q1 \<subseteq> set al" using a by (auto simp: q1_def split: option.split)
    have "e1 b = length (L b)" if b: "b \<in> set al" "b \<notin> set q1" for b
    proof (cases "b = a")
      case True
      then show ?thesis using b(2) r(4) by (auto simp: q1_def split: option.splits)
    next
      case False
      then have "b \<notin> set q" using b(2) by (auto simp: q1_def q split: option.splits)
      then show ?thesis using Suc.prems(5) b(1) r(3) False by simp
    qed
    then have "\<forall>b \<in> set al. b \<notin> set q1 \<longrightarrow> e1 b = length (L b)" by blast
    from Suc.IH [OF r(2) [folded q1_def] d Suc.prems(4) this w] obtain s' q' m' where
      "rr_loop n parse s1 = Some (Inr (), s')" "sys s' al q' L (\<lambda>a. length (L a)) m'" "frame_store_size s' = frame_store_size s1"
      "user s' = fold meaning (round_robin (map (entry_of L e1 m1) q1)) (user s1)" by blast
    then show ?thesis using r(1,5,6) qd False q1 q by (auto simp: x_def)
  qed
qed

end

text \<open>The end of a run: the lists are emptied and all frames are free again.\<close>

definition idle :: "a3_state \<Rightarrow> bool" where
  "idle s \<longleftrightarrow> klists s [] [] [] \<and> frames_ok s []"

lemma frame_slot: "y < 3 * n \<Longrightarrow> \<exists>t < n. y = 3 * t \<or> y = 3 * t + 1 \<or> y = 3 * t + (2::nat)"
  by presburger

lemma sys_clear:
  assumes "sys s al q L (\<lambda>a. length (L a)) m"
  shows "\<exists>s'. clear_kernel s = Some s' \<and> idle s' \<and> frame_store_size s' = frame_store_size s \<and> user s' = user s"
proof -
  obtain c ld where k: "klists s q c al" and f: "frames_ok s ld" and S: "distinct al"
    "\<forall>a \<in> set al. proc_at s ld a (L a) (length (L a)) (m a)" "\<forall>a \<in> set al. \<forall>b \<in> set al. a \<noteq> b \<longrightarrow> plist s a \<inter> plist s b = {}"
    "set ld \<subseteq> (\<Union>a \<in> set al. plist s a)" "length ld = (\<Sum>a \<in> set al. m a)"
    "3 * (\<Sum>a \<in> set al. PAGE_table_size (length (L a))) + 2 \<le> frame_store_size s" using assms(1) unfolding sys_def by blast
  define F where "F x = (case pages s x of None \<Rightarrow> {} | Some pg \<Rightarrow> set (frame_index pg))" for x
  define P where "P a = (case procs s a of None \<Rightarrow> [] | Some p \<Rightarrow> page_list p)" for a
  let ?b = "frame_store_size s"
  have "(\<Sum>a \<in> set al. m a) \<le> (\<Sum>a \<in> set al. PAGE_table_size (length (L a)))"
    by (rule sum_mono) (use S(2) in \<open>auto simp: proc_at_def\<close>)
  then have room: "3 * length ld + 2 \<le> ?b" using S(5,6) by linarith
  have pg: "\<exists>pg. pages s x = Some pg \<and> F x = set (frame_index pg) \<and> (\<forall>y \<in> set (frame_index pg). y + 2 < ?b)" if x: "x \<in> set ld" for x
  proof -
    obtain t pg where t: "t < length ld" "pages s x = Some pg" "frame_index pg = [3 * t, 3 * t + 1, 3 * t + 2]"
      using frames_index [OF f x] by metis
    have "3 * t + 4 < ?b" using room t(1) by linarith
    then show ?thesis using t(2,3) by (simp add: F_def)
  qed
  have pr: "\<exists>p. procs s a = Some p \<and> page_list p = P a \<and> distinct (P a) \<and> set (P a) \<subseteq> set ld" if a: "a \<in> set al" for a
  proof -
    obtain p where p: "procs s a = Some p" "length (L a) \<le> 3 * m a" "m a \<le> PAGE_table_size (length (L a))"
      "length (page_list p) = PAGE_table_size (length (L a))" "distinct (page_list p)"
      "\<forall>i < PAGE_table_size (length (L a)). page_list p ! i \<in> set ld \<longleftrightarrow> i < m a"
      using bspec [OF S(2) a] unfolding proc_at_def by blast
    have "PAGE_table_size (length (L a)) \<le> m a" using p(2) unfolding PAGE_table_size_ceil by linarith
    then have "set (page_list p) \<subseteq> set ld" using p(3,4,6) by (auto simp: in_set_conv_nth)
    then show ?thesis using p by (simp add: P_def)
  qed
  have plP: "plist s a = set (P a)" for a by (simp add: plist_def P_def split: option.split)
  obtain rs where l: "linked_at rs (ALL_PCB s, nodes s) al" using k by (auto simp: klists_def)
  note w = l [unfolded linked_at_def, simplified]
  have ch: "chain (cells (nodes s)) (rs @ [dummy_tail (ALL_PCB s)])" using w by (cases rs) auto
  have frames: "\<forall>a \<in> set al. \<exists>p. procs s a = Some p \<and> page_list p = P a \<and> distinct (P a) \<and>
      (\<forall>pa \<in> set (P a). \<exists>pg. pages s pa = Some pg \<and> F pa = set (frame_index pg) \<and> (\<forall>x \<in> set (frame_index pg). x + 2 < ?b))"
    using pr pg by (meson subsetD)
  have disj: "\<forall>a \<in> set al. \<forall>b \<in> set al. a \<noteq> b \<longrightarrow> set (P a) \<inter> set (P b) = {}" using S(3) plP by blast
  have len: "?b \<le> length (store s)" using f by (simp add: frames_ok_def)
  have nodes: "map (\<lambda>x. node_data x (nodes s)) rs = map Some al" "nx (cells (nodes s)) (dummy_tail (ALL_PCB s)) = None" using w by auto
  obtain st ps' pgs' where
    free: "free_all (Some (hd (rs @ [dummy_tail (ALL_PCB s)]))) s = Some (s\<lparr>procs := ps', store := st, pages := pgs'\<rparr>)"
    "cleared (\<Union>a \<in> set al. \<Union> (F ` set (P a))) ?b (store s) st"
    using free_all_ok [OF ch nodes frames disj len S(1)] by (elim exE conjE) (rule that)
  define s1 where "s1 = s\<lparr>procs := ps', store := st, pages := pgs'\<rparr>"
  have "klists s1 q c al" using k by (simp add: s1_def klists_def)
  then obtain lq lc la h where cl: "(do {
      s \<leftarrow> on_queue (\<lambda>(l, h). list_clear l h) s1;
      s \<leftarrow> on_lru (\<lambda>(l, h). list_clear l h) s;
      on_all (\<lambda>(l, h). list_clear l h) s }) = Some (s1\<lparr>QUEUE := lq, LRU_CACHE := lc, ALL_PCB := la, nodes := h\<rparr>)"
    "klists (s1\<lparr>QUEUE := lq, LRU_CACHE := lc, ALL_PCB := la, nodes := h\<rparr>) [] [] []" using clear_lists by blast
  define s2 where "s2 = s1\<lparr>QUEUE := lq, LRU_CACHE := lc, ALL_PCB := la, nodes := h\<rparr>"
  have "clear_kernel s = Some s2"
    using linked_first [OF l] free(1) cl(1) by (auto simp: clear_kernel_def s1_def [symmetric] s2_def)
  moreover have "idle s2"
  proof -
    have "var (st ! y) = ''none''" if y: "y < ?b" for y
    proof (cases "y < 3 * length ld")
      case True
      then obtain t where t: "t < length ld" "y = 3 * t \<or> y = 3 * t + 1 \<or> y = 3 * t + 2"
        by (metis frame_slot)
      obtain pg where pg: "pages s (ld ! t) = Some pg" "frame_index pg = [3 * t, 3 * t + 1, 3 * t + 2]"
        using f t(1) unfolding frames_ok_def by blast
      then have "F (ld ! t) = {3 * t, 3 * t + 1, 3 * t + 2}" by (simp add: F_def)
      then have "y \<in> F (ld ! t)" using t(2) by blast
      moreover have "ld ! t \<in> (\<Union>a \<in> set al. set (P a))" using subsetD [OF S(4) nth_mem [OF t(1)]] unfolding plP .
      ultimately have "y \<in> (\<Union>a \<in> set al. \<Union> (F ` set (P a)))" by blast
      then show ?thesis using free(2) y f by (simp add: cleared_def frames_ok_def)
    next
      case False
      then have "var (store s ! y) = ''none''" using f y by (simp add: frames_ok_def)
      moreover have "st ! y = store s ! y \<or> st ! y = free_slot"
        using free(2) less_le_trans [OF y len] unfolding cleared_def by blast
      ultimately show ?thesis by auto
    qed
    then have "frames_ok s2 []" using free(2) f by (simp add: frames_ok_def s2_def s1_def cleared_def)
    then show ?thesis using cl(2) by (simp add: idle_def s2_def)
  qed
  moreover have "frame_store_size s2 = ?b" by (simp add: s2_def s1_def)
  moreover have "user s2 = user s"
  proof -
    have len': "length st = length (store s)" and keep: "\<forall>y < length (store s). st ! y = store s ! y \<or> y < ?b"
      using free(2) unfolding cleared_def by blast+
    have "drop ?b st = drop ?b (store s)"
    proof (rule nth_equalityI)
      show "drop ?b st ! i = drop ?b (store s) ! i" if "i < length (drop ?b st)" for i
        using that keep [rule_format, of "?b + i"] len' len by simp
    qed (simp add: len')
    then show ?thesis by (simp add: user_def s2_def s1_def)
  qed
  ultimately show ?thesis by blast
qed

context line_runner begin

text \<open>The round robin of the kernel runs the lines in the order of the abstract scheduler.\<close>

lemma run_proc_RR_ok:
  assumes "sys s al q L e m" and "distinct q" and "set q \<subseteq> set al" and "\<forall>a \<in> set al. \<forall>l \<in> set (L a). simple l"
    and "\<forall>a \<in> set al. a \<notin> set q \<longrightarrow> e a = length (L a)" and "sum_list (map (weight \<circ> entry_of L e m) q) < n"
  shows "\<exists>s'. run_proc_RR n parse s = Some (Inr 0, s') \<and> idle s' \<and> frame_store_size s' = frame_store_size s \<and>
    user s' = fold meaning (round_robin (map (entry_of L e m) q)) (user s)"
proof -
  obtain s1 q' m' where r: "rr_loop n parse s = Some (Inr (), s1)" "sys s1 al q' L (\<lambda>a. length (L a)) m'"
    "frame_store_size s1 = frame_store_size s" "user s1 = fold meaning (round_robin (map (entry_of L e m) q)) (user s)"
    using rr_loop_ok [OF assms] by blast
  obtain s' where "clear_kernel s1 = Some s'" "idle s'" "frame_store_size s' = frame_store_size s1" "user s' = user s1"
    using sys_clear [OF r(2)] by blast
  then show ?thesis using r by (simp add: run_proc_RR_def)
qed

end

end
