(* ===== verification/A3_Run.thy ===== *)
theory A3_Run
  imports A3_Robin A3_Shell
begin

text \<open>
  Running scripts in the third shell, from the command line down to the scheduler: what
  \<open>new_proc\<close> (\<open>a3/kernel.c\<close>, \<open>a3/pcb.c\<close>) adds to the kernel, what the interpreter does with a line
  (\<open>a3/interpreter.c\<close>, \<open>a3/shell.c\<close>), and the commands \<open>run\<close> and \<open>exec\<close>.
\<close>

section \<open>The start of the kernel\<close>

lemma beyond_fresh:
  fixes f :: nat
  assumes "X \<subseteq> D" and "\<forall>p \<in> D. p < f"
  shows "X \<inter> {f, Suc f} = {}"
proof -
  have "x < f" if "x \<in> X" for x using that assms by blast
  from this [of f] this [of "Suc f"] show ?thesis by auto
qed

lemma list_init_at:
  assumes "\<forall>p \<in> dom (cells h). p < fresh h"
  shows "\<exists>l h'. list_init h = Some (l, h') \<and> linked_at [] (l, h') [] \<and> own [] l = {fresh h, Suc (fresh h)} \<and>
    frame_off {} h h' \<and> (\<forall>p \<in> dom (cells h'). p < fresh h')"
proof -
  have "fresh h \<notin> dom (cells h)" "Suc (fresh h) \<notin> dom (cells h)" using beyond_fresh [OF order_refl assms] by blast+
  then show ?thesis using assms
    by (fastforce simp: list_init_def malloc_node_def Let_def upd_cells_def set_next_def set_prev_def linked_at_def own_def frame_off_def
      nx_def pv_def node_data_def less_Suc_eq split: if_splits)
qed

lemma kernel_setup_lists:
  assumes "\<forall>p \<in> dom (cells (nodes s)). p < fresh (nodes s)"
  shows "\<exists>lq lc la h. kernel_setup s = Some (s\<lparr>QUEUE := lq, LRU_CACHE := lc, ALL_PCB := la, nodes := h\<rparr>) \<and>
    klists (s\<lparr>QUEUE := lq, LRU_CACHE := lc, ALL_PCB := la, nodes := h\<rparr>) [] [] []"
proof -
  obtain lq h1 where q: "list_init (nodes s) = Some (lq, h1)" "linked_at [] (lq, h1) []" "own [] lq = {fresh (nodes s), Suc (fresh (nodes s))}"
    "\<forall>p \<in> dom (cells h1). p < fresh h1" using list_init_at [OF assms] by blast
  obtain lc h2 where c: "list_init h1 = Some (lc, h2)" "linked_at [] (lc, h2) []" "own [] lc = {fresh h1, Suc (fresh h1)}"
    "frame_off {} h1 h2" "\<forall>p \<in> dom (cells h2). p < fresh h2" using list_init_at [OF q(4)] by blast
  obtain la h3 where a: "list_init h2 = Some (la, h3)" "linked_at [] (la, h3) []" "own [] la = {fresh h2, Suc (fresh h2)}"
    "frame_off {} h2 h3" "\<forall>p \<in> dom (cells h3). p < fresh h3" using list_init_at [OF c(5)] by blast
  have q2: "linked_at [] (lq, h2) []" by (rule linked_at_frame [OF q(2) c(4)]) (use c(5) in auto)
  have q3: "linked_at [] (lq, h3) []" by (rule linked_at_frame [OF q2 a(4)]) (use a(5) in auto)
  have c3: "linked_at [] (lc, h3) []" by (rule linked_at_frame [OF c(2) a(4)]) (use a(5) in auto)
  have "own [] lq \<inter> own [] lc = {}" using linked_at_own [OF q(2)] unfolding c(3) by (auto dest: beyond_fresh)
  moreover have "own [] lq \<inter> own [] la = {}" using linked_at_own [OF q2] unfolding a(3) by (auto dest: beyond_fresh)
  moreover have "own [] lc \<inter> own [] la = {}" using linked_at_own [OF c(2)] unfolding a(3) by (auto dest: beyond_fresh)
  ultimately have "klists (s\<lparr>QUEUE := lq, LRU_CACHE := lc, ALL_PCB := la, nodes := h3\<rparr>) [] [] []"
    using q3 c3 a(2) unfolding klists_def by (intro exI [of _ "[]"]) simp
  moreover have "kernel_setup s = Some (s\<lparr>QUEUE := lq, LRU_CACHE := lc, ALL_PCB := la, nodes := h3\<rparr>)"
    using q(1) c(1) a(1) by (simp add: kernel_setup_def on_queue_def on_lru_def on_all_def)
  ultimately show ?thesis by blast
qed

text \<open>The kernel and the memory as \<open>main\<close> sets them up.\<close>

lemma boot_idle:
  assumes "\<forall>p \<in> dom (cells (nodes s)). p < fresh (nodes s)" and "frame_store_size s \<le> length (store s)"
  shows "\<exists>s'. kernel_setup (mem_init_a3 s) = Some s' \<and> idle s' \<and> frame_store_size s' = frame_store_size s \<and>
    user s' = (fs s, replicate (length (store s) - frame_store_size s) free_slot, strtok_rest s) \<and>
    new_name_count s' = new_name_count s"
proof -
  have "\<forall>p \<in> dom (cells (nodes (mem_init_a3 s))). p < fresh (nodes (mem_init_a3 s))" using assms(1) by (simp add: mem_init_a3_def)
  from kernel_setup_lists [OF this] obtain lq lc la h where
    k: "kernel_setup (mem_init_a3 s) = Some ((mem_init_a3 s)\<lparr>QUEUE := lq, LRU_CACHE := lc, ALL_PCB := la, nodes := h\<rparr>)"
    "klists ((mem_init_a3 s)\<lparr>QUEUE := lq, LRU_CACHE := lc, ALL_PCB := la, nodes := h\<rparr>) [] [] []" by blast
  then show ?thesis using assms(2)
    by (intro exI [of _ "(mem_init_a3 s)\<lparr>QUEUE := lq, LRU_CACHE := lc, ALL_PCB := la, nodes := h\<rparr>"])
      (simp add: idle_def frames_ok_def user_def mem_init_a3_def)
qed

section \<open>A new process\<close>

lemma load_first_ok:
  assumes "frames_ok s ld" and "proc_at s ld a P 0 i" and "i + k \<le> PAGE_table_size (length P)" and "3 * length ld + 3 * k \<le> frame_store_size s"
  shows "\<exists>pr pgs st pas. load_first [i..<i + k] a s = Some (Inr (), s\<lparr>procs := pr, pages := pgs, store := st\<rparr>) \<and>
    map Some pas = map (\<lambda>j. page_at a j s) [i..<i + k] \<and> set pas \<subseteq> plist s a \<and>
    frames_ok (s\<lparr>procs := pr, pages := pgs, store := st\<rparr>) (ld @ pas) \<and>
    proc_at (s\<lparr>procs := pr, pages := pgs, store := st\<rparr>) (ld @ pas) a P 0 (i + k) \<and>
    (\<forall>b. b \<noteq> a \<longrightarrow> pr b = procs s b) \<and> map_option page_list (pr a) = map_option page_list (procs s a) \<and>
    (\<forall>x. x \<notin> plist s a \<longrightarrow> pgs x = pages s x) \<and> (\<forall>y < 3 * length ld. st ! y = store s ! y) \<and>
    drop (frame_store_size s) st = drop (frame_store_size s) (store s)"
  using assms
proof (induction k arbitrary: i s ld)
  case 0
  show ?case
    by (intro exI [of _ "procs s"] exI [of _ "pages s"] exI [of _ "store s"] exI [of _ "[]"]) (use 0 in simp)
next
  case (Suc k)
  have i: "i < PAGE_table_size (length P)" "3 * length ld + 3 \<le> frame_store_size s" using Suc.prems(3,4) by simp_all
  from load_next [OF Suc.prems(1,2) i] obtain pr pgs st pa where
    ld: "load_PAGE a i s = Some (True, s\<lparr>procs := pr, pages := pgs, store := st\<rparr>)" "page_at a i s = Some pa"
    "pa \<in> plist s a" "pa \<notin> set ld" "frames_ok (s\<lparr>procs := pr, pages := pgs, store := st\<rparr>) (ld @ [pa])"
    "proc_at (s\<lparr>procs := pr, pages := pgs, store := st\<rparr>) (ld @ [pa]) a P 0 (Suc i)"
    "\<forall>b. b \<noteq> a \<longrightarrow> pr b = procs s b" "map_option page_list (pr a) = map_option page_list (procs s a)"
    "\<forall>x. x \<noteq> pa \<longrightarrow> pgs x = pages s x" "\<forall>y < 3 * length ld. st ! y = store s ! y"
    "drop (frame_store_size s) st = drop (frame_store_size s) (store s)" by (elim exE conjE) (rule that)
  define s1 where "s1 = s\<lparr>procs := pr, pages := pgs, store := st\<rparr>"
  have more: "Suc i + k \<le> PAGE_table_size (length P)" "3 * length (ld @ [pa]) + 3 * k \<le> frame_store_size s1"
    using Suc.prems(3,4) by (simp_all add: s1_def)
  have same: "page_at a j s1 = page_at a j s" "plist s1 a = plist s a" for j
    using ld(8) by (cases "pr a"; cases "procs s a"; auto simp: s1_def page_at_def plist_def)+
  from Suc.IH [OF ld(5,6) [folded s1_def] more] obtain pr' pgs' st' pas where
    r: "load_first [Suc i..<Suc i + k] a s1 = Some (Inr (), s1\<lparr>procs := pr', pages := pgs', store := st'\<rparr>)"
    "map Some pas = map (\<lambda>j. page_at a j s1) [Suc i..<Suc i + k]" "set pas \<subseteq> plist s1 a"
    "frames_ok (s1\<lparr>procs := pr', pages := pgs', store := st'\<rparr>) ((ld @ [pa]) @ pas)"
    "proc_at (s1\<lparr>procs := pr', pages := pgs', store := st'\<rparr>) ((ld @ [pa]) @ pas) a P 0 (Suc i + k)"
    "\<forall>b. b \<noteq> a \<longrightarrow> pr' b = procs s1 b" "map_option page_list (pr' a) = map_option page_list (procs s1 a)"
    "\<forall>x. x \<notin> plist s1 a \<longrightarrow> pgs' x = pages s1 x" "\<forall>y < 3 * length (ld @ [pa]). st' ! y = store s1 ! y"
    "drop (frame_store_size s1) st' = drop (frame_store_size s1) (store s1)" by (elim exE conjE) (rule that)
  have up: "s1\<lparr>procs := pr', pages := pgs', store := st'\<rparr> = s\<lparr>procs := pr', pages := pgs', store := st'\<rparr>" by (simp add: s1_def)
  have upt: "[i..<i + Suc k] = i # [Suc i..<Suc i + k]" by (simp add: upt_conv_Cons)
  have "load_first [i..<i + Suc k] a s = Some (Inr (), s\<lparr>procs := pr', pages := pgs', store := st'\<rparr>)"
    unfolding upt using ld(1) r(1) up by (simp add: s1_def)
  moreover have "map Some (pa # pas) = map (\<lambda>j. page_at a j s) [i..<i + Suc k]"
    unfolding upt using r(2) ld(2) same(1) by simp
  moreover have "set (pa # pas) \<subseteq> plist s a" using r(3) ld(3) same(2) by simp
  moreover have "\<forall>x. x \<notin> plist s a \<longrightarrow> pgs' x = pages s x"
    using r(8) ld(3,9) unfolding same(2) by (simp add: s1_def) (metis (no_types))
  moreover have "\<forall>y < 3 * length ld. st' ! y = store s ! y" using r(9) ld(10) by (simp add: s1_def)
  moreover have "drop (frame_store_size s) st' = drop (frame_store_size s) (store s)" using r(10) ld(11) by (simp add: s1_def)
  moreover have "\<forall>b. b \<noteq> a \<longrightarrow> pr' b = procs s b" "map_option page_list (pr' a) = map_option page_list (procs s a)"
    using r(6,7) ld(7,8) by (simp_all add: s1_def)
  moreover have "frames_ok (s\<lparr>procs := pr', pages := pgs', store := st'\<rparr>) (ld @ pa # pas)"
    "proc_at (s\<lparr>procs := pr', pages := pgs', store := st'\<rparr>) (ld @ pa # pas) a P 0 (i + Suc k)"
    using r(4,5) by (simp_all add: s1_def)
  ultimately show ?case by blast
qed

lemma add_pages_ok:
  assumes "klists s q c al"
  shows "\<exists>l h. add_pages pas s = Some (s\<lparr>LRU_CACHE := l, nodes := h\<rparr>) \<and> klists (s\<lparr>LRU_CACHE := l, nodes := h\<rparr>) q (rev pas @ c) al"
  using assms
proof (induction pas arbitrary: s c)
  case Nil
  then show ?case by (intro exI [of _ "LRU_CACHE s"] exI [of _ "nodes s"]) simp
next
  case (Cons pa pas)
  obtain l h where h: "on_lru (add_head pa) s = Some (s\<lparr>LRU_CACHE := l, nodes := h\<rparr>)" "klists (s\<lparr>LRU_CACHE := l, nodes := h\<rparr>) q (pa # c) al"
    using lru_add [OF Cons.prems] by blast
  from Cons.IH [OF h(2)] obtain l' h' where
    "add_pages pas (s\<lparr>LRU_CACHE := l, nodes := h\<rparr>) = Some (s\<lparr>LRU_CACHE := l, nodes := h\<rparr>\<lparr>LRU_CACHE := l', nodes := h'\<rparr>)"
    "klists (s\<lparr>LRU_CACHE := l, nodes := h\<rparr>\<lparr>LRU_CACHE := l', nodes := h'\<rparr>) q (rev pas @ pa # c) al" by blast
  then show ?case using h(1) by (intro exI [of _ l'] exI [of _ h']) simp
qed

text \<open>Objects in use are older than the next one.\<close>

definition objs :: "a3_state \<Rightarrow> nat list \<Rightarrow> bool" where
  "objs s al \<longleftrightarrow> (\<forall>a \<in> set al. a < next_obj s \<and> plist s a \<subseteq> {..<next_obj s})"

text \<open>A process as \<open>PCB_init\<close> makes it, before its first pages are loaded.\<close>

lemma fresh_proc_at:
  assumes "program P" and "\<forall>x \<in> set ld. x < a" and "procs s a = Some \<lparr>proc_pid = pid, proc_size = int (length P),
      program_counter = replicate n 0, page_list = [a + 1..<a + 1 + n], source_file = concat P\<rparr>"
    and "\<forall>i < n. pages s (a + 1 + i) = Some (PAGE_init pid i)" and "n = PAGE_table_size (length P)"
  shows "proc_at s ld a P 0 0"
proof -
  have three: "j = 0 \<or> j = 1 \<or> j = 2" if "j < 3" for j :: nat using that by linarith
  have "\<forall>j < 3. \<not> [False, False, False] ! j" using three by fastforce
  then show ?thesis unfolding proc_at_def
    using assms by (intro exI conjI) (auto simp: map_replicate_const PAGE_init_def simp del: upt_Suc)
qed

lemma take_nth_upt: "map (\<lambda>j. xs ! j) [0..<min k (length xs)] = take k xs"
  by (rule nth_equalityI) (simp_all add: min.commute)

lemma room_for:
  fixes a b A B F :: nat
  assumes "a \<le> A" and "b \<le> B" and "3 * (A + B) + 2 \<le> F"
  shows "3 * a + 3 * b \<le> F"
proof -
  have "3 * a + 3 * b = 3 * (a + b)" by simp
  also have "\<dots> \<le> 3 * (A + B)" using assms(1,2) by (intro mult_le_mono2 add_mono)
  also have "\<dots> \<le> F" using assms(3) by (rule add_leD1)
  finally show ?thesis .
qed

lemma PCB_init_ok:
  assumes "frames_ok s ld" and "\<forall>x \<in> set ld. x < next_obj s" and "open_read h (events s) script = Some (concat P)" and "program P"
    and "3 * length ld + 3 * min 2 (PAGE_table_size (length P)) \<le> frame_store_size s"
  shows "\<exists>s1 p. PCB_init h pid script s = Some (Inr (next_obj s), s1) \<and> procs s1 (next_obj s) = Some p \<and>
    page_list p = [next_obj s + 1..<next_obj s + 1 + PAGE_table_size (length P)] \<and> frames_ok s1 (ld @ take 2 (page_list p)) \<and>
    proc_at s1 (ld @ take 2 (page_list p)) (next_obj s) P 0 (min 2 (PAGE_table_size (length P))) \<and>
    (\<forall>b. b \<noteq> next_obj s \<longrightarrow> procs s1 b = procs s b) \<and> (\<forall>x < next_obj s. pages s1 x = pages s x) \<and>
    (\<forall>y < 3 * length ld. store s1 ! y = store s ! y) \<and> nodes s1 = nodes s \<and> QUEUE s1 = QUEUE s \<and> LRU_CACHE s1 = LRU_CACHE s \<and>
    ALL_PCB s1 = ALL_PCB s \<and> frame_store_size s1 = frame_store_size s \<and>
    next_obj s1 = next_obj s + 1 + PAGE_table_size (length P) \<and> user s1 = user s"
proof -
  let ?n = "PAGE_table_size (length P)"
  define a where "a = next_obj s"
  define p where "p = \<lparr>proc_pid = pid, proc_size = int (length P), program_counter = replicate ?n 0,
    page_list = [a + 1..<a + 1 + ?n], source_file = concat P\<rparr>"
  define s0 where "s0 = s\<lparr>next_obj := a + 1 + ?n,
    pages := (\<lambda>x. if a < x \<and> x \<le> a + ?n then Some (PAGE_init pid (x - a - 1)) else pages s x),
    procs := (procs s)(a \<mapsto> p)\<rparr>"
  have s0: "procs s0 = (procs s)(a \<mapsto> p)" "store s0 = store s" "frame_store_size s0 = frame_store_size s"
    "pages s0 = (\<lambda>x. if a < x \<and> x \<le> a + ?n then Some (PAGE_init pid (x - a - 1)) else pages s x)"
    by (simp_all add: s0_def)
  have old: "pages s0 x = pages s x" if "x < a" for x using that by (simp add: s0(4))
  have "pages s0 (ld ! t) = pages s (ld ! t)" if "t < length ld" for t using old assms(2) that by (simp add: a_def)
  then have f0: "frames_ok s0 ld" using assms(1) unfolding frames_ok_def s0(2,3) by simp
  have p0: "proc_at s0 ld a P 0 0"
    by (rule fresh_proc_at [where pid = pid, OF assms(4,2) [folded a_def]]) (simp_all add: s0 p_def)
  from load_first_ok [OF f0 p0, of "min 2 ?n"] assms(5) s0(3) obtain pr pgs st pas where
    r: "load_first [0..<min 2 ?n] a s0 = Some (Inr (), s0\<lparr>procs := pr, pages := pgs, store := st\<rparr>)"
    "map Some pas = map (\<lambda>j. page_at a j s0) [0..<min 2 ?n]"
    "frames_ok (s0\<lparr>procs := pr, pages := pgs, store := st\<rparr>) (ld @ pas)"
    "proc_at (s0\<lparr>procs := pr, pages := pgs, store := st\<rparr>) (ld @ pas) a P 0 (min 2 ?n)"
    "\<forall>b. b \<noteq> a \<longrightarrow> pr b = procs s0 b" "map_option page_list (pr a) = map_option page_list (procs s0 a)"
    "\<forall>x. x \<notin> plist s0 a \<longrightarrow> pgs x = pages s0 x" "\<forall>y < 3 * length ld. st ! y = store s0 ! y"
    "drop (frame_store_size s0) st = drop (frame_store_size s0) (store s0)" by auto
  define s1 where "s1 = s0\<lparr>procs := pr, pages := pgs, store := st\<rparr>"
  obtain p1 where p1: "pr a = Some p1" "page_list p1 = page_list p" using r(6) s0(1) by auto
  have "map Some pas = map Some (map (\<lambda>j. page_list p ! j) [0..<min 2 ?n])"
    unfolding r(2) by (simp add: page_at_def s0(1) p_def)
  then have "pas = map (\<lambda>j. page_list p ! j) [0..<min 2 ?n]" by (simp only: inj_map_eq_map [OF inj_Some])
  also have "\<dots> = take 2 (page_list p)" using take_nth_upt [of "page_list p" 2] by (simp add: p_def del: upt_Suc)
  finally have pas: "pas = take 2 (page_list p1)" using p1(2) by simp
  have "plist s0 a = {a + 1..<a + 1 + ?n}"
    by (simp only: plist_def s0 p_def fun_upd_same option.case process.simps set_upt)
  then have "\<forall>x < a. pages s1 x = pages s x" using r(7) old by (simp add: s1_def)
  moreover have "PCB_init h pid script s = Some (Inr a, s1)"
    by (simp only: PCB_init_def assms(3) option.case count_lines_program [OF assms(4)] Let_def a_def [symmetric] p_def [symmetric]
      s0_def [symmetric] r(1) s1_def [symmetric]) simp
  moreover have "page_list p1 = [a + 1..<a + 1 + ?n]" using p1(2) by (simp add: p_def)
  moreover have "user s1 = user s" using r(9) by (simp add: user_def s1_def s0_def)
  moreover have "nodes s1 = nodes s" "QUEUE s1 = QUEUE s" "LRU_CACHE s1 = LRU_CACHE s" "ALL_PCB s1 = ALL_PCB s"
    "frame_store_size s1 = frame_store_size s" "next_obj s1 = a + 1 + ?n" by (simp_all add: s1_def s0_def)
  moreover have "procs s1 a = Some p1" "\<forall>b. b \<noteq> a \<longrightarrow> procs s1 b = procs s b" "\<forall>y < 3 * length ld. store s1 ! y = store s ! y"
    using r(5,8) p1(1) by (simp_all add: s1_def s0)
  ultimately show ?thesis using r(3,4) [folded s1_def] unfolding pas a_def [symmetric] by blast
qed

text \<open>The lists after a process was added.\<close>

lemma new_proc_lists:
  assumes "klists s q c al" and "PCB_init h (PID_counter s) script (s\<lparr>PID_counter := PID_counter s + 1\<rparr>) = Some (Inr a, s1)"
    and "nodes s1 = nodes s" "QUEUE s1 = QUEUE s" "LRU_CACHE s1 = LRU_CACHE s" "ALL_PCB s1 = ALL_PCB s" and "procs s1 a = Some p"
  shows "\<exists>la lq lc h3. new_proc h script s = Some (Inr 0, s1\<lparr>ALL_PCB := la, QUEUE := lq, LRU_CACHE := lc, nodes := h3\<rparr>) \<and>
    klists (s1\<lparr>ALL_PCB := la, QUEUE := lq, LRU_CACHE := lc, nodes := h3\<rparr>) (q @ [a]) (rev (take 2 (page_list p)) @ c) (al @ [a])"
proof -
  have k1: "klists s1 q c al" using assms(1,3-6) by (simp add: klists_def)
  obtain l h1 where h1: "on_all (add_tail a) s1 = Some (s1\<lparr>ALL_PCB := l, nodes := h1\<rparr>)"
    "klists (s1\<lparr>ALL_PCB := l, nodes := h1\<rparr>) q c (al @ [a])" using all_add [OF k1] by blast
  obtain l' h2 where h2: "on_queue (add_tail a) (s1\<lparr>ALL_PCB := l, nodes := h1\<rparr>) = Some (s1\<lparr>ALL_PCB := l, nodes := h1, QUEUE := l', nodes := h2\<rparr>)"
    "klists (s1\<lparr>ALL_PCB := l, nodes := h1, QUEUE := l', nodes := h2\<rparr>) (q @ [a]) c (al @ [a])" using queue_add [OF h1(2)] by blast
  define s2 where "s2 = s1\<lparr>ALL_PCB := l, nodes := h1, QUEUE := l', nodes := h2\<rparr>"
  obtain l'' h3 where h3: "add_pages (take 2 (page_list p)) s2 = Some (s2\<lparr>LRU_CACHE := l'', nodes := h3\<rparr>)"
    "klists (s2\<lparr>LRU_CACHE := l'', nodes := h3\<rparr>) (q @ [a]) (rev (take 2 (page_list p)) @ c) (al @ [a])"
    using add_pages_ok [OF h2(2) [folded s2_def]] by blast
  have eq: "s2\<lparr>LRU_CACHE := l'', nodes := h3\<rparr> = s1\<lparr>ALL_PCB := l, QUEUE := l', LRU_CACHE := l'', nodes := h3\<rparr>" by (simp add: s2_def)
  have "procs s2 a = Some p" using assms(7) by (simp add: s2_def)
  then have "new_proc h script s = Some (Inr 0, s2\<lparr>LRU_CACHE := l'', nodes := h3\<rparr>)"
    unfolding new_proc_def assms(2) using h1(1) h2(1) h3(1) by (simp add: s2_def [symmetric])
  then show ?thesis using h3(2) unfolding eq by blast
qed

lemma new_proc_ok:
  assumes "sys s al q L e m" and "objs s al" and "open_read h (events s) script = Some (concat P)" and "program P"
    and "3 * ((\<Sum>b \<in> set al. PAGE_table_size (length (L b))) + PAGE_table_size (length P)) + 2 \<le> frame_store_size s"
  shows "\<exists>s'. new_proc h script s = Some (Inr 0, s') \<and>
    sys s' (al @ [next_obj s]) (q @ [next_obj s]) (L(next_obj s := P)) (e(next_obj s := 0)) (m(next_obj s := min 2 (PAGE_table_size (length P)))) \<and>
    objs s' (al @ [next_obj s]) \<and> frame_store_size s' = frame_store_size s \<and> user s' = user s \<and> next_obj s \<notin> set al"
proof -
  let ?n = "PAGE_table_size (length P)"
  obtain c ld where S: "klists s q c al" "set c = set ld" "distinct c" "frames_ok s ld" "distinct al"
    "\<forall>a \<in> set al. proc_at s ld a (L a) (e a) (m a)" "\<forall>a \<in> set al. \<forall>b \<in> set al. a \<noteq> b \<longrightarrow> plist s a \<inter> plist s b = {}"
    "set ld \<subseteq> (\<Union>a \<in> set al. plist s a)" "length ld = (\<Sum>a \<in> set al. m a)"
    "3 * (\<Sum>a \<in> set al. PAGE_table_size (length (L a))) + 2 \<le> frame_store_size s" using assms(1) unfolding sys_def by blast
  define a where "a = next_obj s"
  have fresh: "a \<notin> set al" "\<forall>b \<in> set al. plist s b \<subseteq> {..<a}" "\<forall>x \<in> set ld. x < a"
    using assms(2) S(8) unfolding objs_def a_def by blast+
  define t where "t = s\<lparr>PID_counter := PID_counter s + 1\<rparr>"
  have t: "frames_ok t ld" "\<forall>x \<in> set ld. x < next_obj t" "open_read h (events t) script = Some (concat P)" "next_obj t = a"
    using S(4) fresh(3) assms(3) by (simp_all add: t_def frames_ok_def events_def a_def)
  have "(\<Sum>a \<in> set al. m a) \<le> (\<Sum>a \<in> set al. PAGE_table_size (length (L a)))"
    by (rule sum_mono) (use S(6) in \<open>auto simp: proc_at_def\<close>)
  moreover have "frame_store_size t = frame_store_size s" by (simp add: t_def)
  ultimately have room: "3 * length ld + 3 * min 2 ?n \<le> frame_store_size t"
    unfolding S(9) using room_for [OF _ min.cobounded2 assms(5)] by simp
  from PCB_init_ok [OF t(1-3) assms(4) room, of "PID_counter s"] obtain s1 p where
    r: "PCB_init h (PID_counter s) script t = Some (Inr a, s1)" "procs s1 a = Some p" "page_list p = [a + 1..<a + 1 + ?n]"
    "frames_ok s1 (ld @ take 2 (page_list p))" "proc_at s1 (ld @ take 2 (page_list p)) a P 0 (min 2 ?n)"
    "\<forall>b. b \<noteq> a \<longrightarrow> procs s1 b = procs s b" "\<forall>x < a. pages s1 x = pages s x" "\<forall>y < 3 * length ld. store s1 ! y = store s ! y"
    "nodes s1 = nodes s" "QUEUE s1 = QUEUE s" "LRU_CACHE s1 = LRU_CACHE s" "ALL_PCB s1 = ALL_PCB s"
    "frame_store_size s1 = frame_store_size s" "next_obj s1 = a + 1 + ?n" "user s1 = user s"
    unfolding t(4) by (auto simp: t_def user_def)
  from new_proc_lists [OF S(1) r(1) [unfolded t_def] r(9-12,2)] obtain la lq lc h3 where
    l: "new_proc h script s = Some (Inr 0, s1\<lparr>ALL_PCB := la, QUEUE := lq, LRU_CACHE := lc, nodes := h3\<rparr>)"
    "klists (s1\<lparr>ALL_PCB := la, QUEUE := lq, LRU_CACHE := lc, nodes := h3\<rparr>) (q @ [a]) (rev (take 2 (page_list p)) @ c) (al @ [a])" by blast
  define s3 where "s3 = s1\<lparr>ALL_PCB := la, QUEUE := lq, LRU_CACHE := lc, nodes := h3\<rparr>"
  let ?pas = "take 2 (page_list p)"
  have s3: "procs s3 = procs s1" "pages s3 = pages s1" "store s3 = store s1" "frame_store_size s3 = frame_store_size s" "next_obj s3 = a + 1 + ?n"
    "user s3 = user s" using r(13-15) by (simp_all add: s3_def user_def)
  have pl: "plist s3 b = plist s b" if "b \<noteq> a" for b using r(6) that by (simp add: plist_def s3)
  have pla: "plist s3 a = {a + 1..<a + 1 + ?n}" using r(2,3) by (simp only: plist_def s3 option.case set_upt)
  have pas: "set ?pas \<subseteq> {a + 1..<a + 1 + ?n}" "length ?pas = min 2 ?n"
    using set_take_subset [of 2 "page_list p"] unfolding r(3) by (simp_all only: set_upt length_take length_upt)
  have proc: "proc_at s3 (ld @ ?pas) b ((L(a := P)) b) ((e(a := 0)) b) ((m(a := min 2 ?n)) b)" if b: "b \<in> set (al @ [a])" for b
  proof (cases "b = a")
    case True
    then show ?thesis using r(5) by (simp add: proc_at_def s3_def)
  next
    case False
    then have b: "b \<in> set al" using b by simp
    have "\<forall>x \<in> plist s b. pages s3 x = pages s x \<and> (x \<in> set (ld @ ?pas) \<longleftrightarrow> x \<in> set ld)"
      using fresh(2) b pas(1) r(7) by (fastforce simp: s3)
    then show ?thesis
      using proc_at_cong [OF bspec [OF S(6) b] S(4), of s3 "ld @ ?pas"] r(6,8) False by (simp add: s3)
  qed
  have old: "(\<Union>b \<in> set al. plist s3 b) = (\<Union>b \<in> set al. plist s b)" using pl fresh(1) by (intro SUP_cong) metis+
  have disj: "\<forall>b \<in> set (al @ [a]). \<forall>b' \<in> set (al @ [a]). b \<noteq> b' \<longrightarrow> plist s3 b \<inter> plist s3 b' = {}"
  proof -
    have new: "plist s3 b \<inter> plist s3 a = {}" if "b \<in> set al" for b using fresh(1,2) that pl [of b] pla by fastforce
    have "plist s3 b \<inter> plist s3 b' = {}" if "b \<in> set al" "b' \<in> set al" "b \<noteq> b'" for b b'
    proof -
      have "b \<noteq> a" "b' \<noteq> a" using that fresh(1) by blast+
      then show ?thesis using S(7) that by (simp add: pl)
    qed
    then show ?thesis using new by (metis Int_commute UnE empty_iff empty_set list.set_cases list.set_intros(1) set_ConsD set_append)
  qed
  have "length (ld @ ?pas) = (\<Sum>b \<in> set (al @ [a]). (m(a := min 2 ?n)) b)"
    using S(9) pas(2) fresh(1) by (simp add: sum.insert_if) (rule sum.cong, auto)
  moreover have "3 * (\<Sum>b \<in> set (al @ [a]). PAGE_table_size (length ((L(a := P)) b))) + 2 \<le> frame_store_size s3"
  proof -
    have "(\<Sum>b \<in> set al. PAGE_table_size (length ((L(a := P)) b))) = (\<Sum>b \<in> set al. PAGE_table_size (length (L b)))"
      using fresh(1) by (intro sum.cong) auto
    then show ?thesis using assms(5) fresh(1) by (simp add: s3)
  qed
  moreover have "set (ld @ ?pas) \<subseteq> (\<Union>b \<in> set (al @ [a]). plist s3 b)" using S(8) pas(1) old pla by auto
  moreover have "frames_ok s3 (ld @ ?pas)" using r(4) by (simp add: frames_ok_def s3_def)
  moreover have "distinct (rev ?pas @ c)" using r(4) S(2,3) by (auto simp: frames_ok_def)
  moreover have "set (rev ?pas @ c) = set (ld @ ?pas)" "distinct (al @ [a])" using S(2,5) fresh(1) by auto
  ultimately have "sys s3 (al @ [a]) (q @ [a]) (L(a := P)) (e(a := 0)) (m(a := min 2 ?n))"
    using l(2) proc disj unfolding s3_def [symmetric] sys_def by blast
  moreover have "objs s3 (al @ [a])"
    using assms(2) fresh(1) pl pla by (fastforce simp: objs_def s3(5) a_def)
  ultimately show ?thesis using l(1) s3(4,6) fresh(1) unfolding s3_def [symmetric] a_def by blast
qed

section \<open>Several scripts\<close>

definition start :: "string list \<Rightarrow> entry" where
  "start P = (P, min 6 (length P))"

lemma start_entry:
  assumes "program P" and "e a = 0" and "L a = P" and "m a = min 2 (PAGE_table_size (length P))"
  shows "entry_of L e m a = start P"
proof -
  have "min (3 * min 2 (PAGE_table_size (length P))) (length P) = min 6 (length P)"
    unfolding PAGE_table_size_ceil by (simp add: min_def) linarith
  then show ?thesis using assms by (simp add: entry_of_def start_def)
qed

lemma weight_start: "program P \<Longrightarrow> weight (start P) = 2 * length P + 1"
  by (cases P) (auto simp: weight_def start_def program_def)

lemma idle_sys:
  assumes "idle s" and "2 \<le> frame_store_size s"
  shows "sys s [] [] L e m" and "objs s []"
  using assms by (auto simp: idle_def sys_def objs_def intro!: exI [of _ "[]"])

text \<open>The scripts of \<open>exec\<close> become processes, in their order.\<close>

lemma add_scripts_ok:
  assumes "sys s al al L e m" and "objs s al" and "\<forall>a \<in> set al. e a = 0 \<and> m a = min 2 (PAGE_table_size (length (L a)))"
    and "list_all2 (\<lambda>f P. open_read h (events s) f = Some (concat P) \<and> program P) gs Ps"
    and "3 * sum_list (map (\<lambda>P. PAGE_table_size (length P)) (map L al @ Ps)) + 2 \<le> frame_store_size s"
  shows "\<exists>s' al' L' e' m'. add_scripts h gs s = Some (Inr 0, s') \<and> sys s' al' al' L' e' m' \<and> map L' al' = map L al @ Ps \<and>
    (\<forall>a \<in> set al'. e' a = 0 \<and> m' a = min 2 (PAGE_table_size (length (L' a)))) \<and>
    frame_store_size s' = frame_store_size s \<and> user s' = user s"
  using assms
proof (induction gs arbitrary: s al L e m Ps)
  case Nil
  then show ?case
    by (intro exI [of _ s] exI [of _ al] exI [of _ L] exI [of _ e] exI [of _ m]) simp
next
  case (Cons f gs)
  obtain P Ps' where Ps: "Ps = P # Ps'" and P: "open_read h (events s) f = Some (concat P)" "program P"
    and rest: "list_all2 (\<lambda>f P. open_read h (events s) f = Some (concat P) \<and> program P) gs Ps'"
    using Cons.prems(4) by (auto simp: list_all2_Cons1)
  let ?a = "next_obj s" and ?n = "PAGE_table_size (length P)"
  have "distinct al" using Cons.prems(1) by (auto simp: sys_def)
  then have "sum_list (map (\<lambda>P. PAGE_table_size (length P)) (map L al)) = (\<Sum>b \<in> set al. PAGE_table_size (length (L b)))"
    by (simp add: sum_list_distinct_conv_sum_set comp_def)
  then have "3 * ((\<Sum>b \<in> set al. PAGE_table_size (length (L b))) + ?n) + 2 \<le> frame_store_size s"
    using Cons.prems(5) by (simp add: Ps)
  from new_proc_ok [OF Cons.prems(1,2) P this] obtain s1 where s1: "new_proc h f s = Some (Inr 0, s1)"
    "sys s1 (al @ [?a]) (al @ [?a]) (L(?a := P)) (e(?a := 0)) (m(?a := min 2 ?n))" "objs s1 (al @ [?a])"
    "frame_store_size s1 = frame_store_size s" "user s1 = user s" "?a \<notin> set al" by blast
  have ev: "events s1 = events s" using s1(5) by (simp add: user_def events_def)
  have L1: "map (L(?a := P)) (al @ [?a]) @ Ps' = map L al @ Ps" using s1(6) by (auto simp: Ps)
  have all1: "\<forall>a \<in> set (al @ [?a]). (e(?a := 0)) a = 0 \<and> (m(?a := min 2 ?n)) a = min 2 (PAGE_table_size (length ((L(?a := P)) a)))"
    using Cons.prems(3) s1(6) by auto
  from Cons.IH [OF s1(2,3) all1 rest [folded ev]] Cons.prems(5) obtain s' al' L' e' m' where
    "add_scripts h gs s1 = Some (Inr 0, s')" "sys s' al' al' L' e' m'" "map L' al' = map L al @ Ps"
    "\<forall>a \<in> set al'. e' a = 0 \<and> m' a = min 2 (PAGE_table_size (length (L' a)))"
    "frame_store_size s' = frame_store_size s1" "user s' = user s1" unfolding L1 s1(4) by blast
  then show ?case using s1(1,4,5)
    by (intro exI [of _ s'] exI [of _ al'] exI [of _ L'] exI [of _ e'] exI [of _ m']) simp
qed

context line_runner begin

text \<open>\<open>exec\<close> on an idle kernel: the lines run as the abstract scheduler orders them.\<close>

lemma exec_ok:
  assumes "idle s" and "length gs \<le> 3" and "list_all2 (\<lambda>f P. open_read h (events s) f = Some (concat P) \<and> program P) gs Ps"
    and "\<forall>P \<in> set Ps. \<forall>l \<in> set P. simple l" and "3 * sum_list (map (\<lambda>P. PAGE_table_size (length P)) Ps) + 2 \<le> frame_store_size s"
    and "sum_list (map (\<lambda>P. 2 * length P + 1) Ps) < n"
  shows "\<exists>s'. exec_a3 h (run_policy n parse) gs ''RR'' s = Some (Inr 0, s') \<and> idle s' \<and> frame_store_size s' = frame_store_size s \<and>
    user s' = fold meaning (round_robin (map start Ps)) (user s)"
proof -
  have "sys s [] [] (\<lambda>a. []) (\<lambda>a. 0) (\<lambda>a. 0)" "objs s []" using idle_sys assms(1,5) by simp_all
  from add_scripts_ok [OF this _ assms(3)] assms(5) obtain s1 al L e m where
    a: "add_scripts h gs s = Some (Inr 0, s1)" "sys s1 al al L e m" "map L al = Ps"
    "\<forall>a \<in> set al. e a = 0 \<and> m a = min 2 (PAGE_table_size (length (L a)))"
    "frame_store_size s1 = frame_store_size s" "user s1 = user s" by auto
  have prog: "program P" if "P \<in> set Ps" for P using assms(3) that by (auto simp: list_all2_conv_all_nth in_set_conv_nth)
  have entry: "entry_of L e m b = start (L b)" if "b \<in> set al" for b
    using start_entry [of "L b" e b L m] a(3,4) prog that by auto
  then have map: "map (entry_of L e m) al = map start Ps" using a(3) by auto
  have "sum_list (map (weight \<circ> entry_of L e m) al) = sum_list (map weight (map (entry_of L e m) al))" by simp
  also have "\<dots> = sum_list (map (weight \<circ> start) Ps)" unfolding map by simp
  also have "map (weight \<circ> start) Ps = map (\<lambda>P. 2 * length P + 1) Ps" using weight_start prog by simp
  finally have w: "sum_list (map (weight \<circ> entry_of L e m) al) < n" using assms(6) by linarith
  have d: "distinct al" using a(2) by (auto simp: sys_def)
  have simple: "\<forall>b \<in> set al. \<forall>l \<in> set (L b). simple l" using assms(4) a(3) by auto
  obtain s' where "run_proc_RR n parse s1 = Some (Inr 0, s')" "idle s'" "frame_store_size s' = frame_store_size s1"
    "user s' = fold meaning (round_robin (map (entry_of L e m) al)) (user s1)"
    using run_proc_RR_ok [OF a(2) d order_refl simple _ w] by auto
  then show ?thesis using a(1,5,6) assms(2) unfolding map by (simp add: exec_a3_def run_policy_def)
qed

end

end
