(* ===== verification/A3_Lines.thy ===== *)
theory A3_Lines
  imports A3_Run
begin

text \<open>
  The contract \<open>line_runner\<close> for the interpreter of the third shell (\<open>a3/interpreter.c\<close>,
  \<open>a3/shell.c\<close>), and what \<open>run\<close> and \<open>exec\<close> do with scripts of commands on variables.
\<close>

section \<open>The parser on one command\<close>

lemma until_char:
  "c \<notin> set w \<Longrightarrow> takeWhile (\<lambda>x. x \<noteq> c) (w @ c # cs) = w" "c \<notin> set w \<Longrightarrow> dropWhile (\<lambda>x. x \<noteq> c) (w @ c # cs) = c # cs"
  "c \<notin> set w \<Longrightarrow> takeWhile (\<lambda>x. x \<noteq> c) w = w" "c \<notin> set w \<Longrightarrow> dropWhile (\<lambda>x. x \<noteq> c) w = []"
  by (induction w) auto

lemma words_a3_word: "w \<noteq> [] \<Longrightarrow> space \<notin> set w \<Longrightarrow> words_a3 w = [w]"
  by (subst words_a3.simps) (simp add: until_char words_a3.simps)

lemma words_a3_Cons: "space \<notin> set w \<Longrightarrow> words_a3 (w @ space # cs) = w # words_a3 cs"
  by (subst words_a3.simps) (simp add: until_char)

lemma words_a3_join:
  "ws \<noteq> [] \<Longrightarrow> \<forall>w \<in> set ws. w \<noteq> [] \<and> space \<notin> set w \<Longrightarrow> words_a3 (join_words ws) = ws"
  by (induction ws rule: join_words.induct) (simp_all add: words_a3_word words_a3_Cons)

lemma join_words_start:
  "ws \<noteq> [] \<Longrightarrow> \<forall>w \<in> set ws. w \<noteq> [] \<and> space \<notin> set w \<Longrightarrow> dropWhile (\<lambda>c. c = space) (join_words ws) = join_words ws"
proof (cases ws rule: join_words.cases)
  case (2 w)
  assume "\<forall>w \<in> set ws. w \<noteq> [] \<and> space \<notin> set w"
  then show ?thesis using 2 by (cases w) auto
next
  case (3 w v vs)
  assume "\<forall>w \<in> set ws. w \<noteq> [] \<and> space \<notin> set w"
  then show ?thesis using 3 by (cases w) auto
qed simp

lemma set_join_words: "set (join_words ws) \<subseteq> (\<Union>w \<in> set ws. set w) \<union> {space}"
  by (induction ws rule: join_words.induct) auto

text \<open>A section at the start of the input, and what follows it.\<close>

lemma strtok_section:
  assumes "l \<noteq> []" and "semicolon \<notin> set l" and "cs = [] \<or> hd cs = semicolon"
  shows "strtok (l @ cs) = (Some l, tl cs)"
proof -
  have l: "dropWhile (\<lambda>c. c = semicolon) (l @ cs) = l @ cs" using assms(1,2) by (cases l) auto
  have "takeWhile (\<lambda>c. c \<noteq> semicolon) (l @ cs) = l \<and> dropWhile (\<lambda>c. c \<noteq> semicolon) (l @ cs) = cs"
  proof (cases cs)
    case Nil
    then show ?thesis using assms(2) by (simp add: until_char)
  next
    case (Cons c cs')
    then have "cs = semicolon # cs'" using assms(3) by simp
    then show ?thesis using assms(2) by (simp add: until_char)
  qed
  then show ?thesis using l assms(1) by (simp add: strtok_def Let_def)
qed

lemma parse_section:
  assumes "l \<noteq> []" and "semicolon \<notin> set l" and "cs = [] \<or> hd cs = semicolon" and "length (l @ cs) < 1000"
    and "length (words_a3 (dropWhile (\<lambda>c. c = space) l)) \<le> 100"
  shows "parseInput_a3 (Suc (Suc n)) h wd (l @ cs) s =
    andthen (interpreter_a3 h (run_policy (Suc n) (parseInput_a3 (Suc n) h wd)) wd (words_a3 (dropWhile (\<lambda>c. c = space) l)) (s\<lparr>strtok_rest := tl cs\<rparr>))
      (\<lambda>ret s. let (tokens, rest) = strtok (strtok_rest s); s = s\<lparr>strtok_rest := rest\<rparr> in
       if ret = - 1 then Some (Inr ret, s)
       else sections n (interpreter_a3 h (run_policy (Suc n) (parseInput_a3 (Suc n) h wd)) wd) tokens ret s)"
  using assms(4,5) by (simp add: strtok_section [OF assms(1-3)] guard_opt_def)

lemma strtok_end [simp]: "strtok [] = (None, [])"
  by (simp add: strtok_def)

text \<open>A line without a semicolon: the interpreter on its words.\<close>

lemma parse_line_a3:
  assumes "l \<noteq> []" and "semicolon \<notin> set l" and "length l < 1000" and "words_a3 (dropWhile (\<lambda>c. c = space) l) = ws" and "length ws \<le> 100"
    and "interpreter_a3 h (run_policy (Suc n) (parseInput_a3 (Suc n) h wd)) wd ws (s\<lparr>strtok_rest := []\<rparr>) = Some (Inr r, s')"
    and "strtok_rest s' = []" and "r \<noteq> - 1"
  shows "parseInput_a3 (Suc (Suc n)) h wd l s = Some (Inr r, s')"
proof -
  have "s'\<lparr>strtok_rest := []\<rparr> = s'" using assms(7) by simp
  then show ?thesis
    using parse_section [OF assms(1,2), of "[]" n h wd s] assms(3-8) by simp
qed

section \<open>Commands on variables\<close>

text \<open>
  The lines \<open>print\<close>, \<open>echo\<close> and \<open>set\<close> with well-formed arguments, and their effect on the user's
  part of the state.
\<close>

definition line_words :: "string \<Rightarrow> string list" where
  "line_words l = map strip_eol (words_a3 (dropWhile (\<lambda>c. c = space) l))"

definition simple_line :: "string \<Rightarrow> bool" where
  "simple_line l \<longleftrightarrow> length l < 1000 \<and> semicolon \<notin> set l \<and>
     (case line_words l of
       [c, x] \<Rightarrow> c = ''print'' \<or> c = ''echo'' \<and> (isAlphaNumStr x \<or> take 1 x = [dollar] \<and> isAlphaNumStr (tl x))
     | [c, x, v] \<Rightarrow> c = ''set'' \<and> isAlphaNumStr x \<and> isAlphaNumStr v \<and> length v < 505 \<and> length x + length v < 999
     | _ \<Rightarrow> False)"

definition variable_value :: "memory_struct list \<Rightarrow> string \<Rightarrow> string \<Rightarrow> string" where
  "variable_value ms x d = (case get_slot ms x of Some v \<Rightarrow> v | None \<Rightarrow> d)"

definition line_effect :: "string \<Rightarrow> user_part \<Rightarrow> user_part" where
  "line_effect l u = (case u of (t, ms, r) \<Rightarrow>
     (case line_words l of
       [c, x] \<Rightarrow>
         (if c = ''print'' then say (Out (variable_value ms x ''Variable does not exist'')) t
          else if isAlphaNumStr x then say (Out x) t
          else say (Out (variable_value ms (tl x) [])) t, ms, [])
     | [c, x, v] \<Rightarrow> (t, set_slot ms x v, [])
     | _ \<Rightarrow> u))"

lemma isAlphaNumStr_drop: "isAlphaNumStr x \<Longrightarrow> k < length x \<Longrightarrow> isAlphaNumStr (drop k x)"
  by (auto simp: isAlphaNumStr_def dest: in_set_dropD)

lemma dollar_not_alnum: "\<not> isalnum dollar"
  by (simp add: isalnum_def)

lemma set_slot_length: "length (set_slot ms k v) = length ms"
  by (simp add: set_slot_def split: option.split)

lemma same_kernel_say: "same_kernel s (say_a3 e s)"
  by (simp add: same_kernel_def say_a3_def)

lemma echo_ok:
  assumes "isAlphaNumStr x \<or> take 1 x = [dollar] \<and> isAlphaNumStr (tl x)"
  shows "echo_a3 x s = Some (Inr 0, say_a3 (Out (if isAlphaNumStr x then x else mem_get_value_a3 (tl x) CHR ''e'' s)) s)"
proof (cases "take 1 x = [dollar]")
  case True
  then obtain y where x: "x = dollar # y" by (cases x) auto
  then have "\<not> isAlphaNumStr x" using dollar_not_alnum by (simp add: isAlphaNumStr_def)
  then have y: "isAlphaNumStr y" using assms x by simp
  have "isAlphaNumStr (drop k x)" if "k \<in> set [1..<length x]" for k
  proof -
    have "1 \<le> k" "k < length x" using that by simp_all
    then obtain i where "k = Suc i" "i < length y" using x by (cases k) simp_all
    then show ?thesis using isAlphaNumStr_drop [OF y] x by simp
  qed
  then have "\<not> (\<exists>k \<in> set [1..<length x]. \<not> isAlphaNumStr (drop k x))" by blast
  then show ?thesis using True \<open>\<not> isAlphaNumStr x\<close> by (simp add: echo_a3_def del: set_upt)
next
  case False
  then show ?thesis using assms by (auto simp: echo_a3_def)
qed

lemma interpreter_print:
  "map strip_eol ws = [''print'', x] \<Longrightarrow> interpreter_a3 h sched wd ws s = print_a3 x s"
  by (simp add: interpreter_a3_def)

lemma interpreter_echo:
  "map strip_eol ws = [''echo'', x] \<Longrightarrow> interpreter_a3 h sched wd ws s = echo_a3 x s"
  by (simp add: interpreter_a3_def guard_opt_def)

lemma interpreter_set:
  assumes "map strip_eol ws = [''set'', x, v]" and "isAlphaNumStr x" and "isAlphaNumStr v" and "length v < 505" and "length x + length v < 999"
  shows "interpreter_a3 h sched wd ws s = Some (Inr 0, mem_set_value_a3 x v s)"
  using assms by (simp add: interpreter_a3_def set_a3_def)

lemma same_kernel_trans: "same_kernel s s' \<Longrightarrow> same_kernel s' s'' \<Longrightarrow> same_kernel s s''"
  by (simp add: same_kernel_def)

lemma mem_set_kernel:
  assumes "frame_store_size s \<le> length (store s)"
  shows "same_kernel s (mem_set_value_a3 x v s)"
    and "user (mem_set_value_a3 x v s) = (fs s, set_slot (drop (frame_store_size s) (store s)) x v, strtok_rest s)"
  using assms by (simp_all add: same_kernel_def mem_set_value_a3_def user_def set_slot_length nth_append)

lemma line_effect_rest: "simple_line l \<Longrightarrow> line_effect l (t, ms, r) = line_effect l (t, ms, [])"
  by (auto simp: simple_line_def line_effect_def split: list.splits)

lemma line_effect_end: "simple_line l \<Longrightarrow> snd (snd (line_effect l u)) = []"
  by (cases u) (auto simp: simple_line_def line_effect_def split: list.splits)

lemma simple_line_facts:
  assumes "simple_line l"
  shows "length l < 1000" and "semicolon \<notin> set l" and "l \<noteq> []" and "length (words_a3 (dropWhile (\<lambda>c. c = space) l)) \<le> 100"
proof -
  define ws where "ws = words_a3 (dropWhile (\<lambda>c. c = space) l)"
  have lw: "line_words l = map strip_eol ws" by (simp add: line_words_def ws_def)
  have "length (line_words l) \<le> 100" using assms by (auto simp: simple_line_def split: list.splits)
  then show "length (words_a3 (dropWhile (\<lambda>c. c = space) l)) \<le> 100" using lw unfolding ws_def by simp
  show "length l < 1000" "semicolon \<notin> set l" using assms by (simp_all add: simple_line_def)
  show "l \<noteq> []" using assms by (auto simp: simple_line_def line_words_def words_a3.simps)
qed

text \<open>The interpreter on the words of a line.\<close>

lemma simple_interp:
  assumes "simple_line l" and "frame_store_size s \<le> length (store s)"
  shows "\<exists>s'. interpreter_a3 h sched wd (words_a3 (dropWhile (\<lambda>c. c = space) l)) s = Some (Inr 0, s') \<and> same_kernel s s' \<and>
    strtok_rest s' = strtok_rest s \<and> user (s'\<lparr>strtok_rest := []\<rparr>) = line_effect l (user s)"
proof -
  define ws where "ws = words_a3 (dropWhile (\<lambda>c. c = space) l)"
  have lw: "line_words l = map strip_eol ws" by (simp add: line_words_def ws_def)
  have vv: "mem_get_value_a3 x c s = variable_value (drop (frame_store_size s) (store s)) x (if c = CHR ''p'' then ''Variable does not exist'' else [])" for x c
    by (simp add: mem_get_value_a3_def variable_value_def split: option.split)
  consider (print) x where "line_words l = [''print'', x]"
    | (echo) x where "line_words l = [''echo'', x]" "isAlphaNumStr x \<or> take 1 x = [dollar] \<and> isAlphaNumStr (tl x)"
    | (set) x v where "line_words l = [''set'', x, v]" "isAlphaNumStr x" "isAlphaNumStr v" "length v < 505" "length x + length v < 999"
    using assms(1) by (auto simp: simple_line_def split: list.splits)
  then have "\<exists>s'. interpreter_a3 h sched wd ws s = Some (Inr 0, s') \<and> same_kernel s s' \<and> strtok_rest s' = strtok_rest s \<and>
    user (s'\<lparr>strtok_rest := []\<rparr>) = line_effect l (user s)"
  proof cases
    case print
    then show ?thesis
      using lw by (intro exI [of _ "say_a3 (Out (mem_get_value_a3 x CHR ''p'' s)) s"])
        (simp add: interpreter_print print_a3_def same_kernel_say user_def line_effect_def vv, simp add: say_a3_def)
  next
    case echo
    then show ?thesis
      using lw by (intro exI [of _ "say_a3 (Out (if isAlphaNumStr x then x else mem_get_value_a3 (tl x) CHR ''e'' s)) s"])
        (simp add: interpreter_echo echo_ok same_kernel_say user_def line_effect_def vv, simp add: say_a3_def)
  next
    case set
    then show ?thesis
      using lw mem_set_kernel [OF assms(2), of x v] by (intro exI [of _ "mem_set_value_a3 x v s"])
        (simp add: interpreter_set line_effect_def, simp add: user_def mem_set_value_a3_def)
  qed
  then show ?thesis by (simp only: ws_def)
qed

lemma simple_line_ok:
  assumes "simple_line l" and "frame_store_size s \<le> length (store s)"
  shows "\<exists>r s'. parseInput_a3 (Suc (Suc n)) h wd l s = Some (Inr r, s') \<and> r \<noteq> 1 \<and> same_kernel s s' \<and> user s' = line_effect l (user s)"
proof -
  let ?t = "s\<lparr>strtok_rest := []\<rparr>"
  note l = simple_line_facts [OF assms(1)]
  have t: "frame_store_size ?t \<le> length (store ?t)" using assms(2) by simp
  obtain s' where s': "interpreter_a3 h (run_policy (Suc n) (parseInput_a3 (Suc n) h wd)) wd (words_a3 (dropWhile (\<lambda>c. c = space) l)) ?t = Some (Inr 0, s')"
    "same_kernel ?t s'" "strtok_rest s' = []" "user (s'\<lparr>strtok_rest := []\<rparr>) = line_effect l (user ?t)"
    using simple_interp [OF assms(1) t] by fastforce
  have "s'\<lparr>strtok_rest := []\<rparr> = s'" using s'(3) by simp
  moreover have "line_effect l (user ?t) = line_effect l (user s)" by (simp add: user_def line_effect_rest [OF assms(1), of _ _ "strtok_rest s"])
  moreover have "same_kernel s s'" using s'(2) by (simp add: same_kernel_def)
  ultimately show ?thesis
    using parse_line_a3 [OF l(3,2,1) refl l(4) s'(1,3)] s'(4) by simp
qed

text \<open>Lines separated by semicolons.\<close>

fun join_sections :: "string list \<Rightarrow> string" where
  "join_sections [] = []"
| "join_sections (l # ls) = l @ concat (map (\<lambda>l. semicolon # l) ls)"

lemma strtok_join:
  assumes "l \<noteq> []" and "semicolon \<notin> set l"
  shows "strtok (join_sections (l # ls)) = (Some l, join_sections ls)"
proof -
  have "tl (concat (map (\<lambda>l. semicolon # l) ls)) = join_sections ls" by (cases ls) auto
  then show ?thesis using strtok_section [OF assms, of "concat (map (\<lambda>l. semicolon # l) ls)"] by (cases ls) auto
qed

lemma sections_ok:
  assumes "\<forall>l \<in> set (l # ls). simple_line l" and "frame_store_size s \<le> length (store s)" and "strtok_rest s = join_sections ls" and "length ls < n"
  shows "\<exists>s'. sections n (interpreter_a3 h sched wd) (Some l) r s = Some (Inr 0, s') \<and> same_kernel s s' \<and> user s' = fold line_effect (l # ls) (user s)"
  using assms
proof (induction ls arbitrary: l s n r)
  case Nil
  obtain k where n: "n = Suc k" using Nil.prems(4) by (cases n) auto
  have l: "simple_line l" using Nil.prems(1) by simp
  obtain s1 where s1: "interpreter_a3 h sched wd (words_a3 (dropWhile (\<lambda>c. c = space) l)) s = Some (Inr 0, s1)" "same_kernel s s1"
    "strtok_rest s1 = strtok_rest s" "user (s1\<lparr>strtok_rest := []\<rparr>) = line_effect l (user s)"
    using simple_interp [OF l Nil.prems(2)] by blast
  have "same_kernel s (s1\<lparr>strtok_rest := []\<rparr>)" using s1(2) by (simp add: same_kernel_def)
  then show ?case using s1 Nil.prems(3) simple_line_facts(4) [OF l] by (simp add: n guard_opt_def)
next
  case (Cons l' ls)
  obtain k where n: "n = Suc k" using Cons.prems(4) by (cases n) auto
  have l: "simple_line l" "simple_line l'" using Cons.prems(1) by simp_all
  obtain s1 where s1: "interpreter_a3 h sched wd (words_a3 (dropWhile (\<lambda>c. c = space) l)) s = Some (Inr 0, s1)" "same_kernel s s1"
    "strtok_rest s1 = strtok_rest s" "user (s1\<lparr>strtok_rest := []\<rparr>) = line_effect l (user s)"
    using simple_interp [OF l(1) Cons.prems(2)] by blast
  let ?s2 = "s1\<lparr>strtok_rest := join_sections ls\<rparr>"
  have k: "same_kernel s ?s2" using s1(2) by (simp add: same_kernel_def)
  then have store: "frame_store_size ?s2 \<le> length (store ?s2)" using Cons.prems(2) by (simp add: same_kernel_def)
  have all: "\<forall>l \<in> set (l' # ls). simple_line l" and "length ls < k" using Cons.prems(1,4) n by simp_all
  from Cons.IH [OF all store _ this(2), of 0] obtain s' where
    s': "sections k (interpreter_a3 h sched wd) (Some l') 0 ?s2 = Some (Inr 0, s')" "same_kernel ?s2 s'"
    "user s' = fold line_effect (l' # ls) (user ?s2)" by auto
  have "line_effect l' (user ?s2) = line_effect l' (user (s1\<lparr>strtok_rest := []\<rparr>))"
    by (simp add: user_def line_effect_rest [OF l(2), of _ _ "join_sections ls"])
  then have "user s' = fold line_effect (l # l' # ls) (user s)" using s'(3) s1(4) by simp
  moreover have "strtok (strtok_rest s1) = (Some l', join_sections ls)"
    using strtok_join simple_line_facts(2,3) [OF l(2)] s1(3) Cons.prems(3) by metis
  ultimately show ?case using s1(1) s'(1) same_kernel_trans [OF k s'(2)] simple_line_facts(4) [OF l(1)]
    by (simp add: n guard_opt_def)
qed

interpretation variables: line_runner "parseInput_a3 (Suc (Suc n)) h wd" simple_line line_effect for n h wd
  by unfold_locales (rule simple_line_ok)

section \<open>\<open>run\<close> and \<open>exec\<close>\<close>

text \<open>The end of \<open>run\<close> and \<open>exec\<close>: the backing store is emptied.\<close>

definition reset_user :: "string \<Rightarrow> user_part \<Rightarrow> user_part" where
  "reset_user wd u = (case u of (t, ms, r) \<Rightarrow>
     (say (System (''mkdir '' @ wd @ ''/backing_store'')) (say (System (''rm -rf '' @ wd @ ''/backing_store'')) t), ms, r))"

lemma idle_cong:
  assumes "idle s" and "QUEUE s' = QUEUE s" and "LRU_CACHE s' = LRU_CACHE s" and "ALL_PCB s' = ALL_PCB s" and "nodes s' = nodes s"
    and "frame_store_size s' = frame_store_size s" and "store s' = store s"
  shows "idle s'"
  using assms by (simp add: idle_def frames_ok_def klists_def)

lemma reset_backing_ok:
  "idle s \<Longrightarrow> idle (reset_backing wd s)" "user (reset_backing wd s) = reset_user wd (user s)"
  "frame_store_size (reset_backing wd s) = frame_store_size s"
  by (auto simp: reset_backing_def say_a3_def user_def reset_user_def intro: idle_cong)

lemma backing_copies_ok:
  "backing_copies gs s = Some (nms, s') \<Longrightarrow> length nms = length gs \<and> frame_store_size s' = frame_store_size s \<and>
    store s' = store s \<and> strtok_rest s' = strtok_rest s \<and> (idle s \<longrightarrow> idle s')"
proof (induction gs arbitrary: s nms)
  case (Cons f gs)
  obtain n1 s1 nms1 where 1: "backing_copy f s = Some (n1, s1)" "backing_copies gs s1 = Some (nms1, s')" "nms = n1 # nms1"
    using Cons.prems by (auto simp: bind_eq_Some_conv)
  have "frame_store_size s1 = frame_store_size s" "store s1 = store s" "strtok_rest s1 = strtok_rest s" "idle s \<Longrightarrow> idle s1"
    using 1(1) by (auto simp: backing_copy_def Let_def guard_opt_def say_a3_def intro: idle_cong split: if_splits)
  then show ?case using Cons.IH [OF 1(2)] 1(3) by simp
qed simp

text \<open>The place of \<open>strtok\<close> does not matter to a program, and is lost when it has run.\<close>

lemma effects_rest:
  assumes "P \<noteq> []" and "\<forall>l \<in> set P. simple_line l"
  shows "fold line_effect P (t, ms, r) = fold line_effect P (t, ms, [])" and "snd (snd (fold line_effect P u)) = []"
proof -
  show "fold line_effect P (t, ms, r) = fold line_effect P (t, ms, [])" using assms line_effect_rest [of "hd P" t ms r] by (cases P) auto
  obtain ps p where "P = ps @ [p]" using assms(1) by (cases P rule: rev_cases) auto
  then show "snd (snd (fold line_effect P u)) = []" using assms(2) by (simp add: line_effect_end)
qed

lemma strip_exec: "strip_eol ''exec'' = ''exec''"
  by (simp add: strip_eol_def)

lemma exec_command_ok:
  assumes "idle s" and "backing_copies gs s = Some (nms, s1)" and "gs \<noteq> []" and "length gs \<le> 3" and "map strip_eol gs = gs"
    and "list_all2 (\<lambda>f P. open_read h (events s1) f = Some (concat P) \<and> program P) nms Ps"
    and "\<forall>P \<in> set Ps. \<forall>l \<in> set P. simple_line l" and "3 * sum_list (map (\<lambda>P. PAGE_table_size (length P)) Ps) + 2 \<le> frame_store_size s"
    and "sum_list (map (\<lambda>P. 2 * length P + 1) Ps) < n" and "2 \<le> n"
  shows "\<exists>s'. interpreter_a3 h (run_policy n (parseInput_a3 n h wd)) wd (''exec'' # gs) s = Some (Inr 0, s') \<and> idle s' \<and>
    frame_store_size s' = frame_store_size s \<and>
    user s' = reset_user wd (fold line_effect (round_robin (map start Ps)) (user s1))"
proof -
  obtain k where n: "n = Suc (Suc k)" using assms(10) by (metis le_Suc_ex add_2_eq_Suc)
  note b = backing_copies_ok [OF assms(2)]
  have "length nms \<le> 3" "idle s1" "3 * sum_list (map (\<lambda>P. PAGE_table_size (length P)) Ps) + 2 \<le> frame_store_size s1"
    using b assms(1,4,8) by simp_all
  from variables.exec_ok [where n = n and na = k, OF this(2,1) assms(6,7) this(3) assms(9)] obtain s2 where
    s2: "exec_a3 h (run_policy n (parseInput_a3 (Suc (Suc k)) h wd)) nms ''RR'' s1 = Some (Inr 0, s2)" "idle s2"
    "frame_store_size s2 = frame_store_size s1" "user s2 = fold line_effect (round_robin (map start Ps)) (user s1)" by blast
  have "interpreter_a3 h (run_policy n (parseInput_a3 n h wd)) wd (''exec'' # gs) s = exec_command h (run_policy n (parseInput_a3 n h wd)) wd gs s"
    using assms(3,4,5) strip_exec by (cases gs) (simp_all add: interpreter_a3_def)
  also have "\<dots> = Some (Inr 0, reset_backing wd s2)" using s2(1) assms(2) by (simp add: exec_command_def n)
  finally show ?thesis using s2 reset_backing_ok b by (intro exI [of _ "reset_backing wd s2"]) simp
qed

text \<open>\<open>run\<close> is \<open>exec\<close> with one script.\<close>

lemma run_is_exec: "run_a3 h sched f s = exec_a3 h sched [f] ''RR'' s"
  by (cases "new_proc h f s") (auto simp: run_a3_def exec_a3_def andthen_def split: sum.split)

lemma run_command_is_exec: "run_command h sched wd f s = exec_command h sched wd [f] s"
  by (cases "backing_copy f s") (auto simp: run_command_def exec_command_def run_is_exec)

section \<open>Properties\<close>

text \<open>A state to apply the theorems to: the shell after its start, and a host with two scripts.\<close>

definition demo_start :: a3_state where
  "demo_start = \<lparr>fs = demo_dir, frame_store_size = 12, store = replicate 15 free_slot, nodes = demo_heap, QUEUE = \<lparr>lsize = 0, dummy_head = 0, dummy_tail = 0\<rparr>,
     LRU_CACHE = \<lparr>lsize = 0, dummy_head = 0, dummy_tail = 0\<rparr>, ALL_PCB = \<lparr>lsize = 0, dummy_head = 0, dummy_tail = 0\<rparr>,
     procs = Map.empty, pages = Map.empty, next_obj = 0, PID_counter = 0, new_name_count = 0, strtok_rest = []\<rparr>"

definition demo_scripts :: fs_host where
  "demo_scripts = host.extend (demo_host\<lparr>open_read := (\<lambda>t f.
       if f = ''./backing_store/p'' then Some (''set x 5'' @ [newline] @ ''print x'' @ [newline] @ ''echo $x'')
       else if f = ''./backing_store/qa'' then Some (''echo hello'') else None)\<rparr>) (fs_host.fields (\<lambda>a b. []))"

definition demo_p :: "string list" where
  "demo_p = [''set x 5'' @ [newline], ''print x'' @ [newline], ''echo $x'']"

lemma demo_programs: "program demo_p" "program [''echo hello'']" "concat demo_p = ''set x 5'' @ [newline] @ ''print x'' @ [newline] @ ''echo $x''"
  "length demo_p = 3"
  by (simp_all add: demo_p_def program_def)

lemma demo_simple: "\<forall>l \<in> set demo_p. simple_line l" "simple_line ''echo hello''"
  by code_simp+

lemma demo_words: "line_words (''set x 5'' @ [newline]) = [''set'', ''x'', ''5'']" "line_words (''print x'' @ [newline]) = [''print'', ''x'']"
  "line_words ''echo hello'' = [''echo'', ''hello'']" "line_words ''echo $x'' = [''echo'', ''$x'']"
  by code_simp+

lemma demo_effect:
  "fold line_effect demo_p (t, replicate 3 free_slot, r) =
    (say (Out ''5'') (say (Out ''5'') t), [\<lparr>var = ''x'', val = ''5''\<rparr>, free_slot, free_slot], [])"
proof -
  have "\<not> isAlphaNumStr ''$x''" "set_slot (replicate 3 free_slot) ''x'' ''5'' = [\<lparr>var = ''x'', val = ''5''\<rparr>, free_slot, free_slot]"
    "get_slot [\<lparr>var = ''x'', val = ''5''\<rparr>, free_slot, free_slot] ''x'' = Some ''5''" by code_simp+
  then show ?thesis by (simp only: demo_p_def fold.simps id_apply comp_apply line_effect_def prod.case demo_words list.case variable_value_def
    option.case list.sel simp_thms if_True if_False) (simp add: variable_value_def)
qed

lemma demo_idle:
  obtains s where "idle s" and "frame_store_size s = 12" and "user s = (demo_dir, replicate 3 free_slot, [])" and "new_name_count s = 0"
  using boot_idle [of demo_start] that by (auto simp: demo_start_def demo_heap_def)

text \<open>
  C4: \<open>exec\<close> with one to three scripts whose lines are \<open>print\<close>, \<open>echo\<close> or \<open>set\<close> with single
  words, on an idle kernel with a frame for every page and two slots more, so that no page is
  evicted. No line of a script is blank, and the last one has no newline. The scripts are copied
  to the backing store, their lines are run in the order of the abstract round robin, the kernel is
  idle again, with all its frames free, and the backing store is reset. More rounds than twice the
  number of lines, and one for each script, are enough.
\<close>

theorem exec_round_robin:
  assumes "idle s" and "backing_copies gs s = Some (nms, s1)" and "gs \<noteq> []" and "length gs \<le> 3" and "map strip_eol gs = gs"
    and "list_all2 (\<lambda>f P. open_read h (events s1) f = Some (concat P) \<and> program P) nms Ps"
    and "\<forall>P \<in> set Ps. \<forall>l \<in> set P. simple_line l" and "3 * sum_list (map (\<lambda>P. PAGE_table_size (length P)) Ps) + 2 \<le> frame_store_size s"
    and "sum_list (map (\<lambda>P. 2 * length P + 1) Ps) < n" and "2 \<le> n"
  shows "\<exists>s'. interpreter_a3 h (run_policy n (parseInput_a3 n h wd)) wd (''exec'' # gs) s = Some (Inr 0, s') \<and> idle s' \<and>
    frame_store_size s' = frame_store_size s \<and>
    user s' = reset_user wd (fold line_effect (round_robin (map start Ps)) (user s1))"
  by (rule exec_command_ok [OF assms])

theorem exec_round_robin_witness:
  "\<exists>s s'. idle s \<and> interpreter_a3 demo_scripts (run_policy 12 (parseInput_a3 12 demo_scripts ''w'')) ''w'' [''exec'', ''p'', ''q''] s = Some (Inr 0, s') \<and>
    idle s' \<and> frame_store_size s' = 12"
proof -
  obtain s where s: "idle s" "frame_store_size s = 12" "user s = (demo_dir, replicate 3 free_slot, [])" "new_name_count s = 0" by (rule demo_idle)
  obtain nms s1 where b: "backing_copies [''p'', ''q''] s = Some (nms, s1)" "nms = [''./backing_store/p'', ''./backing_store/qa'']"
    using s(4) by (simp add: backing_copy_def Let_def guard_opt_def say_a3_def)
  have "list_all2 (\<lambda>f P. open_read demo_scripts (events s1) f = Some (concat P) \<and> program P) nms [demo_p, [''echo hello'']]"
    using demo_programs by (simp add: b(2) demo_scripts_def host.defs fs_host.defs)
  from exec_round_robin [OF s(1) b(1) _ _ _ this, of 12 "''w''"] s(1,2) demo_simple demo_programs(4)
  show ?thesis by (auto simp: strip_eol_def PAGE_table_size_def)
qed

text \<open>
  C3: A command line that starts with \<open>run\<close> and a script whose lines are \<open>print\<close>, \<open>echo\<close> or \<open>set\<close>
  with single words, none of them blank and the last one without a newline. On an idle kernel with
  a frame for every page and two slots more, it executes the lines of the script in their order,
  and nothing else: whatever follows behind a semicolon is lost, because the parser that runs the
  lines has overwritten the place of \<open>strtok\<close>. The kernel is idle again.
\<close>

theorem run_executes_script:
  assumes "idle s" and "f \<noteq> []" and "set f \<inter> {space, semicolon, newline, carriage_return} = {}" and "cs = [] \<or> hd cs = semicolon"
    and "length (''run '' @ f @ cs) < 1000"
    and "nm = ''./backing_store/'' @ f @ replicate (new_name_count s) CHR ''a''" and "cmd = ''cp ./'' @ f @ '' '' @ nm" and "length cmd < 100"
    and "open_read h (events s @ [System cmd]) nm = Some (concat P)" and "program P" and "\<forall>l \<in> set P. simple_line l"
    and "3 * PAGE_table_size (length P) + 2 \<le> frame_store_size s" and "2 * length P + 2 < n"
  shows "\<exists>s'. parseInput_a3 n h wd (''run '' @ f @ cs) s = Some (Inr 0, s') \<and> idle s' \<and> frame_store_size s' = frame_store_size s \<and>
    user s' = reset_user wd (fold line_effect P (say (System cmd) (fs s), drop (frame_store_size s) (store s), []))"
proof -
  have "\<exists>k. n = Suc (Suc (Suc k))" using assms(13) by presburger
  then obtain k where n: "n = Suc (Suc (Suc k))" by blast
  let ?s = "s\<lparr>strtok_rest := tl cs\<rparr>" and ?m = "Suc (Suc k)"
  define s1 where "s1 = say_a3 (System cmd) (?s\<lparr>new_name_count := new_name_count s + 1\<rparr>)"
  have b: "backing_copies [f] ?s = Some ([nm], s1)"
    using assms(6-8) by (simp add: backing_copy_def Let_def guard_opt_def s1_def)
  have idle: "idle ?s" by (rule idle_cong [OF assms(1)]) simp_all
  have eol: "map strip_eol [f] = [f]" using assms(3) by (auto simp: strip_eol_def takeWhile_eq_all_conv)
  have P: "P \<noteq> []" using assms(10) by (auto simp: program_def)
  have "list_all2 (\<lambda>f P. open_read h (events s1) f = Some (concat P) \<and> program P) [nm] [P]"
    using assms(9,10) by (simp add: s1_def events_def say_a3_def say_def)
  from exec_command_ok [OF idle b _ _ eol this, of ?m wd] assms(11-13) n obtain s2 where
    s2: "interpreter_a3 h (run_policy ?m (parseInput_a3 ?m h wd)) wd [''exec'', f] ?s = Some (Inr 0, s2)" "idle s2"
    "frame_store_size s2 = frame_store_size s" "user s2 = reset_user wd (fold line_effect (round_robin [start P]) (user s1))"
    by (auto simp del: round_robin.simps)
  have "round_robin [start P] = P" by (simp only: round_robin_single start_def fst_conv)
  note s2 = s2(1-3) s2(4) [unfolded this]
  have rest: "strtok_rest s2 = []"
    using effects_rest(2) [OF P assms(11), of "user s1"] s2(4)
    by (cases "fold line_effect P (user s1)") (simp add: user_def reset_user_def)
  have "user s1 = (say (System cmd) (fs s), drop (frame_store_size s) (store s), tl cs)" by (simp add: s1_def user_def say_a3_def)
  then have u: "user s2 = reset_user wd (fold line_effect P (say (System cmd) (fs s), drop (frame_store_size s) (store s), []))"
    unfolding s2(4) by (simp only: effects_rest(1) [OF P assms(11), of _ _ "tl cs"])
  have "interpreter_a3 h (run_policy ?m (parseInput_a3 ?m h wd)) wd [''run'', f] ?s = Some (Inr 0, s2)"
    using s2(1) eol by (simp add: interpreter_a3_def strip_eol_def [of "''run''"] strip_exec run_command_is_exec)
  moreover have "words_a3 (dropWhile (\<lambda>c. c = space) (''run '' @ f)) = [''run'', f]"
    using words_a3_join [of "[''run'', f]"] assms(2,3) by simp
  ultimately have "parseInput_a3 n h wd ((''run '' @ f) @ cs) s = Some (Inr 0, s2\<lparr>strtok_rest := []\<rparr>)"
    unfolding n using assms(3-5) rest by (subst parse_section) auto
  moreover have "s2\<lparr>strtok_rest := []\<rparr> = s2" using rest by simp
  ultimately show ?thesis using s2(2,3) u by auto
qed

theorem run_executes_script_witness:
  "\<exists>s s'. idle s \<and> parseInput_a3 20 demo_scripts ''w'' ''run p;print x'' s = Some (Inr 0, s') \<and> idle s' \<and>
    user s' = reset_user ''w'' (say (Out ''5'') (say (Out ''5'') (say (System ''cp ./p ./backing_store/p'') demo_dir)),
      [\<lparr>var = ''x'', val = ''5''\<rparr>, free_slot, free_slot], [])"
proof -
  obtain s where s: "idle s" "frame_store_size s = 12" "user s = (demo_dir, replicate 3 free_slot, [])" "new_name_count s = 0" by (rule demo_idle)
  have "open_read demo_scripts (events s @ [System ''cp ./p ./backing_store/p'']) ''./backing_store/p'' = Some (concat demo_p)"
    using demo_programs by (simp add: demo_scripts_def host.defs fs_host.defs)
  from run_executes_script [where f = "''p''" and cs = "'';print x''" and n = 20 and wd = "''w''", OF s(1) _ _ _ _ _ _ _ this demo_programs(1) demo_simple(1)]
    s demo_programs(4) demo_effect
  show ?thesis by (auto simp: PAGE_table_size_def user_def)
qed

text \<open>
  C17: Under the same conditions as for the round robin (one to three scripts of \<open>print\<close>, \<open>echo\<close> and
  \<open>set\<close> lines with single words, none blank and the last one without a newline; an idle kernel with a
  frame for every page and two slots more) \<open>exec\<close> comes to an end for all large bounds on the rounds,
  and by then every line of every script was run: the lines run are those of all scripts, and each
  script's lines were run in their order, though possibly with lines of others between them. The
  kernel is idle again.
\<close>

theorem exec_interleaves:
  assumes "idle s" and "backing_copies gs s = Some (nms, s1)" and "gs \<noteq> []" and "length gs \<le> 3" and "map strip_eol gs = gs"
    and "list_all2 (\<lambda>f P. open_read h (events s1) f = Some (concat P) \<and> program P) nms Ps"
    and "\<forall>P \<in> set Ps. \<forall>l \<in> set P. simple_line l" and "3 * sum_list (map (\<lambda>P. PAGE_table_size (length P)) Ps) + 2 \<le> frame_store_size s"
  shows "\<exists>N. \<forall>n \<ge> N. \<exists>s' ls. interpreter_a3 h (run_policy n (parseInput_a3 n h wd)) wd (''exec'' # gs) s = Some (Inr 0, s') \<and> idle s' \<and>
    user s' = reset_user wd (fold line_effect ls (user s1)) \<and> mset ls = mset (concat Ps) \<and> (\<forall>P \<in> set Ps. subseq P ls)"
proof (rule exI [of _ "Suc (Suc (sum_list (map (\<lambda>P. 2 * length P + 1) Ps)))"], intro allI impI)
  fix n assume n: "Suc (Suc (sum_list (map (\<lambda>P. 2 * length P + 1) Ps))) \<le> n"
  let ?ls = "round_robin (map start Ps)"
  have fst: "map fst (map start Ps) = Ps" by (simp add: start_def comp_def)
  have "mset ?ls = mset (concat Ps)" using mset_round_robin [of "map start Ps"] by (simp only: fst)
  moreover have "subseq P ?ls" if "P \<in> set Ps" for P
    using subseq_round_robin [of "start P" "map start Ps"] that by (simp add: start_def)
  moreover have "sum_list (map (\<lambda>P. 2 * length P + 1) Ps) < n" "2 \<le> n" using n by linarith+
  ultimately show "\<exists>s' ls. interpreter_a3 h (run_policy n (parseInput_a3 n h wd)) wd (''exec'' # gs) s = Some (Inr 0, s') \<and> idle s' \<and>
    user s' = reset_user wd (fold line_effect ls (user s1)) \<and> mset ls = mset (concat Ps) \<and> (\<forall>P \<in> set Ps. subseq P ls)"
    using exec_command_ok [OF assms, of n wd] by blast
qed

theorem exec_interleaves_witness:
  "\<exists>s s1 N. idle s \<and> (\<forall>n \<ge> N. \<exists>s' ls. interpreter_a3 demo_scripts (run_policy n (parseInput_a3 n demo_scripts ''w'')) ''w'' [''exec'', ''p'', ''q''] s =
      Some (Inr 0, s') \<and> idle s' \<and> user s' = reset_user ''w'' (fold line_effect ls (user s1)) \<and> mset ls = mset (concat [demo_p, [''echo hello'']]) \<and>
      (\<forall>P \<in> set [demo_p, [''echo hello'']]. subseq P ls))"
proof -
  obtain s where s: "idle s" "frame_store_size s = 12" "user s = (demo_dir, replicate 3 free_slot, [])" "new_name_count s = 0" by (rule demo_idle)
  obtain nms s1 where b: "backing_copies [''p'', ''q''] s = Some (nms, s1)" "nms = [''./backing_store/p'', ''./backing_store/qa'']"
    using s(4) by (simp add: backing_copy_def Let_def guard_opt_def say_a3_def)
  have "list_all2 (\<lambda>f P. open_read demo_scripts (events s1) f = Some (concat P) \<and> program P) nms [demo_p, [''echo hello'']]"
    using demo_programs by (simp add: b(2) demo_scripts_def host.defs fs_host.defs)
  from exec_interleaves [OF s(1) b(1) _ _ _ this, of "''w''"] s(2) demo_simple demo_programs(4)
  have "\<exists>N. \<forall>n \<ge> N. \<exists>s' ls. interpreter_a3 demo_scripts (run_policy n (parseInput_a3 n demo_scripts ''w'')) ''w'' [''exec'', ''p'', ''q''] s =
      Some (Inr 0, s') \<and> idle s' \<and> user s' = reset_user ''w'' (fold line_effect ls (user s1)) \<and> mset ls = mset (concat [demo_p, [''echo hello'']]) \<and>
      (\<forall>P \<in> set [demo_p, [''echo hello'']]. subseq P ls)"
    by (simp add: strip_eol_def PAGE_table_size_def)
  then show ?thesis using s(1) by blast
qed

text \<open>
  Before the first command, \<open>main\<close> has set up the kernel: its lists are empty and all frames and variables are
  free. This is the state that \<open>run\<close> and \<open>exec\<close> start from and come back to.
\<close>

theorem kernel_starts_idle:
  assumes "\<forall>p \<in> dom (cells (nodes s)). p < fresh (nodes s)" and "frame_store_size s \<le> length (store s)"
  shows "\<exists>s'. kernel_setup (mem_init_a3 s) = Some s' \<and> idle s' \<and> frame_store_size s' = frame_store_size s \<and>
    user s' = (fs s, replicate (length (store s) - frame_store_size s) free_slot, strtok_rest s)"
  using boot_idle [OF assms] by blast

theorem kernel_starts_idle_witness:
  "\<exists>s'. kernel_setup (mem_init_a3 demo_start) = Some s' \<and> idle s' \<and> user s' = (demo_dir, replicate 3 free_slot, [])"
  using kernel_starts_idle [of demo_start] by (auto simp: demo_start_def demo_heap_def)

text \<open>
  A command line of sections separated by semicolons executes them in order, when they are commands on
  variables.
\<close>

theorem sections_in_order:
  assumes "\<forall>l \<in> set ls. simple_line l" and "ls \<noteq> []" and "length (join_sections ls) < 1000" and "length ls < n"
    and "frame_store_size s \<le> length (store s)"
  shows "\<exists>s'. parseInput_a3 n h wd (join_sections ls) s = Some (Inr 0, s') \<and> same_kernel s s' \<and> user s' = fold line_effect ls (user s)"
proof -
  obtain l ls' where ls: "ls = l # ls'" using assms(2) by (cases ls) auto
  obtain k where n: "n = Suc k" using assms(4) by (cases n) auto
  have l: "simple_line l" using assms(1) ls by simp
  let ?s = "s\<lparr>strtok_rest := join_sections ls'\<rparr>"
  obtain s' where s': "sections k (interpreter_a3 h (run_policy k (parseInput_a3 k h wd)) wd) (Some l) 0 ?s = Some (Inr 0, s')" "same_kernel ?s s'"
    "user s' = fold line_effect ls (user ?s)"
    using sections_ok [of l ls' ?s k h "run_policy k (parseInput_a3 k h wd)" wd 0] assms(1,4,5) ls n by auto
  have "fold line_effect ls (user ?s) = fold line_effect ls (user s)"
    by (simp add: ls user_def line_effect_rest [OF l, of _ _ "join_sections ls'"] line_effect_rest [OF l, of _ _ "strtok_rest s"])
  moreover have "parseInput_a3 n h wd (join_sections ls) s = Some (Inr 0, s')"
    using s'(1) assms(3) strtok_join [OF simple_line_facts(3,2) [OF l], of ls'] unfolding n ls by (simp del: join_sections.simps)
  moreover have "same_kernel s s'" using s'(2) by (simp add: same_kernel_def)
  ultimately show ?thesis using s'(3) by auto
qed

theorem sections_in_order_witness:
  "\<exists>s s'. idle s \<and> parseInput_a3 4 demo_scripts ''w'' ''echo hello;echo $x'' s = Some (Inr 0, s') \<and>
    user s' = (say (Out []) (say (Out ''hello'') demo_dir), replicate 3 free_slot, [])"
proof -
  obtain s where s: "idle s" "frame_store_size s = 12" "user s = (demo_dir, replicate 3 free_slot, [])" "new_name_count s = 0" by (rule demo_idle)
  have "frame_store_size s \<le> length (store s)" using s(1) by (simp add: idle_def frames_ok_def)
  then obtain s' where "parseInput_a3 4 demo_scripts ''w'' ''echo hello;echo $x'' s = Some (Inr 0, s')"
    "user s' = fold line_effect [''echo hello'', ''echo $x''] (demo_dir, replicate 3 free_slot, [])"
    using sections_in_order [of "[''echo hello'', ''echo $x'']" 4 s demo_scripts "''w''"] demo_simple s(3) by (auto simp: demo_p_def)
  moreover have "isAlphaNumStr ''hello''" "\<not> isAlphaNumStr ''$x''" "get_slot (replicate 3 free_slot) ''x'' = None" by code_simp+
  ultimately show ?thesis using s(1) by (auto simp: line_effect_def demo_words variable_value_def)
qed

end
