(* ===== verification/A3_Faults.thy ===== *)
theory A3_Faults
  imports A3_Lines
begin

text \<open>
  A page fault of the third shell that no page can serve (\<open>a3/kernel.c\<close>, \<open>a3/pcb.c\<close>): the line a
  process waits for is not in its program. The page is loaded again in every round, with or without
  an eviction before.
\<close>

lemma fgets_end: "fst (fgets 998 []) = []" "fst (snd (fgets 998 [])) = []"
  by (simp_all add: fgets.simps numeral_eq_Suc)

lemma lru_pop:
  assumes "klists s q c al"
  shows "c = [] \<and> (\<exists>msg. pop_lru s = Some (Inl 99, say_a3 (Out msg) s)) \<or>
    (\<exists>x c' l h. c = c' @ [x] \<and> pop_lru s = Some (Inr x, s\<lparr>LRU_CACHE := l, nodes := h\<rparr>) \<and> klists (s\<lparr>LRU_CACHE := l, nodes := h\<rparr>) q c' al)"
proof (cases c rule: rev_cases)
  case Nil
  obtain qs where "linked_at qs (LRU_CACHE s, nodes s) []" using assms Nil by (auto simp: klists_def)
  then have "lsize (LRU_CACHE s) = 0" by (simp add: linked_at_def)
  then show ?thesis using Nil by (auto simp: pop_lru_def pop_tail_def or_exit_def)
next
  case (snoc c' x)
  have "\<exists>h'. pop_tail (LRU_CACHE s, nodes s) = Some (Inr x, (LRU_CACHE s)\<lparr>lsize := lsize (LRU_CACHE s) - 1\<rparr>, h') \<and>
      klists (s\<lparr>LRU_CACHE := (LRU_CACHE s)\<lparr>lsize := lsize (LRU_CACHE s) - 1\<rparr>, nodes := h'\<rparr>) q c' al"
  proof (rule lru_step [OF assms])
    fix ps assume l: "linked_at ps (LRU_CACHE s, nodes s) c"
    then obtain p ps' where "ps = ps' @ [p]" using linked_data [OF l] snoc by (cases ps rule: rev_cases) auto
    with pop_tail_at [of ps' p "LRU_CACHE s" "nodes s" c' x] l snoc own_shrink [of ps' ps "LRU_CACHE s" "fresh (nodes s)"]
    show "\<exists>h' ps'. pop_tail (LRU_CACHE s, nodes s) = Some (Inr x, (LRU_CACHE s)\<lparr>lsize := lsize (LRU_CACHE s) - 1\<rparr>, h') \<and>
      linked_at ps' ((LRU_CACHE s)\<lparr>lsize := lsize (LRU_CACHE s) - 1\<rparr>, h') c' \<and> own ps' (LRU_CACHE s) \<subseteq> insert (fresh (nodes s)) (own ps (LRU_CACHE s)) \<and>
      frame_off (own ps (LRU_CACHE s)) (nodes s) h'" by auto
  qed
  then obtain h' where "pop_lru s = Some (Inr x, s\<lparr>LRU_CACHE := (LRU_CACHE s)\<lparr>lsize := lsize (LRU_CACHE s) - 1\<rparr>, nodes := h'\<rparr>)"
    "klists (s\<lparr>LRU_CACHE := (LRU_CACHE s)\<lparr>lsize := lsize (LRU_CACHE s) - 1\<rparr>, nodes := h'\<rparr>) q c' al"
    by (auto simp: pop_lru_def or_exit_def)
  then show ?thesis using snoc by blast
qed

lemma andthen_Inr: "andthen m f = Some (Inr y, s') \<Longrightarrow> \<exists>x s. m = Some (Inr x, s) \<and> f x s = Some (Inr y, s')"
  by (cases m) (auto simp: andthen_def split: prod.splits sum.splits)

section \<open>A process that waits for ever\<close>

text \<open>
  The process at \<open>a\<close> has run one of its two lines; its program is read to the end, and the slot of
  its second line is not valid.
\<close>

definition waiting :: "nat \<Rightarrow> nat \<Rightarrow> nat \<Rightarrow> a3_state \<Rightarrow> bool" where
  "waiting a pa pid s \<longleftrightarrow>
     procs s a = Some \<lparr>proc_pid = pid, proc_size = 1, program_counter = [1], page_list = [pa], source_file = []\<rparr> \<and>
     (\<exists>pg. pages s pa = Some pg \<and> length (frame_index pg) = 3 \<and> length (valid_bit pg) = 3 \<and> \<not> valid_bit pg ! 1 \<and>
        page_index pg = 0 \<and> page_pid pg = pid) \<and>
     frame_store_size s \<le> length (store s)"

text \<open>Its page is in a frame.\<close>

definition framed :: "nat \<Rightarrow> a3_state \<Rightarrow> bool" where
  "framed pa s \<longleftrightarrow> (\<exists>pg i. pages s pa = Some pg \<and> frame_index pg = [i, i + 1, i + 2] \<and> i + 3 \<le> frame_store_size s)"

lemma waiting_lists:
  "waiting a pa pid (s\<lparr>QUEUE := l, nodes := h\<rparr>) = waiting a pa pid s" "waiting a pa pid (s\<lparr>LRU_CACHE := l, nodes := h\<rparr>) = waiting a pa pid s"
  "framed pa (s\<lparr>QUEUE := l, nodes := h\<rparr>) = framed pa s" "framed pa (s\<lparr>LRU_CACHE := l, nodes := h\<rparr>) = framed pa s"
  "free_frame (s\<lparr>LRU_CACHE := l, nodes := h\<rparr>) = free_frame s"
  by (simp_all add: waiting_def framed_def free_frame_def)

lemma free_frame_Some: "free_frame s = Some i \<Longrightarrow> i + 3 \<le> frame_store_size s"
  by (auto simp: free_frame_def find_Some_iff)

lemma free_frame_exists:
  assumes "i + 3 \<le> frame_store_size s" and "\<forall>k \<in> {i, i + 1, i + 2}. var (store s ! k) = ''none''"
  shows "\<exists>j. free_frame s = Some j"
proof -
  have "free_frame s \<noteq> None" unfolding free_frame_def find_None_iff using assms by (auto intro!: bexI [of _ i])
  then show ?thesis by blast
qed

text \<open>Loading its page reads nothing; the page gets a frame when there is one.\<close>

lemma load_waiting:
  assumes "waiting a pa pid s" and "klists s q c al"
  shows "free_frame s = None \<Longrightarrow> load_PAGE a 0 s = Some (False, s)"
    and "free_frame s = Some i \<Longrightarrow> \<exists>s'. load_PAGE a 0 s = Some (True, s') \<and> waiting a pa pid s' \<and> framed pa s' \<and> klists s' q c al"
proof -
  obtain pg where pg: "pages s pa = Some pg" "length (frame_index pg) = 3" "length (valid_bit pg) = 3" "\<not> valid_bit pg ! 1"
    "page_index pg = 0" "page_pid pg = pid" and p: "procs s a = Some \<lparr>proc_pid = pid, proc_size = 1, program_counter = [1], page_list = [pa], source_file = []\<rparr>"
    and fss: "frame_store_size s \<le> length (store s)" using assms(1) unfolding waiting_def by blast
  show "load_PAGE a 0 s = Some (False, s)" if "free_frame s = None"
    using that p by (simp add: load_PAGE_def page_at_def frame_alloc_def)
  show "\<exists>s'. load_PAGE a 0 s = Some (True, s') \<and> waiting a pa pid s' \<and> framed pa s' \<and> klists s' q c al" if f: "free_frame s = Some i"
  proof -
    define ms where "ms = (store s)[i := (store s ! i)\<lparr>var := show_nat pid\<rparr>, i + 1 := (store s ! (i + 1))\<lparr>var := show_nat pid\<rparr>,
      i + 2 := (store s ! (i + 2))\<lparr>var := show_nat pid\<rparr>]"
    define s1 where "s1 = s\<lparr>store := ms, pages := (pages s)(pa \<mapsto> pg\<lparr>frame_index := [i, i + 1, i + 2], valid_bit := [False, False, False]\<rparr>)\<rparr>"
    have i: "i + 3 \<le> frame_store_size s" by (rule free_frame_Some [OF f])
    obtain e where end': "fgets 998 [] = ([], [], e)" using fgets_end by (cases "fgets 998 []") auto
    have "upd_proc a (\<lambda>p. p\<lparr>source_file := []\<rparr>) s1 = s1" using p by (simp add: upd_proc_def s1_def fun_upd_idem)
    moreover have "frame_alloc (show_nat pid) pa s = Some (True, s1)"
      using f pg(1) i fss by (simp add: frame_alloc_def guard_opt_def Let_def s1_def ms_def)
    ultimately have "load_PAGE a 0 s = Some (True, s1)"
      using p end' by (simp add: load_PAGE_def page_at_def s1_def)
    moreover have "waiting a pa pid s1" using p pg fss by (simp add: waiting_def s1_def ms_def)
    moreover have "framed pa s1" using i by (simp add: framed_def s1_def)
    moreover have "klists s1 q c al" using assms(2) by (simp add: klists_def s1_def)
    ultimately show ?thesis by blast
  qed
qed

text \<open>Evicting its page frees a frame.\<close>

lemma evict_waiting:
  assumes "waiting a pa pid s" and "framed pa s" and "klists s q c al"
  shows "\<exists>s' i. PAGE_evict a 0 s = Some s' \<and> waiting a pa pid s' \<and> free_frame s' = Some i \<and> klists s' q c al"
proof -
  obtain pg i where pg: "pages s pa = Some pg" "length (valid_bit pg) = 3" "\<not> valid_bit pg ! 1" "page_index pg = 0" "page_pid pg = pid"
    and i: "frame_index pg = [i, i + 1, i + 2]" "i + 3 \<le> frame_store_size s"
    and p: "procs s a = Some \<lparr>proc_pid = pid, proc_size = 1, program_counter = [1], page_list = [pa], source_file = []\<rparr>"
    and fss: "frame_store_size s \<le> length (store s)" using assms(1,2) unfolding waiting_def framed_def by auto
  have pa: "page_at a 0 s = Some pa" using p by (simp add: page_at_def)
  define st where "st = (store s)[i := free_slot, i + 1 := free_slot, i + 2 := free_slot]"
  have "\<exists>s'. PAGE_evict a 0 s = Some s' \<and> store s' = st \<and> QUEUE s' = QUEUE s \<and> LRU_CACHE s' = LRU_CACHE s \<and> ALL_PCB s' = ALL_PCB s \<and>
      nodes s' = nodes s \<and> procs s' = procs s \<and> frame_store_size s' = frame_store_size s \<and>
      pages s' = (pages s)(pa \<mapsto> pg\<lparr>frame_index := [0, 0, 0], valid_bit := (valid_bit pg)[0 := False, 1 := False, 2 := False]\<rparr>)"
    using pa pg(1) i fss
    by (simp add: PAGE_evict_def mem_get_value_at_def mem_free_at_def guard_opt_def upd_page_def say_a3_def st_def numeral_2_eq_2 numeral_3_eq_3)
  then obtain s' where s': "PAGE_evict a 0 s = Some s'" "store s' = st" "QUEUE s' = QUEUE s" "LRU_CACHE s' = LRU_CACHE s" "ALL_PCB s' = ALL_PCB s"
    "nodes s' = nodes s" "procs s' = procs s" "frame_store_size s' = frame_store_size s"
    "pages s' = (pages s)(pa \<mapsto> pg\<lparr>frame_index := [0, 0, 0], valid_bit := (valid_bit pg)[0 := False, 1 := False, 2 := False]\<rparr>)" by blast
  have "waiting a pa pid s'" using p pg fss s' by (simp add: waiting_def st_def)
  moreover have "\<forall>k \<in> {i, i + 1, i + 2}. var (store s' ! k) = ''none''" using i(2) fss s'(2) by (auto simp: st_def nth_list_update)
  then have "\<exists>j. free_frame s' = Some j" using i(2) s'(8) by (intro free_frame_exists [of i]) simp_all
  moreover have "klists s' q c al" using assms(3) s' by (simp add: klists_def)
  ultimately show ?thesis using s'(1) by blast
qed

text \<open>The victim is the page itself, and its owner is found among all processes.\<close>

lemma find_first_owner:
  assumes "klists s q c (a # al)" and "procs s a = Some p" and "proc_pid p = pid"
  shows "\<exists>t n. cells (nodes s) (dummy_head (ALL_PCB s)) = Some t \<and> find_owner pid (nnext t) s = Some n \<and> node_data n (nodes s) = Some a"
proof -
  obtain ps qs rs where l: "linked_at ps (QUEUE s, nodes s) q" "linked_at rs (ALL_PCB s, nodes s) (a # al)"
    "own ps (QUEUE s) \<inter> own rs (ALL_PCB s) = {}" using assms(1) unfolding klists_def by blast
  obtain n rs' where rs: "rs = n # rs'" using linked_data [OF l(2)] by (cases rs) auto
  obtain t where t: "cells (nodes s) (dummy_head (ALL_PCB s)) = Some t" "nnext t = Some n" using linked_first [OF l(2)] rs by auto
  have d: "node_data n (nodes s) = Some a" using l(2) rs by (simp add: linked_at_def)
  then obtain nd where nd: "cells (nodes s) n = Some nd" "ndata nd = Some a" by (auto simp: node_data_def bind_eq_Some_conv)
  have "n \<noteq> dummy_tail (QUEUE s)" using l(3) rs by (auto simp: own_def)
  then have "find_owner pid (Some n) s = Some n" using nd assms(2,3) by (subst find_owner.simps) simp
  then show ?thesis using t d by auto
qed

lemma evict_victim_waiting:
  assumes "waiting a pa pid s" and "framed pa s" and "klists s q c (a # al)" and "c \<noteq> []" and "set c \<subseteq> {pa}"
  shows "\<exists>s' c' i. evict_victim s = Some (Inr (), s') \<and> waiting a pa pid s' \<and> free_frame s' = Some i \<and> klists s' q c' (a # al) \<and> set c' \<subseteq> {pa}"
proof -
  obtain x c' l h where x: "c = c' @ [x]" "pop_lru s = Some (Inr x, s\<lparr>LRU_CACHE := l, nodes := h\<rparr>)"
    "klists (s\<lparr>LRU_CACHE := l, nodes := h\<rparr>) q c' (a # al)" using lru_pop [OF assms(3)] assms(4) by blast
  let ?s = "s\<lparr>LRU_CACHE := l, nodes := h\<rparr>"
  have w: "waiting a pa pid ?s" "framed pa ?s" using assms(1,2) by (simp_all add: waiting_lists)
  obtain pg where pg: "pages ?s pa = Some pg" "page_index pg = 0" "page_pid pg = pid"
    and p: "procs ?s a = Some \<lparr>proc_pid = pid, proc_size = 1, program_counter = [1], page_list = [pa], source_file = []\<rparr>"
    using w(1) unfolding waiting_def by blast
  obtain t n where o: "cells (nodes ?s) (dummy_head (ALL_PCB ?s)) = Some t" "find_owner pid (nnext t) ?s = Some n" "node_data n (nodes ?s) = Some a"
    using find_first_owner [OF x(3) p, of pid] by auto
  obtain s' i where e: "PAGE_evict a 0 ?s = Some s'" "waiting a pa pid s'" "free_frame s' = Some i" "klists s' q c' (a # al)"
    using evict_waiting [OF w x(3)] by blast
  have "x = pa" using x(1) assms(5) by simp
  then have "evict_victim s = Some (Inr (), s')" using x(2) pg o e(1) by (simp add: evict_victim_def)
  then show ?thesis using e(2-4) x(1) assms(5) by auto
qed

text \<open>One fault: the page is loaded, after an eviction when no frame is free, and the process waits again.\<close>

lemma handle_fault_waiting:
  assumes "waiting a pa pid s" and "framed pa s" and "klists s q c (a # al)" and "c \<noteq> []" and "set c \<subseteq> {pa}"
  shows "\<exists>s' c'. handle_fault a 0 s = Some (Inr 1, s') \<and> waiting a pa pid s' \<and> framed pa s' \<and> klists s' (q @ [a]) (pa # c') (a # al) \<and> set c' \<subseteq> {pa}"
proof -
  define served where "served = (\<lambda>(u :: unit) s. do { pa \<leftarrow> page_at a 0 s; s \<leftarrow> on_lru (add_head pa) s; s \<leftarrow> on_queue (add_tail a) s;
    Some (Inr 1 :: int + int, s) })"
  have served: "\<exists>s'. served () t = Some (Inr 1, s') \<and> waiting a pa pid s' \<and> framed pa s' \<and> klists s' (q @ [a]) (pa # c) (a # al)"
    if t: "waiting a pa pid t" "framed pa t" "klists t q c (a # al)" for t c
  proof -
    have pa: "page_at a 0 t = Some pa" using t(1) by (auto simp: waiting_def page_at_def)
    obtain l h where l: "on_lru (add_head pa) t = Some (t\<lparr>LRU_CACHE := l, nodes := h\<rparr>)" "klists (t\<lparr>LRU_CACHE := l, nodes := h\<rparr>) q (pa # c) (a # al)"
      using lru_add [OF t(3)] by blast
    obtain l' h' where "on_queue (add_tail a) (t\<lparr>LRU_CACHE := l, nodes := h\<rparr>) = Some (t\<lparr>LRU_CACHE := l, nodes := h\<rparr>\<lparr>QUEUE := l', nodes := h'\<rparr>)"
      "klists (t\<lparr>LRU_CACHE := l, nodes := h\<rparr>\<lparr>QUEUE := l', nodes := h'\<rparr>) (q @ [a]) (pa # c) (a # al)" using queue_add [OF l(2)] by blast
    moreover have "waiting a pa pid (t\<lparr>LRU_CACHE := l, nodes := h\<rparr>\<lparr>QUEUE := l', nodes := h'\<rparr>)"
      "framed pa (t\<lparr>LRU_CACHE := l, nodes := h\<rparr>\<lparr>QUEUE := l', nodes := h'\<rparr>)" using t(1,2) by (simp_all only: waiting_lists)
    ultimately show ?thesis using pa l(1) by (simp add: served_def)
  qed
  have hf: "handle_fault a 0 s = do { (ok, s) \<leftarrow> load_PAGE a 0 s;
      andthen (if ok then Some (Inr (), s) else andthen (evict_victim s) (\<lambda>u s. do { (ok, s) \<leftarrow> load_PAGE a 0 s; Some (Inr (), s) })) served }"
    by (simp add: handle_fault_def served_def)
  show ?thesis
  proof (cases "free_frame s")
    case None
    obtain s1 c1 i where s1: "evict_victim s = Some (Inr (), s1)" "waiting a pa pid s1" "free_frame s1 = Some i" "klists s1 q c1 (a # al)" "set c1 \<subseteq> {pa}"
      using evict_victim_waiting [OF assms] by blast
    obtain s2 where s2: "load_PAGE a 0 s1 = Some (True, s2)" "waiting a pa pid s2" "framed pa s2" "klists s2 q c1 (a # al)"
      using load_waiting(2) [OF s1(2,4,3)] by blast
    then show ?thesis using served [OF s2(2-4)] s1(1,5) load_waiting(1) [OF assms(1,3) None] unfolding hf by auto
  next
    case (Some i)
    obtain s2 where s2: "load_PAGE a 0 s = Some (True, s2)" "waiting a pa pid s2" "framed pa s2" "klists s2 q c (a # al)"
      using load_waiting(2) [OF assms(1,3) Some] by blast
    then show ?thesis using served [OF s2(2-4)] assms(5) unfolding hf by auto
  qed
qed

lemma run_line_waiting:
  assumes "waiting a pa pid s" and "framed pa s" and "klists s q c (a # al)" and "c \<noteq> []" and "set c \<subseteq> {pa}"
  shows "\<exists>s' c'. run_line parse a s = Some (Inr 1, s') \<and> waiting a pa pid s' \<and> framed pa s' \<and> klists s' (q @ [a]) (pa # c') (a # al) \<and> set c' \<subseteq> {pa}"
proof -
  obtain pg where pg: "pages s pa = Some pg" "length (frame_index pg) = 3" "length (valid_bit pg) = 3" "\<not> valid_bit pg ! 1"
    and p: "procs s a = Some \<lparr>proc_pid = pid, proc_size = 1, program_counter = [1], page_list = [pa], source_file = []\<rparr>"
    using assms(1) unfolding waiting_def by blast
  have "cpu_run parse a 0 1 s = Some (Inr 1, s)" using p pg by (simp add: cpu_run_def page_at_def guard_opt_def)
  then have "run_line parse a s = handle_fault a 0 s"
    using p by (simp add: run_line_def run_proc_def guard_opt_def current_page_def)
  then show ?thesis using handle_fault_waiting [OF assms] by simp
qed

lemma queue_waits:
  assumes "klists s [a] c al" and "procs s a = Some p" and "k \<in> set (program_counter p)" and "k \<noteq> 3"
  shows "queue_done s = Some False"
proof -
  have "\<forall>b \<in> set [a]. PCB_done b s = Some False" using assms(2-4) by (auto simp: PCB_done_def)
  from queue_done_ok [OF assms(1) this] show ?thesis by simp
qed

text \<open>A number of rounds of the scheduler.\<close>

fun rounds :: "nat \<Rightarrow> parser \<Rightarrow> a3_state \<Rightarrow> unit step_a3" where
  "rounds 0 parse s = Some (Inr (), s)"
| "rounds (Suc k) parse s = andthen (round_RR_a3 parse s) (\<lambda>u s. rounds k parse s)"

text \<open>The scheduler does not return as long as the queue is not done.\<close>

lemma rr_loop_rounds:
  "\<forall>j < Suc n. \<exists>u. rounds j parse s = Some (Inr (), u) \<and> queue_done u = Some False \<Longrightarrow> rr_loop n parse s = None"
proof (induction n arbitrary: s)
  case (Suc n)
  have d: "queue_done s = Some False" using Suc.prems by (auto dest: spec [of _ 0])
  obtain v where "andthen (round_RR_a3 parse s) (\<lambda>u. rounds 0 parse) = Some (Inr (), v)" using Suc.prems [rule_format, of 1] by auto
  from andthen_Inr [OF this] obtain t where t: "round_RR_a3 parse s = Some (Inr (), t)" by auto
  have "\<exists>u. rounds j parse t = Some (Inr (), u) \<and> queue_done u = Some False" if "j < Suc n" for j
    using Suc.prems [rule_format, of "Suc j"] that t by simp
  then have "rr_loop n parse t = None" by (intro Suc.IH) blast
  then show ?case using d t by simp
qed simp

text \<open>The queue holds the waiting process alone.\<close>

definition waits_alone :: "nat \<Rightarrow> nat \<Rightarrow> nat \<Rightarrow> a3_state \<Rightarrow> bool" where
  "waits_alone a pa pid s \<longleftrightarrow> waiting a pa pid s \<and> framed pa s \<and> (\<exists>c. klists s [a] (pa # c) [a] \<and> set c \<subseteq> {pa})"

lemma round_waiting:
  assumes "waits_alone a pa pid s"
  shows "\<exists>s'. round_RR_a3 parse s = Some (Inr (), s') \<and> waits_alone a pa pid s'"
proof -
  obtain c where w: "waiting a pa pid s" "framed pa s" "klists s [a] (pa # c) [a]" "set c \<subseteq> {pa}"
    using assms unfolding waits_alone_def by blast
  obtain l h where q: "pop_queue s = Some (Inr a, s\<lparr>QUEUE := l, nodes := h\<rparr>)" "klists (s\<lparr>QUEUE := l, nodes := h\<rparr>) [] (pa # c) [a]"
    using queue_pop [OF w(3)] by blast
  have "waiting a pa pid (s\<lparr>QUEUE := l, nodes := h\<rparr>)" "framed pa (s\<lparr>QUEUE := l, nodes := h\<rparr>)" using w(1,2) by (simp_all only: waiting_lists)
  then obtain s' c' where s': "run_line parse a (s\<lparr>QUEUE := l, nodes := h\<rparr>) = Some (Inr 1, s')" "waiting a pa pid s'" "framed pa s'"
    "klists s' [a] (pa # c') [a]" "set c' \<subseteq> {pa}"
    using run_line_waiting [OF _ _ q(2), of pa pid parse] w(4) by auto
  have "round_RR_a3 parse s = Some (Inr (), s')" using q(1) w(1) s'(1) by (simp add: round_RR_a3_def waiting_def)
  then show ?thesis using s'(2-5) unfolding waits_alone_def by blast
qed

lemma rounds_waiting: "waits_alone a pa pid s \<Longrightarrow> \<exists>s'. rounds k parse s = Some (Inr (), s') \<and> waits_alone a pa pid s'"
proof (induction k arbitrary: s)
  case (Suc k)
  obtain t where "round_RR_a3 parse s = Some (Inr (), t)" "waits_alone a pa pid t" using round_waiting [OF Suc.prems] by blast
  then show ?case using Suc.IH by simp
qed simp

lemma waiting_not_done: "waits_alone a pa pid s \<Longrightarrow> queue_done s = Some False"
  using queue_waits [of s a] unfolding waits_alone_def waiting_def by fastforce

section \<open>A script that ends with a newline\<close>

text \<open>The process of a script with one line and a newline behind it has two lines.\<close>

lemma count_lines_newline: "newline \<notin> set w \<Longrightarrow> w \<noteq> [] \<Longrightarrow> count_lines (w @ [newline]) = 2"
  by (simp add: count_lines_def count_newlines_append) (metis last_in_set)

lemma new_proc_newline:
  assumes "idle s" and "open_read h (events s) f = Some (w @ [newline])" and "newline \<notin> set w" and "w \<noteq> []" and "length w < 997"
    and "3 \<le> frame_store_size s"
  shows "\<exists>s1 pg. new_proc h f s = Some (Inr 0, s1) \<and> klists s1 [next_obj s] [next_obj s + 1] [next_obj s] \<and> frames_ok s1 [next_obj s + 1] \<and>
    procs s1 (next_obj s) = Some \<lparr>proc_pid = PID_counter s, proc_size = 2, program_counter = [0], page_list = [next_obj s + 1], source_file = []\<rparr> \<and>
    pages s1 (next_obj s + 1) = Some pg \<and> frame_index pg = [0, 1, 2] \<and> valid_bit pg = [True, False, False] \<and>
    page_pid pg = PID_counter s \<and> page_index pg = 0 \<and> val (store s1 ! 0) = w @ [newline]"
proof -
  define a where "a = next_obj s"
  define pid where "pid = PID_counter s"
  define p where "p = \<lparr>proc_pid = pid, proc_size = 2, program_counter = [0], page_list = [a + 1], source_file = w @ [newline]\<rparr>"
  define t where "t = s\<lparr>PID_counter := pid + 1, next_obj := a + 2,
    pages := (\<lambda>x. if a < x \<and> x \<le> a + 1 then Some (PAGE_init pid (x - a - 1)) else pages s x), procs := (procs s)(a \<mapsto> p)\<rparr>"
  let ?pid = "show_nat pid"
  define ms where "ms = (store s)[0 := (store s ! 0)\<lparr>var := ?pid\<rparr>, 1 := (store s ! 1)\<lparr>var := ?pid\<rparr>, 2 := (store s ! 2)\<lparr>var := ?pid\<rparr>]"
  define st where "st = ms[0 := \<lparr>var = ?pid, val = w @ [newline]\<rparr>]"
  define pg where "pg = (PAGE_init pid 0)\<lparr>frame_index := [0, 1, 2], valid_bit := [True, False, False]\<rparr>"
  define s1 where "s1 = t\<lparr>store := st, pages := (pages t)(a + 1 \<mapsto> pg), procs := (procs t)(a \<mapsto> p\<lparr>source_file := []\<rparr>)\<rparr>"
  have f0: "frames_ok s []" and k0: "klists s [] [] []" using assms(1) by (simp_all add: idle_def)
  have len: "3 \<le> length (store s)" using f0 assms(6) by (simp add: frames_ok_def)
  have "free_frame t = free_frame s" by (simp add: free_frame_def t_def)
  then have free: "free_frame t = Some 0" using free_frame_ok [OF f0] assms(6) by simp
  obtain e where line: "fgets 998 (w @ [newline]) = (w @ [newline], [], e)" using fgets_line [of w 998 "[]"] assms(3,5) by auto
  have ne: "store s \<noteq> []" using len by auto
  obtain e' where end': "fgets 998 [] = ([], [], e')" using fgets_end by (cases "fgets 998 []") auto
  have load: "load_PAGE a 0 t = Some (True, s1)"
    using free len line end' ne
    by (simp add: load_PAGE_def page_at_def frame_alloc_def guard_opt_def t_def p_def ms_def PAGE_init_def numeral_2_eq_2
      upd_proc_def upd_page_def mem_set_value_at_def s1_def st_def pg_def Let_def)
  have init: "PCB_init h pid f (s\<lparr>PID_counter := pid + 1\<rparr>) = Some (Inr a, s1)"
  proof -
    have 1: "open_read h (events (s\<lparr>PID_counter := pid + 1\<rparr>)) f = Some (w @ [newline])" "next_obj (s\<lparr>PID_counter := pid + 1\<rparr>) = a"
      using assms(2) by (simp_all add: events_def a_def)
    have 2: "PAGE_table_size 2 = 1" "[a + 1..<a + 1 + 1] = [a + 1]" "[0..<min 2 1] = [0::nat]" by (simp_all add: PAGE_table_size_def)
    have t: "t = s\<lparr>PID_counter := pid + 1\<rparr>\<lparr>next_obj := a + 1 + 1,
      pages := (\<lambda>x. if a < x \<and> x \<le> a + 1 then Some (PAGE_init pid (x - a - 1)) else pages (s\<lparr>PID_counter := pid + 1\<rparr>) x),
      procs := (procs (s\<lparr>PID_counter := pid + 1\<rparr>))(a \<mapsto> \<lparr>proc_pid = pid, proc_size = int 2, program_counter = replicate 1 0,
        page_list = [a + 1], source_file = w @ [newline]\<rparr>)\<rparr>" by (simp add: t_def p_def cong: if_cong)
    show ?thesis
      by (simp only: PCB_init_def 1 option.case count_lines_newline [OF assms(3,4)] Let_def 2 t [symmetric] load_first.simps load) simp
  qed
  have s1: "nodes s1 = nodes s" "QUEUE s1 = QUEUE s" "LRU_CACHE s1 = LRU_CACHE s" "ALL_PCB s1 = ALL_PCB s"
    "procs s1 a = Some (p\<lparr>source_file := []\<rparr>)" by (simp_all add: s1_def t_def)
  from new_proc_lists [OF k0 init [unfolded pid_def] s1] obtain la lq lc h3 where
    n: "new_proc h f s = Some (Inr 0, s1\<lparr>ALL_PCB := la, QUEUE := lq, LRU_CACHE := lc, nodes := h3\<rparr>)"
    "klists (s1\<lparr>ALL_PCB := la, QUEUE := lq, LRU_CACHE := lc, nodes := h3\<rparr>) [a] [a + 1] [a]" by (auto simp: p_def)
  let ?s = "s1\<lparr>ALL_PCB := la, QUEUE := lq, LRU_CACHE := lc, nodes := h3\<rparr>"
  have "frames_ok ?s [a + 1]"
  proof -
    have "var (st ! x) = (if x < 3 then ?pid else var (store s ! x))" if "x < length (store s)" for x
    proof -
      have "x = 0 \<or> x = 1 \<or> x = 2 \<or> 3 \<le> x" by linarith
      then show ?thesis using that len ne by (elim disjE) (simp_all add: st_def ms_def)
    qed
    moreover have "length st = length (store s)" by (simp add: st_def ms_def)
    ultimately show ?thesis using f0 assms(6) show_nat_none
      by (auto simp: frames_ok_def s1_def t_def pg_def)
  qed
  moreover have "val (store ?s ! 0) = w @ [newline]" using len ne by (simp add: s1_def st_def ms_def)
  moreover have "procs ?s a = Some \<lparr>proc_pid = pid, proc_size = 2, program_counter = [0], page_list = [a + 1], source_file = []\<rparr>"
    "pages ?s (a + 1) = Some pg" "frame_index pg = [0, 1, 2]" "valid_bit pg = [True, False, False]"
    "page_pid pg = pid" "page_index pg = 0"
    by (simp_all add: s1_def p_def pg_def PAGE_init_def)
  ultimately show ?thesis using n unfolding a_def pid_def by blast
qed

text \<open>The first round runs the line and meets the fault for the first time.\<close>

context line_runner begin

lemma run_line_newline:
  assumes "klists s q [pa] al" and "frames_ok s [pa]" and "pages s pa = Some pg" and "frame_index pg = [0, 1, 2]"
    and "valid_bit pg = [True, False, False]" and "page_pid pg = pid" and "page_index pg = 0" and "val (store s ! 0) = l" and "simple l"
    and "procs s a = Some \<lparr>proc_pid = pid, proc_size = 2, program_counter = [0], page_list = [pa], source_file = []\<rparr>"
  shows "\<exists>s'. run_line parse a s = Some (Inr 0, s') \<and> klists s' q [pa] al \<and> waiting a pa pid s' \<and> framed pa s'"
proof -
  have len: "frame_store_size s \<le> length (store s)" "3 \<le> frame_store_size s" using assms(2) by (simp_all add: frames_ok_def)
  obtain r s1 where s1: "parse l s = Some (Inr r, s1)" "r \<noteq> 1" "same_kernel s s1" using parse_simple [OF assms(9) len(1)] by blast
  note k = s1(3) [unfolded same_kernel_def]
  let ?p = "\<lparr>proc_pid = pid, proc_size = 1, program_counter = [1], page_list = [pa], source_file = []\<rparr>"
  define s2 where "s2 = s1\<lparr>procs := (procs s1)(a \<mapsto> ?p)\<rparr>"
  have "mem_get_value_at 0 s = Some l" using len assms(8) by (auto simp: mem_get_value_at_def)
  then have "cpu_run parse a 0 0 s = Some (Inr r, s2)"
    using assms(3,4,5,10) s1(1) k by (simp add: cpu_run_def page_at_def guard_opt_def upd_proc_def s2_def)
  then have run: "run_line parse a s = andthen (Some (Inr r, s2)) (\<lambda>ret s.
     if ret = 1 then handle_fault a 0 s
     else do {
       pa \<leftarrow> page_at a 0 s;
       (x, l, h) \<leftarrow> remove_elem (PAGE_equal s) pa (LRU_CACHE s, nodes s);
       s \<leftarrow> on_lru (add_head x) (s\<lparr>LRU_CACHE := l, nodes := h\<rparr>);
       Some (Inr 0, s) })"
    using assms(10) by (simp add: run_line_def run_proc_def guard_opt_def current_page_def)
  have k2: "klists s2 q [pa] al" using assms(1) k by (simp add: s2_def klists_def)
  have "PAGE_equal s2 pa pa = Some True" using assms(3) k by (simp add: PAGE_equal_def s2_def)
  then obtain l h l' h' where t: "remove_elem (PAGE_equal s2) pa (LRU_CACHE s2, nodes s2) = Some (pa, l, h)"
    "on_lru (add_head pa) (s2\<lparr>LRU_CACHE := l, nodes := h\<rparr>) = Some (s2\<lparr>LRU_CACHE := l', nodes := h'\<rparr>)"
    "klists (s2\<lparr>LRU_CACHE := l', nodes := h'\<rparr>) q [pa] al"
    using lru_touch [OF k2, of pa] by auto
  have "page_at a 0 s2 = Some pa" by (simp add: page_at_def s2_def)
  then have "run_line parse a s = Some (Inr 0, s2\<lparr>LRU_CACHE := l', nodes := h'\<rparr>)" using run s1(2) t(1,2) by simp
  moreover have "waiting a pa pid s2" using assms(3-7) k len by (simp add: waiting_def s2_def)
  moreover have "framed pa s2" using assms(3,4) k len by (simp add: framed_def s2_def)
  ultimately show ?thesis using t(3) waiting_lists(2,4) by blast
qed

lemma round_newline:
  assumes "klists s [a] [pa] [a]" and "frames_ok s [pa]" and "pages s pa = Some pg" and "frame_index pg = [0, 1, 2]"
    and "valid_bit pg = [True, False, False]" and "page_pid pg = pid" and "page_index pg = 0" and "val (store s ! 0) = l" and "simple l"
    and "procs s a = Some \<lparr>proc_pid = pid, proc_size = 2, program_counter = [0], page_list = [pa], source_file = []\<rparr>"
  shows "\<exists>s'. round_RR_a3 parse s = Some (Inr (), s') \<and> waits_alone a pa pid s'"
proof -
  obtain lq h where q: "pop_queue s = Some (Inr a, s\<lparr>QUEUE := lq, nodes := h\<rparr>)" "klists (s\<lparr>QUEUE := lq, nodes := h\<rparr>) [] [pa] [a]"
    using queue_pop [OF assms(1)] by blast
  let ?s = "s\<lparr>QUEUE := lq, nodes := h\<rparr>"
  have "frames_ok ?s [pa]" using assms(2) by (simp add: frames_ok_def)
  from run_line_newline [OF q(2) this _ assms(4-7) _ assms(9)] assms(3,8,10) obtain s1 where
    s1: "run_line parse a ?s = Some (Inr 0, s1)" "klists s1 [] [pa] [a]" "waiting a pa pid s1" "framed pa s1" by auto
  obtain s2 c where s2: "run_line parse a s1 = Some (Inr 1, s2)" "waiting a pa pid s2" "framed pa s2" "klists s2 [a] (pa # c) [a]" "set c \<subseteq> {pa}"
    using run_line_waiting [OF s1(3,4,2), of parse] by auto
  have "round_RR_a3 parse s = Some (Inr (), s2)" using q(1) assms(10) s1(1) s2(1) by (simp add: round_RR_a3_def)
  then show ?thesis using s2(2-5) unfolding waits_alone_def by blast
qed

end

definition newline_scripts :: fs_host where
  "newline_scripts = host.extend (demo_host\<lparr>open_read := (\<lambda>t f. Some (''print x'' @ [newline]))\<rparr>) (fs_host.fields (\<lambda>a b. []))"

text \<open>
  C40: A script of one command on a variable and a newline at its end never comes to an end. The newline
  counts as one more line, which no page holds: in every round the process faults on it, its page is
  loaded again, and the queue is not done. Each single round succeeds, for any number of them, and so
  \<open>run\<close> returns for no bound on the number of rounds.
\<close>

theorem newline_script_never_ends:
  assumes "idle s" and "open_read h (events s) f = Some (w @ [newline])" and "newline \<notin> set w" and "length w < 997"
    and "simple_line (w @ [newline])" and "3 \<le> frame_store_size s" and "parse = parseInput_a3 (Suc (Suc n)) h wd"
  shows "\<exists>t. new_proc h f s = Some (Inr 0, t) \<and> (\<forall>k. \<exists>u. rounds k parse t = Some (Inr (), u) \<and> queue_done u = Some False) \<and>
    (\<forall>m. run_a3 h (run_policy m parse) f s = None)"
proof -
  have "w \<noteq> []" using assms(5) by (auto simp: simple_line_def line_words_def words_a3.simps strip_eol_def split: if_splits)
  from new_proc_newline [OF assms(1-3) this assms(4,6)] obtain s1 pg where
    s1: "new_proc h f s = Some (Inr 0, s1)" "klists s1 [next_obj s] [next_obj s + 1] [next_obj s]" "frames_ok s1 [next_obj s + 1]"
    "procs s1 (next_obj s) = Some \<lparr>proc_pid = PID_counter s, proc_size = 2, program_counter = [0], page_list = [next_obj s + 1], source_file = []\<rparr>"
    "pages s1 (next_obj s + 1) = Some pg" "frame_index pg = [0, 1, 2]" "valid_bit pg = [True, False, False]"
    "page_pid pg = PID_counter s" "page_index pg = 0" "val (store s1 ! 0) = w @ [newline]" by blast
  obtain t where t: "round_RR_a3 parse s1 = Some (Inr (), t)" "waits_alone (next_obj s) (next_obj s + 1) (PID_counter s) t"
    using variables.round_newline [OF s1(2,3,5-10) assms(5) s1(4), of n h wd] unfolding assms(7) by blast
  have rounds: "\<exists>u. rounds k parse s1 = Some (Inr (), u) \<and> queue_done u = Some False" for k
  proof (cases k)
    case 0
    have "queue_done s1 = Some False" by (rule queue_waits [OF s1(2,4), of 0]) simp_all
    then show ?thesis using 0 by simp
  next
    case (Suc j)
    then show ?thesis using rounds_waiting [OF t(2), of j parse] waiting_not_done t(1) by auto
  qed
  have "rr_loop m parse s1 = None" for m by (rule rr_loop_rounds) (use rounds in blast)
  then have "run_a3 h (run_policy m parse) f s = None" for m using s1(1) by (simp add: run_a3_def run_policy_def run_proc_RR_def)
  then show ?thesis using s1(1) rounds by blast
qed

theorem newline_script_never_ends_witness:
  "\<exists>s t. idle s \<and> new_proc newline_scripts ''q'' s = Some (Inr 0, t) \<and>
    (\<exists>u. rounds 1000 (parseInput_a3 2 newline_scripts ''w'') t = Some (Inr (), u) \<and> queue_done u = Some False)"
proof -
  obtain s where s: "idle s" "frame_store_size s = 12" "user s = (demo_dir, replicate 3 free_slot, [])" "new_name_count s = 0" by (rule demo_idle)
  have o: "open_read newline_scripts (events s) ''q'' = Some (''print x'' @ [newline])" by (simp add: newline_scripts_def host.defs fs_host.defs)
  have l: "simple_line (''print x'' @ [newline])" using demo_simple(1) by (simp add: demo_p_def)
  have "\<exists>t. new_proc newline_scripts ''q'' s = Some (Inr 0, t) \<and>
    (\<forall>k. \<exists>u. rounds k (parseInput_a3 2 newline_scripts ''w'') t = Some (Inr (), u) \<and> queue_done u = Some False) \<and>
    (\<forall>m. run_a3 newline_scripts (run_policy m (parseInput_a3 2 newline_scripts ''w'')) ''q'' s = None)"
    by (rule newline_script_never_ends [OF s(1) o _ _ l, of _ 0]) (simp_all add: s(2) numeral_2_eq_2)
  then show ?thesis using s(1) by blast
qed

end
