(* ===== verification/Spec2Isabelle.thy ===== *)
theory Spec2Isabelle
  imports Prelude Fs_Block Fs_Cache Fs_Bitmap Fs_Inode Fs_Alloc Fs_File Fs_Dir Fs_Filesys Fs_Reserve Fs_Grow Fs_Files
    Fs_Release Fs_Util Fs_Util2 Fs_Store Fs_Open Fs_Remove Fs_View Fs_Debug Fs_List
    Shell_Store A1_Shell A2_Memory A2_Queue A2_Kernel Links A3_List A3_Process A3_Kernel A3_Shell A3_Frames A3_Sched A3_Robin A3_Run A3_Lines A3_Faults
begin

text \<open>
  A model of the three shells of this repository and of the file system of the third one.

  \<^bold>\<open>The program.\<close> \<open>src/a1\<close> is a shell with variables and scripts. \<open>src/a2\<close> adds
  processes: programs are paged into a frame store, wait in a ready queue and are run by one of
  several schedulers. \<open>src/a3\<close> is a shell of the same kind, with demand paging, on top of a file system
  (\<open>src/a3/fs\<close>, derived from Pintos) that lives on a virtual disk. The modelled parts
  and how they call each other:

  \<^item> \<open>Prelude\<close>: the rounding macros of \<open>round.h\<close>, the remainder of C, positional reads and
    writes of byte sequences (\<open>pread\<close>, \<open>pwrite\<close>), little-endian layout, \<open>guard_opt\<close>.
  \<^item> \<open>Fs_Block\<close>: block devices (\<open>block.c\<close>), the driver that keeps a disk in a file
    (\<open>ide.c\<close>), partitions as devices on devices (\<open>partition.c\<close>). The state is the record
    \<open>disk\<close>; a device is a tree of the datatype \<open>block\<close>, which owns the counters of the code.
  \<^item> \<open>Fs_Cache\<close>: the write-back cache of 64 sectors with second-chance replacement
    (\<open>cache.c\<close>), on the interface of \<open>Fs_Block\<close>. Its state extends \<open>disk\<close>.
  \<^item> \<open>Fs_Bitmap\<close>: packed bit sets (\<open>bitmap.c\<close>), used for the free map.
  \<^item> \<open>Fs_Inode\<close>: the inode on disk and the block tree behind it (\<open>inode.h\<close>, the traversals and
    the loops of \<open>inode_read_at\<close> and \<open>inode_write_at\<close>), over the sectors the cache gives access to.
  \<^item> \<open>Fs_Alloc\<close>: the free map (\<open>free-map.c\<close>), allocation and release of blocks, and the
    inodes in memory with their counters (the rest of \<open>inode.c\<close>). The state \<open>fs_state\<close> extends
    that of the cache by the objects on the heap.
  \<^item> \<open>Fs_File\<close>: open files and the table of files (\<open>file.c\<close>), and the operations of
    \<open>free-map.c\<close> that work on files.
  \<^item> \<open>Fs_Dir\<close>: directories (\<open>directory.c\<close>): entries, lookup, adding and removing names, paths.
    \<open>Fs_Filesys\<close>: formatting, start and shutdown, files by name (\<open>filesys.c\<close>).
  \<^item> \<open>Fs_Util\<close> and \<open>Fs_Util2\<close>: the commands on files (\<open>fsutil.c\<close>, \<open>fsutil2.c\<close>, \<open>hex_dump\<close> of \<open>debug.c\<close>).
    \<open>Fs_Debug\<close>: other diagnostic output (\<open>debug.c\<close>, \<open>bitmap_dump\<close>) and bitmaps in memory of the caller.
  \<^item> \<open>Fs_List\<close>: the doubly linked lists with sentinels of \<open>list.c\<close>, on a heap of elements.
  \<^item> \<open>Shell_Store\<close>: what the shells share: arrays of variable slots, \<open>fgets\<close>, the record
    \<open>host\<close> of what the operating system answers, and the events a shell causes.
  \<^item> \<open>A1_Shell\<close>: the whole of \<open>src/a1\<close>, from \<open>main\<close> down.
  \<^item> \<open>A2_Memory\<close>: shell memory with paging (\<open>a2/shellmemory.c\<close>) and process control blocks
    (\<open>a2/pcb.c\<close>). \<open>A2_Queue\<close>: the ready queue (\<open>a2/ready_queue.c\<close>). \<open>A2_Kernel\<close>: processes and
    schedulers (\<open>a2/kernel.c\<close>), the interpreter and the parser (\<open>a2/interpreter.c\<close>,
    \<open>a2/shell.c\<close>), which call each other.
  \<^item> \<open>Links\<close> and \<open>A3_List\<close>: heaps of nodes with two pointers, and the lists of processes of the third
    shell on them (\<open>a3/linked_list.c\<close>). \<open>A3_Process\<close>: its memory, process control blocks and pages
    (\<open>a3/shellmemory.c\<close>, \<open>a3/pcb.c\<close>). \<open>A3_Kernel\<close>: running a line, page faults and
    schedulers (\<open>a3/cpu.c\<close>, \<open>a3/kernel.c\<close>). \<open>A3_Shell\<close>: the interpreter, the parser with the state of
    \<open>strtok\<close>, and \<open>main\<close> (\<open>a3/interpreter.c\<close>, \<open>a3/shell.c\<close>), tied together by a bound on nesting.

  Definitions have the names of the C functions; where the shells have functions of the same
  name, a suffix tells the directory (\<open>set_a1\<close>, \<open>set_a2\<close>, \<open>set_a3\<close>). The remaining theories have proofs only:
  \<open>Fs_Reserve\<close>, \<open>Fs_Grow\<close> and \<open>Fs_Files\<close> about files that grow, \<open>Fs_Release\<close> and \<open>Fs_Remove\<close> about files that are
  removed, \<open>Fs_Store\<close>, \<open>Fs_Open\<close> and \<open>Fs_View\<close> about the file system as a map, with files that stay open; \<open>A3_Frames\<close>, \<open>A3_Sched\<close>, \<open>A3_Robin\<close>, \<open>A3_Run\<close>, \<open>A3_Lines\<close> and \<open>A3_Faults\<close> about the third shell.

  \<^bold>\<open>Conventions.\<close> Unsigned 32-bit values of the file system are words of type \<open>u32\<close>, so that
  offsets wrap around as they do in C; offsets of type \<open>off_t\<close> and the counters of the shells
  are \<open>int\<close> or \<open>nat\<close>. Bytes are \<open>u8\<close>; strings of the shells are lists of characters without the
  terminator, and text is assumed to contain no null character. \<open>None\<close> is a program that
  does not go on: a null or dangling pointer, an access outside an array or buffer, or a
  computation that does not end within its fuel. Memory is never exhausted in
  the model: the branches for a failed \<open>malloc\<close> are left out. A panic is recorded
  and the call goes on, because the function \<open>debug_panic\<close> of the repository returns.

  \<^bold>\<open>Fuel.\<close> The scan of nested partition tables takes a bound on the depth of the recursion;
  \<open>partition_scan_extended_diverges\<close> shows that there are disks for which no bound is enough.
  In \<open>inode_reserve_indirect\<close> and \<open>inode_deallocate_indirect\<close> the argument is the level of the tree,
  which is 0, 1 or 2. The scans of a directory (\<open>scan_entries\<close>) take the length of the directory as a bound
  (\<open>entry_fuel\<close>), which is more than it has entries. \<open>run_a1\<close> takes a bound on the nesting of scripts; a script that runs itself has
  no result for any bound. \<open>parseInput_a2\<close> and \<open>parseInput_a3\<close> take a bound on the nesting of schedulers, which also
  bounds the number of rounds of each. For the third shell \<open>run_executes_script\<close>, \<open>exec_round_robin\<close> and \<open>exec_interleaves\<close> show
  that a number of rounds linear in the lines of the scripts is enough when these are \<open>print\<close>, \<open>echo\<close> and
  \<open>set\<close> lines with single words, none blank and the last one without a newline, and every page has a frame;
  \<open>newline_script_never_ends\<close> shows that for such a line with a newline at its end no number is. All other loops are total: by recursion on the data, with a
  termination proof (\<open>clock_scan\<close>, \<open>inode_read_loop\<close>, \<open>inode_write_loop\<close>, \<open>words_a1\<close>,
  \<open>script_lines\<close>, \<open>sort_outer\<close>), or, for \<open>parse_loop_a2\<close>, which can run for ever, as a partial
  function.

  \<^bold>\<open>Contracts.\<close> \<open>sector_store\<close> is the contract of a store of sectors: what is read after a write.
  Block devices interpret it (\<open>raw\<close>), and so does the cache (\<open>bc\<close>), with
  the same abstract view. Runs of operations on two stores with the same view give the same
  results, which is how the cache is shown to be transparent; the proofs about inodes use the
  laws of the cache only through its interpretation. \<open>var_store\<close> is the contract of a variable store; arrays of
  slots (\<open>slots\<close>) and both shells (\<open>a1\<close>, \<open>a2\<close>) interpret it. \<open>deque\<close> is that of double-ended
  queues, which both kinds of linked lists provide (\<open>ll\<close>, \<open>dl\<close>); \<open>line_runner\<close> is what the scheduler of the
  third shell asks of the commands in a script, and commands on variables keep it (\<open>variables\<close>).
  \<open>simulation\<close> is the contract of the file system with its users: each command, where it is allowed, does
  what its abstract version does to a map from names to bytes and positions; the commands of \<open>fsutil.c\<close> interpret it
  (\<open>disk\<close>). \<open>metered\<close> extends it by a quantity no command changes: the free sectors and those
  the files need together (\<open>sectors\<close>).

  \<^bold>\<open>What is shown.\<close> For the file system: sectors are independent and keep what is written; the
  cache is invisible, terminates, and evicts by the second-chance rule; the bit operations touch
  exactly the bits they should; inodes survive the way to the disk and back; both
  traversals of the block tree agree; reads and writes of a file transfer exactly the
  bytes asked for; allocation takes the first free sector and release is its inverse.
  A file that is made or extended gets exactly the sectors it needs, for its data and for the indirect blocks, none of which was in
  use, is filled with zeros, and leaves every other file as it was (\<open>inode_create_zeros\<close>, \<open>inode_write_extends\<close>); a file that is
  removed gives back exactly these sectors (\<open>inode_deallocate_exact\<close>).
  A directory is a map from names to inodes. On this rests the abstract view of the file system: making the root directory gives the empty map, and
  sequences of commands that create, write, read, seek, measure and remove files of the root directory do to the map what
  \<open>map_command\<close> says, with the invariant \<open>store_ok\<close> (no sector is shared, all inodes are well formed, the free map is up
  to date, the table of open files agrees with the disk) before and after each, and no sector is lost (\<open>session_refines\<close>).
  The files are named by their absolute path, because a plain name overflows the arrays of \<open>filesys_create\<close> and
  \<open>filesys_remove\<close> (\<open>path_arrays_fit\<close>); they stay open from one command to the next, as the shell has no command to close them.
  For the lists of \<open>list.c\<close>: splicing, ordered insertion, removal of duplicates, and a stable merge sort.
  For the shells: lines are split into the words they were made of, variables hold what they
  were set to, paging loads the right lines and leaves the variables alone, processes have the
  right number of pages, and commands separated by a semicolon are executed one after the other.
  For the third shell, and the scripts described above: \<open>run\<close> executes the lines of a script in order, \<open>exec\<close> those of up to
  three scripts as an abstract round robin orders them, through all page faults (but without evictions), and both end and leave an idle kernel.
  Several theorems state behaviour of the code that its authors cannot have meant: sectors
  beyond 4 GiB are aliases, a full disk overwrites the inode of the free map, writing nothing truncates a file,
  reopened inodes dangle, a directory cannot be removed, the pass of \<open>sort_ready_queue\<close> does not sort, evicted processes
  are not told, a value of several words overflows the block of \<open>set\<close> in the first shell, a semicolon after a space never lets the
  parser end, and a script of one line that ends in a newline runs for ever.

  \<^bold>\<open>Not modelled.\<close> The line that \<open>block_register\<close> prints, \<open>printAge\<close> and the unused copies of \<open>match\<close> and
  \<open>extract\<close> in the second shell, failed allocations of memory, and the growth of the file of the
  free map while it is being written (it has its full size from the start). Makefiles and header files
  that only declare functions have no content of their own.
\<close>

end
